(* ===== verification/Prelude.thy ===== *)
theory Prelude
  imports Main "HOL-Library.Finite_Map" "HOL-Library.Char_ord" "HOL-Library.List_Lexorder"
    "HOL-Library.Word"
begin

text \<open>
  Shared vocabulary of the development.

  A Go \<open>string\<close> is a byte sequence compared bytewise, so it is a HOL \<open>string\<close> (a list of
  8-bit \<open>char\<close>s) under the lexicographic order of \<open>List_Lexorder\<close> and \<open>Char_ord\<close>.  A Go \<open>map\<close>
  is a finite map; iterating it in Go visits the keys in an unspecified order, and every
  iteration of the modelled code either sorts afterwards or computes something that does not
  depend on the order (the order in which one sweep reports its expiries apart), so the model
  visits the keys in ascending order (\<open>fmkeys\<close>).  \<open>uint64\<close>
  values are 64-bit words.  \<open>int64\<close> unix times are only ever compared, so they are \<open>int\<close>, and a
  \<open>time.Time\<close> is the \<open>int\<close> number of nanoseconds since the epoch.
\<close>

section \<open>Collections of rewrite rules\<close>

named_theorems kv_effects \<open>equations for what a store operation leaves unchanged\<close>
named_theorems inv_intros \<open>preservation of the component invariants\<close>

type_synonym u64 = "64 word"
type_synonym unix_time = int
type_synonym nanos = int

section \<open>Time\<close>

definition second :: nanos where
  "second = 1000000000"

text \<open>\<open>time.Time.Unix()\<close>: whole seconds since the epoch, rounded towards minus infinity.\<close>

definition unix :: "nanos \<Rightarrow> unix_time" where
  "unix t = t div second"

lemma second_pos [simp]: "0 < second"
  by (simp add: second_def)

lemma unix_mono: "s \<le> t \<Longrightarrow> unix s \<le> unix t"
  by (simp add: unix_def zdiv_mono1)

section \<open>Finite maps with ordered keys\<close>

definition fmkeys :: "('k::linorder, 'v) fmap \<Rightarrow> 'k list" where
  "fmkeys m = sorted_list_of_fset (fmdom m)"

lemma sorted_list_of_fset_code [simp]:
  "sorted_list_of_fset {||} = []"
  "sorted_list_of_fset (finsert x A) = insort x (sorted_list_of_fset (A |-| {|x|}))"
  by (simp_all add: sorted_list_of_fset.rep_eq sorted_list_of_set_insert_remove)

lemma fmkeys_empty [simp]: "fmkeys fmempty = []"
  by (simp add: fmkeys_def)

lemma set_fmkeys [simp]: "set (fmkeys m) = fmdom' m"
  by (simp add: fmkeys_def fmdom'_alt_def)

lemma sorted_fmkeys [simp]: "sorted (fmkeys m)"
  by (simp add: fmkeys_def sorted_list_of_fset.rep_eq)

lemma distinct_fmkeys [simp]: "distinct (fmkeys m)"
  by (simp add: fmkeys_def sorted_list_of_fset.rep_eq)

lemma length_fmkeys: "length (fmkeys m) = fcard (fmdom m)"
  by (simp add: fmkeys_def sorted_list_of_fset.rep_eq fcard.rep_eq)

lemma in_fmkeys_iff: "k \<in> set (fmkeys m) \<longleftrightarrow> (\<exists>v. fmlookup m k = Some v)"
  by (simp add: fmlookup_dom'_iff)

lemma fmkeys_of_list [code]: "fmkeys (fmap_of_list xs) = sort (remdups (map fst xs))"
  by (simp add: fmkeys_def sorted_list_of_fset.rep_eq fset_of_list.rep_eq
      flip: sorted_list_of_set_sort_remdups)

lemma fcard_fmdom: "fcard (fmdom m) = card (fmdom' m)"
  by (simp add: fcard.rep_eq fmdom'_alt_def)

text \<open>The entries of a map in ascending key order: a \<open>range\<close> loop.\<close>

definition fmentries :: "('k::linorder, 'v) fmap \<Rightarrow> ('k \<times> 'v) list" where
  "fmentries m = map (\<lambda>k. (k, the (fmlookup m k))) (fmkeys m)"

lemma set_fmentries: "set (fmentries m) = {(k, v). fmlookup m k = Some v}"
  by (auto simp: fmentries_def fmlookup_dom'_iff image_iff)

lemma map_fst_fmentries [simp]: "map fst (fmentries m) = fmkeys m"
  by (simp add: fmentries_def comp_def)

text \<open>How many entries of a map satisfy a predicate (the \<open>n++\<close> loops over a map).\<close>

definition fmcount :: "('v \<Rightarrow> bool) \<Rightarrow> ('k::linorder, 'v) fmap \<Rightarrow> nat" where
  "fmcount P m = length (filter (\<lambda>(k, v). P v) (fmentries m))"

lemma distinct_fmentries [simp]: "distinct (fmentries m)"
  by (metis distinct_fmkeys distinct_map map_fst_fmentries)

lemma fmcount_card: "fmcount P m = card {k. \<exists>v. fmlookup m k = Some v \<and> P v}"
proof -
  have "fmcount P m = card (set (filter (\<lambda>(k, v). P v) (fmentries m)))"
    unfolding fmcount_def by (rule distinct_card [symmetric]) simp
  also have "set (filter (\<lambda>(k, v). P v) (fmentries m)) = {(k, v). fmlookup m k = Some v \<and> P v}"
    by (auto simp: set_fmentries)
  also have "card \<dots> = card (fst ` {(k, v). fmlookup m k = Some v \<and> P v})"
    by (rule card_image [symmetric]) (auto simp: inj_on_def)
  also have "fst ` {(k, v). fmlookup m k = Some v \<and> P v} = {k. \<exists>v. fmlookup m k = Some v \<and> P v}"
    by (auto simp: image_iff)
  finally show ?thesis .
qed

lemma finite_fmlookup_Collect [simp]: "finite {k. \<exists>v. fmlookup m k = Some v \<and> P k v}"
  by (rule finite_subset [of _ "fmdom' m"]) (auto simp: fmlookup_dom'_iff)

lemma fmcount_mono:
  assumes "\<And>k v. fmlookup m' k = Some v \<Longrightarrow> P v \<Longrightarrow> \<exists>w. fmlookup m k = Some w \<and> Q w"
  shows "fmcount P m' \<le> fmcount Q m"
  unfolding fmcount_card by (rule card_mono) (use assms in auto)

section \<open>Machine words\<close>

lemma word_less_inc: "(x::'a::len word) \<noteq> - 1 \<Longrightarrow> y \<le> x \<Longrightarrow> y < x + 1"
  by (meson inc_less_eq_iff leD linorder_le_less_linear order_le_less_trans order_refl)

lemma unat_inc: "(x::'a::len word) \<noteq> - 1 \<Longrightarrow> unat (x + 1) = Suc (unat x)"
  by (metis add.commute add_eq_0_iff unatSuc)

lemma less_not_max: "(s::'a::len word) < hi \<Longrightarrow> s \<noteq> - 1"
  using word_order.not_eq_extremum by fastforce

lemma word_less_Suc_iff: "(s::'a::len word) \<noteq> - 1 \<Longrightarrow> s + 1 \<le> x \<longleftrightarrow> s < x"
  by (simp add: inc_less_eq_iff)

lemma word_less_inc_iff: "(s::'a::len word) \<noteq> - 1 \<Longrightarrow> x < s + 1 \<longleftrightarrow> x \<le> s"
  by (metis not_le word_less_Suc_iff)

section \<open>Bounded rings\<close>

text \<open>\<open>if len(xs) > n { xs = xs[len(xs)-n:] }\<close>: keep the newest \<open>n\<close> elements.\<close>

definition ring :: "nat \<Rightarrow> 'a list \<Rightarrow> 'a list" where
  "ring n xs = (if n < length xs then drop (length xs - n) xs else xs)"

lemma ring_alt: "ring n xs = drop (length xs - n) xs"
  by (simp add: ring_def)

lemma length_ring [simp]: "length (ring n xs) = min n (length xs)"
  by (auto simp: ring_def)

lemma set_ring_subset: "set (ring n xs) \<subseteq> set xs"
  by (simp add: ring_alt set_drop_subset)

lemma ring_snoc_last: "0 < n \<Longrightarrow> last (ring n (xs @ [x])) = x"
  by (simp add: ring_alt)

lemma ring_idle: "length xs \<le> n \<Longrightarrow> ring n xs = xs"
  by (simp add: ring_def)

end
