(* ===== verification/Utf8.thy ===== *)
theory Utf8
  imports Prelude
begin

text \<open>
  The text layer of the wire: UTF-8 as Go's \<open>unicode/utf8\<close> decodes it, the length of a JSON
  string literal (\<open>EscapedLen\<close>, \<open>asciiEscapeLen\<close>, \<open>invalidByteCost\<close> of \<open>pkg/proto/wire.go\<close>)
  and the removal of legacy colour tags (\<open>stripMarkup\<close>).
\<close>

section \<open>UTF-8 decoding\<close>

definition byte :: "char \<Rightarrow> nat" where
  "byte c = of_char c"

lemma byte_less [simp]: "byte c < 256"
  by (simp add: byte_def)

definition RuneError :: nat where
  "RuneError = 0xFFFD"

definition contByte :: "char \<Rightarrow> bool" where
  "contByte c \<longleftrightarrow> 0x80 \<le> byte c \<and> byte c \<le> 0xBF"

text \<open>The range a second byte must be in, by first byte (\<open>utf8.acceptRanges\<close>).\<close>

definition secondByte :: "nat \<Rightarrow> char \<Rightarrow> bool" where
  "secondByte x c \<longleftrightarrow>
     (if x = 0xE0 then 0xA0 else if x = 0xF0 then 0x90 else 0x80) \<le> byte c \<and>
     byte c \<le> (if x = 0xED then 0x9F else if x = 0xF4 then 0x8F else 0xBF)"

text \<open>
  \<open>utf8.DecodeRuneInString\<close>: the first rune and its width in bytes.  A byte that starts no
  well-formed sequence is \<open>RuneError\<close> with width 1, the empty string \<open>RuneError\<close> with width 0.
\<close>

definition DecodeRune :: "string \<Rightarrow> nat \<times> nat" where
  "DecodeRune s = (case s of
     [] \<Rightarrow> (RuneError, 0)
   | c # cs \<Rightarrow>
      (let x = byte c in
       if x < 0x80 then (x, 1)
       else if 0xC2 \<le> x \<and> x \<le> 0xDF then
         (case cs of
            c1 # _ \<Rightarrow> if secondByte x c1 then ((x - 0xC0) * 64 + (byte c1 - 0x80), 2)
                       else (RuneError, 1)
          | _ \<Rightarrow> (RuneError, 1))
       else if 0xE0 \<le> x \<and> x \<le> 0xEF then
         (case cs of
            c1 # c2 # _ \<Rightarrow> if secondByte x c1 \<and> contByte c2
              then ((x - 0xE0) * 4096 + (byte c1 - 0x80) * 64 + (byte c2 - 0x80), 3)
              else (RuneError, 1)
          | _ \<Rightarrow> (RuneError, 1))
       else if 0xF0 \<le> x \<and> x \<le> 0xF4 then
         (case cs of
            c1 # c2 # c3 # _ \<Rightarrow> if secondByte x c1 \<and> contByte c2 \<and> contByte c3
              then ((x - 0xF0) * 262144 + (byte c1 - 0x80) * 4096 + (byte c2 - 0x80) * 64
                      + (byte c3 - 0x80), 4)
              else (RuneError, 1)
          | _ \<Rightarrow> (RuneError, 1))
       else (RuneError, 1)))"

lemma DecodeRune_size:
  assumes "s \<noteq> []"
  shows "1 \<le> snd (DecodeRune s)" "snd (DecodeRune s) \<le> 4" "snd (DecodeRune s) \<le> length s"
  using assms by (auto simp: DecodeRune_def Let_def split: list.split)

lemma DecodeRune_cases_size:
  "DecodeRune s = (r, n) \<Longrightarrow> s \<noteq> [] \<Longrightarrow> 1 \<le> n \<and> n \<le> 4 \<and> n \<le> length s"
  using DecodeRune_size [of s] by simp

lemma DecodeRune_ascii: "byte c < 0x80 \<Longrightarrow> DecodeRune (c # cs) = (byte c, 1)"
  by (simp add: DecodeRune_def)

text \<open>\<open>utf8.ValidString\<close>.\<close>

function ValidString :: "string \<Rightarrow> bool" where
  "ValidString s =
     (if s = [] then True
      else (case DecodeRune s of (r, n) \<Rightarrow>
        if r = RuneError \<and> n = 1 then False else ValidString (drop n s)))"
  by pat_completeness auto
termination
  by (relation "measure length") (auto dest!: DecodeRune_cases_size [OF sym])

declare ValidString.simps [simp del]

lemma ValidString_Nil [simp]: "ValidString []"
  by (simp add: ValidString.simps)

lemma ValidString_ascii [simp]:
  assumes "byte c < 0x80"
  shows "ValidString (c # cs) = ValidString cs"
proof -
  have "byte c \<noteq> RuneError"
    using assms by (simp add: RuneError_def)
  then show ?thesis
    using assms by (subst ValidString.simps) (simp add: DecodeRune_ascii)
qed

lemma ValidString_ascii_all: "list_all (\<lambda>c. byte c < 0x80) s \<Longrightarrow> ValidString s"
  by (induction s) auto

section \<open>The length of a JSON string\<close>

text \<open>\<open>asciiEscapeLen\<close>: what one ASCII byte costs inside a JSON string.\<close>

definition asciiEscapeLen :: "nat \<Rightarrow> nat" where
  "asciiEscapeLen c =
     (if c = 8 \<or> c = 9 \<or> c = 10 \<or> c = 12 \<or> c = 13 \<or> c = 34 \<or> c = 92 then 2
      else if c < 0x20 \<or> c = 60 \<or> c = 62 \<or> c = 38 then 6
      else 1)"

text \<open>
  \<open>invalidByteCost\<close> is measured from the JSON encoder at start-up: six bytes for the escape
  \<open>\ufffd\<close> before Go 1.25, three for the replacement character itself since.  It is a parameter
  of the counting loop; \<open>EscapedLen\<close> fixes the value of the toolchain \<open>go.mod\<close> names (1.22), which is
  also the one the source falls back on, and
  \<open>escapedLenFrom_valid\<close> shows that no valid string depends on it.
\<close>

function escapedLenFrom :: "nat \<Rightarrow> nat \<Rightarrow> string \<Rightarrow> nat" where
  "escapedLenFrom cost n s =
     (if s = [] then n
      else if byte (hd s) < 0x80 then escapedLenFrom cost (n + asciiEscapeLen (byte (hd s))) (tl s)
      else (case DecodeRune s of (r, w) \<Rightarrow>
        if r = RuneError \<and> w = 1 then escapedLenFrom cost (n + cost) (tl s)
        else if r = 0x2028 \<or> r = 0x2029 then escapedLenFrom cost (n + 6) (drop w s)
        else escapedLenFrom cost (n + w) (drop w s)))"
  by pat_completeness auto
termination
  by (relation "measure (\<lambda>(c, n, s). length s)") (auto dest!: DecodeRune_cases_size [OF sym])

declare escapedLenFrom.simps [simp del]

definition invalidByteCost :: nat where
  "invalidByteCost = 6"

definition EscapedLen :: "string \<Rightarrow> nat" where
  "EscapedLen s = escapedLenFrom invalidByteCost 2 s"

lemma escapedLenFrom_Nil [simp]: "escapedLenFrom cost n [] = n"
  by (simp add: escapedLenFrom.simps)

lemma asciiEscapeLen_bounds: "1 \<le> asciiEscapeLen c" "asciiEscapeLen c \<le> 6"
  by (simp_all add: asciiEscapeLen_def)

lemma escapedLenFrom_bounds:
  assumes "cost \<le> 6"
  shows "n \<le> escapedLenFrom cost n s \<and> escapedLenFrom cost n s \<le> n + 6 * length s"
  using assms
proof (induction cost n s rule: escapedLenFrom.induct)
  case (1 cost n s)
  show ?case
  proof (cases "s = []")
    case False
    obtain r w where d: "DecodeRune s = (r, w)"
      by fastforce
    then have size: "1 \<le> w" "w \<le> length s"
      using DecodeRune_cases_size [of s r w] False by auto
    have "length s = Suc (length (tl s))"
      using False by (cases s) auto
    then show ?thesis
      using 1 False d size asciiEscapeLen_bounds [of "byte (hd s)"]
      by (subst (1 2) escapedLenFrom.simps) (auto split: if_splits)
  qed simp
qed


text \<open>
  The quick length test of \<open>admitLocked\<close> never changes its answer: a string no longer than a
  sixth of the limit cannot escape past it.
\<close>

lemma EscapedLen_le: "EscapedLen s \<le> 2 + 6 * length s"
  using escapedLenFrom_bounds [of invalidByteCost 2 s] by (simp add: EscapedLen_def invalidByteCost_def)

lemma EscapedLen_ge_2: "2 \<le> EscapedLen s"
  using escapedLenFrom_bounds [of invalidByteCost 2 s] by (simp add: EscapedLen_def invalidByteCost_def)

lemma ValidString_step:
  assumes "ValidString s" "s \<noteq> []" "DecodeRune s = (r, w)"
  shows "\<not> (r = RuneError \<and> w = 1)" "ValidString (drop w s)"
  using assms by (subst (asm) ValidString.simps; auto split: if_splits)+

lemma escapedLenFrom_valid:
  "ValidString s \<Longrightarrow> escapedLenFrom cost n s = escapedLenFrom cost' n s"
proof (induction cost n s rule: escapedLenFrom.induct)
  case (1 cost n s)
  show ?case
  proof (cases "s = []")
    case False
    obtain r w where d: "DecodeRune s = (r, w)"
      by fastforce
    note st = ValidString_step [OF 1(5) False d]
    show ?thesis
    proof (cases "byte (hd s) < 0x80")
      case True
      then have "ValidString (tl s)"
        using 1(5) False by (cases s) auto
      then show ?thesis
        using 1(1) True False
        by (subst (1 2) escapedLenFrom.simps) simp
    next
      case nascii: False
      then show ?thesis
        using 1(3,4) st False d
        by (subst (1 2) escapedLenFrom.simps) auto
    qed
  qed simp
qed

section \<open>Legacy markup\<close>

text \<open>What \<open>strings.Builder.WriteRune\<close> appends for one decoded rune.\<close>

definition runeBytes :: "string \<Rightarrow> string" where
  "runeBytes s = (case DecodeRune s of (r, w) \<Rightarrow>
     if r = RuneError \<and> w = 1 then [CHR 0xEF, CHR 0xBF, CHR 0xBD] else take w s)"

function stripMarkupFrom :: "nat \<Rightarrow> string \<Rightarrow> string" where
  "stripMarkupFrom depth s =
     (if s = [] then []
      else (case DecodeRune s of (r, w) \<Rightarrow>
        if r = 91 then stripMarkupFrom (depth + 1) (drop w s)
        else if r = 93 \<and> depth > 0 then stripMarkupFrom (depth - 1) (drop w s)
        else if depth = 0 then runeBytes s @ stripMarkupFrom depth (drop w s)
        else stripMarkupFrom depth (drop w s)))"
  by pat_completeness auto
termination
  by (relation "measure (\<lambda>(d, s). length s)") (auto dest!: DecodeRune_cases_size [OF sym])

declare stripMarkupFrom.simps [simp del]

definition stripMarkup :: "string \<Rightarrow> string" where
  "stripMarkup s = stripMarkupFrom 0 s"

lemma stripMarkupFrom_Nil [simp]: "stripMarkupFrom d [] = []"
  by (simp add: stripMarkupFrom.simps)

text \<open>Decoding is local: the bytes of a written rune decode to that rune whatever follows.\<close>

lemma DecodeRune_take:
  assumes "s \<noteq> []" "DecodeRune s = (r, w)" "\<not> (r = RuneError \<and> w = 1)"
  shows "DecodeRune (take w s @ t) = (r, w)"
  using assms
  by (cases s) (auto simp: DecodeRune_def Let_def split: list.splits if_splits)

lemma DecodeRune_replacement:
  "DecodeRune (CHR 0xEF # CHR 0xBF # CHR 0xBD # t) = (RuneError, 3)"
  by (simp add: DecodeRune_def byte_def secondByte_def contByte_def RuneError_def)

lemma DecodeRune_runeBytes:
  assumes "s \<noteq> []" "DecodeRune s = (r, w)"
  shows "DecodeRune (runeBytes s @ t) = (r, length (runeBytes s))"
    and "\<not> (r = RuneError \<and> length (runeBytes s) = 1)"
    and "runeBytes s \<noteq> []"
  using assms DecodeRune_take [OF assms, of t] DecodeRune_cases_size [OF assms(2,1)]
  by (auto simp: runeBytes_def DecodeRune_replacement)

lemma runeBytes_idem: "s \<noteq> [] \<Longrightarrow> runeBytes (runeBytes s @ t) = runeBytes s"
  using DecodeRune_runeBytes(1) [of s "fst (DecodeRune s)" "snd (DecodeRune s)" t]
    DecodeRune_runeBytes(2) [of s "fst (DecodeRune s)" "snd (DecodeRune s)"]
  by (auto simp: runeBytes_def [of "runeBytes s @ t"])

lemma stripMarkupFrom_idem: "stripMarkupFrom 0 (stripMarkupFrom d s) = stripMarkupFrom d s"
proof (induction d s rule: stripMarkupFrom.induct)
  case (1 d s)
  show ?case
  proof (cases "s = []")
    case False
    obtain r w where d: "DecodeRune s = (r, w)"
      by fastforce
    show ?thesis
    proof (cases "d = 0 \<and> r \<noteq> 91")
      case True
      define out where "out = stripMarkupFrom d (drop w s)"
      have IH: "stripMarkupFrom 0 out = out"
        using 1(3) True False d by (simp add: out_def)
      have s: "stripMarkupFrom d s = runeBytes s @ out"
        using True False d by (subst stripMarkupFrom.simps) (simp add: out_def)
      have "stripMarkupFrom 0 (runeBytes s @ out) = runeBytes s @ stripMarkupFrom 0 out"
        using DecodeRune_runeBytes(1) [OF False d, of out] DecodeRune_runeBytes(2,3) [OF False d]
          runeBytes_idem [OF False] True
        by (subst stripMarkupFrom.simps) simp
      then show ?thesis
        by (simp add: s IH)
    next
      case nw: False
      then show ?thesis
        using 1(1,2,4) False d by (subst (2 3) stripMarkupFrom.simps) auto
    qed
  qed simp
qed

end
