(* ===== verification/Wire.thy ===== *)
theory Wire
  imports Utf8
begin

text \<open>
  The message bodies of \<open>pkg/proto/wire.go\<close>: message kinds, the per-key logical clock
  (\<open>Version\<close>) with its total order, versioned updates, chat lines, digests and the membership
  messages.  A Go struct is a record whose fields carry a short prefix for the struct;
  \<open>Version\<close> is a datatype so that the library's order classes apply to it.
\<close>

section \<open>Message kinds\<close>

type_synonym MessageKind = "8 word"

abbreviation (input) KindKV :: MessageKind where "KindKV \<equiv> 0"
abbreviation (input) KindChat :: MessageKind where "KindChat \<equiv> 1"
abbreviation (input) KindStateRequest :: MessageKind where "KindStateRequest \<equiv> 2"
abbreviation (input) KindStateResponse :: MessageKind where "KindStateResponse \<equiv> 3"
abbreviation (input) KindPeerGossip :: MessageKind where "KindPeerGossip \<equiv> 4"
abbreviation (input) KindHello :: MessageKind where "KindHello \<equiv> 5"
abbreviation (input) KindGoodbye :: MessageKind where "KindGoodbye \<equiv> 6"
abbreviation (input) KindDigest :: MessageKind where "KindDigest \<equiv> 7"
abbreviation (input) KindPullRequest :: MessageKind where "KindPullRequest \<equiv> 8"
abbreviation (input) KindKVBatch :: MessageKind where "KindKVBatch \<equiv> 9"
abbreviation (input) KindDirectMessage :: MessageKind where "KindDirectMessage \<equiv> 10"
abbreviation (input) KindFingerprint :: MessageKind where "KindFingerprint \<equiv> 11"
abbreviation (input) KindFingerprintReply :: MessageKind where "KindFingerprintReply \<equiv> 12"
abbreviation (input) KindChatPull :: MessageKind where "KindChatPull \<equiv> 13"
abbreviation (input) KindChatBacklog :: MessageKind where "KindChatBacklog \<equiv> 14"
abbreviation (input) KindBootstrapRegister :: MessageKind where "KindBootstrapRegister \<equiv> 20"
abbreviation (input) KindBootstrapDiscover :: MessageKind where "KindBootstrapDiscover \<equiv> 21"
abbreviation (input) KindBootstrapRoster :: MessageKind where "KindBootstrapRoster \<equiv> 22"

definition kindString :: "MessageKind \<Rightarrow> string" where
  "kindString k =
     (if k = KindKV then ''kv''
      else if k = KindChat then ''chat''
      else if k = KindStateRequest then ''state_request''
      else if k = KindStateResponse then ''state_response''
      else if k = KindPeerGossip then ''peer_gossip''
      else if k = KindHello then ''hello''
      else if k = KindGoodbye then ''goodbye''
      else if k = KindDigest then ''digest''
      else if k = KindPullRequest then ''pull_request''
      else if k = KindKVBatch then ''kv_batch''
      else if k = KindDirectMessage then ''direct_message''
      else if k = KindFingerprint then ''fingerprint''
      else if k = KindFingerprintReply then ''fingerprint_reply''
      else if k = KindChatPull then ''chat_pull''
      else if k = KindChatBacklog then ''chat_backlog''
      else if k = KindBootstrapRegister then ''bootstrap_register''
      else if k = KindBootstrapDiscover then ''bootstrap_discover''
      else if k = KindBootstrapRoster then ''bootstrap_roster''
      else ''unknown'')"

section \<open>Versions\<close>

datatype version = Version (Counter: u64) (Node: string)

definition Newer :: "version \<Rightarrow> version \<Rightarrow> bool" where
  "Newer v other =
     (if Counter v \<noteq> Counter other then Counter v > Counter other
      else Node v > Node other)"

definition Zero :: "version \<Rightarrow> bool" where
  "Zero v \<longleftrightarrow> Counter v = 0 \<and> Node v = ''''"

definition Equal :: "version \<Rightarrow> version \<Rightarrow> bool" where
  "Equal v other \<longleftrightarrow> Counter v = Counter other \<and> Node v = Node other"

instantiation version :: linorder
begin

definition less_version :: "version \<Rightarrow> version \<Rightarrow> bool" where
  "v < w \<longleftrightarrow> Counter v < Counter w \<or> Counter v = Counter w \<and> Node v < Node w"

definition less_eq_version :: "version \<Rightarrow> version \<Rightarrow> bool" where
  "v \<le> w \<longleftrightarrow> Counter v < Counter w \<or> Counter v = Counter w \<and> Node v \<le> Node w"

instance
  by standard (auto simp: less_version_def less_eq_version_def version.expand)

end

lemma Newer_iff [simp]: "Newer v w \<longleftrightarrow> w < v"
  by (auto simp: Newer_def less_version_def)

lemma Equal_iff [simp]: "Equal v w \<longleftrightarrow> v = w"
  by (auto simp: Equal_def version.expand)

lemma Zero_iff: "Zero v \<longleftrightarrow> v = Version 0 ''''"
  by (cases v) (simp add: Zero_def)

section \<open>Updates\<close>

type_synonym KVAction = string

abbreviation (input) KVSet :: KVAction where "KVSet \<equiv> ''set''"
abbreviation (input) KVDelete :: KVAction where "KVDelete \<equiv> ''delete''"

record KVUpdate =
  u_Action :: KVAction
  u_Key :: string
  u_Value :: string
  u_Version :: version
  u_ExpiresAt :: unix_time
  u_DeletedAt :: unix_time

definition zero_KVUpdate :: KVUpdate where
  "zero_KVUpdate = \<lparr>u_Action = '''', u_Key = '''', u_Value = '''', u_Version = Version 0 '''',
     u_ExpiresAt = 0, u_DeletedAt = 0\<rparr>"

section \<open>Chat\<close>

record ChatMessage =
  m_Sender :: string
  m_Nick :: string
  m_Text :: string
  m_TS :: unix_time
  m_Action :: bool
  m_To :: string
  m_Seq :: u64
  m_Node :: string
  m_Hops :: "8 word"

definition MaxChatHops :: "8 word" where
  "MaxChatHops = 3"

definition MaxChatPull :: nat where
  "MaxChatPull = 64"

record ChatPull =
  cp_From :: string
  cp_Seqs :: "u64 list"

record ChatBacklog =
  cb_From :: string
  cb_Messages :: "ChatMessage list"
  cb_Unavailable :: "u64 list"

type_synonym ChatKind = string

abbreviation (input) ChatMsg :: ChatKind where "ChatMsg \<equiv> ''''"
abbreviation (input) ChatSystem :: ChatKind where "ChatSystem \<equiv> ''system''"
abbreviation (input) ChatAction :: ChatKind where "ChatAction \<equiv> ''action''"
abbreviation (input) ChatDirect :: ChatKind where "ChatDirect \<equiv> ''dm''"

record ChatEntry =
  ce_TS :: unix_time
  ce_Sender :: string
  ce_Nick :: string
  ce_Text :: string
  ce_Kind :: ChatKind
  ce_To :: string
  ce_Seq :: u64
  ce_Node :: string

definition zero_ChatEntry :: ChatEntry where
  "zero_ChatEntry = \<lparr>ce_TS = 0, ce_Sender = '''', ce_Nick = '''', ce_Text = '''', ce_Kind = ChatMsg,
     ce_To = '''', ce_Seq = 0, ce_Node = ''''\<rparr>"

text \<open>
  \<open>ChatLog.UnmarshalJSON\<close>: the structured form when the data parses as one, otherwise the
  wire-v1 list of pre-rendered lines.  The two JSON decoders are parameters.
\<close>

definition ChatLog_UnmarshalJSON ::
  "(string \<Rightarrow> ChatEntry list option) \<Rightarrow> (string \<Rightarrow> string list option) \<Rightarrow> string \<Rightarrow> ChatEntry list option"
  where
  "ChatLog_UnmarshalJSON decEntries decStrings data = (case decEntries data of
     Some entries \<Rightarrow> Some entries
   | None \<Rightarrow> (case decStrings data of
       None \<Rightarrow> None
     | Some legacy \<Rightarrow>
         Some (map (\<lambda>line. zero_ChatEntry\<lparr>ce_Text := stripMarkup line, ce_Kind := ChatSystem\<rparr>) legacy)))"

section \<open>State sync and membership\<close>

record StateResponse =
  sr_KV :: "KVUpdate list"
  sr_Chat :: "ChatEntry list"

record PeerGossip =
  pg_From :: string
  pg_Nick :: string
  pg_ID :: string
  pg_Peers :: "string list"

record StoreLimits =
  sl_MaxValueBytes :: int
  sl_MaxKeys :: int

record Hello =
  h_Limits :: "StoreLimits option"
  h_From :: string
  h_Nick :: string
  h_ID :: string
  h_ChatSeq :: u64

record Goodbye =
  gb_From :: string
  gb_Nick :: string

section \<open>Anti-entropy and consistency\<close>

record KeyVersion =
  kvn_ExpiresAt :: unix_time
  kvn_Key :: string
  kvn_Version :: version
  kvn_Deleted :: bool
  kvn_ValueHash :: string

record Digest =
  d_From :: string
  d_Lo :: string
  d_Hi :: string
  d_Entries :: "KeyVersion list"

record PullRequest =
  pr_From :: string
  pr_Keys :: "string list"

record Fingerprint =
  fp_DigestVersion :: int
  fp_From :: string
  fp_Buckets :: "int list"

record FingerprintReply =
  fr_DigestVersion :: int
  fr_Capabilities :: "string list"
  fr_From :: string
  fr_Nick :: string
  fr_Keys :: nat
  fr_Tombstones :: nat
  fr_Clock :: u64
  fr_Buckets :: "string list"
  fr_Entries :: "KeyVersion list"

section \<open>Sizes\<close>

definition MaxFrameBytes :: nat where
  "MaxFrameBytes = 64 * 2 ^ 20"

definition frameReserve :: nat where
  "frameReserve = 64 * 2 ^ 10"

definition MaxReplicableValueBytes :: nat where
  "MaxReplicableValueBytes = MaxFrameBytes - frameReserve"

definition FingerprintBuckets :: nat where
  "FingerprintBuckets = 16"

lemma MaxReplicableValueBytes_eq: "MaxReplicableValueBytes = 67043328"
  by (simp add: MaxReplicableValueBytes_def MaxFrameBytes_def frameReserve_def)

section \<open>Bootstrap\<close>

record BootstrapRegister =
  br_From :: string
  br_Nick :: string

record BootstrapPeer =
  bp_Addr :: string
  bp_Nick :: string
  bp_LastSeen :: unix_time

record BootstrapRoster =
  ro_Peers :: "BootstrapPeer list"
  ro_SeenAt :: string

end
