(* ===== verification/KVStore.thy ===== *)
theory KVStore
  imports Wire
begin

text \<open>
  The versioned key-value store of \<open>pkg/discovery/model/kvstore.go\<close>: entries and tombstones,
  limits, the guarded local write (\<open>mutate\<close>), the last-write-wins merge (\<open>ApplyWithReason\<close>),
  the read operations, anti-entropy digests (\<open>Digest\<close>, \<open>Reconcile\<close>), the consistency
  fingerprint, TTL expiry and tombstone collection.

  Every operation takes the store and returns the new one.  A store runs under its lock, so one
  operation is one step; the time source is the field \<open>kv_now\<close>, which all readings within one
  operation share.  The two callbacks run outside the lock, after the step: \<open>kv_onChange\<close> and
  \<open>kv_onMutate\<close> say whether they are registered, and \<open>effects\<close> what they are called with.
\<close>

section \<open>State\<close>

definition historyPerKey :: nat where
  "historyPerKey = 20"

record kvEntry =
  e_Value :: string
  e_Version :: version
  e_Deleted :: bool
  e_ExpiresAt :: unix_time
  e_DeletedAt :: unix_time

definition expired :: "kvEntry \<Rightarrow> unix_time \<Rightarrow> bool" where
  "expired e now \<longleftrightarrow> e_ExpiresAt e \<noteq> 0 \<and> now \<ge> e_ExpiresAt e"

definition visible :: "kvEntry \<Rightarrow> unix_time \<Rightarrow> bool" where
  "visible e now \<longleftrightarrow> \<not> e_Deleted e \<and> \<not> expired e now"

record Entry =
  en_Key :: string
  en_Value :: string
  en_Version :: version
  en_Deleted :: bool
  en_ExpiresAt :: unix_time

record HistoryEntry =
  he_Version :: version
  he_Value :: string
  he_Deleted :: bool
  he_Local :: bool
  he_At :: nanos

record Limits =
  MaxValueBytes :: int
  MaxKeys :: int

datatype kvError =
    ErrTooLarge
  | ErrTooManyKeys
  | ErrVersionMismatch
  | ErrClockExhausted
  | ErrUnshippable
  | ErrNotRepresentable string

record WriteOptions =
  o_ExpectMissing :: bool
  o_AfterCounter :: u64
  o_ExpectUpdate :: "KVUpdate option"
  o_ExpiresAt :: unix_time
  o_Expect :: "version option"

definition zero_WriteOptions :: WriteOptions where
  "zero_WriteOptions = \<lparr>o_ExpectMissing = False, o_AfterCounter = 0, o_ExpectUpdate = None,
     o_ExpiresAt = 0, o_Expect = None\<rparr>"

datatype KVEventSource = KVSourceLocal | KVSourceRemote | KVSourceExpiry

record KVEvent =
  ev_ID :: string
  ev_Source :: KVEventSource
  ev_Update :: KVUpdate

record kvStore =
  kv_node :: string
  kv_clock :: u64
  kv_store :: "(string, kvEntry) fmap"
  kv_history :: "(string, HistoryEntry list) fmap"
  kv_onChange :: bool
  kv_onMutate :: bool
  kv_limits :: Limits
  kv_now :: nanos

text \<open>The calls a store operation makes after it released the lock.\<close>

record effects =
  eff_change :: bool
  eff_events :: "KVEvent list"

definition no_effects :: effects where
  "no_effects = \<lparr>eff_change = False, eff_events = []\<rparr>"

record PersistState =
  ps_NodeID :: string
  ps_Clock :: u64
  ps_Entries :: "(string, kvEntry) fmap"
  ps_Chat :: "ChatEntry list"
  ps_ChatSeq :: u64

definition NewKVStore :: "string \<Rightarrow> nanos \<Rightarrow> kvStore" where
  "NewKVStore node now = \<lparr>kv_node = node, kv_clock = 0, kv_store = fmempty, kv_history = fmempty,
     kv_onChange = False, kv_onMutate = False, kv_limits = \<lparr>MaxValueBytes = 0, MaxKeys = 0\<rparr>,
     kv_now = now\<rparr>"

definition SetLimits :: "Limits \<Rightarrow> kvStore \<Rightarrow> kvStore" where
  "SetLimits l kv = kv\<lparr>kv_limits := l\<rparr>"

definition SetClock :: "nanos \<Rightarrow> kvStore \<Rightarrow> kvStore" where
  "SetClock t kv = kv\<lparr>kv_now := t\<rparr>"

definition SetOnChange :: "kvStore \<Rightarrow> kvStore" where
  "SetOnChange kv = kv\<lparr>kv_onChange := True\<rparr>"

definition SetOnMutate :: "kvStore \<Rightarrow> kvStore" where
  "SetOnMutate kv = kv\<lparr>kv_onMutate := True\<rparr>"

text \<open>\<open>emit\<close>: nothing is delivered when nobody registered, or when there is nothing to say.\<close>

definition emit :: "bool \<Rightarrow> KVEvent list \<Rightarrow> KVEvent list" where
  "emit registered events = (if \<not> registered \<or> events = [] then [] else events)"

definition LoadState :: "PersistState \<Rightarrow> kvStore \<Rightarrow> kvStore" where
  "LoadState state kv = kv\<lparr>kv_clock := ps_Clock state, kv_store := ps_Entries state\<rparr>"

definition State :: "kvStore \<Rightarrow> PersistState" where
  "State kv = \<lparr>ps_NodeID = '''', ps_Clock = kv_clock kv, ps_Entries = kv_store kv, ps_Chat = [],
     ps_ChatSeq = 0\<rparr>"

section \<open>Admission\<close>

definition representable :: "string \<Rightarrow> string \<Rightarrow> bool \<Rightarrow> kvError option" where
  "representable key val checkValue =
     (if \<not> ValidString key then Some (ErrNotRepresentable ''key is '')
      else if checkValue \<and> \<not> ValidString val then Some (ErrNotRepresentable ''value is '')
      else None)"

text \<open>The number of live keys (\<open>Len\<close>, and the counting loop of \<open>admitLocked\<close>).\<close>

definition liveCount :: "kvStore \<Rightarrow> unix_time \<Rightarrow> nat" where
  "liveCount kv now = fmcount (\<lambda>e. visible e now) (kv_store kv)"

definition admitLocked :: "kvStore \<Rightarrow> string \<Rightarrow> string \<Rightarrow> unix_time \<Rightarrow> kvError option" where
  "admitLocked kv key val now =
     (if length val > MaxReplicableValueBytes div 6
         \<and> EscapedLen val - 2 > MaxReplicableValueBytes then Some ErrUnshippable
      else if MaxValueBytes (kv_limits kv) > 0
         \<and> int (length val) > MaxValueBytes (kv_limits kv) then Some ErrTooLarge
      else if MaxKeys (kv_limits kv) \<le> 0 then None
      else if (case fmlookup (kv_store kv) key of Some e \<Rightarrow> visible e now | None \<Rightarrow> False) then None
      else if int (liveCount kv now) \<ge> MaxKeys (kv_limits kv) then Some ErrTooManyKeys
      else None)"

section \<open>Local writes\<close>

definition recordLocked :: "string \<Rightarrow> kvEntry \<Rightarrow> bool \<Rightarrow> kvStore \<Rightarrow> kvStore" where
  "recordLocked key e local kv =
     (let old = (case fmlookup (kv_history kv) key of Some h \<Rightarrow> h | None \<Rightarrow> []);
          h = old @ [\<lparr>he_Version = e_Version e, he_Value = e_Value e, he_Deleted = e_Deleted e,
                 he_Local = local, he_At = kv_now kv\<rparr>]
      in kv\<lparr>kv_history := fmupd key (ring historyPerKey h) (kv_history kv)\<rparr>)"

definition entryUpdate :: "string \<Rightarrow> kvEntry \<Rightarrow> KVUpdate" where
  "entryUpdate key e = \<lparr>u_Action = (if e_Deleted e then KVDelete else KVSet), u_Key = key,
     u_Value = e_Value e, u_Version = e_Version e, u_ExpiresAt = e_ExpiresAt e,
     u_DeletedAt = e_DeletedAt e\<rparr>"

text \<open>The \<open>ExpectUpdate\<close> guard: the key must hold exactly the previewed entry.\<close>

definition matchesUpdate :: "kvEntry option \<Rightarrow> KVUpdate \<Rightarrow> bool" where
  "matchesUpdate cur expected = (case cur of
     None \<Rightarrow> False
   | Some c \<Rightarrow> Equal (e_Version c) (u_Version expected)
       \<and> e_Deleted c = (u_Action expected = KVDelete)
       \<and> e_Value c = u_Value expected
       \<and> e_ExpiresAt c = u_ExpiresAt expected)"

text \<open>The \<open>Expect\<close> guard: missing, tombstoned and expired keys all read as absent.\<close>

definition matchesExpect :: "kvEntry option \<Rightarrow> unix_time \<Rightarrow> version \<Rightarrow> bool" where
  "matchesExpect cur now expect = (case cur of
     None \<Rightarrow> Zero expect
   | Some c \<Rightarrow> if \<not> visible c now then Zero expect else Equal (e_Version c) expect)"

definition nextClock :: "kvStore \<Rightarrow> WriteOptions \<Rightarrow> u64" where
  "nextClock kv opt = (if o_AfterCounter opt > kv_clock kv then o_AfterCounter opt else kv_clock kv)"

text \<open>The early returns of \<open>mutate\<close>, in the order the code takes them.\<close>

definition mutateRefusal ::
  "kvStore \<Rightarrow> string \<Rightarrow> string \<Rightarrow> bool \<Rightarrow> WriteOptions \<Rightarrow> kvError option" where
  "mutateRefusal kv key val remove opt =
     (let now = unix (kv_now kv); cur = fmlookup (kv_store kv) key in
      case representable key val (\<not> remove) of
        Some err \<Rightarrow> Some err
      | None \<Rightarrow>
        if o_ExpectMissing opt \<and> cur \<noteq> None then Some ErrVersionMismatch
        else if (case o_ExpectUpdate opt of None \<Rightarrow> False | Some x \<Rightarrow> \<not> matchesUpdate cur x)
          then Some ErrVersionMismatch
        else (case (if remove then None else admitLocked kv key val now) of
          Some err \<Rightarrow> Some err
        | None \<Rightarrow>
          if (case o_Expect opt of None \<Rightarrow> False | Some x \<Rightarrow> \<not> matchesExpect cur now x)
            then Some ErrVersionMismatch
          else if nextClock kv opt = - 1 then Some ErrClockExhausted
          else None))"

text \<open>The entry a local write installs.\<close>

definition mutateEntry :: "kvStore \<Rightarrow> string \<Rightarrow> bool \<Rightarrow> WriteOptions \<Rightarrow> kvEntry" where
  "mutateEntry kv val remove opt =
     (let ver = Version (nextClock kv opt + 1) (kv_node kv) in
      if remove then \<lparr>e_Value = '''', e_Version = ver, e_Deleted = True, e_ExpiresAt = 0,
             e_DeletedAt = unix (kv_now kv)\<rparr>
      else \<lparr>e_Value = val, e_Version = ver, e_Deleted = False, e_ExpiresAt = o_ExpiresAt opt,
             e_DeletedAt = 0\<rparr>)"

definition mutate ::
  "kvStore \<Rightarrow> string \<Rightarrow> string \<Rightarrow> bool \<Rightarrow> WriteOptions \<Rightarrow> kvStore \<times> effects \<times> (kvError + KVUpdate)" where
  "mutate kv key val remove opt =
     (case mutateRefusal kv key val remove opt of
        Some err \<Rightarrow> (kv, no_effects, Inl err)
      | None \<Rightarrow>
        let e = mutateEntry kv val remove opt;
            kv1 = kv\<lparr>kv_clock := nextClock kv opt + 1, kv_store := fmupd key e (kv_store kv)\<rparr>;
            kv2 = recordLocked key e True kv1;
            u = \<lparr>u_Action = (if remove then KVDelete else KVSet), u_Key = key, u_Value = e_Value e,
                 u_Version = e_Version e, u_ExpiresAt = e_ExpiresAt e, u_DeletedAt = e_DeletedAt e\<rparr>
        in (kv2,
            \<lparr>eff_change = kv_onChange kv,
             eff_events = emit (kv_onMutate kv)
               [\<lparr>ev_ID = '''', ev_Source = KVSourceLocal, ev_Update = u\<rparr>]\<rparr>,
            Inr u))"

definition Write ::
  "kvStore \<Rightarrow> string \<Rightarrow> string \<Rightarrow> WriteOptions \<Rightarrow> kvStore \<times> effects \<times> (kvError + KVUpdate)" where
  "Write kv key val opt = mutate kv key val False opt"

definition Remove ::
  "kvStore \<Rightarrow> string \<Rightarrow> WriteOptions \<Rightarrow> kvStore \<times> effects \<times> (kvError + KVUpdate)" where
  "Remove kv key opt = mutate kv key '''' True opt"

section \<open>Remote updates\<close>

definition observeClock :: "KVUpdate \<Rightarrow> kvStore \<Rightarrow> kvStore" where
  "observeClock u kv =
     (if Counter (u_Version u) > kv_clock kv then kv\<lparr>kv_clock := Counter (u_Version u)\<rparr> else kv)"

text \<open>The entry a remote update installs.\<close>

definition applyEntry :: "KVUpdate \<Rightarrow> unix_time \<Rightarrow> kvEntry" where
  "applyEntry u now =
     (let deleted = (u_Action u = KVDelete) in
      \<lparr>e_Value = u_Value u, e_Version = u_Version u, e_Deleted = deleted,
       e_ExpiresAt = u_ExpiresAt u,
       e_DeletedAt = (if deleted \<and> u_DeletedAt u = 0 then now else u_DeletedAt u)\<rparr>)"

definition ApplyWithReason ::
  "kvStore \<Rightarrow> KVUpdate \<Rightarrow> kvStore \<times> effects \<times> bool \<times> kvError option" where
  "ApplyWithReason kv u =
     (case representable (u_Key u) (u_Value u) (u_Action u \<noteq> KVDelete) of
        Some err \<Rightarrow> (kv, no_effects, False, Some err)
      | None \<Rightarrow>
        let kv1 = observeClock u kv; now = unix (kv_now kv) in
        case (if u_Action u \<noteq> KVDelete then admitLocked kv1 (u_Key u) (u_Value u) now else None) of
          Some err \<Rightarrow> (kv1, no_effects, False, Some err)
        | None \<Rightarrow>
          if (case fmlookup (kv_store kv1) (u_Key u) of
                Some cur \<Rightarrow> \<not> Newer (u_Version u) (e_Version cur) | None \<Rightarrow> False)
          then (kv1, no_effects, False, None)
          else
            let e = applyEntry u now;
                kv2 = recordLocked (u_Key u) e False
                        (kv1\<lparr>kv_store := fmupd (u_Key u) e (kv_store kv1)\<rparr>)
            in (kv2,
                \<lparr>eff_change = kv_onChange kv,
                 eff_events = emit (kv_onMutate kv)
                   [\<lparr>ev_ID = '''', ev_Source = KVSourceRemote, ev_Update = entryUpdate (u_Key u) e\<rparr>]\<rparr>,
                True, None))"

definition Apply :: "kvStore \<Rightarrow> KVUpdate \<Rightarrow> kvStore \<times> effects \<times> bool" where
  "Apply kv u = (case ApplyWithReason kv u of (kv', eff, applied, _) \<Rightarrow> (kv', eff, applied))"

section \<open>Reads\<close>

definition Get :: "kvStore \<Rightarrow> string \<Rightarrow> string option" where
  "Get kv key = (case fmlookup (kv_store kv) key of
     None \<Rightarrow> None
   | Some e \<Rightarrow> if \<not> visible e (unix (kv_now kv)) then None else Some (e_Value e))"

definition GetEntry :: "kvStore \<Rightarrow> string \<Rightarrow> Entry option" where
  "GetEntry kv key = (case fmlookup (kv_store kv) key of
     None \<Rightarrow> None
   | Some e \<Rightarrow> if \<not> visible e (unix (kv_now kv)) then None
       else Some \<lparr>en_Key = key, en_Value = e_Value e, en_Version = e_Version e, en_Deleted = False,
              en_ExpiresAt = e_ExpiresAt e\<rparr>)"

definition Snapshot :: "kvStore \<Rightarrow> (string, string) fmap" where
  "Snapshot kv = fmmap e_Value (fmfilter (\<lambda>k. visible (the (fmlookup (kv_store kv) k)) (unix (kv_now kv)))
     (kv_store kv))"

definition Entries :: "kvStore \<Rightarrow> Entry list" where
  "Entries kv = map (\<lambda>(k, e). \<lparr>en_Key = k, en_Value = e_Value e, en_Version = e_Version e,
        en_Deleted = False, en_ExpiresAt = e_ExpiresAt e\<rparr>)
     (filter (\<lambda>(k, e). visible e (unix (kv_now kv))) (fmentries (kv_store kv)))"

definition Updates :: "kvStore \<Rightarrow> KVUpdate list" where
  "Updates kv = map (\<lambda>(k, e). entryUpdate k e) (fmentries (kv_store kv))"

definition UpdatesFor :: "kvStore \<Rightarrow> string list \<Rightarrow> KVUpdate list" where
  "UpdatesFor kv keys = List.map_filter
     (\<lambda>k. map_option (entryUpdate k) (fmlookup (kv_store kv) k)) keys"

definition History :: "kvStore \<Rightarrow> string \<Rightarrow> HistoryEntry list" where
  "History kv key = (case fmlookup (kv_history kv) key of Some h \<Rightarrow> h | None \<Rightarrow> [])"

definition Len :: "kvStore \<Rightarrow> nat" where
  "Len kv = liveCount kv (unix (kv_now kv))"

definition ValueBytes :: "kvStore \<Rightarrow> nat" where
  "ValueBytes kv = sum_list (map (\<lambda>(k, e). length (e_Value e))
     (filter (\<lambda>(k, e). visible e (unix (kv_now kv))) (fmentries (kv_store kv))))"

definition Tombstones :: "kvStore \<Rightarrow> nat" where
  "Tombstones kv = fmcount e_Deleted (kv_store kv)"

section \<open>Anti-entropy\<close>

definition StoreDigest :: "kvStore \<Rightarrow> string \<Rightarrow> nat \<Rightarrow> Digest" where
  "StoreDigest kv after limit =
     (let keys = filter (\<lambda>k. k > after \<or> after = '''') (fmkeys (kv_store kv));
          cut = (length keys > limit);
          batch = (if cut then take limit keys else keys);
          hi = (if cut then last batch @ [CHR 0x00] else '''')
      in \<lparr>d_From = '''', d_Lo = after, d_Hi = hi,
          d_Entries = map (\<lambda>k. (let e = the (fmlookup (kv_store kv) k) in
             \<lparr>kvn_ExpiresAt = 0, kvn_Key = k, kvn_Version = e_Version e, kvn_Deleted = e_Deleted e,
              kvn_ValueHash = ''''\<rparr>)) batch\<rparr>)"

definition inDigestRange :: "string \<Rightarrow> string \<Rightarrow> string \<Rightarrow> bool" where
  "inDigestRange key lo hi = (if lo \<noteq> '''' \<and> key \<le> lo then False else hi = '''' \<or> key < hi)"

text \<open>The \<open>switch\<close> over the advertised entries: what to push, and what to pull.\<close>

definition pushOf :: "kvStore \<Rightarrow> KeyVersion \<Rightarrow> KVUpdate option" where
  "pushOf kv adv = (case fmlookup (kv_store kv) (kvn_Key adv) of
     None \<Rightarrow> None
   | Some loc \<Rightarrow> if Newer (e_Version loc) (kvn_Version adv) then Some (entryUpdate (kvn_Key adv) loc)
       else None)"

definition pullOf :: "kvStore \<Rightarrow> KeyVersion \<Rightarrow> string option" where
  "pullOf kv adv = (case fmlookup (kv_store kv) (kvn_Key adv) of
     None \<Rightarrow> Some (kvn_Key adv)
   | Some loc \<Rightarrow> if Newer (e_Version loc) (kvn_Version adv) then None
       else if Newer (kvn_Version adv) (e_Version loc) then Some (kvn_Key adv) else None)"

text \<open>Everything held inside the digest's range that the digest does not mention.\<close>

definition unseenUpdates :: "kvStore \<Rightarrow> Digest \<Rightarrow> KVUpdate list" where
  "unseenUpdates kv d = map (\<lambda>(k, e). entryUpdate k e)
     (filter (\<lambda>(k, e). k \<notin> set (map kvn_Key (d_Entries d)) \<and> inDigestRange k (d_Lo d) (d_Hi d))
        (fmentries (kv_store kv)))"

definition Reconcile :: "kvStore \<Rightarrow> Digest \<Rightarrow> nat \<Rightarrow> nat \<Rightarrow> KVUpdate list \<times> string list" where
  "Reconcile kv d maxPush maxPull =
     (let push = sort_key u_Key (List.map_filter (pushOf kv) (d_Entries d) @ unseenUpdates kv d);
          pull = sort (List.map_filter (pullOf kv) (d_Entries d))
      in (if length push > maxPush then take maxPush push else push,
          if length pull > maxPull then take maxPull pull else pull))"

section \<open>Expiry and garbage collection\<close>

definition sweepEntry :: "unix_time \<Rightarrow> kvEntry \<Rightarrow> kvEntry" where
  "sweepEntry now e = e\<lparr>e_Deleted := True, e_Value := '''', e_DeletedAt := now\<rparr>"

definition needsSweep :: "unix_time \<Rightarrow> kvEntry \<Rightarrow> bool" where
  "needsSweep now e \<longleftrightarrow> \<not> (e_Deleted e \<or> \<not> expired e now)"

definition SweepExpired :: "kvStore \<Rightarrow> kvStore \<times> effects \<times> nat" where
  "SweepExpired kv =
     (let now = unix (kv_now kv);
          swept = filter (\<lambda>(k, e). needsSweep now e) (fmentries (kv_store kv));
          n = length swept;
          events = (if kv_onMutate kv then
             map (\<lambda>(k, e). \<lparr>ev_ID = '''', ev_Source = KVSourceExpiry,
                             ev_Update = entryUpdate k (sweepEntry now e)\<rparr>) swept else [])
      in (kv\<lparr>kv_store := fmmap (\<lambda>e. if needsSweep now e then sweepEntry now e else e) (kv_store kv)\<rparr>,
          \<lparr>eff_change = (n > 0 \<and> kv_onChange kv),
           eff_events = (if n > 0 then emit (kv_onMutate kv) events else [])\<rparr>,
          n))"

definition collectable :: "unix_time \<Rightarrow> kvEntry \<Rightarrow> bool" where
  "collectable cutoff e \<longleftrightarrow> e_Deleted e \<and> e_DeletedAt e \<noteq> 0 \<and> e_DeletedAt e < cutoff"

definition GCTombstones :: "kvStore \<Rightarrow> nanos \<Rightarrow> kvStore \<times> effects \<times> nat" where
  "GCTombstones kv olderThan =
     (if olderThan \<le> 0 then (kv, no_effects, 0)
      else
        let cutoff = unix (kv_now kv - olderThan);
            dead = (\<lambda>k. case fmlookup (kv_store kv) k of Some e \<Rightarrow> collectable cutoff e | None \<Rightarrow> False);
            n = fmcount (collectable cutoff) (kv_store kv)
        in (kv\<lparr>kv_store := fmfilter (\<lambda>k. \<not> dead k) (kv_store kv),
               kv_history := fmfilter (\<lambda>k. \<not> dead k) (kv_history kv)\<rparr>,
            \<lparr>eff_change = (n > 0 \<and> kv_onChange kv), eff_events = []\<rparr>,
            n))"

section \<open>Equations for the operations\<close>

lemma expired_mono: "expired e s \<Longrightarrow> s \<le> t \<Longrightarrow> expired e t"
  by (auto simp: expired_def)

lemma visible_antimono: "visible e t \<Longrightarrow> s \<le> t \<Longrightarrow> visible e s"
  by (auto simp: visible_def dest: expired_mono)

lemma emit_simps [simp]: "emit False evs = []" "emit True evs = evs" "emit r [] = []"
  by (auto simp: emit_def)

lemma no_effects_simps [simp]: "eff_change no_effects = False" "eff_events no_effects = []"
  by (simp_all add: no_effects_def)

lemma recordLocked_simps [simp]:
  "kv_node (recordLocked k e l kv) = kv_node kv"
  "kv_clock (recordLocked k e l kv) = kv_clock kv"
  "kv_store (recordLocked k e l kv) = kv_store kv"
  "kv_onChange (recordLocked k e l kv) = kv_onChange kv"
  "kv_onMutate (recordLocked k e l kv) = kv_onMutate kv"
  "kv_limits (recordLocked k e l kv) = kv_limits kv"
  "kv_now (recordLocked k e l kv) = kv_now kv"
  by (simp_all add: recordLocked_def Let_def)

lemma observeClock_simps [simp]:
  "kv_node (observeClock u kv) = kv_node kv"
  "kv_clock (observeClock u kv) = max (kv_clock kv) (Counter (u_Version u))"
  "kv_store (observeClock u kv) = kv_store kv"
  "kv_history (observeClock u kv) = kv_history kv"
  "kv_onChange (observeClock u kv) = kv_onChange kv"
  "kv_onMutate (observeClock u kv) = kv_onMutate kv"
  "kv_limits (observeClock u kv) = kv_limits kv"
  "kv_now (observeClock u kv) = kv_now kv"
  by (auto simp: observeClock_def max_def)

lemma admitLocked_observeClock [simp]:
  "admitLocked (observeClock u kv) k v now = admitLocked kv k v now"
  by (simp add: admitLocked_def liveCount_def)

text \<open>Which part of the state a refusal and a success touch.\<close>

lemma mutate_refused:
  "mutateRefusal kv k v rm opt = Some err \<Longrightarrow> mutate kv k v rm opt = (kv, no_effects, Inl err)"
  by (simp add: mutate_def)

lemma mutate_accepted:
  assumes "mutateRefusal kv k v rm opt = None"
  obtains kv' eff u where "mutate kv k v rm opt = (kv', eff, Inr u)"
    "kv_store kv' = fmupd k (mutateEntry kv v rm opt) (kv_store kv)"
    "kv_clock kv' = nextClock kv opt + 1" "kv_node kv' = kv_node kv" "kv_now kv' = kv_now kv"
    "kv_limits kv' = kv_limits kv"
    "u = entryUpdate k (mutateEntry kv v rm opt)"
    "kv_history kv' = kv_history (recordLocked k (mutateEntry kv v rm opt) True kv)"
  using assms by (simp add: mutate_def Let_def entryUpdate_def recordLocked_def mutateEntry_def)

lemma mutate_InrD:
  assumes "mutate kv k v rm opt = (kv', eff, Inr u)"
  shows "mutateRefusal kv k v rm opt = None"
    "kv_store kv' = fmupd k (mutateEntry kv v rm opt) (kv_store kv)"
    "kv_clock kv' = nextClock kv opt + 1" "kv_node kv' = kv_node kv" "kv_now kv' = kv_now kv"
    "kv_limits kv' = kv_limits kv" "kv_onChange kv' = kv_onChange kv" "kv_onMutate kv' = kv_onMutate kv"
    "u = entryUpdate k (mutateEntry kv v rm opt)"
    "kv_history kv' = kv_history (recordLocked k (mutateEntry kv v rm opt) True kv)"
  using assms by (auto simp: mutate_def Let_def entryUpdate_def recordLocked_def mutateEntry_def
      split: option.splits)

lemma mutate_InlD:
  assumes "mutate kv k v rm opt = (kv', eff, Inl err)"
  shows "kv' = kv" "eff = no_effects" "mutateRefusal kv k v rm opt = Some err"
  using assms by (auto simp: mutate_def Let_def split: option.splits)

lemma mutateRefusal_NoneD:
  assumes "mutateRefusal kv k v rm opt = None"
  shows "nextClock kv opt \<noteq> - 1" "ValidString k" "\<not> rm \<Longrightarrow> ValidString v"
    "\<not> rm \<Longrightarrow> admitLocked kv k v (unix (kv_now kv)) = None"
    "o_ExpectMissing opt \<Longrightarrow> fmlookup (kv_store kv) k = None"
    "o_ExpectUpdate opt = Some x \<Longrightarrow> matchesUpdate (fmlookup (kv_store kv) k) x"
    "o_Expect opt = Some w \<Longrightarrow> matchesExpect (fmlookup (kv_store kv) k) (unix (kv_now kv)) w"
  using assms by (auto simp: mutateRefusal_def representable_def Let_def
      split: option.splits if_splits)

lemma nextClock_ge: "kv_clock kv \<le> nextClock kv opt" "o_AfterCounter opt \<le> nextClock kv opt"
  by (auto simp: nextClock_def)

lemma mutateEntry_simps [simp]:
  "e_Version (mutateEntry kv v rm opt) = Version (nextClock kv opt + 1) (kv_node kv)"
  "e_Deleted (mutateEntry kv v rm opt) = rm"
  "e_Value (mutateEntry kv v rm opt) = (if rm then '''' else v)"
  "e_ExpiresAt (mutateEntry kv v rm opt) = (if rm then 0 else o_ExpiresAt opt)"
  by (auto simp: mutateEntry_def Let_def)

lemma applyEntry_simps [simp]:
  "e_Version (applyEntry u now) = u_Version u"
  "e_Deleted (applyEntry u now) = (u_Action u = KVDelete)"
  "e_Value (applyEntry u now) = u_Value u"
  "e_ExpiresAt (applyEntry u now) = u_ExpiresAt u"
  by (auto simp: applyEntry_def Let_def)

text \<open>Why an update does not land: it is unrepresentable, refused, or not newer.\<close>

definition applyRefusal :: "kvStore \<Rightarrow> KVUpdate \<Rightarrow> kvError option" where
  "applyRefusal kv u = (case representable (u_Key u) (u_Value u) (u_Action u \<noteq> KVDelete) of
     Some err \<Rightarrow> Some err
   | None \<Rightarrow> if u_Action u \<noteq> KVDelete then admitLocked kv (u_Key u) (u_Value u) (unix (kv_now kv))
             else None)"

definition staleFor :: "kvStore \<Rightarrow> KVUpdate \<Rightarrow> bool" where
  "staleFor kv u = (case fmlookup (kv_store kv) (u_Key u) of
     Some cur \<Rightarrow> u_Version u \<le> e_Version cur | None \<Rightarrow> False)"

lemma ApplyWithReason_refused:
  "applyRefusal kv u = Some err \<Longrightarrow>
   \<exists>kv'. ApplyWithReason kv u = (kv', no_effects, False, Some err)
     \<and> kv' \<in> {kv, observeClock u kv}"
  by (auto simp: ApplyWithReason_def applyRefusal_def Let_def split: option.splits if_splits)

lemma ApplyWithReason_stale:
  "applyRefusal kv u = None \<Longrightarrow> staleFor kv u \<Longrightarrow>
   ApplyWithReason kv u = (observeClock u kv, no_effects, False, None)"
  by (auto simp: ApplyWithReason_def applyRefusal_def staleFor_def Let_def
      split: option.splits if_splits)

lemma ApplyWithReason_result:
  "snd (snd (ApplyWithReason kv u)) = (case applyRefusal kv u of Some err \<Rightarrow> (False, Some err)
     | None \<Rightarrow> (\<not> staleFor kv u, None))"
  by (simp add: ApplyWithReason_def applyRefusal_def staleFor_def Let_def not_less
      split: option.split)

lemma ApplyWithReason_store:
  "kv_store (fst (ApplyWithReason kv u)) =
     (if applyRefusal kv u = None \<and> \<not> staleFor kv u
      then fmupd (u_Key u) (applyEntry u (unix (kv_now kv))) (kv_store kv) else kv_store kv)"
  by (simp add: ApplyWithReason_def applyRefusal_def staleFor_def Let_def not_less
      split: option.split)

lemma ApplyWithReason_clock:
  "kv_clock (fst (ApplyWithReason kv u)) =
     (if representable (u_Key u) (u_Value u) (u_Action u \<noteq> KVDelete) = None
      then max (kv_clock kv) (Counter (u_Version u)) else kv_clock kv)"
  by (simp add: ApplyWithReason_def Let_def split: option.split)

lemma ApplyWithReason_history:
  "kv_history (fst (ApplyWithReason kv u)) =
     (if applyRefusal kv u = None \<and> \<not> staleFor kv u
      then kv_history (recordLocked (u_Key u) (applyEntry u (unix (kv_now kv))) False kv)
      else kv_history kv)"
  by (simp add: ApplyWithReason_def applyRefusal_def staleFor_def Let_def not_less recordLocked_def
      split: option.split)

lemma ApplyWithReason_frame [kv_effects, simp]:
  "kv_node (fst (ApplyWithReason kv u)) = kv_node kv"
  "kv_now (fst (ApplyWithReason kv u)) = kv_now kv"
  "kv_limits (fst (ApplyWithReason kv u)) = kv_limits kv"
  "kv_onChange (fst (ApplyWithReason kv u)) = kv_onChange kv"
  "kv_onMutate (fst (ApplyWithReason kv u)) = kv_onMutate kv"
  by (simp_all add: ApplyWithReason_def Let_def split: option.split)

lemma mutate_result:
  "snd (snd (mutate kv k v rm opt)) = (case mutateRefusal kv k v rm opt of
     Some err \<Rightarrow> Inl err | None \<Rightarrow> Inr (entryUpdate k (mutateEntry kv v rm opt)))"
  by (simp add: mutate_def Let_def entryUpdate_def split: option.split)

lemma mutate_store:
  "kv_store (fst (mutate kv k v rm opt)) = (if mutateRefusal kv k v rm opt = None
     then fmupd k (mutateEntry kv v rm opt) (kv_store kv) else kv_store kv)"
  by (simp add: mutate_def Let_def split: option.split)

lemma mutate_clock:
  "kv_clock (fst (mutate kv k v rm opt)) = (if mutateRefusal kv k v rm opt = None
     then nextClock kv opt + 1 else kv_clock kv)"
  by (simp add: mutate_def Let_def split: option.split)

lemma mutate_history:
  "kv_history (fst (mutate kv k v rm opt)) = (if mutateRefusal kv k v rm opt = None
     then kv_history (recordLocked k (mutateEntry kv v rm opt) True kv) else kv_history kv)"
  by (simp add: mutate_def Let_def recordLocked_def split: option.split)

lemma mutate_frame [kv_effects, simp]:
  "kv_node (fst (mutate kv k v rm opt)) = kv_node kv"
  "kv_now (fst (mutate kv k v rm opt)) = kv_now kv"
  "kv_limits (fst (mutate kv k v rm opt)) = kv_limits kv"
  "kv_onChange (fst (mutate kv k v rm opt)) = kv_onChange kv"
  "kv_onMutate (fst (mutate kv k v rm opt)) = kv_onMutate kv"
  by (simp_all add: mutate_def Let_def split: option.split)

lemma SweepExpired_store:
  "kv_store (fst (SweepExpired kv)) =
     fmmap (\<lambda>e. if needsSweep (unix (kv_now kv)) e then sweepEntry (unix (kv_now kv)) e else e)
       (kv_store kv)"
  by (simp add: SweepExpired_def Let_def)

lemma SweepExpired_frame [kv_effects, simp]:
  "kv_node (fst (SweepExpired kv)) = kv_node kv"
  "kv_clock (fst (SweepExpired kv)) = kv_clock kv"
  "kv_history (fst (SweepExpired kv)) = kv_history kv"
  "kv_now (fst (SweepExpired kv)) = kv_now kv"
  "kv_limits (fst (SweepExpired kv)) = kv_limits kv"
  "kv_onChange (fst (SweepExpired kv)) = kv_onChange kv"
  "kv_onMutate (fst (SweepExpired kv)) = kv_onMutate kv"
  by (simp_all add: SweepExpired_def Let_def)

lemma GCTombstones_lookup:
  "fmlookup (kv_store (fst (GCTombstones kv age))) k =
     (case fmlookup (kv_store kv) k of
        Some e \<Rightarrow> if 0 < age \<and> collectable (unix (kv_now kv - age)) e then None else Some e
      | None \<Rightarrow> None)"
  by (simp add: GCTombstones_def Let_def split: option.split)

lemma GCTombstones_history:
  "fmlookup (kv_history (fst (GCTombstones kv age))) k = Some h \<Longrightarrow> fmlookup (kv_history kv) k = Some h"
  by (auto simp: GCTombstones_def Let_def split: if_splits)

lemma GCTombstones_frame [kv_effects, simp]:
  "kv_node (fst (GCTombstones kv age)) = kv_node kv"
  "kv_clock (fst (GCTombstones kv age)) = kv_clock kv"
  "kv_now (fst (GCTombstones kv age)) = kv_now kv"
  "kv_limits (fst (GCTombstones kv age)) = kv_limits kv"
  "kv_onChange (fst (GCTombstones kv age)) = kv_onChange kv"
  "kv_onMutate (fst (GCTombstones kv age)) = kv_onMutate kv"
  by (simp_all add: GCTombstones_def Let_def)

section \<open>The store invariant\<close>

text \<open>
  No stored version is ahead of the Lamport clock, every key and every live value can cross the
  wire unchanged, and no key's history outgrows its bound.
\<close>

definition entry_wf :: "u64 \<Rightarrow> string \<Rightarrow> kvEntry \<Rightarrow> bool" where
  "entry_wf clock k e \<longleftrightarrow> Counter (e_Version e) \<le> clock \<and> ValidString k
     \<and> (\<not> e_Deleted e \<longrightarrow> ValidString (e_Value e))"

definition kv_wf :: "kvStore \<Rightarrow> bool" where
  "kv_wf kv \<longleftrightarrow> fmpred (entry_wf (kv_clock kv)) (kv_store kv)
     \<and> fmpred (\<lambda>_ h. length h \<le> historyPerKey) (kv_history kv)"

lemma entry_wf_mono: "entry_wf c k e \<Longrightarrow> c \<le> c' \<Longrightarrow> entry_wf c' k e"
  by (auto simp: entry_wf_def)

lemma fmpred_entry_wf_mono: "fmpred (entry_wf c) m \<Longrightarrow> c \<le> c' \<Longrightarrow> fmpred (entry_wf c') m"
  by (auto simp: fmpred_iff intro: entry_wf_mono)

lemma recordLocked_history_wf:
  "fmpred (\<lambda>_ h. length h \<le> historyPerKey) (kv_history kv) \<Longrightarrow>
   fmpred (\<lambda>_ h. length h \<le> historyPerKey) (kv_history (recordLocked k e l kv))"
  by (auto simp: recordLocked_def Let_def)

lemma NewKVStore_wf [inv_intros]: "kv_wf (NewKVStore node now)"
  by (simp add: kv_wf_def NewKVStore_def)

lemma mutate_wf [inv_intros]:
  assumes "kv_wf kv"
  shows "kv_wf (fst (mutate kv k v rm opt))"
proof (cases "mutateRefusal kv k v rm opt")
  case None
  note ok = mutateRefusal_NoneD [OF None]
  have lt: "kv_clock kv < nextClock kv opt + 1"
    using ok(1) nextClock_ge(1) by (rule word_less_inc)
  have "entry_wf (nextClock kv opt + 1) k (mutateEntry kv v rm opt)"
    using ok(2,3) by (simp add: entry_wf_def)
  then show ?thesis
    using assms less_imp_le [OF lt] None
    by (auto simp: kv_wf_def mutate_store mutate_clock mutate_history recordLocked_history_wf
        intro: fmpred_upd fmpred_entry_wf_mono)
qed (simp add: mutate_def assms)

lemma ApplyWithReason_wf [inv_intros]:
  assumes "kv_wf kv"
  shows "kv_wf (fst (ApplyWithReason kv u))"
proof -
  let ?c = "kv_clock (fst (ApplyWithReason kv u))"
  have le: "kv_clock kv \<le> ?c"
    by (simp add: ApplyWithReason_clock)
  have "entry_wf ?c (u_Key u) (applyEntry u (unix (kv_now kv)))" if "applyRefusal kv u = None"
    using that by (auto simp: entry_wf_def ApplyWithReason_clock applyRefusal_def representable_def
        split: option.splits if_splits)
  then show ?thesis
    using assms le
    by (auto simp: kv_wf_def ApplyWithReason_store ApplyWithReason_history recordLocked_history_wf
        intro: fmpred_upd fmpred_entry_wf_mono)
qed

lemma SweepExpired_wf [inv_intros]: "kv_wf kv \<Longrightarrow> kv_wf (fst (SweepExpired kv))"
  by (auto simp: kv_wf_def SweepExpired_store fmpred_iff entry_wf_def sweepEntry_def)

lemma GCTombstones_wf [inv_intros]: "kv_wf kv \<Longrightarrow> kv_wf (fst (GCTombstones kv age))"
  by (auto simp: kv_wf_def fmpred_iff GCTombstones_lookup dest!: GCTombstones_history
      split: option.splits if_splits)

lemma SetLimits_wf [inv_intros]: "kv_wf kv \<Longrightarrow> kv_wf (SetLimits l kv)"
  by (simp add: kv_wf_def SetLimits_def)

lemma SetClock_wf [inv_intros]: "kv_wf kv \<Longrightarrow> kv_wf (SetClock t kv)"
  by (simp add: kv_wf_def SetClock_def)

text \<open>A restart keeps the invariant: what \<open>State\<close> saved, \<open>LoadState\<close> installs.\<close>

lemma LoadState_State_wf [inv_intros]:
  "kv_wf kv \<Longrightarrow> kv_wf (LoadState (State kv) (NewKVStore node now))"
  by (simp add: kv_wf_def LoadState_def State_def NewKVStore_def)


section \<open>Reachable stores\<close>

text \<open>Everything that can happen to a store once it is wired up, one command per step.\<close>

datatype kv_cmd =
    CmdWrite string string WriteOptions
  | CmdRemove string WriteOptions
  | CmdApply KVUpdate
  | CmdSweep
  | CmdGC nanos
  | CmdLimits Limits
  | CmdTime nanos

fun kv_step :: "kvStore \<Rightarrow> kv_cmd \<Rightarrow> kvStore" where
  "kv_step kv (CmdWrite k v opt) = fst (Write kv k v opt)"
| "kv_step kv (CmdRemove k opt) = fst (Remove kv k opt)"
| "kv_step kv (CmdApply u) = fst (ApplyWithReason kv u)"
| "kv_step kv CmdSweep = fst (SweepExpired kv)"
| "kv_step kv (CmdGC age) = fst (GCTombstones kv age)"
| "kv_step kv (CmdLimits l) = SetLimits l kv"
| "kv_step kv (CmdTime t) = SetClock t kv"

inductive kv_reachable :: "kvStore \<Rightarrow> bool" where
  kv_start: "kv_reachable (NewKVStore node now)"
| kv_next: "kv_reachable kv \<Longrightarrow> kv_reachable (kv_step kv cmd)"
| kv_restart: "kv_reachable kv \<Longrightarrow> kv_reachable (LoadState (State kv) (NewKVStore node now))"

lemma kv_step_wf [inv_intros]: "kv_wf kv \<Longrightarrow> kv_wf (kv_step kv cmd)"
  by (cases cmd) (auto simp: Write_def Remove_def intro: inv_intros)

lemma kv_reachable_kv_wf: "kv_reachable kv \<Longrightarrow> kv_wf kv"
  by (induction rule: kv_reachable.induct) (auto intro: inv_intros)

section \<open>Local writes\<close>

lemma kv_wf_counter:
  "kv_wf kv \<Longrightarrow> fmlookup (kv_store kv) k = Some e \<Longrightarrow> Counter (e_Version e) \<le> kv_clock kv"
  by (auto simp: kv_wf_def entry_wf_def)

lemma mutate_version_dominates:
  assumes "kv_wf kv" "mutateRefusal kv k v rm opt = None" "fmlookup (kv_store kv) k' = Some e"
  shows "e_Version e < Version (nextClock kv opt + 1) (kv_node kv)"
proof -
  have "Counter (e_Version e) \<le> nextClock kv opt"
    using kv_wf_counter [OF assms(1,3)] nextClock_ge(1) by (rule order_trans)
  then have "Counter (e_Version e) < nextClock kv opt + 1"
    using mutateRefusal_NoneD(1) [OF assms(2)] word_less_inc by blast
  then show ?thesis
    by (simp add: less_version_def)
qed

lemma Get_mutate:
  assumes "mutateRefusal kv k v rm opt = None"
  shows "Get (fst (mutate kv k v rm opt)) k' =
    (if k' = k then
       (if rm \<or> (o_ExpiresAt opt \<noteq> 0 \<and> o_ExpiresAt opt \<le> unix (kv_now kv)) then None else Some v)
     else Get kv k')"
  using assms by (auto simp: Get_def mutate_store visible_def expired_def split: option.split)

text \<open>The key-count bound: what \<open>admitLocked\<close> lets through never exceeds \<open>MaxKeys\<close>.\<close>

definition within_limits :: "kvStore \<Rightarrow> bool" where
  "within_limits kv \<longleftrightarrow>
     (MaxKeys (kv_limits kv) > 0 \<longrightarrow> int (liveCount kv (unix (kv_now kv))) \<le> MaxKeys (kv_limits kv))"

lemma liveCount_upd:
  "liveCount (kv\<lparr>kv_store := fmupd k e (kv_store kv)\<rparr>) now \<le>
     (if visible e now
      then (case fmlookup (kv_store kv) k of
              Some c \<Rightarrow> (if visible c now then liveCount kv now else Suc (liveCount kv now))
            | None \<Rightarrow> Suc (liveCount kv now))
      else liveCount kv now)"
proof -
  define A where "A = {k'. \<exists>c. fmlookup (kv_store kv) k' = Some c \<and> visible c now}"
  define B where "B = {k'. \<exists>c. fmlookup (fmupd k e (kv_store kv)) k' = Some c \<and> visible c now}"
  have fin: "finite A"
    unfolding A_def by simp
  have cA: "liveCount kv now = card A" and
    cB: "liveCount (kv\<lparr>kv_store := fmupd k e (kv_store kv)\<rparr>) now = card B"
    by (simp_all add: liveCount_def fmcount_card A_def B_def)
  have sub: "B \<subseteq> (if visible e now then insert k A else A)"
    by (auto simp: A_def B_def split: if_splits)
  have kA: "k \<in> A \<longleftrightarrow> (\<exists>c. fmlookup (kv_store kv) k = Some c \<and> visible c now)"
    by (simp add: A_def)
  have "card B \<le> card (if visible e now then insert k A else A)"
    using sub fin by (intro card_mono) auto
  then show ?thesis
    using fin kA by (auto simp: cA cB card_insert_if split: option.split if_splits)
qed


lemma admitLocked_None_room:
  assumes "admitLocked kv k v now = None" "MaxKeys (kv_limits kv) > 0"
  shows "(\<exists>c. fmlookup (kv_store kv) k = Some c \<and> visible c now)
       \<or> int (liveCount kv now) < MaxKeys (kv_limits kv)"
  using assms by (auto simp: admitLocked_def split: if_splits option.splits)

lemma liveCount_upd_admitted:
  assumes "within_limits kv" "now = unix (kv_now kv)" "MaxKeys (kv_limits kv) > 0"
    and "visible e now \<Longrightarrow> admitLocked kv k v now = None"
  shows "int (liveCount (kv\<lparr>kv_store := fmupd k e (kv_store kv)\<rparr>) now) \<le> MaxKeys (kv_limits kv)"
proof -
  have old: "int (liveCount kv now) \<le> MaxKeys (kv_limits kv)"
    using assms(1-3) by (simp add: within_limits_def)
  show ?thesis
  proof (cases "visible e now")
    case True
    then show ?thesis
      using liveCount_upd [where kv = kv and k = k and e = e and now = now] admitLocked_None_room [OF assms(4) assms(3)] old
      by (auto split: option.splits if_splits)
  next
    case False
    then show ?thesis
      using liveCount_upd [where kv = kv and k = k and e = e and now = now] old by simp
  qed
qed

lemma mutate_within_limits:
  assumes "within_limits kv"
  shows "within_limits (fst (mutate kv k v rm opt))"
proof (cases "mutateRefusal kv k v rm opt")
  case None
  have adm: "visible (mutateEntry kv v rm opt) (unix (kv_now kv)) \<Longrightarrow>
      admitLocked kv k v (unix (kv_now kv)) = None"
    using mutateRefusal_NoneD(4) [OF None] by (simp add: visible_def)
  show ?thesis
    using liveCount_upd_admitted [OF assms refl _ adm] None
    by (simp add: within_limits_def liveCount_def mutate_store)
qed (simp add: mutate_def assms)

lemma ApplyWithReason_within_limits:
  assumes "within_limits kv"
  shows "within_limits (fst (ApplyWithReason kv u))"
proof (cases "applyRefusal kv u = None \<and> \<not> staleFor kv u")
  case True
  have adm: "visible (applyEntry u (unix (kv_now kv))) (unix (kv_now kv)) \<Longrightarrow>
      admitLocked kv (u_Key u) (u_Value u) (unix (kv_now kv)) = None"
    using True by (auto simp: visible_def applyRefusal_def split: option.splits if_splits)
  show ?thesis
    using liveCount_upd_admitted [OF assms refl _ adm] True
    by (simp add: within_limits_def liveCount_def ApplyWithReason_store)
next
  case False
  then have "kv_store (fst (ApplyWithReason kv u)) = kv_store kv"
    by (auto simp: ApplyWithReason_store)
  then show ?thesis
    using assms by (simp add: within_limits_def liveCount_def)
qed

lemma SweepExpired_within_limits:
  assumes "within_limits kv"
  shows "within_limits (fst (SweepExpired kv))"
proof -
  have "liveCount (fst (SweepExpired kv)) now \<le> liveCount kv now" for now
    unfolding liveCount_def SweepExpired_store
    by (rule fmcount_mono) (auto simp: visible_def sweepEntry_def split: if_splits)
  from this [of "unix (kv_now kv)"] show ?thesis
    using assms by (auto simp: within_limits_def)
qed

lemma GCTombstones_within_limits:
  assumes "within_limits kv"
  shows "within_limits (fst (GCTombstones kv age))"
proof -
  have "liveCount (fst (GCTombstones kv age)) now \<le> liveCount kv now" for now
    unfolding liveCount_def
    by (rule fmcount_mono) (auto simp: GCTombstones_lookup split: option.splits if_splits)
  from this [of "unix (kv_now kv)"] show ?thesis
    using assms by (auto simp: within_limits_def)
qed

lemma SetClock_within_limits:
  assumes "within_limits kv" "kv_now kv \<le> t"
  shows "within_limits (SetClock t kv)"
proof -
  have "liveCount kv (unix t) \<le> liveCount kv (unix (kv_now kv))"
    unfolding liveCount_def using visible_antimono [OF _ unix_mono [OF assms(2)]]
    by (intro fmcount_mono) auto
  then show ?thesis
    using assms by (auto simp: within_limits_def SetClock_def liveCount_def)
qed

section \<open>Expiry\<close>

lemma visible_sweep:
  "now \<le> t \<Longrightarrow> visible (if needsSweep now e then sweepEntry now e else e) t = visible e t"
  by (auto simp: visible_def needsSweep_def sweepEntry_def expired_def)

lemma needsSweep_not_visible: "needsSweep now e \<Longrightarrow> now \<le> t \<Longrightarrow> \<not> visible e t"
  by (auto simp: needsSweep_def visible_def expired_def)

lemma Get_SweepExpired:
  assumes "kv_now kv \<le> t"
  shows "Get (SetClock t (fst (SweepExpired kv))) k = Get (SetClock t kv) k"
  using unix_mono [OF assms] needsSweep_not_visible [of "unix (kv_now kv)" _ "unix t"]
  by (auto simp: Get_def SetClock_def SweepExpired_store visible_sweep split: option.split)

lemma Get_GCTombstones: "Get (SetClock t (fst (GCTombstones kv age))) k = Get (SetClock t kv) k"
  by (auto simp: Get_def SetClock_def GCTombstones_lookup visible_def collectable_def
      split: option.splits)

section \<open>Properties of the store\<close>

lemma admitLocked_None_size:
  assumes "admitLocked kv k v now = None"
  shows "EscapedLen v \<le> MaxReplicableValueBytes + 2"
    "0 < MaxValueBytes (kv_limits kv) \<Longrightarrow> int (length v) \<le> MaxValueBytes (kv_limits kv)"
  using assms EscapedLen_le [of v]
  by (auto simp: admitLocked_def MaxReplicableValueBytes_eq split: if_splits)

text \<open>A store holding one key, for the concrete instances of the properties below.\<close>

definition demo_store :: kvStore where
  "demo_store = fst (Write (NewKVStore ''n1'' (5 * second)) ''k'' ''v'' zero_WriteOptions)"

lemma ValidString_demo [simp]: "ValidString ''k''" "ValidString ''v''" "ValidString ''w''"
  by (rule ValidString_ascii_all, simp add: byte_def)+

lemmas eval_store = demo_store_def Write_def Remove_def mutate_def mutateRefusal_def mutateEntry_def
  representable_def admitLocked_def nextClock_def NewKVStore_def zero_WriteOptions_def recordLocked_def
  MaxReplicableValueBytes_eq emit_def unix_def second_def historyPerKey_def ring_def Let_def

lemma demo_store_lookup [simp]:
  "fmlookup (kv_store demo_store) ''k'' = Some \<lparr>e_Value = ''v'', e_Version = Version 1 ''n1'',
     e_Deleted = False, e_ExpiresAt = 0, e_DeletedAt = 0\<rparr>"
  "kv_clock demo_store = 1" "kv_node demo_store = ''n1''" "kv_now demo_store = 5 * second"
  by (simp_all add: eval_store)

lemma demo_store_reachable [simp]: "kv_reachable demo_store"
proof -
  have "kv_reachable (kv_step (NewKVStore ''n1'' (5 * second)) (CmdWrite ''k'' ''v'' zero_WriteOptions))"
    by (rule kv_reachable.kv_next) (rule kv_reachable.kv_start)
  then show ?thesis
    by (simp add: demo_store_def)
qed

text \<open>
  C6.  In every store reachable by local writes and removes, remote updates, sweeps, tombstone
  collection, changed limits, any movement of the clock and restarts from a saved state: no
  stored version is ahead of the Lamport clock, every key is valid UTF-8, every live value is
  valid UTF-8, and no key's history exceeds its bound.
\<close>

theorem kv_reachable_invariant:
  assumes "kv_reachable kv" "fmlookup (kv_store kv) k = Some e"
  shows "Counter (e_Version e) \<le> kv_clock kv \<and> ValidString k
    \<and> (\<not> e_Deleted e \<longrightarrow> ValidString (e_Value e)) \<and> length (History kv k) \<le> historyPerKey"
proof -
  have wf: "kv_wf kv"
    using assms(1) by (rule kv_reachable_kv_wf)
  then have "entry_wf (kv_clock kv) k e"
    using assms(2) by (auto simp: kv_wf_def)
  moreover have "length (History kv k) \<le> historyPerKey"
    using wf by (auto simp: History_def kv_wf_def split: option.split)
  ultimately show ?thesis
    by (simp add: entry_wf_def)
qed

theorem kv_reachable_invariant_witness:
  "kv_reachable demo_store \<and> (1::u64) \<le> kv_clock demo_store \<and> ValidString ''k''
     \<and> length (History demo_store ''k'') \<le> historyPerKey"
  using kv_reachable_invariant [OF demo_store_reachable demo_store_lookup(1)] by simp

text \<open>
  A local write is stamped with this node's id and a version newer than every version the
  store holds, for any key, and past the counter floor a repair asked for: last-write-wins
  cannot lose it to anything already seen here.
\<close>

theorem write_version_dominates:
  assumes "kv_wf kv" "mutate kv k v rm opt = (kv', eff, Inr u)"
    and "fmlookup (kv_store kv) k' = Some e"
  shows "Newer (u_Version u) (e_Version e) \<and> Node (u_Version u) = kv_node kv
    \<and> o_AfterCounter opt < Counter (u_Version u) \<and> Counter (u_Version u) = kv_clock kv'"
proof -
  note ok = mutate_InrD [OF assms(2)]
  have "o_AfterCounter opt < nextClock kv opt + 1"
    using mutateRefusal_NoneD(1) [OF ok(1)] nextClock_ge(2) word_less_inc by blast
  then show ?thesis
    using mutate_version_dominates [OF assms(1) ok(1) assms(3)] ok(3,9)
    by (simp add: entryUpdate_def)
qed

lemma demo_store_wf [simp]: "kv_wf demo_store"
  by (simp add: kv_reachable_kv_wf)

theorem write_version_dominates_witness:
  "\<exists>kv' eff u. mutate demo_store ''k'' ''w'' False zero_WriteOptions = (kv', eff, Inr u)
     \<and> Newer (u_Version u) (Version 1 ''n1'')"
proof -
  obtain kv' eff u where m: "mutate demo_store ''k'' ''w'' False zero_WriteOptions = (kv', eff, Inr u)"
    by (simp add: eval_store)
  then show ?thesis
    using write_version_dominates [OF demo_store_wf m demo_store_lookup(1)] by fastforce
qed

text \<open>
  What a write does: it is refused with the store untouched and no callback, or it is
  accepted and reads of its key return exactly what was written (nothing, for a delete or an
  expiry that already passed) while reads of every other key are unchanged; the returned update
  describes the stored entry.
\<close>

theorem write_outcome:
  "(\<exists>err. mutate kv k v rm opt = (kv, no_effects, Inl err)) \<or>
   (\<exists>kv' eff u e. mutate kv k v rm opt = (kv', eff, Inr u)
      \<and> fmlookup (kv_store kv') k = Some e \<and> u = entryUpdate k e
      \<and> (\<forall>k'. Get kv' k' = (if k' = k then
            (if rm \<or> (o_ExpiresAt opt \<noteq> 0 \<and> o_ExpiresAt opt \<le> unix (kv_now kv)) then None else Some v)
          else Get kv k')))"
proof (cases "mutateRefusal kv k v rm opt")
  case None
  obtain kv' eff u where m: "mutate kv k v rm opt = (kv', eff, Inr u)"
    using None by (metis mutate_accepted)
  then show ?thesis
    using mutate_InrD [OF m] Get_mutate [OF None] by fastforce
qed (simp add: mutate_refused)

text \<open>
  C11.  Compare-and-swap.  A guarded write is accepted only when the key holds exactly the
  expected version and is readable, or reads as absent and the expected version is zero; and an
  otherwise admissible guarded write fails with \<open>ErrVersionMismatch\<close> exactly when that is not so.
\<close>

theorem cas_guard:
  assumes "o_Expect opt = Some w" "mutateRefusal kv k v rm (opt\<lparr>o_Expect := None\<rparr>) = None"
  shows "snd (snd (mutate kv k v rm opt)) =
    (if (case GetEntry kv k of Some en \<Rightarrow> en_Version en = w | None \<Rightarrow> Zero w)
     then Inr (entryUpdate k (mutateEntry kv v rm opt)) else Inl ErrVersionMismatch)"
proof -
  have "matchesExpect (fmlookup (kv_store kv) k) (unix (kv_now kv)) w \<longleftrightarrow>
      (case GetEntry kv k of Some en \<Rightarrow> en_Version en = w | None \<Rightarrow> Zero w)"
    by (simp add: matchesExpect_def GetEntry_def split: option.split)
  then show ?thesis
    using assms by (auto simp: mutate_result mutateRefusal_def nextClock_def Let_def
        split: option.splits if_splits)
qed

theorem cas_guard_witness:
  "snd (snd (mutate demo_store ''k'' ''w'' False (zero_WriteOptions\<lparr>o_Expect := Some (Version 1 ''n1'')\<rparr>)))
     \<noteq> Inl ErrVersionMismatch
   \<and> snd (snd (mutate demo_store ''k'' ''w'' False (zero_WriteOptions\<lparr>o_Expect := Some (Version 0 '''')\<rparr>)))
     = Inl ErrVersionMismatch"
proof -
  have ok: "mutateRefusal demo_store ''k'' ''w'' False (zero_WriteOptions\<lparr>o_Expect := None\<rparr>) = None"
    by (simp add: eval_store)
  have vis: "GetEntry demo_store ''k'' = Some \<lparr>en_Key = ''k'', en_Value = ''v'',
      en_Version = Version 1 ''n1'', en_Deleted = False, en_ExpiresAt = 0\<rparr>"
    by (simp add: GetEntry_def visible_def expired_def)
  show ?thesis
    using cas_guard [of "zero_WriteOptions\<lparr>o_Expect := Some (Version 1 ''n1'')\<rparr>" "Version 1 ''n1''"
          demo_store "''k''" "''w''" False]
      cas_guard [of "zero_WriteOptions\<lparr>o_Expect := Some (Version 0 '''')\<rparr>" "Version 0 ''''"
          demo_store "''k''" "''w''" False] ok
    by (simp add: vis)
qed

text \<open>
  Merging a remote update: it is refused (unrepresentable or inadmissible, with that error),
  or ignored without an error because the held version is not older, or it lands and exactly its
  key now holds its version, value, deletion mark and expiry.  In every case each key's version
  only grows.
\<close>

theorem apply_outcome:
  assumes "ApplyWithReason kv u = (kv', eff, applied, refused)"
  shows "(refused = applyRefusal kv u)
    \<and> (applied \<longleftrightarrow> refused = None \<and> \<not> staleFor kv u)
    \<and> (\<not> applied \<longrightarrow> kv_store kv' = kv_store kv \<and> eff = no_effects)
    \<and> (applied \<longrightarrow> kv_store kv' = fmupd (u_Key u) (applyEntry u (unix (kv_now kv))) (kv_store kv))
    \<and> (\<forall>k e. fmlookup (kv_store kv) k = Some e \<longrightarrow>
         (\<exists>e'. fmlookup (kv_store kv') k = Some e' \<and> e_Version e \<le> e_Version e'))"
proof -
  have res: "(applied, refused) = (case applyRefusal kv u of Some err \<Rightarrow> (False, Some err)
      | None \<Rightarrow> (\<not> staleFor kv u, None))"
    using ApplyWithReason_result [of kv u] assms by simp
  have st: "kv_store kv' = (if applyRefusal kv u = None \<and> \<not> staleFor kv u
      then fmupd (u_Key u) (applyEntry u (unix (kv_now kv))) (kv_store kv) else kv_store kv)"
    using ApplyWithReason_store [of kv u] assms by simp
  have eff: "\<not> applied \<Longrightarrow> eff = no_effects"
    using assms by (auto simp: ApplyWithReason_def Let_def split: option.splits if_splits)
  show ?thesis
    using res st eff by (auto simp: staleFor_def split: option.splits)
qed

definition demo_update :: KVUpdate where
  "demo_update = \<lparr>u_Action = KVSet, u_Key = ''k'', u_Value = ''w'', u_Version = Version 1 ''n2'',
     u_ExpiresAt = 0, u_DeletedAt = 0\<rparr>"

lemma demo_update_admissible [simp]:
  "applyRefusal demo_store demo_update = None" "\<not> staleFor demo_store demo_update"
  by (simp_all add: applyRefusal_def staleFor_def demo_update_def representable_def admitLocked_def
      MaxReplicableValueBytes_eq less_eq_version_def) (simp add: eval_store)

definition full_store :: kvStore where
  "full_store = (NewKVStore ''n1'' (5 * second))\<lparr>kv_limits := \<lparr>MaxValueBytes = 0, MaxKeys = 1\<rparr>,
     kv_store := fmap_of_list
       [(''a'', \<lparr>e_Value = ''x'', e_Version = Version 1 ''n1'', e_Deleted = False,
                e_ExpiresAt = 0, e_DeletedAt = 0\<rparr>),
        (''k'', \<lparr>e_Value = '''', e_Version = Version 2 ''n1'', e_Deleted = True,
                e_ExpiresAt = 0, e_DeletedAt = 4\<rparr>)]\<rparr>"

lemma full_store_live: "liveCount full_store 5 = 1"
  by (simp add: full_store_def liveCount_def fmcount_def fmentries_def fmkeys_def visible_def expired_def)

lemma demo_update_simps [simp]: "u_Key demo_update = ''k''" "u_Value demo_update = ''w''"
  by (simp_all add: demo_update_def)

theorem apply_outcome_witness:
  "\<exists>kv' eff. ApplyWithReason demo_store demo_update = (kv', eff, True, None)
     \<and> fmlookup (kv_store kv') ''k'' = Some (applyEntry demo_update 5)"
proof -
  obtain kv' eff applied refused
    where a: "ApplyWithReason demo_store demo_update = (kv', eff, applied, refused)"
    by (metis prod.exhaust)
  then show ?thesis
    using apply_outcome [OF a] by (simp add: unix_def second_def)
qed

text \<open>
  C12.  The configured limits hold: starting from a store within them, no local write, no remote
  update, no sweep, no collection and no passing of time leaves more live keys than \<open>MaxKeys\<close>;
  and an accepted value is no longer than \<open>MaxValueBytes\<close> and its JSON form fits a frame.
  The start matters: \<open>SetLimits\<close> and loading a saved state do not shed keys, so a store can begin
  above a limit it was given later.
\<close>

theorem limits_respected:
  assumes "within_limits kv"
  shows "within_limits (fst (mutate kv k v rm opt)) \<and> within_limits (fst (ApplyWithReason kv u))
    \<and> within_limits (fst (SweepExpired kv)) \<and> within_limits (fst (GCTombstones kv age))
    \<and> (kv_now kv \<le> t \<longrightarrow> within_limits (SetClock t kv))
    \<and> (admitLocked kv k v now = None \<longrightarrow> EscapedLen v \<le> MaxReplicableValueBytes + 2
         \<and> (0 < MaxValueBytes (kv_limits kv) \<longrightarrow> int (length v) \<le> MaxValueBytes (kv_limits kv)))"
  using assms admitLocked_None_size [of kv k v now]
  by (simp add: mutate_within_limits ApplyWithReason_within_limits SweepExpired_within_limits
      GCTombstones_within_limits SetClock_within_limits)

theorem limits_respected_witness:
  "MaxKeys (kv_limits full_store) = 1 \<and> liveCount full_store 5 = 1
     \<and> within_limits (fst (mutate full_store ''b'' ''w'' False zero_WriteOptions))
     \<and> within_limits (fst (ApplyWithReason full_store demo_update))"
proof -
  have w: "within_limits full_store"
    using full_store_live by (simp add: within_limits_def full_store_def NewKVStore_def unix_def second_def)
  show ?thesis
    using full_store_live limits_respected [OF w] by (simp add: full_store_def)
qed



text \<open>
  The order of the checks in \<open>ApplyWithReason\<close>: admission is decided before staleness, so an
  update that is not newer than the tombstone already held is reported as refused, not as stale,
  when the store is full.
\<close>

lemma stale_update_reported_refused:
  "staleFor full_store demo_update
   \<and> snd (snd (ApplyWithReason full_store demo_update)) = (False, Some ErrTooManyKeys)"
proof -
  have "applyRefusal full_store demo_update = Some ErrTooManyKeys"
    using full_store_live
    by (simp add: applyRefusal_def representable_def admitLocked_def MaxReplicableValueBytes_eq)
      (simp add: full_store_def NewKVStore_def demo_update_def unix_def second_def visible_def)
  moreover have "staleFor full_store demo_update"
    by (simp add: full_store_def staleFor_def demo_update_def less_eq_version_def)
  ultimately show ?thesis
    by (simp add: ApplyWithReason_result)
qed

end
