(* ===== verification/Fingerprints.thy ===== *)
theory Fingerprints
  imports KVStore "HOL-Library.Multiset"
begin

unbundle bit_operations_syntax

text \<open>
  The consistency fingerprint of a store (\<open>valueHash\<close>, \<open>FingerprintVersion\<close>, \<open>bucketOf\<close> and
  \<open>BucketEntries\<close> of \<open>pkg/discovery/model/kvstore.go\<close>).

  SHA-256 is the parameter \<open>sha\<close>: a function from byte strings to 256-bit words, of which nothing
  is assumed.  A digest's 32 bytes are that word, most significant byte first, so the bytewise
  exclusive or of two digests is \<open>XOR\<close> of the words.  The loop over the store is a fold over a list
  of its entries, so that its independence of the order can be stated.
\<close>

section \<open>Formatting\<close>

fun decimalNat :: "nat \<Rightarrow> string" where
  "decimalNat n = (if n < 10 then [char_of (48 + n)] else decimalNat (n div 10) @ [char_of (48 + n mod 10)])"

declare decimalNat.simps [simp del]

definition decimalInt :: "int \<Rightarrow> string" where
  "decimalInt i = (if i < 0 then ''-'' @ decimalNat (nat (- i)) else decimalNat (nat i))"

definition boolText :: "bool \<Rightarrow> string" where
  "boolText b = (if b then ''true'' else ''false'')"

definition hexDigit :: "nat \<Rightarrow> char" where
  "hexDigit d = (if d < 10 then char_of (48 + d) else char_of (87 + d))"

text \<open>\<open>hex.EncodeToString\<close> of a digest: 64 hexadecimal digits, most significant first.\<close>

definition hexDigest :: "256 word \<Rightarrow> string" where
  "hexDigest w = map (\<lambda>i. hexDigit (unat (take_bit 4 (drop_bit (4 * i) w)))) (rev [0..<64])"

section \<open>The operations\<close>

definition valueHash :: "(string \<Rightarrow> 256 word) \<Rightarrow> kvEntry \<Rightarrow> string" where
  "valueHash sha e = (if e_Deleted e \<or> e_Value e = '''' then '''' else hexDigest (sha (e_Value e)))"

text \<open>
  The first four bytes of the name's hash, modulo the number of buckets as a \<open>uint32\<close> (a positive
  multiple of \<open>2 ^ 32\<close> buckets, which Go answers with a division by zero, is not meant here).
\<close>

definition bucketOf :: "(string \<Rightarrow> 256 word) \<Rightarrow> string \<Rightarrow> nat \<Rightarrow> nat" where
  "bucketOf sha key buckets = unat (drop_bit 224 (sha key)) mod (buckets mod 2 ^ 32)"

text \<open>What one entry contributes: the hash of its name, version, deletion mark and value hash.\<close>

definition entryDigest :: "(string \<Rightarrow> 256 word) \<Rightarrow> int \<Rightarrow> string \<Rightarrow> kvEntry \<Rightarrow> 256 word" where
  "entryDigest sha version k e = sha (k @ [CHR 0x00]
     @ decimalNat (unat (Counter (e_Version e))) @ ''/'' @ Node (e_Version e) @ ''/'' @ boolText (e_Deleted e)
     @ [CHR 0x00] @ valueHash sha e
     @ (if version = 2 then [CHR 0x00] @ decimalInt (e_ExpiresAt e) else []))"

definition foldEntry ::
  "(string \<Rightarrow> 256 word) \<Rightarrow> nat \<Rightarrow> int \<Rightarrow> 256 word list \<Rightarrow> string \<times> kvEntry \<Rightarrow> 256 word list" where
  "foldEntry sha buckets version folds = (\<lambda>(k, e).
     let idx = bucketOf sha k buckets
     in folds[idx := (folds ! idx) XOR entryDigest sha version k e])"

definition foldBuckets ::
  "(string \<Rightarrow> 256 word) \<Rightarrow> nat \<Rightarrow> int \<Rightarrow> (string \<times> kvEntry) list \<Rightarrow> 256 word list" where
  "foldBuckets sha buckets version entries = foldl (foldEntry sha buckets version) (replicate buckets 0) entries"

definition bucketCount :: "int \<Rightarrow> nat" where
  "bucketCount buckets = (if buckets \<le> 0 then FingerprintBuckets else nat buckets)"

definition FingerprintVersion :: "(string \<Rightarrow> 256 word) \<Rightarrow> kvStore \<Rightarrow> int \<Rightarrow> int \<Rightarrow> FingerprintReply" where
  "FingerprintVersion sha kv buckets version =
     \<lparr>fr_DigestVersion = 0, fr_Capabilities = [], fr_From = '''', fr_Nick = '''',
      fr_Keys = fmcount (\<lambda>e. \<not> e_Deleted e \<and> visible e (unix (kv_now kv))) (kv_store kv),
      fr_Tombstones = fmcount e_Deleted (kv_store kv),
      fr_Clock = kv_clock kv,
      fr_Buckets = map hexDigest (foldBuckets sha (bucketCount buckets) version (fmentries (kv_store kv))),
      fr_Entries = []\<rparr>"

definition StoreFingerprint :: "(string \<Rightarrow> 256 word) \<Rightarrow> kvStore \<Rightarrow> int \<Rightarrow> FingerprintReply" where
  "StoreFingerprint sha kv buckets = FingerprintVersion sha kv buckets 0"

definition BucketEntries :: "(string \<Rightarrow> 256 word) \<Rightarrow> kvStore \<Rightarrow> int \<Rightarrow> int list \<Rightarrow> KeyVersion list" where
  "BucketEntries sha kv buckets want =
     (if want = [] then []
      else map (\<lambda>(k, e). \<lparr>kvn_ExpiresAt = e_ExpiresAt e, kvn_Key = k, kvn_Version = e_Version e,
             kvn_Deleted = e_Deleted e, kvn_ValueHash = valueHash sha e\<rparr>)
        (filter (\<lambda>(k, e). int (bucketOf sha k (bucketCount buckets)) \<in> set want) (fmentries (kv_store kv))))"

section \<open>Lemmas\<close>

lemma bucketCount_pos [simp]: "0 < bucketCount b"
  by (simp add: bucketCount_def FingerprintBuckets_def)

lemma bucketOf_less [simp]:
  assumes "0 < n"
  shows "bucketOf sha k n < n"
proof (cases "n mod 2 ^ 32 = 0")
  case True
  have "unat (drop_bit 224 (sha k)) < 2 ^ 32"
  proof -
    have "unat (sha k) < 2 ^ 256"
      using unsigned_less [of "sha k", where 'a = nat] by simp
    then have "unat (sha k) div 2 ^ 224 < 2 ^ 32"
      by (intro less_mult_imp_div_less) simp
    then show ?thesis
      by (metis drop_bit_eq_div unat_drop_bit_eq)
  qed
  also have "2 ^ 32 \<le> n"
    using True assms by (metis dvd_imp_le dvd_eq_mod_eq_0)
  finally show ?thesis
    using True by (simp add: bucketOf_def)
next
  case False
  then have "bucketOf sha k n < n mod 2 ^ 32"
    by (simp add: bucketOf_def)
  then show ?thesis
    by (rule less_le_trans) simp
qed

lemma length_foldBuckets [simp]: "length (foldBuckets sha n v xs) = n"
proof -
  have "length (foldl (foldEntry sha n v) fs xs) = length fs" for fs
    by (induction xs arbitrary: fs) (auto simp: foldEntry_def Let_def split: prod.split)
  then show ?thesis
    by (simp add: foldBuckets_def)
qed

text \<open>A bucket is the exclusive or of the digests of the entries whose names fall into it.\<close>

definition xorAll :: "256 word list \<Rightarrow> 256 word" where
  "xorAll ws = foldr (XOR) ws 0"

lemma xorAll_simps [simp]: "xorAll [] = 0" "xorAll (w # ws) = w XOR xorAll ws"
  "xorAll (us @ ws) = xorAll us XOR xorAll ws"
  by (simp_all add: xorAll_def) (induction us; simp add: xorAll_def xor.assoc)

definition bucketDigests :: "(string \<Rightarrow> 256 word) \<Rightarrow> nat \<Rightarrow> int \<Rightarrow> nat \<Rightarrow> (string \<times> kvEntry) list \<Rightarrow> 256 word list" where
  "bucketDigests sha n v i xs = map (\<lambda>(k, e). entryDigest sha v k e) (filter (\<lambda>(k, e). bucketOf sha k n = i) xs)"

lemma foldBuckets_nth:
  assumes "i < n"
  shows "foldBuckets sha n v xs ! i = xorAll (bucketDigests sha n v i xs)"
proof (induction xs rule: rev_induct)
  case Nil
  then show ?case
    using assms by (simp add: foldBuckets_def bucketDigests_def)
next
  case (snoc x xs)
  obtain k e where x: "x = (k, e)"
    by (cases x)
  have "foldBuckets sha n v (xs @ [x]) = foldEntry sha n v (foldBuckets sha n v xs) x"
    by (simp add: foldBuckets_def)
  then show ?case
    using snoc assms by (auto simp: x foldEntry_def Let_def bucketDigests_def nth_list_update xor.commute)
qed

lemma xorAll_perm: "mset us = mset ws \<Longrightarrow> xorAll us = xorAll ws"
proof (induction us arbitrary: ws)
  case (Cons u us)
  then obtain as bs where ws: "ws = as @ u # bs"
    by (metis list.set_intros(1) set_mset_mset split_list)
  then have "mset us = mset (as @ bs)"
    using Cons.prems by simp
  then have "xorAll us = xorAll (as @ bs)"
    by (rule Cons.IH)
  then show ?case
    by (simp add: ws ac_simps)
qed auto

lemma foldBuckets_perm:
  assumes "mset xs = mset ys"
  shows "foldBuckets sha n v xs = foldBuckets sha n v ys"
proof (rule nth_equalityI)
  fix i
  assume "i < length (foldBuckets sha n v xs)"
  then have i: "i < n"
    by simp
  have "mset (bucketDigests sha n v i xs) = mset (bucketDigests sha n v i ys)"
    using assms by (simp add: bucketDigests_def)
  from xorAll_perm [OF this] show "foldBuckets sha n v xs ! i = foldBuckets sha n v ys ! i"
    using i by (simp add: foldBuckets_nth)
qed simp

section \<open>Hexadecimal\<close>

lemma of_char_hexDigit: "d < 16 \<Longrightarrow> of_char (hexDigit d) = (if d < 10 then 48 + d else 87 + d)"
  by (simp add: hexDigit_def)

lemma hexDigit_inj:
  assumes "a < 16" "b < 16" "hexDigit a = hexDigit b"
  shows "a = b"
proof -
  have "of_char (hexDigit a) = (of_char (hexDigit b) :: nat)"
    using assms(3) by simp
  then show ?thesis
    using assms(1,2) by (simp add: of_char_hexDigit split: if_splits)
qed

lemma unat_take_bit_4: "unat (take_bit 4 (w :: 256 word)) < 16"
proof -
  have "unat (take_bit 4 w) = take_bit 4 (unat w)"
    by (simp add: unsigned_take_bit_eq)
  also have "\<dots> < 2 ^ 4"
    by (rule take_bit_nat_less_exp)
  finally show ?thesis
    by simp
qed

lemma hexDigest_inj [simp]: "hexDigest v = hexDigest w \<longleftrightarrow> v = w"
proof
  assume eq: "hexDigest v = hexDigest w"
  have nib: "take_bit 4 (drop_bit (4 * i) v) = take_bit 4 (drop_bit (4 * i) w)" if "i < 64" for i
  proof -
    have "hexDigit (unat (take_bit 4 (drop_bit (4 * i) v))) = hexDigit (unat (take_bit 4 (drop_bit (4 * i) w)))"
      using eq that by (auto simp: hexDigest_def map_eq_conv)
    then have "unat (take_bit 4 (drop_bit (4 * i) v)) = unat (take_bit 4 (drop_bit (4 * i) w))"
      by (rule hexDigit_inj [OF unat_take_bit_4 unat_take_bit_4])
    then show ?thesis
      by (rule unsigned_word_eqI)
  qed
  show "v = w"
  proof (rule bit_word_eqI)
    fix j
    assume j: "j < LENGTH(256)"
    have "bit (take_bit 4 (drop_bit (4 * (j div 4)) v)) (j mod 4) = bit (take_bit 4 (drop_bit (4 * (j div 4)) w)) (j mod 4)"
      using nib [of "j div 4"] j by simp
    then show "bit v j = bit w j"
      by (simp add: bit_take_bit_iff bit_drop_bit_eq)
  qed
qed simp

section \<open>Localisation\<close>

definition contribution :: "(string \<Rightarrow> 256 word) \<Rightarrow> int \<Rightarrow> kvStore \<Rightarrow> string \<Rightarrow> 256 word" where
  "contribution sha v kv k = (case fmlookup (kv_store kv) k of None \<Rightarrow> 0 | Some e \<Rightarrow> entryDigest sha v k e)"

definition restEntries :: "kvStore \<Rightarrow> string \<Rightarrow> (string \<times> kvEntry) list" where
  "restEntries kv k = filter (\<lambda>x. fst x \<noteq> k) (fmentries (kv_store kv))"

lemma filter_eq_distinct: "distinct xs \<Longrightarrow> filter (\<lambda>x. x = k) xs = (if k \<in> set xs then [k] else [])"
  by (induction xs) auto

lemma fmentries_at:
  "filter (\<lambda>x. fst x = k) (fmentries m) = (case fmlookup m k of None \<Rightarrow> [] | Some e \<Rightarrow> [(k, e)])"
  by (auto simp: fmentries_def filter_map comp_def filter_eq_distinct fmlookup_dom'_iff split: option.split)

lemma mset_fmentries:
  "mset (fmentries (kv_store kv)) =
     mset ((case fmlookup (kv_store kv) k of None \<Rightarrow> [] | Some e \<Rightarrow> [(k, e)]) @ restEntries kv k)"
  unfolding fmentries_at [symmetric] restEntries_def by (simp add: mset_filter)

lemma restEntries_eq:
  assumes "\<And>k'. k' \<noteq> k \<Longrightarrow> fmlookup (kv_store kv) k' = fmlookup (kv_store kv') k'"
  shows "mset (restEntries kv k) = mset (restEntries kv' k)"
proof -
  have "distinct (restEntries kv k)" "distinct (restEntries kv' k)"
    by (simp_all add: restEntries_def)
  moreover have "set (restEntries kv k) = set (restEntries kv' k)"
    using assms by (auto simp: restEntries_def set_fmentries)
  ultimately show ?thesis
    by (simp add: set_eq_iff_mset_eq_distinct)
qed

lemma foldBuckets_split:
  assumes "i < n"
  shows "foldBuckets sha n v (fmentries (kv_store kv)) ! i =
    (if bucketOf sha k n = i then contribution sha v kv k else 0) XOR foldBuckets sha n v (restEntries kv k) ! i"
proof -
  have "foldBuckets sha n v (fmentries (kv_store kv)) =
      foldBuckets sha n v ((case fmlookup (kv_store kv) k of None \<Rightarrow> [] | Some e \<Rightarrow> [(k, e)]) @ restEntries kv k)"
    by (rule foldBuckets_perm) (rule mset_fmentries)
  then show ?thesis
    using assms by (auto simp: foldBuckets_nth bucketDigests_def contribution_def split: option.split)
qed

lemma xor_cancel_right: "a XOR c = b XOR c \<longleftrightarrow> a = (b :: 256 word)"
proof
  assume "a XOR c = b XOR c"
  then have "(a XOR c) XOR c = (b XOR c) XOR c"
    by simp
  then show "a = b"
    by (simp add: xor.assoc)
qed simp

section \<open>Properties\<close>

text \<open>
  The fingerprint does not depend on the order in which Go visits the map: folding any
  enumeration of the store's entries gives the same buckets.
\<close>

theorem fingerprint_order_free:
  assumes "mset entries = mset (fmentries (kv_store kv))"
  shows "fr_Buckets (FingerprintVersion sha kv buckets version) =
    map hexDigest (foldBuckets sha (bucketCount buckets) version entries)"
  using foldBuckets_perm [OF assms] by (simp add: FingerprintVersion_def)

theorem fingerprint_order_free_witness:
  "fr_Buckets (FingerprintVersion (\<lambda>_. 5) full_store 16 0) =
   map hexDigest (foldBuckets (\<lambda>_. 5) (bucketCount 16) 0 (rev (fmentries (kv_store full_store))))"
  by (rule fingerprint_order_free) simp

text \<open>
  A difference shows where it is: between two stores that hold the same entry under every
  key but one, every other bucket agrees, and the bucket of that key's name agrees exactly when
  the two entries hash alike (an absent entry counting as zero).
\<close>

theorem fingerprint_localises:
  assumes "\<And>k'. k' \<noteq> k \<Longrightarrow> fmlookup (kv_store kv) k' = fmlookup (kv_store kv') k'"
    and "i < bucketCount buckets"
  shows "fr_Buckets (FingerprintVersion sha kv buckets v) ! i = fr_Buckets (FingerprintVersion sha kv' buckets v) ! i
    \<longleftrightarrow> i \<noteq> bucketOf sha k (bucketCount buckets) \<or> contribution sha v kv k = contribution sha v kv' k"
proof -
  let ?n = "bucketCount buckets"
  have rest: "foldBuckets sha ?n v (restEntries kv k) = foldBuckets sha ?n v (restEntries kv' k)"
    by (rule foldBuckets_perm) (rule restEntries_eq [OF assms(1)])
  show ?thesis
    using assms(2) foldBuckets_split [OF assms(2), of sha v kv k] foldBuckets_split [OF assms(2), of sha v kv' k] rest
    by (auto simp: FingerprintVersion_def xor_cancel_right)
qed

theorem fingerprint_localises_witness:
  "fr_Buckets (FingerprintVersion (\<lambda>s. of_nat (length s)) demo_store 16 0) ! 3 =
   fr_Buckets (FingerprintVersion (\<lambda>s. of_nat (length s)) (NewKVStore ''n1'' 0) 16 0) ! 3"
proof -
  have "fmlookup (kv_store demo_store) k' = fmlookup (kv_store (NewKVStore ''n1'' 0)) k'" if "k' \<noteq> ''k''" for k'
    using that by (simp add: eval_store)
  then show ?thesis
    using fingerprint_localises [of "''k''" demo_store "NewKVStore ''n1'' 0" 3 16 "\<lambda>s. of_nat (length s)" 0]
    by (simp add: bucketCount_def bucketOf_def)
qed

text \<open>
  A bucket listing names exactly the keys the store holds in the wanted buckets, tombstones
  included, once each and in key order, with what the fingerprint hashed of each.
\<close>

theorem bucket_entries_exact:
  assumes "want \<noteq> []"
  shows "map kvn_Key (BucketEntries sha kv buckets want) =
      filter (\<lambda>k. int (bucketOf sha k (bucketCount buckets)) \<in> set want) (fmkeys (kv_store kv))
    \<and> (\<forall>kvn\<in>set (BucketEntries sha kv buckets want). \<exists>e. fmlookup (kv_store kv) (kvn_Key kvn) = Some e
         \<and> kvn_Version kvn = e_Version e \<and> kvn_Deleted kvn = e_Deleted e
         \<and> kvn_ExpiresAt kvn = e_ExpiresAt e \<and> kvn_ValueHash kvn = valueHash sha e)"
  using assms by (auto simp: BucketEntries_def fmentries_def filter_map comp_def fmlookup_dom'_iff)

theorem bucket_entries_exact_witness:
  "map kvn_Key (BucketEntries (\<lambda>_. 0) full_store 16 [0]) = [''a'', ''k'']"
proof -
  have "fmkeys (kv_store full_store) = [''a'', ''k'']"
    by (simp add: full_store_def fmkeys_def)
  then show ?thesis
    using bucket_entries_exact [of "[0]" "\<lambda>_. 0" full_store 16] by (simp add: bucketOf_def)
qed

end
