(* ===== verification/Journal.thy ===== *)
theory Journal
  imports Fingerprints
begin

text \<open>
  The state file and its journal (\<open>pkg/discovery/model/persist.go\<close>, \<open>pkg/discovery/model/journal.go\<close>).

  The file system is a finite map from paths to contents.  Every system call that can fail takes the
  next element of a script of faults: none, an I/O error, or the process being killed, the latter two
  with the number of bytes a write had got to.  An action returns whether it succeeded, failed or was
  cut off by a kill; after a kill only the files are left.  \<open>os.Stat\<close> is a lookup, a kill loses
  nothing that was written (a power failure, which \<open>journal-sync\<close> guards against, is not modelled),
  and the state path names a regular file or nothing.

  JSON is a record of parameters: an encoder and a decoder for the state, for a delta, for the chat
  inside a delta, and for a journal record, whose decoder also stands for the \<open>bytes.TrimSpace\<close>
  before it.  SHA-256 is a parameter too.
\<close>

section \<open>Data\<close>

record journalDelta =
  jd_NodeID :: string
  jd_Clock :: u64
  jd_Chat :: string
  jd_ChatSeq :: u64
  jd_Set :: "(string, kvEntry) fmap"
  jd_Remove :: "string list"

record journalRecord =
  jr_Data :: string
  jr_SHA256 :: string

record journal_json =
  jj_state :: "PersistState \<Rightarrow> string"
  jj_readState :: "string \<Rightarrow> PersistState option"
  jj_delta :: "journalDelta \<Rightarrow> string"
  jj_readDelta :: "string \<Rightarrow> journalDelta option"
  jj_chat :: "ChatEntry list \<Rightarrow> string"
  jj_readChat :: "string \<Rightarrow> ChatEntry list option"
  jj_record :: "journalRecord \<Rightarrow> string"
  jj_readRecord :: "string \<Rightarrow> journalRecord option"
  jj_sha :: "string \<Rightarrow> 256 word"

datatype persistError = ErrIO | ErrBadState | ErrBadJournal | ErrNoCheckpoint

text \<open>\<open>Error\<close> is the chain of causes joined into one message, the empty list being no error.\<close>

record PersistenceHealth =
  ph_Mode :: string
  ph_Durable :: bool
  ph_LastDurable :: int
  ph_Enabled :: bool
  ph_Pending :: bool
  ph_LastSuccess :: int
  ph_Error :: "persistError list"
  ph_RecoveryFile :: string

definition zero_PersistenceHealth :: PersistenceHealth where
  "zero_PersistenceHealth = \<lparr>ph_Mode = '''', ph_Durable = False, ph_LastDurable = 0, ph_Enabled = False,
     ph_Pending = False, ph_LastSuccess = 0, ph_Error = [], ph_RecoveryFile = ''''\<rparr>"

definition zeroState :: PersistState where
  "zeroState = \<lparr>ps_NodeID = '''', ps_Clock = 0, ps_Entries = fmempty, ps_Chat = [], ps_ChatSeq = 0\<rparr>"

record Persister =
  pr_mode :: string
  pr_previous :: PersistState
  pr_journalRecords :: nat
  pr_path :: string
  pr_lastGen :: u64
  pr_epoch :: u64
  pr_health :: PersistenceHealth
  pr_blocked :: bool

definition NewPersister :: "string \<Rightarrow> Persister" where
  "NewPersister path = \<lparr>pr_mode = ''snapshot'', pr_previous = zeroState, pr_journalRecords = 0,
     pr_path = path, pr_lastGen = 0, pr_epoch = 0,
     pr_health = zero_PersistenceHealth\<lparr>ph_Enabled := True, ph_Mode := ''snapshot''\<rparr>, pr_blocked = False\<rparr>"

text \<open>\<open>strings.NewReplacer\<close> of four characters by an underscore.\<close>

definition sanitizeAddr :: "string \<Rightarrow> string" where
  "sanitizeAddr addr =
     (let s = map (\<lambda>c. if c \<in> {CHR '':'', CHR ''/'', CHR 0x5C, CHR '' ''} then CHR ''_'' else c) addr
      in if s = '''' then ''node'' else s)"

definition Health :: "Persister \<Rightarrow> PersistenceHealth" where
  "Health p = pr_health p"

definition MarkDirty :: "Persister \<Rightarrow> Persister" where
  "MarkDirty p = p\<lparr>pr_epoch := pr_epoch p + 1,
     pr_health := (pr_health p)\<lparr>ph_Durable := False, ph_Pending := True\<rparr>\<rparr>"

definition Epoch :: "Persister \<Rightarrow> u64" where
  "Epoch p = pr_epoch p"

definition SetDurability :: "string \<Rightarrow> Persister \<Rightarrow> Persister option" where
  "SetDurability mode p =
     (if mode \<noteq> ''snapshot'' \<and> mode \<noteq> ''journal'' \<and> mode \<noteq> ''journal-sync'' then None
      else Some (p\<lparr>pr_mode := mode, pr_health := (pr_health p)\<lparr>ph_Mode := mode\<rparr>\<rparr>))"

section \<open>System calls\<close>

type_synonym files = "(string, string) fmap"

datatype fault = NoFault | IOError "nat option" | Kill "nat option"

record world =
  w_fs :: files
  w_faults :: "fault list"
  w_p :: Persister

datatype outcome = Ok | Err | Crash

type_synonym act = "world \<Rightarrow> outcome \<times> world"

definition cut :: "(nat \<Rightarrow> files \<Rightarrow> files) \<Rightarrow> nat option \<Rightarrow> files \<Rightarrow> files" where
  "cut part n fs = (case n of None \<Rightarrow> fs | Some k \<Rightarrow> part k fs)"

definition osCall :: "(files \<Rightarrow> files) \<Rightarrow> (nat \<Rightarrow> files \<Rightarrow> files) \<Rightarrow> act" where
  "osCall whole part w = (case w_faults w of
     [] \<Rightarrow> (Ok, w\<lparr>w_fs := whole (w_fs w)\<rparr>)
   | f # rest \<Rightarrow> (case f of
       NoFault \<Rightarrow> (Ok, w\<lparr>w_fs := whole (w_fs w), w_faults := rest\<rparr>)
     | IOError n \<Rightarrow> (Err, w\<lparr>w_fs := cut part n (w_fs w), w_faults := rest\<rparr>)
     | Kill n \<Rightarrow> (Crash, w\<lparr>w_fs := cut part n (w_fs w), w_faults := rest\<rparr>)))"

text \<open>Calls that leave the modelled contents alone: making a directory, opening, syncing, closing.\<close>

definition quiet :: act where
  "quiet = osCall id (\<lambda>_. id)"

definition contents :: "files \<Rightarrow> string \<Rightarrow> string" where
  "contents fs path = (case fmlookup fs path of None \<Rightarrow> '''' | Some s \<Rightarrow> s)"

definition writeFile :: "string \<Rightarrow> string \<Rightarrow> act" where
  "writeFile path data = osCall (fmupd path data) (\<lambda>n. fmupd path (take n data))"

definition renameFile :: "string \<Rightarrow> string \<Rightarrow> act" where
  "renameFile a b = osCall (\<lambda>fs. fmdrop a (fmupd b (contents fs a) fs)) (\<lambda>_. id)"

definition removeFile :: "string \<Rightarrow> act" where
  "removeFile path = osCall (fmdrop path) (\<lambda>_. id)"

definition openAppend :: "string \<Rightarrow> act" where
  "openAppend path = osCall (\<lambda>fs. fmupd path (contents fs path) fs) (\<lambda>_. id)"

definition appendFile :: "string \<Rightarrow> string \<Rightarrow> act" where
  "appendFile path data = osCall (\<lambda>fs. fmupd path (contents fs path @ data) fs)
     (\<lambda>n fs. fmupd path (contents fs path @ take n data) fs)"

definition truncateFile :: "string \<Rightarrow> nat \<Rightarrow> act" where
  "truncateFile path n = osCall (\<lambda>fs. fmupd path (take n (contents fs path)) fs) (\<lambda>_. id)"

definition setP :: "(Persister \<Rightarrow> Persister) \<Rightarrow> act" where
  "setP f w = (Ok, w\<lparr>w_p := f (w_p w)\<rparr>)"

text \<open>One action after another, stopping at the first that does not succeed.\<close>

fun seqA :: "act list \<Rightarrow> act" where
  "seqA [] w = (Ok, w)"
| "seqA (a # as) w = (case a w of (Ok, w') \<Rightarrow> seqA as w' | r \<Rightarrow> r)"

text \<open>An action whose error is ignored, and one with a handler that runs before its error is returned.\<close>

definition ignoreErr :: "act \<Rightarrow> act" where
  "ignoreErr a w = (case a w of (Err, w') \<Rightarrow> (Ok, w') | r \<Rightarrow> r)"

definition onErr :: "act \<Rightarrow> act \<Rightarrow> act" where
  "onErr a h w = (case a w of
     (Err, w') \<Rightarrow> (case h w' of (Ok, w'') \<Rightarrow> (Err, w'') | r \<Rightarrow> r)
   | r \<Rightarrow> r)"

section \<open>Deltas\<close>

definition newline :: char where
  "newline = CHR 0x0A"

definition makeDelta :: "(ChatEntry list \<Rightarrow> string) \<Rightarrow> PersistState \<Rightarrow> PersistState \<Rightarrow> journalDelta" where
  "makeDelta chat previous state = \<lparr>jd_NodeID = ps_NodeID state, jd_Clock = ps_Clock state,
     jd_Chat = chat (ps_Chat state), jd_ChatSeq = ps_ChatSeq state,
     jd_Set = fmfilter (\<lambda>k. fmlookup (ps_Entries previous) k \<noteq> fmlookup (ps_Entries state) k) (ps_Entries state),
     jd_Remove = filter (\<lambda>k. fmlookup (ps_Entries state) k = None) (fmkeys (ps_Entries previous))\<rparr>"

definition applyDelta :: "journalDelta \<Rightarrow> ChatEntry list \<Rightarrow> PersistState \<Rightarrow> PersistState" where
  "applyDelta d chat state = \<lparr>ps_NodeID = jd_NodeID d, ps_Clock = jd_Clock d,
     ps_Entries = fmdrop_set (set (jd_Remove d)) (ps_Entries state ++\<^sub>f jd_Set d),
     ps_Chat = chat, ps_ChatSeq = jd_ChatSeq d\<rparr>"

definition makeRecord :: "journal_json \<Rightarrow> PersistState \<Rightarrow> PersistState \<Rightarrow> journalRecord" where
  "makeRecord J previous state =
     (let data = jj_delta J (makeDelta (jj_chat J) previous state)
      in \<lparr>jr_Data = data, jr_SHA256 = hexDigest (jj_sha J data)\<rparr>)"

definition journalLine :: "journal_json \<Rightarrow> PersistState \<Rightarrow> PersistState \<Rightarrow> string" where
  "journalLine J previous state = jj_record J (makeRecord J previous state) @ [newline]"

section \<open>Saving\<close>

definition walPath :: "string \<Rightarrow> string" where
  "walPath path = path @ ''.wal''"

definition syncMode :: "Persister \<Rightarrow> bool" where
  "syncMode p \<longleftrightarrow> pr_mode p = ''journal-sync''"

definition syncDirectory :: act where
  "syncDirectory = seqA [quiet, quiet]"

definition writeAtomic :: "journal_json \<Rightarrow> PersistState \<Rightarrow> act" where
  "writeAtomic J state w =
     (let path = pr_path (w_p w); tmp = path @ ''.tmp''
      in seqA [quiet, writeFile tmp (jj_state J state),
           seqA (if syncMode (w_p w) then [quiet, quiet] else []),
           renameFile tmp path,
           seqA (if syncMode (w_p w) then [syncDirectory] else [])] w)"

definition appendRecord :: "journal_json \<Rightarrow> PersistState \<Rightarrow> act" where
  "appendRecord J state w =
     (let p = w_p w; wal = walPath (pr_path p); line = journalLine J (pr_previous p) state;
          size = length (contents (w_fs w) wal)
      in seqA [openAppend wal,
           onErr (seqA [appendFile wal line, seqA (if syncMode p then [quiet] else [])])
             (seqA [ignoreErr (truncateFile wal size), ignoreErr quiet]),
           quiet,
           seqA (if syncMode p then [syncDirectory] else [])] w)"

definition compactJournal :: "journal_json \<Rightarrow> PersistState \<Rightarrow> act" where
  "compactJournal J state w =
     (let wal = walPath (pr_path (w_p w)) in
      if pr_journalRecords (w_p w) \<ge> 64 \<or> length (contents (w_fs w) wal) > 16 * 2 ^ 20
      then seqA [writeAtomic J state, truncateFile wal 0, seqA (if syncMode (w_p w) then [quiet] else []),
             quiet, setP (\<lambda>p. p\<lparr>pr_journalRecords := 0\<rparr>)] w
      else (Ok, w))"

definition journalSave :: "journal_json \<Rightarrow> PersistState \<Rightarrow> act" where
  "journalSave J state = seqA [quiet,
     \<lambda>w. if fmlookup (w_fs w) (pr_path (w_p w)) = None then writeAtomic J zeroState w else (Ok, w),
     appendRecord J state,
     setP (\<lambda>p. p\<lparr>pr_previous := state, pr_journalRecords := pr_journalRecords p + 1\<rparr>),
     compactJournal J state]"

text \<open>In snapshot mode a left-over journal first gets this save as well, and is then retired.\<close>

definition retireJournal :: "journal_json \<Rightarrow> PersistState \<Rightarrow> act" where
  "retireJournal J state w =
     (if fmlookup (w_fs w) (walPath (pr_path (w_p w))) = None then (Ok, w)
      else
        let oldMode = pr_mode (w_p w)
        in (case journalSave J state (w\<lparr>w_p := (w_p w)\<lparr>pr_mode := ''journal''\<rparr>\<rparr>) of
          (r, w') \<Rightarrow> (r, w'\<lparr>w_p := (w_p w')\<lparr>pr_mode := oldMode\<rparr>\<rparr>)))"

definition writeState :: "journal_json \<Rightarrow> PersistState \<Rightarrow> act" where
  "writeState J state w =
     (if pr_mode (w_p w) = '''' \<or> pr_mode (w_p w) = ''snapshot''
      then seqA [retireJournal J state, writeAtomic J state, \<lambda>w. removeFile (walPath (pr_path (w_p w))) w,
             setP (\<lambda>p. p\<lparr>pr_previous := state\<rparr>)] w
      else journalSave J state w)"

definition setHealth :: "(PersistenceHealth \<Rightarrow> PersistenceHealth) \<Rightarrow> world \<Rightarrow> world" where
  "setHealth f w = w\<lparr>w_p := (w_p w)\<lparr>pr_health := f (pr_health (w_p w))\<rparr>\<rparr>"

definition SaveAt :: "journal_json \<Rightarrow> int \<Rightarrow> u64 \<Rightarrow> PersistState \<Rightarrow> u64 \<Rightarrow> act" where
  "SaveAt J nowMilli gen state epoch w =
     (if gen \<noteq> 0 \<and> gen \<le> pr_lastGen (w_p w) then (Ok, w)
      else
        let w1 = setHealth (\<lambda>h. h\<lparr>ph_Pending := True, ph_Durable := False\<rparr>) w
        in if pr_blocked (w_p w1) then (Ok, w1)
        else (case writeState J state w1 of
          (Crash, w2) \<Rightarrow> (Crash, w2)
        | (Err, w2) \<Rightarrow> (Err, setHealth (\<lambda>h. h\<lparr>ph_Error := [ErrIO]\<rparr>) w2)
        | (Ok, w2) \<Rightarrow>
            let p = w_p w2; durable = (syncMode p \<and> pr_epoch p = epoch)
            in (Ok, setHealth (\<lambda>h. h\<lparr>ph_LastSuccess := nowMilli, ph_Durable := durable,
                   ph_LastDurable := (if durable then nowMilli else ph_LastDurable h), ph_Error := [],
                   ph_Pending := (pr_epoch p \<noteq> epoch)\<rparr>) (w2\<lparr>w_p := p\<lparr>pr_lastGen := gen\<rparr>\<rparr>))))"

definition Save :: "journal_json \<Rightarrow> int \<Rightarrow> u64 \<Rightarrow> PersistState \<Rightarrow> act" where
  "Save J nowMilli gen state w = SaveAt J nowMilli gen state (Epoch (w_p w)) w"

section \<open>Loading\<close>

datatype loadResult = Loaded PersistState bool | LoadFailed persistError | LoadCrashed

text \<open>\<open>ReadBytes('\n')\<close> to the end: the complete lines, and what follows the last of them.\<close>

fun splitLines :: "string \<Rightarrow> string \<Rightarrow> string list \<times> string" where
  "splitLines cur [] = ([], cur)"
| "splitLines cur (c # cs) =
     (if c = newline then (case splitLines [] cs of (ls, rest) \<Rightarrow> ((cur @ [c]) # ls, rest))
      else splitLines (cur @ [c]) cs)"

definition readLine :: "journal_json \<Rightarrow> string \<Rightarrow> (journalDelta \<times> ChatEntry list) option" where
  "readLine J line = (case jj_readRecord J line of
     None \<Rightarrow> None
   | Some r \<Rightarrow>
       if hexDigest (jj_sha J (jr_Data r)) \<noteq> jr_SHA256 r then None
       else (case jj_readDelta J (jr_Data r) of
         None \<Rightarrow> None
       | Some d \<Rightarrow> map_option (\<lambda>c. (d, c)) (jj_readChat J (jd_Chat d))))"

text \<open>The state so far, whether a record was found, how many were counted, and whether all was well.\<close>

fun replayLines :: "journal_json \<Rightarrow> string list \<Rightarrow> PersistState \<times> bool \<times> nat \<Rightarrow> (PersistState \<times> bool \<times> nat) \<times> bool" where
  "replayLines J [] acc = (acc, True)"
| "replayLines J (line # ls) (state, found, n) = (case readLine J line of
     None \<Rightarrow> ((state, found, n), False)
   | Some (d, c) \<Rightarrow> replayLines J ls (applyDelta d c state, True, n + 1))"

definition replay :: "journal_json \<Rightarrow> PersistState \<Rightarrow> world \<Rightarrow> loadResult \<times> world" where
  "replay J state w =
     (let path = pr_path (w_p w); wal = walPath path in
      case fmlookup (w_fs w) wal of
        None \<Rightarrow> (Loaded state False, w\<lparr>w_p := (w_p w)\<lparr>pr_previous := state\<rparr>\<rparr>)
      | Some content \<Rightarrow> (case quiet w of
          (Crash, w1) \<Rightarrow> (LoadCrashed, w1)
        | (Err, w1) \<Rightarrow> (LoadFailed ErrIO, w1)
        | (Ok, w1) \<Rightarrow>
            if fmlookup (w_fs w1) path = None then (LoadFailed ErrNoCheckpoint, w1)
            else (case quiet w1 of
              (Crash, w2) \<Rightarrow> (LoadCrashed, w2)
            | (Err, w2) \<Rightarrow> (LoadFailed ErrIO, w2)
            | (Ok, w2) \<Rightarrow>
                (case splitLines [] content of (ls, rest) \<Rightarrow>
                (case replayLines J ls (state, False, pr_journalRecords (w_p w2)) of ((st, found, n), ok) \<Rightarrow>
                  let w3 = w2\<lparr>w_p := (w_p w2)\<lparr>pr_journalRecords := n\<rparr>\<rparr> in
                  if \<not> ok then (LoadFailed ErrBadJournal, w3)
                  else (case (if rest \<noteq> [] then truncateFile wal (length content - length rest) w3 else (Ok, w3)) of
                    (Crash, w4) \<Rightarrow> (LoadCrashed, w4)
                  | (Err, w4) \<Rightarrow> (LoadFailed ErrIO, w4)
                  | (Ok, w4) \<Rightarrow> (Loaded st found, w4\<lparr>w_p := (w_p w4)\<lparr>pr_previous := st\<rparr>\<rparr>)))))))"

definition blockSaves :: "persistError list \<Rightarrow> world \<Rightarrow> world" where
  "blockSaves errs w = w\<lparr>w_p := (w_p w)\<lparr>pr_blocked := True,
     pr_health := (pr_health (w_p w))\<lparr>ph_Error := errs\<rparr>\<rparr>\<rparr>"

definition protect :: "int \<Rightarrow> persistError \<Rightarrow> act" where
  "protect nowNano cause w =
     (let path = pr_path (w_p w);
          backup = path @ ''.corrupt-'' @ decimalInt nowNano;
          w1 = setHealth (\<lambda>h. h\<lparr>ph_Error := [cause]\<rparr>) w
      in (case (if fmlookup (w_fs w1) path = None then (Err, w1) else renameFile path backup w1) of
        (Crash, w2) \<Rightarrow> (Crash, w2)
      | (Err, w2) \<Rightarrow> (Ok, blockSaves [cause, ErrIO] w2)
      | (Ok, w2) \<Rightarrow>
          let w3 = setHealth (\<lambda>h. h\<lparr>ph_RecoveryFile := backup\<rparr>) w2
          in if fmlookup (w_fs w3) (walPath path) = None then (Ok, w3)
          else (case renameFile (walPath path) (walPath backup) w3 of
            (Crash, w4) \<Rightarrow> (Crash, w4)
          | (Err, w4) \<Rightarrow> (Ok, blockSaves [cause, ErrIO] w4)
          | (Ok, w4) \<Rightarrow> (Ok, w4))))"

definition loadProtected :: "int \<Rightarrow> persistError \<Rightarrow> world \<Rightarrow> loadResult \<times> world" where
  "loadProtected nowNano cause w = (case protect nowNano cause w of
     (Crash, w') \<Rightarrow> (LoadCrashed, w') | (_, w') \<Rightarrow> (LoadFailed cause, w'))"

definition Load :: "journal_json \<Rightarrow> int \<Rightarrow> world \<Rightarrow> loadResult \<times> world" where
  "Load J nowNano w = (case fmlookup (w_fs w) (pr_path (w_p w)) of
     None \<Rightarrow> (case replay J zeroState w of
         (LoadFailed e, w1) \<Rightarrow> (LoadFailed e, blockSaves [e] w1)
       | r \<Rightarrow> r)
   | Some data \<Rightarrow> (case quiet w of
         (Crash, w1) \<Rightarrow> (LoadCrashed, w1)
       | (Err, w1) \<Rightarrow> loadProtected nowNano ErrIO w1
       | (Ok, w1) \<Rightarrow> (case jj_readState J data of
           None \<Rightarrow> loadProtected nowNano ErrBadState w1
         | Some state \<Rightarrow> (case replay J state w1 of
             (LoadFailed e, w2) \<Rightarrow> (LoadFailed e, blockSaves [e] w2)
           | (Loaded st _, w2) \<Rightarrow> (Loaded st True, w2)
           | r \<Rightarrow> r))))"

section \<open>A log of deltas over a checkpoint\<close>

text \<open>
  What recovery relies on: a delta turns its first state into its second, and does so as well from any
  mixture of the two, which is what replaying an old journal over a newer checkpoint produces.
\<close>

locale delta_log =
  fixes app :: "'d \<Rightarrow> 's \<Rightarrow> 's"
    and diff :: "'s \<Rightarrow> 's \<Rightarrow> 'd"
    and between :: "'s \<Rightarrow> 's \<Rightarrow> 's \<Rightarrow> bool"
  assumes between_left: "between s t s"
    and between_right: "between s t t"
    and app_diff: "between s t x \<Longrightarrow> app (diff s t) x = t"
    and between_app: "between s t x \<Longrightarrow> between (app d s) t (app d x)"
begin

definition run :: "'d list \<Rightarrow> 's \<Rightarrow> 's" where
  "run ds s = foldl (\<lambda>x d. app d x) s ds"

lemma run_Nil [simp]: "run [] s = s"
  by (simp add: run_def)

lemma run_Cons: "run (d # ds) s = run ds (app d s)"
  by (simp add: run_def)

lemma run_snoc [simp]: "run (ds @ [d]) s = app d (run ds s)"
  by (simp add: run_def)

lemma between_run: "between s t x \<Longrightarrow> between (run ds s) t (run ds x)"
  by (induction ds arbitrary: s x) (simp_all add: run_Cons between_app)

text \<open>The journal leads from the checkpoint to the current state, and also from that state to itself.\<close>

definition log_at :: "'s \<Rightarrow> 'd list \<Rightarrow> 's \<Rightarrow> bool" where
  "log_at base ds s \<longleftrightarrow> run ds base = s \<and> run ds s = s"

lemma log_at_empty: "log_at s [] s"
  by (simp add: log_at_def)

lemma log_at_checkpoint: "log_at base ds s \<Longrightarrow> log_at s ds s"
  by (simp add: log_at_def)

lemma log_at_append:
  assumes "log_at base ds s"
  shows "log_at base (ds @ [diff s t]) t"
proof -
  have "between s t (run ds t)"
    using between_run [OF between_right [of s t], where ds = ds] assms by (simp add: log_at_def)
  then show ?thesis
    using assms by (simp add: log_at_def app_diff between_left)
qed

end

definition entries_between :: "PersistState \<Rightarrow> PersistState \<Rightarrow> PersistState \<Rightarrow> bool" where
  "entries_between s t x \<longleftrightarrow> (\<forall>k. fmlookup (ps_Entries x) k = fmlookup (ps_Entries s) k
     \<or> fmlookup (ps_Entries x) k = fmlookup (ps_Entries t) k)"

lemma lookup_applyDelta: "fmlookup (ps_Entries (applyDelta d c s)) k =
    (if k \<in> set (jd_Remove d) then None
     else case fmlookup (jd_Set d) k of Some e \<Rightarrow> Some e | None \<Rightarrow> fmlookup (ps_Entries s) k)"
  by (auto simp: applyDelta_def fmlookup_dom_iff split: option.split)

lemma applyDelta_makeDelta:
  assumes "entries_between s t x"
  shows "applyDelta (makeDelta chat s t) (ps_Chat t) x = t"
proof -
  have "fmlookup (ps_Entries (applyDelta (makeDelta chat s t) (ps_Chat t) x)) k = fmlookup (ps_Entries t) k" for k
    using assms [unfolded entries_between_def, rule_format, of k]
    by (cases "fmlookup (ps_Entries t) k")
      (auto simp: lookup_applyDelta makeDelta_def fmlookup_dom'_iff split: option.split)
  then have "ps_Entries (applyDelta (makeDelta chat s t) (ps_Chat t) x) = ps_Entries t"
    by (rule fmap_ext)
  then show ?thesis
    by (intro PersistState.equality) (simp_all add: applyDelta_def makeDelta_def)
qed

interpretation jd: delta_log "\<lambda>(d, c). applyDelta d c" "\<lambda>s t. (makeDelta (jj_chat J) s t, ps_Chat t)" entries_between
  for J
proof unfold_locales
  show "entries_between s t x \<Longrightarrow> entries_between ((case d of (d, c) \<Rightarrow> applyDelta d c) s) t ((case d of (d, c) \<Rightarrow> applyDelta d c) x)"
    for s t x d
    by (cases d) (auto simp: entries_between_def lookup_applyDelta split: option.split)
qed (auto simp: entries_between_def applyDelta_makeDelta)

lemmas delta_defs = jd.run_def jd.log_at_def

section \<open>Lines\<close>

text \<open>A line of the journal: one newline, at its end, and readable.\<close>

definition line_ok :: "journal_json \<Rightarrow> string \<Rightarrow> journalDelta \<times> ChatEntry list \<Rightarrow> bool" where
  "line_ok J l d \<longleftrightarrow> (\<exists>b. l = b @ [newline] \<and> newline \<notin> set b) \<and> readLine J l = Some d"

lemma splitLines_plain: "newline \<notin> set xs \<Longrightarrow> splitLines cur (xs @ ys) = splitLines (cur @ xs) ys"
  by (induction xs arbitrary: cur) auto

lemma splitLines_lines:
  "list_all2 (line_ok J) ls ds \<Longrightarrow> newline \<notin> set rest \<Longrightarrow> splitLines [] (concat ls @ rest) = (ls, rest)"
proof (induction ls ds rule: list_all2_induct)
  case Nil
  then show ?case
    using splitLines_plain [of rest "[]" "[]"] by simp
next
  case (Cons l ls d ds)
  obtain b where "l = b @ [newline]" "newline \<notin> set b"
    using Cons.hyps(1) by (auto simp: line_ok_def)
  then show ?case
    using Cons by (simp add: splitLines_plain)
qed

lemma replayLines_lines:
  "list_all2 (line_ok J) ls ds \<Longrightarrow>
   replayLines J ls (s, found, n) = ((jd.run ds s, found \<or> ls \<noteq> [], n + length ls), True)"
proof (induction ls ds arbitrary: s found n rule: list_all2_induct)
  case (Cons l ls d ds)
  then show ?case
    by (cases d) (simp add: line_ok_def jd.run_Cons)
qed simp

section \<open>Reasoning about actions\<close>

text \<open>
  From a state with \<open>P\<close>, the action ends with \<open>Q\<close> if it succeeds, and with \<open>R\<close> if it fails or the
  process is killed.  Assertions are about the files and the persister.
\<close>

type_synonym assertion = "files \<Rightarrow> Persister \<Rightarrow> bool"

definition valid :: "assertion \<Rightarrow> act \<Rightarrow> assertion \<Rightarrow> assertion \<Rightarrow> bool" where
  "valid P a Q R \<longleftrightarrow> (\<forall>w r w'. P (w_fs w) (w_p w) \<longrightarrow> a w = (r, w') \<longrightarrow>
     (if r = Ok then Q (w_fs w') (w_p w') else R (w_fs w') (w_p w')))"

lemma validD: "valid P a Q R \<Longrightarrow> P (w_fs w) (w_p w) \<Longrightarrow> a w = (r, w') \<Longrightarrow>
    (if r = Ok then Q (w_fs w') (w_p w') else R (w_fs w') (w_p w'))"
  by (auto simp: valid_def)

lemma valid_conseq:
  assumes "valid P a Q R"
    and "\<And>fs p. P' fs p \<Longrightarrow> P fs p" "\<And>fs p. Q fs p \<Longrightarrow> Q' fs p" "\<And>fs p. R fs p \<Longrightarrow> R' fs p"
  shows "valid P' a Q' R'"
  using assms unfolding valid_def by metis

lemma valid_Nil: "(\<And>fs p. P fs p \<Longrightarrow> Q fs p) \<Longrightarrow> valid P (seqA []) Q R"
  by (simp add: valid_def)

lemma valid_Cons:
  assumes "valid P a M R" "valid M (seqA as) Q R"
  shows "valid P (seqA (a # as)) Q R"
  unfolding valid_def
proof (intro allI impI)
  fix w r w'
  assume P: "P (w_fs w) (w_p w)" and run: "seqA (a # as) w = (r, w')"
  obtain r1 w1 where a: "a w = (r1, w1)"
    by (cases "a w")
  show "if r = Ok then Q (w_fs w') (w_p w') else R (w_fs w') (w_p w')"
    using validD [OF assms(1) P a] validD [OF assms(2), of w1] run a by (cases r1) auto
qed

lemma valid_single: "valid P a Q R \<Longrightarrow> valid P (seqA [a]) Q R"
  by (rule valid_Cons) (auto intro: valid_Nil)

lemma valid_osCall:
  assumes "\<And>fs p. P fs p \<Longrightarrow> Q (f fs) p" "\<And>fs p. P fs p \<Longrightarrow> R fs p" "\<And>fs p n. P fs p \<Longrightarrow> R (g n fs) p"
  shows "valid P (osCall f g) Q R"
  unfolding valid_def osCall_def cut_def
  using assms by (auto split: list.splits fault.splits option.splits)

lemma valid_quiet: "(\<And>fs p. P fs p \<Longrightarrow> R fs p) \<Longrightarrow> valid P quiet P R"
  unfolding quiet_def by (rule valid_osCall) auto

lemma valid_syncDirectory: "(\<And>fs p. P fs p \<Longrightarrow> R fs p) \<Longrightarrow> valid P syncDirectory P R"
  unfolding syncDirectory_def by (rule valid_Cons [OF valid_quiet valid_Cons [OF valid_quiet valid_Nil]]) auto

lemma valid_setP: "(\<And>fs p. P fs p \<Longrightarrow> Q fs (f p)) \<Longrightarrow> valid P (setP f) Q R"
  by (auto simp: valid_def setP_def)

lemma valid_ignoreErr:
  assumes "valid P a Q R" "\<And>fs p. R fs p \<Longrightarrow> Q fs p"
  shows "valid P (ignoreErr a) Q R"
  unfolding valid_def ignoreErr_def
  by (auto split: prod.splits outcome.splits dest!: validD [OF assms(1)] intro: assms(2))

lemma valid_onErr:
  assumes "valid P a Q E" "valid E h R R" "\<And>fs p. E fs p \<Longrightarrow> R fs p"
  shows "valid P (onErr a h) Q R"
  unfolding valid_def onErr_def
  by (auto split: prod.splits outcome.splits dest!: validD [OF assms(1)] validD [OF assms(2)] intro: assms(3))

text \<open>An action whose parts depend on the state it starts in.\<close>

lemma valid_here:
  assumes "\<And>w. P (w_fs w) (w_p w) \<Longrightarrow> valid (\<lambda>fs p. fs = w_fs w \<and> p = w_p w) (b w) Q R"
    and "\<And>w. a w = b w w"
  shows "valid P a Q R"
  using assms unfolding valid_def by metis

lemma valid_syncIf:
  assumes "\<And>fs p. P fs p \<Longrightarrow> R fs p"
  shows "valid P (seqA (if c then [syncDirectory] else [])) P R" "valid P (seqA (if c then [quiet] else [])) P R"
    "valid P (seqA (if c then [quiet, quiet] else [])) P R"
  using assms by (auto intro!: valid_Nil valid_single valid_quiet valid_syncDirectory valid_Cons [OF valid_quiet])

section \<open>What is on disk\<close>

text \<open>
  The state file \<open>m\<close> and the journal \<open>l\<close> stand for the state \<open>s\<close>: nothing is there and the state is
  empty, or there is a checkpoint and the journal's lines lead from it to \<open>s\<close>, with a torn last line.
\<close>

definition disk_ok :: "journal_json \<Rightarrow> string option \<Rightarrow> string option \<Rightarrow> PersistState \<Rightarrow> string \<Rightarrow> bool" where
  "disk_ok J m l s torn \<longleftrightarrow>
     (m = None \<and> l = None \<and> s = zeroState \<and> torn = '''')
   \<or> (\<exists>data base ls ds. m = Some data \<and> jj_readState J data = Some base \<and> list_all2 (line_ok J) ls ds
        \<and> (l = Some (concat ls @ torn) \<or> l = None \<and> ls = [] \<and> torn = '''')
        \<and> newline \<notin> set torn \<and> jd.log_at base ds s)"

text \<open>
  What a save of \<open>t\<close> over \<open>s\<close> that did not succeed leaves: the disk stands for one of the two, perhaps with a torn
  last line; and unless the persister still takes \<open>s\<close> for what is saved, the disk stands for \<open>t\<close> and nothing is torn.
\<close>

definition recoverable :: "journal_json \<Rightarrow> PersistState \<Rightarrow> PersistState \<Rightarrow> string option \<Rightarrow> string option \<Rightarrow> Persister \<Rightarrow> bool" where
  "recoverable J s t m l p \<longleftrightarrow> (\<exists>torn. disk_ok J m l s torn \<or> disk_ok J m l t torn)
     \<and> (pr_previous p = s \<or> pr_previous p = t \<and> disk_ok J m l t [])"

text \<open>An assertion about the state file, the journal and the persister.\<close>

definition view :: "(string option \<Rightarrow> string option \<Rightarrow> Persister \<Rightarrow> bool) \<Rightarrow> assertion" where
  "view A fs p = A (fmlookup fs (pr_path p)) (fmlookup fs (walPath (pr_path p))) p"

text \<open>
  What the code relies on of \<open>encoding/json\<close>: states that satisfy \<open>good\<close> (those whose strings are valid
  UTF-8), and the deltas and records made from them, decode to what they were encoded from, and an
  encoded record contains no newline.
\<close>

definition json_ok :: "journal_json \<Rightarrow> (PersistState \<Rightarrow> bool) \<Rightarrow> bool" where
  "json_ok J good \<longleftrightarrow> good zeroState
     \<and> (\<forall>s. good s \<longrightarrow> jj_readState J (jj_state J s) = Some s \<and> jj_readChat J (jj_chat J (ps_Chat s)) = Some (ps_Chat s))
     \<and> (\<forall>s t. good s \<longrightarrow> good t \<longrightarrow>
          jj_readDelta J (jj_delta J (makeDelta (jj_chat J) s t)) = Some (makeDelta (jj_chat J) s t)
        \<and> jj_readRecord J (jj_record J (makeRecord J s t) @ [newline]) = Some (makeRecord J s t)
        \<and> newline \<notin> set (jj_record J (makeRecord J s t)))"

lemma line_ok_journalLine:
  assumes "json_ok J good" "good s" "good t"
  shows "line_ok J (journalLine J s t) (makeDelta (jj_chat J) s t, ps_Chat t)"
proof -
  have "readLine J (journalLine J s t) = Some (makeDelta (jj_chat J) s t, ps_Chat t)"
    using assms by (simp add: json_ok_def readLine_def journalLine_def makeRecord_def Let_def)
      (simp add: makeDelta_def)
  then show ?thesis
    using assms by (auto simp: line_ok_def journalLine_def json_ok_def)
qed

lemma path_neq [simp]: "walPath p \<noteq> p" "p \<noteq> walPath p" "p @ ''.tmp'' \<noteq> p" "p \<noteq> p @ ''.tmp''"
  "p @ ''.tmp'' \<noteq> walPath p" "walPath p \<noteq> p @ ''.tmp''"
  by (simp_all add: walPath_def)

lemma valid_writeAtomic:
  assumes "\<And>m l p. A m l p \<Longrightarrow> B (Some (jj_state J x)) l p"
    and "\<And>m l p. A m l p \<Longrightarrow> R m l p" "\<And>m l p. B m l p \<Longrightarrow> R m l p"
  shows "valid (view A) (writeAtomic J x) (view B) (view R)"
proof (rule valid_here [where b = "\<lambda>w. seqA [quiet, writeFile (pr_path (w_p w) @ ''.tmp'') (jj_state J x),
      seqA (if syncMode (w_p w) then [quiet, quiet] else []), renameFile (pr_path (w_p w) @ ''.tmp'') (pr_path (w_p w)),
      seqA (if syncMode (w_p w) then [syncDirectory] else [])]"])
  fix w :: world
  let ?p = "w_p w"
  let ?tmp = "pr_path ?p @ ''.tmp''"
  let ?P = "\<lambda>fs p. p = ?p \<and> view A fs p"
  let ?T = "\<lambda>fs p. p = ?p \<and> view A fs p \<and> fmlookup fs ?tmp = Some (jj_state J x)"
  let ?B = "\<lambda>fs p. p = ?p \<and> view B fs p"
  assume pre: "view A (w_fs w) (w_p w)"
  have AR: "view A fs p \<Longrightarrow> view R fs p" and BR: "view B fs p \<Longrightarrow> view R fs p" for fs p
    using assms(2,3) by (simp_all add: view_def)
  have wr: "valid ?P (writeFile ?tmp (jj_state J x)) ?T (view R)"
    unfolding writeFile_def by (rule valid_osCall) (auto simp: view_def assms(2))
  have ren: "valid ?T (renameFile ?tmp (pr_path ?p)) ?B (view R)"
    unfolding renameFile_def by (rule valid_osCall) (auto simp: view_def contents_def assms(1,2))
  have q: "valid ?P quiet ?P (view R)"
    by (rule valid_quiet) (simp add: AR)
  have T: "?T fs p \<Longrightarrow> view R fs p" and B: "?B fs p \<Longrightarrow> view R fs p" for fs p
    using AR BR by blast+
  note all = valid_Cons [OF q valid_Cons [OF wr valid_Cons [OF valid_syncIf(3) [OF T]
      valid_Cons [OF ren valid_single [OF valid_syncIf(1) [OF B]]]]]]
  show "valid (\<lambda>fs p. fs = w_fs w \<and> p = w_p w) (seqA [quiet, writeFile ?tmp (jj_state J x),
      seqA (if syncMode (w_p w) then [quiet, quiet] else []), renameFile ?tmp (pr_path (w_p w)),
      seqA (if syncMode (w_p w) then [syncDirectory] else [])]) (view B) (view R)"
    by (rule valid_conseq [OF all]) (use pre in auto)
qed (simp only: writeAtomic_def Let_def)

lemma disk_ok_torn:
  assumes "disk_ok J m l s ''''" "m \<noteq> None" "line_ok J line (makeDelta (jj_chat J) s t, ps_Chat t)"
    and "c = (case l of None \<Rightarrow> '''' | Some x \<Rightarrow> x)"
  shows "disk_ok J m (Some c) s ''''" "disk_ok J m (Some (c @ line)) t ''''"
    "pr_previous p = s \<Longrightarrow> recoverable J s t m (Some (c @ take n line)) p"
proof -
  obtain data base ls ds where d: "m = Some data" "jj_readState J data = Some base" "list_all2 (line_ok J) ls ds"
      "l = Some (concat ls) \<or> l = None \<and> ls = []" "jd.log_at base ds s"
    using assms(1,2) unfolding disk_ok_def by auto
  have c: "c = concat ls"
    using d(4) assms(4) by auto
  have *: "newline \<notin> set torn \<Longrightarrow> disk_ok J m (Some (c @ torn)) s torn" for torn
    using d c unfolding disk_ok_def by blast
  have "list_all2 (line_ok J) (ls @ [line]) (ds @ [(makeDelta (jj_chat J) s t, ps_Chat t)])"
    using d(3) assms(3) by (simp add: list_all2_appendI)
  then show new: "disk_ok J m (Some (c @ line)) t ''''"
    using d(1,2) c jd.log_at_append [OF d(5), where t = t and J = J] unfolding disk_ok_def by fastforce
  show "disk_ok J m (Some c) s ''''"
    using * [of "''''"] by simp
  obtain b where b: "line = b @ [newline]" "newline \<notin> set b"
    using assms(3) by (auto simp: line_ok_def)
  show "recoverable J s t m (Some (c @ take n line)) p" if p: "pr_previous p = s"
  proof (cases "n \<ge> length line")
    case True
    then show ?thesis
      using new p by (auto simp: recoverable_def)
  next
    case False
    then have "take n line = take n b"
      using b by simp
    then have "newline \<notin> set (take n line)"
      using b(2) by (auto dest: in_set_takeD)
    then show ?thesis
      using * p by (auto simp: recoverable_def)
  qed
qed

text \<open>The disk stands for \<open>s\<close>, nothing torn, and the persister knows it.\<close>

definition synced :: "journal_json \<Rightarrow> PersistState \<Rightarrow> string option \<Rightarrow> string option \<Rightarrow> Persister \<Rightarrow> bool" where
  "synced J s m l p \<longleftrightarrow> disk_ok J m l s '''' \<and> pr_previous p = s"

lemma valid_appendRecord:
  assumes "json_ok J good" "good s" "good t"
  shows "valid (view (\<lambda>m l p. synced J s m l p \<and> m \<noteq> None)) (appendRecord J t)
    (view (\<lambda>m l p. disk_ok J m l t '''' \<and> m \<noteq> None)) (view (recoverable J s t))"
proof (rule valid_here [where b = "\<lambda>w. let p = w_p w; wal = walPath (pr_path p) in
      seqA [openAppend wal, onErr (seqA [appendFile wal (journalLine J (pr_previous p) t), seqA (if syncMode p then [quiet] else [])])
        (seqA [ignoreErr (truncateFile wal (length (contents (w_fs w) wal))), ignoreErr quiet]), quiet,
        seqA (if syncMode p then [syncDirectory] else [])]"])
  fix w :: world
  assume pre: "view (\<lambda>m l p. synced J s m l p \<and> m \<noteq> None) (w_fs w) (w_p w)"
  let ?p = "w_p w"
  let ?wal = "walPath (pr_path ?p)"
  let ?m = "fmlookup (w_fs w) (pr_path ?p)"
  let ?c = "contents (w_fs w) ?wal"
  let ?line = "journalLine J (pr_previous ?p) t"
  let ?W = "\<lambda>x fs p. p = ?p \<and> fmlookup fs (pr_path ?p) = ?m \<and> fmlookup fs ?wal = Some x"
  let ?E = "\<lambda>fs p. \<exists>n. ?W (?c @ take n ?line) fs p"
  have prev: "pr_previous ?p = s" and m: "?m \<noteq> None" and disk: "disk_ok J ?m (fmlookup (w_fs w) ?wal) s ''''"
    using pre by (auto simp: view_def synced_def)
  note torn = disk_ok_torn [OF disk m line_ok_journalLine [OF assms(1-3)], of ?c, folded contents_def, OF refl]
  have ER: "?E fs p \<Longrightarrow> view (recoverable J s t) fs p" for fs p
    using torn(3) by (auto simp: view_def prev)
  have cR: "?W ?c fs p \<Longrightarrow> view (recoverable J s t) fs p" for fs p
    using torn(1) prev by (auto simp: view_def recoverable_def)
  have lE: "?W (?c @ ?line) fs p \<Longrightarrow> ?E fs p" for fs p
    by (intro exI [of _ "length ?line"]) simp
  have opn: "valid (\<lambda>fs p. fs = w_fs w \<and> p = ?p) (openAppend ?wal) (?W ?c) (view (recoverable J s t))"
    unfolding openAppend_def by (rule valid_osCall) (use disk prev in \<open>auto simp: view_def recoverable_def\<close>)
  have app: "valid (?W ?c) (appendFile ?wal ?line) (?W (?c @ ?line)) ?E"
    unfolding appendFile_def
    by (rule valid_osCall) (auto simp: contents_def intro: exI [of _ 0])
  have appends: "valid (?W ?c) (seqA [appendFile ?wal ?line, seqA (if syncMode ?p then [quiet] else [])]) (?W (?c @ ?line)) ?E"
    by (rule valid_Cons [OF app valid_single [OF valid_syncIf(2) [OF lE]]])
  have cleanup: "valid ?E (seqA [ignoreErr (truncateFile ?wal (length ?c)), ignoreErr quiet])
      (view (recoverable J s t)) (view (recoverable J s t))"
  proof -
    have "valid ?E (truncateFile ?wal (length ?c)) ?E ?E"
      unfolding truncateFile_def by (rule valid_osCall) (auto simp: contents_def intro: exI [of _ 0])
    then have "valid ?E (ignoreErr (truncateFile ?wal (length ?c))) ?E ?E"
      by (rule valid_ignoreErr)
    moreover have "valid ?E (ignoreErr quiet) ?E ?E"
      by (rule valid_ignoreErr [OF valid_quiet])
    ultimately have "valid ?E (seqA [ignoreErr (truncateFile ?wal (length ?c)), ignoreErr quiet]) ?E ?E"
      by (intro valid_Cons [of _ _ ?E] valid_Nil)
    then show ?thesis
      by (rule valid_conseq) (auto intro: ER)
  qed
  have lR: "?W (?c @ ?line) fs p \<Longrightarrow> view (recoverable J s t) fs p" for fs p
    by (rule ER [OF lE])
  note all = valid_Cons [OF opn valid_Cons [OF valid_onErr [OF appends cleanup ER]
      valid_Cons [OF valid_quiet [OF lR] valid_single [OF valid_syncIf(1) [OF lR]]]]]
  show "valid (\<lambda>fs p. fs = w_fs w \<and> p = w_p w) (let p = w_p w; wal = walPath (pr_path p) in
      seqA [openAppend wal, onErr (seqA [appendFile wal (journalLine J (pr_previous p) t), seqA (if syncMode p then [quiet] else [])])
        (seqA [ignoreErr (truncateFile wal (length (contents (w_fs w) wal))), ignoreErr quiet]), quiet,
        seqA (if syncMode p then [syncDirectory] else [])])
     (view (\<lambda>m l p. disk_ok J m l t '''' \<and> m \<noteq> None)) (view (recoverable J s t))"
    unfolding Let_def by (rule valid_conseq [OF all]) (use torn(2) m in \<open>auto simp: view_def prev\<close>)
qed (simp only: appendRecord_def Let_def)

lemma disk_ok_checkpoint:
  assumes "json_ok J good" "good t" "disk_ok J m l t torn"
  shows "disk_ok J (Some (jj_state J t)) l t torn"
proof -
  have rd: "jj_readState J (jj_state J t) = Some t"
    using assms(1,2) by (simp add: json_ok_def)
  consider "l = None" "torn = ''''" | base ls ds where "list_all2 (line_ok J) ls ds"
      "l = Some (concat ls @ torn)" "newline \<notin> set torn" "jd.log_at base ds t"
    using assms(3) unfolding disk_ok_def by blast
  then show ?thesis
  proof cases
    case 1
    then show ?thesis
      unfolding disk_ok_def using rd jd.log_at_empty [of t]
      by (intro disjI2 exI [of _ "jj_state J t"] exI [of _ t] exI [of _ "[]"]) auto
  next
    case 2
    then show ?thesis
      unfolding disk_ok_def using rd jd.log_at_checkpoint by blast
  qed
qed

lemma disk_ok_snapshot:
  assumes "json_ok J good" "good t" "l = None \<or> l = Some ''''"
  shows "disk_ok J (Some (jj_state J t)) l t ''''"
proof -
  have "jj_readState J (jj_state J t) = Some t"
    using assms(1,2) by (simp add: json_ok_def)
  then show ?thesis
    unfolding disk_ok_def using jd.log_at_empty [of t] assms(3)
    by (intro disjI2 exI [of _ "jj_state J t"] exI [of _ t] exI [of _ "[]"]) auto
qed

lemma disk_ok_recoverable: "disk_ok J m l t [] \<Longrightarrow> pr_previous p = s \<or> pr_previous p = t \<Longrightarrow> recoverable J s t m l p"
  "disk_ok J m l s torn \<Longrightarrow> pr_previous p = s \<Longrightarrow> recoverable J s t m l p"
  by (auto simp: recoverable_def)

lemma valid_compactJournal:
  assumes "json_ok J good" "good t"
  shows "valid (view (synced J t)) (compactJournal J t) (view (synced J t)) (view (recoverable J s t))"
proof -
  let ?M = "\<lambda>m l p. synced J t m l p \<and> m = Some (jj_state J t)"
  have MR: "view ?M fs p \<Longrightarrow> view (recoverable J s t) fs p" for fs p
    by (auto simp: view_def synced_def intro: disk_ok_recoverable)
  show ?thesis
  proof (rule valid_here [where b = "\<lambda>w. seqA (if pr_journalRecords (w_p w) \<ge> 64
        \<or> length (contents (w_fs w) (walPath (pr_path (w_p w)))) > 16 * 2 ^ 20
      then [writeAtomic J t, truncateFile (walPath (pr_path (w_p w))) 0, seqA (if syncMode (w_p w) then [quiet] else []),
        quiet, setP (\<lambda>p. p\<lparr>pr_journalRecords := 0\<rparr>)] else [])"])
    fix w :: world
    assume pre: "view (synced J t) (w_fs w) (w_p w)"
    have wa': "valid (\<lambda>fs p. fs = w_fs w \<and> p = w_p w) (writeAtomic J t)
        (\<lambda>fs p. p = w_p w \<and> view ?M fs p) (view (recoverable J s t))"
    proof -
      have "valid (view (\<lambda>m l p. p = w_p w \<and> synced J t m l p)) (writeAtomic J t)
          (view (\<lambda>m l p. p = w_p w \<and> ?M m l p)) (view (recoverable J s t))"
        by (rule valid_writeAtomic) (use assms in \<open>auto simp: synced_def intro: disk_ok_checkpoint disk_ok_recoverable\<close>)
      then show ?thesis
        by (rule valid_conseq) (use pre in \<open>auto simp: view_def\<close>)
    qed
    have tr: "valid (\<lambda>fs p. p = w_p w \<and> view ?M fs p) (truncateFile (walPath (pr_path (w_p w))) 0) (view ?M) (view (recoverable J s t))"
      unfolding truncateFile_def
      by (rule valid_osCall) (use assms in \<open>auto simp: view_def synced_def intro: disk_ok_snapshot disk_ok_recoverable\<close>)
    have st: "valid (view ?M) (setP (\<lambda>p. p\<lparr>pr_journalRecords := 0\<rparr>)) (view (synced J t)) (view (recoverable J s t))"
      by (rule valid_setP) (auto simp: view_def synced_def)
    note all = valid_Cons [OF wa' valid_Cons [OF tr valid_Cons [OF valid_syncIf(2) [OF MR]
        valid_Cons [OF valid_quiet [OF MR] valid_single [OF st]]]]]
    show "valid (\<lambda>fs p. fs = w_fs w \<and> p = w_p w) (seqA (if pr_journalRecords (w_p w) \<ge> 64
        \<or> length (contents (w_fs w) (walPath (pr_path (w_p w)))) > 16 * 2 ^ 20
      then [writeAtomic J t, truncateFile (walPath (pr_path (w_p w))) 0, seqA (if syncMode (w_p w) then [quiet] else []),
        quiet, setP (\<lambda>p. p\<lparr>pr_journalRecords := 0\<rparr>)] else [])) (view (synced J t)) (view (recoverable J s t))"
      using pre all by (auto simp del: seqA.simps intro: valid_Nil)
  qed (simp add: compactJournal_def Let_def)
qed

lemma valid_journalSave:
  assumes "json_ok J good" "good s" "good t"
  shows "valid (view (synced J s)) (journalSave J t) (view (synced J t)) (view (recoverable J s t))"
proof -
  let ?M = "view (\<lambda>m l p. synced J s m l p \<and> m \<noteq> None)"
  have sR: "view (synced J s) fs p \<Longrightarrow> view (recoverable J s t) fs p" for fs p
    by (auto simp: view_def synced_def intro: disk_ok_recoverable)
  have zero: "valid (view (\<lambda>m l p. m = None \<and> synced J s m l p)) (writeAtomic J zeroState) ?M (view (recoverable J s t))"
    by (rule valid_writeAtomic)
      (use assms(1) in \<open>auto simp: synced_def disk_ok_def [of J None] json_ok_def intro: disk_ok_snapshot [OF assms(1)] disk_ok_recoverable\<close>)
  have main: "valid (view (synced J s))
      (\<lambda>w. if fmlookup (w_fs w) (pr_path (w_p w)) = None then writeAtomic J zeroState w else (Ok, w)) ?M (view (recoverable J s t))"
    unfolding valid_def using zero by (auto simp: view_def dest!: validD)
  have prev: "valid (view (\<lambda>m l p. disk_ok J m l t '''' \<and> m \<noteq> None))
      (setP (\<lambda>p. p\<lparr>pr_previous := t, pr_journalRecords := pr_journalRecords p + 1\<rparr>)) (view (synced J t)) (view (recoverable J s t))"
    by (rule valid_setP) (auto simp: view_def synced_def)
  show ?thesis
    unfolding journalSave_def
    by (rule valid_Cons [OF valid_quiet [OF sR] valid_Cons [OF main valid_Cons [OF valid_appendRecord [OF assms]
        valid_Cons [OF prev valid_single [OF valid_compactJournal [OF assms(1,3)]]]]]])
qed

lemma synced_fields [simp]: "synced J s m l (p\<lparr>pr_mode := x\<rparr>) = synced J s m l p"
  "synced J s m l (p\<lparr>pr_health := h\<rparr>) = synced J s m l p" "synced J s m l (p\<lparr>pr_lastGen := g\<rparr>) = synced J s m l p"
  "synced J s m l (p\<lparr>pr_epoch := e\<rparr>) = synced J s m l p"
  by (simp_all add: synced_def)

lemma recoverable_fields [simp]: "recoverable J s t m l (p\<lparr>pr_mode := x\<rparr>) = recoverable J s t m l p"
  "recoverable J s t m l (p\<lparr>pr_health := h\<rparr>) = recoverable J s t m l p"
  by (simp_all add: recoverable_def)

lemma valid_retireJournal:
  assumes "json_ok J good" "good s" "good t"
  shows "valid (view (synced J s)) (retireJournal J t)
    (view (\<lambda>m l p. synced J s m l p \<and> l = None \<or> synced J t m l p)) (view (recoverable J s t))"
  unfolding valid_def
proof (intro allI impI)
  fix w r w'
  assume pre: "view (synced J s) (w_fs w) (w_p w)" and run: "retireJournal J t w = (r, w')"
  let ?w = "w\<lparr>w_p := (w_p w)\<lparr>pr_mode := ''journal''\<rparr>\<rparr>"
  obtain r1 w1 where js: "journalSave J t ?w = (r1, w1)"
    by (cases "journalSave J t ?w")
  have "view (synced J s) (w_fs ?w) (w_p ?w)"
    using pre by (simp add: view_def)
  note post = validD [OF valid_journalSave [OF assms] this js]
  show "if r = Ok then view (\<lambda>m l p. synced J s m l p \<and> l = None \<or> synced J t m l p) (w_fs w') (w_p w')
      else view (recoverable J s t) (w_fs w') (w_p w')"
    using run pre post js
    by (auto simp: retireJournal_def Let_def view_def split: if_splits)
qed

lemma valid_writeState:
  assumes "json_ok J good" "good s" "good t"
  shows "valid (view (synced J s)) (writeState J t) (view (synced J t)) (view (recoverable J s t))"
proof -
  let ?A = "\<lambda>m l p. synced J s m l p \<and> l = None \<or> synced J t m l p"
  let ?M = "\<lambda>m l p. m = Some (jj_state J t) \<and> disk_ok J m l t '''' \<and> (pr_previous p = s \<or> pr_previous p = t)"
  have wa: "valid (view ?A) (writeAtomic J t) (view ?M) (view (recoverable J s t))"
    by (rule valid_writeAtomic)
      (use assms in \<open>auto simp: synced_def intro: disk_ok_checkpoint disk_ok_snapshot disk_ok_recoverable\<close>)
  have rm: "valid (view ?M) (\<lambda>w. removeFile (walPath (pr_path (w_p w))) w) (view ?M) (view (recoverable J s t))"
  proof (rule valid_here [where b = "\<lambda>w. removeFile (walPath (pr_path (w_p w)))"])
    fix w :: world
    assume pre: "view ?M (w_fs w) (w_p w)"
    show "valid (\<lambda>fs p. fs = w_fs w \<and> p = w_p w) (removeFile (walPath (pr_path (w_p w)))) (view ?M) (view (recoverable J s t))"
      unfolding removeFile_def
      by (rule valid_osCall)
        (use pre assms in \<open>auto simp: view_def intro: disk_ok_snapshot disk_ok_recoverable\<close>)
  qed simp
  have pr: "valid (view ?M) (setP (\<lambda>p. p\<lparr>pr_previous := t\<rparr>)) (view (synced J t)) (view (recoverable J s t))"
    by (rule valid_setP) (auto simp: view_def synced_def)
  note snapshot = valid_Cons [OF valid_retireJournal [OF assms] valid_Cons [OF wa valid_Cons [OF rm valid_single [OF pr]]]]
  show ?thesis
    using snapshot valid_journalSave [OF assms] unfolding valid_def writeState_def by (simp del: seqA.simps)
qed

section \<open>Saving and loading\<close>

lemma setHealth_simps [simp]: "w_fs (setHealth f w) = w_fs w" "pr_path (w_p (setHealth f w)) = pr_path (w_p w)"
  "pr_previous (w_p (setHealth f w)) = pr_previous (w_p w)" "pr_blocked (w_p (setHealth f w)) = pr_blocked (w_p w)"
  "w_faults (setHealth f w) = w_faults w" "pr_lastGen (w_p (setHealth f w)) = pr_lastGen (w_p w)"
  "pr_mode (w_p (setHealth f w)) = pr_mode (w_p w)" "pr_epoch (w_p (setHealth f w)) = pr_epoch (w_p w)"
  by (simp_all add: setHealth_def)

lemma view_setHealth [simp]: "view (synced J s) (w_fs w) (w_p (setHealth f w)) = view (synced J s) (w_fs w) (w_p w)"
  by (simp add: view_def setHealth_def)

lemma SaveAt_outcome:
  assumes "json_ok J good" "good s" "good t" "view (synced J s) (w_fs w) (w_p w)" "\<not> pr_blocked (w_p w)"
    and "gen = 0 \<or> gen > pr_lastGen (w_p w)"
    and save: "SaveAt J ms gen t ep w = (r, w')"
  shows "if r = Ok then view (synced J t) (w_fs w') (w_p w') else view (recoverable J s t) (w_fs w') (w_p w')"
proof -
  let ?w = "setHealth (\<lambda>h. h\<lparr>ph_Pending := True, ph_Durable := False\<rparr>) w"
  obtain r1 w1 where ws: "writeState J t ?w = (r1, w1)"
    by (cases "writeState J t ?w")
  have "view (synced J s) (w_fs ?w) (w_p ?w)"
    using assms(4) by simp
  note post = validD [OF valid_writeState [OF assms(1-3)] this ws]
  have "\<not> (gen \<noteq> 0 \<and> gen \<le> pr_lastGen (w_p w))"
    using assms(6) by auto
  then show ?thesis
    using save post ws assms(5)
    by (cases r1) (auto simp: SaveAt_def Let_def view_def setHealth_def)
qed

lemma quiet_calm: "w_faults w = [] \<Longrightarrow> quiet w = (Ok, w)"
  by (simp add: quiet_def osCall_def)

lemma Load_disk_ok:
  assumes "w_faults w = []" "disk_ok J (fmlookup (w_fs w) (pr_path (w_p w))) (fmlookup (w_fs w) (walPath (pr_path (w_p w)))) s torn"
  shows "\<exists>w'. Load J ns w = (Loaded s (fmlookup (w_fs w) (pr_path (w_p w)) \<noteq> None), w')
    \<and> view (synced J s) (w_fs w') (w_p w') \<and> pr_blocked (w_p w') = pr_blocked (w_p w)
    \<and> pr_lastGen (w_p w') = pr_lastGen (w_p w)"
proof -
  let ?path = "pr_path (w_p w)" and ?wal = "walPath (pr_path (w_p w))"
  consider "fmlookup (w_fs w) ?path = None" "fmlookup (w_fs w) ?wal = None" "s = zeroState"
    | data base where "fmlookup (w_fs w) ?path = Some data" "jj_readState J data = Some base"
        "fmlookup (w_fs w) ?wal = None" "base = s"
    | data base ls ds where "fmlookup (w_fs w) ?path = Some data" "jj_readState J data = Some base"
        "fmlookup (w_fs w) ?wal = Some (concat ls @ torn)" "list_all2 (line_ok J) ls ds" "newline \<notin> set torn" "jd.log_at base ds s"
    using assms(2) unfolding disk_ok_def by (auto simp: jd.log_at_def)
  then show ?thesis
  proof cases
    case 1
    then show ?thesis
      by (simp add: Load_def replay_def Let_def view_def synced_def disk_ok_def)
  next
    case 2
    have "disk_ok J (Some data) None s ''''"
      unfolding disk_ok_def using 2 jd.log_at_empty [of s]
      by (intro disjI2 exI [of _ data] exI [of _ base] exI [of _ "[]"]) auto
    then show ?thesis
      using 2 assms(1) by (simp add: Load_def replay_def Let_def view_def synced_def quiet_calm)
  next
    case 3
    have "disk_ok J (Some data) (Some (concat ls)) s ''''"
      unfolding disk_ok_def using 3
      by (intro disjI2 exI [of _ data] exI [of _ base] exI [of _ ls] exI [of _ ds]) auto
    moreover have "jd.run ds base = s"
      using 3(6) by (simp add: jd.log_at_def)
    ultimately show ?thesis
      using 3 assms(1)
      by (auto simp: Load_def replay_def Let_def view_def synced_def quiet_calm splitLines_lines replayLines_lines
          truncateFile_def osCall_def contents_def)
  qed
qed

lemma SetDurability_fields:
  "SetDurability mode p = Some p' \<Longrightarrow> pr_path p' = pr_path p \<and> pr_previous p' = pr_previous p \<and> pr_blocked p' = pr_blocked p"
  by (auto simp: SetDurability_def split: if_splits)

text \<open>
  The histories of a state file: a new node's, with faults of every kind to come; the durability mode
  changing; mutations; acknowledged saves; a save cut short or not, then a restart that loads; and a save that
  fails, after which the process goes on, provided the save had completed its record before it failed or left the
  files as they were (a checkpoint of the empty state and an empty journal may have been created).

  The proviso leaves out two failures, after which the process goes on with files it does not know about: a failed
  append whose undoing fails as well, which leaves half a line (\<open>torn_append_glued\<close>), and a record that was written
  whole although the save then failed, at closing the file or syncing the directory, which the next delta does not
  take into account (\<open>uncounted_record\<close>).
\<close>

definition unharmed :: "journal_json \<Rightarrow> world \<Rightarrow> world \<Rightarrow> bool" where
  "unharmed J w w' \<longleftrightarrow> (let path = pr_path (w_p w); m = fmlookup (w_fs w) path; m' = fmlookup (w_fs w') path in
     contents (w_fs w') (walPath path) = contents (w_fs w) (walPath path)
     \<and> (m' = m \<or> m = None \<and> m' = Some (jj_state J zeroState)))"

definition restarted :: "world \<Rightarrow> world" where
  "restarted w = \<lparr>w_fs = w_fs w, w_faults = [], w_p = NewPersister (pr_path (w_p w))\<rparr>"

inductive live :: "journal_json \<Rightarrow> (PersistState \<Rightarrow> bool) \<Rightarrow> world \<Rightarrow> PersistState \<Rightarrow> bool" for J good where
  live_new: "fmlookup fs path = None \<Longrightarrow> fmlookup fs (walPath path) = None \<Longrightarrow>
    live J good \<lparr>w_fs = fs, w_faults = faults, w_p = NewPersister path\<rparr> zeroState"
| live_faults: "live J good w s \<Longrightarrow> live J good (w\<lparr>w_faults := faults\<rparr>) s"
| live_mode: "live J good w s \<Longrightarrow> SetDurability mode (w_p w) = Some p \<Longrightarrow> live J good (w\<lparr>w_p := p\<rparr>) s"
| live_dirty: "live J good w s \<Longrightarrow> live J good (w\<lparr>w_p := MarkDirty (w_p w)\<rparr>) s"
| live_save: "live J good w s \<Longrightarrow> good t \<Longrightarrow> gen = 0 \<or> pr_lastGen (w_p w) < gen \<Longrightarrow>
    SaveAt J ms gen t ep w = (Ok, w') \<Longrightarrow> live J good w' t"
| live_failed: "live J good w s \<Longrightarrow> good t \<Longrightarrow> gen = 0 \<or> pr_lastGen (w_p w) < gen \<Longrightarrow>
    SaveAt J ms gen t ep w = (Err, w') \<Longrightarrow> pr_previous (w_p w') \<noteq> pr_previous (w_p w) \<or> unharmed J w w' \<Longrightarrow>
    live J good w' (pr_previous (w_p w'))"
| live_restart: "live J good w s \<Longrightarrow> good t \<Longrightarrow> gen = 0 \<or> pr_lastGen (w_p w) < gen \<Longrightarrow>
    SaveAt J ms gen t ep w = (r, w') \<Longrightarrow> Load J ns (restarted w') = (Loaded x found, w'') \<Longrightarrow> live J good w'' x"

section \<open>What saving leaves alone\<close>

definition kept :: "Persister \<Rightarrow> Persister \<Rightarrow> bool" where
  "kept p p' \<longleftrightarrow> pr_path p' = pr_path p \<and> pr_lastGen p' = pr_lastGen p \<and> pr_epoch p' = pr_epoch p
     \<and> pr_health p' = pr_health p \<and> pr_blocked p' = pr_blocked p \<and> pr_mode p' = pr_mode p"

definition keeps :: "act \<Rightarrow> bool" where
  "keeps a \<longleftrightarrow> (\<forall>w. kept (w_p w) (w_p (snd (a w))))"

lemma kept_trans: "kept p q \<Longrightarrow> kept q r \<Longrightarrow> kept p r"
  by (simp add: kept_def)

lemma keeps_osCall [simp]: "keeps (osCall f g)"
  by (auto simp: keeps_def kept_def osCall_def split: list.split fault.split)

lemma keeps_calls [simp]: "keeps quiet" "keeps (writeFile x y)" "keeps (renameFile x y)" "keeps (removeFile x)"
  "keeps (openAppend x)" "keeps (appendFile x y)" "keeps (truncateFile x n)"
  by (simp_all add: quiet_def writeFile_def renameFile_def removeFile_def openAppend_def appendFile_def truncateFile_def)

lemma keeps_setP [simp]: "keeps (setP f) \<longleftrightarrow> (\<forall>p. kept p (f p))"
proof
  assume k: "keeps (setP f)"
  show "\<forall>p. kept p (f p)"
  proof
    fix p
    show "kept p (f p)"
      using k [unfolded keeps_def, rule_format, of "\<lparr>w_fs = fmempty, w_faults = [], w_p = p\<rparr>"] by (simp add: setP_def)
  qed
qed (simp add: keeps_def setP_def)

lemma keeps_seqA [simp]: "list_all keeps as \<Longrightarrow> keeps (seqA as)"
proof (induction as)
  case (Cons a as)
  show ?case
    unfolding keeps_def
  proof
    fix w
    obtain r w1 where a: "a w = (r, w1)"
      by (cases "a w")
    have "kept (w_p w) (w_p w1)"
      using Cons.prems a by (auto simp: keeps_def dest: spec [of _ w])
    moreover have "kept (w_p w1) (w_p (snd (seqA as w1)))"
      using Cons by (simp add: keeps_def)
    ultimately show "kept (w_p w) (w_p (snd (seqA (a # as) w)))"
      using a by (cases r) (auto intro: kept_trans)
  qed
qed (simp add: keeps_def kept_def)

lemma keeps_ignoreErr [simp]: "keeps a \<Longrightarrow> keeps (ignoreErr a)"
  by (auto simp: keeps_def ignoreErr_def split: prod.split outcome.split) (metis snd_conv)+

lemma keeps_onErr [simp]: "keeps a \<Longrightarrow> keeps h \<Longrightarrow> keeps (onErr a h)"
  by (auto simp: keeps_def onErr_def split: prod.split outcome.split) (metis kept_trans snd_conv)+

lemma keeps_here: "(\<And>w. keeps (b w)) \<Longrightarrow> (\<And>w. a w = b w w) \<Longrightarrow> keeps a"
  by (simp add: keeps_def)

lemma keeps_syncDirectory [simp]: "keeps syncDirectory"
  by (simp add: syncDirectory_def)

lemma keeps_writeAtomic [simp]: "keeps (writeAtomic J x)"
  by (rule keeps_here [where b = "\<lambda>w. (let path = pr_path (w_p w); tmp = path @ ''.tmp''
      in seqA [quiet, writeFile tmp (jj_state J x), seqA (if syncMode (w_p w) then [quiet, quiet] else []),
           renameFile tmp path, seqA (if syncMode (w_p w) then [syncDirectory] else [])])"])
    (simp_all add: writeAtomic_def Let_def del: seqA.simps)

lemma keeps_appendRecord [simp]: "keeps (appendRecord J x)"
  by (rule keeps_here [where b = "\<lambda>w. (let p = w_p w; wal = walPath (pr_path p); line = journalLine J (pr_previous p) x;
          size = length (contents (w_fs w) wal)
      in seqA [openAppend wal, onErr (seqA [appendFile wal line, seqA (if syncMode p then [quiet] else [])])
             (seqA [ignoreErr (truncateFile wal size), ignoreErr quiet]), quiet,
           seqA (if syncMode p then [syncDirectory] else [])])"])
    (simp_all add: appendRecord_def Let_def del: seqA.simps)

lemma keeps_compactJournal [simp]: "keeps (compactJournal J x)"
  by (rule keeps_here [where b = "\<lambda>w. (let wal = walPath (pr_path (w_p w)) in
      seqA (if pr_journalRecords (w_p w) \<ge> 64 \<or> length (contents (w_fs w) wal) > 16 * 2 ^ 20
      then [writeAtomic J x, truncateFile wal 0, seqA (if syncMode (w_p w) then [quiet] else []),
             quiet, setP (\<lambda>p. p\<lparr>pr_journalRecords := 0\<rparr>)] else []))"])
    (simp_all add: compactJournal_def Let_def kept_def)

lemma keeps_journalSave [simp]: "keeps (journalSave J x)"
proof -
  have "keeps (\<lambda>w. if fmlookup (w_fs w) (pr_path (w_p w)) = None then writeAtomic J zeroState w else (Ok, w))"
    using keeps_writeAtomic [of J zeroState] by (simp add: keeps_def) (simp add: kept_def)
  then show ?thesis
    by (simp add: journalSave_def kept_def)
qed

lemma keeps_retireJournal [simp]: "keeps (retireJournal J x)"
  unfolding keeps_def
proof
  fix w :: world
  let ?w = "w\<lparr>w_p := (w_p w)\<lparr>pr_mode := ''journal''\<rparr>\<rparr>"
  have "kept (w_p ?w) (w_p (snd (journalSave J x ?w)))"
    using keeps_journalSave [of J x] unfolding keeps_def by blast
  then show "kept (w_p w) (w_p (snd (retireJournal J x w)))"
    by (auto simp: retireJournal_def Let_def kept_def split: prod.split)
qed

lemma keeps_writeState [simp]: "keeps (writeState J x)"
proof -
  have "keeps (\<lambda>w. removeFile (walPath (pr_path (w_p w))) w)"
    by (rule keeps_here [where b = "\<lambda>w. removeFile (walPath (pr_path (w_p w)))"]) simp_all
  then have "keeps (seqA [retireJournal J x, writeAtomic J x, \<lambda>w. removeFile (walPath (pr_path (w_p w))) w,
             setP (\<lambda>p. p\<lparr>pr_previous := x\<rparr>)])"
    by (simp add: kept_def)
  then show ?thesis
    using keeps_journalSave [of J x] by (simp add: keeps_def writeState_def del: seqA.simps)
qed

lemma SaveAt_blocked: "pr_blocked (w_p (snd (SaveAt J ms gen t ep w))) = pr_blocked (w_p w)"
proof -
  let ?w = "setHealth (\<lambda>h. h\<lparr>ph_Pending := True, ph_Durable := False\<rparr>) w"
  have "pr_blocked (w_p (snd (writeState J t ?w))) = pr_blocked (w_p w)"
    using keeps_writeState [of J t, unfolded keeps_def, rule_format, of ?w] by (simp add: kept_def)
  then show ?thesis
    by (auto simp: SaveAt_def Let_def split: prod.split outcome.split)
qed

lemma SaveAt_path: "pr_path (w_p (snd (SaveAt J ms gen t ep w))) = pr_path (w_p w)"
proof -
  let ?w = "setHealth (\<lambda>h. h\<lparr>ph_Pending := True, ph_Durable := False\<rparr>) w"
  have "pr_path (w_p (snd (writeState J t ?w))) = pr_path (w_p w)"
    using keeps_writeState [of J t, unfolded keeps_def, rule_format, of ?w] by (simp add: kept_def)
  then show ?thesis
    by (auto simp: SaveAt_def Let_def split: prod.split outcome.split)
qed

lemma SaveAt_report:
  assumes "SaveAt J ms gen t ep w = (r, w')" "r \<noteq> Crash"
  shows "if gen \<noteq> 0 \<and> gen \<le> pr_lastGen (w_p w) then w' = w
    else if pr_blocked (w_p w) then w_fs w' = w_fs w \<and> ph_Pending (Health (w_p w')) \<and> \<not> ph_Durable (Health (w_p w'))
    else (ph_Pending (Health (w_p w')) \<longleftrightarrow> r = Err \<or> Epoch (w_p w) \<noteq> ep)
      \<and> (ph_Durable (Health (w_p w')) \<longleftrightarrow> r = Ok \<and> pr_mode (w_p w) = ''journal-sync'' \<and> Epoch (w_p w) = ep)
      \<and> (r = Ok \<longrightarrow> pr_lastGen (w_p w') = gen \<and> ph_Error (Health (w_p w')) = [])"
proof -
  let ?w = "setHealth (\<lambda>h. h\<lparr>ph_Pending := True, ph_Durable := False\<rparr>) w"
  obtain r1 w1 where ws: "writeState J t ?w = (r1, w1)"
    by (cases "writeState J t ?w")
  have "kept (w_p ?w) (w_p w1)"
    using keeps_writeState [of J t, unfolded keeps_def, rule_format, of ?w] ws by simp
  then have "pr_health (w_p w1) = (pr_health (w_p w))\<lparr>ph_Pending := True, ph_Durable := False\<rparr>"
      "pr_epoch (w_p w1) = pr_epoch (w_p w)" "pr_mode (w_p w1) = pr_mode (w_p w)"
    by (simp_all add: kept_def setHealth_def)
  then show ?thesis
    using assms ws
    by (cases r1) (auto simp: SaveAt_def Let_def Health_def Epoch_def syncMode_def setHealth_def split: if_splits)
qed

lemma restart_loads:
  assumes "disk_ok J (fmlookup (w_fs w) (pr_path (w_p w))) (fmlookup (w_fs w) (walPath (pr_path (w_p w)))) s torn"
  shows "\<exists>found w'. Load J ns (restarted w) = (Loaded s found, w') \<and> view (synced J s) (w_fs w') (w_p w') \<and> \<not> pr_blocked (w_p w')"
  using Load_disk_ok [of "restarted w" J s torn ns] assms by (auto simp: restarted_def NewPersister_def)

lemma restart_recoverable:
  assumes "view (recoverable J s t) (w_fs w) (w_p w)"
  shows "\<exists>x found w'. Load J ns (restarted w) = (Loaded x found, w') \<and> (x = s \<or> x = t)
    \<and> view (synced J x) (w_fs w') (w_p w') \<and> \<not> pr_blocked (w_p w')"
proof -
  obtain x torn where "x = s \<or> x = t"
      "disk_ok J (fmlookup (w_fs w) (pr_path (w_p w))) (fmlookup (w_fs w) (walPath (pr_path (w_p w)))) x torn"
    using assms unfolding view_def recoverable_def by blast
  then show ?thesis
    using restart_loads [of J w x torn ns] by blast
qed

lemma restart_synced:
  assumes "view (synced J t) (w_fs w) (w_p w)"
  shows "\<exists>found w'. Load J ns (restarted w) = (Loaded t found, w') \<and> view (synced J t) (w_fs w') (w_p w') \<and> \<not> pr_blocked (w_p w')"
  using assms restart_loads unfolding view_def synced_def by blast

lemma unharmed_disk:
  assumes "json_ok J good" "unharmed J w w'" "view (synced J s) (w_fs w) (w_p w)" "pr_path (w_p w') = pr_path (w_p w)"
    and "view (recoverable J s t) (w_fs w') (w_p w')"
  shows "disk_ok J (fmlookup (w_fs w') (pr_path (w_p w'))) (fmlookup (w_fs w') (walPath (pr_path (w_p w')))) s []"
proof -
  let ?path = "pr_path (w_p w)"
  define m l m' l' where "m = fmlookup (w_fs w) ?path" and "l = fmlookup (w_fs w) (walPath ?path)"
    and "m' = fmlookup (w_fs w') ?path" and "l' = fmlookup (w_fs w') (walPath ?path)"
  have d: "disk_ok J m l s []"
    using assms(3) by (simp add: view_def synced_def m_def l_def)
  have none: "m' = None \<longrightarrow> l' = None"
    using assms(5) unfolding view_def recoverable_def assms(4) m'_def l'_def disk_ok_def by auto
  have c: "(case l' of None \<Rightarrow> [] | Some x \<Rightarrow> x) = (case l of None \<Rightarrow> [] | Some x \<Rightarrow> x)"
      "m' = m \<or> m = None \<and> m' = Some (jj_state J zeroState)"
    using assms(2) by (simp_all add: unharmed_def Let_def contents_def m_def m'_def l_def l'_def)
  have "disk_ok J m' l' s []"
  proof (cases "m = None")
    case True
    then have old: "l = None" "s = zeroState"
      using d by (auto simp: disk_ok_def)
    then have l': "l' = None \<or> l' = Some []"
      using c(1) by (auto split: option.splits)
    show ?thesis
    proof (cases "m' = None")
      case True
      then show ?thesis
        using none old by (simp add: disk_ok_def)
    next
      case False
      then have "m' = Some (jj_state J zeroState)"
        using c(2) \<open>m = None\<close> by auto
      then show ?thesis
        using disk_ok_snapshot [OF assms(1) _ l', of zeroState] assms(1) old(2) by (simp add: json_ok_def)
    qed
  next
    case False
    then have "m' = m"
      using c(2) by auto
    moreover obtain data base ls ds where dd: "m = Some data" "jj_readState J data = Some base" "list_all2 (line_ok J) ls ds"
        "l = Some (concat ls) \<or> l = None \<and> ls = []" "jd.log_at base ds s"
      using d False by (auto simp: disk_ok_def)
    moreover have "l' = Some (concat ls) \<or> l' = None \<and> concat ls = []"
      using c(1) dd(4) by (auto split: option.splits)
    moreover have "ls = []" if "concat ls = []"
      using that dd(3) by (cases ls) (auto simp: line_ok_def list_all2_Cons1)
    ultimately show ?thesis
      unfolding disk_ok_def by (intro disjI2 exI [of _ data] exI [of _ base] exI [of _ ls] exI [of _ ds]) auto
  qed
  then show ?thesis
    by (simp add: m'_def l'_def assms(4))
qed

lemma failed_synced:
  assumes "json_ok J good" "good s" "good t" "view (synced J s) (w_fs w) (w_p w)" "\<not> pr_blocked (w_p w)"
    and "gen = 0 \<or> pr_lastGen (w_p w) < gen" "SaveAt J ms gen t ep w = (Err, w')"
    and "pr_previous (w_p w') \<noteq> pr_previous (w_p w) \<or> unharmed J w w'"
  shows "view (synced J (pr_previous (w_p w'))) (w_fs w') (w_p w') \<and> good (pr_previous (w_p w'))"
proof -
  have rec: "view (recoverable J s t) (w_fs w') (w_p w')"
    using SaveAt_outcome [OF assms(1-5) _ assms(7)] assms(6) by simp
  have path: "pr_path (w_p w') = pr_path (w_p w)"
    using SaveAt_path [of J ms gen t ep w] assms(7) by simp
  have "pr_previous (w_p w) = s"
    using assms(4) by (simp add: view_def synced_def)
  then show ?thesis
    using rec unharmed_disk [OF assms(1) _ assms(4) path rec] assms(2,3,8)
    by (auto simp: view_def synced_def recoverable_def)
qed

lemma live_synced:
  assumes "json_ok J good" "live J good w s"
  shows "view (synced J s) (w_fs w) (w_p w) \<and> good s \<and> \<not> pr_blocked (w_p w)"
  using assms(2)
proof induction
  case (live_new fs path faults)
  then show ?case
    using assms(1) by (simp add: view_def synced_def disk_ok_def NewPersister_def json_ok_def)
next
  case (live_mode w s mode p)
  then show ?case
    using SetDurability_fields [OF live_mode.hyps(2)] by (simp add: view_def synced_def)
next
  case (live_dirty w s)
  then show ?case
    by (simp add: view_def synced_def MarkDirty_def)
next
  case (live_save w s t gen ms ep w')
  then show ?case
    using SaveAt_outcome [OF assms(1) _ live_save.hyps(2) _ _ live_save.hyps(3,4), of s]
      SaveAt_blocked [of J ms gen t ep w] by simp
next
  case (live_failed w s t gen ms ep w')
  then show ?case
    using failed_synced [OF assms(1) _ live_failed.hyps(2) _ _ live_failed.hyps(3-5), of s]
      SaveAt_blocked [of J ms gen t ep w] by simp
next
  case (live_restart w s t gen ms ep r w' ns x found w'')
  have out: "if r = Ok then view (synced J t) (w_fs w') (w_p w') else view (recoverable J s t) (w_fs w') (w_p w')"
    using SaveAt_outcome [OF assms(1) _ live_restart.hyps(2) _ _ live_restart.hyps(3,4), of s] live_restart.IH by simp
  show ?case
  proof (cases "r = Ok")
    case True
    then show ?thesis
      using restart_synced [of J t w' ns] out live_restart.hyps(2,5) by auto
  next
    case False
    then show ?thesis
      using restart_recoverable [of J s t w' ns] out live_restart.hyps(2,5) live_restart.IH by auto
  qed
qed simp

section \<open>A concrete encoding\<close>

text \<open>An encoding of two states and the deltas between them, enough to run the code on.\<close>

definition demo_saved :: PersistState where
  "demo_saved = \<lparr>ps_NodeID = ''n1'', ps_Clock = 1, ps_Entries = fmupd ''k'' \<lparr>e_Value = ''v'',
     e_Version = Version 1 ''n1'', e_Deleted = False, e_ExpiresAt = 0, e_DeletedAt = 0\<rparr> fmempty,
     ps_Chat = [], ps_ChatSeq = 0\<rparr>"

definition demo_good :: "PersistState \<Rightarrow> bool" where
  "demo_good s \<longleftrightarrow> s = zeroState \<or> s = demo_saved"

definition demo_delta :: "PersistState \<Rightarrow> PersistState \<Rightarrow> journalDelta" where
  "demo_delta = makeDelta (\<lambda>_. '''')"

definition demo_json :: journal_json where
  "demo_json = \<lparr>
     jj_state = (\<lambda>s. if s = zeroState then ''z'' else ''s''),
     jj_readState = (\<lambda>x. if x = ''z'' then Some zeroState else if x = ''s'' then Some demo_saved else None),
     jj_delta = (\<lambda>d. if jd_NodeID d = '''' then (if jd_Remove d = [] then ''0'' else ''1'')
        else (if jd_Set d = fmempty then ''2'' else ''3'')),
     jj_readDelta = map_of [(''0'', demo_delta zeroState zeroState), (''1'', demo_delta demo_saved zeroState),
        (''2'', demo_delta demo_saved demo_saved), (''3'', demo_delta zeroState demo_saved)],
     jj_chat = (\<lambda>_. ''''), jj_readChat = (\<lambda>_. Some []),
     jj_record = jr_Data,
     jj_readRecord = (\<lambda>l. Some \<lparr>jr_Data = butlast l, jr_SHA256 = hexDigest 0\<rparr>),
     jj_sha = (\<lambda>_. 0)\<rparr>"

lemma demo_distinct [simp]: "zeroState \<noteq> demo_saved" "demo_saved \<noteq> zeroState"
  by (simp_all add: zeroState_def demo_saved_def)

lemma demo_deltas [simp]:
  "jj_delta demo_json (demo_delta zeroState zeroState) = ''0''" "jj_delta demo_json (demo_delta demo_saved zeroState) = ''1''"
  "jj_delta demo_json (demo_delta demo_saved demo_saved) = ''2''" "jj_delta demo_json (demo_delta zeroState demo_saved) = ''3''"
proof -
  have "jd_Set (demo_delta demo_saved demo_saved) = fmempty"
    by (rule fmap_ext) (simp add: demo_delta_def makeDelta_def)
  moreover have "fmlookup (jd_Set (demo_delta zeroState demo_saved)) ''k'' \<noteq> None"
    by (simp add: demo_delta_def makeDelta_def zeroState_def demo_saved_def)
  then have "jd_Set (demo_delta zeroState demo_saved) \<noteq> fmempty"
    by auto
  ultimately show "jj_delta demo_json (demo_delta zeroState zeroState) = ''0''" "jj_delta demo_json (demo_delta demo_saved zeroState) = ''1''"
    "jj_delta demo_json (demo_delta demo_saved demo_saved) = ''2''" "jj_delta demo_json (demo_delta zeroState demo_saved) = ''3''"
    by (simp_all add: demo_json_def) (simp_all add: demo_delta_def makeDelta_def zeroState_def demo_saved_def fmkeys_def)
qed

lemma demo_json_fields [simp]:
  "jj_state demo_json s = (if s = zeroState then ''z'' else ''s'')" "jj_chat demo_json = (\<lambda>_. '''')"
  "jj_readState demo_json x = (if x = ''z'' then Some zeroState else if x = ''s'' then Some demo_saved else None)"
  "jj_readChat demo_json c = Some []" "jj_record demo_json r = jr_Data r"
  "jj_readRecord demo_json l = Some \<lparr>jr_Data = butlast l, jr_SHA256 = hexDigest 0\<rparr>" "jj_sha demo_json d = 0"
  "jj_readDelta demo_json = map_of [(''0'', demo_delta zeroState zeroState), (''1'', demo_delta demo_saved zeroState),
        (''2'', demo_delta demo_saved demo_saved), (''3'', demo_delta zeroState demo_saved)]"
  by (simp_all add: demo_json_def)

lemma demo_json_ok: "json_ok demo_json demo_good"
proof -
  have chat: "ps_Chat zeroState = []" "ps_Chat demo_saved = []"
    by (simp_all add: zeroState_def demo_saved_def)
  have "jj_readDelta demo_json (jj_delta demo_json (makeDelta (\<lambda>_. '''') s t)) = Some (makeDelta (\<lambda>_. '''') s t)
      \<and> makeRecord demo_json s t = \<lparr>jr_Data = jj_delta demo_json (makeDelta (\<lambda>_. '''') s t), jr_SHA256 = hexDigest 0\<rparr>
      \<and> newline \<notin> set (jj_delta demo_json (makeDelta (\<lambda>_. '''') s t))" if "demo_good s" "demo_good t" for s t
    using that unfolding demo_good_def demo_delta_def [symmetric]
    by (auto simp: makeRecord_def newline_def simp flip: demo_delta_def)
  then show ?thesis
    by (auto simp: json_ok_def chat demo_good_def butlast_append)
qed

definition demo_world :: "fault list \<Rightarrow> world" where
  "demo_world faults = \<lparr>w_fs = fmempty, w_faults = faults, w_p = (NewPersister ''f'')\<lparr>pr_mode := ''journal'',
     pr_health := (pr_health (NewPersister ''f''))\<lparr>ph_Mode := ''journal''\<rparr>\<rparr>\<rparr>"

lemma demo_world_live: "live demo_json demo_good (demo_world faults) zeroState"
proof -
  have "live demo_json demo_good \<lparr>w_fs = fmempty, w_faults = faults, w_p = NewPersister ''f''\<rparr> zeroState"
    by (rule live_new) simp_all
  from live_mode [OF this, of "''journal''" "w_p (demo_world faults)"] show ?thesis
    by (simp add: SetDurability_def demo_world_def)
qed

lemma demo_line [simp]: "journalLine demo_json zeroState demo_saved = ''3'' @ [newline]"
  using demo_deltas(4) by (simp add: journalLine_def makeRecord_def demo_delta_def Let_def del: demo_deltas)

lemmas demo_run = SaveAt_def writeState_def journalSave_def appendRecord_def compactJournal_def writeAtomic_def
  quiet_def openAppend_def appendFile_def truncateFile_def writeFile_def renameFile_def onErr_def ignoreErr_def setP_def
  osCall_def cut_def contents_def setHealth_def demo_world_def NewPersister_def syncMode_def walPath_def Let_def
  Load_def replay_def restarted_def readLine_def blockSaves_def newline_def MarkDirty_def zero_PersistenceHealth_def

section \<open>Properties\<close>


text \<open>An append that fails and is undone; the process goes on, and its next save is killed in the middle of the append.\<close>

definition demo_failing :: world where
  "demo_failing = demo_world [NoFault, NoFault, NoFault, NoFault, NoFault, IOError (Some 1), NoFault, NoFault, NoFault, NoFault, Kill (Some 1)]"

lemma demo_failing_live:
  "fst (SaveAt demo_json 0 1 demo_saved 0 demo_failing) = Err"
  "live demo_json demo_good (snd (SaveAt demo_json 0 1 demo_saved 0 demo_failing)) zeroState"
proof -
  show err: "fst (SaveAt demo_json 0 1 demo_saved 0 demo_failing) = Err"
    by (simp add: demo_failing_def demo_run)
  have kept: "unharmed demo_json demo_failing (snd (SaveAt demo_json 0 1 demo_saved 0 demo_failing))"
      "pr_previous (w_p (snd (SaveAt demo_json 0 1 demo_saved 0 demo_failing))) = zeroState"
    by (simp_all add: unharmed_def demo_failing_def demo_run)
  have "live demo_json demo_good demo_failing zeroState" "pr_lastGen (w_p demo_failing) = 0"
    using demo_world_live by (simp_all add: demo_failing_def) (simp add: demo_world_def NewPersister_def)
  then show "live demo_json demo_good (snd (SaveAt demo_json 0 1 demo_saved 0 demo_failing)) zeroState"
    using live_failed [of demo_json demo_good demo_failing zeroState demo_saved 1 0 0 "snd (SaveAt demo_json 0 1 demo_saved 0 demo_failing)"] kept err
    by (simp add: demo_good_def prod_eq_iff)
qed


text \<open>
  What a save reports: an overtaken generation changes nothing; a blocked persister leaves the
  files alone and stays pending; otherwise the save is pending afterwards exactly if it failed or
  something was mutated since its snapshot was taken, and durable exactly if it succeeded in
  \<open>journal-sync\<close> mode with nothing mutated since.
\<close>

theorem save_reported_honestly:
  assumes "SaveAt J ms gen t ep w = (r, w')" "r \<noteq> Crash"
  shows "if gen \<noteq> 0 \<and> gen \<le> pr_lastGen (w_p w) then w' = w
    else if pr_blocked (w_p w) then w_fs w' = w_fs w \<and> ph_Pending (Health (w_p w')) \<and> \<not> ph_Durable (Health (w_p w'))
    else (ph_Pending (Health (w_p w')) \<longleftrightarrow> r = Err \<or> Epoch (w_p w) \<noteq> ep)
      \<and> (ph_Durable (Health (w_p w')) \<longleftrightarrow> r = Ok \<and> pr_mode (w_p w) = ''journal-sync'' \<and> Epoch (w_p w) = ep)
      \<and> (r = Ok \<longrightarrow> pr_lastGen (w_p w') = gen \<and> ph_Error (Health (w_p w')) = [])"
  using SaveAt_report [OF assms] .

theorem save_reported_honestly_witness:
  "ph_Pending (Health (w_p (snd (SaveAt demo_json 7 1 demo_saved 0 ((demo_world [])\<lparr>w_p := MarkDirty (w_p (demo_world []))\<rparr>)))))"
proof -
  let ?w = "(demo_world [])\<lparr>w_p := MarkDirty (w_p (demo_world []))\<rparr>"
  have "fst (SaveAt demo_json 7 1 demo_saved 0 ?w) = Ok"
    by (simp add: demo_run)
  then show ?thesis
    using save_reported_honestly [of demo_json 7 1 demo_saved 0 ?w Ok "snd (SaveAt demo_json 7 1 demo_saved 0 ?w)"]
    by (simp add: prod_eq_iff demo_world_def NewPersister_def MarkDirty_def Epoch_def)
qed

text \<open>
  The error of the truncation that undoes a failed append is ignored: when it fails too, the
  journal keeps half a line, the next save appends to it and is acknowledged, and the node cannot
  load its journal any more.
\<close>

lemma torn_append_glued:
  "let w = demo_world [NoFault, NoFault, NoFault, NoFault, NoFault, IOError (Some 1), IOError None];
       failed = SaveAt demo_json 0 1 demo_saved 0 w;
       saved = SaveAt demo_json 0 2 demo_saved 0 (snd failed)
   in fst failed = Err \<and> fst saved = Ok \<and> fst (Load demo_json 0 (restarted (snd saved))) = LoadFailed ErrBadJournal"
  by (simp add: demo_run Let_def)

text \<open>
  A save that writes its record whole and then fails, here at closing the file, leaves a record the persister does not
  know of: a later save without the key that record sets writes a delta that does not remove it and is acknowledged,
  and the restarted node has the key again.
\<close>

lemma demo_line_zero: "journalLine demo_json zeroState zeroState = ''0'' @ [newline]"
  using demo_deltas(1) by (simp add: journalLine_def makeRecord_def demo_delta_def Let_def del: demo_deltas)

lemma demo_delta_zero: "fmlookup (ps_Entries (applyDelta (demo_delta zeroState zeroState) c s)) k = fmlookup (ps_Entries s) k"
  by (simp add: lookup_applyDelta) (simp add: demo_delta_def makeDelta_def zeroState_def fmkeys_def)

lemma demo_delta_saved: "applyDelta (demo_delta zeroState demo_saved) [] zeroState = demo_saved"
  using applyDelta_makeDelta [of zeroState demo_saved zeroState "\<lambda>_. []"]
  by (simp add: demo_delta_def entries_between_def) (simp add: demo_saved_def)

lemma uncounted_record:
  "let w = demo_world [NoFault, NoFault, NoFault, NoFault, NoFault, NoFault, IOError None];
       failed = SaveAt demo_json 0 1 demo_saved 0 w;
       saved = SaveAt demo_json 0 2 zeroState 0 (snd failed)
   in fst failed = Err \<and> fst saved = Ok
     \<and> (\<exists>st. fst (Load demo_json 0 (restarted (snd saved))) = Loaded st True
          \<and> fmlookup (ps_Entries st) ''k'' \<noteq> fmlookup (ps_Entries zeroState) ''k'')"
  by (simp add: demo_run demo_line_zero demo_delta_zero demo_delta_saved Let_def) (simp add: demo_saved_def zeroState_def)

end
