(* ===== verification/PeerModel.thy ===== *)
theory PeerModel
  imports Journal
begin

text \<open>
  A node's local state apart from its store (\<open>pkg/discovery/model/model.go\<close>): addresses and their
  normal form, the peer tables, who claims which node id, and the chat log.

  The \<open>sync.Map\<close>s are finite maps or sets; operations that read \<open>time.Now()\<close> take it as the argument
  \<open>now\<close>.  \<open>net.SplitHostPort\<close>, \<open>net.JoinHostPort\<close> and \<open>strconv.Atoi\<close> are written out as the standard
  library defines them, as far as the code uses their results (any error is \<open>None\<close>).  \<open>md_dirty\<close> is
  the doorbell \<open>Persist\<close> rings for the flush loop, and \<open>md_persister\<close> is \<open>None\<close> for the nil persister of
  a node without a state file.  Where the order in which Go visits a \<open>sync.Map\<close> shows in a result (\<open>GetNodes\<close>,
  \<open>GossipPeers\<close>, \<open>EvictStalePeers\<close>), the model takes the addresses in ascending order.
\<close>

section \<open>Addresses\<close>

definition afterLastColon :: "string \<Rightarrow> string" where
  "afterLastColon s = rev (takeWhile (\<lambda>c. c \<noteq> CHR '':'') (rev s))"

definition SplitHostPort :: "string \<Rightarrow> (string \<times> string) option" where
  "SplitHostPort hostport =
     (if CHR '':'' \<notin> set hostport then None
      else
        let port = afterLastColon hostport;
            i = length hostport - length port - 1
        in
        if hd hostport = CHR ''['' then
          (if CHR '']'' \<notin> set hostport then None
           else
             let e = length (takeWhile (\<lambda>c. c \<noteq> CHR '']'') hostport) in
             if e + 1 = length hostport then None
             else if e + 1 \<noteq> i then None
             else if CHR ''['' \<in> set (drop 1 hostport) then None
             else if CHR '']'' \<in> set (drop (e + 1) hostport) then None
             else Some (take (e - 1) (drop 1 hostport), port))
        else
          let host = take i hostport in
          if CHR '':'' \<in> set host then None
          else if CHR ''['' \<in> set hostport then None
          else if CHR '']'' \<in> set hostport then None
          else Some (host, port))"

definition JoinHostPort :: "string \<Rightarrow> string \<Rightarrow> string" where
  "JoinHostPort host port =
     (if CHR '':'' \<in> set host then ''['' @ host @ '']:'' @ port else host @ '':'' @ port)"

definition isDigit :: "char \<Rightarrow> bool" where
  "isDigit c \<longleftrightarrow> 48 \<le> byte c \<and> byte c \<le> 57"

definition digitsVal :: "string \<Rightarrow> int" where
  "digitsVal s = foldl (\<lambda>a c. a * 10 + (int (byte c) - 48)) 0 s"

definition Atoi :: "string \<Rightarrow> int option" where
  "Atoi s =
     (let neg = (s \<noteq> [] \<and> hd s = CHR ''-'');
          ds = (if s \<noteq> [] \<and> (hd s = CHR ''-'' \<or> hd s = CHR ''+'') then tl s else s);
          v = (if neg then - digitsVal ds else digitsVal ds)
      in if ds = [] \<or> \<not> list_all isDigit ds then None
         else if v < - (2 ^ 63) \<or> v \<ge> 2 ^ 63 then None else Some v)"

definition ValidPeerAddr :: "string \<Rightarrow> bool" where
  "ValidPeerAddr addr = (case SplitHostPort addr of
     None \<Rightarrow> False
   | Some (host, port) \<Rightarrow> (case Atoi port of
       None \<Rightarrow> False
     | Some p \<Rightarrow> if p \<le> 0 \<or> p > 65535 then False
         else \<not> list_ex (\<lambda>c. c \<in> {CHR '' '', CHR 0x09, CHR 0x0D, CHR 0x0A}) host))"

definition NormalizeAddr :: "string \<Rightarrow> string" where
  "NormalizeAddr addr = (case SplitHostPort addr of
     None \<Rightarrow> addr
   | Some (host, port) \<Rightarrow>
       JoinHostPort (if host \<in> {'''', ''0.0.0.0'', ''localhost'', ''::'', ''[::]''} then ''127.0.0.1'' else host) port)"

section \<open>State\<close>

definition chatRing :: nat where "chatRing = 500"

record PeerView =
  pv_Peers :: "string list"
  pv_At :: nanos

record idBinding =
  ib_Addr :: string
  ib_Other :: string
  ib_Flips :: u64
  ib_At :: unix_time

record IDConflict =
  ic_ID :: string
  ic_Addrs :: "string list"
  ic_Flips :: u64
  ic_At :: unix_time

record Model =
  md_Store :: kvStore
  md_Nodes :: "string fset"
  md_lastSeen :: "(string, nanos) fmap"
  md_heard :: "(string, nanos) fmap"
  md_nicks :: "(string, string) fmap"
  md_views :: "(string, PeerView) fmap"
  md_normalized :: "(string, string) fmap"
  md_ids :: "(string, idBinding) fmap"
  md_impostors :: "string fset"
  md_NodeAddr :: string
  md_AdvertiseAddr :: string
  md_NodeID :: string
  md_nodeNick :: string
  md_chatLog :: "ChatEntry list"
  md_chatSeq :: u64
  md_persistGen :: u64
  md_persister :: "Persister option"
  md_dirty :: bool
  md_BootstrapAddrs :: "string list"
  md_DataPath :: string
  md_LoadError :: "persistError option"

definition Nick :: "Model \<Rightarrow> string" where
  "Nick bn = md_nodeNick bn"

definition ModelHealth :: "Model \<Rightarrow> PersistenceHealth" where
  "ModelHealth bn = (case md_persister bn of None \<Rightarrow> zero_PersistenceHealth | Some p \<Rightarrow> Health p)"

definition SetOwnNick :: "string \<Rightarrow> Model \<Rightarrow> Model \<times> string" where
  "SetOwnNick nick bn = (bn\<lparr>md_nodeNick := nick\<rparr>, md_nodeNick bn)"

definition Persist :: "Model \<Rightarrow> Model" where
  "Persist bn = (case md_persister bn of
     None \<Rightarrow> bn
   | Some p \<Rightarrow> bn\<lparr>md_persister := Some (MarkDirty p), md_dirty := True\<rparr>)"

section \<open>Peers\<close>

definition GetNodes :: "Model \<Rightarrow> string list" where
  "GetNodes bn = sorted_list_of_fset (md_Nodes bn)"

definition IsSelf :: "Model \<Rightarrow> string \<Rightarrow> bool" where
  "IsSelf bn addr =
     (if addr = md_NodeAddr bn \<or> addr = md_AdvertiseAddr bn then True
      else NormalizeAddr addr = NormalizeAddr (md_NodeAddr bn)
         \<or> NormalizeAddr addr = NormalizeAddr (md_AdvertiseAddr bn))"

definition AddPeer :: "nanos \<Rightarrow> string \<Rightarrow> Model \<Rightarrow> Model \<times> bool" where
  "AddPeer now addr bn =
     (if addr = '''' \<or> IsSelf bn addr \<or> \<not> ValidPeerAddr addr then (bn, False)
      else (bn\<lparr>md_lastSeen := fmupd addr now (md_lastSeen bn),
               md_normalized := fmupd (NormalizeAddr addr) addr (md_normalized bn),
               md_Nodes := finsert addr (md_Nodes bn)\<rparr>,
            addr |\<notin>| md_Nodes bn))"

definition HasPeerNormalized :: "Model \<Rightarrow> string \<Rightarrow> bool" where
  "HasPeerNormalized bn addr =
     (if addr |\<in>| md_Nodes bn then True else fmlookup (md_normalized bn) (NormalizeAddr addr) \<noteq> None)"

definition HasPeer :: "Model \<Rightarrow> string \<Rightarrow> bool" where
  "HasPeer bn addr \<longleftrightarrow> addr |\<in>| md_Nodes bn"

definition TouchPeer :: "nanos \<Rightarrow> string \<Rightarrow> Model \<Rightarrow> Model" where
  "TouchPeer now addr bn =
     (if addr = '''' \<or> IsSelf bn addr then bn
      else bn\<lparr>md_lastSeen := fmupd addr now (md_lastSeen bn), md_heard := fmupd addr now (md_heard bn)\<rparr>)"

definition GossipPeers :: "nanos \<Rightarrow> nanos \<Rightarrow> Model \<Rightarrow> string list" where
  "GossipPeers now window bn =
     filter (\<lambda>a. case fmlookup (md_heard bn) a of None \<Rightarrow> False | Some t \<Rightarrow> t > now - window) (GetNodes bn)"

definition RemovePeer :: "string \<Rightarrow> Model \<Rightarrow> Model" where
  "RemovePeer addr bn = bn\<lparr>md_Nodes := md_Nodes bn |-| {|addr|},
     md_lastSeen := fmdrop addr (md_lastSeen bn),
     md_heard := fmdrop addr (md_heard bn),
     md_nicks := fmdrop addr (md_nicks bn),
     md_views := fmdrop addr (md_views bn),
     md_normalized := fmdrop (NormalizeAddr addr) (md_normalized bn),
     md_ids := fmfilter (\<lambda>i. ib_Addr (the (fmlookup (md_ids bn) i)) \<noteq> addr) (md_ids bn)\<rparr>"

definition RecordPeerView :: "nanos \<Rightarrow> string \<Rightarrow> string list \<Rightarrow> Model \<Rightarrow> Model" where
  "RecordPeerView now from peers bn =
     (if from = '''' then bn
      else bn\<lparr>md_views := fmupd from \<lparr>pv_Peers = peers, pv_At = now\<rparr> (md_views bn)\<rparr>)"

definition PeerViews :: "Model \<Rightarrow> (string, PeerView) fmap" where
  "PeerViews bn = md_views bn"

definition SetNick :: "string \<Rightarrow> string \<Rightarrow> Model \<Rightarrow> Model" where
  "SetNick addr nick bn =
     (if addr = '''' \<or> nick = '''' then bn else bn\<lparr>md_nicks := fmupd addr nick (md_nicks bn)\<rparr>)"

definition NickOf :: "Model \<Rightarrow> string \<Rightarrow> string" where
  "NickOf bn addr = (case fmlookup (md_nicks bn) addr of Some n \<Rightarrow> n | None \<Rightarrow> '''')"

definition SetNodeID :: "nanos \<Rightarrow> string \<Rightarrow> string \<Rightarrow> Model \<Rightarrow> Model" where
  "SetNodeID now i addr bn =
     (if i = '''' \<or> addr = '''' then bn
      else
        let bn1 = (if i = md_NodeID bn \<and> addr \<noteq> md_AdvertiseAddr bn \<and> addr \<noteq> md_NodeAddr bn
                   then bn\<lparr>md_impostors := finsert addr (md_impostors bn)\<rparr> else bn)
        in (case fmlookup (md_ids bn1) i of
          None \<Rightarrow> bn1\<lparr>md_ids := fmupd i \<lparr>ib_Addr = addr, ib_Other = '''', ib_Flips = 0, ib_At = unix now\<rparr> (md_ids bn1)\<rparr>
        | Some b \<Rightarrow>
            if ib_Addr b = addr then bn1
            else bn1\<lparr>md_ids := fmupd i \<lparr>ib_Addr = addr, ib_Other = ib_Addr b, ib_Flips = ib_Flips b + 1,
                   ib_At = unix now\<rparr> (md_ids bn1)\<rparr>))"

definition AddrOfID :: "Model \<Rightarrow> string \<Rightarrow> string" where
  "AddrOfID bn i = (case fmlookup (md_ids bn) i of Some b \<Rightarrow> ib_Addr b | None \<Rightarrow> '''')"

definition Impostors :: "Model \<Rightarrow> string list" where
  "Impostors bn = sorted_list_of_fset (md_impostors bn)"

text \<open>Worst first: by falling number of flips, then by id (the ids are already in order).\<close>

definition IDConflicts :: "Model \<Rightarrow> IDConflict list" where
  "IDConflicts bn = sort_key (\<lambda>c. - int (unat (ic_Flips c)))
     (map (\<lambda>(i, b). \<lparr>ic_ID = i, ic_Addrs = [ib_Other b, ib_Addr b], ic_Flips = ib_Flips b, ic_At = ib_At b\<rparr>)
        (filter (\<lambda>(i, b). \<not> (ib_Flips b = 0 \<or> ib_Other b = '''')) (fmentries (md_ids bn))))"

definition short :: "string \<Rightarrow> string" where
  "short i = (if length i > 8 then take 8 i else i)"

definition WriterName :: "Model \<Rightarrow> string \<Rightarrow> string" where
  "WriterName bn i =
     (if i = '''' then ''?''
      else if i = md_NodeID bn then ''you''
      else
        let addr = AddrOfID bn i in
        if addr = '''' then short i
        else if NickOf bn addr \<noteq> '''' then NickOf bn addr else addr)"

text \<open>
  \<open>EvictStalePeers\<close>: the loop ranges over the addresses in \<open>lastSeen\<close>, each looked up and removed in
  turn; removing one address leaves the times of the others alone.
\<close>

definition evictOne :: "nanos \<Rightarrow> nanos \<Rightarrow> Model \<times> (string \<times> string) list \<Rightarrow> string \<times> nanos \<Rightarrow> Model \<times> (string \<times> string) list" where
  "evictOne now threshold = (\<lambda>(bn, evicted) (addr, ts).
     if now - ts > threshold then (RemovePeer addr bn, evicted @ [(addr, NickOf bn addr)]) else (bn, evicted))"

definition EvictStalePeers :: "nanos \<Rightarrow> nanos \<Rightarrow> Model \<Rightarrow> Model \<times> (string \<times> string) list" where
  "EvictStalePeers now threshold bn = foldl (evictOne now threshold) (bn, []) (fmentries (md_lastSeen bn))"

definition LastSeen :: "Model \<Rightarrow> string \<Rightarrow> nanos option" where
  "LastSeen bn addr = fmlookup (md_lastSeen bn) addr"

section \<open>Chat\<close>

definition ModelChatSeq :: "Model \<Rightarrow> u64" where
  "ModelChatSeq bn = md_chatSeq bn"

definition NextChatSeq :: "Model \<Rightarrow> Model \<times> u64" where
  "NextChatSeq bn = (bn\<lparr>md_chatSeq := md_chatSeq bn + 1\<rparr>, md_chatSeq bn + 1)"

definition ownLine :: "string \<Rightarrow> string \<Rightarrow> ChatEntry \<Rightarrow> bool" where
  "ownLine self selfID e \<longleftrightarrow> ce_Seq e \<noteq> 0 \<and> (ce_Node e = selfID \<or> (ce_Node e = '''' \<and> ce_Sender e = self))"

definition ownBySeq :: "Model \<Rightarrow> string \<Rightarrow> string \<Rightarrow> (u64, ChatEntry) fmap" where
  "ownBySeq bn self selfID =
     foldl (\<lambda>m e. if ownLine self selfID e then fmupd (ce_Seq e) e m else m) fmempty (md_chatLog bn)"

definition OwnChat :: "Model \<Rightarrow> string \<Rightarrow> string \<Rightarrow> u64 list \<Rightarrow> ChatEntry list \<times> u64 list" where
  "OwnChat bn self selfID seqs =
     (List.map_filter (fmlookup (ownBySeq bn self selfID)) seqs,
      filter (\<lambda>s. fmlookup (ownBySeq bn self selfID) s = None) seqs)"

text \<open>The loop of \<open>InsertChat\<close>: walk back past every line that is not older.\<close>

definition chatOlder :: "ChatEntry \<Rightarrow> ChatEntry \<Rightarrow> bool" where
  "chatOlder prev entry \<longleftrightarrow> ce_TS prev < ce_TS entry
     \<or> (ce_TS prev = ce_TS entry \<and> \<not> (ce_Sender prev = ce_Sender entry \<and> ce_Seq prev > ce_Seq entry))"

fun insertIndex :: "ChatEntry list \<Rightarrow> ChatEntry \<Rightarrow> nat \<Rightarrow> nat" where
  "insertIndex log entry 0 = 0"
| "insertIndex log entry (Suc i) = (if chatOlder (log ! i) entry then Suc i else insertIndex log entry i)"

definition InsertChat :: "ChatEntry \<Rightarrow> Model \<Rightarrow> Model" where
  "InsertChat entry bn =
     (let log = md_chatLog bn; i = insertIndex log entry (length log)
      in Persist (bn\<lparr>md_chatLog := ring chatRing (take i log @ [entry] @ drop i log)\<rparr>))"

definition AppendChat :: "ChatEntry \<Rightarrow> Model \<Rightarrow> Model" where
  "AppendChat entry bn = Persist (bn\<lparr>md_chatLog := ring chatRing (md_chatLog bn @ [entry])\<rparr>)"

definition ChatLog :: "Model \<Rightarrow> ChatEntry list" where
  "ChatLog bn = md_chatLog bn"

text \<open>\<open>for e in history { if offered[e] > held[e] { merged = append(merged, e); held[e]++ } }\<close>\<close>

fun mergeChat :: "(ChatEntry \<Rightarrow> nat) \<Rightarrow> ChatEntry list \<Rightarrow> ChatEntry list \<Rightarrow> ChatEntry list" where
  "mergeChat offered merged [] = merged"
| "mergeChat offered merged (e # es) =
     (if offered e > count_list merged e then mergeChat offered (merged @ [e]) es
      else mergeChat offered merged es)"

definition PrependChat :: "ChatEntry list \<Rightarrow> Model \<Rightarrow> Model" where
  "PrependChat history bn =
     (if history = [] then bn
      else
        let log = md_chatLog bn;
            merged = mergeChat (count_list history) log history
        in if length merged = length log then bn
           else Persist (bn\<lparr>md_chatLog := ring chatRing (sort_key ce_TS merged)\<rparr>))"

section \<open>Splitting and joining\<close>

lemma takeWhile_until: "c \<notin> set xs \<Longrightarrow> takeWhile (\<lambda>x. x \<noteq> c) (xs @ c # ys) = xs"
  by (induction xs) auto

lemma afterLastColon_append: "CHR '':'' \<notin> set p \<Longrightarrow> afterLastColon (x @ CHR '':'' # p) = p"
  by (simp add: afterLastColon_def takeWhile_until)

lemma afterLastColon_no_colon: "CHR '':'' \<notin> set (afterLastColon a)"
  by (auto simp: afterLastColon_def dest: set_takeWhileD)

lemma afterLastColon_split:
  assumes "CHR '':'' \<in> set a"
  shows "a = take (length a - length (afterLastColon a) - 1) a @ CHR '':'' # afterLastColon a"
proof -
  obtain x p where a: "a = x @ CHR '':'' # p" "CHR '':'' \<notin> set p"
    using split_list_last [OF assms] by blast
  then show ?thesis
    by (simp add: afterLastColon_append)
qed

definition hostport_clean :: "string \<Rightarrow> string \<Rightarrow> bool" where
  "hostport_clean h p \<longleftrightarrow> CHR ''['' \<notin> set h \<and> CHR '']'' \<notin> set h \<and> CHR '':'' \<notin> set p
     \<and> CHR ''['' \<notin> set p \<and> CHR '']'' \<notin> set p"

lemma SplitHostPort_clean:
  assumes "SplitHostPort a = Some (h, p)"
  shows "hostport_clean h p"
proof -
  let ?i = "length a - length (afterLastColon a) - 1"
  have colon: "CHR '':'' \<in> set a" and p: "p = afterLastColon a"
    using assms by (auto simp: SplitHostPort_def Let_def split: if_splits)
  have split: "a = take ?i a @ CHR '':'' # p"
    using afterLastColon_split [OF colon] p by simp
  have np: "CHR '':'' \<notin> set p"
    by (simp add: p afterLastColon_no_colon)
  show ?thesis
  proof (cases "hd a = CHR ''[''")
    case True
    let ?e = "length (takeWhile (\<lambda>c. c \<noteq> CHR '']'') a)"
    have c: "?e + 1 = ?i" "CHR ''['' \<notin> set (drop 1 a)" "CHR '']'' \<notin> set (drop (?e + 1) a)"
        "h = take (?e - 1) (drop 1 a)"
      using assms True by (auto simp: SplitHostPort_def Let_def split: if_splits)
    have dr: "drop ?i a = CHR '':'' # p"
      using split by (metis append_eq_conv_conj length_take min.absorb2 diff_le_self le_trans)
    have "set p \<subseteq> set (drop 1 a)"
    proof -
      have "p = drop (Suc ?i) a"
        using dr by (metis drop_Suc list.sel(3) tl_drop)
      then show ?thesis
        by (metis One_nat_def Suc_le_mono le0 set_drop_subset_set_drop)
    qed
    moreover have "set h \<subseteq> set (drop 1 a)"
      by (simp add: c(4) set_take_subset)
    moreover have "CHR '']'' \<notin> set p"
      using c(1,3) dr by simp
    moreover have "CHR '']'' \<notin> set h"
    proof -
      have "h = drop 1 (take ?e a)"
        by (simp add: c(4) drop_take)
      also have "take ?e a = takeWhile (\<lambda>c. c \<noteq> CHR '']'') a"
        by (metis takeWhile_eq_take)
      finally show ?thesis
        by (metis (mono_tags, lifting) in_set_dropD set_takeWhileD)
    qed
    ultimately show ?thesis
      using np c(2) by (auto simp: hostport_clean_def)
  next
    case False
    then have "CHR ''['' \<notin> set a" "CHR '']'' \<notin> set a" "h = take ?i a"
      using assms by (auto simp: SplitHostPort_def Let_def split: if_splits)
    moreover have "set p \<subseteq> set a"
      by (subst split) auto
    ultimately show ?thesis
      using np set_take_subset [of ?i a] by (auto simp: hostport_clean_def)
  qed
qed

lemma SplitHostPort_JoinHostPort:
  assumes "hostport_clean h p"
  shows "SplitHostPort (JoinHostPort h p) = Some (h, p)"
proof (cases "CHR '':'' \<in> set h")
  case True
  let ?s = "CHR ''['' # h @ CHR '']'' # CHR '':'' # p"
  have s: "JoinHostPort h p = ?s"
    using True by (simp add: JoinHostPort_def)
  have port: "afterLastColon ?s = p"
    using afterLastColon_append [of p "CHR ''['' # h @ [CHR '']'']"] assms by (simp add: hostport_clean_def)
  have tw: "takeWhile (\<lambda>c. c \<noteq> CHR '']'') ?s = CHR ''['' # h"
    using assms by (simp add: hostport_clean_def takeWhile_until)
  show ?thesis
    unfolding s SplitHostPort_def Let_def port tw using assms by (auto simp: hostport_clean_def)
next
  case False
  let ?s = "h @ CHR '':'' # p"
  have s: "JoinHostPort h p = ?s"
    using False by (simp add: JoinHostPort_def)
  have port: "afterLastColon ?s = p"
    using assms by (intro afterLastColon_append) (simp add: hostport_clean_def)
  have "hd ?s \<noteq> CHR ''[''"
    using assms by (cases h) (auto simp: hostport_clean_def)
  then show ?thesis
    unfolding s SplitHostPort_def Let_def port using assms False by (auto simp: hostport_clean_def)
qed

lemma NormalizeAddr_idem [simp]: "NormalizeAddr (NormalizeAddr a) = NormalizeAddr a"
proof (cases "SplitHostPort a")
  case None
  then show ?thesis
    by (simp add: NormalizeAddr_def)
next
  case (Some hp)
  obtain h p where hp: "hp = (h, p)"
    by (cases hp)
  let ?h = "if h \<in> {'''', ''0.0.0.0'', ''localhost'', ''::'', ''[::]''} then ''127.0.0.1'' else h"
  have "hostport_clean h p"
    using Some hp by (simp add: SplitHostPort_clean)
  then have "hostport_clean ?h p"
    by (auto simp: hostport_clean_def)
  then have sj: "SplitHostPort (JoinHostPort ?h p) = Some (?h, p)"
    by (rule SplitHostPort_JoinHostPort)
  have na: "NormalizeAddr a = JoinHostPort ?h p"
    using Some hp by (simp only: NormalizeAddr_def option.case prod.case)
  have "NormalizeAddr (JoinHostPort ?h p) = JoinHostPort (if ?h \<in> {'''', ''0.0.0.0'', ''localhost'', ''::'', ''[::]''} then ''127.0.0.1'' else ?h) p"
    by (simp only: NormalizeAddr_def [of "JoinHostPort ?h p"] sj option.case prod.case)
  also have "\<dots> = JoinHostPort ?h p"
    by auto
  finally show ?thesis
    by (simp only: na)
qed

section \<open>The peer tables\<close>

text \<open>
  No peer is this node under any spelling, every peer is a usable address, and every peer has a
  last-seen time, so that eviction can reach it.
\<close>

definition peers_ok :: "Model \<Rightarrow> bool" where
  "peers_ok bn \<longleftrightarrow> (\<forall>a. a |\<in>| md_Nodes bn \<longrightarrow>
     \<not> IsSelf bn a \<and> ValidPeerAddr a \<and> fmlookup (md_lastSeen bn) a \<noteq> None)"

lemma IsSelf_cong:
  "md_NodeAddr bn = md_NodeAddr bn' \<Longrightarrow> md_AdvertiseAddr bn = md_AdvertiseAddr bn' \<Longrightarrow> IsSelf bn a = IsSelf bn' a"
  by (simp add: IsSelf_def)

lemma AddPeer_ok: "peers_ok bn \<Longrightarrow> peers_ok (fst (AddPeer now a bn))"
  by (auto simp: peers_ok_def AddPeer_def IsSelf_def)

lemma TouchPeer_ok: "peers_ok bn \<Longrightarrow> peers_ok (TouchPeer now a bn)"
  by (auto simp: peers_ok_def TouchPeer_def IsSelf_def)

lemma RemovePeer_ok: "peers_ok bn \<Longrightarrow> peers_ok (RemovePeer a bn)"
  by (auto simp: peers_ok_def RemovePeer_def IsSelf_def)

lemma RemovePeer_simps [simp]:
  "md_lastSeen (RemovePeer a bn) = fmdrop a (md_lastSeen bn)"
  "md_Nodes (RemovePeer a bn) = md_Nodes bn |-| {|a|}"
  "md_nicks (RemovePeer a bn) = fmdrop a (md_nicks bn)"
  by (simp_all add: RemovePeer_def)

definition staleAt :: "nanos \<Rightarrow> nanos \<Rightarrow> string \<times> nanos \<Rightarrow> bool" where
  "staleAt now threshold x \<longleftrightarrow> now - snd x > threshold"

lemma evict_fold:
  "distinct (map fst xs) \<Longrightarrow>
   md_lastSeen (fst (foldl (evictOne now th) (bn, ev) xs)) =
      fmdrop_set (fst ` set (filter (staleAt now th) xs)) (md_lastSeen bn)
   \<and> md_Nodes (fst (foldl (evictOne now th) (bn, ev) xs)) =
      md_Nodes bn |-| fset_of_list (map fst (filter (staleAt now th) xs))
   \<and> snd (foldl (evictOne now th) (bn, ev) xs) =
      ev @ map (\<lambda>x. (fst x, NickOf bn (fst x))) (filter (staleAt now th) xs)
   \<and> (peers_ok bn \<longrightarrow> peers_ok (fst (foldl (evictOne now th) (bn, ev) xs)))"
proof (induction xs arbitrary: bn ev)
  case Nil
  then show ?case
    by (auto intro: fmap_ext)
next
  case (Cons x xs)
  obtain a ts where x: "x = (a, ts)"
    by (cases x)
  have d: "distinct (map fst xs)" "a \<notin> fst ` set xs"
    using Cons.prems by (auto simp: x)
  show ?case
  proof (cases "staleAt now th x")
    case True
    have st: "evictOne now th (bn, ev) x = (RemovePeer a bn, ev @ [(a, NickOf bn a)])"
      using True by (simp add: x evictOne_def staleAt_def)
    have nick: "map (\<lambda>y. (fst y, NickOf (RemovePeer a bn) (fst y))) (filter (staleAt now th) xs) =
        map (\<lambda>y. (fst y, NickOf bn (fst y))) (filter (staleAt now th) xs)"
      using d(2) by (auto simp: NickOf_def image_iff)
    have drop: "fmdrop_set A (fmdrop a m) = fmdrop_set (insert a A) m" for A and m :: "(string, nanos) fmap"
      by (rule fmap_ext) auto
    have minus: "(N |-| {|a|}) |-| B = N |-| finsert a B" for N B :: "string fset"
      by auto
    show ?thesis
      using Cons.IH [OF d(1), of "RemovePeer a bn" "ev @ [(a, NickOf bn a)]"] RemovePeer_ok [of bn a] nick True
      by (simp add: st drop minus) (simp add: x)
  next
    case False
    have st: "evictOne now th (bn, ev) x = (bn, ev)"
      using False by (simp add: x evictOne_def staleAt_def)
    show ?thesis
      using Cons.IH [OF d(1), of bn ev] False by (simp add: st)
  qed
qed

section \<open>The chat log\<close>

lemma Persist_simps [simp]: "md_chatLog (Persist bn) = md_chatLog bn" "md_chatSeq (Persist bn) = md_chatSeq bn"
  "md_Store (Persist bn) = md_Store bn" "md_Nodes (Persist bn) = md_Nodes bn" "md_NodeID (Persist bn) = md_NodeID bn"
  by (simp_all add: Persist_def split: option.split)

lemma count_mergeChat:
  "count_list (mergeChat off merged es) e =
     max (count_list merged e) (min (off e) (count_list merged e + count_list es e))"
proof (induction off merged es rule: mergeChat.induct)
  case (2 off merged x es)
  then show ?case
    by (cases "x = e") (auto simp: max_def min_def)
qed simp

lemma mset_mergeChat: "mset (mergeChat (count_list h) log h) = mset log \<union># mset h"
  by (rule multiset_eqI) (simp add: count_mset count_mergeChat max_def min_def)

lemma length_mergeChat: "length log \<le> length (mergeChat off log h)"
  by (induction off log h rule: mergeChat.induct) auto

lemma PrependChat_mset:
  assumes "length (mergeChat (count_list h) (md_chatLog bn) h) \<le> chatRing"
  shows "mset (md_chatLog (PrependChat h bn)) = mset (md_chatLog bn) \<union># mset h"
proof (cases "h = [] \<or> length (mergeChat (count_list h) (md_chatLog bn) h) = length (md_chatLog bn)")
  case True
  then have "mset (md_chatLog bn) \<union># mset h = mset (md_chatLog bn)"
  proof
    assume len: "length (mergeChat (count_list h) (md_chatLog bn) h) = length (md_chatLog bn)"
    have "size (mset (md_chatLog bn) \<union># mset h) = size (mset (md_chatLog bn))"
      using len mset_mergeChat [of h "md_chatLog bn"] by (metis size_mset)
    then show ?thesis
      using mset_subset_size [of "mset (md_chatLog bn)" "mset (md_chatLog bn) \<union># mset h"]
      by (cases "mset (md_chatLog bn) = mset (md_chatLog bn) \<union># mset h") (simp_all add: subset_mset.less_le)
  qed simp
  then show ?thesis
    using True by (auto simp: PrependChat_def Let_def)
next
  case False
  then show ?thesis
    using assms by (simp add: PrependChat_def Let_def ring_idle mset_mergeChat)
qed

lemma insertIndex_le: "insertIndex log e n \<le> n"
  by (induction n) auto

lemma insertIndex_after:
  "insertIndex log e n \<le> j \<Longrightarrow> j < n \<Longrightarrow> \<not> chatOlder (log ! j) e"
  by (induction n) (auto simp: less_Suc_eq split: if_splits)

lemma insertIndex_before: "0 < insertIndex log e n \<Longrightarrow> chatOlder (log ! (insertIndex log e n - 1)) e"
  by (induction n) (auto split: if_splits)

lemma chatOlder_TS: "chatOlder x e \<Longrightarrow> ce_TS x \<le> ce_TS e" "\<not> chatOlder x e \<Longrightarrow> ce_TS e \<le> ce_TS x"
  by (auto simp: chatOlder_def)

lemma insert_sorted_TS:
  assumes "sorted (map ce_TS log)" "i = insertIndex log e (length log)"
  shows "sorted (map ce_TS (take i log @ [e] @ drop i log))"
proof -
  have "ce_TS x \<le> ce_TS e" if "x \<in> set (take i log)" for x
  proof -
    obtain j where j: "j < i" "j < length log" "x = log ! j"
      using \<open>x \<in> set (take i log)\<close> by (auto simp: in_set_conv_nth)
    have le: "i \<le> length log"
      using assms(2) insertIndex_le by simp
    have "ce_TS (log ! j) \<le> ce_TS (log ! (i - 1))"
      using sorted_nth_mono [OF assms(1), of j "i - 1"] j le by simp
    also have "\<dots> \<le> ce_TS e"
      using insertIndex_before [of log e "length log"] j assms(2) chatOlder_TS(1) by auto
    finally show ?thesis
      by (simp add: j)
  qed
  moreover have "ce_TS e \<le> ce_TS x" if later: "x \<in> set (drop i log)" for x
  proof -
    obtain k where k: "k < length (drop i log)" "x = drop i log ! k"
      using later by (metis in_set_conv_nth)
    then have j: "i \<le> i + k" "i + k < length log" "x = log ! (i + k)"
      by simp_all
    then show ?thesis
      using insertIndex_after [of log e "length log" "i + k"] assms(2) chatOlder_TS(2) by auto
  qed
  moreover have "sorted (map ce_TS (take i log))" "sorted (map ce_TS (drop i log))"
    using assms(1) by (simp_all add: sorted_wrt_take sorted_wrt_drop flip: take_map drop_map)
  moreover have "ce_TS x \<le> ce_TS y" if "x \<in> set (take i log)" "y \<in> set (drop i log)" for x y
    using calculation(1,2) that by (meson order_trans)
  ultimately show ?thesis
    by (auto simp: sorted_append)
qed

lemma sorted_ring: "sorted (map f xs) \<Longrightarrow> sorted (map f (ring n xs))"
  by (simp add: ring_alt sorted_wrt_drop flip: drop_map)

lemma ownBySeq_lookup:
  "fmlookup (ownBySeq bn self i) s = Some e \<Longrightarrow> e \<in> set (md_chatLog bn) \<and> ownLine self i e \<and> ce_Seq e = s"
  "fmlookup (ownBySeq bn self i) s = None \<Longrightarrow> \<not> (\<exists>e\<in>set (md_chatLog bn). ownLine self i e \<and> ce_Seq e = s)"
proof -
  let ?f = "\<lambda>m e. if ownLine self i e then fmupd (ce_Seq e) e m else m"
  have "(\<forall>e. fmlookup (foldl ?f fmempty log) s = Some e \<longrightarrow> e \<in> set log \<and> ownLine self i e \<and> ce_Seq e = s)
      \<and> (fmlookup (foldl ?f fmempty log) s = None \<longrightarrow> \<not> (\<exists>e\<in>set log. ownLine self i e \<and> ce_Seq e = s))" for log
    by (induction log rule: rev_induct) auto
  then show "fmlookup (ownBySeq bn self i) s = Some e \<Longrightarrow> e \<in> set (md_chatLog bn) \<and> ownLine self i e \<and> ce_Seq e = s"
    "fmlookup (ownBySeq bn self i) s = None \<Longrightarrow> \<not> (\<exists>e\<in>set (md_chatLog bn). ownLine self i e \<and> ce_Seq e = s)"
    unfolding ownBySeq_def by blast+
qed

section \<open>Properties\<close>

text \<open>
  Normal forms are stable: normalising an address twice is normalising it once, and joining
  what was split gives an address that splits the same way, so the index by normal form is
  consistent with itself.
\<close>

lemma normalize_stable:
  "NormalizeAddr (NormalizeAddr a) = NormalizeAddr a
   \<and> (case SplitHostPort a of None \<Rightarrow> True | Some (h, p) \<Rightarrow> SplitHostPort (JoinHostPort h p) = Some (h, p))"
  by (auto simp: SplitHostPort_clean SplitHostPort_JoinHostPort split: option.split)

text \<open>
  C28.  The peer table: adding, touching, removing and evicting keep every peer different from this
  node under any spelling, usable, and within reach of eviction; and an eviction removes exactly
  the addresses not heard of for longer than the threshold, each reported once with its nickname,
  so that no stale peer remains.
\<close>

theorem peer_table_sound:
  assumes "peers_ok bn"
  shows "peers_ok (fst (AddPeer now a bn)) \<and> peers_ok (TouchPeer now a bn) \<and> peers_ok (RemovePeer a bn)
    \<and> peers_ok (fst (EvictStalePeers now th bn))
    \<and> snd (EvictStalePeers now th bn) = map (\<lambda>x. (fst x, NickOf bn (fst x)))
        (filter (staleAt now th) (fmentries (md_lastSeen bn)))
    \<and> (\<forall>p. p |\<in>| md_Nodes (fst (EvictStalePeers now th bn)) \<longleftrightarrow>
         p |\<in>| md_Nodes bn \<and> (\<exists>ts. LastSeen bn p = Some ts \<and> now - ts \<le> th))"
proof -
  note ev = evict_fold [of "fmentries (md_lastSeen bn)" now th bn "[]", folded EvictStalePeers_def]
  have stale: "p \<in> fst ` set (filter (staleAt now th) (fmentries (md_lastSeen bn))) \<longleftrightarrow>
      (\<exists>ts. LastSeen bn p = Some ts \<and> now - ts > th)" for p
    by (force simp: set_fmentries staleAt_def LastSeen_def)
  have nodes: "p |\<in>| md_Nodes (fst (EvictStalePeers now th bn)) \<longleftrightarrow>
      p |\<in>| md_Nodes bn \<and> p \<notin> fst ` set (filter (staleAt now th) (fmentries (md_lastSeen bn)))" for p
    using ev by (auto simp: fset_of_list_elem)
  have seen: "p |\<in>| md_Nodes bn \<Longrightarrow> \<exists>ts. LastSeen bn p = Some ts" for p
    using assms by (auto simp: peers_ok_def LastSeen_def)
  show ?thesis
    using assms ev seen unfolding nodes stale
    by (auto simp: AddPeer_ok TouchPeer_ok RemovePeer_ok not_less)
qed

definition demo_model :: Model where
  "demo_model = \<lparr>md_Store = NewKVStore ''n1'' 0, md_Nodes = {||}, md_lastSeen = fmempty, md_heard = fmempty,
     md_nicks = fmempty, md_views = fmempty, md_normalized = fmempty, md_ids = fmempty, md_impostors = {||},
     md_NodeAddr = '':1'', md_AdvertiseAddr = '':1'', md_NodeID = ''n1'', md_nodeNick = ''anon'',
     md_chatLog = [], md_chatSeq = 0, md_persistGen = 0, md_persister = None, md_dirty = False,
     md_BootstrapAddrs = [], md_DataPath = '''', md_LoadError = None\<rparr>"

theorem peer_table_sound_witness:
  "peers_ok demo_model \<and> peers_ok (fst (AddPeer 5 ''h:2'' demo_model)) \<and> snd (AddPeer 5 ''h:2'' demo_model)"
proof -
  have ok: "peers_ok demo_model"
    by (simp add: peers_ok_def demo_model_def)
  have "snd (AddPeer 5 ''h:2'' demo_model)"
    by (simp add: AddPeer_def demo_model_def IsSelf_def ValidPeerAddr_def NormalizeAddr_def SplitHostPort_def
        afterLastColon_def JoinHostPort_def Atoi_def isDigit_def digitsVal_def byte_def Let_def)
  then show ?thesis
    using ok peer_table_sound [OF ok, of 5 "''h:2''" 0] by simp
qed

text \<open>
  Merging synced chat history: the log becomes the larger of the two counts of every line, so
  nothing said twice is lost and nothing synced twice is doubled, and syncing the same history
  again changes nothing; the log stays within its ring.
\<close>

theorem chat_merge:
  assumes "length (mergeChat (count_list h) (md_chatLog bn) h) \<le> chatRing"
  shows "mset (md_chatLog (PrependChat h bn)) = mset (md_chatLog bn) \<union># mset h
    \<and> PrependChat h (PrependChat h bn) = PrependChat h bn"
proof -
  note ms = PrependChat_mset [OF assms]
  let ?log = "md_chatLog (PrependChat h bn)"
  have "mset (mergeChat (count_list h) ?log h) = mset ?log"
    unfolding mset_mergeChat ms by simp
  then have "length (mergeChat (count_list h) ?log h) = length ?log"
    by (metis size_mset)
  then have "PrependChat h (PrependChat h bn) = PrependChat h bn"
    by (simp add: PrependChat_def [of h "PrependChat h bn"])
  then show ?thesis
    using ms by simp
qed

theorem chat_merge_witness:
  "mset (md_chatLog (PrependChat [zero_ChatEntry, zero_ChatEntry] demo_model)) = {#zero_ChatEntry, zero_ChatEntry#}"
  using chat_merge [of "[zero_ChatEntry, zero_ChatEntry]" demo_model]
  by (simp add: demo_model_def chatRing_def)

text \<open>
  A recovered line goes where it belongs: inserting it keeps a log that is in time order in
  time order and within its ring.
\<close>

theorem insert_chat_ordered:
  assumes "sorted (map ce_TS (md_chatLog bn))"
  shows "sorted (map ce_TS (md_chatLog (InsertChat e bn))) \<and> length (md_chatLog (InsertChat e bn)) \<le> chatRing
    \<and> (length (md_chatLog bn) < chatRing \<longrightarrow> mset (md_chatLog (InsertChat e bn)) = mset (md_chatLog bn) + {#e#})"
proof -
  let ?i = "insertIndex (md_chatLog bn) e (length (md_chatLog bn))"
  let ?new = "take ?i (md_chatLog bn) @ [e] @ drop ?i (md_chatLog bn)"
  have log: "md_chatLog (InsertChat e bn) = ring chatRing ?new"
    by (simp add: InsertChat_def Let_def)
  have "mset ?new = mset (take ?i (md_chatLog bn) @ drop ?i (md_chatLog bn)) + {#e#}"
    by (simp del: append_take_drop_id)
  moreover have "length ?new = Suc (length (md_chatLog bn))"
    by simp
  ultimately show ?thesis
    using sorted_ring [OF insert_sorted_TS [OF assms refl], of chatRing] log by (simp add: ring_idle del: append.simps)
qed

theorem insert_chat_ordered_witness:
  "sorted (map ce_TS (md_chatLog (InsertChat zero_ChatEntry demo_model)))"
  using insert_chat_ordered [of demo_model zero_ChatEntry] by (simp add: demo_model_def)

text \<open>
  Serving one's own lines: every line found is a line of this node in the log with a requested
  number, and a number is reported gone only if the log holds no such line.
\<close>

theorem own_chat_exact:
  "set (fst (OwnChat bn self i seqs)) \<subseteq> {e \<in> set (md_chatLog bn). ownLine self i e \<and> ce_Seq e \<in> set seqs}
   \<and> set (snd (OwnChat bn self i seqs)) = {s \<in> set seqs. \<not> (\<exists>e\<in>set (md_chatLog bn). ownLine self i e \<and> ce_Seq e = s)}"
proof -
  have "s \<in> set (snd (OwnChat bn self i seqs)) \<longleftrightarrow>
        s \<in> set seqs \<and> \<not> (\<exists>e\<in>set (md_chatLog bn). ownLine self i e \<and> ce_Seq e = s)" for s
    using ownBySeq_lookup [of bn self i s] by (cases "fmlookup (ownBySeq bn self i) s") (auto simp: OwnChat_def)
  moreover have "e \<in> set (md_chatLog bn) \<and> ownLine self i e \<and> ce_Seq e \<in> set seqs"
    if "e \<in> set (fst (OwnChat bn self i seqs))" for e
    using that ownBySeq_lookup(1) [of bn self i _ e] by (auto simp: OwnChat_def List.map_filter_def)
  ultimately show ?thesis
    by blast
qed

text \<open>
  Two spellings of one address share one entry of the index by normal form: after both were
  added as peers and one removed, the remaining peer is no longer found under a third spelling.
\<close>

lemma alias_removal_unindexes_peer:
  "let bn = fst (AddPeer 5 ''localhost:2'' (fst (AddPeer 5 ''127.0.0.1:2'' demo_model)));
       bn' = RemovePeer ''localhost:2'' bn
   in HasPeerNormalized bn '':2'' \<and> HasPeer bn' ''127.0.0.1:2'' \<and> \<not> HasPeerNormalized bn' '':2''"
  by (simp add: AddPeer_def RemovePeer_def HasPeer_def HasPeerNormalized_def demo_model_def IsSelf_def
      ValidPeerAddr_def NormalizeAddr_def SplitHostPort_def afterLastColon_def JoinHostPort_def Atoi_def
      isDigit_def digitsVal_def byte_def Let_def)

end
