(* ===== verification/Watch.thy ===== *)
theory Watch
  imports PeerModel "HOL-Library.Sublist"
begin

text \<open>
  Watching the store (\<open>pkg/discovery/node/watch.go\<close>): numbered events, the bounded replay history,
  resumption from a cursor, and the bounded queue of each watcher.

  The hub is the node's fields under \<open>watchMu\<close>.  Watchers are objects the caller keeps after \<open>Close\<close>, so
  the hub keeps every watcher by its id, and the ids that are registered.  Receiving from a watcher's
  channel takes the head of its queue.  SHA-256 and the random epoch are parameters.
\<close>

section \<open>State\<close>

definition watchBuffer :: nat where "watchBuffer = 256"
definition watchHistoryLimit :: nat where "watchHistoryLimit = 2048"
definition watchHistoryBytes :: int where "watchHistoryBytes = 8 * 2 ^ 20"

record Watcher =
  wa_ch :: "KVEvent list"
  wa_prefix :: string
  wa_Cursor :: string
  wa_dropped :: u64
  wa_closed :: bool

record watchHub =
  wh_objects :: "(u64, Watcher) fmap"
  wh_watchers :: "u64 fset"
  wh_watchSeq :: u64
  wh_eventSeq :: u64
  wh_watchEpoch :: string
  wh_watchHistory :: "KVEvent list"
  wh_watchBytes :: int
  wh_WatchDropped :: u64

definition newHub :: watchHub where
  "newHub = \<lparr>wh_objects = fmempty, wh_watchers = {||}, wh_watchSeq = 0, wh_eventSeq = 0, wh_watchEpoch = '''',
     wh_watchHistory = [], wh_watchBytes = 0, wh_WatchDropped = 0\<rparr>"

datatype watchError = ErrResnapshot

section \<open>Cursors\<close>

text \<open>\<open>strings.Split(s, ":")\<close> and \<open>strconv.ParseUint(s, 10, 64)\<close>.\<close>

fun splitColon :: "string \<Rightarrow> string \<Rightarrow> string list" where
  "splitColon cur [] = [cur]"
| "splitColon cur (c # cs) = (if c = CHR '':'' then cur # splitColon [] cs else splitColon (cur @ [c]) cs)"

definition ParseUint :: "string \<Rightarrow> u64 option" where
  "ParseUint s =
     (if s = '''' \<or> \<not> list_all isDigit s \<or> digitsVal s \<ge> 2 ^ 64 then None else Some (word_of_int (digitsVal s)))"

definition watchScope :: "(string \<Rightarrow> 256 word) \<Rightarrow> string \<Rightarrow> string" where
  "watchScope sha pre = take 16 (hexDigest (sha pre))"

definition eventID :: "string \<Rightarrow> u64 \<Rightarrow> string" where
  "eventID epoch seq = epoch @ '':'' @ decimalNat (unat seq)"

definition Token :: "(string \<Rightarrow> 256 word) \<Rightarrow> string \<Rightarrow> string \<Rightarrow> string" where
  "Token sha pre i = i @ '':'' @ watchScope sha pre"

text \<open>The sequence number a cursor resumes after, if it is one of this hub's for this prefix and still covered.\<close>

definition cursorSeq :: "(string \<Rightarrow> 256 word) \<Rightarrow> string \<Rightarrow> string \<Rightarrow> watchHub \<Rightarrow> u64 option" where
  "cursorSeq sha pre cursor hub =
     (if cursor = '''' then Some (wh_eventSeq hub)
      else
        let parts = splitColon [] cursor in
        if length parts \<noteq> 3 \<or> parts ! 0 \<noteq> wh_watchEpoch hub \<or> parts ! 2 \<noteq> watchScope sha pre then None
        else (case ParseUint (parts ! 1) of
          None \<Rightarrow> None
        | Some seq \<Rightarrow>
            let oldest = wh_eventSeq hub - word_of_nat (length (wh_watchHistory hub))
            in if seq < oldest \<or> seq > wh_eventSeq hub then None else Some seq))"

definition eventSeqOf :: "KVEvent \<Rightarrow> u64" where
  "eventSeqOf ev = (case ParseUint (splitColon [] (ev_ID ev) ! 1) of Some s \<Rightarrow> s | None \<Rightarrow> 0)"

definition withEpoch :: "string \<Rightarrow> watchHub \<Rightarrow> watchHub" where
  "withEpoch uuid hub = (if wh_watchEpoch hub = '''' then hub\<lparr>wh_watchEpoch := uuid\<rparr> else hub)"

definition newWatcher :: "(string \<Rightarrow> 256 word) \<Rightarrow> string \<Rightarrow> watchHub \<Rightarrow> Watcher" where
  "newWatcher sha pre hub = \<lparr>wa_ch = [], wa_prefix = pre,
     wa_Cursor = Token sha pre (eventID (wh_watchEpoch hub) (wh_eventSeq hub)), wa_dropped = 0, wa_closed = False\<rparr>"

definition WatchFrom ::
  "(string \<Rightarrow> 256 word) \<Rightarrow> string \<Rightarrow> string \<Rightarrow> string \<Rightarrow> watchHub \<Rightarrow> watchHub \<times> (watchError + u64 \<times> KVEvent list)" where
  "WatchFrom sha uuid pre cursor hub0 =
     (let hub = withEpoch uuid hub0 in
      case cursorSeq sha pre cursor hub of
        None \<Rightarrow> (hub, Inl ErrResnapshot)
      | Some after \<Rightarrow>
          let i = wh_watchSeq hub + 1;
              w = newWatcher sha pre hub;
              replay = (if cursor = '''' then []
                 else filter (\<lambda>ev. eventSeqOf ev > after \<and> prefix pre (u_Key (ev_Update ev))) (wh_watchHistory hub))
          in (hub\<lparr>wh_watchSeq := i, wh_objects := fmupd i w (wh_objects hub), wh_watchers := finsert i (wh_watchers hub)\<rparr>,
              Inr (i, replay)))"

definition Watch :: "(string \<Rightarrow> 256 word) \<Rightarrow> string \<Rightarrow> string \<Rightarrow> watchHub \<Rightarrow> watchHub \<times> (watchError + u64 \<times> KVEvent list)" where
  "Watch sha uuid pre hub = WatchFrom sha uuid pre '''' hub"

definition CloseWatcher :: "u64 \<Rightarrow> watchHub \<Rightarrow> watchHub" where
  "CloseWatcher i hub = hub\<lparr>wh_watchers := wh_watchers hub |-| {|i|},
     wh_objects := fmmap_keys (\<lambda>j w. if j = i then w\<lparr>wa_closed := True\<rparr> else w) (wh_objects hub)\<rparr>"

definition Dropped :: "watchHub \<Rightarrow> u64 \<Rightarrow> u64" where
  "Dropped hub i = (case fmlookup (wh_objects hub) i of Some w \<Rightarrow> wa_dropped w | None \<Rightarrow> 0)"

definition WatcherCount :: "watchHub \<Rightarrow> nat" where
  "WatcherCount hub = fcard (wh_watchers hub)"

section \<open>Publishing\<close>

definition offer :: "KVEvent \<Rightarrow> Watcher \<Rightarrow> Watcher \<times> bool" where
  "offer ev w =
     (if wa_prefix w \<noteq> '''' \<and> \<not> prefix (wa_prefix w) (u_Key (ev_Update ev)) then (w, True)
      else if wa_closed w then (w, True)
      else if length (wa_ch w) < watchBuffer then (w\<lparr>wa_ch := wa_ch w @ [ev]\<rparr>, True)
      else (w\<lparr>wa_dropped := wa_dropped w + 1\<rparr>, False))"

definition eventSize :: "KVEvent \<Rightarrow> int" where
  "eventSize ev = int (length (u_Key (ev_Update ev))) + int (length (u_Value (ev_Update ev))) + 128"

fun trimHistory :: "KVEvent list \<Rightarrow> int \<Rightarrow> KVEvent list \<times> int" where
  "trimHistory [] b = ([], b)"
| "trimHistory (e # es) b =
     (if length (e # es) > watchHistoryLimit \<or> b > watchHistoryBytes then trimHistory es (b - eventSize e) else (e # es, b))"

definition offerAll :: "KVEvent \<Rightarrow> watchHub \<Rightarrow> watchHub" where
  "offerAll ev hub = hub\<lparr>wh_objects :=
     fmmap_keys (\<lambda>i w. if i |\<in>| wh_watchers hub then fst (offer ev w) else w) (wh_objects hub),
     wh_WatchDropped := wh_WatchDropped hub + word_of_nat (fcard (ffilter
       (\<lambda>i. \<exists>w \<in> set_option (fmlookup (wh_objects hub) i). \<not> snd (offer ev w)) (wh_watchers hub)))\<rparr>"

definition publishOne :: "watchHub \<Rightarrow> KVEvent \<Rightarrow> watchHub" where
  "publishOne hub ev0 =
     (let seq = wh_eventSeq hub + 1;
          ev = ev0\<lparr>ev_ID := eventID (wh_watchEpoch hub) seq\<rparr>;
          hb = trimHistory (wh_watchHistory hub @ [ev]) (wh_watchBytes hub + eventSize ev)
      in offerAll ev (hub\<lparr>wh_eventSeq := seq, wh_watchHistory := fst hb, wh_watchBytes := snd hb\<rparr>))"

definition publishMutations :: "string \<Rightarrow> KVEvent list \<Rightarrow> watchHub \<Rightarrow> watchHub" where
  "publishMutations uuid events hub = foldl publishOne (withEpoch uuid hub) events"

text \<open>Receiving from a watcher's channel.\<close>

definition receive :: "u64 \<Rightarrow> watchHub \<Rightarrow> (KVEvent \<times> watchHub) option" where
  "receive i hub = (case fmlookup (wh_objects hub) i of
     None \<Rightarrow> None
   | Some w \<Rightarrow> (case wa_ch w of
       [] \<Rightarrow> None
     | ev # rest \<Rightarrow> Some (ev, hub\<lparr>wh_objects := fmupd i (w\<lparr>wa_ch := rest\<rparr>) (wh_objects hub)\<rparr>)))"

section \<open>Numbers as text\<close>

lemma digitsVal_snoc: "digitsVal (s @ [c]) = digitsVal s * 10 + (int (byte c) - 48)"
  by (simp add: digitsVal_def)

lemma byte_digit: "n < 10 \<Longrightarrow> byte (char_of (48 + n)) = 48 + n"
  by (simp add: byte_def)

lemma decimalNat_digits: "decimalNat n \<noteq> '''' \<and> list_all isDigit (decimalNat n) \<and> digitsVal (decimalNat n) = int n"
proof (induction n rule: decimalNat.induct)
  case (1 n)
  show ?case
  proof (cases "n < 10")
    case True
    then show ?thesis
      by (simp add: decimalNat.simps [of n] isDigit_def byte_digit digitsVal_def)
  next
    case False
    moreover have "isDigit (char_of (48 + n mod 10))" "int (byte (char_of (48 + n mod 10))) - 48 = int (n mod 10)"
      using byte_digit [of "n mod 10"] by (simp_all add: isDigit_def)
    ultimately show ?thesis
      using 1 by (simp add: decimalNat.simps [of n] digitsVal_snoc) (simp add: zdiv_int zmod_int)
  qed
qed

lemma ParseUint_decimal [simp]: "ParseUint (decimalNat (unat (s::u64))) = Some s"
proof -
  have "int (unat s) < 2 ^ 64"
    using unsigned_less [of s, where 'a = int] by simp
  then show ?thesis
    using decimalNat_digits [of "unat s"] by (simp add: ParseUint_def)
qed

lemma splitColon_plain: "CHR '':'' \<notin> set xs \<Longrightarrow> splitColon cur (xs @ ys) = splitColon (cur @ xs) ys"
  by (induction xs arbitrary: cur) auto

lemma colon_not_digit: "list_all isDigit s \<Longrightarrow> CHR '':'' \<notin> set s"
  by (auto simp: list_all_iff isDigit_def byte_def)

lemma split_eventID:
  assumes "CHR '':'' \<notin> set epoch"
  shows "splitColon [] (eventID epoch seq) = [epoch, decimalNat (unat seq)]"
  using splitColon_plain [OF assms, of "[]" "'':'' @ decimalNat (unat seq)"]
    splitColon_plain [OF colon_not_digit, of "decimalNat (unat seq)" "[]" "[]"] decimalNat_digits [of "unat seq"]
  by (simp add: eventID_def)

lemma hexDigit_no_colon: "d < 16 \<Longrightarrow> hexDigit d \<noteq> CHR '':''"
  using of_char_hexDigit [of d] by (auto simp: hexDigit_def)

lemma watchScope_no_colon: "CHR '':'' \<notin> set (watchScope sha pre)"
proof
  assume "CHR '':'' \<in> set (watchScope sha pre)"
  then have "CHR '':'' \<in> set (hexDigest (sha pre))"
    by (auto simp: watchScope_def dest: in_set_takeD)
  then obtain i where "CHR '':'' = hexDigit (unat (take_bit 4 (drop_bit (4 * i) (sha pre))))"
    by (auto simp: hexDigest_def)
  moreover have "unat (take_bit 4 (drop_bit (4 * i) (sha pre))) < 16"
    using unat_take_bit_4 by simp
  ultimately show False
    using hexDigit_no_colon by metis
qed

lemma split_Token:
  assumes "CHR '':'' \<notin> set epoch"
  shows "splitColon [] (Token sha pre (eventID epoch seq)) = [epoch, decimalNat (unat seq), watchScope sha pre]"
proof -
  have digits: "CHR '':'' \<notin> set (decimalNat (unat seq))"
    by (rule colon_not_digit) (simp add: decimalNat_digits)
  show ?thesis
    using splitColon_plain [OF assms, of "[]" "'':'' @ decimalNat (unat seq) @ '':'' @ watchScope sha pre"]
      splitColon_plain [OF digits, of "[]" "'':'' @ watchScope sha pre"]
      splitColon_plain [OF watchScope_no_colon, of "[]" sha pre "[]"]
    by (simp add: eventID_def Token_def)
qed

lemma Token_nonempty [simp]: "Token sha pre x \<noteq> ''''"
  by (simp add: Token_def)

section \<open>Histories\<close>

fun stampAll :: "string \<Rightarrow> nat \<Rightarrow> KVEvent list \<Rightarrow> KVEvent list" where
  "stampAll epoch n [] = []"
| "stampAll epoch n (ev # evs) = ev\<lparr>ev_ID := eventID epoch (word_of_nat (Suc n))\<rparr> # stampAll epoch (Suc n) evs"

text \<open>
  A hub with everything it ever published and what each watcher's owner received.  Fewer than
  \<open>2 ^ 64\<close> events and watchers, and epochs are not empty and contain no colon, as UUIDs do not.
\<close>

record watchSys =
  hs_hub :: watchHub
  hs_log :: "KVEvent list"
  hs_got :: "u64 \<Rightarrow> KVEvent list"

definition epoch_ok :: "string \<Rightarrow> bool" where
  "epoch_ok uuid \<longleftrightarrow> uuid \<noteq> '''' \<and> CHR '':'' \<notin> set uuid"

inductive hub_step :: "(string \<Rightarrow> 256 word) \<Rightarrow> watchSys \<Rightarrow> watchSys \<Rightarrow> bool" for sha where
  publish_step: "epoch_ok uuid \<Longrightarrow> length (hs_log s) + length evs < 2 ^ 64 \<Longrightarrow>
    hub_step sha s (s\<lparr>hs_hub := publishMutations uuid evs (hs_hub s),
      hs_log := hs_log s @ stampAll (wh_watchEpoch (withEpoch uuid (hs_hub s))) (length (hs_log s)) evs\<rparr>)"
| watch_step: "epoch_ok uuid \<Longrightarrow> wh_watchSeq (hs_hub s) \<noteq> - 1 \<Longrightarrow> WatchFrom sha uuid pre cursor (hs_hub s) = (hub', r) \<Longrightarrow>
    hub_step sha s (s\<lparr>hs_hub := hub'\<rparr>)"
| close_step: "hub_step sha s (s\<lparr>hs_hub := CloseWatcher i (hs_hub s)\<rparr>)"
| receive_step: "receive i (hs_hub s) = Some (ev, hub') \<Longrightarrow>
    hub_step sha s (s\<lparr>hs_hub := hub', hs_got := (hs_got s)(i := hs_got s i @ [ev])\<rparr>)"

inductive hub_run :: "(string \<Rightarrow> 256 word) \<Rightarrow> watchSys \<Rightarrow> watchSys \<Rightarrow> bool" for sha where
  hub_refl: "hub_run sha s s"
| hub_next: "hub_run sha s s' \<Longrightarrow> hub_step sha s' s'' \<Longrightarrow> hub_run sha s s''"

definition newSys :: watchSys where
  "newSys = \<lparr>hs_hub = newHub, hs_log = [], hs_got = (\<lambda>_. [])\<rparr>"

section \<open>The history\<close>

definition history_ok :: "watchHub \<Rightarrow> KVEvent list \<Rightarrow> bool" where
  "history_ok hub log \<longleftrightarrow> length log < 2 ^ 64 \<and> wh_eventSeq hub = word_of_nat (length log)
     \<and> suffix (wh_watchHistory hub) log
     \<and> wh_watchBytes hub = sum_list (map eventSize (wh_watchHistory hub))
     \<and> length (wh_watchHistory hub) \<le> watchHistoryLimit \<and> wh_watchBytes hub \<le> watchHistoryBytes
     \<and> (wh_watchEpoch hub = '''' \<longrightarrow> log = []) \<and> CHR '':'' \<notin> set (wh_watchEpoch hub)
     \<and> (\<forall>i < length log. ev_ID (log ! i) = eventID (wh_watchEpoch hub) (word_of_nat (Suc i)))"

lemma trimHistory_ok:
  "suffix (fst (trimHistory es (sum_list (map eventSize es)))) es
   \<and> snd (trimHistory es (sum_list (map eventSize es))) = sum_list (map eventSize (fst (trimHistory es (sum_list (map eventSize es)))))
   \<and> length (fst (trimHistory es (sum_list (map eventSize es)))) \<le> watchHistoryLimit
   \<and> snd (trimHistory es (sum_list (map eventSize es))) \<le> watchHistoryBytes"
  by (induction es) (auto simp: watchHistoryBytes_def intro: suffix_ConsI)

lemma withEpoch_simps [simp]: "wh_eventSeq (withEpoch u h) = wh_eventSeq h" "wh_watchHistory (withEpoch u h) = wh_watchHistory h"
  "wh_watchBytes (withEpoch u h) = wh_watchBytes h" "wh_objects (withEpoch u h) = wh_objects h"
  "wh_watchers (withEpoch u h) = wh_watchers h" "wh_watchSeq (withEpoch u h) = wh_watchSeq h"
  by (simp_all add: withEpoch_def)

lemma history_ok_withEpoch: "history_ok h log \<Longrightarrow> epoch_ok u \<Longrightarrow> history_ok (withEpoch u h) log"
  by (auto simp: history_ok_def withEpoch_def epoch_ok_def)

lemma offerAll_simps [simp]: "wh_eventSeq (offerAll e h) = wh_eventSeq h" "wh_watchHistory (offerAll e h) = wh_watchHistory h"
  "wh_watchBytes (offerAll e h) = wh_watchBytes h" "wh_watchEpoch (offerAll e h) = wh_watchEpoch h"
  "wh_watchers (offerAll e h) = wh_watchers h" "wh_watchSeq (offerAll e h) = wh_watchSeq h"
  by (simp_all add: offerAll_def)

lemma publishOne_simps [simp]: "wh_watchEpoch (publishOne h e) = wh_watchEpoch h" "wh_watchers (publishOne h e) = wh_watchers h"
  "wh_watchSeq (publishOne h e) = wh_watchSeq h"
  by (simp_all add: publishOne_def Let_def)

lemma publishOne_history:
  assumes "history_ok h log" "Suc (length log) < 2 ^ 64" "wh_watchEpoch h \<noteq> ''''"
  shows "history_ok (publishOne h e) (log @ [e\<lparr>ev_ID := eventID (wh_watchEpoch h) (word_of_nat (Suc (length log)))\<rparr>])"
proof -
  let ?e = "e\<lparr>ev_ID := eventID (wh_watchEpoch h) (word_of_nat (Suc (length log)))\<rparr>"
  let ?es = "wh_watchHistory h @ [?e]"
  have b: "wh_watchBytes h + eventSize ?e = sum_list (map eventSize ?es)"
    using assms(1) by (simp add: history_ok_def eventSize_def)
  obtain hs b' where t: "trimHistory ?es (sum_list (map eventSize ?es)) = (hs, b')"
    by (cases "trimHistory ?es (sum_list (map eventSize ?es))")
  have seq: "wh_eventSeq h + 1 = word_of_nat (Suc (length log))"
    using assms(1) by (simp add: history_ok_def)
  have fields: "wh_watchHistory (publishOne h e) = hs" "wh_watchBytes (publishOne h e) = b'"
      "wh_eventSeq (publishOne h e) = word_of_nat (Suc (length log))"
    unfolding publishOne_def Let_def seq b t by simp_all
  have hs: "suffix hs ?es" "b' = sum_list (map eventSize hs)" "length hs \<le> watchHistoryLimit" "b' \<le> watchHistoryBytes"
    using trimHistory_ok [of ?es, unfolded t fst_conv snd_conv] by blast+
  have "suffix ?es (log @ [?e])"
    using assms(1) by (auto simp: history_ok_def suffix_def)
  then have "suffix hs (log @ [?e])"
    using hs(1) by (rule suffix_order.order_trans [rotated])
  moreover have "\<forall>i < length (log @ [?e]). ev_ID ((log @ [?e]) ! i) = eventID (wh_watchEpoch h) (word_of_nat (Suc i))"
    using assms(1) by (simp add: history_ok_def nth_append less_Suc_eq)
  ultimately show ?thesis
    using assms hs(2-4) unfolding history_ok_def fields by simp
qed

lemma publishMutations_history:
  assumes "history_ok h log" "epoch_ok u" "length log + length evs < 2 ^ 64"
  shows "history_ok (publishMutations u evs h) (log @ stampAll (wh_watchEpoch (withEpoch u h)) (length log) evs)"
proof -
  have "history_ok (foldl publishOne h evs) (log @ stampAll (wh_watchEpoch h) (length log) evs)"
    if "history_ok h log" "length log + length evs < 2 ^ 64" "wh_watchEpoch h \<noteq> ''''" for h log
    using that
  proof (induction evs arbitrary: h log)
    case (Cons e evs)
    then show ?case
      using publishOne_history [of h log e] Cons.IH [of "publishOne h e" "log @ [e\<lparr>ev_ID := eventID (wh_watchEpoch h) (word_of_nat (Suc (length log)))\<rparr>]"]
      by simp
  qed simp
  then show ?thesis
    using history_ok_withEpoch [OF assms(1,2)] assms(2,3)
    by (auto simp: publishMutations_def withEpoch_def epoch_ok_def)
qed

section \<open>Watchers\<close>

definition ids_ok :: "watchHub \<Rightarrow> (u64 \<Rightarrow> KVEvent list) \<Rightarrow> bool" where
  "ids_ok hub got \<longleftrightarrow> (\<forall>i w. fmlookup (wh_objects hub) i = Some w \<longrightarrow>
      i \<le> wh_watchSeq hub \<and> (\<not> wa_closed w \<longrightarrow> i |\<in>| wh_watchers hub))
    \<and> (\<forall>i. wh_watchSeq hub < i \<longrightarrow> got i = [])"

definition wanted :: "string \<Rightarrow> KVEvent \<Rightarrow> bool" where
  "wanted pre ev \<longleftrightarrow> prefix pre (u_Key (ev_Update ev))"

text \<open>
  What the owner of an open watcher has received or has waiting: every wanted event since it
  subscribed, short by as many as it was told it dropped.
\<close>

definition feed_ok :: "u64 \<Rightarrow> string \<Rightarrow> nat \<Rightarrow> watchSys \<Rightarrow> bool" where
  "feed_ok i pre n s \<longleftrightarrow> n \<le> length (hs_log s) \<and> (\<exists>w. fmlookup (wh_objects (hs_hub s)) i = Some w \<and> wa_prefix w = pre
     \<and> (\<not> wa_closed w \<longrightarrow>
          unat (wa_dropped w) + length (hs_got s i @ wa_ch w) = length (filter (wanted pre) (drop n (hs_log s)))
        \<and> (wa_dropped w = 0 \<longrightarrow> hs_got s i @ wa_ch w = filter (wanted pre) (drop n (hs_log s)))))"

lemma wanted_stamp [simp]: "wanted pre (ev\<lparr>ev_ID := x\<rparr>) = wanted pre ev"
  by (simp add: wanted_def)

lemma publishOne_lookup:
  "fmlookup (wh_objects (publishOne h e)) i = map_option (\<lambda>w. if i |\<in>| wh_watchers h
     then fst (offer (e\<lparr>ev_ID := eventID (wh_watchEpoch h) (wh_eventSeq h + 1)\<rparr>) w) else w) (fmlookup (wh_objects h) i)"
  by (simp add: publishOne_def offerAll_def Let_def)

lemma offer_fields [simp]: "wa_prefix (fst (offer e w)) = wa_prefix w" "wa_closed (fst (offer e w)) = wa_closed w"
  by (simp_all add: offer_def)

lemma ids_ok_publishOne: "ids_ok h got \<Longrightarrow> ids_ok (publishOne h e) got"
  by (auto simp: ids_ok_def publishOne_lookup split: if_splits)

lemma feed_ok_publishOne:
  fixes h e log
  defines "e' \<equiv> e\<lparr>ev_ID := eventID (wh_watchEpoch h) (wh_eventSeq h + 1)\<rparr>"
  assumes feed: "feed_ok i pre n \<lparr>hs_hub = h, hs_log = log, hs_got = got\<rparr>" and ids: "ids_ok h got" and len: "Suc (length log) < 2 ^ 64"
  shows "feed_ok i pre n \<lparr>hs_hub = publishOne h e, hs_log = log @ [e'], hs_got = got\<rparr>"
proof -
  obtain w where w: "fmlookup (wh_objects h) i = Some w" "wa_prefix w = pre" "n \<le> length log"
      and open_ok: "\<not> wa_closed w \<Longrightarrow> unat (wa_dropped w) + length (got i @ wa_ch w) = length (filter (wanted pre) (drop n log))
        \<and> (wa_dropped w = 0 \<longrightarrow> got i @ wa_ch w = filter (wanted pre) (drop n log))"
    using feed by (auto simp: feed_ok_def)
  have look: "fmlookup (wh_objects (publishOne h e)) i = Some (if i |\<in>| wh_watchers h then fst (offer e' w) else w)"
    by (simp add: publishOne_lookup w(1) e'_def)
  show ?thesis
  proof (cases "wa_closed w")
    case True
    then show ?thesis
      using look w(2,3) by (auto simp: feed_ok_def)
  next
    case False
    have reg: "i |\<in>| wh_watchers h"
      using ids w(1) False by (auto simp: ids_ok_def)
    have "length (filter (wanted pre) (drop n log)) \<le> length log"
      by (rule order_trans [OF length_filter_le]) simp
    then have "unat (wa_dropped w) < 2 ^ 64 - 1"
      using open_ok [OF False] len by simp
    then have inc: "unat (wa_dropped w + 1) = Suc (unat (wa_dropped w))"
      by (intro unat_inc) (auto simp: unsigned_minus_1_eq_mask mask_eq_exp_minus_1)
    then have nz: "wa_dropped w + 1 \<noteq> 0"
      by (metis unsigned_0 nat.distinct(1))
    have off: "fst (offer e' w) = (if \<not> wanted pre e' then w
        else if length (wa_ch w) < watchBuffer then w\<lparr>wa_ch := wa_ch w @ [e']\<rparr> else w\<lparr>wa_dropped := wa_dropped w + 1\<rparr>)"
      using False w(2) by (auto simp: offer_def wanted_def)
    show ?thesis
      unfolding feed_ok_def
      using look reg w(2,3) open_ok [OF False] inc nz by (auto simp: off)
  qed
qed

lemma publishMutations_feed:
  assumes "feed_ok i pre n s" "ids_ok (hs_hub s) (hs_got s)" "history_ok (hs_hub s) (hs_log s)"
    and "epoch_ok u" "length (hs_log s) + length evs < 2 ^ 64"
  shows "feed_ok i pre n (s\<lparr>hs_hub := publishMutations u evs (hs_hub s),
      hs_log := hs_log s @ stampAll (wh_watchEpoch (withEpoch u (hs_hub s))) (length (hs_log s)) evs\<rparr>)"
proof -
  have step: "feed_ok i pre n \<lparr>hs_hub = foldl publishOne h evs, hs_log = log @ stampAll (wh_watchEpoch h) (length log) evs, hs_got = got\<rparr>"
    if "feed_ok i pre n \<lparr>hs_hub = h, hs_log = log, hs_got = got\<rparr>" "ids_ok h got" "history_ok h log"
      "length log + length evs < 2 ^ 64" "wh_watchEpoch h \<noteq> ''''" for h log got
    using that
  proof (induction evs arbitrary: h log)
    case (Cons e evs)
    have seq: "wh_eventSeq h + 1 = word_of_nat (Suc (length log))"
      using Cons.prems(3) by (simp add: history_ok_def)
    show ?case
      using Cons.IH [OF feed_ok_publishOne [OF Cons.prems(1,2), of e] ids_ok_publishOne [OF Cons.prems(2), of e]
          publishOne_history [OF Cons.prems(3), of e, folded seq]] Cons.prems(4,5)
      by (simp add: seq)
  qed simp
  have "wh_watchEpoch (withEpoch u (hs_hub s)) \<noteq> ''''"
    using assms(4) by (simp add: withEpoch_def epoch_ok_def)
  moreover have "feed_ok i pre n \<lparr>hs_hub = withEpoch u (hs_hub s), hs_log = hs_log s, hs_got = hs_got s\<rparr>"
    using assms(1) by (simp add: feed_ok_def)
  moreover have "ids_ok (withEpoch u (hs_hub s)) (hs_got s)"
    using assms(2) by (simp add: ids_ok_def)
  ultimately show ?thesis
    using step [of "withEpoch u (hs_hub s)" "hs_log s" "hs_got s"] history_ok_withEpoch [OF assms(3,4)] assms(5)
    by (cases s) (simp add: publishMutations_def)
qed

definition sys_ok :: "watchSys \<Rightarrow> bool" where
  "sys_ok s \<longleftrightarrow> history_ok (hs_hub s) (hs_log s) \<and> ids_ok (hs_hub s) (hs_got s)"

lemma ids_ok_withEpoch [simp]: "ids_ok (withEpoch u h) got = ids_ok h got"
  by (simp add: ids_ok_def)

lemma ids_ok_publish:
  assumes "ids_ok h got"
  shows "ids_ok (publishMutations u evs h) got"
proof -
  have "ids_ok h got \<Longrightarrow> ids_ok (foldl publishOne h evs) got" for h
    by (induction evs arbitrary: h) (simp_all add: ids_ok_publishOne)
  then show ?thesis
    using assms by (simp add: publishMutations_def)
qed

definition subscribed :: "Watcher \<Rightarrow> string \<Rightarrow> watchHub \<Rightarrow> watchHub" where
  "subscribed w u hub = (withEpoch u hub)\<lparr>wh_watchSeq := wh_watchSeq hub + 1,
     wh_objects := fmupd (wh_watchSeq hub + 1) w (wh_objects hub), wh_watchers := finsert (wh_watchSeq hub + 1) (wh_watchers hub)\<rparr>"

lemma WatchFrom_alt:
  "WatchFrom sha uuid pre cursor hub = (case cursorSeq sha pre cursor (withEpoch uuid hub) of
     None \<Rightarrow> (withEpoch uuid hub, Inl ErrResnapshot)
   | Some after \<Rightarrow> (subscribed (newWatcher sha pre (withEpoch uuid hub)) uuid hub, Inr (wh_watchSeq hub + 1,
       if cursor = '''' then [] else filter (\<lambda>ev. eventSeqOf ev > after \<and> wanted pre ev) (wh_watchHistory hub))))"
  by (simp add: WatchFrom_def subscribed_def wanted_def Let_def split: option.split)

lemma WatchFrom_hub:
  assumes "WatchFrom sha uuid pre cursor hub = (hub', r)"
  shows "hub' = withEpoch uuid hub \<or> hub' = subscribed (newWatcher sha pre (withEpoch uuid hub)) uuid hub"
  using assms by (auto simp: WatchFrom_alt split: option.splits)

lemma newWatcher_fields [simp]: "\<not> wa_closed (newWatcher sha pre hub)" "wa_ch (newWatcher sha pre hub) = []"
  "wa_dropped (newWatcher sha pre hub) = 0" "wa_prefix (newWatcher sha pre hub) = pre"
  by (simp_all add: newWatcher_def)

lemma subscribed_history [simp]: "history_ok (subscribed w u hub) log = history_ok (withEpoch u hub) log"
  by (simp add: subscribed_def history_ok_def)

lemma subscribed_lookup: "fmlookup (wh_objects (subscribed w u hub)) i =
    (if i = wh_watchSeq hub + 1 then Some w else fmlookup (wh_objects hub) i)"
  by (simp add: subscribed_def)

lemma ids_ok_subscribed:
  assumes "ids_ok hub got" "wh_watchSeq hub \<noteq> - 1" "\<not> wa_closed w"
  shows "ids_ok (subscribed w u hub) got"
  unfolding ids_ok_def
proof (intro conjI allI impI)
  have less: "wh_watchSeq hub < wh_watchSeq hub + 1"
    using assms(2) by (simp add: word_less_inc)
  fix i
  show "got i = []" if "wh_watchSeq (subscribed w u hub) < i"
  proof -
    have "wh_watchSeq hub < i"
      using that less by (simp add: subscribed_def)
    then show ?thesis
      using assms(1) by (simp add: ids_ok_def)
  qed
  fix x
  assume "fmlookup (wh_objects (subscribed w u hub)) i = Some x"
  then have x: "i = wh_watchSeq hub + 1 \<and> x = w \<or> fmlookup (wh_objects hub) i = Some x"
    by (simp add: subscribed_lookup split: if_splits)
  show "i \<le> wh_watchSeq (subscribed w u hub)"
    using x
  proof
    assume "fmlookup (wh_objects hub) i = Some x"
    then have "i \<le> wh_watchSeq hub"
      using assms(1) by (simp add: ids_ok_def)
    then show ?thesis
      using less by (simp add: subscribed_def)
  qed (simp add: subscribed_def)
  show "i |\<in>| wh_watchers (subscribed w u hub)" if "\<not> wa_closed x"
    using x that assms(1) by (auto simp: ids_ok_def subscribed_def)
qed

lemma CloseWatcher_lookup: "fmlookup (wh_objects (CloseWatcher i h)) j =
    map_option (\<lambda>w. if j = i then w\<lparr>wa_closed := True\<rparr> else w) (fmlookup (wh_objects h) j)"
  by (simp add: CloseWatcher_def)

lemma receive_cases:
  assumes "receive i hub = Some (ev, hub')"
  obtains w rest where "fmlookup (wh_objects hub) i = Some w" "wa_ch w = ev # rest"
    "hub' = hub\<lparr>wh_objects := fmupd i (w\<lparr>wa_ch := rest\<rparr>) (wh_objects hub)\<rparr>"
  using assms by (auto simp: receive_def split: option.splits list.splits)

lemma sys_ok_step: "hub_step sha s s' \<Longrightarrow> sys_ok s \<Longrightarrow> sys_ok s'"
proof (induction rule: hub_step.induct)
  case (publish_step uuid s evs)
  then show ?case
    by (simp add: sys_ok_def publishMutations_history ids_ok_publish)
next
  case (watch_step uuid s pre cursor hub' r)
  have "history_ok (withEpoch uuid (hs_hub s)) (hs_log s)" "ids_ok (hs_hub s) (hs_got s)"
    using watch_step.prems history_ok_withEpoch watch_step.hyps(1) by (simp_all add: sys_ok_def)
  then show ?case
    using WatchFrom_hub [OF watch_step.hyps(3)] ids_ok_subscribed [OF _ watch_step.hyps(2)] by (auto simp: sys_ok_def)
next
  case (close_step s i)
  have "ids_ok (CloseWatcher i (hs_hub s)) (hs_got s)"
    using close_step unfolding ids_ok_def sys_ok_def CloseWatcher_lookup
    by (auto simp: CloseWatcher_def split: if_splits dest: arg_cong [where f = wa_closed])
  then show ?case
    using close_step by (simp add: sys_ok_def history_ok_def CloseWatcher_def)
next
  case (receive_step i s ev hub')
  obtain w rest where w: "fmlookup (wh_objects (hs_hub s)) i = Some w" "wa_ch w = ev # rest"
      "hub' = (hs_hub s)\<lparr>wh_objects := fmupd i (w\<lparr>wa_ch := rest\<rparr>) (wh_objects (hs_hub s))\<rparr>"
    using receive_step.hyps by (rule receive_cases)
  have "ids_ok hub' ((hs_got s)(i := hs_got s i @ [ev]))"
    using receive_step.prems w unfolding ids_ok_def sys_ok_def by (auto simp: not_less)
  then show ?case
    using receive_step.prems w(3) by (simp add: sys_ok_def history_ok_def)
qed

lemma newSys_ok: "sys_ok newSys"
  by (simp add: sys_ok_def newSys_def newHub_def history_ok_def ids_ok_def watchHistoryBytes_def)

lemma sys_ok_run: "hub_run sha s s' \<Longrightarrow> sys_ok s \<Longrightarrow> sys_ok s'"
  by (induction rule: hub_run.induct) (auto intro: sys_ok_step)

lemma feed_ok_step: "hub_step sha s s' \<Longrightarrow> sys_ok s \<Longrightarrow> feed_ok i pre n s \<Longrightarrow> feed_ok i pre n s'"
proof (induction rule: hub_step.induct)
  case (publish_step uuid s evs)
  then show ?case
    by (simp add: sys_ok_def publishMutations_feed)
next
  case (watch_step uuid s pre' cursor hub' r)
  have i: "i \<le> wh_watchSeq (hs_hub s)"
    using watch_step.prems by (auto simp: sys_ok_def ids_ok_def feed_ok_def)
  have new: "wh_watchSeq (hs_hub s) + 1 \<noteq> i"
    using i word_less_inc [OF watch_step.hyps(2), of i] by auto
  show ?case
    using WatchFrom_hub [OF watch_step.hyps(3)] watch_step.prems(2) new
    by (auto simp: feed_ok_def subscribed_lookup)
next
  case (close_step s j)
  obtain w where w: "fmlookup (wh_objects (hs_hub s)) i = Some w"
    using close_step.prems by (auto simp: feed_ok_def)
  show ?case
    using close_step.prems(2) w by (simp add: feed_ok_def CloseWatcher_lookup)
next
  case (receive_step j s ev hub')
  obtain w rest where w: "fmlookup (wh_objects (hs_hub s)) j = Some w" "wa_ch w = ev # rest"
      "hub' = (hs_hub s)\<lparr>wh_objects := fmupd j (w\<lparr>wa_ch := rest\<rparr>) (wh_objects (hs_hub s))\<rparr>"
    using receive_step.hyps by (rule receive_cases)
  show ?case
    using receive_step.prems(2) w by (cases "i = j") (simp_all add: feed_ok_def)
qed

lemma feed_ok_run: "hub_run sha s s' \<Longrightarrow> sys_ok s \<Longrightarrow> feed_ok i pre n s \<Longrightarrow> feed_ok i pre n s'"
  by (induction rule: hub_run.induct) (auto intro: feed_ok_step dest: sys_ok_run)

section \<open>Resuming\<close>

lemma unat_word_of_nat: "n < 2 ^ 64 \<Longrightarrow> unat (word_of_nat n :: u64) = n"
  by (simp add: unsigned_of_nat take_bit_nat_eq_self)

lemma eventSeqOf_log:
  assumes "history_ok hub log" "i < length log"
  shows "unat (eventSeqOf (log ! i)) = Suc i"
proof -
  have "ev_ID (log ! i) = eventID (wh_watchEpoch hub) (word_of_nat (Suc i))" "CHR '':'' \<notin> set (wh_watchEpoch hub)"
    using assms by (auto simp: history_ok_def)
  then have "eventSeqOf (log ! i) = word_of_nat (Suc i)"
    by (simp add: eventSeqOf_def split_eventID del: of_nat_Suc)
  moreover have "Suc i < 2 ^ 64"
    using assms by (simp add: history_ok_def)
  ultimately show ?thesis
    by (simp add: unat_word_of_nat del: of_nat_Suc)
qed

lemma filter_after:
  assumes "history_ok hub log" "k \<le> length log"
  shows "filter (\<lambda>ev. k < unat (eventSeqOf ev)) log = drop k log"
proof -
  have "filter (\<lambda>ev. k < unat (eventSeqOf ev)) (take k log) = []"
    using eventSeqOf_log [OF assms(1)] assms(2) by (auto simp: filter_empty_conv in_set_conv_nth)
  moreover have "filter (\<lambda>ev. k < unat (eventSeqOf ev)) (drop k log) = drop k log"
    using eventSeqOf_log [OF assms(1)] assms(2) by (auto simp: filter_id_conv in_set_conv_nth)
  ultimately show ?thesis
    using filter_append [of "\<lambda>ev. k < unat (eventSeqOf ev)" "take k log" "drop k log"]
    unfolding append_take_drop_id by simp
qed

lemma replay_exact:
  assumes ok: "history_ok hub log" and lo: "length log - length (wh_watchHistory hub) \<le> unat k" and hi: "unat k \<le> length log"
  shows "filter (\<lambda>ev. eventSeqOf ev > k \<and> wanted pre ev) (wh_watchHistory hub) = filter (wanted pre) (drop (unat k) log)"
proof -
  let ?h = "wh_watchHistory hub"
  obtain old where old: "log = old @ ?h"
    using ok by (auto simp: history_ok_def suffix_def)
  have "\<not> unat k < unat (eventSeqOf (old ! i))" if "i < length old" for i
  proof -
    have "unat (eventSeqOf (old ! i)) = Suc i"
      using that eventSeqOf_log [OF ok, of i] arg_cong [OF old, of length] arg_cong [OF old, of "\<lambda>l. l ! i"]
      by (simp add: nth_append)
    then show ?thesis
      using that lo arg_cong [OF old, of length] by simp
  qed
  then have "filter (\<lambda>ev. unat k < unat (eventSeqOf ev)) old = []"
    by (auto simp: filter_empty_conv in_set_conv_nth)
  then have "filter (\<lambda>ev. unat k < unat (eventSeqOf ev)) ?h = drop (unat k) log"
    using filter_after [OF ok hi] filter_append [of "\<lambda>ev. unat k < unat (eventSeqOf ev)" old ?h] old by simp
  then show ?thesis
    using filter_filter [of "wanted pre" "\<lambda>ev. unat k < unat (eventSeqOf ev)" ?h]
    by (simp add: word_less_nat_alt conj_commute)
qed

lemma oldest_unat:
  assumes "history_ok hub log"
  shows "unat (wh_eventSeq hub) = length log"
    and "unat (wh_eventSeq hub - word_of_nat (length (wh_watchHistory hub))) = length log - length (wh_watchHistory hub)"
proof -
  have l: "length log < 2 ^ 64" "wh_eventSeq hub = word_of_nat (length log)"
    using assms by (simp_all add: history_ok_def)
  have "length (wh_watchHistory hub) \<le> length log"
    using assms by (auto simp: history_ok_def dest: suffix_length_le)
  then have eq: "wh_eventSeq hub - word_of_nat (length (wh_watchHistory hub)) = word_of_nat (length log - length (wh_watchHistory hub))"
    using l(2) by simp
  show "unat (wh_eventSeq hub) = length log"
    using l by (simp add: unat_word_of_nat)
  show "unat (wh_eventSeq hub - word_of_nat (length (wh_watchHistory hub))) = length log - length (wh_watchHistory hub)"
    unfolding eq using l(1) by (subst unat_word_of_nat) simp_all
qed

lemma cursorSeq_Token:
  assumes "history_ok hub log"
  shows "cursorSeq sha pre (Token sha pre (eventID (wh_watchEpoch hub) k)) hub =
    (if length log - length (wh_watchHistory hub) \<le> unat k \<and> unat k \<le> length log then Some k else None)"
proof -
  have "CHR '':'' \<notin> set (wh_watchEpoch hub)"
    using assms by (simp add: history_ok_def)
  then show ?thesis
    using oldest_unat [OF assms] by (auto simp: cursorSeq_def split_Token word_less_nat_alt)
qed

lemma WatchFrom_Token:
  assumes "history_ok hub log" "wh_watchEpoch hub \<noteq> ''''"
  shows "WatchFrom sha uuid pre (Token sha pre (eventID (wh_watchEpoch hub) k)) hub =
    (if length log - length (wh_watchHistory hub) \<le> unat k \<and> unat k \<le> length log
     then (subscribed (newWatcher sha pre hub) uuid hub, Inr (wh_watchSeq hub + 1, filter (wanted pre) (drop (unat k) log)))
     else (hub, Inl ErrResnapshot))"
proof -
  have "withEpoch uuid hub = hub"
    using assms(2) by (simp add: withEpoch_def)
  then show ?thesis
    using cursorSeq_Token [OF assms(1), of sha pre k] replay_exact [OF assms(1), of k pre] by (simp add: WatchFrom_alt)
qed

lemma hub_step_log: "hub_step sha s s' \<Longrightarrow> \<exists>more. hs_log s' = hs_log s @ more"
  by (induction rule: hub_step.induct) auto

lemma hub_run_log: "hub_run sha s s' \<Longrightarrow> \<exists>more. hs_log s' = hs_log s @ more"
  by (induction rule: hub_run.induct) (auto dest!: hub_step_log)

lemma sys_ok_subscribed:
  assumes "sys_ok s" "wh_watchEpoch (hs_hub s) \<noteq> ''''" "wh_watchSeq (hs_hub s) \<noteq> - 1"
  shows "sys_ok (s\<lparr>hs_hub := subscribed (newWatcher sha pre hub) u (hs_hub s)\<rparr>)"
proof -
  have "withEpoch u (hs_hub s) = hs_hub s"
    using assms(2) by (simp add: withEpoch_def)
  then show ?thesis
    using assms by (simp add: sys_ok_def ids_ok_subscribed)
qed

lemma feed_ok_subscribed:
  assumes "sys_ok s" "wh_watchSeq (hs_hub s) \<noteq> - 1"
  shows "feed_ok (wh_watchSeq (hs_hub s) + 1) pre (length (hs_log s)) (s\<lparr>hs_hub := subscribed (newWatcher sha pre hub) u (hs_hub s)\<rparr>)"
proof -
  have "wh_watchSeq (hs_hub s) < wh_watchSeq (hs_hub s) + 1"
    using assms(2) by (simp add: word_less_inc)
  then have "hs_got s (wh_watchSeq (hs_hub s) + 1) = []"
    using assms(1) by (simp add: sys_ok_def ids_ok_def)
  then show ?thesis
    by (simp add: feed_ok_def subscribed_lookup)
qed

text \<open>
  A watcher's cursor resumes without a gap.  Take any history of publishing, subscribing, closing and
  receiving, and a cursor of this hub for the prefix.  It is refused exactly when an event after it has
  left the history (or it is ahead of the hub).  Otherwise, however the run continues, as long as the
  watcher is open the replayed, the received and the queued events are together short of the matching
  events published after the cursor by exactly the number \<open>Dropped\<close> tells; with none dropped they
  are those events, in order, each once.
\<close>

theorem watch_resume_gapless:
  assumes run: "hub_run sha newSys s" and started: "wh_watchEpoch (hs_hub s) \<noteq> ''''"
    and ids: "wh_watchSeq (hs_hub s) \<noteq> - 1"
    and sub: "WatchFrom sha uuid pre (Token sha pre (eventID (wh_watchEpoch (hs_hub s)) k)) (hs_hub s) = (hub', r)"
  shows "(r = Inl ErrResnapshot \<longleftrightarrow>
      unat k < length (hs_log s) - length (wh_watchHistory (hs_hub s)) \<or> length (hs_log s) < unat k)
    \<and> (\<forall>i replay t w. r = Inr (i, replay) \<longrightarrow> hub_run sha (s\<lparr>hs_hub := hub'\<rparr>) t \<longrightarrow>
      fmlookup (wh_objects (hs_hub t)) i = Some w \<longrightarrow> \<not> wa_closed w \<longrightarrow>
      unat (Dropped (hs_hub t) i) + length (replay @ hs_got t i @ wa_ch w)
        = length (filter (wanted pre) (drop (unat k) (hs_log t)))
      \<and> (Dropped (hs_hub t) i = 0 \<longrightarrow> replay @ hs_got t i @ wa_ch w = filter (wanted pre) (drop (unat k) (hs_log t))))"
proof (intro conjI allI impI)
  have ok: "sys_ok s"
    using sys_ok_run [OF run newSys_ok] .
  then have hist: "history_ok (hs_hub s) (hs_log s)"
    by (simp add: sys_ok_def)
  note res = sub [unfolded WatchFrom_Token [OF hist started, of sha uuid pre k]]
  show "r = Inl ErrResnapshot \<longleftrightarrow>
      unat k < length (hs_log s) - length (wh_watchHistory (hs_hub s)) \<or> length (hs_log s) < unat k"
    using res by (auto split: if_splits)
  fix i replay t w
  assume r: "r = Inr (i, replay)" and run': "hub_run sha (s\<lparr>hs_hub := hub'\<rparr>) t"
    and w: "fmlookup (wh_objects (hs_hub t)) i = Some w" "\<not> wa_closed w"
  have k: "unat k \<le> length (hs_log s)" "i = wh_watchSeq (hs_hub s) + 1" "replay = filter (wanted pre) (drop (unat k) (hs_log s))"
      "hub' = subscribed (newWatcher sha pre (hs_hub s)) uuid (hs_hub s)"
    using res r by (auto split: if_splits)
  have "feed_ok i pre (length (hs_log s)) t"
    using feed_ok_run [OF run' _ feed_ok_subscribed [OF ok ids, of pre sha "hs_hub s" uuid, folded k(2,4)]]
      sys_ok_subscribed [OF ok started ids, of sha pre "hs_hub s" uuid, folded k(4)] by simp
  moreover obtain more where more: "hs_log t = hs_log s @ more"
    using hub_run_log [OF run'] by auto
  ultimately show "unat (Dropped (hs_hub t) i) + length (replay @ hs_got t i @ wa_ch w)
        = length (filter (wanted pre) (drop (unat k) (hs_log t)))"
    and "Dropped (hs_hub t) i = 0 \<Longrightarrow> replay @ hs_got t i @ wa_ch w = filter (wanted pre) (drop (unat k) (hs_log t))"
    using w k(1,3) by (simp_all add: feed_ok_def Dropped_def)
qed

text \<open>
  A node with two events published, and a cursor taken after the first: the replay is the second.
\<close>

definition demo_event :: KVEvent where
  "demo_event = \<lparr>ev_ID = '''', ev_Source = KVSourceRemote, ev_Update = demo_update\<rparr>"

definition demo_sys :: watchSys where
  "demo_sys = newSys\<lparr>hs_hub := publishMutations ''u'' [demo_event, demo_event] newHub,
     hs_log := stampAll ''u'' 0 [demo_event, demo_event]\<rparr>"

lemma demo_sys_run: "hub_run sha newSys demo_sys"
  using hub_next [OF hub_refl publish_step, of "''u''" newSys "[demo_event, demo_event]" sha]
  by (simp add: demo_sys_def newSys_def epoch_ok_def withEpoch_def newHub_def)

lemma demo_sys_hub: "wh_watchEpoch (hs_hub demo_sys) = ''u''" "wh_watchSeq (hs_hub demo_sys) = 0"
    "length (wh_watchHistory (hs_hub demo_sys)) = 2" "length (hs_log demo_sys) = 2"
  by (simp_all add: demo_sys_def publishMutations_def publishOne_def offerAll_def withEpoch_def newHub_def Let_def
      demo_event_def eventSize_def watchHistoryLimit_def watchHistoryBytes_def)

theorem watch_resume_gapless_witness:
  "\<exists>hub' i replay w. WatchFrom (\<lambda>_. 0) ''u'' ''k'' (Token (\<lambda>_. 0) ''k'' (eventID ''u'' 1)) (hs_hub demo_sys) = (hub', Inr (i, replay))
     \<and> fmlookup (wh_objects hub') i = Some w \<and> wa_ch w = []
     \<and> replay = filter (wanted ''k'') (drop 1 (hs_log demo_sys))"
proof -
  let ?s = demo_sys and ?sha = "\<lambda>_. 0"
  let ?hub = "subscribed (newWatcher ?sha ''k'' (hs_hub ?s)) ''u'' (hs_hub ?s)"
  have hist: "history_ok (hs_hub ?s) (hs_log ?s)"
    using sys_ok_run [OF demo_sys_run [of ?sha] newSys_ok] by (simp add: sys_ok_def)
  obtain replay where sub: "WatchFrom ?sha ''u'' ''k'' (Token ?sha ''k'' (eventID ''u'' 1)) (hs_hub ?s) = (?hub, Inr (1, replay))"
    using WatchFrom_Token [OF hist, of ?sha "''u''" "''k''" 1] demo_sys_hub by simp
  have look: "fmlookup (wh_objects ?hub) 1 = Some (newWatcher ?sha ''k'' (hs_hub ?s))"
    by (simp add: subscribed_lookup demo_sys_hub)
  have "Dropped ?hub 1 = 0 \<longrightarrow> replay @ hs_got (?s\<lparr>hs_hub := ?hub\<rparr>) 1 @ wa_ch (newWatcher ?sha ''k'' (hs_hub ?s))
      = filter (wanted ''k'') (drop (unat (1 :: u64)) (hs_log ?s))"
    using watch_resume_gapless [OF demo_sys_run [of ?sha], of "''u''" "''k''" 1 ?hub "Inr (1, replay)", THEN conjunct2,
        THEN spec, of 1, THEN spec, of replay, THEN spec, of "?s\<lparr>hs_hub := ?hub\<rparr>", THEN spec, of "newWatcher ?sha ''k'' (hs_hub ?s)"]
      sub look hub_refl [of ?sha "?s\<lparr>hs_hub := ?hub\<rparr>"] by (simp add: demo_sys_hub)
  then show ?thesis
    using sub look by (auto simp: Dropped_def demo_sys_def newSys_def)
qed

end
