(* ===== verification/Replication.thy ===== *)
theory Replication
  imports KVStore
begin

text \<open>
  Replication as last-write-wins.  The abstract specification of a replica is a map from keys to
  versioned payloads under \<open>lww_join\<close>; the locale \<open>replica\<close> is the contract a concrete store
  promises (each command is one join, or none), and its lemmas give strong convergence once for
  every store that meets it.  The interpretation at the end discharges the contract for
  \<open>KVStore\<close>: remote updates, sweeps and clock movement refine the join of what a reader sees.
\<close>

section \<open>The specification\<close>

definition lww_join :: "('p \<Rightarrow> 'v::linorder) \<Rightarrow> ('k \<Rightarrow> 'p option) \<Rightarrow> 'k \<times> 'p \<Rightarrow> 'k \<Rightarrow> 'p option" where
  "lww_join ver m u = (case m (fst u) of
     Some c \<Rightarrow> if ver (snd u) \<le> ver c then m else m(fst u \<mapsto> snd u)
   | None \<Rightarrow> m(fst u \<mapsto> snd u))"

text \<open>One version of a key stands for one payload.\<close>

definition version_consistent :: "('p \<Rightarrow> 'v) \<Rightarrow> ('k \<times> 'p) set \<Rightarrow> bool" where
  "version_consistent ver U \<longleftrightarrow>
     (\<forall>k p q. (k, p) \<in> U \<longrightarrow> (k, q) \<in> U \<longrightarrow> ver p = ver q \<longrightarrow> p = q)"

lemma version_consistentD:
  "version_consistent ver U \<Longrightarrow> (k, p) \<in> U \<Longrightarrow> (k, q) \<in> U \<Longrightarrow> ver p = ver q \<Longrightarrow> p = q"
  by (auto simp: version_consistent_def)

lemma version_consistent_mono: "version_consistent ver U \<Longrightarrow> V \<subseteq> U \<Longrightarrow> version_consistent ver V"
  by (auto simp: version_consistent_def)

lemma lww_join_mono:
  "m k = Some p \<Longrightarrow> \<exists>q. lww_join ver m u k = Some q \<and> ver p \<le> ver q"
  by (auto simp: lww_join_def split: option.splits)

text \<open>Joining a list of updates leaves, for each key, its newest one.\<close>

definition newest :: "('p \<Rightarrow> 'v::linorder) \<Rightarrow> ('k \<times> 'p) set \<Rightarrow> 'k \<Rightarrow> 'p \<Rightarrow> bool" where
  "newest ver U k p \<longleftrightarrow> (k, p) \<in> U \<and> (\<forall>q. (k, q) \<in> U \<longrightarrow> ver q \<le> ver p)"

lemma newest_unique:
  "version_consistent ver U \<Longrightarrow> newest ver U k p \<Longrightarrow> newest ver U k q \<Longrightarrow> p = q"
  by (meson newest_def order_antisym version_consistentD)

text \<open>A map that holds exactly the newest payload of every key of a set of updates.\<close>

definition holds_newest :: "('p \<Rightarrow> 'v::linorder) \<Rightarrow> ('k \<times> 'p) set \<Rightarrow> ('k \<Rightarrow> 'p option) \<Rightarrow> bool" where
  "holds_newest ver U m \<longleftrightarrow>
     (\<forall>k. case m k of None \<Rightarrow> (\<forall>p. (k, p) \<notin> U) | Some p \<Rightarrow> newest ver U k p)"

lemma holds_newest_empty [simp]: "holds_newest ver {} Map.empty"
  by (simp add: holds_newest_def)

lemma holds_newestD:
  assumes "holds_newest ver U m"
  shows "m k = Some p \<Longrightarrow> newest ver U k p" "m k = None \<Longrightarrow> (k, p) \<notin> U"
  using assms unfolding holds_newest_def by (metis option.simps(4,5))+

lemma lww_join_apply:
  "lww_join ver m (k', p') k =
     (if k = k' \<and> (case m k' of None \<Rightarrow> True | Some c \<Rightarrow> ver c < ver p') then Some p' else m k)"
  by (auto simp: lww_join_def not_le split: option.splits)

lemma newest_insert_other: "k \<noteq> k' \<Longrightarrow> newest ver (insert (k', p') U) k p = newest ver U k p"
  by (auto simp: newest_def)

lemma newest_insert_new:
  "newest ver U k c \<Longrightarrow> ver c < ver p \<Longrightarrow> newest ver (insert (k, p) U) k p"
  by (auto simp: newest_def intro: order_trans less_imp_le)

lemma newest_insert_old:
  "newest ver U k c \<Longrightarrow> \<not> ver c < ver p \<Longrightarrow> newest ver (insert (k, p) U) k c"
  by (auto simp: newest_def)

lemma holds_newest_join:
  assumes "holds_newest ver U m"
  shows "holds_newest ver (insert u U) (lww_join ver m u)"
  unfolding holds_newest_def
proof
  fix k
  obtain k' p' where u: "u = (k', p')"
    by (cases u)
  show "case lww_join ver m u k of None \<Rightarrow> \<forall>p. (k, p) \<notin> insert u U
      | Some p \<Rightarrow> newest ver (insert u U) k p"
  proof (cases "k = k'")
    case True
    show ?thesis
    proof (cases "m k'")
      case None
      then show ?thesis
        using holds_newestD(2) [OF assms None] by (simp add: u True lww_join_apply newest_def)
    next
      case (Some c)
      then show ?thesis
        using holds_newestD(1) [OF assms Some]
        by (simp add: u True lww_join_apply newest_insert_new newest_insert_old)
    qed
  next
    case False
    then show ?thesis
      using holds_newestD [OF assms, of k]
      by (auto simp: u lww_join_apply newest_insert_other split: option.split)
  qed
qed

lemma holds_newest_unique:
  assumes "version_consistent ver U" "holds_newest ver U m" "holds_newest ver U m'"
  shows "m = m'"
proof
  fix k
  show "m k = m' k"
    using holds_newestD [OF assms(2), of k] holds_newestD [OF assms(3), of k]
      newest_unique [OF assms(1), of k]
    by (cases "m k"; cases "m' k") (auto simp: newest_def)
qed

lemma lww_fold_holds_newest: "holds_newest ver (set us) (foldl (lww_join ver) Map.empty us)"
  by (induction us rule: rev_induct) (auto intro: holds_newest_join)

section \<open>The contract of a replica\<close>

locale replica =
  fixes ver :: "'p \<Rightarrow> 'v::linorder"
    and abs :: "'s \<Rightarrow> 'k \<Rightarrow> 'p option"
    and step :: "'s \<Rightarrow> 'm \<Rightarrow> 's"
    and inv :: "'s \<Rightarrow> bool"
    and ok :: "'m \<Rightarrow> bool"
    and effect :: "'m \<Rightarrow> ('k \<times> 'p) option"
  assumes step_inv: "inv s \<Longrightarrow> ok m \<Longrightarrow> inv (step s m)"
    and step_join: "inv s \<Longrightarrow> ok m \<Longrightarrow> effect m = Some u \<Longrightarrow> abs (step s m) = lww_join ver (abs s) u"
    and step_idle: "inv s \<Longrightarrow> ok m \<Longrightarrow> effect m = None \<Longrightarrow> abs (step s m) = abs s"
begin

lemma run_inv: "inv s \<Longrightarrow> list_all ok ms \<Longrightarrow> inv (foldl step s ms)"
  by (induction ms arbitrary: s) (auto intro: step_inv)

lemma run_join:
  "inv s \<Longrightarrow> list_all ok ms \<Longrightarrow>
   abs (foldl step s ms) = foldl (lww_join ver) (abs s) (List.map_filter effect ms)"
proof (induction ms arbitrary: s)
  case Nil
  then show ?case
    by simp
next
  case (Cons m ms)
  then show ?case
    by (cases "effect m") (auto simp: step_inv step_join step_idle)
qed

lemma run_newest:
  assumes "inv s" "abs s = Map.empty" "list_all ok ms"
  shows "holds_newest ver (set (List.map_filter effect ms)) (abs (foldl step s ms))"
  using assms by (simp add: run_join lww_fold_holds_newest)

lemma run_converges:
  assumes "inv s" "abs s = Map.empty" "list_all ok ms"
    and "inv s'" "abs s' = Map.empty" "list_all ok ms'"
    and "set (List.map_filter effect ms) = set (List.map_filter effect ms')"
    and "version_consistent ver (set (List.map_filter effect ms))"
  shows "abs (foldl step s ms) = abs (foldl step s' ms')"
  using holds_newest_unique [OF assms(8) run_newest [OF assms(1-3)]]
    run_newest [OF assms(4-6)] assms(7) by simp

lemma run_monotone:
  "inv s \<Longrightarrow> list_all ok ms \<Longrightarrow> abs s k = Some p \<Longrightarrow>
   \<exists>q. abs (foldl step s ms) k = Some q \<and> ver p \<le> ver q"
proof (induction ms arbitrary: s p)
  case (Cons m ms)
  have "\<exists>q. abs (step s m) k = Some q \<and> ver p \<le> ver q"
    using Cons.prems lww_join_mono [of "abs s" k p ver]
    by (cases "effect m") (auto simp: step_join step_idle)
  then show ?case
    using Cons.IH [OF step_inv] Cons.prems by (fastforce intro: order_trans)
qed auto

end

section \<open>What a reader sees of a store\<close>

text \<open>
  The view of a key at time \<open>t\<close>: its version, and its value when it is readable then.  Two stores
  with the same view answer every \<open>Get\<close> at \<open>t\<close> alike.
\<close>

type_synonym view = "version \<times> string option"

definition entry_view :: "nanos \<Rightarrow> kvEntry \<Rightarrow> view" where
  "entry_view t e = (e_Version e, if visible e (unix t) then Some (e_Value e) else None)"

definition kv_view :: "nanos \<Rightarrow> kvStore \<Rightarrow> string \<Rightarrow> view option" where
  "kv_view t kv k = map_option (entry_view t) (fmlookup (kv_store kv) k)"

definition update_view :: "nanos \<Rightarrow> KVUpdate \<Rightarrow> view" where
  "update_view t u = (u_Version u,
     if u_Action u = KVDelete \<or> (u_ExpiresAt u \<noteq> 0 \<and> u_ExpiresAt u \<le> unix t) then None
     else Some (u_Value u))"

lemma fst_entry_view [simp]: "fst (entry_view t e) = e_Version e"
  by (simp add: entry_view_def)

lemma Get_kv_view: "Get (SetClock t kv) k = (case kv_view t kv k of Some (v, r) \<Rightarrow> r | None \<Rightarrow> None)"
  by (simp add: Get_def SetClock_def kv_view_def entry_view_def split: option.split)

lemma entry_view_applyEntry [simp]: "entry_view t (applyEntry u now) = update_view t u"
  by (simp add: update_view_def entry_view_def visible_def expired_def)

lemma fst_update_view [simp]: "fst (update_view t u) = u_Version u"
  by (simp add: update_view_def)

lemma kv_view_cong: "kv_store kv = kv_store kv' \<Longrightarrow> kv_view t kv = kv_view t kv'"
  by (simp add: kv_view_def fun_eq_iff)

section \<open>The store meets the contract\<close>

text \<open>Whether an update can be held by a store that sets no limits of its own.\<close>

definition holdable :: "KVUpdate \<Rightarrow> bool" where
  "holdable u \<longleftrightarrow> representable (u_Key u) (u_Value u) (u_Action u \<noteq> KVDelete) = None
     \<and> (u_Action u \<noteq> KVDelete \<longrightarrow> EscapedLen (u_Value u) - 2 \<le> MaxReplicableValueBytes)"

definition unlimited :: "kvStore \<Rightarrow> bool" where
  "unlimited kv \<longleftrightarrow> MaxValueBytes (kv_limits kv) \<le> 0 \<and> MaxKeys (kv_limits kv) \<le> 0"

definition replica_inv :: "nanos \<Rightarrow> kvStore \<Rightarrow> bool" where
  "replica_inv t kv \<longleftrightarrow> unlimited kv \<and> kv_now kv \<le> t"

fun replica_ok :: "nanos \<Rightarrow> kv_cmd \<Rightarrow> bool" where
  "replica_ok t (CmdApply u) = True"
| "replica_ok t CmdSweep = True"
| "replica_ok t (CmdTime s) = (s \<le> t)"
| "replica_ok t _ = False"

fun replica_effect :: "nanos \<Rightarrow> kv_cmd \<Rightarrow> (string \<times> view) option" where
  "replica_effect t (CmdApply u) = (if holdable u then Some (u_Key u, update_view t u) else None)"
| "replica_effect t _ = None"

lemma admitLocked_unlimited:
  "unlimited kv \<Longrightarrow> admitLocked kv k v now =
     (if EscapedLen v - 2 \<le> MaxReplicableValueBytes then None else Some ErrUnshippable)"
  using EscapedLen_le [of v]
  by (auto simp: admitLocked_def unlimited_def MaxReplicableValueBytes_eq)

lemma applyRefusal_unlimited: "unlimited kv \<Longrightarrow> applyRefusal kv u = None \<longleftrightarrow> holdable u"
  by (auto simp: applyRefusal_def holdable_def admitLocked_unlimited split: option.split)

lemma kv_view_Apply:
  assumes "unlimited kv" "holdable u"
  shows "kv_view t (fst (ApplyWithReason kv u)) = lww_join fst (kv_view t kv) (u_Key u, update_view t u)"
proof -
  have "applyRefusal kv u = None"
    using assms by (simp add: applyRefusal_unlimited)
  then show ?thesis
    by (auto simp add: kv_view_def lww_join_apply ApplyWithReason_store staleFor_def fun_eq_iff not_le
        split: option.split)
qed

lemma kv_view_Apply_refused:
  assumes "unlimited kv" "\<not> holdable u"
  shows "kv_view t (fst (ApplyWithReason kv u)) = kv_view t kv"
  using assms applyRefusal_unlimited [of kv u]
  by (auto intro!: kv_view_cong simp: ApplyWithReason_store)

lemma entry_view_sweep:
  "now \<le> unix t \<Longrightarrow> entry_view t (if needsSweep now e then sweepEntry now e else e) = entry_view t e"
  using needsSweep_not_visible [of now e "unix t"]
  by (auto simp: entry_view_def visible_sweep sweepEntry_def visible_def)

lemma kv_view_Sweep:
  assumes "kv_now kv \<le> t"
  shows "kv_view t (fst (SweepExpired kv)) = kv_view t kv"
  using unix_mono [OF assms]
  by (auto simp: kv_view_def SweepExpired_store fun_eq_iff option.map_comp comp_def entry_view_sweep
      split: option.split)

lemma kv_view_SetClock [simp]: "kv_view t (SetClock s kv) = kv_view t kv"
  by (rule kv_view_cong) (simp add: SetClock_def)

interpretation kvr: replica fst "kv_view t" kv_step "replica_inv t" "replica_ok t" "replica_effect t"
  for t
proof
  fix kv cmd u
  assume inv: "replica_inv t kv" and ok: "replica_ok t cmd"
  show "replica_inv t (kv_step kv cmd)"
    using inv ok by (cases cmd) (auto simp: replica_inv_def unlimited_def SetClock_def)
  show "kv_view t (kv_step kv cmd) = lww_join fst (kv_view t kv) u" if "replica_effect t cmd = Some u"
    using that inv by (cases cmd) (auto simp: replica_inv_def kv_view_Apply split: if_splits)
  show "kv_view t (kv_step kv cmd) = kv_view t kv" if "replica_effect t cmd = None"
    using that inv ok
    by (cases cmd) (auto simp: replica_inv_def kv_view_Apply_refused kv_view_Sweep split: if_splits)
qed

text \<open>Entries a store holds go back on the wire as updates of the same view.\<close>

lemma update_view_entryUpdate [simp]: "update_view t (entryUpdate k e) = entry_view t e"
  by (auto simp: update_view_def entryUpdate_def entry_view_def visible_def expired_def)

lemma entryUpdate_simps [simp]: "u_Key (entryUpdate k e) = k" "u_Version (entryUpdate k e) = e_Version e"
  by (simp_all add: entryUpdate_def)

lemma holdable_sweepEntry: "holdable (entryUpdate k e) \<Longrightarrow> holdable (entryUpdate k (sweepEntry now e))"
  by (auto simp: holdable_def entryUpdate_def sweepEntry_def representable_def split: if_splits)

lemma holdable_applyEntry: "holdable u \<Longrightarrow> holdable (entryUpdate (u_Key u) (applyEntry u now))"
  by (auto simp: holdable_def entryUpdate_def)

lemma holdable_mutateEntry:
  assumes "unlimited kv" "mutateRefusal kv k v rm opt = None"
  shows "holdable (entryUpdate k (mutateEntry kv v rm opt))"
  using mutateRefusal_NoneD(2-4) [OF assms(2)] assms(1)
  by (auto simp: holdable_def entryUpdate_def representable_def admitLocked_unlimited split: if_splits)

section \<open>Properties\<close>

text \<open>
  C14.  Merging a remote update refines last-write-wins: on a store without configured limits, an
  update that fits the wire takes the reader's view at any time \<open>t\<close> to its join with the update,
  and any other update leaves every view alone.
\<close>

theorem apply_refines_lww:
  assumes "unlimited kv"
  shows "kv_view t (fst (ApplyWithReason kv u)) =
    (if holdable u then lww_join fst (kv_view t kv) (u_Key u, update_view t u) else kv_view t kv)"
  using assms by (simp add: kv_view_Apply kv_view_Apply_refused)

lemma demo_holdable [simp]: "holdable demo_update" "unlimited demo_store"
  by (simp_all add: holdable_def demo_update_def representable_def EscapedLen_def escapedLenFrom.simps
      unlimited_def asciiEscapeLen_def byte_def MaxReplicableValueBytes_eq) (simp_all add: eval_store)

theorem apply_refines_lww_witness:
  "kv_view 0 (fst (ApplyWithReason demo_store demo_update)) ''k'' = Some (Version 1 ''n2'', Some ''w'')"
proof -
  have "kv_view 0 demo_store ''k'' = Some (Version 1 ''n1'', Some ''v'')"
    by (simp add: kv_view_def entry_view_def visible_def expired_def)
  then show ?thesis
    using apply_refines_lww [OF demo_holdable(2), of 0 demo_update]
    by (simp add: lww_join_apply less_version_def) (simp add: update_view_def demo_update_def)
qed

text \<open>
  Strong convergence: two empty replicas that receive the same set of updates, in any order,
  with any duplication and any interleaving of sweeps and clock movements, show every reader the
  same value at every later time \<open>t\<close>, provided one version of a key stands for one update.
\<close>

theorem replicas_converge:
  assumes "list_all (replica_ok t) ms" "list_all (replica_ok t) ms'"
    and "now \<le> t" "now' \<le> t"
    and "set (List.map_filter (replica_effect t) ms) = set (List.map_filter (replica_effect t) ms')"
    and "version_consistent fst (set (List.map_filter (replica_effect t) ms))"
  shows "Get (SetClock t (foldl kv_step (NewKVStore n now) ms)) k =
         Get (SetClock t (foldl kv_step (NewKVStore n' now') ms')) k"
proof -
  have start: "replica_inv t (NewKVStore n now)" "kv_view t (NewKVStore n now) = Map.empty"
    if "now \<le> t" for n now
    using that by (simp_all add: replica_inv_def unlimited_def NewKVStore_def kv_view_def fun_eq_iff)
  have "kv_view t (foldl kv_step (NewKVStore n now) ms) = kv_view t (foldl kv_step (NewKVStore n' now') ms')"
    using kvr.run_converges [OF start assms(1) start assms(2)] assms(3-6) by simp
  then show ?thesis
    by (simp add: Get_kv_view)
qed

theorem replicas_converge_witness:
  "Get (SetClock 9 (foldl kv_step (NewKVStore ''a'' 1)
      [CmdApply demo_update, CmdSweep, CmdApply demo_update])) ''k'' =
   Get (SetClock 9 (foldl kv_step (NewKVStore ''b'' 2) [CmdTime 7, CmdApply demo_update])) ''k''"
  by (rule replicas_converge) (simp_all add: version_consistent_def)

end
