(* ===== verification/AntiEntropy.thy ===== *)
theory AntiEntropy
  imports Replication
begin

text \<open>
  Anti-entropy (\<open>pkg/discovery/node/antientropy.go\<close> over \<open>Digest\<close>, \<open>Reconcile\<close> and \<open>UpdatesFor\<close>
  of the store): the per-peer cursor that walks the sorted keyspace, what one digest exchange
  repairs, the batching of repairs, and the budgets \<open>applyDefaults\<close> sets.
\<close>

section \<open>Cursors, budgets and batches\<close>

definition batchBytes :: nat where
  "batchBytes = 48 * 2 ^ 10"

definition batchEntries :: nat where
  "batchEntries = 64"

text \<open>The repair budgets of the configuration; 0 asks for the default.\<close>

record aeBudgets =
  DigestBatch :: nat
  MaxPush :: nat
  MaxPull :: nat

definition budgetDefaults :: "aeBudgets \<Rightarrow> aeBudgets" where
  "budgetDefaults c =
     (let d = (if DigestBatch c = 0 then 128 else DigestBatch c);
          push = (if MaxPush c = 0 then 128 else MaxPush c);
          pull = (if MaxPull c = 0 then 128 else MaxPull c);
          budget = min push pull
      in \<lparr>DigestBatch = (if d > budget then budget else d), MaxPush = push, MaxPull = pull\<rparr>)"

text \<open>
  The part of \<open>antiEntropyRound\<close> under \<open>aeMu\<close>: the digest to send to a peer, and its cursor moved
  past it (dropped once the digest ran to the end of the keyspace).
\<close>

definition aeAdvance ::
  "kvStore \<Rightarrow> nat \<Rightarrow> string \<Rightarrow> (string, string) fmap \<Rightarrow> (string, string) fmap \<times> Digest" where
  "aeAdvance kv batch target cursors =
     (let cur = (case fmlookup cursors target of Some c \<Rightarrow> c | None \<Rightarrow> '''');
          d = StoreDigest kv cur batch
      in (if d_Hi d = '''' then fmdrop target cursors
          else if d_Entries d \<noteq> [] then fmupd target (kvn_Key (last (d_Entries d))) cursors
          else cursors,
          d))"

text \<open>
  The batches \<open>sendRepair\<close> sends: values over the peer's advertised limit are left out, and a batch
  is flushed before it would outgrow the byte budget or the entry count.  \<open>encLen\<close> is the length
  of \<open>json.Marshal(u)\<close>.
\<close>

fun repairBatches ::
  "(KVUpdate \<Rightarrow> nat) \<Rightarrow> int \<Rightarrow> KVUpdate list \<Rightarrow> KVUpdate list \<Rightarrow> nat \<Rightarrow> KVUpdate list list" where
  "repairBatches encLen maxValue [] batch sz = (if batch = [] then [] else [batch])"
| "repairBatches encLen maxValue (u # us) batch sz =
     (if u_Action u = KVSet \<and> maxValue > 0 \<and> int (length (u_Value u)) > maxValue
      then repairBatches encLen maxValue us batch sz
      else
        let entrySize = encLen u + 1 in
        if batch \<noteq> [] \<and> (sz + entrySize > batchBytes \<or> length batch \<ge> batchEntries)
        then batch # repairBatches encLen maxValue us [u] entrySize
        else repairBatches encLen maxValue us (batch @ [u]) (sz + entrySize))"

text \<open>What the receiver of a batch does to its store (\<open>handleKVBatch\<close>, \<open>mergeState\<close>).\<close>

definition applyAll :: "kvStore \<Rightarrow> KVUpdate list \<Rightarrow> kvStore" where
  "applyAll kv us = foldl (\<lambda>s u. fst (ApplyWithReason s u)) kv us"

section \<open>Digests\<close>

lemma less_snoc_zero: "(k::string) < x @ [CHR 0x00] \<longleftrightarrow> k \<le> x"
proof (induction x arbitrary: k)
  case Nil
  have "\<not> c < CHR 0x00" for c :: char
    by (simp add: less_char_def)
  then show ?case
    by (cases k) auto
next
  case (Cons c x)
  then show ?case
    by (cases k) auto
qed

lemma StoreDigest_simps [simp]:
  "d_Lo (StoreDigest kv after limit) = after" "d_From (StoreDigest kv after limit) = ''''"
  by (simp_all add: StoreDigest_def Let_def)

definition digestKeys :: "kvStore \<Rightarrow> string \<Rightarrow> string list" where
  "digestKeys kv after = filter (\<lambda>k. after < k \<or> after = '''') (fmkeys (kv_store kv))"

lemma digestKeys_sorted [simp]: "sorted (digestKeys kv after)" "distinct (digestKeys kv after)"
  by (simp_all add: digestKeys_def sorted_filter [of id, simplified])

lemma StoreDigest_Hi:
  "d_Hi (StoreDigest kv after limit) =
     (if limit < length (digestKeys kv after)
      then last (take limit (digestKeys kv after)) @ [CHR 0x00] else '''')"
  by (simp add: StoreDigest_def Let_def digestKeys_def)

lemma StoreDigest_keys:
  "map kvn_Key (d_Entries (StoreDigest kv after limit)) = take limit (digestKeys kv after)"
  by (auto simp: StoreDigest_def Let_def digestKeys_def comp_def)

lemma StoreDigest_entry:
  "adv \<in> set (d_Entries (StoreDigest kv after limit)) \<Longrightarrow>
   \<exists>e. fmlookup (kv_store kv) (kvn_Key adv) = Some e \<and> kvn_Version adv = e_Version e"
  by (auto simp: StoreDigest_def Let_def fmlookup_dom'_iff dest!: in_set_takeD split: if_splits)

lemma StoreDigest_limit: "length (d_Entries (StoreDigest kv after limit)) \<le> limit"
  using arg_cong [OF StoreDigest_keys, of length kv after limit] by simp

text \<open>A digest mentions every key its sender holds inside the range it covers.\<close>

lemma sorted_le_last: "sorted xs \<Longrightarrow> x \<in> set xs \<Longrightarrow> x \<le> last xs"
  by (induction xs) auto

lemma sorted_take_last:
  "sorted xs \<Longrightarrow> 0 < n \<Longrightarrow> n < length xs \<Longrightarrow> x \<in> set xs \<Longrightarrow> x \<le> last (take n xs) \<Longrightarrow> distinct xs \<Longrightarrow>
   x \<in> set (take n xs)"
proof -
  assume a: "sorted xs" "0 < n" "n < length xs" "x \<in> set xs" "x \<le> last (take n xs)" "distinct xs"
  obtain i where i: "i < length xs" "x = xs ! i"
    using a(4) by (auto simp: in_set_conv_nth)
  have l: "last (take n xs) = xs ! (n - 1)"
    using a(2,3) by (subst last_conv_nth) auto
  have "i < n"
  proof (rule ccontr)
    assume "\<not> i < n"
    then have "n - 1 < i"
      using a(2) by simp
    then have "xs ! (n - 1) \<le> xs ! i" "xs ! (n - 1) \<noteq> xs ! i"
      using a(1,6) i by (auto simp: sorted_nth_mono nth_eq_iff_index_eq)
    then show False
      using a(5) i l by simp
  qed
  then show ?thesis
    using i by (auto simp: in_set_conv_nth intro!: exI [of _ i])
qed

lemma StoreDigest_complete:
  assumes "fmlookup (kv_store kv) k = Some e" "0 < limit"
    and "inDigestRange k (d_Lo (StoreDigest kv after limit)) (d_Hi (StoreDigest kv after limit))"
  shows "k \<in> set (map kvn_Key (d_Entries (StoreDigest kv after limit)))"
proof -
  have k: "k \<in> set (digestKeys kv after)"
    using assms(1,3) by (auto simp: digestKeys_def inDigestRange_def fmlookup_dom'_iff split: if_splits)
  show ?thesis
  proof (cases "limit < length (digestKeys kv after)")
    case True
    then have "k \<le> last (take limit (digestKeys kv after))"
      using assms(3) by (auto simp: inDigestRange_def StoreDigest_Hi less_snoc_zero split: if_splits)
    then show ?thesis
      using sorted_take_last [OF _ assms(2) True k] by (simp add: StoreDigest_keys del: set_map)
  next
    case False
    then show ?thesis
      using k by (simp add: StoreDigest_keys del: set_map)
  qed
qed

lemma StoreDigest_in_range:
  assumes "k \<in> set (map kvn_Key (d_Entries (StoreDigest kv after limit)))"
  shows "inDigestRange k (d_Lo (StoreDigest kv after limit)) (d_Hi (StoreDigest kv after limit))"
proof -
  let ?xs = "digestKeys kv after"
  have k: "k \<in> set (take limit ?xs)"
    using assms by (simp add: StoreDigest_keys del: set_map)
  then have "after < k \<or> after = ''''"
    by (auto simp: digestKeys_def dest!: in_set_takeD)
  moreover have "k \<le> last (take limit ?xs)"
    using k sorted_wrt_take [OF digestKeys_sorted(1)] by (rule sorted_le_last [rotated])
  ultimately show ?thesis
    by (auto simp: inDigestRange_def StoreDigest_Hi less_snoc_zero)
qed

section \<open>Reconciliation\<close>

text \<open>What a digest asks of the store that receives it, in either direction.\<close>

definition toPush :: "kvStore \<Rightarrow> Digest \<Rightarrow> string \<Rightarrow> kvEntry \<Rightarrow> bool" where
  "toPush kv d k e \<longleftrightarrow> fmlookup (kv_store kv) k = Some e
     \<and> ((\<exists>adv\<in>set (d_Entries d). kvn_Key adv = k \<and> kvn_Version adv < e_Version e)
        \<or> (k \<notin> kvn_Key ` set (d_Entries d) \<and> inDigestRange k (d_Lo d) (d_Hi d)))"

definition toPull :: "kvStore \<Rightarrow> Digest \<Rightarrow> string \<Rightarrow> bool" where
  "toPull kv d k \<longleftrightarrow> (\<exists>adv\<in>set (d_Entries d). kvn_Key adv = k
     \<and> (case fmlookup (kv_store kv) k of None \<Rightarrow> True | Some e \<Rightarrow> e_Version e < kvn_Version adv))"

lemma set_map_filter: "set (List.map_filter f xs) = {y. \<exists>x\<in>set xs. f x = Some y}"
  by (auto simp: List.map_filter_def image_iff) (metis option.sel)

lemma set_push_all:
  "set (List.map_filter (pushOf kv) (d_Entries d) @ unseenUpdates kv d) =
     {entryUpdate k e |k e. toPush kv d k e}"
  by (auto simp: set_map_filter pushOf_def unseenUpdates_def toPush_def set_fmentries image_iff
      split: option.splits if_splits)

lemma pullOf_iff:
  "pullOf kv adv = Some k \<longleftrightarrow> kvn_Key adv = k \<and>
     (case fmlookup (kv_store kv) k of None \<Rightarrow> True | Some e \<Rightarrow> e_Version e < kvn_Version adv)"
  by (cases "fmlookup (kv_store kv) (kvn_Key adv)") (auto simp: pullOf_def)

lemma set_pull_all: "set (List.map_filter (pullOf kv) (d_Entries d)) = {k. toPull kv d k}"
  by (auto simp: set_map_filter pullOf_iff toPull_def)

lemma Reconcile_push_subset:
  "u \<in> set (fst (Reconcile kv d mp mq)) \<Longrightarrow> \<exists>k e. u = entryUpdate k e \<and> toPush kv d k e"
  using set_push_all [of kv d]
  by (auto simp: Reconcile_def Let_def simp del: set_append dest!: in_set_takeD split: if_splits)

lemma Reconcile_pull_subset: "k \<in> set (snd (Reconcile kv d mp mq)) \<Longrightarrow> toPull kv d k"
  using set_pull_all [of kv d]
  by (auto simp: Reconcile_def Let_def dest!: in_set_takeD split: if_splits)

lemma Reconcile_push_exact:
  assumes "length (fst (Reconcile kv d mp mq)) < mp"
  shows "set (fst (Reconcile kv d mp mq)) = {entryUpdate k e |k e. toPush kv d k e}"
  using assms unfolding set_push_all [symmetric]
  by (auto simp: Reconcile_def Let_def simp del: set_append split: if_splits)

text \<open>A pull is never cut short when the digest is no longer than the pull budget.\<close>

lemma Reconcile_pull_exact:
  assumes "length (d_Entries d) \<le> mq"
  shows "set (snd (Reconcile kv d mp mq)) = {k. toPull kv d k}"
proof -
  have "length (List.map_filter (pullOf kv) (d_Entries d)) \<le> mq"
    using assms by (simp add: List.map_filter_def le_trans [OF length_filter_le])
  then show ?thesis
    by (simp add: Reconcile_def Let_def set_pull_all)
qed

text \<open>Cutting a sorted list at a budget keeps its smallest elements.\<close>

lemma cut_sorted:
  assumes "sorted (map f xs)" "ys = (if length xs > m then take m xs else xs)"
  shows "length ys \<le> m" "sorted (map f ys)"
    "x \<in> set xs \<Longrightarrow> x \<notin> set ys \<Longrightarrow> length ys = m \<and> (\<forall>y\<in>set ys. f y \<le> f x)"
proof -
  show "length ys \<le> m" "sorted (map f ys)"
    using assms by (simp_all add: take_map [symmetric] sorted_wrt_take)
  assume x: "x \<in> set xs" "x \<notin> set ys"
  then have cut: "ys = take m xs" "m < length xs"
    using assms(2) by (auto split: if_splits)
  have "x \<in> set (drop m xs)"
    using x cut(1) append_take_drop_id [of m xs] by (metis Un_iff set_append)
  moreover have "sorted (map f (take m xs) @ map f (drop m xs))"
    using assms(1) by (metis append_take_drop_id map_append)
  ultimately show "length ys = m \<and> (\<forall>y\<in>set ys. f y \<le> f x)"
    using cut by (auto simp: sorted_append)
qed

lemma Reconcile_push_cut:
  shows "length (fst (Reconcile kv d mp mq)) \<le> mp" "sorted (map u_Key (fst (Reconcile kv d mp mq)))"
    "toPush kv d k e \<Longrightarrow> entryUpdate k e \<notin> set (fst (Reconcile kv d mp mq)) \<Longrightarrow>
       length (fst (Reconcile kv d mp mq)) = mp \<and> (\<forall>u\<in>set (fst (Reconcile kv d mp mq)). u_Key u \<le> k)"
proof -
  let ?xs = "sort_key u_Key (List.map_filter (pushOf kv) (d_Entries d) @ unseenUpdates kv d)"
  have ys: "fst (Reconcile kv d mp mq) = (if length ?xs > mp then take mp ?xs else ?xs)"
    by (simp add: Reconcile_def Let_def)
  note cut = cut_sorted [OF sorted_sort_key ys]
  show "length (fst (Reconcile kv d mp mq)) \<le> mp" "sorted (map u_Key (fst (Reconcile kv d mp mq)))"
    by (fact cut(1) cut(2))+
  assume "toPush kv d k e" and m: "entryUpdate k e \<notin> set (fst (Reconcile kv d mp mq))"
  then have "entryUpdate k e \<in> set ?xs"
    using set_push_all [of kv d] unfolding set_sort by blast
  then show "length (fst (Reconcile kv d mp mq)) = mp \<and> (\<forall>u\<in>set (fst (Reconcile kv d mp mq)). u_Key u \<le> k)"
    using cut(3) [OF _ m] by simp
qed

lemma Reconcile_pull_cut:
  shows "length (snd (Reconcile kv d mp mq)) \<le> mq" "sorted (snd (Reconcile kv d mp mq))"
    "toPull kv d k \<Longrightarrow> k \<notin> set (snd (Reconcile kv d mp mq)) \<Longrightarrow>
       length (snd (Reconcile kv d mp mq)) = mq \<and> (\<forall>k'\<in>set (snd (Reconcile kv d mp mq)). k' \<le> k)"
proof -
  let ?xs = "sort (List.map_filter (pullOf kv) (d_Entries d))"
  have ys: "snd (Reconcile kv d mp mq) = (if length ?xs > mq then take mq ?xs else ?xs)"
    by (simp add: Reconcile_def Let_def)
  have "sorted (map (\<lambda>k. k) ?xs)"
    by simp
  note cut = cut_sorted [OF this ys]
  show "length (snd (Reconcile kv d mp mq)) \<le> mq" "sorted (snd (Reconcile kv d mp mq))"
    using cut(1,2) by simp_all
  assume "toPull kv d k" and m: "k \<notin> set (snd (Reconcile kv d mp mq))"
  then have "k \<in> set ?xs"
    using set_pull_all [of kv d] unfolding set_sort by blast
  then show "length (snd (Reconcile kv d mp mq)) = mq \<and> (\<forall>k'\<in>set (snd (Reconcile kv d mp mq)). k' \<le> k)"
    using cut(3) [OF _ m] by simp
qed

lemma set_UpdatesFor: "set (UpdatesFor kv ks) = {entryUpdate k e |k e. k \<in> set ks \<and> fmlookup (kv_store kv) k = Some e}"
  by (auto simp: UpdatesFor_def set_map_filter)

section \<open>Applying a batch\<close>

lemma applyAll_view:
  "unlimited kv \<Longrightarrow> list_all holdable us \<Longrightarrow>
   kv_view t (applyAll kv us) = foldl (lww_join fst) (kv_view t kv) (map (\<lambda>u. (u_Key u, update_view t u)) us)"
proof (induction us arbitrary: kv)
  case (Cons u us)
  have "unlimited (fst (ApplyWithReason kv u))"
    using Cons.prems(1) by (simp add: unlimited_def)
  then show ?case
    using Cons by (simp add: applyAll_def kv_view_Apply)
qed (simp add: applyAll_def)

lemma lww_join_idem: "lww_join ver (lww_join ver m (k, p)) (k, p) k = lww_join ver m (k, p) k"
  by (simp add: lww_join_apply split: option.split)

lemma lww_join_cong: "m k = m' k \<Longrightarrow> lww_join ver m (k, p) k = lww_join ver m' (k, p) k"
  by (simp add: lww_join_apply)

lemma lww_fold_key:
  "\<forall>q. (k, q) \<in> set us \<longrightarrow> q = p \<Longrightarrow>
   foldl (lww_join ver) m us k = (if (k, p) \<in> set us then lww_join ver m (k, p) k else m k)"
proof (induction us arbitrary: m)
  case (Cons u us)
  obtain k' q where u: "u = (k', q)"
    by (cases u)
  have IH: "foldl (lww_join ver) (lww_join ver m u) us k =
      (if (k, p) \<in> set us then lww_join ver (lww_join ver m u) (k, p) k else lww_join ver m u k)"
    using Cons by simp
  show ?case
  proof (cases "k' = k")
    case True
    then have "u = (k, p)"
      using Cons.prems u by simp
    then show ?thesis
      using IH by (simp add: lww_join_idem)
  next
    case False
    then have "lww_join ver m u k = m k"
      by (simp add: u lww_join_apply)
    then show ?thesis
      using IH False lww_join_cong [of "lww_join ver m u" k m ver p] by (auto simp: u)
  qed
qed simp

text \<open>What a batch of entries of another store does to one key.\<close>

lemma applyAll_entries:
  assumes "unlimited kv" "list_all holdable us" "set us = {entryUpdate k e |k e. f k = Some e}"
  shows "kv_view t (applyAll kv us) k =
    (case f k of Some e \<Rightarrow> lww_join fst (kv_view t kv) (k, entry_view t e) k | None \<Rightarrow> kv_view t kv k)"
proof -
  let ?vs = "map (\<lambda>u. (u_Key u, update_view t u)) us"
  have vs: "(k, q) \<in> set ?vs \<longleftrightarrow> (\<exists>e. f k = Some e \<and> q = entry_view t e)" for q
    by (force simp: assms(3) image_iff)
  show ?thesis
  proof (cases "f k")
    case None
    then show ?thesis
      using lww_fold_key [of k ?vs undefined fst "kv_view t kv"] vs assms(1,2)
      by (simp add: applyAll_view del: set_map)
  next
    case (Some e)
    then show ?thesis
      using lww_fold_key [of k ?vs "entry_view t e" fst "kv_view t kv"] vs assms(1,2)
      by (simp add: applyAll_view del: set_map)
  qed
qed

section \<open>One exchange\<close>

text \<open>
  One complete exchange between a store \<open>A\<close> and the store \<open>B\<close> of its peer: the digest, the push
  \<open>A\<close> applies, and the answer to the pull request \<open>B\<close> applies.
\<close>

definition aeExchange :: "nat \<Rightarrow> nat \<Rightarrow> Digest \<Rightarrow> kvStore \<times> kvStore \<Rightarrow> kvStore \<times> kvStore" where
  "aeExchange mp mq d = (\<lambda>(A, B).
     let (push, pull) = Reconcile B d mp mq;
         A' = applyAll A push
     in (A', applyAll B (UpdatesFor A' pull)))"

text \<open>The two stores may share keys, but one version of a key means one thing.\<close>

definition agree_on_versions :: "nanos \<Rightarrow> kvStore \<Rightarrow> kvStore \<Rightarrow> bool" where
  "agree_on_versions t A B \<longleftrightarrow> (\<forall>k p q. kv_view t A k = Some p \<longrightarrow> kv_view t B k = Some q \<longrightarrow>
     fst p = fst q \<longrightarrow> p = q)"

definition shippable_store :: "kvStore \<Rightarrow> bool" where
  "shippable_store kv \<longleftrightarrow> unlimited kv \<and> fmpred (\<lambda>k e. holdable (entryUpdate k e)) (kv_store kv)"

text \<open>The entry of \<open>B\<close> a digest makes it push for a key, if any.\<close>

definition pushEntry :: "kvStore \<Rightarrow> Digest \<Rightarrow> string \<Rightarrow> kvEntry option" where
  "pushEntry kv d k = (case fmlookup (kv_store kv) k of
     Some e \<Rightarrow> if toPush kv d k e then Some e else None | None \<Rightarrow> None)"

lemma pushEntry_iff: "pushEntry kv d k = Some e \<longleftrightarrow> toPush kv d k e"
  by (auto simp: pushEntry_def toPush_def split: option.split)

lemma push_view:
  assumes "unlimited A" "shippable_store B" "length (fst (Reconcile B d mp mq)) < mp"
  shows "kv_view t (applyAll A (fst (Reconcile B d mp mq))) k =
    (case pushEntry B d k of
       Some b \<Rightarrow> lww_join fst (kv_view t A) (k, entry_view t b) k | None \<Rightarrow> kv_view t A k)"
proof (rule applyAll_entries)
  note us = Reconcile_push_exact [OF assms(3)]
  show "set (fst (Reconcile B d mp mq)) = {entryUpdate k e |k e. pushEntry B d k = Some e}"
    by (simp add: us pushEntry_iff)
  show "list_all holdable (fst (Reconcile B d mp mq))"
    using assms(2) us by (auto simp: list_all_iff shippable_store_def toPush_def fmpred_iff)
qed (rule assms(1))

lemma push_holdable: "shippable_store B \<Longrightarrow> list_all holdable (fst (Reconcile B d mp mq))"
  by (auto simp: list_all_iff shippable_store_def toPush_def fmpred_iff dest!: Reconcile_push_subset)

lemma applyAll_shippable:
  "shippable_store kv \<Longrightarrow> list_all holdable us \<Longrightarrow> shippable_store (applyAll kv us)"
proof (induction us arbitrary: kv)
  case (Cons u us)
  have "shippable_store (fst (ApplyWithReason kv u))"
    using Cons.prems holdable_applyEntry [of u]
    by (auto simp: shippable_store_def unlimited_def ApplyWithReason_store intro: fmpred_upd)
  then show ?case
    using Cons by (simp add: applyAll_def)
qed (simp add: applyAll_def)

lemma UpdatesFor_holdable: "shippable_store A \<Longrightarrow> list_all holdable (UpdatesFor A ks)"
  by (auto simp: list_all_iff set_UpdatesFor fmpred_iff shippable_store_def)

lemma pull_view:
  assumes "unlimited B" "shippable_store A"
  shows "kv_view t (applyAll B (UpdatesFor A pull)) k =
    (case (if k \<in> set pull then kv_view t A k else None) of
       Some p \<Rightarrow> lww_join fst (kv_view t B) (k, p) k | None \<Rightarrow> kv_view t B k)"
proof -
  have us: "set (UpdatesFor A pull) =
      {entryUpdate k e |k e. (if k \<in> set pull then fmlookup (kv_store A) k else None) = Some e}"
    by (auto simp: set_UpdatesFor split: if_splits)
  show ?thesis
    using applyAll_entries [OF assms(1) UpdatesFor_holdable [OF assms(2)] us, of t k]
    by (simp add: kv_view_def split: option.split)
qed

text \<open>What a digest of \<open>A\<close> makes \<open>B\<close> do, key by key.\<close>

lemma digest_key_iff:
  assumes "0 < limit"
  shows "k \<in> kvn_Key ` set (d_Entries (StoreDigest A cur limit)) \<longleftrightarrow>
    fmlookup (kv_store A) k \<noteq> None
    \<and> inDigestRange k cur (d_Hi (StoreDigest A cur limit))"
  using StoreDigest_complete [of A k _ limit cur] StoreDigest_in_range [of k A cur limit]
    StoreDigest_entry [of _ A cur limit] assms by fastforce

lemma toPush_digest:
  assumes "0 < limit"
  shows "toPush B (StoreDigest A cur limit) k b \<longleftrightarrow> fmlookup (kv_store B) k = Some b
    \<and> inDigestRange k cur (d_Hi (StoreDigest A cur limit))
    \<and> (case fmlookup (kv_store A) k of None \<Rightarrow> True | Some a \<Rightarrow> e_Version a < e_Version b)"
  using digest_key_iff [OF assms, of k A cur] StoreDigest_entry [of _ A cur limit]
  by (fastforce simp: toPush_def split: option.splits)

lemma toPull_digest:
  assumes "0 < limit"
  shows "toPull B (StoreDigest A cur limit) k \<longleftrightarrow>
    inDigestRange k cur (d_Hi (StoreDigest A cur limit))
    \<and> (\<exists>a. fmlookup (kv_store A) k = Some a
         \<and> (case fmlookup (kv_store B) k of None \<Rightarrow> True | Some b \<Rightarrow> e_Version b < e_Version a))"
  using digest_key_iff [OF assms, of k A cur] StoreDigest_entry [of _ A cur limit]
  by (fastforce simp: toPull_def split: option.splits)

text \<open>The newer of two views of a key.\<close>

definition newer_view :: "view option \<Rightarrow> view option \<Rightarrow> view option" where
  "newer_view x y = (case x of None \<Rightarrow> y | Some p \<Rightarrow>
     (case y of None \<Rightarrow> x | Some q \<Rightarrow> if fst p < fst q then y else x))"

lemma exchange_view:
  fixes A B :: kvStore and cur :: string and limit mp mq :: nat
  defines "d \<equiv> StoreDigest A cur limit"
  assumes "shippable_store A" "shippable_store B" "agree_on_versions t A B"
    and "0 < limit" "limit \<le> mq" "length (fst (Reconcile B d mp mq)) < mp"
    and "aeExchange mp mq d (A, B) = (A', B')"
  shows "kv_view t A' k = (if inDigestRange k cur (d_Hi d)
      then newer_view (kv_view t A k) (kv_view t B k) else kv_view t A k)"
    "kv_view t B' k = (if inDigestRange k cur (d_Hi d)
      then newer_view (kv_view t A k) (kv_view t B k) else kv_view t B k)"
    "shippable_store A'" "shippable_store B'"
proof -
  have un: "unlimited A" "unlimited B"
    using assms(2,3) by (auto simp: shippable_store_def)
  have A': "A' = applyAll A (fst (Reconcile B d mp mq))"
    and B': "B' = applyAll B (UpdatesFor A' (snd (Reconcile B d mp mq)))"
    using assms(8) by (auto simp: aeExchange_def Let_def split: prod.splits)
  show shA: "shippable_store A'"
    unfolding A' using assms(2,3) by (simp add: applyAll_shippable push_holdable)
  then show "shippable_store B'"
    unfolding B' using assms(3) by (simp add: applyAll_shippable UpdatesFor_holdable)
  have ag: "entry_view t a = entry_view t b"
    if "fmlookup (kv_store A) k = Some a" "fmlookup (kv_store B) k = Some b" "e_Version a = e_Version b"
    for a b
    using that assms(4) [unfolded agree_on_versions_def, rule_format, of k "entry_view t a" "entry_view t b"]
    by (simp add: kv_view_def)
  note pushed = push_view [OF un(1) assms(3,7), folded A', of t k]
  have pulled: "k \<in> set (snd (Reconcile B d mp mq)) \<longleftrightarrow> toPull B d k"
    using Reconcile_pull_exact [of d mq B mp] StoreDigest_limit [of A cur limit] assms(6)
    by (simp add: d_def)
  note toPu = toPush_digest [where A = A and cur = cur, OF assms(5), folded d_def]
    toPull_digest [where A = A and cur = cur, OF assms(5), folded d_def]
  show vA: "kv_view t A' k = (if inDigestRange k cur (d_Hi d)
      then newer_view (kv_view t A k) (kv_view t B k) else kv_view t A k)"
    unfolding pushed pushEntry_def
    by (auto simp: kv_view_def toPu newer_view_def lww_join_apply split: option.splits)
  show "kv_view t B' k = (if inDigestRange k cur (d_Hi d)
      then newer_view (kv_view t A k) (kv_view t B k) else kv_view t B k)"
  proof (cases "fmlookup (kv_store A) k")
    case None
    then show ?thesis
      unfolding B' pull_view [OF un(2) shA] pulled toPu by (simp add: newer_view_def kv_view_def)
  next
    case a: (Some a)
    show ?thesis
    proof (cases "fmlookup (kv_store B) k")
      case None
      then show ?thesis
        unfolding B' pull_view [OF un(2) shA] pulled toPu vA
        by (simp add: newer_view_def kv_view_def a lww_join_apply)
    next
      case b: (Some b)
      then show ?thesis
        unfolding B' pull_view [OF un(2) shA] pulled toPu vA
        using ag [OF a b] by (simp add: newer_view_def kv_view_def a lww_join_apply not_less)
    qed
  qed
qed

section \<open>A sweep of the keyspace\<close>

text \<open>One round against a peer, the whole exchange included.\<close>

definition aeRound ::
  "aeBudgets \<Rightarrow> string \<Rightarrow> kvStore \<times> kvStore \<times> (string, string) fmap \<Rightarrow>
   kvStore \<times> kvStore \<times> (string, string) fmap" where
  "aeRound c target = (\<lambda>(A, B, cursors).
     let (cursors', d) = aeAdvance A (DigestBatch c) target cursors;
         (A', B') = aeExchange (MaxPush c) (MaxPull c) d (A, B)
     in (A', B', cursors'))"

definition cursorOf :: "(string, string) fmap \<Rightarrow> string \<Rightarrow> string" where
  "cursorOf cursors target = (case fmlookup cursors target of Some c \<Rightarrow> c | None \<Rightarrow> '''')"

lemma newer_view_dom: "newer_view x y = None \<longleftrightarrow> x = None \<and> y = None"
  by (auto simp: newer_view_def split: option.split)

lemma kv_view_dom: "kv_view t kv k = None \<longleftrightarrow> k \<notin> fmdom' (kv_store kv)"
  by (auto simp: kv_view_def fmdom'_notI dest: fmdom'_notD)

lemma agree_on_versions_newer:
  assumes "agree_on_versions t A B"
    and "\<And>k. kv_view t A' k = (if P k then newer_view (kv_view t A k) (kv_view t B k) else kv_view t A k)"
    and "\<And>k. kv_view t B' k = (if P k then newer_view (kv_view t A k) (kv_view t B k) else kv_view t B k)"
  shows "agree_on_versions t A' B'"
  using assms by (auto simp: agree_on_versions_def)

text \<open>A push is no longer than the store that pushes is large.\<close>

lemma map_filter_key_subset:
  assumes "\<And>x y. h x = Some y \<Longrightarrow> g y = f x"
  shows "g ` set (List.map_filter h xs) \<subseteq> f ` set xs"
  using assms by (auto simp: set_map_filter)

lemma distinct_map_filter_key:
  assumes "distinct (map f xs)" "\<And>x y. h x = Some y \<Longrightarrow> g y = f x"
  shows "distinct (map g (List.map_filter h xs))"
  using assms(1)
proof (induction xs)
  case (Cons x xs)
  then show ?case
    using map_filter_key_subset [of h g f xs] assms(2)
    by (cases "h x") auto
qed simp

lemma pushOf_key: "pushOf B x = Some y \<Longrightarrow> u_Key y = kvn_Key x"
  by (auto simp: pushOf_def split: option.splits if_splits)

lemma push_length:
  "length (fst (Reconcile B (StoreDigest A cur limit) mp mq)) \<le> card (fmdom' (kv_store B))"
proof -
  let ?d = "StoreDigest A cur limit"
  let ?p = "List.map_filter (pushOf B) (d_Entries ?d)" and ?q = "unseenUpdates B ?d"
  have dk: "distinct (map kvn_Key (d_Entries ?d))"
    by (simp add: StoreDigest_keys)
  have p: "distinct (map u_Key ?p)" "set (map u_Key ?p) \<subseteq> kvn_Key ` set (d_Entries ?d)"
    using distinct_map_filter_key [OF dk, of "pushOf B" u_Key, OF pushOf_key]
      map_filter_key_subset [of "pushOf B" u_Key kvn_Key, OF pushOf_key] by simp_all
  have q: "map u_Key ?q = filter (\<lambda>k. k \<notin> set (map kvn_Key (d_Entries ?d)) \<and>
      inDigestRange k (d_Lo ?d) (d_Hi ?d)) (fmkeys (kv_store B))"
    by (simp add: unseenUpdates_def fmentries_def filter_map comp_def del: StoreDigest_simps)
  have "distinct (map u_Key (?p @ ?q))"
    using p q by auto
  moreover have "u_Key u \<in> fmdom' (kv_store B)" if "u \<in> set (?p @ ?q)" for u
    using that unfolding set_push_all by (auto simp: toPush_def intro: fmdom'I)
  then have "set (map u_Key (?p @ ?q)) \<subseteq> fmdom' (kv_store B)"
    by auto
  ultimately have "length (?p @ ?q) \<le> card (fmdom' (kv_store B))"
    by (metis card_mono distinct_card finite_fmdom' length_map)
  then show ?thesis
    by (auto simp: Reconcile_def Let_def)
qed

text \<open>What holds between the stores while a sweep is under way.\<close>

definition sweep_inv :: "nanos \<Rightarrow> aeBudgets \<Rightarrow> kvStore \<Rightarrow> kvStore \<Rightarrow> bool" where
  "sweep_inv t c A B \<longleftrightarrow> shippable_store A \<and> shippable_store B \<and> agree_on_versions t A B
     \<and> 2 \<le> DigestBatch c \<and> DigestBatch c \<le> MaxPull c
     \<and> card (fmdom' (kv_store A) \<union> fmdom' (kv_store B)) < MaxPush c"

lemma aeRound_view:
  assumes "sweep_inv t c A B" "aeRound c target (A, B, cs) = (A', B', cs')"
  defines "d \<equiv> StoreDigest A (cursorOf cs target) (DigestBatch c)"
  shows "kv_view t A' k = (if inDigestRange k (cursorOf cs target) (d_Hi d)
      then newer_view (kv_view t A k) (kv_view t B k) else kv_view t A k)"
    "kv_view t B' k = (if inDigestRange k (cursorOf cs target) (d_Hi d)
      then newer_view (kv_view t A k) (kv_view t B k) else kv_view t B k)"
    "sweep_inv t c A' B'"
    "cs' = (if d_Hi d = '''' then fmdrop target cs
       else if d_Entries d \<noteq> [] then fmupd target (kvn_Key (last (d_Entries d))) cs else cs)"
proof -
  have inv: "shippable_store A" "shippable_store B" "agree_on_versions t A B"
      "0 < DigestBatch c" "DigestBatch c \<le> MaxPull c"
    using assms(1) by (auto simp: sweep_inv_def)
  have ex: "aeExchange (MaxPush c) (MaxPull c) d (A, B) = (A', B')" and
    cs': "cs' = (if d_Hi d = '''' then fmdrop target cs
       else if d_Entries d \<noteq> [] then fmupd target (kvn_Key (last (d_Entries d))) cs else cs)"
    using assms(2) by (auto simp: aeRound_def aeAdvance_def Let_def d_def cursorOf_def split: prod.splits)
  have "card (fmdom' (kv_store B)) \<le> card (fmdom' (kv_store A) \<union> fmdom' (kv_store B))"
    by (rule card_mono) auto
  then have len: "length (fst (Reconcile B d (MaxPush c) (MaxPull c))) < MaxPush c"
    using assms(1) push_length [of B A "cursorOf cs target" "DigestBatch c" "MaxPush c" "MaxPull c"]
    by (simp add: sweep_inv_def d_def)
  note ev = exchange_view [OF inv len [unfolded d_def] ex [unfolded d_def], folded d_def]
  show vA: "kv_view t A' k = (if inDigestRange k (cursorOf cs target) (d_Hi d)
      then newer_view (kv_view t A k) (kv_view t B k) else kv_view t A k)" for k
    by (rule ev(1))
  show vB: "kv_view t B' k = (if inDigestRange k (cursorOf cs target) (d_Hi d)
      then newer_view (kv_view t A k) (kv_view t B k) else kv_view t B k)" for k
    by (rule ev(2))
  have dom: "fmdom' (kv_store A') \<union> fmdom' (kv_store B') = fmdom' (kv_store A) \<union> fmdom' (kv_store B)"
  proof -
    have "k \<in> fmdom' (kv_store A') \<union> fmdom' (kv_store B') \<longleftrightarrow>
        k \<in> fmdom' (kv_store A) \<union> fmdom' (kv_store B)" for k
      using kv_view_dom [of t A' k] kv_view_dom [of t B' k] kv_view_dom [of t A k]
        kv_view_dom [of t B k] vA [of k] vB [of k]
      by (auto simp: newer_view_dom split: if_splits)
    then show ?thesis
      by blast
  qed
  show "sweep_inv t c A' B'"
    using assms(1) ev(3,4) agree_on_versions_newer [OF inv(3) vA vB] dom by (simp add: sweep_inv_def)
  show "cs' = (if d_Hi d = '''' then fmdrop target cs
       else if d_Entries d \<noteq> [] then fmupd target (kvn_Key (last (d_Entries d))) cs else cs)"
    by (rule cs')
qed

text \<open>A round that does not finish moves the cursor forward over at least one key.\<close>

lemma aeRound_progress:
  fixes A B :: kvStore and cs :: "(string, string) fmap" and target :: string
  defines "cur \<equiv> cursorOf cs target"
  defines "keys \<equiv> digestKeys A cur"
  assumes "sweep_inv t c A B" "aeRound c target (A, B, cs) = (A', B', cs')"
    and "DigestBatch c < length keys"
  shows "cursorOf cs' target \<noteq> ''''"
    "\<And>k. inDigestRange k cur (d_Hi (StoreDigest A cur (DigestBatch c))) \<longleftrightarrow>
        (cur < k \<or> cur = '''') \<and> k \<le> cursorOf cs' target"
    "length (digestKeys A' (cursorOf cs' target)) < length keys"
proof -
  let ?n = "DigestBatch c" and ?d = "StoreDigest A cur (DigestBatch c)"
  note av = aeRound_view [OF assms(3,4), folded cur_def]
  have n: "2 \<le> ?n"
    using assms(3) by (simp add: sweep_inv_def)
  have ks: "map kvn_Key (d_Entries ?d) = take ?n keys"
    by (simp add: StoreDigest_keys keys_def)
  then have ne: "d_Entries ?d \<noteq> []"
    using n assms(5) by (cases "d_Entries ?d") auto
  then have "kvn_Key (last (d_Entries ?d)) = last (take ?n keys)"
    by (metis ks last_map)
  then have cur': "cursorOf cs' target = last (take ?n keys)"
    using av(4) ne assms(5) by (simp add: cursorOf_def StoreDigest_Hi keys_def [symmetric])
  have last: "last (take ?n keys) = keys ! (?n - 1)"
    using n assms(5) by (subst last_conv_nth) auto
  have "keys ! 0 < keys ! (?n - 1)"
    using n assms(5) by (intro sorted_wrt_nth_less [of "(<)"]) (auto simp: keys_def strict_sorted_iff)
  then show ne': "cursorOf cs' target \<noteq> ''''"
    unfolding cur' last by auto
  show range: "inDigestRange k cur (d_Hi ?d) \<longleftrightarrow>
        (cur < k \<or> cur = '''') \<and> k \<le> cursorOf cs' target" for k
    using assms(5) by (auto simp: inDigestRange_def StoreDigest_Hi keys_def [symmetric] cur' less_snoc_zero)
  have in_keys: "cursorOf cs' target \<in> set keys"
    unfolding cur' last using n assms(5) by (intro nth_mem) simp
  have "k \<in> set keys - {cursorOf cs' target}" if "k \<in> set (digestKeys A' (cursorOf cs' target))" for k
  proof -
    have k: "k \<in> fmdom' (kv_store A')" "cursorOf cs' target < k"
      using that ne' by (auto simp: digestKeys_def)
    then have "\<not> inDigestRange k cur (d_Hi ?d)"
      using range [of k] by auto
    then have "k \<in> fmdom' (kv_store A)"
      using av(1) [of k] k(1) kv_view_dom [of t A' k] kv_view_dom [of t A k] by simp
    moreover have "cur < k \<or> cur = ''''"
      using in_keys k(2) by (auto simp: keys_def digestKeys_def)
    ultimately show ?thesis
      using k(2) by (auto simp: keys_def digestKeys_def)
  qed
  then have "set (digestKeys A' (cursorOf cs' target)) \<subset> set keys"
    using in_keys by blast
  then have "card (set (digestKeys A' (cursorOf cs' target))) < card (set keys)"
    by (rule psubset_card_mono [rotated]) simp
  then show "length (digestKeys A' (cursorOf cs' target)) < length keys"
    by (simp add: distinct_card keys_def)
qed

text \<open>A round that does finish covers everything beyond the cursor.\<close>

lemma aeRound_finish:
  assumes "sweep_inv t c A B" "aeRound c target (A, B, cs) = (A', B', cs')"
    and "\<not> DigestBatch c < length (digestKeys A (cursorOf cs target))"
    and "\<And>k. \<not> (cursorOf cs target < k \<or> cursorOf cs target = '''') \<Longrightarrow> kv_view t A k = kv_view t B k"
  shows "kv_view t A' = kv_view t B'" "fmlookup cs' target = None"
proof -
  note av = aeRound_view [OF assms(1,2)]
  have hi: "d_Hi (StoreDigest A (cursorOf cs target) (DigestBatch c)) = ''''"
    using assms(3) by (simp add: StoreDigest_Hi)
  show "fmlookup cs' target = None"
    using av(4) hi by simp
  show "kv_view t A' = kv_view t B'"
  proof
    fix k
    show "kv_view t A' k = kv_view t B' k"
      using av(1,2) [of k] hi assms(4) [of k] by (auto simp: inDigestRange_def)
  qed
qed

lemma ae_sweep_converges_aux:
  assumes "sweep_inv t c A B" "length (digestKeys A (cursorOf cs target)) \<le> n"
    and "\<And>k. \<not> (cursorOf cs target < k \<or> cursorOf cs target = '''') \<Longrightarrow> kv_view t A k = kv_view t B k"
  shows "\<exists>m A' B' cs'. 0 < m \<and> m \<le> Suc n \<and> (aeRound c target ^^ m) (A, B, cs) = (A', B', cs')
     \<and> kv_view t A' = kv_view t B' \<and> fmlookup cs' target = None"
  using assms
proof (induction n arbitrary: A B cs rule: less_induct)
  case (less n)
  obtain A1 B1 cs1 where r: "aeRound c target (A, B, cs) = (A1, B1, cs1)"
    by (metis prod.exhaust)
  show ?case
  proof (cases "DigestBatch c < length (digestKeys A (cursorOf cs target))")
    case False
    then show ?thesis
      using aeRound_finish [OF less.prems(1) r False less.prems(3)] r by (intro exI [of _ 1]) auto
  next
    case True
    note pr = aeRound_progress [OF less.prems(1) r True]
    note av = aeRound_view [OF less.prems(1) r]
    have lt: "length (digestKeys A1 (cursorOf cs1 target)) < n"
      using pr(3) less.prems(2) by simp
    have "kv_view t A1 k = kv_view t B1 k"
      if "\<not> (cursorOf cs1 target < k \<or> cursorOf cs1 target = '''')" for k
      using that av(1,2) [of k] pr(2) [of k] less.prems(3) [of k] by auto
    then obtain m A' B' cs' where m: "0 < m" "m \<le> Suc (length (digestKeys A1 (cursorOf cs1 target)))"
        "(aeRound c target ^^ m) (A1, B1, cs1) = (A', B', cs')"
        "kv_view t A' = kv_view t B'" "fmlookup cs' target = None"
      using less.IH [OF lt av(3) le_refl] by blast
    then show ?thesis
      using r lt by (intro exI [of _ "Suc m"]) (auto simp: funpow_swap1)
  qed
qed

section \<open>Batches\<close>

definition repairable :: "int \<Rightarrow> KVUpdate \<Rightarrow> bool" where
  "repairable maxValue u \<longleftrightarrow>
     \<not> (u_Action u = KVSet \<and> maxValue > 0 \<and> int (length (u_Value u)) > maxValue)"

definition batch_bytes :: "(KVUpdate \<Rightarrow> nat) \<Rightarrow> KVUpdate list \<Rightarrow> nat" where
  "batch_bytes encLen us = sum_list (map (\<lambda>u. encLen u + 1) us)"

definition batch_ok :: "(KVUpdate \<Rightarrow> nat) \<Rightarrow> KVUpdate list \<Rightarrow> bool" where
  "batch_ok encLen b \<longleftrightarrow> b \<noteq> [] \<and> length b \<le> batchEntries
     \<and> (batch_bytes encLen b \<le> batchBytes \<or> length b = 1)"

lemma repairBatches_concat:
  "concat (repairBatches encLen m us batch sz) = batch @ filter (repairable m) us"
  by (induction encLen m us batch sz rule: repairBatches.induct) (auto simp: repairable_def Let_def)

lemma repairBatches_ok:
  "batch = [] \<or> batch_ok encLen batch \<Longrightarrow>
   list_all (batch_ok encLen) (repairBatches encLen m us batch (batch_bytes encLen batch))"
proof (induction us arbitrary: batch)
  case (Cons u us)
  have one: "batch_ok encLen [u]"
    by (simp add: batch_ok_def batchEntries_def)
  have bytes: "batch_bytes encLen (batch @ [u]) = batch_bytes encLen batch + (encLen u + 1)"
    "batch_bytes encLen [u] = encLen u + 1"
    by (simp_all add: batch_bytes_def)
  let ?full = "batch \<noteq> [] \<and> (batchBytes < batch_bytes encLen batch + (encLen u + 1)
      \<or> batchEntries \<le> length batch)"
  have grow: "batch_ok encLen (batch @ [u])" if "\<not> ?full"
    using that Cons.prems bytes one by (auto simp: batch_ok_def)
  show ?case
  proof (cases "repairable m u")
    case False
    then show ?thesis
      using Cons.IH [OF Cons.prems] by (simp add: repairable_def)
  next
    case True
    then have eq: "repairBatches encLen m (u # us) batch (batch_bytes encLen batch) =
        (if ?full then batch # repairBatches encLen m us [u] (batch_bytes encLen [u])
         else repairBatches encLen m us (batch @ [u]) (batch_bytes encLen (batch @ [u])))"
      by (simp only: repairBatches.simps Let_def bytes repairable_def if_not_P simp_thms if_False)
    show ?thesis
      unfolding eq using Cons.IH [of "[u]"] Cons.IH [of "batch @ [u]"] one grow Cons.prems by (cases ?full) auto
  qed
qed auto

section \<open>Properties\<close>

text \<open>
  C15.  What reconciliation does with any digest.  It pushes at most its push budget of updates and pulls at most its
  pull budget of keys, both in key order.  Every update it pushes is an entry this store holds that the digest shows
  older, or does not mention though its range covers the key; every key it pulls is advertised newer or unknown here.
  What is owed and left out is left out because the budget is used up, and on smaller keys.  So a push shorter than
  its budget is complete, and a digest no longer than the pull budget gets a complete pull.
\<close>

theorem reconcile_exact:
  "length (fst (Reconcile kv d mp mq)) \<le> mp \<and> sorted (map u_Key (fst (Reconcile kv d mp mq)))
   \<and> length (snd (Reconcile kv d mp mq)) \<le> mq \<and> sorted (snd (Reconcile kv d mp mq))
   \<and> (\<forall>u. u \<in> set (fst (Reconcile kv d mp mq)) \<longrightarrow> (\<exists>k e. u = entryUpdate k e \<and> toPush kv d k e))
   \<and> (\<forall>k. k \<in> set (snd (Reconcile kv d mp mq)) \<longrightarrow> toPull kv d k)
   \<and> (\<forall>k e. toPush kv d k e \<and> entryUpdate k e \<notin> set (fst (Reconcile kv d mp mq)) \<longrightarrow>
        length (fst (Reconcile kv d mp mq)) = mp \<and> (\<forall>u\<in>set (fst (Reconcile kv d mp mq)). u_Key u \<le> k))
   \<and> (\<forall>k. toPull kv d k \<and> k \<notin> set (snd (Reconcile kv d mp mq)) \<longrightarrow>
        length (snd (Reconcile kv d mp mq)) = mq \<and> (\<forall>k'\<in>set (snd (Reconcile kv d mp mq)). k' \<le> k))
   \<and> (length (fst (Reconcile kv d mp mq)) < mp \<longrightarrow>
        set (fst (Reconcile kv d mp mq)) = {entryUpdate k e |k e. toPush kv d k e})
   \<and> (length (d_Entries d) \<le> mq \<longrightarrow> set (snd (Reconcile kv d mp mq)) = {k. toPull kv d k})"
proof (intro conjI)
  show "\<forall>k e. toPush kv d k e \<and> entryUpdate k e \<notin> set (fst (Reconcile kv d mp mq)) \<longrightarrow>
      length (fst (Reconcile kv d mp mq)) = mp \<and> (\<forall>u\<in>set (fst (Reconcile kv d mp mq)). u_Key u \<le> k)"
    using Reconcile_push_cut(3) by blast
  show "\<forall>k. toPull kv d k \<and> k \<notin> set (snd (Reconcile kv d mp mq)) \<longrightarrow>
      length (snd (Reconcile kv d mp mq)) = mq \<and> (\<forall>k'\<in>set (snd (Reconcile kv d mp mq)). k' \<le> k)"
    using Reconcile_pull_cut(3) by blast
qed (simp_all add: Reconcile_push_cut Reconcile_pull_cut Reconcile_push_subset Reconcile_pull_subset Reconcile_push_exact Reconcile_pull_exact)

definition demo_digest :: Digest where
  "demo_digest = \<lparr>d_From = '''', d_Lo = '''', d_Hi = '''', d_Entries =
      [\<lparr>kvn_ExpiresAt = 0, kvn_Key = ''k'', kvn_Version = Version 2 ''n2'', kvn_Deleted = False,
        kvn_ValueHash = ''''\<rparr>]\<rparr>"

text \<open>A store of three keys the digest does not mention, with a push budget of two.\<close>

definition owing_store :: kvStore where
  "owing_store = (NewKVStore ''n2'' 0)\<lparr>kv_store := fmap_of_list
     (map (\<lambda>k. (k, \<lparr>e_Value = '''', e_Version = Version 1 ''n2'', e_Deleted = True, e_ExpiresAt = 0,
        e_DeletedAt = 1\<rparr>)) [''a'', ''b'', ''c''])\<rparr>"

lemma demo_reconcile:
  "map u_Key (fst (Reconcile owing_store demo_digest 2 1)) = [''a'', ''b'']" "snd (Reconcile owing_store demo_digest 2 1) = [''k'']"
proof -
  have ks: "fmkeys (kv_store owing_store) = [''a'', ''b'', ''c'']"
    by (simp add: owing_store_def fmkeys_def)
  show "map u_Key (fst (Reconcile owing_store demo_digest 2 1)) = [''a'', ''b'']"
    by (simp add: demo_digest_def Reconcile_def pushOf_def unseenUpdates_def fmentries_def ks inDigestRange_def Let_def)
      (simp add: owing_store_def entryUpdate_def)
  show "snd (Reconcile owing_store demo_digest 2 1) = [''k'']"
    by (simp add: demo_digest_def Reconcile_def pullOf_def Let_def) (simp add: owing_store_def)
qed

theorem reconcile_exact_witness:
  "map u_Key (fst (Reconcile owing_store demo_digest 2 1)) = [''a'', ''b'']
   \<and> (\<exists>e. toPush owing_store demo_digest ''a'' e) \<and> {k. toPull owing_store demo_digest k} = {''k''}"
proof -
  have "''a'' \<in> set (map u_Key (fst (Reconcile owing_store demo_digest 2 1)))"
    by (simp only: demo_reconcile(1) list.set_intros)
  then obtain u where u: "u \<in> set (fst (Reconcile owing_store demo_digest 2 1))" "u_Key u = ''a''"
    by auto
  obtain k e where "u = entryUpdate k e" "toPush owing_store demo_digest k e"
    using reconcile_exact [of owing_store demo_digest 2 1] u(1) by blast
  then have "\<exists>e. toPush owing_store demo_digest ''a'' e"
    using u(2) by auto
  moreover have "{k. toPull owing_store demo_digest k} = {''k''}"
    using reconcile_exact [of owing_store demo_digest 2 1] demo_reconcile(2) by (simp add: demo_digest_def)
  ultimately show ?thesis
    using demo_reconcile(1) by simp
qed

text \<open>
  C5.  Anti-entropy repairs everything between two stores without limits whose entries fit the wire and in which
  one version of a key stands for one content, with digests of at least two keys, no longer than the pull budget, and
  fewer keys altogether than the push budget: while nothing else writes and every message arrives, the pair agrees on
  every key, for every reader at \<open>t\<close>, after at most one round per key of the sender plus one, counted from the
  start of the keyspace; the cursor is then back at the start.  A round is the exchange of digest, pushes and pulls
  at the level of the stores; that the batches a push travels in carry exactly its updates is
  \<open>repair_batches_correct\<close>.
\<close>

theorem ae_sweep_converges:
  assumes "sweep_inv t c A B" "fmlookup cs target = None"
  shows "\<exists>m A' B' cs'. m \<le> Suc (length (fmkeys (kv_store A)))
     \<and> (aeRound c target ^^ m) (A, B, cs) = (A', B', cs')
     \<and> kv_view t A' = kv_view t B' \<and> fmlookup cs' target = None"
proof -
  have cur: "cursorOf cs target = ''''"
    using assms(2) by (simp add: cursorOf_def)
  have "length (digestKeys A (cursorOf cs target)) \<le> length (fmkeys (kv_store A))"
    by (simp add: digestKeys_def)
  then show ?thesis
    using ae_sweep_converges_aux [OF assms(1), of cs target] cur by fastforce
qed

definition demo_budgets :: aeBudgets where
  "demo_budgets = budgetDefaults \<lparr>DigestBatch = 0, MaxPush = 0, MaxPull = 0\<rparr>"

theorem ae_sweep_converges_witness:
  "\<exists>m A' B' cs'. (aeRound demo_budgets ''p'' ^^ m) (demo_store, NewKVStore ''n2'' 0, fmempty) = (A', B', cs')
     \<and> kv_view 0 A' = kv_view 0 B'"
proof -
  have st: "kv_store demo_store = fmupd ''k'' \<lparr>e_Value = ''v'', e_Version = Version 1 ''n1'',
     e_Deleted = False, e_ExpiresAt = 0, e_DeletedAt = 0\<rparr> fmempty"
    by (simp add: eval_store)
  have "holdable (entryUpdate ''k'' \<lparr>e_Value = ''v'', e_Version = Version 1 ''n1'',
     e_Deleted = False, e_ExpiresAt = 0, e_DeletedAt = 0\<rparr>)"
    by (simp add: holdable_def entryUpdate_def representable_def EscapedLen_def escapedLenFrom.simps
      asciiEscapeLen_def byte_def MaxReplicableValueBytes_eq)
  then have "shippable_store demo_store"
    by (simp add: shippable_store_def st fmpred_upd)
  moreover have "shippable_store (NewKVStore ''n2'' 0)" "agree_on_versions 0 demo_store (NewKVStore ''n2'' 0)"
    by (simp_all add: shippable_store_def unlimited_def NewKVStore_def agree_on_versions_def kv_view_def)
  ultimately have "sweep_inv 0 demo_budgets demo_store (NewKVStore ''n2'' 0)"
    by (simp add: st sweep_inv_def demo_budgets_def budgetDefaults_def NewKVStore_def)
  then show ?thesis
    using ae_sweep_converges [of 0 demo_budgets demo_store "NewKVStore ''n2'' 0" fmempty "''p''"] by auto
qed

text \<open>
  The batches of a repair are exactly the updates the peer's value limit lets through, in
  order; each is non-empty, has at most \<open>batchEntries\<close> entries, and stays within \<open>batchBytes\<close> unless
  it is a single update that is larger by itself.
\<close>

theorem repair_batches_correct:
  "concat (repairBatches encLen m us [] 0) = filter (repairable m) us
   \<and> list_all (batch_ok encLen) (repairBatches encLen m us [] 0)"
  using repairBatches_ok [of "[]" encLen m us]
  by (simp add: repairBatches_concat batch_bytes_def)

text \<open>
  The budgets of a configured node: the digest never exceeds either repair budget, so the
  pull a digest provokes at a peer with the same configuration is never cut short.
\<close>

theorem budget_pull_never_truncated:
  "DigestBatch (budgetDefaults c) \<le> min (MaxPush (budgetDefaults c)) (MaxPull (budgetDefaults c))
   \<and> 0 < DigestBatch (budgetDefaults c)
   \<and> set (snd (Reconcile B (StoreDigest A cur (DigestBatch (budgetDefaults c)))
         (MaxPush (budgetDefaults c)) (MaxPull (budgetDefaults c)))) =
       {k. toPull B (StoreDigest A cur (DigestBatch (budgetDefaults c))) k}"
proof -
  have b: "DigestBatch (budgetDefaults c) \<le> min (MaxPush (budgetDefaults c)) (MaxPull (budgetDefaults c))"
      "0 < DigestBatch (budgetDefaults c)"
    by (auto simp: budgetDefaults_def Let_def)
  moreover have "length (d_Entries (StoreDigest A cur (DigestBatch (budgetDefaults c)))) \<le> MaxPull (budgetDefaults c)"
    using StoreDigest_limit [of A cur "DigestBatch (budgetDefaults c)"] b(1) by linarith
  ultimately show ?thesis
    using Reconcile_pull_exact by blast
qed

text \<open>
  The push budget is not covered by that clamp: a digest of one entry can make the peer owe
  more pushes than the budget, when it holds several keys the sender lacks inside the range; the
  rest is left for a later sweep.
\<close>

lemma push_budget_can_truncate:
  "let c = budgetDefaults \<lparr>DigestBatch = 2, MaxPush = 2, MaxPull = 2\<rparr>;
       d = StoreDigest (NewKVStore ''n1'' 0) '''' (DigestBatch c)
   in map u_Key (fst (Reconcile owing_store d (MaxPush c) (MaxPull c))) = [''a'', ''b'']
     \<and> toPush owing_store d ''c'' (the (fmlookup (kv_store owing_store) ''c''))"
proof -
  have ks: "fmkeys (kv_store owing_store) = [''a'', ''b'', ''c'']"
    by (simp add: owing_store_def fmkeys_def)
  have d: "StoreDigest (NewKVStore ''n1'' 0) '''' 2 = \<lparr>d_From = '''', d_Lo = '''', d_Hi = '''', d_Entries = []\<rparr>"
    by (simp add: StoreDigest_def NewKVStore_def Let_def)
  show ?thesis
    by (simp add: budgetDefaults_def d Let_def Reconcile_def unseenUpdates_def fmentries_def ks
        inDigestRange_def toPush_def) (simp add: owing_store_def entryUpdate_def)
qed

text \<open>
  A digest batch of one key never gets past the empty key: the cursor it leaves is the empty
  string, which means the start, so the next round sends the same digest again.
\<close>

definition empty_key_store :: kvStore where
  "empty_key_store = (NewKVStore ''n1'' 0)\<lparr>kv_store := fmap_of_list
     (map (\<lambda>k. (k, \<lparr>e_Value = '''', e_Version = Version 1 ''n1'', e_Deleted = True, e_ExpiresAt = 0,
        e_DeletedAt = 1\<rparr>)) ['''', ''b''])\<rparr>"

lemma empty_key_stalls_cursor:
  "snd (aeAdvance empty_key_store 1 ''p'' (((\<lambda>cs. fst (aeAdvance empty_key_store 1 ''p'' cs)) ^^ n) fmempty))
     = StoreDigest empty_key_store '''' 1
   \<and> map kvn_Key (d_Entries (StoreDigest empty_key_store '''' 1)) = ['''']"
proof -
  let ?cs = "((\<lambda>cs. fst (aeAdvance empty_key_store 1 ''p'' cs)) ^^ n) fmempty"
  have ks: "digestKeys empty_key_store '''' = ['''', ''b'']"
    by (simp add: empty_key_store_def fmkeys_def digestKeys_def)
  have hi: "d_Hi (StoreDigest empty_key_store '''' 1) \<noteq> ''''"
    by (simp add: StoreDigest_Hi ks)
  have keys: "map kvn_Key (d_Entries (StoreDigest empty_key_store '''' 1)) = ['''']"
    by (simp add: StoreDigest_keys ks)
  then have last: "kvn_Key (last (d_Entries (StoreDigest empty_key_store '''' 1))) = ''''"
    by (metis last.simps last_map list.map_disc_iff not_Cons_self2)
  have cur: "cursorOf ?cs ''p'' = ''''"
  proof (induction n)
    case (Suc n)
    then show ?case
      using hi last by (auto simp: aeAdvance_def Let_def cursorOf_def)
  qed (simp add: cursorOf_def)
  then show ?thesis
    using keys by (simp add: aeAdvance_def Let_def cursorOf_def)
qed

end
