(* ===== verification/Codec.thy ===== *)
theory Codec
  imports Wire
begin

text \<open>
  Framing, authentication and replay protection (\<open>pkg/proto/codec.go\<close>).

  A frame is a list of bytes.  HMAC-SHA256 is the parameter \<open>hmac\<close> (key, message), of which only
  the output length matters here, and JSON marshalling and the random source are arguments of
  \<open>Encode\<close>: the body and the nonce they returned, or their failure.  \<open>lastPrune\<close> is \<open>None\<close> for the
  zero \<open>time.Time\<close> of a new codec, which lies further back than any skew.  Time differences are
  exact: where \<open>time.Time.Sub\<close> saturates, the difference is beyond every skew on the same side.
\<close>

type_synonym bytes = "8 word list"

section \<open>Big-endian integers\<close>

fun beBytes :: "nat \<Rightarrow> nat \<Rightarrow> bytes" where
  "beBytes 0 x = []"
| "beBytes (Suc n) x = beBytes n (x div 256) @ [word_of_nat x]"

definition beVal :: "bytes \<Rightarrow> nat" where
  "beVal bs = foldl (\<lambda>a b. a * 256 + unat b) 0 bs"

definition PutUint64 :: "u64 \<Rightarrow> bytes" where
  "PutUint64 w = beBytes 8 (unat w)"

definition Uint64 :: "bytes \<Rightarrow> u64" where
  "Uint64 bs = word_of_nat (beVal bs)"

lemma length_beBytes [simp]: "length (beBytes n x) = n"
  by (induction n arbitrary: x) auto

lemma length_PutUint64 [simp]: "length (PutUint64 w) = 8"
  by (simp add: PutUint64_def)

lemma beVal_beBytes: "beVal (beBytes n x) = x mod 256 ^ n"
proof (induction n arbitrary: x)
  case (Suc n)
  have "unat (word_of_nat x :: 8 word) = x mod 256"
    by (simp add: unat_of_nat)
  then have "beVal (beBytes (Suc n) x) = (x div 256 mod 256 ^ n) * 256 + x mod 256"
    using Suc by (simp add: beVal_def)
  also have "\<dots> = x mod 256 ^ Suc n"
    by (simp add: mod_mult2_eq)
  finally show ?case .
qed (simp add: beVal_def)

lemma Uint64_PutUint64 [simp]: "Uint64 (PutUint64 w) = w"
proof -
  have "unat w < 2 ^ LENGTH(64)"
    by (rule unsigned_less)
  then show ?thesis
    by (simp add: Uint64_def PutUint64_def beVal_beBytes)
qed

section \<open>The codec\<close>

definition nonceLen :: nat where "nonceLen = 8"
definition tsLen :: nat where "tsLen = 8"
definition macLen :: nat where "macLen = 32"
definition headerLen :: nat where "headerLen = 1 + nonceLen + tsLen + macLen"

lemmas frame_sizes = nonceLen_def tsLen_def macLen_def headerLen_def

definition DefaultSkew :: nanos where
  "DefaultSkew = 30 * second"

definition str_bytes :: "string \<Rightarrow> bytes" where
  "str_bytes s = map of_char s"

definition keyDomain :: string where
  "keyDomain = ''rezoagwe/wire/v2''"

definition DefaultCluster :: string where
  "DefaultCluster = ''rezoagwe''"

datatype codecError = ErrShortFrame | ErrBadMAC | ErrClockSkew | ErrReplay

record codec =
  c_key :: bytes
  c_skew :: nanos
  c_seen :: "(bytes, nanos) fmap"
  c_lastPrune :: "nanos option"

definition DeriveKey :: "(bytes \<Rightarrow> bytes \<Rightarrow> bytes) \<Rightarrow> string \<Rightarrow> string \<Rightarrow> bytes" where
  "DeriveKey hmac psk cluster =
     (let cluster' = (if cluster = '''' then DefaultCluster else cluster)
      in hmac (str_bytes psk) (str_bytes keyDomain @ [0] @ str_bytes cluster'))"

definition NewCodec :: "(bytes \<Rightarrow> bytes \<Rightarrow> bytes) \<Rightarrow> string \<Rightarrow> string \<Rightarrow> codec" where
  "NewCodec hmac psk cluster = \<lparr>c_key = DeriveKey hmac psk cluster, c_skew = DefaultSkew,
     c_seen = fmempty, c_lastPrune = None\<rparr>"

definition codec_tag :: "(bytes \<Rightarrow> bytes \<Rightarrow> bytes) \<Rightarrow> codec \<Rightarrow> 8 word \<Rightarrow> bytes \<Rightarrow> bytes \<Rightarrow> bytes \<Rightarrow> bytes" where
  "codec_tag hmac c kind nonce ts body = hmac (c_key c) ([kind] @ nonce @ ts @ body)"

definition Encode ::
  "(bytes \<Rightarrow> bytes \<Rightarrow> bytes) \<Rightarrow> codec \<Rightarrow> nanos \<Rightarrow> MessageKind \<Rightarrow> bytes option \<Rightarrow> bytes option \<Rightarrow> bytes option"
  where
  "Encode hmac c now kind marshalled random = (case marshalled of
     None \<Rightarrow> None
   | Some body \<Rightarrow> (case random of
       None \<Rightarrow> None
     | Some nonce \<Rightarrow>
         let ts = PutUint64 (word_of_int (unix now))
         in Some ([kind] @ nonce @ ts @ codec_tag hmac c kind nonce ts body @ body)))"

definition prune :: "nanos \<Rightarrow> codec \<Rightarrow> codec" where
  "prune now c =
     (if (case c_lastPrune c of None \<Rightarrow> True | Some p \<Rightarrow> now - p > c_skew c)
      then c\<lparr>c_seen := fmfilter (\<lambda>k. \<not> the (fmlookup (c_seen c) k) < now - 2 * c_skew c) (c_seen c),
             c_lastPrune := Some now\<rparr>
      else c)"

definition remember :: "bytes \<Rightarrow> nanos \<Rightarrow> codec \<Rightarrow> codec \<times> bool" where
  "remember nonce now c =
     (let c1 = prune now c in
      if fmlookup (c_seen c1) nonce \<noteq> None then (c1, False)
      else (c1\<lparr>c_seen := fmupd nonce now (c_seen c1)\<rparr>, True))"

text \<open>The five fields of a frame that is long enough.\<close>

definition frame_kind :: "bytes \<Rightarrow> 8 word" where "frame_kind f = f ! 0"
definition frame_nonce :: "bytes \<Rightarrow> bytes" where "frame_nonce f = take nonceLen (drop 1 f)"
definition frame_tsBytes :: "bytes \<Rightarrow> bytes" where "frame_tsBytes f = take tsLen (drop (1 + nonceLen) f)"
definition frame_mac :: "bytes \<Rightarrow> bytes" where "frame_mac f = take macLen (drop (1 + nonceLen + tsLen) f)"
definition frame_body :: "bytes \<Rightarrow> bytes" where "frame_body f = drop headerLen f"

definition frame_ts :: "bytes \<Rightarrow> nanos" where
  "frame_ts f = sint (Uint64 (frame_tsBytes f)) * second"

definition Decode ::
  "(bytes \<Rightarrow> bytes \<Rightarrow> bytes) \<Rightarrow> codec \<Rightarrow> nanos \<Rightarrow> bytes \<Rightarrow> codec \<times> (codecError + (MessageKind \<times> bytes))" where
  "Decode hmac c now frame =
     (if length frame < headerLen then (c, Inl ErrShortFrame)
      else if frame_mac frame \<noteq>
          codec_tag hmac c (frame_kind frame) (frame_nonce frame) (frame_tsBytes frame) (frame_body frame)
        then (c, Inl ErrBadMAC)
      else
        let delta = now - frame_ts frame in
        if delta > c_skew c \<or> delta < - c_skew c then (c, Inl ErrClockSkew)
        else
          let (c', fresh) = remember (frame_nonce frame) now c in
          if \<not> fresh then (c', Inl ErrReplay)
          else (c', Inr (frame_kind frame, frame_body frame)))"

definition DecodeInto ::
  "(bytes \<Rightarrow> bytes \<Rightarrow> bytes) \<Rightarrow> (bytes \<Rightarrow> 'a option) \<Rightarrow> codec \<Rightarrow> nanos \<Rightarrow> bytes \<Rightarrow>
   codec \<times> (codecError + (MessageKind \<times> 'a option))" where
  "DecodeInto hmac unmarshal c now frame = (case Decode hmac c now frame of
     (c', Inl err) \<Rightarrow> (c', Inl err)
   | (c', Inr (kind, body)) \<Rightarrow> (c', Inr (kind, unmarshal body)))"

section \<open>Lemmas\<close>

lemma prune_frame [simp]: "c_key (prune now c) = c_key c" "c_skew (prune now c) = c_skew c"
  by (simp_all add: prune_def)

lemma remember_frame [simp]:
  "c_key (fst (remember n now c)) = c_key c" "c_skew (fst (remember n now c)) = c_skew c"
  by (simp_all add: remember_def Let_def)

lemma prune_lookup:
  "fmlookup (c_seen c) n = Some s \<Longrightarrow> \<not> s < now - 2 * c_skew c \<Longrightarrow>
   fmlookup (c_seen (prune now c)) n = Some s"
  by (simp add: prune_def)

lemma prune_lookup_None: "fmlookup (c_seen c) n = None \<Longrightarrow> fmlookup (c_seen (prune now c)) n = None"
  by (simp add: prune_def)

lemma Decode_accepts:
  "Decode hmac c now f = (c', Inr (kind, body)) \<longleftrightarrow>
     headerLen \<le> length f
     \<and> frame_mac f = codec_tag hmac c (frame_kind f) (frame_nonce f) (frame_tsBytes f) (frame_body f)
     \<and> \<bar>now - frame_ts f\<bar> \<le> c_skew c
     \<and> remember (frame_nonce f) now c = (c', True)
     \<and> kind = frame_kind f \<and> body = frame_body f"
  by (auto simp: Decode_def Let_def abs_le_iff split: prod.splits if_splits)

lemma Decode_state:
  "fst (Decode hmac c now f) = c \<or> fst (Decode hmac c now f) = fst (remember (frame_nonce f) now c)"
  by (auto simp: Decode_def Let_def split: prod.split)

lemma Decode_frame [simp]:
  "c_key (fst (Decode hmac c now f)) = c_key c" "c_skew (fst (Decode hmac c now f)) = c_skew c"
  using Decode_state [of hmac c now f] by auto

section \<open>Replay protection\<close>

text \<open>
  A frame is spent at time \<open>now\<close>: its nonce is remembered, and was recorded late enough that it
  outlives the frame's acceptance window; or that window is over.
\<close>

definition spent :: "bytes \<Rightarrow> nanos \<Rightarrow> codec \<Rightarrow> bool" where
  "spent f now c \<longleftrightarrow>
     (\<exists>s. fmlookup (c_seen c) (frame_nonce f) = Some s \<and> frame_ts f \<le> s + c_skew c)
     \<or> frame_ts f + c_skew c < now"

lemma spent_prune:
  assumes "spent f now c" "now \<le> now'"
  shows "spent f now' (prune now' c)"
proof (cases "frame_ts f + c_skew c < now'")
  case False
  then obtain s where s: "fmlookup (c_seen c) (frame_nonce f) = Some s" "frame_ts f \<le> s + c_skew c"
    using assms by (auto simp: spent_def)
  have "\<not> s < now' - 2 * c_skew c"
    using s(2) False by linarith
  then show ?thesis
    using s prune_lookup [OF s(1)] by (auto simp: spent_def)
qed (simp add: spent_def)

lemma spent_remember:
  assumes "spent f now c" "now \<le> now'"
  shows "spent f now' (fst (remember n now' c))"
  using spent_prune [OF assms] by (auto simp: remember_def Let_def spent_def)

lemma spent_Decode:
  assumes "spent f now c" "now \<le> now'"
  shows "spent f now' (fst (Decode hmac c now' g))"
proof -
  have "spent f now' c"
    using assms by (auto simp: spent_def)
  then show ?thesis
    using Decode_state [of hmac c now' g] spent_remember [OF assms] by auto
qed

lemma spent_rejected:
  assumes "spent f now c" "now \<le> now'"
  shows "snd (Decode hmac c now' f) \<noteq> Inr x"
proof
  assume "snd (Decode hmac c now' f) = Inr x"
  then obtain c' where "Decode hmac c now' f = (c', Inr (fst x, snd x))"
    by (cases "Decode hmac c now' f") auto
  then have acc: "\<bar>now' - frame_ts f\<bar> \<le> c_skew c" "remember (frame_nonce f) now' c = (c', True)"
    unfolding Decode_accepts by auto
  have "fmlookup (c_seen (prune now' c)) (frame_nonce f) = None"
    using acc(2) by (auto simp: remember_def Let_def split: if_splits)
  moreover have "spent f now' (prune now' c)"
    using spent_prune [OF assms] .
  ultimately show False
    using acc(1) by (auto simp: spent_def)
qed

lemma accepted_spent:
  assumes "Decode hmac c now f = (c', Inr x)"
  shows "spent f now c'"
proof -
  have acc: "\<bar>now - frame_ts f\<bar> \<le> c_skew c" "remember (frame_nonce f) now c = (c', True)"
    using Decode_accepts [of hmac c now f c' "fst x" "snd x"] assms by auto
  then have "fmlookup (c_seen c') (frame_nonce f) = Some now" "c_skew c' = c_skew c"
    by (auto simp: remember_def Let_def split: if_splits)
  then show ?thesis
    using acc(1) by (auto simp: spent_def)
qed

text \<open>A codec working through a sequence of frames, each at its own time.\<close>

primrec decodeAll ::
  "(bytes \<Rightarrow> bytes \<Rightarrow> bytes) \<Rightarrow> codec \<Rightarrow> (nanos \<times> bytes) list \<Rightarrow> codec \<times> (codecError + (MessageKind \<times> bytes)) list"
  where
  "decodeAll hmac c [] = (c, [])"
| "decodeAll hmac c (x # xs) =
     (let (c1, r) = Decode hmac c (fst x) (snd x); (c2, rs) = decodeAll hmac c1 xs in (c2, r # rs))"

lemma length_decodeAll [simp]: "length (snd (decodeAll hmac c xs)) = length xs"
  by (induction xs arbitrary: c) (simp_all add: Let_def split_beta)

lemma decodeAll_spent:
  assumes "spent f now c" "sorted (map fst xs)" "\<And>x. x \<in> set xs \<Longrightarrow> now \<le> fst x"
    and "j < length xs" "snd (xs ! j) = f"
  shows "snd (decodeAll hmac c xs) ! j \<noteq> Inr y"
  using assms
proof (induction xs arbitrary: c now j)
  case (Cons x xs)
  obtain t g where x: "x = (t, g)"
    by (cases x)
  have le: "now \<le> t"
    using Cons.prems(3) [of x] x by simp
  obtain c1 r where d: "Decode hmac c t g = (c1, r)"
    by (cases "Decode hmac c t g")
  have sp: "spent f t c1"
    using spent_Decode [OF Cons.prems(1) le, of hmac g] d by simp
  show ?case
  proof (cases j)
    case 0
    then show ?thesis
      using spent_rejected [OF Cons.prems(1) le, of hmac y] Cons.prems(5) d x
      by (auto simp: Let_def split: prod.split)
  next
    case (Suc i)
    then have "snd (decodeAll hmac c1 xs) ! i \<noteq> Inr y"
      using Cons.IH [OF sp, of i] Cons.prems x by auto
    then show ?thesis
      using Suc d x by (auto simp: Let_def split: prod.split)
  qed
qed simp

section \<open>Refusals\<close>

text \<open>
  What refusals mean, in terms of the frames alone: a frame is authentic when its tag is that of all its other bytes,
  timely when its timestamp is within the skew, and the codec's memory is the nonces of the frames it has accepted.
\<close>

definition authentic :: "(bytes \<Rightarrow> bytes \<Rightarrow> bytes) \<Rightarrow> bytes \<Rightarrow> bytes \<Rightarrow> bool" where
  "authentic hmac key f \<longleftrightarrow> headerLen \<le> length f
     \<and> take macLen (drop (headerLen - macLen) f) = hmac key (take (headerLen - macLen) f @ drop headerLen f)"

definition timely :: "nanos \<times> bytes \<Rightarrow> bool" where
  "timely x \<longleftrightarrow> \<bar>fst x - frame_ts (snd x)\<bar> \<le> DefaultSkew"

primrec acceptedNonces :: "((nanos \<times> bytes) \<times> (codecError + (MessageKind \<times> bytes))) list \<Rightarrow> (bytes \<times> nanos) set" where
  "acceptedNonces [] = {}"
| "acceptedNonces (p # ps) = (case snd p of
     Inr _ \<Rightarrow> insert (frame_nonce (snd (fst p)), fst (fst p)) (acceptedNonces ps)
   | Inl _ \<Rightarrow> acceptedNonces ps)"

lemma tagged_bytes:
  assumes "headerLen \<le> length f"
  shows "[frame_kind f] @ frame_nonce f @ frame_tsBytes f @ frame_body f = take (headerLen - macLen) f @ drop headerLen f"
proof -
  have "take 17 f = take 1 f @ take 16 (drop 1 f)"
    using take_add [of 1 16 f] by simp
  moreover have "take 1 f = [f ! 0]"
    using assms by (cases f) (auto simp: frame_sizes)
  moreover have "take 16 (drop 1 f) = take 8 (drop 1 f) @ take 8 (drop 9 f)"
    using take_add [of 8 8 "drop 1 f"] by (simp add: drop_drop)
  ultimately have "take 17 f = [f ! 0] @ take 8 (drop 1 f) @ take 8 (drop 9 f)"
    by simp
  then show ?thesis
    by (simp add: frame_kind_def frame_nonce_def frame_tsBytes_def frame_body_def frame_sizes)
qed

lemma Decode_cases:
  assumes "c_key c = key" "c_skew c = DefaultSkew"
  shows "Decode hmac c now f =
    (if length f < headerLen then (c, Inl ErrShortFrame)
     else if \<not> authentic hmac key f then (c, Inl ErrBadMAC)
     else if \<not> timely (now, f) then (c, Inl ErrClockSkew)
     else let c1 = prune now c in
       if fmlookup (c_seen c1) (frame_nonce f) \<noteq> None then (c1, Inl ErrReplay)
       else (c1\<lparr>c_seen := fmupd (frame_nonce f) now (c_seen c1)\<rparr>, Inr (f ! 0, drop headerLen f)))"
proof (cases "length f < headerLen")
  case False
  then have "authentic hmac key f \<longleftrightarrow> frame_mac f = codec_tag hmac c (frame_kind f) (frame_nonce f) (frame_tsBytes f) (frame_body f)"
    using tagged_bytes [of f] assms(1)
    by (simp add: authentic_def codec_tag_def frame_mac_def frame_sizes)
  moreover have "timely (now, f) \<longleftrightarrow> \<not> (now - frame_ts f > c_skew c \<or> now - frame_ts f < - c_skew c)"
    by (auto simp: timely_def assms(2) abs_le_iff)
  ultimately show ?thesis
    using False by (simp add: Decode_def remember_def Let_def frame_kind_def frame_body_def)
qed (simp add: Decode_def)

text \<open>The memory of a codec that has accepted \<open>acc\<close> by \<open>now\<close>: nothing else, nothing older than three skews, and everything younger than two.\<close>

definition remembers :: "bytes \<Rightarrow> (bytes \<times> nanos) set \<Rightarrow> nanos \<Rightarrow> codec \<Rightarrow> bool" where
  "remembers key acc now c \<longleftrightarrow> c_key c = key \<and> c_skew c = DefaultSkew
     \<and> (\<forall>p. c_lastPrune c = Some p \<longrightarrow> p \<le> now)
     \<and> (\<forall>n s. fmlookup (c_seen c) n = Some s \<longrightarrow> (n, s) \<in> acc \<and> (\<exists>p. c_lastPrune c = Some p \<and> p - 2 * DefaultSkew \<le> s))
     \<and> (\<forall>n s. (n, s) \<in> acc \<longrightarrow> now \<le> s + 2 * DefaultSkew \<longrightarrow> (\<exists>s'. fmlookup (c_seen c) n = Some s' \<and> s \<le> s'))"

lemma remembers_later: "remembers key acc now c \<Longrightarrow> now \<le> now' \<Longrightarrow> remembers key acc now' c"
  by (force simp: remembers_def)

lemma remembers_prune:
  assumes "remembers key acc now c"
  shows "remembers key acc now (prune now c)"
    and "fmlookup (c_seen (prune now c)) n = Some s \<Longrightarrow> now \<le> s + 3 * DefaultSkew"
    and "\<exists>p. c_lastPrune (prune now c) = Some p \<and> now - p \<le> DefaultSkew \<and> (c_lastPrune c = Some p \<or> p = now)"
proof -
  have sk: "0 < DefaultSkew"
    by (simp add: DefaultSkew_def second_def)
  show "remembers key acc now (prune now c)"
    using assms sk by (fastforce simp: remembers_def prune_def split: option.splits)
  show lp: "\<exists>p. c_lastPrune (prune now c) = Some p \<and> now - p \<le> DefaultSkew \<and> (c_lastPrune c = Some p \<or> p = now)"
    using assms sk by (auto simp: remembers_def prune_def split: option.splits)
  assume "fmlookup (c_seen (prune now c)) n = Some s"
  then obtain p where "c_lastPrune (prune now c) = Some p" "p - 2 * DefaultSkew \<le> s"
    using \<open>remembers key acc now (prune now c)\<close> unfolding remembers_def by blast
  then show "now \<le> s + 3 * DefaultSkew"
    using lp by auto
qed

lemma remembers_insert:
  assumes "remembers key acc now c" "c_lastPrune c = Some p" "fmlookup (c_seen c) n = None"
  shows "remembers key (insert (n, now) acc) now (c\<lparr>c_seen := fmupd n now (c_seen c)\<rparr>)"
proof -
  have old: "c_key c = key" "c_skew c = DefaultSkew" "p \<le> now"
      "\<And>m s. fmlookup (c_seen c) m = Some s \<Longrightarrow> (m, s) \<in> acc \<and> p - 2 * DefaultSkew \<le> s"
      "\<And>m s. (m, s) \<in> acc \<Longrightarrow> now \<le> s + 2 * DefaultSkew \<Longrightarrow> \<exists>s'. fmlookup (c_seen c) m = Some s' \<and> s \<le> s'"
    using assms(1,2) by (auto simp: remembers_def)
  have "p - 2 * DefaultSkew \<le> now"
    using old(3) by (simp add: DefaultSkew_def second_def)
  moreover have "\<not> now \<le> s + 2 * DefaultSkew" if "(n, s) \<in> acc" for s
    using that old(5) [of n s] assms(3) by auto
  ultimately show ?thesis
    using old assms(2) by (auto simp: remembers_def)
qed

lemma remembers_Decode:
  assumes "remembers key acc now c" "Decode hmac c now f = (c', r)"
  shows "remembers key (acceptedNonces [((now, f), r)] \<union> acc) now c'"
    and "r = Inl ErrShortFrame \<longleftrightarrow> length f < headerLen"
    and "r = Inl ErrBadMAC \<longleftrightarrow> headerLen \<le> length f \<and> \<not> authentic hmac key f"
    and "r = Inl ErrClockSkew \<longleftrightarrow> authentic hmac key f \<and> \<not> timely (now, f)"
    and "r = Inl ErrReplay \<Longrightarrow> \<exists>s. (frame_nonce f, s) \<in> acc \<and> now \<le> s + 3 * DefaultSkew"
    and "authentic hmac key f \<Longrightarrow> timely (now, f) \<Longrightarrow> (frame_nonce f, s) \<in> acc \<Longrightarrow> now \<le> s + 2 * DefaultSkew \<Longrightarrow> r = Inl ErrReplay"
    and "r = Inr x \<Longrightarrow> x = (f ! 0, drop headerLen f)"
proof -
  have ks: "c_key c = key" "c_skew c = DefaultSkew"
    using assms(1) by (simp_all add: remembers_def)
  note pr = remembers_prune [OF assms(1)]
  have long: "authentic hmac key f \<Longrightarrow> headerLen \<le> length f"
    by (simp add: authentic_def)
  note d = assms(2) [unfolded Decode_cases [OF ks] Let_def]
  show "r = Inl ErrShortFrame \<longleftrightarrow> length f < headerLen" "r = Inl ErrBadMAC \<longleftrightarrow> headerLen \<le> length f \<and> \<not> authentic hmac key f"
    "r = Inl ErrClockSkew \<longleftrightarrow> authentic hmac key f \<and> \<not> timely (now, f)" "r = Inr x \<Longrightarrow> x = (f ! 0, drop headerLen f)"
    using d long by (auto split: if_splits)
  show "\<exists>s. (frame_nonce f, s) \<in> acc \<and> now \<le> s + 3 * DefaultSkew" if rep: "r = Inl ErrReplay"
  proof -
    obtain s where "fmlookup (c_seen (prune now c)) (frame_nonce f) = Some s"
      using d rep by (auto split: if_splits)
    then show ?thesis
      using pr(1,2) unfolding remembers_def by blast
  qed
  show "r = Inl ErrReplay" if a: "authentic hmac key f" "timely (now, f)" "(frame_nonce f, s) \<in> acc" "now \<le> s + 2 * DefaultSkew"
  proof -
    have "fmlookup (c_seen (prune now c)) (frame_nonce f) \<noteq> None"
      using pr(1) a(3,4) unfolding remembers_def by blast
    then show ?thesis
      using d a(1,2) long by (auto split: if_splits)
  qed
  show "remembers key (acceptedNonces [((now, f), r)] \<union> acc) now c'"
  proof (cases r)
    case (Inl err)
    then have "c' = c \<or> c' = prune now c"
      using d by (auto split: if_splits)
    then show ?thesis
      using assms(1) pr(1) Inl by auto
  next
    case (Inr y)
    then have c': "c' = (prune now c)\<lparr>c_seen := fmupd (frame_nonce f) now (c_seen (prune now c))\<rparr>"
      using d by (auto split: if_splits)
    obtain p where p: "c_lastPrune (prune now c) = Some p"
      using pr(3) by blast
    have "fmlookup (c_seen (prune now c)) (frame_nonce f) = None"
      using d Inr by (auto split: if_splits)
    then show ?thesis
      using remembers_insert [OF pr(1) p] by (simp add: c' Inr)
  qed
qed

lemma remembers_run:
  assumes "remembers key acc now c" "sorted (map fst xs)" "\<And>x. x \<in> set xs \<Longrightarrow> now \<le> fst x" "j < length xs"
  shows "\<exists>c'. remembers key (acceptedNonces (take j (zip xs (snd (decodeAll hmac c xs)))) \<union> acc) (fst (xs ! j)) c'
    \<and> snd (Decode hmac c' (fst (xs ! j)) (snd (xs ! j))) = snd (decodeAll hmac c xs) ! j"
  using assms
proof (induction xs arbitrary: acc now c j)
  case (Cons x xs)
  obtain t f c1 r where x: "x = (t, f)" and d: "Decode hmac c t f = (c1, r)"
    by (metis prod.exhaust)
  have rs: "snd (decodeAll hmac c (x # xs)) = r # snd (decodeAll hmac c1 xs)"
    by (simp add: x d Let_def split_beta)
  have now: "remembers key acc t c"
    using remembers_later [OF Cons.prems(1)] Cons.prems(3) [of x] by (simp add: x)
  show ?case
  proof (cases j)
    case 0
    then show ?thesis
      using now d unfolding rs by (intro exI [of _ c]) (simp add: x)
  next
    case (Suc i)
    have "remembers key (acceptedNonces [((t, f), r)] \<union> acc) t c1"
      by (rule remembers_Decode(1) [OF now d])
    moreover have "acceptedNonces (take j (zip (x # xs) (r # ys))) = acceptedNonces (take i (zip xs ys)) \<union> acceptedNonces [((t, f), r)]" for ys
      by (auto simp: Suc x split: sum.split)
    ultimately show ?thesis
      using Cons.IH [of "acceptedNonces [((t, f), r)] \<union> acc" t c1 i] Cons.prems(2,4) unfolding rs
      by (simp add: Suc x Un_assoc)
  qed
qed simp

text \<open>Frames that are not authentic or not timely leave no trace.\<close>

lemma decodeAll_filter:
  assumes "c_key c = key" "c_skew c = DefaultSkew"
  shows "snd (decodeAll hmac c (filter (\<lambda>x. authentic hmac key (snd x) \<and> timely x) xs)) =
    map snd (filter (\<lambda>p. authentic hmac key (snd (fst p)) \<and> timely (fst p)) (zip xs (snd (decodeAll hmac c xs))))"
  using assms
proof (induction xs arbitrary: c)
  case (Cons x xs)
  obtain t f c1 r where x: "x = (t, f)" and d: "Decode hmac c t f = (c1, r)"
    by (metis prod.exhaust)
  have rs: "snd (decodeAll hmac c (x # ys)) = r # snd (decodeAll hmac c1 ys)" for ys
    by (simp add: x d Let_def split_beta)
  have ks: "c_key c1 = key" "c_skew c1 = DefaultSkew"
    using Decode_frame [of hmac c t f] Cons.prems by (simp_all add: d)
  show ?case
  proof (cases "authentic hmac key f \<and> timely (t, f)")
    case True
    then show ?thesis
      using Cons.IH [OF ks] rs by (simp add: x)
  next
    case False
    then have "c1 = c"
      using d Decode_cases [OF Cons.prems, of hmac t f] by (auto split: if_splits)
    then show ?thesis
      using Cons.IH [OF ks] rs False by (simp add: x)
  qed
qed simp

section \<open>Round trip\<close>

lemma Decode_Encode:
  assumes "\<And>k m. length (hmac k m) = macLen" "length nonce = nonceLen"
    and "Encode hmac c now kind (Some body) (Some nonce) = Some f"
    and "c_key c' = c_key c" "\<bar>now' - unix now * second\<bar> \<le> c_skew c'"
    and "- (2 ^ 63) \<le> unix now" "unix now < 2 ^ 63"
    and "fmlookup (c_seen c') nonce = None"
  shows "snd (Decode hmac c' now' f) = Inr (kind, body)"
proof -
  let ?ts = "PutUint64 (word_of_int (unix now))"
  let ?tag = "codec_tag hmac c kind nonce ?ts body"
  have f: "f = [kind] @ nonce @ ?ts @ ?tag @ body"
    using assms(3) by (simp add: Encode_def Let_def)
  have len: "length ?tag = 32"
    using assms(1) by (simp add: codec_tag_def macLen_def)
  have parts: "frame_kind f = kind" "frame_nonce f = nonce" "frame_tsBytes f = ?ts" "frame_mac f = ?tag"
      "frame_body f = body" "headerLen \<le> length f"
    using assms(2) len
    by (simp_all add: f frame_kind_def frame_nonce_def frame_tsBytes_def frame_mac_def frame_body_def frame_sizes)
  have "sint (word_of_int (unix now) :: u64) = unix now"
    using assms(6,7) by (simp add: signed_of_int signed_take_bit_int_eq_self)
  then have ts: "frame_ts f = unix now * second"
    by (simp add: frame_ts_def parts)
  have "fmlookup (c_seen (prune now' c')) nonce = None"
    using prune_lookup_None [OF assms(8)] .
  then have "snd (remember nonce now' c') = True"
    by (simp add: remember_def Let_def)
  then show ?thesis
    using parts ts assms(4,5)
    by (simp add: Decode_def Let_def codec_tag_def split_beta abs_le_iff)
qed

definition demo_hmac :: "bytes \<Rightarrow> bytes \<Rightarrow> bytes" where
  "demo_hmac k m = replicate 32 (sum_list k + sum_list m)"

definition demo_frame :: bytes where
  "demo_frame = the (Encode demo_hmac (NewCodec demo_hmac ''s'' ''c'') (5 * second) 1 (Some [7])
     (Some (replicate 8 9)))"

lemma demo_frame_Some:
  "Encode demo_hmac (NewCodec demo_hmac ''s'' ''c'') (5 * second) 1 (Some [7]) (Some (replicate 8 9)) = Some demo_frame"
  by (simp add: demo_frame_def Encode_def Let_def)

lemma demo_frame_decodes:
  "snd (Decode demo_hmac (NewCodec demo_hmac ''s'' ''c'') (6 * second) demo_frame) = Inr (1, [7])"
  by (rule Decode_Encode [OF _ _ demo_frame_Some])
    (simp_all add: demo_hmac_def frame_sizes NewCodec_def DefaultSkew_def unix_def second_def)

section \<open>Properties\<close>

text \<open>
  C16.  Replay protection: whatever frames a codec is handed, at times that do not run backwards,
  no frame is accepted twice, although the nonce cache forgets old entries.
\<close>

theorem no_replay:
  assumes "sorted (map fst xs)" "i < j" "j < length xs" "snd (xs ! i) = snd (xs ! j)"
    and "snd (decodeAll hmac c xs) ! i = Inr x"
  shows "snd (decodeAll hmac c xs) ! j \<noteq> Inr y"
  using assms
proof (induction xs arbitrary: c i j)
  case (Cons z xs)
  obtain t f c1 r where z: "z = (t, f)" and d: "Decode hmac c t f = (c1, r)"
    by (metis prod.exhaust)
  obtain j' where j: "j = Suc j'"
    using Cons.prems(2) by (cases j) auto
  have eq: "snd (decodeAll hmac c (z # xs)) = r # snd (decodeAll hmac c1 xs)"
    by (simp add: z d Let_def split_beta)
  show ?case
  proof (cases i)
    case 0
    then have "spent f t c1"
      using Cons.prems(5) d eq by (intro accepted_spent) auto
    then show ?thesis
      using decodeAll_spent [of f t c1 xs j'] Cons.prems 0 eq z j by auto
  next
    case (Suc i')
    then show ?thesis
      using Cons.IH [of i' j' c1] Cons.prems eq j by auto
  qed
qed simp

theorem no_replay_witness:
  "snd (decodeAll demo_hmac (NewCodec demo_hmac ''s'' ''c'') [(6 * second, demo_frame), (7 * second, demo_frame)]) ! 1
     \<noteq> Inr (1, [7])"
proof -
  obtain c1 where d: "Decode demo_hmac (NewCodec demo_hmac ''s'' ''c'') (6 * second) demo_frame = (c1, Inr (1, [7]))"
    using demo_frame_decodes by (metis prod.collapse)
  show ?thesis
    by (rule no_replay [where i = 0 and x = "(1, [7])"]) (simp_all add: d Let_def split_beta)
qed

text \<open>
  C17.  Round trip: a frame encoded under a key decodes, at any codec with that key, to exactly the
  kind and body that went in, whenever the clocks agree within the skew and the nonce is new
  there.
\<close>

theorem codec_roundtrip:
  assumes "\<And>k m. length (hmac k m) = macLen" "length nonce = nonceLen"
    and "Encode hmac c now kind (Some body) (Some nonce) = Some f"
    and "c_key c' = c_key c" "\<bar>now' - unix now * second\<bar> \<le> c_skew c'"
    and "- (2 ^ 63) \<le> unix now" "unix now < 2 ^ 63"
    and "fmlookup (c_seen c') nonce = None"
  shows "snd (Decode hmac c' now' f) = Inr (kind, body)"
  using assms by (rule Decode_Encode)

theorem codec_roundtrip_witness:
  "snd (Decode demo_hmac (NewCodec demo_hmac ''s'' ''c'') (9 * second) demo_frame) = Inr (1, [7])"
  by (rule codec_roundtrip [OF _ _ demo_frame_Some])
    (simp_all add: demo_hmac_def frame_sizes NewCodec_def DefaultSkew_def unix_def second_def)

text \<open>
  C18.  What a refusal means.  A new codec is handed any frames, at times that do not run backwards.  A frame is
  refused as short exactly when it is shorter than a header; as forged exactly when its tag is not that of all its
  other bytes under the cluster's key; as skewed exactly when it is authentic and its timestamp is more than the skew
  away.  One refused as a replay has the nonce of a frame accepted at most three skews before, and an authentic,
  timely frame with the nonce of one accepted at most two skews before is refused as a replay; any other is accepted
  with its kind and body.  Frames refused as short, forged or skewed leave no trace: without them, every other frame
  has the same result.
\<close>

theorem decode_refusals:
  assumes "sorted (map fst xs)" "j < length xs" "xs ! j = (now, f)"
    and "rs = snd (decodeAll hmac (NewCodec hmac psk cluster) xs)" "key = DeriveKey hmac psk cluster"
    and "acc = acceptedNonces (take j (zip xs rs))"
  shows "(rs ! j = Inl ErrShortFrame \<longleftrightarrow> length f < headerLen)
    \<and> (rs ! j = Inl ErrBadMAC \<longleftrightarrow> headerLen \<le> length f \<and> \<not> authentic hmac key f)
    \<and> (rs ! j = Inl ErrClockSkew \<longleftrightarrow> authentic hmac key f \<and> \<not> timely (now, f))
    \<and> (rs ! j = Inl ErrReplay \<longrightarrow> (\<exists>s. (frame_nonce f, s) \<in> acc \<and> now \<le> s + 3 * DefaultSkew))
    \<and> (authentic hmac key f \<and> timely (now, f) \<and> (\<exists>s. (frame_nonce f, s) \<in> acc \<and> now \<le> s + 2 * DefaultSkew)
         \<longrightarrow> rs ! j = Inl ErrReplay)
    \<and> (\<forall>x. rs ! j = Inr x \<longrightarrow> x = (f ! 0, drop headerLen f))
    \<and> snd (decodeAll hmac (NewCodec hmac psk cluster) (filter (\<lambda>x. authentic hmac key (snd x) \<and> timely x) xs)) =
        map snd (filter (\<lambda>p. authentic hmac key (snd (fst p)) \<and> timely (fst p)) (zip xs rs))"
proof -
  have new: "remembers key {} (fst (xs ! 0)) (NewCodec hmac psk cluster)"
    by (simp add: remembers_def NewCodec_def assms(5))
  have "fst (xs ! 0) \<le> fst x" if "x \<in> set xs" for x
    using that assms(1) by (cases xs) auto
  then obtain c where c: "remembers key acc now c" "snd (Decode hmac c now f) = rs ! j"
    using remembers_run [OF new assms(1) _ assms(2), of hmac] by (auto simp: assms(3,4,6))
  obtain c' where d: "Decode hmac c now f = (c', rs ! j)"
    using c(2) by (metis prod.collapse)
  have "snd (decodeAll hmac (NewCodec hmac psk cluster) (filter (\<lambda>x. authentic hmac key (snd x) \<and> timely x) xs)) =
      map snd (filter (\<lambda>p. authentic hmac key (snd (fst p)) \<and> timely (fst p)) (zip xs rs))"
    unfolding assms(4) by (rule decodeAll_filter) (simp_all add: NewCodec_def assms(5))
  then show ?thesis
    using remembers_Decode(2-7) [OF c(1) d] by blast
qed

text \<open>The frame is accepted, a copy with another body is refused as forged, and its repetition as a replay.\<close>

theorem decode_refusals_witness:
  "snd (decodeAll demo_hmac (NewCodec demo_hmac ''s'' ''c'')
     [(6 * second, demo_frame), (7 * second, demo_frame @ [1]), (8 * second, demo_frame)])
   = [Inr (1, [7]), Inl ErrBadMAC, Inl ErrReplay]"
proof -
  define xs where "xs = [(6 * second, demo_frame), (7 * second, demo_frame @ [1]), (8 * second, demo_frame)]"
  define rs where "rs = snd (decodeAll demo_hmac (NewCodec demo_hmac ''s'' ''c'') xs)"
  let ?key = "DeriveKey demo_hmac ''s'' ''c''"
  have sizes: "length demo_frame = 50" "headerLen = 49" "macLen = 32"
    by (simp_all add: demo_frame_def Encode_def Let_def codec_tag_def demo_hmac_def frame_sizes)
  have times: "sorted (map fst xs)" "length xs = 3"
    by (simp_all add: xs_def second_def)
  have new: "c_key (NewCodec demo_hmac ''s'' ''c'') = ?key" "c_skew (NewCodec demo_hmac ''s'' ''c'') = DefaultSkew"
    by (simp_all add: NewCodec_def)
  have "snd (Decode demo_hmac (NewCodec demo_hmac ''s'' ''c'') (8 * second) demo_frame) = Inr (1, [7])"
    by (rule Decode_Encode [OF _ _ demo_frame_Some])
      (simp_all add: demo_hmac_def frame_sizes NewCodec_def DefaultSkew_def unix_def second_def)
  then have auth: "authentic demo_hmac ?key demo_frame" "timely (8 * second, demo_frame)"
    unfolding Decode_cases [OF new] by (auto split: if_splits)
  note outcome = decode_refusals [OF times(1) _ _ rs_def refl refl]
  obtain a b c where abc: "rs = [a, b, c]"
    using length_decodeAll [of demo_hmac "NewCodec demo_hmac ''s'' ''c''" xs] times(2)
    unfolding rs_def [symmetric] by (auto simp: length_Suc_conv numeral_3_eq_3)
  have a: "a = Inr (1, [7])"
    using demo_frame_decodes abc by (simp add: rs_def xs_def Let_def split_beta)
  have "\<not> authentic demo_hmac ?key (demo_frame @ [1])"
    using auth(1) sizes by (simp add: authentic_def demo_hmac_def)
  then have b: "b = Inl ErrBadMAC"
    using outcome [of 1 "7 * second" "demo_frame @ [1]"] sizes by (simp add: abc xs_def)
  have "(frame_nonce demo_frame, 6 * second) \<in> acceptedNonces (take 2 (zip xs rs))"
    by (simp add: abc xs_def a numeral_2_eq_2 split: sum.split)
  moreover have "8 * second \<le> 6 * second + 2 * DefaultSkew"
    by (simp add: DefaultSkew_def second_def)
  ultimately have "rs ! 2 = Inl ErrReplay"
    using outcome [of 2 "8 * second" demo_frame] auth by (auto simp: xs_def)
  then show ?thesis
    using a b abc by (simp add: rs_def xs_def)
qed

end
