(* ===== verification/ChatSeq.thy ===== *)
theory ChatSeq
  imports Wire
begin

text \<open>
  Chat gap tracking (\<open>pkg/discovery/node/chatseq.go\<close>): which lines of each author have been seen,
  which are missing and how often they were asked for.  \<open>senders\<close> maps an author to its
  \<open>chatSender\<close>; the pointer the code mutates is the map's entry, so a change is an update of that
  entry (and invisible once the author has been evicted).

  The loop of \<open>Announce\<close> runs to a sequence number a peer supplies, inclusively, over \<open>uint64\<close>: it
  is a \<open>partial_function\<close> into \<open>option\<close>, where \<open>None\<close> is a loop that never ends.
\<close>

section \<open>State\<close>

definition maxTrackedGaps :: nat where "maxTrackedGaps = 512"
definition maxPullAttempts :: nat where "maxPullAttempts = 5"
definition maxTrackedAuthors :: nat where "maxTrackedAuthors = 64"

datatype chatOutcome = chatAccept | chatFilledGap | chatDuplicate

record chatSender =
  cs_addr :: string
  cs_last :: u64
  cs_missing :: "(u64, nat) fmap"
  cs_lost :: u64
  cs_recovered :: u64
  cs_touched :: u64

record chatTracker =
  ct_senders :: "(string, chatSender) fmap"
  ct_clock :: u64

definition newChatTracker :: chatTracker where
  "newChatTracker = \<lparr>ct_senders = fmempty, ct_clock = 0\<rparr>"

text \<open>\<open>&chatSender{addr: a, last: s, missing: map[uint64]int{}}\<close>\<close>

definition newSender :: "string \<Rightarrow> u64 \<Rightarrow> chatSender" where
  "newSender a s = \<lparr>cs_addr = a, cs_last = s, cs_missing = fmempty, cs_lost = 0, cs_recovered = 0,
     cs_touched = 0\<rparr>"

definition authorOf :: "ChatMessage \<Rightarrow> string" where
  "authorOf m = (if m_Node m \<noteq> '''' then m_Node m else m_Sender m)"

text \<open>\<open>if addr != "" { st.addr = addr }\<close>\<close>

definition movedTo :: "string \<Rightarrow> chatSender \<Rightarrow> chatSender" where
  "movedTo addr st = (if addr \<noteq> '''' then st\<lparr>cs_addr := addr\<rparr> else st)"

section \<open>Trimming\<close>

definition oldestAuthor :: "(string, chatSender) fmap \<Rightarrow> string" where
  "oldestAuthor senders = fst (foldl (\<lambda>(oldest, oldestAt) (i, s).
     if oldest = '''' \<or> cs_touched s < oldestAt then (i, cs_touched s) else (oldest, oldestAt))
     ('''', 0) (fmentries senders))"

text \<open>
  \<open>t.senders[author] = st; t.touchLocked(st)\<close> for an author already in the map or being added.
\<close>

definition touchLocked :: "string \<Rightarrow> chatSender \<Rightarrow> chatTracker \<Rightarrow> chatTracker" where
  "touchLocked author st t =
     (let clock = ct_clock t + 1;
          senders = fmupd author (st\<lparr>cs_touched := clock\<rparr>) (ct_senders t)
      in t\<lparr>ct_clock := clock,
           ct_senders := (if fcard (fmdom senders) \<le> maxTrackedAuthors then senders
                          else fmdrop (oldestAuthor senders) senders)\<rparr>)"

definition modifySender :: "string \<Rightarrow> (chatSender \<Rightarrow> chatSender) \<Rightarrow> chatTracker \<Rightarrow> chatTracker" where
  "modifySender author f t = (case fmlookup (ct_senders t) author of
     None \<Rightarrow> t
   | Some st \<Rightarrow> t\<lparr>ct_senders := fmupd author (f st) (ct_senders t)\<rparr>)"

definition trimLocked :: "chatSender \<Rightarrow> chatSender" where
  "trimLocked st =
     (let seqs = fmkeys (cs_missing st); n = length seqs - maxTrackedGaps in
      if length seqs \<le> maxTrackedGaps then st
      else st\<lparr>cs_missing := fmdrop_set (set (take n seqs)) (cs_missing st),
              cs_lost := cs_lost st + word_of_nat n\<rparr>)"

section \<open>Observing lines\<close>

text \<open>\<open>for s := lo; s < hi; s++ { missing[s] = 0 }\<close>\<close>

function fillGaps :: "u64 \<Rightarrow> u64 \<Rightarrow> (u64, nat) fmap \<Rightarrow> (u64, nat) fmap" where
  "fillGaps s hi missing = (if s < hi then fillGaps (s + 1) hi (fmupd s 0 missing) else missing)"
  by pat_completeness auto
termination
proof (relation "measure (\<lambda>(s, hi, m). unat hi - unat s)", simp)
  fix s hi :: u64 and m
  assume "s < hi"
  then have "s \<noteq> - 1"
    using word_order.not_eq_extremum by fastforce
  then have "unat (s + 1) = Suc (unat s)"
    by (rule unat_inc)
  then show "((s + 1, hi, fmupd s 0 m), (s, hi, m)) \<in> measure (\<lambda>(s, hi, m). unat hi - unat s)"
    using \<open>s < hi\<close> by (simp add: word_less_nat_alt)
qed

declare fillGaps.simps [simp del]

text \<open>The \<open>switch\<close> of \<open>Observe\<close> and what follows it, on the record of a known author.\<close>

definition observeSender :: "u64 \<Rightarrow> chatSender \<Rightarrow> chatSender \<times> chatOutcome" where
  "observeSender seq st =
     (if seq = cs_last st + 1 then (st\<lparr>cs_last := seq\<rparr>, chatAccept)
      else if seq > cs_last st + 1
      then (trimLocked (st\<lparr>cs_missing := fillGaps (cs_last st + 1) seq (cs_missing st), cs_last := seq\<rparr>), chatAccept)
      else if fmlookup (cs_missing st) seq \<noteq> None
      then (st\<lparr>cs_missing := fmdrop seq (cs_missing st), cs_recovered := cs_recovered st + 1\<rparr>, chatFilledGap)
      else (st, chatDuplicate))"

definition Observe :: "chatTracker \<Rightarrow> ChatMessage \<Rightarrow> chatTracker \<times> chatOutcome" where
  "Observe t m =
     (if m_Seq m = 0 then (t, chatAccept)
      else
        let author = authorOf m in
        if author = '''' then (t, chatAccept)
        else (case fmlookup (ct_senders t) author of
          None \<Rightarrow> (touchLocked author (newSender (m_Sender m) (m_Seq m)) t, chatAccept)
        | Some st0 \<Rightarrow>
          let st = movedTo (m_Sender m) st0;
              t1 = touchLocked author st t
          in (modifySender author (\<lambda>s. fst (observeSender (m_Seq m) s)) t1,
              snd (observeSender (m_Seq m) st))))"

definition seedEntry :: "chatTracker \<Rightarrow> ChatEntry \<Rightarrow> chatTracker" where
  "seedEntry t e =
     (let author = (if ce_Node e = '''' then ce_Sender e else ce_Node e) in
      if ce_Seq e = 0 \<or> author = '''' then t
      else (case fmlookup (ct_senders t) author of
        None \<Rightarrow> touchLocked author (newSender (ce_Sender e) (ce_Seq e)) t
      | Some st0 \<Rightarrow>
        let st1 = (if ce_Sender e \<noteq> '''' \<and> cs_addr st0 = '''' then st0\<lparr>cs_addr := ce_Sender e\<rparr> else st0);
            st2 = (if fmlookup (cs_missing st1) (ce_Seq e) \<noteq> None
                   then st1\<lparr>cs_missing := fmdrop (ce_Seq e) (cs_missing st1),
                            cs_recovered := cs_recovered st1 + 1\<rparr> else st1);
            st3 = (if ce_Seq e > cs_last st2 then st2\<lparr>cs_last := ce_Seq e\<rparr> else st2)
        in t\<lparr>ct_senders := fmupd author st3 (ct_senders t)\<rparr>))"

definition Seed :: "ChatEntry list \<Rightarrow> chatTracker \<Rightarrow> chatTracker" where
  "Seed entries t = foldl seedEntry t entries"

text \<open>\<open>for s := lo; s <= hi; s++ { missing[s] = 0 }\<close>\<close>

partial_function (option) announceLoop :: "u64 \<Rightarrow> u64 \<Rightarrow> (u64, nat) fmap \<Rightarrow> (u64, nat) fmap option" where
  "announceLoop s hi missing =
     (if s \<le> hi then announceLoop (s + 1) hi (fmupd s 0 missing) else Some missing)"

definition Announce :: "chatTracker \<Rightarrow> string \<Rightarrow> string \<Rightarrow> u64 \<Rightarrow> chatTracker option" where
  "Announce t author addr seq =
     (if author = '''' then Some t
      else (case fmlookup (ct_senders t) author of
        None \<Rightarrow> Some (touchLocked author (newSender addr seq) t)
      | Some st0 \<Rightarrow>
        let st = movedTo addr st0;
            t1 = touchLocked author st t
        in
        if seq \<le> cs_last st then Some t1
        else (case announceLoop (cs_last st + 1) seq (cs_missing st) of
          None \<Rightarrow> None
        | Some missing \<Rightarrow> Some (modifySender author
            (\<lambda>s. trimLocked (s\<lparr>cs_missing := missing, cs_last := seq\<rparr>)) t1))))"

section \<open>Pulling and reporting\<close>

record chatPullPlan =
  pp_Addr :: string
  pp_Seqs :: "u64 list"

text \<open>The body of the loop of \<open>PullPlans\<close> over the senders.\<close>

definition pullSender :: "chatSender \<Rightarrow> chatSender \<times> chatPullPlan option" where
  "pullSender st =
     (if cs_addr st = '''' \<or> cs_missing st = fmempty then (st, None)
      else
        let given = filter (\<lambda>(s, n). n \<ge> maxPullAttempts) (fmentries (cs_missing st));
            kept = map fst (filter (\<lambda>(s, n). \<not> n \<ge> maxPullAttempts) (fmentries (cs_missing st)));
            st1 = st\<lparr>cs_missing := fmdrop_set (fst ` set given) (cs_missing st),
                     cs_lost := cs_lost st + word_of_nat (length given)\<rparr>
        in
        if kept = [] then (st1, None)
        else
          let seqs = (if length kept > MaxChatPull then take MaxChatPull kept else kept)
          in (st1\<lparr>cs_missing := fmmap_keys (\<lambda>s n. if s \<in> set seqs then n + 1 else n) (cs_missing st1)\<rparr>,
              Some \<lparr>pp_Addr = cs_addr st, pp_Seqs = seqs\<rparr>))"

definition PullPlans :: "chatTracker \<Rightarrow> chatTracker \<times> chatPullPlan list" where
  "PullPlans t =
     (t\<lparr>ct_senders := fmmap (\<lambda>st. fst (pullSender st)) (ct_senders t)\<rparr>,
      sort_key pp_Addr (List.map_filter (\<lambda>(a, st). snd (pullSender st)) (fmentries (ct_senders t))))"

definition Expecting :: "chatTracker \<Rightarrow> string \<Rightarrow> string \<Rightarrow> u64 \<Rightarrow> bool" where
  "Expecting t author addr seq = (case fmlookup (ct_senders t) author of
     None \<Rightarrow> False
   | Some st \<Rightarrow> if cs_addr st \<noteq> addr then False else fmlookup (cs_missing st) seq \<noteq> None)"

definition markSeq :: "chatSender \<Rightarrow> u64 \<Rightarrow> chatSender" where
  "markSeq st s = (if fmlookup (cs_missing st) s \<noteq> None
     then st\<lparr>cs_missing := fmdrop s (cs_missing st), cs_lost := cs_lost st + 1\<rparr> else st)"

definition MarkUnavailable :: "string \<Rightarrow> u64 list \<Rightarrow> chatTracker \<Rightarrow> chatTracker" where
  "MarkUnavailable addr seqs t = t\<lparr>ct_senders :=
     fmmap (\<lambda>st. if cs_addr st \<noteq> addr then st else foldl markSeq st seqs) (ct_senders t)\<rparr>"

record ChatGapStat =
  gs_Addr :: string
  gs_Nick :: string
  gs_Outstanding :: nat
  gs_Lost :: u64
  gs_Recovered :: u64

definition Stats :: "chatTracker \<Rightarrow> ChatGapStat list" where
  "Stats t = sort_key gs_Addr
     (map (\<lambda>(a, st). \<lparr>gs_Addr = cs_addr st, gs_Nick = '''', gs_Outstanding = fcard (fmdom (cs_missing st)),
             gs_Lost = cs_lost st, gs_Recovered = cs_recovered st\<rparr>)
        (filter (\<lambda>(a, st). \<not> (cs_missing st = fmempty \<and> cs_lost st = 0 \<and> cs_recovered st = 0))
           (fmentries (ct_senders t))))"

definition outstanding :: "chatTracker \<Rightarrow> nat" where
  "outstanding t = sum_list (map (\<lambda>(a, st). fcard (fmdom (cs_missing st))) (fmentries (ct_senders t)))"

lemma movedTo_simps [simp]:
  "cs_last (movedTo ad st) = cs_last st" "cs_missing (movedTo ad st) = cs_missing st"
  by (simp_all add: movedTo_def)

section \<open>The loops\<close>

lemma fillGaps_lookup:
  "fmlookup (fillGaps s hi missing) x = (if s \<le> x \<and> x < hi then Some 0 else fmlookup missing x)"
proof (induction s hi missing rule: fillGaps.induct)
  case (1 s hi missing)
  show ?case
  proof (cases "s < hi")
    case True
    then have "fmlookup (fillGaps s hi missing) x = fmlookup (fillGaps (s + 1) hi (fmupd s 0 missing)) x"
      by (simp add: fillGaps.simps [of s])
    also have "\<dots> = (if s + 1 \<le> x \<and> x < hi then Some 0 else fmlookup (fmupd s 0 missing) x)"
      by (rule 1 [OF True])
    finally show ?thesis
      using True less_not_max [OF True] by (auto simp: word_less_Suc_iff)
  next
    case False
    then have "\<not> (s \<le> x \<and> x < hi)"
      by auto
    then show ?thesis
      using False by (auto simp: fillGaps.simps [of s])
  qed
qed

text \<open>The announcement loop ends exactly when its bound is not the largest \<open>uint64\<close>.\<close>

lemma announceLoop_some_bound:
  assumes "announceLoop s hi missing = Some r"
  shows "hi \<noteq> - 1"
  by (rule announceLoop.raw_induct [where P = "\<lambda>s hi missing r. hi \<noteq> - 1", OF _ assms])
    (auto split: if_splits)

lemma announceLoop_diverges: "announceLoop s (- 1) missing = None"
  using announceLoop_some_bound [of s "- 1" missing] by (cases "announceLoop s (- 1) missing") auto

lemma announceLoop_fillGaps:
  assumes "hi \<noteq> - 1"
  shows "announceLoop s hi missing = Some (fillGaps s (hi + 1) missing)"
proof (induction "unat (hi + 1) - unat s" arbitrary: s missing)
  case (0 s missing)
  then have "\<not> s \<le> hi"
    using assms by (simp add: unat_inc word_le_nat_alt)
  then show ?case
    using assms by (simp add: announceLoop.simps [of s] fillGaps.simps [of s] word_less_nat_alt
        word_le_nat_alt unat_inc)
next
  case (Suc n s missing)
  then have le: "s \<le> hi"
    using assms by (simp add: unat_inc word_le_nat_alt)
  then have ns: "s \<noteq> - 1"
    using assms word_order.extremum_unique by blast
  have "n = unat (hi + 1) - unat (s + 1)"
    using Suc(2) ns by (simp add: unat_inc)
  from Suc(1) [OF this] show ?case
    using le assms by (simp add: announceLoop.simps [of s] fillGaps.simps [of s] word_less_inc)
qed

section \<open>Bounds\<close>

lemma oldest_fold_in:
  fixes xs :: "(string \<times> chatSender) list"
  defines "step \<equiv> (\<lambda>(oldest, oldestAt) (i, s).
     if oldest = '''' \<or> cs_touched s < oldestAt then (i, cs_touched s) else (oldest, oldestAt))"
  shows "fst (foldl step (old, at) xs) \<in> insert old (fst ` set xs)
    \<and> (old = '''' \<and> xs \<noteq> [] \<longrightarrow> fst (foldl step (old, at) xs) \<in> fst ` set xs)"
proof (induction xs arbitrary: old at)
  case (Cons x xs)
  obtain i s where x: "x = (i, s)"
    by (cases x)
  show ?case
  proof (cases "old = '''' \<or> cs_touched s < at")
    case True
    then have eq: "foldl step (old, at) (x # xs) = foldl step (i, cs_touched s) xs"
      by (simp add: x step_def)
    show ?thesis
      unfolding eq unfolding x using Cons [of i "cs_touched s"] by (simp only: list.set image_insert fst_conv) blast
  next
    case False
    then have eq: "foldl step (old, at) (x # xs) = foldl step (old, at) xs"
      by (simp add: x step_def)
    show ?thesis
      unfolding eq unfolding x using Cons [of old at] False by (simp only: list.set image_insert fst_conv) blast
  qed
qed simp

lemma oldestAuthor_in: "fmdom' senders \<noteq> {} \<Longrightarrow> oldestAuthor senders \<in> fmdom' senders"
proof -
  assume ne: "fmdom' senders \<noteq> {}"
  have "fst ` set (fmentries senders) = fmdom' senders"
    using map_fst_fmentries [of senders] set_fmkeys [of senders] by (metis set_map)
  moreover from this ne have "fmentries senders \<noteq> []"
    by auto
  ultimately show ?thesis
    using oldest_fold_in [of "''''" 0 "fmentries senders"] by (simp add: oldestAuthor_def)
qed

lemma touchLocked_card:
  assumes "card (fmdom' (ct_senders t)) \<le> maxTrackedAuthors"
  shows "card (fmdom' (ct_senders (touchLocked a st t))) \<le> maxTrackedAuthors"
proof -
  let ?s = "fmupd a (st\<lparr>cs_touched := ct_clock t + 1\<rparr>) (ct_senders t)"
  have le: "card (fmdom' ?s) \<le> Suc maxTrackedAuthors"
    using assms by (simp add: card_insert_if)
  have "card (fmdom' (fmdrop (oldestAuthor ?s) ?s)) = card (fmdom' ?s) - 1"
    using oldestAuthor_in [of ?s] by (simp add: card_Diff_singleton)
  then show ?thesis
    using le by (auto simp: touchLocked_def Let_def fcard_fmdom)
qed

lemma touchLocked_lookup:
  "fmlookup (ct_senders (touchLocked b st t)) a = Some st' \<Longrightarrow>
   st' = st\<lparr>cs_touched := ct_clock t + 1\<rparr> \<and> a = b \<or> a \<noteq> b \<and> fmlookup (ct_senders t) a = Some st'"
  by (auto simp: touchLocked_def Let_def split: if_splits)

lemma modifySender_lookup:
  "fmlookup (ct_senders (modifySender b f t)) a =
     (if a = b then map_option f (fmlookup (ct_senders t) b) else fmlookup (ct_senders t) a)"
  by (auto simp: modifySender_def split: option.split)

lemma modifySender_dom [simp]: "fmdom' (ct_senders (modifySender b f t)) = fmdom' (ct_senders t)"
  by (auto simp: modifySender_def fmlookup_dom'_iff split: option.split)

lemma trimLocked_simps [simp]:
  "cs_last (trimLocked st) = cs_last st" "cs_addr (trimLocked st) = cs_addr st"
  by (simp_all add: trimLocked_def Let_def)

lemma trimLocked_lookup:
  "fmlookup (cs_missing (trimLocked st)) s = Some n \<Longrightarrow> fmlookup (cs_missing st) s = Some n"
  by (auto simp: trimLocked_def Let_def split: if_splits)

lemma trimLocked_card_eq:
  "card (fmdom' (cs_missing (trimLocked st))) = min maxTrackedGaps (card (fmdom' (cs_missing st)))"
proof -
  let ?ks = "fmkeys (cs_missing st)" and ?n = "length (fmkeys (cs_missing st)) - maxTrackedGaps"
  have len: "length ?ks = card (fmdom' (cs_missing st))"
    using distinct_card [OF distinct_fmkeys [of "cs_missing st"]] by simp
  have "card (fmdom' (cs_missing st) - set (take ?n ?ks)) = card (fmdom' (cs_missing st)) - card (set (take ?n ?ks))"
    using set_take_subset [of ?n ?ks] by (intro card_Diff_subset) auto
  moreover have "card (set (take ?n ?ks)) = ?n"
    by (simp add: distinct_card)
  ultimately show ?thesis
    using len by (auto simp: trimLocked_def Let_def fmdom'_drop_set)
qed

lemma trimLocked_card: "card (fmdom' (cs_missing (trimLocked st))) \<le> maxTrackedGaps"
  by (simp add: trimLocked_card_eq)

lemma trimLocked_idle: "card (fmdom' (cs_missing (trimLocked st))) < maxTrackedGaps \<Longrightarrow> trimLocked st = st"
proof -
  assume "card (fmdom' (cs_missing (trimLocked st))) < maxTrackedGaps"
  then have "length (fmkeys (cs_missing st)) \<le> maxTrackedGaps"
    using distinct_card [OF distinct_fmkeys [of "cs_missing st"]] by (simp add: trimLocked_card_eq)
  then show "trimLocked st = st"
    by (simp add: trimLocked_def)
qed

text \<open>What every author's record keeps: few gaps, none of them asked for too often.\<close>

definition sender_ok :: "chatSender \<Rightarrow> bool" where
  "sender_ok st \<longleftrightarrow> card (fmdom' (cs_missing st)) \<le> maxTrackedGaps
     \<and> fmpred (\<lambda>_ n. n \<le> maxPullAttempts) (cs_missing st)"

definition tracker_ok :: "chatTracker \<Rightarrow> bool" where
  "tracker_ok t \<longleftrightarrow> card (fmdom' (ct_senders t)) \<le> maxTrackedAuthors
     \<and> fmpred (\<lambda>_. sender_ok) (ct_senders t)"

lemma sender_ok_simps [simp]:
  "sender_ok (newSender a s)" "sender_ok (st\<lparr>cs_touched := c\<rparr>) = sender_ok st"
  "sender_ok (movedTo ad st) = sender_ok st" "sender_ok (st\<lparr>cs_addr := ad\<rparr>) = sender_ok st"
  "sender_ok (st\<lparr>cs_last := l\<rparr>) = sender_ok st"
  "sender_ok (st\<lparr>cs_recovered := r\<rparr>) = sender_ok st" "sender_ok (st\<lparr>cs_lost := r\<rparr>) = sender_ok st"
  by (simp_all add: sender_ok_def newSender_def movedTo_def)

lemma sender_ok_subset:
  assumes "sender_ok st" "\<And>s n. fmlookup (cs_missing st') s = Some n \<Longrightarrow>
      \<exists>m. fmlookup (cs_missing st) s = Some m \<and> n \<le> maxPullAttempts"
  shows "sender_ok st'"
proof -
  have "fmdom' (cs_missing st') \<subseteq> fmdom' (cs_missing st)"
    using assms(2) by (auto simp: fmlookup_dom'_iff)
  then have "card (fmdom' (cs_missing st')) \<le> card (fmdom' (cs_missing st))"
    by (intro card_mono) auto
  then show ?thesis
    using assms by (auto simp: sender_ok_def fmpred_iff)
qed

lemma sender_ok_fmdrop [simp]: "sender_ok st \<Longrightarrow> sender_ok (st\<lparr>cs_missing := fmdrop s (cs_missing st)\<rparr>)"
  by (rule sender_ok_subset [of st]) (auto simp: sender_ok_def fmpred_iff split: if_splits)

lemma sender_ok_trim:
  assumes "fmpred (\<lambda>_ n. n \<le> maxPullAttempts) (cs_missing st)"
  shows "sender_ok (trimLocked st)"
  using assms trimLocked_card [of st] by (auto simp: sender_ok_def fmpred_iff dest!: trimLocked_lookup)

lemma tracker_ok_touch:
  "tracker_ok t \<Longrightarrow> sender_ok st \<Longrightarrow> tracker_ok (touchLocked a st t)"
  by (auto simp: tracker_ok_def touchLocked_card fmpred_iff dest!: touchLocked_lookup)

lemma tracker_ok_modify:
  assumes "tracker_ok t" "\<And>st. fmlookup (ct_senders t) a = Some st \<Longrightarrow> sender_ok (f st)"
  shows "tracker_ok (modifySender a f t)"
  using assms by (auto simp: tracker_ok_def fmpred_iff modifySender_lookup split: if_splits)

lemma tracker_okD: "tracker_ok t \<Longrightarrow> fmlookup (ct_senders t) a = Some st \<Longrightarrow> sender_ok st"
  by (auto simp: tracker_ok_def fmpred_iff)

lemma sender_ok_observe: "sender_ok st \<Longrightarrow> sender_ok (fst (observeSender seq st))"
proof -
  assume ok: "sender_ok st"
  then have "sender_ok (trimLocked (st\<lparr>cs_missing := fillGaps l h (cs_missing st), cs_last := l'\<rparr>))" for l h l'
    by (intro sender_ok_trim) (auto simp: sender_ok_def fmpred_iff fillGaps_lookup split: if_splits)
  then show ?thesis
    using ok by (simp add: observeSender_def)
qed

lemma Observe_ok [inv_intros]:
  assumes "tracker_ok t"
  shows "tracker_ok (fst (Observe t m))"
proof (cases "fmlookup (ct_senders t) (authorOf m)")
  case None
  then show ?thesis
    using assms by (simp add: Observe_def Let_def tracker_ok_touch)
next
  case (Some st0)
  let ?st = "movedTo (m_Sender m) st0"
  have ok1: "tracker_ok (touchLocked (authorOf m) ?st t)"
    using tracker_ok_touch [OF assms] tracker_okD [OF assms Some] by simp
  then have "tracker_ok (modifySender (authorOf m) (\<lambda>s. fst (observeSender (m_Seq m) s))
      (touchLocked (authorOf m) ?st t))"
    by (rule tracker_ok_modify) (rule sender_ok_observe, rule tracker_okD [OF ok1])
  then show ?thesis
    using Some assms by (simp add: Observe_def Let_def)
qed

lemma seedEntry_ok [inv_intros]:
  assumes "tracker_ok t"
  shows "tracker_ok (seedEntry t e)"
proof -
  let ?a = "if ce_Node e = '''' then ce_Sender e else ce_Node e"
  show ?thesis
  proof (cases "fmlookup (ct_senders t) ?a")
    case None
    then show ?thesis
      using assms by (simp add: seedEntry_def Let_def tracker_ok_touch)
  next
    case (Some st)
    have upd: "tracker_ok (t\<lparr>ct_senders := fmupd ?a st' (ct_senders t)\<rparr>)" if "sender_ok st'" for st'
      using assms that fmdom'I [OF Some] by (simp add: tracker_ok_def insert_absorb fmpred_upd)
    show ?thesis
      using assms Some tracker_okD [OF assms Some] by (simp add: seedEntry_def Let_def upd)
  qed
qed

lemma Seed_ok [inv_intros]: "tracker_ok t \<Longrightarrow> tracker_ok (Seed es t)"
  unfolding Seed_def by (induction es arbitrary: t) (auto intro: seedEntry_ok)

text \<open>
  \<open>Announce\<close> for an author already followed: the gaps up to and including the announced number, or
  no result at all when that number is the largest one.
\<close>

lemma Announce_known:
  assumes "a \<noteq> ''''" "fmlookup (ct_senders t) a = Some st"
  shows "Announce t a addr seq =
    (if seq \<le> cs_last st then Some (touchLocked a (movedTo addr st) t)
     else if seq = - 1 then None
     else Some (modifySender a (\<lambda>s. trimLocked
       (s\<lparr>cs_missing := fillGaps (cs_last st + 1) (seq + 1) (cs_missing st), cs_last := seq\<rparr>))
         (touchLocked a (movedTo addr st) t)))"
  using assms by (simp add: Announce_def Let_def announceLoop_diverges announceLoop_fillGaps)

lemma Announce_unknown:
  "a \<noteq> '''' \<Longrightarrow> fmlookup (ct_senders t) a = None \<Longrightarrow>
   Announce t a addr seq = Some (touchLocked a (newSender addr seq) t)"
  by (simp add: Announce_def)

lemma Announce_empty [simp]: "Announce t '''' addr seq = Some t"
  by (simp add: Announce_def)

lemma Announce_ok [inv_intros]:
  assumes "tracker_ok t" "Announce t a addr seq = Some t'"
  shows "tracker_ok t'"
proof (cases "a = '''' \<or> fmlookup (ct_senders t) a = None")
  case True
  then show ?thesis
    using assms by (cases "a = ''''") (auto simp: Announce_unknown tracker_ok_touch)
next
  case False
  then obtain st where st: "fmlookup (ct_senders t) a = Some st" "a \<noteq> ''''"
    by auto
  have ok: "sender_ok st" "tracker_ok (touchLocked a (movedTo addr st) t)"
    using tracker_okD [OF assms(1) st(1)] assms(1) by (simp_all add: tracker_ok_touch)
  have "fmpred (\<lambda>_ n. n \<le> maxPullAttempts) (fillGaps l h (cs_missing st))" for l h
    using ok(1) by (auto simp: sender_ok_def fmpred_iff fillGaps_lookup split: if_splits)
  then have "tracker_ok (modifySender a (\<lambda>s. trimLocked (s\<lparr>cs_missing := fillGaps l h (cs_missing st), cs_last := l'\<rparr>))
      (touchLocked a (movedTo addr st) t))" for l h l'
    using ok(2) by (intro tracker_ok_modify sender_ok_trim) auto
  then show ?thesis
    using assms(2) ok(2) by (auto simp: Announce_known [OF st(2,1)] split: if_splits)
qed

lemma pullSender_lookup:
  "fmlookup (cs_missing (fst (pullSender st))) s =
     (case fmlookup (cs_missing st) s of
        None \<Rightarrow> None
      | Some n \<Rightarrow>
          if cs_addr st = '''' then Some n
          else if n \<ge> maxPullAttempts then None
          else if s \<in> set (take MaxChatPull (map fst (filter (\<lambda>(s, n). \<not> n \<ge> maxPullAttempts)
                 (fmentries (cs_missing st))))) then Some (n + 1)
          else Some n)"
proof -
  let ?es = "fmentries (cs_missing st)"
  have given: "s \<in> fst ` set (filter (\<lambda>(s, n). n \<ge> maxPullAttempts) ?es) \<longleftrightarrow>
      (\<exists>n. fmlookup (cs_missing st) s = Some n \<and> n \<ge> maxPullAttempts)"
    by (force simp: set_fmentries)
  have kept: "s \<in> set (map fst (filter (\<lambda>(s, n). \<not> n \<ge> maxPullAttempts) ?es)) \<longleftrightarrow>
      (\<exists>n. fmlookup (cs_missing st) s = Some n \<and> \<not> n \<ge> maxPullAttempts)"
    by (force simp: set_fmentries)
  show ?thesis
    unfolding pullSender_def Let_def
    using given kept by (auto split: option.split)
qed

lemma pullSender_addr [simp]: "cs_addr (fst (pullSender st)) = cs_addr st" "cs_last (fst (pullSender st)) = cs_last st"
  by (simp_all add: pullSender_def Let_def)

lemma sender_ok_pull: "sender_ok st \<Longrightarrow> sender_ok (fst (pullSender st))"
  by (rule sender_ok_subset [of st])
    (auto simp: pullSender_lookup sender_ok_def fmpred_iff split: option.splits if_splits)

lemma tracker_ok_fmmap:
  assumes "tracker_ok t" "\<And>st. sender_ok st \<Longrightarrow> sender_ok (f st)"
  shows "tracker_ok (t\<lparr>ct_senders := fmmap f (ct_senders t)\<rparr>)"
  using assms by (auto simp: tracker_ok_def fmpred_iff)

lemma PullPlans_ok [inv_intros]: "tracker_ok t \<Longrightarrow> tracker_ok (fst (PullPlans t))"
  by (simp add: PullPlans_def tracker_ok_fmmap sender_ok_pull)

lemma markSeq_simps [simp]: "cs_last (markSeq st s) = cs_last st" "cs_addr (markSeq st s) = cs_addr st"
  by (simp_all add: markSeq_def)

lemma sender_ok_marks: "sender_ok st \<Longrightarrow> sender_ok (foldl markSeq st seqs)"
  by (induction seqs arbitrary: st) (auto simp: markSeq_def)

lemma MarkUnavailable_ok [inv_intros]: "tracker_ok t \<Longrightarrow> tracker_ok (MarkUnavailable addr seqs t)"
  by (simp add: MarkUnavailable_def tracker_ok_fmmap sender_ok_marks)

section \<open>Steps\<close>

text \<open>
  Everything the engine does to its tracker; \<open>Seed\<close> is a sequence of \<open>TSeed\<close> steps.  A step is
  undefined when the announcement loop does not end.
\<close>

datatype tr_cmd =
    TObserve ChatMessage
  | TSeed ChatEntry
  | TAnnounce string string u64
  | TPull
  | TMark string "u64 list"

fun tr_step :: "chatTracker \<Rightarrow> tr_cmd \<Rightarrow> chatTracker option" where
  "tr_step t (TObserve m) = Some (fst (Observe t m))"
| "tr_step t (TSeed e) = Some (seedEntry t e)"
| "tr_step t (TAnnounce a addr seq) = Announce t a addr seq"
| "tr_step t TPull = Some (fst (PullPlans t))"
| "tr_step t (TMark addr seqs) = Some (MarkUnavailable addr seqs t)"

inductive tr_reachable :: "chatTracker \<Rightarrow> bool" where
  tr_start: "tr_reachable newChatTracker"
| tr_next: "tr_reachable t \<Longrightarrow> tr_step t cmd = Some t' \<Longrightarrow> tr_reachable t'"

inductive_cases tr_reachable_cases: "tr_reachable t"

lemma tr_step_ok [inv_intros]: "tracker_ok t \<Longrightarrow> tr_step t cmd = Some t' \<Longrightarrow> tracker_ok t'"
  by (cases cmd) (auto intro: inv_intros)

lemma tr_reachable_ok: "tr_reachable t \<Longrightarrow> tracker_ok t"
proof (induction rule: tr_reachable.induct)
  case tr_start
  then show ?case
    by (simp add: tracker_ok_def newChatTracker_def)
qed (rule tr_step_ok)

section \<open>No line twice\<close>

text \<open>
  What one step may do to the record of an author it keeps: a line that counts as delivered (at or
  below the mark and not missing) stays delivered.
\<close>

definition delivered_in :: "chatSender \<Rightarrow> u64 \<Rightarrow> bool" where
  "delivered_in st s \<longleftrightarrow> s \<le> cs_last st \<and> fmlookup (cs_missing st) s = None"

definition keeps :: "chatSender \<Rightarrow> chatSender \<Rightarrow> bool" where
  "keeps st st' \<longleftrightarrow> (\<forall>s. delivered_in st s \<longrightarrow> delivered_in st' s)"

text \<open>No gap lies beyond the high-water mark, as long as no number is the largest \<open>uint64\<close>.\<close>

definition sender_marks :: "chatSender \<Rightarrow> bool" where
  "sender_marks st \<longleftrightarrow> cs_last st \<noteq> - 1 \<and> fmpred (\<lambda>s _. s \<le> cs_last st) (cs_missing st)"

definition marks_ok :: "chatTracker \<Rightarrow> bool" where
  "marks_ok t \<longleftrightarrow> fmpred (\<lambda>_. sender_marks) (ct_senders t)"

fun cmd_no_wrap :: "tr_cmd \<Rightarrow> bool" where
  "cmd_no_wrap (TObserve m) = (m_Seq m \<noteq> - 1)"
| "cmd_no_wrap (TSeed e) = (ce_Seq e \<noteq> - 1)"
| "cmd_no_wrap (TAnnounce a addr seq) = (seq \<noteq> - 1)"
| "cmd_no_wrap _ = True"

lemma keeps_refl [simp]: "keeps st st"
  by (simp add: keeps_def)

lemma keeps_same:
  "cs_last st \<le> cs_last st' \<Longrightarrow> (\<And>s n. fmlookup (cs_missing st') s = Some n \<Longrightarrow> fmlookup (cs_missing st) s \<noteq> None)
   \<Longrightarrow> keeps st st'"
  unfolding keeps_def delivered_in_def by (metis not_None_eq order_trans)

lemma keeps_fill:
  assumes "cs_last st < seq"
    and "\<And>s n. fmlookup m s = Some n \<Longrightarrow> s \<le> cs_last st \<Longrightarrow> fmlookup (cs_missing st) s \<noteq> None"
  shows "keeps st (trimLocked (st'\<lparr>cs_missing := m, cs_last := seq\<rparr>))"
  unfolding keeps_def delivered_in_def
proof (intro allI impI conjI)
  fix s
  assume s: "s \<le> cs_last st \<and> fmlookup (cs_missing st) s = None"
  then show "s \<le> cs_last (trimLocked (st'\<lparr>cs_missing := m, cs_last := seq\<rparr>))"
    using assms(1) by auto
  show "fmlookup (cs_missing (trimLocked (st'\<lparr>cs_missing := m, cs_last := seq\<rparr>))) s = None"
    using s assms(2) [of s] trimLocked_lookup [of "st'\<lparr>cs_missing := m, cs_last := seq\<rparr>" s]
    by (cases "fmlookup (cs_missing (trimLocked (st'\<lparr>cs_missing := m, cs_last := seq\<rparr>))) s") auto
qed

text \<open>The four branches of \<open>Observe\<close> for an author already followed.\<close>

lemma Observe_known:
  assumes "m_Seq m \<noteq> 0" "authorOf m \<noteq> ''''" "fmlookup (ct_senders t) (authorOf m) = Some st"
  shows "Observe t m =
    (modifySender (authorOf m) (\<lambda>s. fst (observeSender (m_Seq m) s)) (touchLocked (authorOf m) (movedTo (m_Sender m) st) t),
     snd (observeSender (m_Seq m) st))"
  using assms by (simp add: Observe_def Let_def observeSender_def)

lemma observeSender_keeps:
  assumes "cs_last st \<noteq> - 1" "seq \<noteq> - 1"
  shows "keeps st (fst (observeSender seq st)) \<and> cs_last (fst (observeSender seq st)) \<noteq> - 1"
proof -
  have inc: "cs_last st + 1 \<le> x \<longleftrightarrow> cs_last st < x" for x
    using assms(1) by (rule word_less_Suc_iff)
  have "keeps st (st\<lparr>cs_last := seq\<rparr>)" if "seq = cs_last st + 1"
    using that inc [of seq] by (auto intro!: keeps_same)
  moreover have "keeps st (trimLocked (st\<lparr>cs_missing := fillGaps (cs_last st + 1) seq (cs_missing st), cs_last := seq\<rparr>))"
    if "seq > cs_last st + 1"
  proof (rule keeps_fill)
    show "cs_last st < seq"
      using less_imp_le [OF that] inc [of seq] by simp
    show "fmlookup (cs_missing st) s \<noteq> None"
      if "fmlookup (fillGaps (cs_last st + 1) seq (cs_missing st)) s = Some n" "s \<le> cs_last st" for s n
      using that inc [of s] by (auto simp: fillGaps_lookup split: if_splits)
  qed
  moreover have "keeps st (st\<lparr>cs_missing := fmdrop seq (cs_missing st), cs_recovered := cs_recovered st + 1\<rparr>)"
    by (rule keeps_same) (auto split: if_splits)
  ultimately have "keeps st (fst (observeSender seq st))"
    by (simp add: observeSender_def)
  moreover have "cs_last (fst (observeSender seq st)) \<in> {seq, cs_last st}"
    by (simp add: observeSender_def)
  ultimately show ?thesis
    using assms by auto
qed

lemma keeps_trans: "keeps st st' \<Longrightarrow> keeps st' st'' \<Longrightarrow> keeps st st''"
  by (simp add: keeps_def)

lemma touchLocked_keeps:
  assumes "fmlookup (ct_senders t) a = Some st" "fmlookup (ct_senders (touchLocked b st1 t)) a = Some st'"
    and "a = b \<Longrightarrow> cs_last st1 = cs_last st \<and> cs_missing st1 = cs_missing st"
  shows "keeps st st' \<and> cs_last st' = cs_last st"
  using touchLocked_lookup [OF assms(2)] assms(1,3) by (auto intro!: keeps_same)

lemma Observe_keeps:
  assumes "fmlookup (ct_senders t) a = Some st" "fmlookup (ct_senders (fst (Observe t m))) a = Some st'"
    and "cs_last st \<noteq> - 1" "m_Seq m \<noteq> - 1"
  shows "keeps st st' \<and> cs_last st' \<noteq> - 1"
proof (cases "m_Seq m = 0 \<or> authorOf m = '''' \<or> fmlookup (ct_senders t) (authorOf m) = None")
  case True
  then show ?thesis
    using assms by (auto simp: Observe_def Let_def dest!: touchLocked_lookup split: if_splits)
next
  case False
  then obtain s0 where s0: "fmlookup (ct_senders t) (authorOf m) = Some s0"
    by auto
  let ?t1 = "touchLocked (authorOf m) (movedTo (m_Sender m) s0) t"
  have t': "fst (Observe t m) = modifySender (authorOf m) (\<lambda>s. fst (observeSender (m_Seq m) s)) ?t1"
    using False s0 by (simp add: Observe_known)
  obtain s1 where s1: "fmlookup (ct_senders ?t1) a = Some s1"
    using assms(2) unfolding t' by (auto simp: modifySender_lookup split: if_splits)
  have k1: "keeps st s1 \<and> cs_last s1 = cs_last st"
    by (rule touchLocked_keeps [OF assms(1) s1]) (use s0 assms(1) in auto)
  have "st' = (if a = authorOf m then fst (observeSender (m_Seq m) s1) else s1)"
    using assms(2) s1 unfolding t' by (auto simp: modifySender_lookup split: if_splits)
  then show ?thesis
    using k1 observeSender_keeps [of s1 "m_Seq m"] assms(3,4) by (auto intro: keeps_trans)
qed

lemma seedEntry_keeps:
  assumes "fmlookup (ct_senders t) a = Some st" "fmlookup (ct_senders (seedEntry t e)) a = Some st'"
    and "cs_last st \<noteq> - 1" "ce_Seq e \<noteq> - 1"
  shows "keeps st st' \<and> cs_last st' \<noteq> - 1"
proof (cases "fmlookup (ct_senders t) (if ce_Node e = '''' then ce_Sender e else ce_Node e)")
  case None
  then show ?thesis
    using assms by (auto simp: seedEntry_def Let_def dest!: touchLocked_lookup split: if_splits)
next
  case (Some s0)
  have "cs_last st \<le> cs_last st' \<and> cs_last st' \<noteq> - 1
      \<and> (\<forall>s n. fmlookup (cs_missing st') s = Some n \<longrightarrow> fmlookup (cs_missing st) s = Some n)"
    using assms Some by (auto simp: seedEntry_def Let_def split: if_splits)
  then show ?thesis
    by (auto intro!: keeps_same)
qed

lemma Announce_keeps:
  assumes "fmlookup (ct_senders t) a = Some st" "Announce t b addr seq = Some t'"
    and "fmlookup (ct_senders t') a = Some st'" "cs_last st \<noteq> - 1"
  shows "keeps st st' \<and> cs_last st' \<noteq> - 1"
proof (cases "b = '''' \<or> fmlookup (ct_senders t) b = None")
  case True
  then show ?thesis
    using assms by (cases "b = ''''") (auto simp: Announce_unknown dest!: touchLocked_lookup)
next
  case False
  then obtain s0 where s0: "fmlookup (ct_senders t) b = Some s0" "b \<noteq> ''''"
    by auto
  note ann = Announce_known [OF s0(2,1), of addr seq]
  have keeps1: "keeps st x \<and> cs_last x = cs_last st"
    if "fmlookup (ct_senders (touchLocked b (movedTo addr s0) t)) a = Some x" for x
    by (rule touchLocked_keeps [OF assms(1) that]) (use s0 assms(1) in auto)
  show ?thesis
  proof (cases "seq \<le> cs_last s0 \<or> a \<noteq> b")
    case True
    then have "fmlookup (ct_senders (touchLocked b (movedTo addr s0) t)) a = Some st'"
      using assms(2,3) by (auto simp: ann modifySender_lookup split: if_splits)
    then show ?thesis
      using keeps1 assms(4) by auto
  next
    case False
    then have ab: "s0 = st" "cs_last st < seq" "a = b"
      using s0 assms(1) by auto
    have inc: "cs_last st + 1 \<le> x \<longleftrightarrow> cs_last st < x" for x
      using assms(4) by (rule word_less_Suc_iff)
    obtain x where x: "seq \<noteq> - 1"
        "st' = trimLocked (x\<lparr>cs_missing := fillGaps (cs_last st + 1) (seq + 1) (cs_missing st), cs_last := seq\<rparr>)"
      using assms(2,3) False ab by (auto simp: ann modifySender_lookup split: if_splits)
    have "fmlookup (cs_missing st) s \<noteq> None"
      if "fmlookup (fillGaps (cs_last st + 1) (seq + 1) (cs_missing st)) s = Some n" "s \<le> cs_last st" for s n
      using that inc [of s] by (auto simp: fillGaps_lookup split: if_splits)
    then show ?thesis
      unfolding x(2) using keeps_fill [OF ab(2)] x(1) by auto
  qed
qed

lemma markSeq_lookup:
  "fmlookup (cs_missing (markSeq st x)) s = (if s = x then None else fmlookup (cs_missing st) s)"
  by (auto simp: markSeq_def)

lemma markSeqs_lookup:
  "fmlookup (cs_missing (foldl markSeq st seqs)) s = Some n \<Longrightarrow> fmlookup (cs_missing st) s = Some n"
  by (induction seqs arbitrary: st) (fastforce simp: markSeq_lookup split: if_splits)+

lemma markSeqs_last [simp]: "cs_last (foldl markSeq st seqs) = cs_last st"
  by (induction seqs arbitrary: st) auto

lemma tr_step_keeps:
  assumes "fmlookup (ct_senders t) a = Some st" "tr_step t cmd = Some t'"
    and "fmlookup (ct_senders t') a = Some st'" "cs_last st \<noteq> - 1" "cmd_no_wrap cmd"
  shows "keeps st st' \<and> cs_last st' \<noteq> - 1"
proof (cases cmd)
  case (TObserve m)
  then show ?thesis
    using assms Observe_keeps by auto
next
  case (TSeed e)
  then show ?thesis
    using assms seedEntry_keeps by auto
next
  case (TAnnounce b addr seq)
  then show ?thesis
    using assms Announce_keeps by auto
next
  case TPull
  then have "st' = fst (pullSender st)"
    using assms by (auto simp: PullPlans_def)
  then show ?thesis
    using assms(4) by (auto intro!: keeps_same simp: pullSender_lookup split: option.splits)
next
  case (TMark addr seqs)
  then have "st' = (if cs_addr st \<noteq> addr then st else foldl markSeq st seqs)"
    using assms by (auto simp: MarkUnavailable_def)
  then show ?thesis
    using assms(4) by (auto intro!: keeps_same dest: markSeqs_lookup)
qed

text \<open>A run in which the author \<open>a\<close> is followed at every point.\<close>

fun tr_run :: "string \<Rightarrow> chatTracker \<Rightarrow> tr_cmd list \<Rightarrow> chatTracker option" where
  "tr_run a t [] = (if fmlookup (ct_senders t) a = None then None else Some t)"
| "tr_run a t (c # cs) =
     (if fmlookup (ct_senders t) a = None then None
      else case tr_step t c of None \<Rightarrow> None | Some t' \<Rightarrow> tr_run a t' cs)"

lemma tr_run_tracked: "tr_run a t cs = Some t' \<Longrightarrow> \<exists>st. fmlookup (ct_senders t) a = Some st"
  by (cases cs) (auto split: if_splits)

lemma tr_run_keeps:
  "tr_run a t cs = Some t' \<Longrightarrow> list_all cmd_no_wrap cs \<Longrightarrow> fmlookup (ct_senders t) a = Some st \<Longrightarrow>
   cs_last st \<noteq> - 1 \<Longrightarrow> \<exists>st'. fmlookup (ct_senders t') a = Some st' \<and> keeps st st' \<and> cs_last st' \<noteq> - 1"
proof (induction cs arbitrary: t st)
  case (Cons c cs)
  then obtain t1 where t1: "tr_step t c = Some t1" "tr_run a t1 cs = Some t'"
    by (auto split: if_splits option.splits)
  then obtain st1 where st1: "fmlookup (ct_senders t1) a = Some st1"
    using tr_run_tracked by blast
  have "keeps st st1 \<and> cs_last st1 \<noteq> - 1"
    using tr_step_keeps [OF Cons.prems(3) t1(1) st1] Cons.prems by simp
  then show ?case
    using Cons.IH [OF t1(2) _ st1] Cons.prems(2) keeps_trans by fastforce
qed auto

lemma sender_marks_simps [simp]:
  "sender_marks (newSender a s) = (s \<noteq> - 1)" "sender_marks (st\<lparr>cs_touched := c\<rparr>) = sender_marks st"
  "sender_marks (st\<lparr>cs_addr := ad\<rparr>) = sender_marks st" "sender_marks (movedTo ad st) = sender_marks st"
  by (simp_all add: sender_marks_def newSender_def movedTo_def)

lemma sender_marks_mono:
  assumes "sender_marks st" "cs_last st \<le> cs_last st'" "cs_last st' \<noteq> - 1"
    and "\<And>s n. fmlookup (cs_missing st') s = Some n \<Longrightarrow> s \<le> cs_last st' \<or> fmlookup (cs_missing st) s \<noteq> None"
  shows "sender_marks st'"
  unfolding sender_marks_def fmpred_iff
proof (intro conjI allI impI)
  fix s n
  assume "fmlookup (cs_missing st') s = Some n"
  then have "s \<le> cs_last st' \<or> (\<exists>n'. fmlookup (cs_missing st) s = Some n')"
    using assms(4) by blast
  then show "s \<le> cs_last st'"
    using assms(1,2) by (auto simp: sender_marks_def intro: order_trans)
qed (rule assms(3))

lemma sender_marks_observe:
  assumes "sender_marks st" "seq \<noteq> - 1"
  shows "sender_marks (fst (observeSender seq st))"
proof (rule sender_marks_mono [OF assms(1)])
  have nw: "cs_last st \<noteq> - 1"
    using assms(1) by (simp add: sender_marks_def)
  then have inc: "cs_last st + 1 \<le> x \<longleftrightarrow> cs_last st < x" for x
    by (rule word_less_Suc_iff)
  show "cs_last st \<le> cs_last (fst (observeSender seq st))"
    using inc [of seq] by (auto simp: observeSender_def)
  show "cs_last (fst (observeSender seq st)) \<noteq> - 1"
    using observeSender_keeps [OF nw assms(2)] by simp
  show "s \<le> cs_last (fst (observeSender seq st)) \<or> fmlookup (cs_missing st) s \<noteq> None"
    if "fmlookup (cs_missing (fst (observeSender seq st))) s = Some n" for s n
    using that by (auto simp: observeSender_def fillGaps_lookup dest!: trimLocked_lookup split: if_splits)
qed

lemma marks_ok_touch: "marks_ok t \<Longrightarrow> sender_marks st \<Longrightarrow> marks_ok (touchLocked a st t)"
  by (auto simp: marks_ok_def fmpred_iff dest!: touchLocked_lookup)

lemma marks_ok_modify:
  assumes "marks_ok t" "\<And>st. sender_marks st \<Longrightarrow> sender_marks (f st)"
  shows "marks_ok (modifySender a f t)"
  using assms by (auto simp: marks_ok_def fmpred_iff modifySender_lookup split: if_splits)

lemma marks_okD: "marks_ok t \<Longrightarrow> fmlookup (ct_senders t) a = Some st \<Longrightarrow> sender_marks st"
  by (auto simp: marks_ok_def fmpred_iff)

lemma marks_ok_fmmap:
  assumes "marks_ok t" "\<And>st. sender_marks st \<Longrightarrow> sender_marks (f st)"
  shows "marks_ok (t\<lparr>ct_senders := fmmap f (ct_senders t)\<rparr>)"
  using assms by (auto simp: marks_ok_def fmpred_iff)

lemma Observe_marks: 
  assumes "marks_ok t" "m_Seq m \<noteq> - 1"
  shows "marks_ok (fst (Observe t m))"
proof (cases "fmlookup (ct_senders t) (authorOf m)")
  case None
  then show ?thesis
    using assms by (simp add: Observe_def Let_def marks_ok_touch)
next
  case (Some st)
  have "marks_ok (touchLocked (authorOf m) (movedTo (m_Sender m) st) t)"
    using assms(1) marks_okD [OF assms(1) Some] by (simp add: marks_ok_touch)
  then have "marks_ok (modifySender (authorOf m) (\<lambda>s. fst (observeSender (m_Seq m) s))
      (touchLocked (authorOf m) (movedTo (m_Sender m) st) t))"
    using assms(2) by (intro marks_ok_modify sender_marks_observe)
  then show ?thesis
    using assms(1) Some by (simp add: Observe_def Let_def)
qed

lemma seedEntry_marks:
  assumes "marks_ok t" "ce_Seq e \<noteq> - 1"
  shows "marks_ok (seedEntry t e)"
proof (cases "fmlookup (ct_senders t) (if ce_Node e = '''' then ce_Sender e else ce_Node e)")
  case None
  then show ?thesis
    using assms by (simp add: seedEntry_def Let_def marks_ok_touch)
next
  case (Some st)
  let ?a = "if ce_Node e = '''' then ce_Sender e else ce_Node e"
  have upd: "marks_ok (t\<lparr>ct_senders := fmupd ?a st' (ct_senders t)\<rparr>)" if "sender_marks st'" for st'
    using assms(1) that by (simp add: marks_ok_def fmpred_upd)
  have drop: "sender_marks (s\<lparr>cs_missing := fmdrop x (cs_missing s), cs_recovered := r\<rparr>)"
      if "sender_marks s" for s x r
    using that by (auto simp: sender_marks_def fmpred_iff)
  have raise: "sender_marks (s\<lparr>cs_last := x\<rparr>)" if "sender_marks s" "cs_last s < x" "x \<noteq> - 1" for s x
    using that by (auto simp: sender_marks_def fmpred_iff intro: order_trans less_imp_le)
  have raise2: "sender_marks (s\<lparr>cs_missing := fmdrop y (cs_missing s), cs_recovered := r, cs_last := x\<rparr>)"
    if "sender_marks s" "cs_last s < x" "x \<noteq> - 1" for s x y r
    using raise [OF drop [OF that(1)]] that by simp
  show ?thesis
    using assms Some marks_okD [OF assms(1) Some]
    by (simp add: seedEntry_def Let_def upd drop raise raise2)
qed

lemma Announce_marks:
  assumes "marks_ok t" "Announce t a addr seq = Some t'" "seq \<noteq> - 1"
  shows "marks_ok t'"
proof (cases "a = '''' \<or> fmlookup (ct_senders t) a = None")
  case True
  then show ?thesis
    using assms by (cases "a = ''''") (auto simp: Announce_unknown marks_ok_touch)
next
  case False
  then obtain st where st: "fmlookup (ct_senders t) a = Some st" "a \<noteq> ''''"
    by auto
  have ok: "sender_marks st" "marks_ok (touchLocked a (movedTo addr st) t)"
    using marks_okD [OF assms(1) st(1)] assms(1) by (simp_all add: marks_ok_touch)
  have "sender_marks (trimLocked (s\<lparr>cs_missing := fillGaps l (seq + 1) (cs_missing st), cs_last := seq\<rparr>))"
    if "cs_last st < seq" for s l
    using that by (intro sender_marks_mono [OF ok(1)])
      (auto simp: fillGaps_lookup assms(3) word_less_inc_iff dest!: trimLocked_lookup split: if_splits)
  then show ?thesis
    using assms(2) ok(2) by (auto simp: Announce_known [OF st(2,1)] marks_ok_def fmpred_iff modifySender_lookup split: if_splits)
qed

lemma tr_step_marks: "marks_ok t \<Longrightarrow> tr_step t cmd = Some t' \<Longrightarrow> cmd_no_wrap cmd \<Longrightarrow> marks_ok t'"
proof (cases cmd)
  case TPull
  assume "marks_ok t" "tr_step t cmd = Some t'"
  moreover have "sender_marks (fst (pullSender st))" if "sender_marks st" for st
    using that by (auto simp: sender_marks_def fmpred_iff pullSender_lookup split: option.splits if_splits)
  ultimately show ?thesis
    using TPull by (auto simp: PullPlans_def intro: marks_ok_fmmap)
next
  case (TMark addr seqs)
  assume "marks_ok t" "tr_step t cmd = Some t'"
  moreover have "sender_marks (foldl markSeq st seqs)" if "sender_marks st" for st
    using that by (auto simp: sender_marks_def fmpred_iff dest!: markSeqs_lookup)
  ultimately show ?thesis
    using TMark by (auto simp: MarkUnavailable_def intro!: marks_ok_fmmap)
qed (auto intro: Observe_marks seedEntry_marks Announce_marks)

fun tr_steps :: "chatTracker \<Rightarrow> tr_cmd list \<Rightarrow> chatTracker option" where
  "tr_steps t [] = Some t"
| "tr_steps t (c # cs) = (case tr_step t c of None \<Rightarrow> None | Some t' \<Rightarrow> tr_steps t' cs)"

lemma tr_steps_marks: "tr_steps t cs = Some t' \<Longrightarrow> marks_ok t \<Longrightarrow> list_all cmd_no_wrap cs \<Longrightarrow> marks_ok t'"
  by (induction cs arbitrary: t) (auto intro: tr_step_marks split: option.splits)

lemma Observe_accepted_delivered:
  assumes "Observe t m = (t', r)" "r \<noteq> chatDuplicate" "m_Seq m \<noteq> 0" "m_Seq m \<noteq> - 1" "authorOf m \<noteq> ''''"
    and "fmlookup (ct_senders t') (authorOf m) = Some st'" "marks_ok t"
  shows "delivered_in st' (m_Seq m)"
proof (cases "fmlookup (ct_senders t) (authorOf m)")
  case None
  then show ?thesis
    using assms by (auto simp: Observe_def Let_def delivered_in_def newSender_def dest!: touchLocked_lookup)
next
  case (Some st)
  have mk: "cs_last st \<noteq> - 1" "\<And>s n. fmlookup (cs_missing st) s = Some n \<Longrightarrow> s \<le> cs_last st"
    using marks_okD [OF assms(7) Some] by (auto simp: sender_marks_def fmpred_iff)
  have inc: "cs_last st + 1 \<le> x \<longleftrightarrow> cs_last st < x" for x
    using mk(1) by (rule word_less_Suc_iff)
  obtain s1 where s1: "fmlookup (ct_senders (touchLocked (authorOf m) (movedTo (m_Sender m) st) t)) (authorOf m) = Some s1"
      "st' = fst (observeSender (m_Seq m) s1)" "r = snd (observeSender (m_Seq m) st)"
    using assms(1,3,5,6) Some by (auto simp: Observe_known modifySender_lookup)
  have eq: "cs_last s1 = cs_last st" "cs_missing s1 = cs_missing st"
    using touchLocked_lookup [OF s1(1)] by auto
  have none: "fmlookup (cs_missing st) (m_Seq m) = None" if "cs_last st < m_Seq m"
    using mk(2) [of "m_Seq m"] that by (cases "fmlookup (cs_missing st) (m_Seq m)") auto
  have trim: "fmlookup (cs_missing (trimLocked (s1\<lparr>cs_missing := fillGaps l (m_Seq m) (cs_missing st), cs_last := x\<rparr>))) (m_Seq m) = None"
    if "cs_last st < m_Seq m" for l x
    using trimLocked_lookup [of "s1\<lparr>cs_missing := fillGaps l (m_Seq m) (cs_missing st), cs_last := x\<rparr>" "m_Seq m"]
      none [OF that]
    by (cases "fmlookup (cs_missing (trimLocked (s1\<lparr>cs_missing := fillGaps l (m_Seq m) (cs_missing st), cs_last := x\<rparr>))) (m_Seq m)")
      (auto simp: fillGaps_lookup)
  show ?thesis
    using assms(2) s1(2,3) eq inc [of "m_Seq m"] none trim
    by (auto simp: delivered_in_def observeSender_def split: if_splits)
qed

section \<open>Pulling comes to an end\<close>

definition gapWeight :: "nat option \<Rightarrow> nat" where
  "gapWeight x = (case x of None \<Rightarrow> 0 | Some n \<Rightarrow> Suc (maxPullAttempts - n))"

definition senderWeight :: "chatSender \<Rightarrow> nat" where
  "senderWeight st = (\<Sum>s\<in>fmdom' (cs_missing st). gapWeight (fmlookup (cs_missing st) s))"

lemma gapWeight_zero [simp]: "gapWeight x = 0 \<longleftrightarrow> x = None"
  by (auto simp: gapWeight_def split: option.split)

lemma gapWeight_pull: "gapWeight (fmlookup (cs_missing (fst (pullSender st))) s) \<le> gapWeight (fmlookup (cs_missing st) s)"
  by (auto simp: gapWeight_def pullSender_lookup split: option.splits)

lemma senderWeight_pull_alt:
  "senderWeight (fst (pullSender st)) = (\<Sum>s\<in>fmdom' (cs_missing st). gapWeight (fmlookup (cs_missing (fst (pullSender st))) s))"
  unfolding senderWeight_def
proof (rule sum.mono_neutral_left)
  show "fmdom' (cs_missing (fst (pullSender st))) \<subseteq> fmdom' (cs_missing st)"
    by (auto simp: fmlookup_dom'_iff pullSender_lookup split: option.splits)
qed (auto simp: fmlookup_dom'_iff)

lemma senderWeight_le: "senderWeight (fst (pullSender st)) \<le> senderWeight st"
  unfolding senderWeight_pull_alt senderWeight_def [of st] by (rule sum_mono) (rule gapWeight_pull)

text \<open>A sender with an address and a gap is charged for the gap, or gives it up.\<close>

lemma senderWeight_less:
  assumes "cs_addr st \<noteq> ''''" "cs_missing st \<noteq> fmempty"
  shows "senderWeight (fst (pullSender st)) < senderWeight st"
proof -
  let ?kept = "map fst (filter (\<lambda>(s, n). \<not> n \<ge> maxPullAttempts) (fmentries (cs_missing st)))"
  have "\<exists>s\<in>fmdom' (cs_missing st). gapWeight (fmlookup (cs_missing (fst (pullSender st))) s) < gapWeight (fmlookup (cs_missing st) s)"
  proof (cases ?kept)
    case Nil
    obtain s n where s: "fmlookup (cs_missing st) s = Some n"
      using assms(2) by (metis fmap_ext fmempty_lookup option.exhaust)
    then have "n \<ge> maxPullAttempts"
      using Nil by (auto simp: filter_empty_conv set_fmentries)
    then show ?thesis
      using s assms(1) by (intro bexI [of _ s]) (auto simp: pullSender_lookup gapWeight_def intro: fmdom'I)
  next
    case (Cons s ss)
    then have "s \<in> set ?kept" "s \<in> set (take MaxChatPull ?kept)"
      by (simp_all add: MaxChatPull_def)
    moreover from this obtain n where "fmlookup (cs_missing st) s = Some n" "n < maxPullAttempts"
      by (auto simp: set_fmentries)
    ultimately show ?thesis
      using assms(1) by (intro bexI [of _ s]) (auto simp: pullSender_lookup gapWeight_def intro: fmdom'I)
  qed
  then show ?thesis
    unfolding senderWeight_pull_alt senderWeight_def [of st]
    by (intro sum_strict_mono_ex1) (auto intro: gapWeight_pull)
qed

definition trackerWeight :: "chatTracker \<Rightarrow> nat" where
  "trackerWeight t = (\<Sum>a\<in>fmdom' (ct_senders t). senderWeight (the (fmlookup (ct_senders t) a)))"

definition pull_quiet :: "chatTracker \<Rightarrow> bool" where
  "pull_quiet t \<longleftrightarrow> fmpred (\<lambda>_ st. cs_addr st = '''' \<or> cs_missing st = fmempty) (ct_senders t)"

lemma PullPlans_weight:
  assumes "\<not> pull_quiet t"
  shows "trackerWeight (fst (PullPlans t)) < trackerWeight t"
proof -
  have dom: "fmdom' (ct_senders (fst (PullPlans t))) = fmdom' (ct_senders t)"
    by (simp add: PullPlans_def)
  obtain a st where a: "fmlookup (ct_senders t) a = Some st" "cs_addr st \<noteq> ''''" "cs_missing st \<noteq> fmempty"
    using assms by (auto simp: pull_quiet_def fmpred_iff)
  show ?thesis
    unfolding trackerWeight_def dom
  proof (rule sum_strict_mono_ex1)
    show "\<forall>x\<in>fmdom' (ct_senders t). senderWeight (the (fmlookup (ct_senders (fst (PullPlans t))) x))
        \<le> senderWeight (the (fmlookup (ct_senders t) x))"
      by (auto simp: PullPlans_def fmlookup_dom'_iff senderWeight_le)
    show "\<exists>x\<in>fmdom' (ct_senders t). senderWeight (the (fmlookup (ct_senders (fst (PullPlans t))) x))
        < senderWeight (the (fmlookup (ct_senders t) x))"
      using a senderWeight_less [OF a(2,3)] by (intro bexI [of _ a]) (auto simp: PullPlans_def intro: fmdom'I)
  qed simp
qed

lemma pulls_end_aux: "trackerWeight t \<le> n \<Longrightarrow> \<exists>k\<le>n. pull_quiet (((\<lambda>t. fst (PullPlans t)) ^^ k) t)"
proof (induction n arbitrary: t rule: less_induct)
  case (less n)
  show ?case
  proof (cases "pull_quiet t")
    case True
    then show ?thesis
      by (intro exI [of _ 0]) simp
  next
    case False
    have lt: "trackerWeight (fst (PullPlans t)) < n"
      using PullPlans_weight [OF False] less.prems by simp
    obtain k where "k \<le> trackerWeight (fst (PullPlans t))" "pull_quiet (((\<lambda>t. fst (PullPlans t)) ^^ k) (fst (PullPlans t)))"
      using less.IH [OF lt le_refl] by blast
    then show ?thesis
      using lt by (intro exI [of _ "Suc k"]) (simp add: funpow_Suc_right del: funpow.simps)
  qed
qed

section \<open>Properties\<close>

text \<open>
  Bounded bookkeeping: in every state the tracker can reach, at most \<open>maxTrackedAuthors\<close> authors
  are followed, at most \<open>maxTrackedGaps\<close> gaps are held for each, and no gap has been asked for more
  than \<open>maxPullAttempts\<close> times.
\<close>

theorem tracker_bounded:
  assumes "tr_reachable t"
  shows "card (fmdom' (ct_senders t)) \<le> maxTrackedAuthors
    \<and> (\<forall>a st. fmlookup (ct_senders t) a = Some st \<longrightarrow>
         card (fmdom' (cs_missing st)) \<le> maxTrackedGaps
         \<and> (\<forall>s n. fmlookup (cs_missing st) s = Some n \<longrightarrow> n \<le> maxPullAttempts))"
  using tr_reachable_ok [OF assms] by (auto simp: tracker_ok_def sender_ok_def fmpred_iff)

text \<open>Line 1 of an author, then line 4, then an announcement of 5.\<close>

definition demo_line :: "u64 \<Rightarrow> ChatMessage" where
  "demo_line s = \<lparr>m_Sender = ''h:1'', m_Nick = ''al'', m_Text = ''hi'', m_TS = 0, m_Action = False,
     m_To = '''', m_Seq = s, m_Node = ''n1'', m_Hops = 0\<rparr>"

definition demo_tracker :: chatTracker where
  "demo_tracker = fst (Observe (fst (Observe newChatTracker (demo_line 1))) (demo_line 4))"

lemma demo_tracker_reachable: "tr_reachable demo_tracker"
proof -
  have "tr_reachable (fst (Observe newChatTracker (demo_line 1)))"
    by (rule tr_next [OF tr_start, of "TObserve (demo_line 1)"]) simp
  then show ?thesis
    unfolding demo_tracker_def by (rule tr_next [of _ "TObserve (demo_line 4)"]) simp
qed

lemmas eval_tracker = demo_line_def Observe_def newChatTracker_def authorOf_def touchLocked_def
  newSender_def modifySender_def observeSender_def movedTo_def fillGaps.simps maxTrackedAuthors_def
  trimLocked_def maxTrackedGaps_def fmkeys_def fcard.rep_eq Let_def

lemma demo_tracker_senders:
  "ct_senders demo_tracker = fmupd ''n1'' \<lparr>cs_addr = ''h:1'', cs_last = 4,
     cs_missing = fmupd 3 0 (fmupd 2 0 fmempty), cs_lost = 0, cs_recovered = 0, cs_touched = 2\<rparr> fmempty"
  by (simp add: demo_tracker_def eval_tracker)

theorem tracker_bounded_witness:
  "card (fmdom' (cs_missing (the (fmlookup (ct_senders demo_tracker) ''n1'')))) \<le> maxTrackedGaps
   \<and> fmlookup (ct_senders demo_tracker) ''n1'' \<noteq> None"
proof -
  obtain st where st: "fmlookup (ct_senders demo_tracker) ''n1'' = Some st"
    by (simp add: demo_tracker_senders)
  then show ?thesis
    using tracker_bounded [OF demo_tracker_reachable] by simp
qed

text \<open>
  C19.  A line is shown at most once.  From a new tracker, after any observations, announcements, seeds, pulls and
  give-ups, a sequenced line of an author is accepted: every later copy of it is reported as a duplicate, whatever
  else happens in between, as long as the author stays followed and no sequence number the tracker was given, before
  or after, is the largest \<open>uint64\<close>.  The last condition is needed: \<open>wrapped_seed_shows_again\<close> below.
\<close>

theorem chat_at_most_once:
  assumes "tr_steps newChatTracker cs0 = Some t" "list_all cmd_no_wrap cs0" "Observe t m = (t0, r)" "r \<noteq> chatDuplicate"
    and "m_Seq m \<noteq> 0" "m_Seq m \<noteq> - 1" "authorOf m \<noteq> ''''"
    and "tr_run (authorOf m) t0 cs = Some t'" "list_all cmd_no_wrap cs"
    and "authorOf m' = authorOf m" "m_Seq m' = m_Seq m"
  shows "snd (Observe t' m') = chatDuplicate"
proof -
  have marks: "marks_ok t"
    by (rule tr_steps_marks [OF assms(1) _ assms(2)]) (simp add: marks_ok_def newChatTracker_def)
  obtain st0 where st0: "fmlookup (ct_senders t0) (authorOf m) = Some st0"
    using tr_run_tracked [OF assms(8)] by blast
  have "delivered_in st0 (m_Seq m)"
    using Observe_accepted_delivered [OF assms(3-7) st0 marks] .
  moreover have "cs_last st0 \<noteq> - 1"
    using Observe_marks [OF marks assms(6)] assms(3) marks_okD [OF _ st0] by (simp add: sender_marks_def)
  ultimately obtain st' where st': "fmlookup (ct_senders t') (authorOf m) = Some st'"
      "delivered_in st' (m_Seq m)" "cs_last st' \<noteq> - 1"
    using tr_run_keeps [OF assms(8,9) st0] by (auto simp: keeps_def)
  have "\<not> cs_last st' + 1 \<le> m_Seq m"
    using st'(2,3) by (auto simp: delivered_in_def word_less_Suc_iff)
  then have "snd (observeSender (m_Seq m) st') = chatDuplicate"
    using st'(2) by (auto simp: delivered_in_def observeSender_def)
  then show ?thesis
    using assms(5,7,10,11) st'(1) by (simp add: Observe_known)
qed

theorem chat_at_most_once_witness:
  "snd (Observe (fst (PullPlans demo_tracker)) (demo_line 4)) = chatDuplicate"
proof (rule chat_at_most_once [where t = "fst (Observe newChatTracker (demo_line 1))" and m = "demo_line 4" and r = chatAccept and cs = "[TPull]"
    and t0 = demo_tracker and ?cs0.0 = "[TObserve (demo_line 1)]"])
  show "tr_run (authorOf (demo_line 4)) demo_tracker [TPull] = Some (fst (PullPlans demo_tracker))"
    by (simp add: demo_tracker_senders PullPlans_def) (simp add: demo_line_def authorOf_def)
  show "Observe (fst (Observe newChatTracker (demo_line 1))) (demo_line 4) = (demo_tracker, chatAccept)"
    unfolding demo_tracker_def by (rule prod_eqI) (simp_all add: eval_tracker)
qed (simp_all add: demo_line_def authorOf_def)

text \<open>
  A number of \<open>2 ^ 64 - 1\<close> in a chat backlog takes the mark to the top; the next number then wraps to 0, so the line
  already shown is taken for a new one and shown again.
\<close>

definition top_entry :: ChatEntry where
  "top_entry = zero_ChatEntry\<lparr>ce_Sender := ''h:1'', ce_Node := ''n1'', ce_Seq := - 1\<rparr>"

lemma wrapped_seed_shows_again:
  "snd (Observe newChatTracker (demo_line 1)) = chatAccept
   \<and> snd (Observe (fst (Observe newChatTracker (demo_line 1))) (demo_line 1)) = chatDuplicate
   \<and> snd (Observe (seedEntry (fst (Observe newChatTracker (demo_line 1))) top_entry) (demo_line 1)) = chatAccept"
proof -
  have "(1 :: u64) < - 1"
    by (simp flip: word_order.not_eq_extremum)
  then show ?thesis
    by (simp add: eval_tracker seedEntry_def top_entry_def zero_ChatEntry_def)
qed

text \<open>
  What a line from a known author records: the next line raises the mark; a later one names
  exactly the skipped lines as gaps (trimmed to the newest \<open>maxTrackedGaps\<close>); one that was being
  waited for closes its gap; and only those lines are shown.
\<close>

theorem observe_exact:
  assumes "cs_last st \<noteq> - 1" "card (fmdom' (cs_missing (fst (observeSender seq st)))) < maxTrackedGaps"
  shows "cs_last (fst (observeSender seq st)) = max (cs_last st) seq
    \<and> fmdom' (cs_missing (fst (observeSender seq st))) =
        fmdom' (cs_missing st) \<union> {s. cs_last st < s \<and> s < seq} - (if seq \<le> cs_last st then {seq} else {})
    \<and> (snd (observeSender seq st) = chatDuplicate \<longleftrightarrow> seq \<le> cs_last st \<and> seq \<notin> fmdom' (cs_missing st))
    \<and> (snd (observeSender seq st) = chatFilledGap \<longleftrightarrow> seq \<le> cs_last st \<and> seq \<in> fmdom' (cs_missing st))"
proof -
  have inc: "cs_last st + 1 \<le> x \<longleftrightarrow> cs_last st < x" for x
    using assms(1) by (rule word_less_Suc_iff)
  consider (before) "seq \<le> cs_last st" | (after) "cs_last st < seq"
    by fastforce
  then show ?thesis
  proof cases
    case before
    have "\<not> cs_last st + 1 \<le> seq"
      using before inc [of seq] by simp
    then have no: "seq \<noteq> cs_last st + 1" "\<not> cs_last st + 1 < seq"
      by auto
    have empty: "{s. cs_last st < s \<and> s < seq} = {}"
      using before by auto
    show ?thesis
      unfolding empty using before no by (auto simp: observeSender_def max_def fmlookup_dom'_iff)
  next
    case after
    let ?m = "fillGaps (cs_last st + 1) seq (cs_missing st)"
    have dom: "fmdom' ?m = fmdom' (cs_missing st) \<union> {s. cs_last st < s \<and> s < seq}"
      by (auto simp: fmlookup_dom'_iff fillGaps_lookup inc split: if_splits)
    show ?thesis
    proof (cases "seq = cs_last st + 1")
      case True
      have empty: "{s. cs_last st < s \<and> s < seq} = {}"
        unfolding True using inc by (auto dest: leD)
      show ?thesis
        unfolding empty using True after by (auto simp: observeSender_def max_def dest: leD)
    next
      case False
      then have gap: "cs_last st + 1 < seq"
        using after inc [of seq] by auto
      then have "trimLocked (st\<lparr>cs_missing := ?m, cs_last := seq\<rparr>) = st\<lparr>cs_missing := ?m, cs_last := seq\<rparr>"
        using assms(2) False by (intro trimLocked_idle) (simp add: observeSender_def)
      then show ?thesis
        using gap False after dom by (auto simp: observeSender_def max_def)
    qed
  qed
qed

theorem observe_exact_witness:
  "fmdom' (cs_missing (fst (observeSender 7 (newSender ''h:1'' 4)))) = {s. 4 < s \<and> s < (7::u64)}"
proof -
  have c: "card (fmdom' (cs_missing (fst (observeSender 7 (newSender ''h:1'' 4))))) < maxTrackedGaps"
    by (simp add: eval_tracker)
  have "cs_last (newSender ''h:1'' 4) \<noteq> - 1"
    by (simp add: newSender_def)
  from observe_exact [OF this c] show ?thesis
    by (simp add: newSender_def)
qed

text \<open>
  C20.  Pulling ends: with no new traffic, after at most \<open>trackerWeight\<close> rounds no author with a known
  address has a gap left to ask for, because every round either charges an attempt to a gap or
  gives one up.
\<close>

theorem pulls_end: "\<exists>k\<le>trackerWeight t. pull_quiet (((\<lambda>t. fst (PullPlans t)) ^^ k) t)"
  by (rule pulls_end_aux) simp

text \<open>
  C21.  An announcement loop without end: when a peer announces the largest \<open>uint64\<close> for an author
  this node follows below it, \<open>Announce\<close> never returns, holding the tracker's lock; for every
  other number it returns.
\<close>

theorem announce_returns_iff:
  assumes "author \<noteq> ''''" "fmlookup (ct_senders t) author = Some st" "cs_last st < seq"
  shows "Announce t author addr seq = None \<longleftrightarrow> seq = - 1"
  using assms by (auto simp: Announce_known dest: leD)

theorem announce_returns_iff_witness:
  "Announce demo_tracker ''n1'' ''h:1'' (- 1) = None"
proof -
  obtain st where st: "fmlookup (ct_senders demo_tracker) ''n1'' = Some st" "cs_last st < - 1"
    by (simp add: demo_tracker_senders)
  then show ?thesis
    using announce_returns_iff [of "''n1''" demo_tracker st "- 1" "''h:1''"] by simp
qed

text \<open>
  The repair gate: a line this node is waiting for from exactly this peer closes its gap and
  moves neither the author's mark nor any other gap, so a backlog cannot raise the mark and
  silence the author.
\<close>

theorem expected_line_only_fills:
  assumes "Expecting t (authorOf m) addr (m_Seq m)" "marks_ok t" "m_Seq m \<noteq> 0" "authorOf m \<noteq> ''''"
    and "Observe t m = (t', r)" "fmlookup (ct_senders t') (authorOf m) = Some st'"
  shows "r = chatFilledGap \<and> (\<exists>st. fmlookup (ct_senders t) (authorOf m) = Some st
    \<and> cs_last st' = cs_last st \<and> cs_missing st' = fmdrop (m_Seq m) (cs_missing st))"
proof -
  obtain st where st: "fmlookup (ct_senders t) (authorOf m) = Some st" "fmlookup (cs_missing st) (m_Seq m) \<noteq> None"
    using assms(1) by (auto simp: Expecting_def split: option.splits if_splits)
  have mk: "cs_last st \<noteq> - 1" "m_Seq m \<le> cs_last st"
    using marks_okD [OF assms(2) st(1)] st(2) by (auto simp: sender_marks_def fmpred_iff)
  then have "\<not> cs_last st + 1 \<le> m_Seq m"
    by (auto simp: word_less_Suc_iff)
  moreover obtain s1 where s1: "fmlookup (ct_senders (touchLocked (authorOf m) (movedTo (m_Sender m) st) t)) (authorOf m) = Some s1"
      "st' = fst (observeSender (m_Seq m) s1)" "r = snd (observeSender (m_Seq m) st)"
    using assms(3-6) st(1) by (auto simp: Observe_known modifySender_lookup)
  moreover have "cs_last s1 = cs_last st" "cs_missing s1 = cs_missing st"
    using touchLocked_lookup [OF s1(1)] by auto
  ultimately show ?thesis
    using st by (auto simp: observeSender_def)
qed

theorem expected_line_only_fills_witness:
  "snd (Observe demo_tracker (demo_line 2)) = chatFilledGap"
proof -
  have "marks_ok demo_tracker"
    by (simp add: marks_ok_def demo_tracker_senders sender_marks_def fmpred_upd)
  moreover have "Expecting demo_tracker ''n1'' ''h:1'' 2"
    by (simp add: Expecting_def demo_tracker_senders)
  moreover have "\<exists>st. fmlookup (ct_senders (fst (Observe demo_tracker (demo_line 2)))) ''n1'' = Some st"
    by (simp add: demo_tracker_senders eval_tracker)
  ultimately show ?thesis
    using expected_line_only_fills [of demo_tracker "demo_line 2" "''h:1''"
        "fst (Observe demo_tracker (demo_line 2))" "snd (Observe demo_tracker (demo_line 2))"]
    by (auto simp: authorOf_def demo_line_def)
qed

end
