(* ===== verification/Lifecycle.thy ===== *)
theory Lifecycle
  imports PeerModel
begin

text \<open>
  A node's life with its state file: starting from it, the flush loop, and shutting down
  (\<open>NewModel\<close>, \<open>flushLoop\<close>, \<open>writeState\<close>, \<open>Flush\<close> and \<open>Close\<close> of \<open>pkg/discovery/model/model.go\<close>).

  A machine is a node's model, the files, the faults to come, and the state of the flush loop: whether
  its timer is armed (the loop's \<open>pending\<close>), the save it has under way, and whether \<open>Close\<close> ran.  The
  loop's snapshot (\<open>writeBegin\<close>, under the lock) and its save (\<open>writeEnd\<close>) are separate steps, so that
  mutations can fall between them.  The random identity is the argument \<open>uuid\<close>.
\<close>

section \<open>The machine\<close>

record Config =
  cfg_BootstrapAddrs :: "string list"
  cfg_NodeAddr :: string
  cfg_AdvertiseAddr :: string
  cfg_Nick :: string
  cfg_DataPath :: string
  cfg_Durability :: string

record flushJob =
  fj_gen :: u64
  fj_state :: PersistState
  fj_epoch :: u64

record machine =
  mc_model :: Model
  mc_fs :: files
  mc_faults :: "fault list"
  mc_armed :: bool
  mc_job :: "flushJob option"
  mc_closed :: bool

definition modelState :: "Model \<Rightarrow> PersistState" where
  "modelState bn = (State (md_Store bn))\<lparr>ps_NodeID := md_NodeID bn, ps_Chat := ChatLog bn, ps_ChatSeq := ModelChatSeq bn\<rparr>"

text \<open>\<open>writeState\<close> up to the unlock: the next generation, with the epoch and the snapshot taken under one lock.\<close>

definition writeBegin :: "Persister \<Rightarrow> Model \<Rightarrow> Model \<times> flushJob" where
  "writeBegin p bn =
     (let gen = md_persistGen bn + 1
      in (bn\<lparr>md_persistGen := gen\<rparr>, \<lparr>fj_gen = gen, fj_state = modelState bn, fj_epoch = Epoch p\<rparr>))"

definition writeEnd :: "journal_json \<Rightarrow> int \<Rightarrow> flushJob \<Rightarrow> Persister \<Rightarrow> machine \<Rightarrow> outcome \<times> machine" where
  "writeEnd J ms job p mc =
     (case SaveAt J ms (fj_gen job) (fj_state job) (fj_epoch job) \<lparr>w_fs = mc_fs mc, w_faults = mc_faults mc, w_p = p\<rparr> of
       (r, w) \<Rightarrow> (r, mc\<lparr>mc_fs := w_fs w, mc_faults := w_faults w,
          mc_model := (mc_model mc)\<lparr>md_persister := Some (w_p w)\<rparr>\<rparr>))"

definition modelWriteState :: "journal_json \<Rightarrow> int \<Rightarrow> Persister \<Rightarrow> machine \<Rightarrow> outcome \<times> machine" where
  "modelWriteState J ms p mc = (case writeBegin p (mc_model mc) of
     (bn, job) \<Rightarrow> writeEnd J ms job p (mc\<lparr>mc_model := bn\<rparr>))"

definition Flush :: "journal_json \<Rightarrow> int \<Rightarrow> machine \<Rightarrow> outcome \<times> machine" where
  "Flush J ms mc = (case md_persister (mc_model mc) of
     None \<Rightarrow> (Ok, mc)
   | Some p \<Rightarrow> modelWriteState J ms p mc)"

definition Close :: "journal_json \<Rightarrow> int \<Rightarrow> machine \<Rightarrow> outcome \<times> machine" where
  "Close J ms mc = (case md_persister (mc_model mc) of
     None \<Rightarrow> (Ok, mc)
   | Some p \<Rightarrow> if mc_closed mc then (Ok, mc) else modelWriteState J ms p (mc\<lparr>mc_closed := True\<rparr>))"

section \<open>The flush loop\<close>

text \<open>The loop's three cases: the doorbell, the timer (whose write is two steps), and the stop signal.\<close>

inductive flush_step :: "journal_json \<Rightarrow> machine \<Rightarrow> machine \<Rightarrow> bool" for J where
  mutate_step: "md_persister (mc_model mc) = Some p \<Longrightarrow>
    flush_step J mc (mc\<lparr>mc_model := Persist (mc_model mc)\<rparr>)"
| dirty_step: "md_dirty (mc_model mc) \<Longrightarrow> mc_job mc = None \<Longrightarrow> \<not> mc_closed mc \<Longrightarrow>
    flush_step J mc (mc\<lparr>mc_model := (mc_model mc)\<lparr>md_dirty := False\<rparr>, mc_armed := True\<rparr>)"
| timer_step: "mc_armed mc \<Longrightarrow> md_persistGen (mc_model mc) \<noteq> - 1 \<Longrightarrow> mc_job mc = None \<Longrightarrow> \<not> mc_closed mc \<Longrightarrow> md_persister (mc_model mc) = Some p \<Longrightarrow>
    writeBegin p (mc_model mc) = (bn, job) \<Longrightarrow>
    flush_step J mc (mc\<lparr>mc_model := bn, mc_armed := False, mc_job := Some job\<rparr>)"
| save_step: "mc_job mc = Some job \<Longrightarrow> md_persister (mc_model mc) = Some p \<Longrightarrow>
    writeEnd J ms job p (mc\<lparr>mc_job := None\<rparr>) = (r, mc') \<Longrightarrow> r \<noteq> Crash \<Longrightarrow> flush_step J mc mc'"

inductive flush_run :: "journal_json \<Rightarrow> machine \<Rightarrow> machine \<Rightarrow> bool" for J where
  run_refl: "flush_run J mc mc"
| run_next: "flush_run J mc mc' \<Longrightarrow> flush_step J mc' mc'' \<Longrightarrow> flush_run J mc mc''"

section \<open>Starting\<close>

datatype startResult = Started machine | Panicked | Died files

definition newModel :: "Config \<Rightarrow> Model" where
  "newModel cfg = \<lparr>md_Store = NewKVStore '''' 0, md_Nodes = {||}, md_lastSeen = fmempty, md_heard = fmempty,
     md_nicks = fmempty, md_views = fmempty, md_normalized = fmempty, md_ids = fmempty, md_impostors = {||},
     md_NodeAddr = cfg_NodeAddr cfg,
     md_AdvertiseAddr = (if cfg_AdvertiseAddr cfg = '''' then cfg_NodeAddr cfg else cfg_AdvertiseAddr cfg),
     md_NodeID = '''', md_nodeNick = (if cfg_Nick cfg = '''' then ''anon'' else cfg_Nick cfg),
     md_chatLog = [], md_chatSeq = 0, md_persistGen = 0, md_persister = None, md_dirty = False,
     md_BootstrapAddrs = cfg_BootstrapAddrs cfg, md_DataPath = cfg_DataPath cfg, md_LoadError = None\<rparr>"

definition openPersister :: "Config \<Rightarrow> Persister option" where
  "openPersister cfg =
     (if cfg_Durability cfg \<noteq> '''' then SetDurability (cfg_Durability cfg) (NewPersister (cfg_DataPath cfg))
      else Some (NewPersister (cfg_DataPath cfg)))"

text \<open>What \<open>NewModel\<close> does with the loaded state: the identity, the store and the chat.\<close>

definition adoptState :: "nanos \<Rightarrow> string \<Rightarrow> PersistState \<Rightarrow> bool \<Rightarrow> Model \<Rightarrow> Model" where
  "adoptState now uuid state found bn =
     (let nid = (if ps_NodeID state = '''' then uuid else ps_NodeID state);
          store = NewKVStore nid now
      in if found
         then bn\<lparr>md_NodeID := nid, md_Store := LoadState state store,
                md_chatLog := md_chatLog bn @ ps_Chat state, md_chatSeq := ps_ChatSeq state\<rparr>
         else bn\<lparr>md_NodeID := nid, md_Store := store\<rparr>)"

definition startMachine ::
  "nanos \<Rightarrow> string \<Rightarrow> Config \<Rightarrow> PersistState \<Rightarrow> bool \<Rightarrow> persistError option \<Rightarrow> world \<Rightarrow> machine" where
  "startMachine now uuid cfg state found err w =
     (let bn = (adoptState now uuid state found (newModel cfg))\<lparr>md_LoadError := err, md_persister := Some (w_p w)\<rparr>
      in \<lparr>mc_model = bn\<lparr>md_Store := SetOnChange (md_Store bn)\<rparr>, mc_fs = w_fs w, mc_faults = w_faults w,
          mc_armed = False, mc_job = None, mc_closed = False\<rparr>)"

text \<open>A new identity has to reach the disk before anything else does.\<close>

definition firstFlush :: "journal_json \<Rightarrow> nanos \<Rightarrow> PersistState \<Rightarrow> bool \<Rightarrow> machine \<Rightarrow> startResult" where
  "firstFlush J now state found mc =
     (if \<not> found \<or> ps_NodeID state \<noteq> md_NodeID (mc_model mc)
      then (case Flush J (now div 1000000) mc of (Crash, mc') \<Rightarrow> Died (mc_fs mc') | (_, mc') \<Rightarrow> Started mc')
      else Started mc)"

definition NewModel :: "journal_json \<Rightarrow> nanos \<Rightarrow> string \<Rightarrow> Config \<Rightarrow> files \<Rightarrow> fault list \<Rightarrow> startResult" where
  "NewModel J now uuid cfg fs faults =
     (if cfg_DataPath cfg = ''''
      then Started \<lparr>mc_model = adoptState now uuid zeroState False (newModel cfg), mc_fs = fs, mc_faults = faults,
             mc_armed = False, mc_job = None, mc_closed = False\<rparr>
      else (case openPersister cfg of
        None \<Rightarrow> Panicked
      | Some p \<Rightarrow> (case Load J now \<lparr>w_fs = fs, w_faults = faults, w_p = p\<rparr> of
          (LoadCrashed, w) \<Rightarrow> Died (w_fs w)
        | (Loaded state found, w) \<Rightarrow> firstFlush J now state found (startMachine now uuid cfg state found None w)
        | (LoadFailed e, w) \<Rightarrow> firstFlush J now zeroState False (startMachine now uuid cfg zeroState False (Some e) w))))"

section \<open>Lemmas\<close>

lemma Load_keeps:
  assumes "Load J now w = (res, w')"
  shows "pr_path (w_p w') = pr_path (w_p w)" "pr_lastGen (w_p w') = pr_lastGen (w_p w)"
    "ph_Pending (pr_health (w_p w')) = ph_Pending (pr_health (w_p w))"
proof -
  let ?same = "\<lambda>u v. pr_path (w_p v) = pr_path (w_p u) \<and> pr_lastGen (w_p v) = pr_lastGen (w_p u)
    \<and> ph_Pending (pr_health (w_p v)) = ph_Pending (pr_health (w_p u))"
  have calls: "kept (w_p u) (w_p v)" if "quiet u = (r, v) \<or> truncateFile x n u = (r, v) \<or> renameFile x y u = (r, v)" for u v r x y n
    using that keeps_calls(1,3,7) unfolding keeps_def by (metis snd_conv)
  have quiet: "?same u v" if "quiet u = (r, v)" for u v r
    using calls [of u r v] that by (auto simp: kept_def)
  have trunc: "?same u v" if "truncateFile x n u = (r, v)" for u v r x n
    using calls [of u r v x n] that by (auto simp: kept_def)
  have ren: "?same u v" if "renameFile x y u = (r, v)" for u v r x y
    using calls [of u r v x 0 y] that by (auto simp: kept_def)
  have replay: "?same u v" if "replay J st u = (res, v)" for u v st res
    using that by (auto simp: replay_def Let_def split: option.splits prod.splits outcome.splits if_splits
        dest!: quiet trunc)
  have protect: "?same u v" if "protect now c u = (r, v)" for u v c r
    using that by (auto simp: protect_def Let_def blockSaves_def setHealth_def split: prod.splits outcome.splits if_splits dest!: ren)
  have "?same w w'"
    using assms by (auto simp: Load_def loadProtected_def blockSaves_def split: option.splits prod.splits outcome.splits loadResult.splits
        dest!: quiet replay protect)
  then show "pr_path (w_p w') = pr_path (w_p w)" "pr_lastGen (w_p w') = pr_lastGen (w_p w)"
    "ph_Pending (pr_health (w_p w')) = ph_Pending (pr_health (w_p w))"
    by auto
qed

lemma modelState_simps [simp]: "ps_NodeID (modelState bn) = md_NodeID bn" "ps_Chat (modelState bn) = md_chatLog bn"
  "ps_ChatSeq (modelState bn) = md_chatSeq bn" "ps_Entries (modelState bn) = kv_store (md_Store bn)"
  "ps_Clock (modelState bn) = kv_clock (md_Store bn)"
  by (simp_all add: modelState_def State_def ChatLog_def ModelChatSeq_def)

lemma synced_nonempty:
  assumes "view (synced J t) fs p" "ps_NodeID t \<noteq> ''''"
  shows "fmlookup fs (pr_path p) \<noteq> None"
  using assms by (auto simp: view_def synced_def disk_ok_def zeroState_def)

lemma NewModel_loads:
  assumes "view (synced J t) fs p" "ps_NodeID t \<noteq> ''''" "cfg_DataPath cfg = pr_path p" "pr_path p \<noteq> ''''" "openPersister cfg \<noteq> None"
  shows "\<exists>mc. NewModel J now uuid cfg fs [] = Started mc \<and> md_NodeID (mc_model mc) = ps_NodeID t
    \<and> kv_store (md_Store (mc_model mc)) = ps_Entries t \<and> kv_clock (md_Store (mc_model mc)) = ps_Clock t
    \<and> md_chatLog (mc_model mc) = ps_Chat t \<and> md_chatSeq (mc_model mc) = ps_ChatSeq t \<and> kv_now (md_Store (mc_model mc)) = now"
proof -
  obtain q where q: "openPersister cfg = Some q" "pr_path q = pr_path p"
    using assms(3,5) by (auto simp: openPersister_def SetDurability_def NewPersister_def split: if_splits)
  let ?w = "\<lparr>w_fs = fs, w_faults = [], w_p = q\<rparr>"
  have "disk_ok J (fmlookup (w_fs ?w) (pr_path (w_p ?w))) (fmlookup (w_fs ?w) (walPath (pr_path (w_p ?w)))) t []"
    using assms(1) by (simp add: view_def synced_def q(2))
  then obtain w' where "Load J now ?w = (Loaded t True, w')"
    using Load_disk_ok [of ?w J t "[]" now] synced_nonempty [OF assms(1,2)] by (auto simp: q(2))
  then show ?thesis
    using assms(2-4)
    by (simp add: NewModel_def q(1) firstFlush_def startMachine_def adoptState_def newModel_def LoadState_def
        SetOnChange_def NewKVStore_def Let_def)
qed

section \<open>The flush loop's invariant\<close>

definition flush_inv :: "machine \<Rightarrow> bool" where
  "flush_inv mc \<longleftrightarrow> (\<forall>p. md_persister (mc_model mc) = Some p \<longrightarrow>
     pr_lastGen p \<le> md_persistGen (mc_model mc)
   \<and> (case mc_job mc of
        None \<Rightarrow> ph_Pending (pr_health p) \<longrightarrow>
          md_dirty (mc_model mc) \<or> mc_armed mc \<or> ph_Error (pr_health p) \<noteq> [] \<or> pr_blocked p
      | Some job \<Rightarrow> fj_gen job = md_persistGen (mc_model mc) \<and> pr_lastGen p < fj_gen job
          \<and> (pr_epoch p \<noteq> fj_epoch job \<longrightarrow> md_dirty (mc_model mc))))"

lemma SaveAt_err: "SaveAt J ms gen t ep w = (Err, w') \<Longrightarrow> ph_Error (pr_health (w_p w')) \<noteq> []"
  by (auto simp: SaveAt_def Let_def setHealth_def split: prod.splits outcome.splits if_splits)

lemma SaveAt_gen:
  assumes "SaveAt J ms gen t ep w = (r, w')" "r \<noteq> Crash"
  shows "pr_lastGen (w_p w') = pr_lastGen (w_p w) \<or> pr_lastGen (w_p w') = gen"
proof -
  let ?w = "setHealth (\<lambda>h. h\<lparr>ph_Pending := True, ph_Durable := False\<rparr>) w"
  have "pr_lastGen (w_p (snd (writeState J t ?w))) = pr_lastGen (w_p w)"
    using keeps_writeState [of J t, unfolded keeps_def, rule_format, of ?w] by (simp add: kept_def)
  then show ?thesis
    using assms by (auto simp: SaveAt_def Let_def setHealth_def split: prod.splits outcome.splits if_splits)
qed

lemma flush_inv_writeEnd:
  assumes fin: "writeEnd J ms job p mc = (r, mc')" "r \<noteq> Crash" and job: "mc_job mc = None"
    and gen: "fj_gen job = md_persistGen (mc_model mc)" "pr_lastGen p < fj_gen job"
    and epoch: "pr_epoch p \<noteq> fj_epoch job \<longrightarrow> md_dirty (mc_model mc)"
  shows "flush_inv mc'"
proof -
  let ?w = "\<lparr>w_fs = mc_fs mc, w_faults = mc_faults mc, w_p = p\<rparr>"
  obtain w' where save: "SaveAt J ms (fj_gen job) (fj_state job) (fj_epoch job) ?w = (r, w')"
      and mc': "mc' = mc\<lparr>mc_fs := w_fs w', mc_faults := w_faults w', mc_model := (mc_model mc)\<lparr>md_persister := Some (w_p w')\<rparr>\<rparr>"
    using fin(1) by (auto simp: writeEnd_def split: prod.splits)
  note rep = SaveAt_report [OF save fin(2), unfolded Health_def Epoch_def]
  have fresh: "\<not> (fj_gen job \<noteq> 0 \<and> fj_gen job \<le> pr_lastGen p)"
    using gen(2) by auto
  have blk: "pr_blocked (w_p w') = pr_blocked p"
    using SaveAt_blocked [of J ms "fj_gen job" "fj_state job" "fj_epoch job" ?w] save by simp
  have "pr_lastGen (w_p w') \<le> md_persistGen (mc_model mc)"
    using SaveAt_gen [OF save fin(2)] gen by auto
  moreover have "ph_Pending (pr_health (w_p w')) \<Longrightarrow>
      md_dirty (mc_model mc) \<or> ph_Error (pr_health (w_p w')) \<noteq> [] \<or> pr_blocked (w_p w')"
    using rep fresh blk epoch SaveAt_err [of J ms "fj_gen job" "fj_state job" "fj_epoch job" ?w w'] save
    by (cases r) (auto split: if_splits)
  ultimately show ?thesis
    using job by (auto simp: flush_inv_def mc')
qed

lemma flush_inv_step: "flush_step J mc mc' \<Longrightarrow> flush_inv mc \<Longrightarrow> flush_inv mc'"
proof (induction rule: flush_step.induct)
  case (mutate_step mc p)
  then show ?case
    by (auto simp: flush_inv_def Persist_def MarkDirty_def split: option.split)
next
  case (dirty_step mc)
  then show ?case
    by (auto simp: flush_inv_def split: option.split)
next
  case (timer_step mc p bn job)
  have "md_persistGen (mc_model mc) < md_persistGen (mc_model mc) + 1"
    using timer_step.hyps(2) by (simp add: word_less_inc)
  then show ?case
    using timer_step by (auto simp: flush_inv_def writeBegin_def Let_def Epoch_def)
next
  case (save_step mc job p ms r mc')
  then show ?case
    by (intro flush_inv_writeEnd [OF save_step.hyps(3,4)]) (auto simp: flush_inv_def)
qed

lemma flush_inv_run: "flush_run J mc mc' \<Longrightarrow> flush_inv mc \<Longrightarrow> flush_inv mc'"
  by (induction rule: flush_run.induct) (auto intro: flush_inv_step)

lemma openPersister_fresh: "openPersister cfg = Some p \<Longrightarrow> pr_lastGen p = 0 \<and> \<not> ph_Pending (pr_health p)"
  by (auto simp: openPersister_def SetDurability_def NewPersister_def zero_PersistenceHealth_def split: if_splits)

lemma newModel_fields [simp]: "md_persistGen (newModel cfg) = 0" "md_persister (newModel cfg) = None" "md_chatLog (newModel cfg) = []"
  by (simp_all add: newModel_def)

lemma adoptState_fields [simp]: "md_persistGen (adoptState now uuid st found bn) = md_persistGen bn"
  "md_persister (adoptState now uuid st found bn) = md_persister bn"
  by (simp_all add: adoptState_def Let_def)

lemma flush_inv_Flush:
  assumes "Flush J ms mc = (r, mc')" "r \<noteq> Crash" "md_persister (mc_model mc) = Some p" "pr_lastGen p = 0"
    and "md_persistGen (mc_model mc) = 0" "mc_job mc = None"
  shows "flush_inv mc'"
proof -
  obtain bn job where b: "writeBegin p (mc_model mc) = (bn, job)"
    by (cases "writeBegin p (mc_model mc)")
  have e: "writeEnd J ms job p (mc\<lparr>mc_model := bn\<rparr>) = (r, mc')"
    using assms(1,3) b by (simp add: Flush_def modelWriteState_def)
  show ?thesis
    by (rule flush_inv_writeEnd [OF e assms(2)])
      (use b assms(4-6) in \<open>auto simp: writeBegin_def Let_def Epoch_def\<close>)
qed

lemma NewModel_flush_inv:
  assumes "NewModel J now uuid cfg fs faults = Started mc"
  shows "flush_inv mc"
proof (cases "cfg_DataPath cfg = ''''")
  case True
  then show ?thesis
    using assms by (auto simp: NewModel_def Let_def flush_inv_def)
next
  case False
  obtain p where p: "openPersister cfg = Some p"
    using assms False by (cases "openPersister cfg") (auto simp: NewModel_def Let_def)
  obtain res w where l: "Load J now \<lparr>w_fs = fs, w_faults = faults, w_p = p\<rparr> = (res, w)"
    by (cases "Load J now \<lparr>w_fs = fs, w_faults = faults, w_p = p\<rparr>")
  have w: "pr_lastGen (w_p w) = 0" "\<not> ph_Pending (pr_health (w_p w))"
    using Load_keeps [OF l] openPersister_fresh [OF p] by simp_all
  have first: "flush_inv mc" if start: "firstFlush J now st found (startMachine now uuid cfg st found e w) = Started mc" for st found e
  proof (cases "\<not> found \<or> ps_NodeID st \<noteq> md_NodeID (mc_model (startMachine now uuid cfg st found e w))")
    case True
    then obtain r where "Flush J (now div 1000000) (startMachine now uuid cfg st found e w) = (r, mc)" "r \<noteq> Crash"
      using start by (auto simp: firstFlush_def split: prod.splits outcome.splits)
    then show ?thesis
      by (rule flush_inv_Flush [where p = "w_p w"]) (simp_all add: startMachine_def Let_def w)
  next
    case False
    then show ?thesis
      using start w by (auto simp: firstFlush_def flush_inv_def startMachine_def Let_def)
  qed
  show ?thesis
    using assms False p l first by (cases res) (auto simp: NewModel_def)
qed

section \<open>Properties\<close>

text \<open>
  C26.  A restart loses nothing.  A node with a state file, after any history of it (\<open>live\<close>: I/O errors and kills anywhere,
  the process going on after a failed save only if that save had completed its record or left the files as they were),
  shuts down and its last save is acknowledged: the node started from that file, in any durability mode and without a
  fault while it loads, has the same identity, the same entries and Lamport
  clock, the same chat log and the same count of its own broadcasts.
\<close>

theorem restart_roundtrip:
  assumes "json_ok J good" "md_persister (mc_model mc) = Some p" "\<not> mc_closed mc"
    and "live J good \<lparr>w_fs = mc_fs mc, w_faults = mc_faults mc, w_p = p\<rparr> s"
    and "good (modelState (mc_model mc))" "md_NodeID (mc_model mc) \<noteq> ''''"
    and "pr_lastGen p \<le> md_persistGen (mc_model mc)" "md_persistGen (mc_model mc) \<noteq> - 1"
    and "Close J ms mc = (Ok, mc')"
    and "cfg_DataPath cfg = pr_path p" "pr_path p \<noteq> ''''" "openPersister cfg \<noteq> None"
  shows "\<exists>mc''. NewModel J now uuid cfg (mc_fs mc') [] = Started mc''
    \<and> md_NodeID (mc_model mc'') = md_NodeID (mc_model mc)
    \<and> kv_store (md_Store (mc_model mc'')) = kv_store (md_Store (mc_model mc))
    \<and> kv_clock (md_Store (mc_model mc'')) = kv_clock (md_Store (mc_model mc))
    \<and> ChatLog (mc_model mc'') = ChatLog (mc_model mc)
    \<and> ModelChatSeq (mc_model mc'') = ModelChatSeq (mc_model mc)"
proof -
  let ?w = "\<lparr>w_fs = mc_fs mc, w_faults = mc_faults mc, w_p = p\<rparr>"
  let ?gen = "md_persistGen (mc_model mc) + 1"
  obtain w' where save: "SaveAt J ms ?gen (modelState (mc_model mc)) (Epoch p) ?w = (Ok, w')" and fs: "mc_fs mc' = w_fs w'"
    using assms(2,3,9) by (auto simp: Close_def modelWriteState_def writeBegin_def writeEnd_def Let_def split: prod.splits)
  have fresh: "?gen = 0 \<or> pr_lastGen (w_p ?w) < ?gen"
    using assms(7,8) by (simp add: word_less_inc)
  have "view (synced J s) (w_fs ?w) (w_p ?w)" "good s" "\<not> pr_blocked (w_p ?w)"
    using live_synced [OF assms(1,4)] by auto
  note out = SaveAt_outcome [OF assms(1) this(2) assms(5) this(1,3) fresh save]
  have path: "pr_path (w_p w') = pr_path p"
    using SaveAt_path [of J ms ?gen "modelState (mc_model mc)" "Epoch p" ?w] save by simp
  show ?thesis
    using NewModel_loads [of J "modelState (mc_model mc)" "w_fs w'" "w_p w'" cfg now uuid] out assms(6,10-12) path fs
    by (auto simp: ChatLog_def ModelChatSeq_def)
qed

text \<open>
  C27.  No mutation is forgotten: while the flush loop runs, with mutations falling anywhere, also
  between its snapshot and its save, anything not yet saved has the doorbell rung, the timer armed or
  a save under way, unless the last save failed or saving is blocked, which is reported.
\<close>

theorem flush_not_lost:
  assumes "NewModel J now uuid cfg fs faults = Started mc" "flush_run J mc mc'"
    and "md_persister (mc_model mc') = Some p" "ph_Pending (Health p)"
  shows "md_dirty (mc_model mc') \<or> mc_armed mc' \<or> mc_job mc' \<noteq> None \<or> ph_Error (Health p) \<noteq> [] \<or> pr_blocked p"
  using flush_inv_run [OF assms(2) NewModel_flush_inv [OF assms(1)]] assms(3,4)
  by (auto simp: flush_inv_def Health_def split: option.splits)

definition demo_config :: Config where
  "demo_config = \<lparr>cfg_BootstrapAddrs = [], cfg_NodeAddr = '':1'', cfg_AdvertiseAddr = '''', cfg_Nick = '''',
     cfg_DataPath = ''f'', cfg_Durability = ''''\<rparr>"

definition demo_machine :: machine where
  "demo_machine = \<lparr>mc_model = (newModel demo_config)\<lparr>md_NodeID := ''n1'',
       md_Store := LoadState demo_saved (NewKVStore ''n1'' 0), md_persister := Some (w_p (demo_world []))\<rparr>,
     mc_fs = fmempty, mc_faults = [], mc_armed = False, mc_job = None, mc_closed = False\<rparr>"

lemma demo_machine_state: "modelState (mc_model demo_machine) = demo_saved"
  by (simp add: demo_machine_def modelState_def State_def ChatLog_def ModelChatSeq_def newModel_def LoadState_def demo_saved_def)

theorem restart_roundtrip_witness:
  "\<exists>mc''. NewModel demo_json 0 ''u'' demo_config (mc_fs (snd (Close demo_json 0 demo_machine))) [] = Started mc''
     \<and> md_NodeID (mc_model mc'') = ''n1'' \<and> Get (md_Store (mc_model mc'')) ''k'' = Some ''v''"
proof -
  let ?p = "w_p (demo_world [])"
  have "\<lparr>w_fs = mc_fs demo_machine, w_faults = mc_faults demo_machine, w_p = ?p\<rparr> = demo_world []"
    by (simp add: demo_machine_def demo_world_def)
  then have live: "live demo_json demo_good \<lparr>w_fs = mc_fs demo_machine, w_faults = mc_faults demo_machine, w_p = ?p\<rparr> zeroState"
    using demo_world_live [of "[]"] by simp
  have state: "demo_good (modelState (mc_model demo_machine))"
    by (simp add: demo_machine_state demo_good_def)
  have model: "md_persister (mc_model demo_machine) = Some ?p" "\<not> mc_closed demo_machine" "md_NodeID (mc_model demo_machine) = ''n1''"
      "pr_lastGen ?p \<le> md_persistGen (mc_model demo_machine)" "md_persistGen (mc_model demo_machine) \<noteq> - 1"
      "cfg_DataPath demo_config = pr_path ?p" "pr_path ?p \<noteq> ''''" "openPersister demo_config \<noteq> None"
    by (simp_all add: demo_machine_def demo_world_def NewPersister_def demo_config_def openPersister_def SetDurability_def)
  have init: "mc_fs demo_machine = fmempty" "mc_faults demo_machine = []" "md_persistGen (mc_model demo_machine) = 0"
    by (simp_all add: demo_machine_def)
  have "fst (SaveAt demo_json 0 1 demo_saved 0 (demo_world [])) = Ok"
    by (simp add: demo_run)
  then have "fst (Close demo_json 0 demo_machine) = Ok"
    by (simp add: Close_def model(1,2) modelWriteState_def writeBegin_def writeEnd_def Let_def demo_machine_state init
        case_prod_beta Epoch_def) (simp add: demo_world_def NewPersister_def)
  then have close: "Close demo_json 0 demo_machine = (Ok, snd (Close demo_json 0 demo_machine))"
    by (metis prod.collapse)
  obtain mc'' where "NewModel demo_json 0 ''u'' demo_config (mc_fs (snd (Close demo_json 0 demo_machine))) [] = Started mc''"
      "md_NodeID (mc_model mc'') = ''n1''" "kv_store (md_Store (mc_model mc'')) = kv_store (md_Store (mc_model demo_machine))"
    using restart_roundtrip [OF demo_json_ok model(1,2) live state _ model(4,5) close model(6-8), of 0 "''u''"] model(3) by auto
  moreover have "fmlookup (kv_store (md_Store (mc_model demo_machine))) ''k'' = fmlookup (ps_Entries demo_saved) ''k''"
    by (simp add: demo_machine_def LoadState_def)
  ultimately show ?thesis
    by (auto simp: Get_def demo_saved_def visible_def expired_def)
qed

theorem flush_not_lost_witness:
  "\<exists>mc mc' p. NewModel demo_json 0 ''u'' demo_config fmempty [] = Started mc \<and> flush_run demo_json mc mc'
     \<and> md_persister (mc_model mc') = Some p \<and> ph_Pending (Health p)
     \<and> (md_dirty (mc_model mc') \<or> mc_armed mc' \<or> mc_job mc' \<noteq> None \<or> ph_Error (Health p) \<noteq> [] \<or> pr_blocked p)"
proof -
  obtain mc p where mc: "NewModel demo_json 0 ''u'' demo_config fmempty [] = Started mc" "md_persister (mc_model mc) = Some p"
    by (simp add: NewModel_def openPersister_def demo_config_def Load_def replay_def firstFlush_def Flush_def startMachine_def
        modelWriteState_def writeBegin_def writeEnd_def demo_run retireJournal_def removeFile_def)
  let ?mc = "mc\<lparr>mc_model := Persist (mc_model mc)\<rparr>"
  have run: "flush_run demo_json mc ?mc"
    by (rule flush_run.run_next [OF flush_run.run_refl flush_step.mutate_step [OF mc(2)]])
  have p: "md_persister (mc_model ?mc) = Some (MarkDirty p)" "ph_Pending (Health (MarkDirty p))"
    using mc(2) by (simp_all add: Persist_def MarkDirty_def Health_def)
  show ?thesis
    using flush_not_lost [OF mc(1) run p] mc(1) run p by blast
qed


end
