(* ===== verification/NodeEngine.thy ===== *)
theory NodeEngine
  imports Watch AntiEntropy Codec ChatSeq Lifecycle
begin

text \<open>
  The peer engine (\<open>pkg/discovery/node\<close>: \<open>node.go\<close>, \<open>handlers.go\<close>, \<open>chat.go\<close>, \<open>chatrelay.go\<close>,
  \<open>statesync.go\<close>, \<open>api.go\<close> and the engine's part of \<open>antientropy.go\<close> and \<open>consistency.go\<close>).

  A node is one record; every handler, tick and call of the API is a function on it.  What a node hands
  to the codec and the transport is appended to \<open>nd_outbox\<close>, whether it then travels as a datagram or on a
  stream; the reply to a request made on a stream is delivered as a message of its own.  The node's clock
  is the clock of its store.  Activity lines are kept as the format and its arguments.  JSON, HMAC and
  SHA-256, the random generator, \<open>strings.EqualFold\<close> and the epoch UUID are parameters.
\<close>

section \<open>State\<close>

definition activityRing :: nat where "activityRing = 300"
definition bulkCap :: nat where "bulkCap = 16"

datatype counter =
    PacketsSent | BytesSent | SentByKind MessageKind | SendErrors | StreamErrors
  | PacketsRecv | BytesRecv | RecvByKind MessageKind
  | AuthFailures | ReplayDrops | SkewDrops | MalformedDrops
  | KVApplied | KVRejectedStale | KVRefused | KVLocalWrites | KVCASFailures | KVExpired | KVGCed
  | ChatGapsFound | ChatRecovered | ChatLost | ChatPullsSent | ChatPullsServed | ChatDuplicates
  | ChatUnsolicited | ChatSelfAttributed | ChatRelayed | ChatRelayCapped
  | AERounds | AEPushed | AEPulled | StateSyncOut | StateSyncIn | HTTPRequests

datatype uiEvent = KVChanged | PeersChanged | ChatChanged | ActivityChanged

datatype activityLine =
    ActDeleted string string u64
  | ActSet string string string u64
  | ActRefused KVAction string u64 string kvError
  | ActStale KVAction string u64 string
  | ActMerged nat
  | ActUnasked string
  | ActLost string nat
  | ActExpired nat
  | ActReclaimed nat
  | ActPushing nat string
  | ActPulling nat string
  | ActQueueFull
  | ActImported nat
  | ActRepaired nat
  | ActSnapshot string nat
  | ActSnapshotFailed
  | ActFound string

datatype message =
    MsgKV KVUpdate
  | MsgKVBatch "KVUpdate list"
  | MsgChat ChatMessage
  | MsgDirectMessage ChatMessage
  | MsgStateRequest string
  | MsgStateResponse StateResponse
  | MsgPeerGossip PeerGossip
  | MsgHello Hello
  | MsgGoodbye Goodbye
  | MsgDigest Digest
  | MsgPullRequest PullRequest
  | MsgFingerprint Fingerprint
  | MsgFingerprintReply FingerprintReply
  | MsgChatPull ChatPull
  | MsgChatBacklog ChatBacklog
  | MsgBootstrapRoster BootstrapRoster
  | MsgBootstrapRegister BootstrapRegister
  | MsgBootstrapDiscover string

record nodeConfig =
  nc_BootstrapAddrs :: "string list"
  nc_NodeAddr :: string
  nc_AdvertiseAddr :: string
  nc_Cluster :: string
  nc_EvictThreshold :: nanos
  nc_TombstoneTTL :: nanos
  nc_budgets :: aeBudgets
  nc_Limits :: Limits

record peerCounters =
  pc_packetsIn :: u64
  pc_bytesIn :: u64
  pc_rejected :: u64

record Node =
  nd_cfg :: nodeConfig
  nd_Model :: Model
  nd_Metrics :: "counter \<Rightarrow> u64"
  nd_peerCounters :: "(string, peerCounters) fmap"
  nd_codec :: codec
  nd_hub :: watchHub
  nd_uuid :: string
  nd_bulk :: "(string \<times> KVUpdate list) list"
  nd_stopped :: bool
  nd_peerLimits :: "(string, StoreLimits) fmap"
  nd_aeCursors :: "(string, string) fmap"
  nd_strangers :: "(string, unix_time) fmap"
  nd_rendezvous :: "string fset"
  nd_activity :: "(nanos \<times> activityLine) list"
  nd_chatGaps :: chatTracker
  nd_seen :: string
  nd_outbox :: "(string \<times> message) list"
  nd_notices :: "uiEvent list"

text \<open>\<open>New\<close>, given the model \<open>NewModel\<close> returned: limits, the mutation callback, and the tracker seeded from the log.\<close>

definition New :: "(bytes \<Rightarrow> bytes \<Rightarrow> bytes) \<Rightarrow> string \<Rightarrow> string \<Rightarrow> nodeConfig \<Rightarrow> Model \<Rightarrow> Node" where
  "New hmac psk uuid cfg m = \<lparr>nd_cfg = cfg,
     nd_Model = m\<lparr>md_Store := SetOnMutate (SetLimits (nc_Limits cfg) (md_Store m))\<rparr>,
     nd_Metrics = (\<lambda>_. 0), nd_peerCounters = fmempty, nd_codec = NewCodec hmac psk (nc_Cluster cfg),
     nd_hub = newHub, nd_uuid = uuid, nd_bulk = [], nd_stopped = False, nd_peerLimits = fmempty, nd_aeCursors = fmempty,
     nd_strangers = fmempty, nd_rendezvous = {||}, nd_activity = [],
     nd_chatGaps = Seed (ChatLog m) newChatTracker, nd_seen = '''', nd_outbox = [], nd_notices = []\<rparr>"

section \<open>Primitives\<close>

abbreviation (input) nodeStore :: "Node \<Rightarrow> kvStore" where
  "nodeStore n \<equiv> md_Store (nd_Model n)"

abbreviation (input) nodeNow :: "Node \<Rightarrow> nanos" where
  "nodeNow n \<equiv> kv_now (md_Store (nd_Model n))"

abbreviation (input) advertised :: "Node \<Rightarrow> string" where
  "advertised n \<equiv> nc_AdvertiseAddr (nd_cfg n)"

definition addCount :: "counter \<Rightarrow> u64 \<Rightarrow> Node \<Rightarrow> Node" where
  "addCount c k n = n\<lparr>nd_Metrics := (nd_Metrics n)(c := nd_Metrics n c + k)\<rparr>"

definition notify :: "uiEvent \<Rightarrow> Node \<Rightarrow> Node" where
  "notify e n = n\<lparr>nd_notices := nd_notices n @ [e]\<rparr>"

definition onModel :: "(Model \<Rightarrow> Model) \<Rightarrow> Node \<Rightarrow> Node" where
  "onModel f n = n\<lparr>nd_Model := f (nd_Model n)\<rparr>"

definition logActivity :: "activityLine \<Rightarrow> Node \<Rightarrow> Node" where
  "logActivity line n = notify ActivityChanged
     (n\<lparr>nd_activity := ring activityRing (nd_activity n @ [(nodeNow n, line)])\<rparr>)"

definition send :: "string \<Rightarrow> message \<Rightarrow> Node \<Rightarrow> Node" where
  "send addr msg n = n\<lparr>nd_outbox := nd_outbox n @ [(addr, msg)]\<rparr>"

definition broadcast :: "message \<Rightarrow> Node \<Rightarrow> Node" where
  "broadcast msg n = n\<lparr>nd_outbox := nd_outbox n @ map (\<lambda>a. (a, msg)) (GetNodes (nd_Model n))\<rparr>"

text \<open>An operation of the store with the callbacks it fires: \<open>Persist\<close> and \<open>publishMutations\<close>.\<close>

definition withStore :: "(kvStore \<Rightarrow> kvStore \<times> effects \<times> 'r) \<Rightarrow> Node \<Rightarrow> Node \<times> 'r" where
  "withStore f n = (case f (nodeStore n) of (kv', eff, r) \<Rightarrow>
     let m1 = (nd_Model n)\<lparr>md_Store := kv'\<rparr>;
         m2 = (if eff_change eff then Persist m1 else m1);
         hub = (if eff_events eff = [] then nd_hub n else publishMutations (nd_uuid n) (eff_events eff) (nd_hub n))
     in (n\<lparr>nd_Model := m2, nd_hub := hub\<rparr>, r))"

definition nodeAddPeer :: "string \<Rightarrow> Node \<Rightarrow> Node \<times> bool" where
  "nodeAddPeer addr n = (case AddPeer (nodeNow n) addr (nd_Model n) of (m, added) \<Rightarrow> (n\<lparr>nd_Model := m\<rparr>, added))"

definition touch :: "string \<Rightarrow> Node \<Rightarrow> Node" where
  "touch addr n = onModel (TouchPeer (nodeNow n) addr) n"

definition learnNick :: "string \<Rightarrow> string \<Rightarrow> Node \<Rightarrow> Node" where
  "learnNick addr nick n = (if nick \<noteq> '''' then onModel (SetNick addr nick) n else n)"

definition learnID :: "string \<Rightarrow> string \<Rightarrow> Node \<Rightarrow> Node" where
  "learnID i addr n = (if i \<noteq> '''' then onModel (SetNodeID (nodeNow n) i addr) n else n)"

definition peerName :: "Node \<Rightarrow> string \<Rightarrow> string" where
  "peerName n addr = (if NickOf (nd_Model n) addr \<noteq> '''' then NickOf (nd_Model n) addr else addr)"

definition randomPeer :: "nat \<Rightarrow> Node \<Rightarrow> string" where
  "randomPeer rnd n = (let peers = GetNodes (nd_Model n) in if peers = [] then '''' else peers ! (rnd mod length peers))"

definition helloMessage :: "Node \<Rightarrow> Hello" where
  "helloMessage n = \<lparr>h_Limits = Some \<lparr>sl_MaxValueBytes = MaxValueBytes (nc_Limits (nd_cfg n)), sl_MaxKeys = MaxKeys (nc_Limits (nd_cfg n))\<rparr>,
     h_From = advertised n, h_Nick = Nick (nd_Model n), h_ID = md_NodeID (nd_Model n), h_ChatSeq = ModelChatSeq (nd_Model n)\<rparr>"

definition helloAllPeers :: "Node \<Rightarrow> Node" where
  "helloAllPeers n = broadcast (MsgHello (helloMessage n)) n"

section \<open>Chat\<close>

definition appendChat :: "ChatEntry \<Rightarrow> Node \<Rightarrow> Node" where
  "appendChat e n =
     (let e' = (if ce_TS e = 0 then e\<lparr>ce_TS := unix (nodeNow n)\<rparr> else e)
      in notify ChatChanged (onModel (AppendChat e') n))"

definition systemLine :: "string \<Rightarrow> Node \<Rightarrow> Node" where
  "systemLine text n = appendChat (zero_ChatEntry\<lparr>ce_Text := text, ce_Kind := ChatSystem\<rparr>) n"

definition announceJoin :: "string \<Rightarrow> string \<Rightarrow> Node \<Rightarrow> Node" where
  "announceJoin addr nick n =
     (if nick = '''' then systemLine (addr @ '' joined'') n else systemLine (nick @ '' ('' @ addr @ '') joined'') n)"

definition announceLeave :: "string \<Rightarrow> string \<Rightarrow> Node \<Rightarrow> Node" where
  "announceLeave addr nick n =
     (if nick = '''' then systemLine (addr @ '' left'') n else systemLine (nick @ '' ('' @ addr @ '') left'') n)"

definition chatEntryOf :: "ChatMessage \<Rightarrow> ChatEntry" where
  "chatEntryOf m = \<lparr>ce_TS = m_TS m, ce_Sender = m_Sender m, ce_Nick = m_Nick m, ce_Text = m_Text m,
     ce_Kind = (if m_Action m then ChatAction else ChatMsg), ce_To = '''', ce_Seq = m_Seq m, ce_Node = m_Node m\<rparr>"

definition sendChatMessage :: "string \<Rightarrow> bool \<Rightarrow> Node \<Rightarrow> Node" where
  "sendChatMessage text action n =
     (case NextChatSeq (nd_Model n) of (md, seq) \<Rightarrow>
        let m = \<lparr>m_Sender = advertised n, m_Nick = Nick (nd_Model n), m_Text = text, m_TS = unix (nodeNow n),
               m_Action = action, m_To = '''', m_Seq = seq, m_Node = md_NodeID (nd_Model n), m_Hops = 0\<rparr>
        in broadcast (MsgChat m) (appendChat (chatEntryOf m) (n\<lparr>nd_Model := md\<rparr>)))"

definition SendChat :: "string \<Rightarrow> Node \<Rightarrow> Node" where
  "SendChat text n = sendChatMessage text False n"

definition SendAction :: "string \<Rightarrow> Node \<Rightarrow> Node" where
  "SendAction text n = sendChatMessage text True n"

definition resolvePeer :: "(string \<Rightarrow> string \<Rightarrow> bool) \<Rightarrow> Node \<Rightarrow> string \<Rightarrow> string" where
  "resolvePeer equalFold n target =
     (if HasPeer (nd_Model n) target then target
      else (case List.find (\<lambda>a. equalFold (NickOf (nd_Model n) a) target) (GetNodes (nd_Model n)) of
        Some a \<Rightarrow> a | None \<Rightarrow> ''''))"

definition SendDM :: "(string \<Rightarrow> string \<Rightarrow> bool) \<Rightarrow> string \<Rightarrow> string \<Rightarrow> Node \<Rightarrow> Node \<times> bool" where
  "SendDM equalFold target text n =
     (let addr = resolvePeer equalFold n target in
      if addr = '''' then (n, False)
      else
        let m = \<lparr>m_Sender = advertised n, m_Nick = Nick (nd_Model n), m_Text = text, m_TS = unix (nodeNow n),
               m_Action = False, m_To = addr, m_Seq = 0, m_Node = '''', m_Hops = 0\<rparr>
        in (appendChat \<lparr>ce_TS = m_TS m, ce_Sender = advertised n, ce_Nick = m_Nick m, ce_Text = text,
              ce_Kind = ChatDirect, ce_To = addr, ce_Seq = 0, ce_Node = ''''\<rparr> (send addr (MsgDirectMessage m) n), True))"

definition NodeSetNick :: "string \<Rightarrow> Node \<Rightarrow> Node" where
  "NodeSetNick nick n =
     (case SetOwnNick nick (nd_Model n) of (md, prev) \<Rightarrow>
        SendChat (''(was '' @ prev @ '')'')
          (helloAllPeers (systemLine (prev @ '' is now known as '' @ nick) (n\<lparr>nd_Model := md\<rparr>))))"

definition relayTargets :: "Node \<Rightarrow> string \<Rightarrow> string list" where
  "relayTargets n author = (case fmlookup (PeerViews (nd_Model n)) author of
     None \<Rightarrow> []
   | Some pv \<Rightarrow>
       filter (\<lambda>a. NormalizeAddr a \<notin> insert (NormalizeAddr author) (NormalizeAddr ` set (pv_Peers pv))
           \<and> \<not> IsSelf (nd_Model n) a) (GetNodes (nd_Model n)))"

definition relayChat :: "ChatMessage \<Rightarrow> Node \<Rightarrow> Node" where
  "relayChat m n =
     (if m_Hops m \<ge> MaxChatHops then addCount ChatRelayCapped 1 n
      else
        let targets = relayTargets n (m_Sender m) in
        if targets = [] then n
        else
          let m' = m\<lparr>m_Hops := m_Hops m + 1\<rparr>
          in addCount ChatRelayed (word_of_nat (length targets))
               (foldl (\<lambda>n a. send a (MsgChat m') n) n targets))"

text \<open>How many more lines are outstanding than \<open>before\<close>, when any are.\<close>

definition countGrown :: "nat \<Rightarrow> Node \<Rightarrow> Node" where
  "countGrown before n =
     (let after = outstanding (nd_chatGaps n)
      in if after > before then addCount ChatGapsFound (word_of_nat (after - before)) n else n)"

definition selfAttributed :: "Node \<Rightarrow> ChatMessage \<Rightarrow> bool" where
  "selfAttributed n m \<longleftrightarrow> (m_Node m \<noteq> '''' \<and> m_Node m = md_NodeID (nd_Model n))
     \<or> (m_Node m = '''' \<and> m_Sender m \<noteq> '''' \<and> m_Sender m = advertised n)"

definition acceptChat :: "ChatMessage \<Rightarrow> Node \<Rightarrow> Node \<times> bool" where
  "acceptChat m n =
     (if selfAttributed n m then (addCount ChatSelfAttributed 1 n, False)
      else (case Observe (nd_chatGaps n) m of (gaps, outcome) \<Rightarrow>
        let n1 = n\<lparr>nd_chatGaps := gaps\<rparr>; e = chatEntryOf m in
        case outcome of
          chatDuplicate \<Rightarrow> (addCount ChatDuplicates 1 n1, False)
        | chatFilledGap \<Rightarrow>
            (notify ChatChanged (onModel (InsertChat (if ce_TS e = 0 then e\<lparr>ce_TS := unix (nodeNow n)\<rparr> else e))
               (addCount ChatRecovered 1 n1)), True)
        | chatAccept \<Rightarrow> (appendChat e (countGrown (outstanding (nd_chatGaps n)) n1), True)))"

text \<open>A peer heard of: adopted, announced and greeted if it is new.\<close>

definition meetPeer :: "string \<Rightarrow> string \<Rightarrow> Node \<Rightarrow> Node \<times> bool" where
  "meetPeer addr nick n = (case nodeAddPeer addr n of (n1, added) \<Rightarrow>
     if added then (announceJoin addr nick n1, True) else (n1, False))"

definition handleChat :: "ChatMessage \<Rightarrow> Node \<Rightarrow> Node" where
  "handleChat m n =
     (case acceptChat m (learnNick (m_Sender m) (m_Nick m) (touch (m_Sender m) n)) of
        (n1, False) \<Rightarrow> n1
      | (n1, True) \<Rightarrow>
          (case meetPeer (m_Sender m) (m_Nick m) (relayChat m n1) of
             (n2, False) \<Rightarrow> n2
           | (n2, True) \<Rightarrow> send (m_Sender m) (MsgHello (helloMessage n2)) (notify PeersChanged n2)))"

definition backlogMessage :: "Node \<Rightarrow> ChatEntry \<Rightarrow> ChatMessage" where
  "backlogMessage n e = \<lparr>m_Sender = ce_Sender e, m_Nick = ce_Nick e, m_Text = ce_Text e, m_TS = ce_TS e,
     m_Action = (ce_Kind e = ChatAction), m_To = '''', m_Seq = ce_Seq e, m_Node = md_NodeID (nd_Model n), m_Hops = 0\<rparr>"

definition handleChatPull :: "ChatPull \<Rightarrow> Node \<Rightarrow> Node" where
  "handleChatPull req n =
     (if cp_From req = '''' \<or> cp_Seqs req = [] then n
      else
        let seqs = (if length (cp_Seqs req) > MaxChatPull then take MaxChatPull (cp_Seqs req) else cp_Seqs req)
        in (case OwnChat (nd_Model n) (advertised n) (md_NodeID (nd_Model n)) seqs of (entries, gone) \<Rightarrow>
          send (cp_From req) (MsgChatBacklog \<lparr>cb_From = advertised n, cb_Messages = map (backlogMessage n) entries,
              cb_Unavailable = gone\<rparr>)
            (addCount ChatPullsServed 1 n)))"

definition backlogLine :: "string \<Rightarrow> Node \<Rightarrow> ChatMessage \<Rightarrow> Node" where
  "backlogLine from n m =
     (if \<not> Expecting (nd_chatGaps n) (authorOf m) from (m_Seq m)
      then logActivity (ActUnasked (NickOf (nd_Model n) from)) (addCount ChatUnsolicited 1 n)
      else fst (acceptChat m n))"

definition handleChatBacklog :: "ChatBacklog \<Rightarrow> Node \<Rightarrow> Node" where
  "handleChatBacklog reply n =
     (let n1 = foldl (backlogLine (cb_From reply)) n (cb_Messages reply) in
      if cb_Unavailable reply = [] then n1
      else logActivity (ActLost (NickOf (nd_Model n1) (cb_From reply)) (length (cb_Unavailable reply)))
        (addCount ChatLost (word_of_nat (length (cb_Unavailable reply)))
          (n1\<lparr>nd_chatGaps := MarkUnavailable (cb_From reply) (cb_Unavailable reply) (nd_chatGaps n1)\<rparr>)))"

definition handleDirectMessage :: "ChatMessage \<Rightarrow> Node \<Rightarrow> Node" where
  "handleDirectMessage m n =
     appendChat \<lparr>ce_TS = m_TS m, ce_Sender = m_Sender m, ce_Nick = m_Nick m, ce_Text = m_Text m,
         ce_Kind = ChatDirect, ce_To = advertised n, ce_Seq = 0, ce_Node = ''''\<rparr>
       (learnNick (m_Sender m) (m_Nick m) (touch (m_Sender m) n))"

definition pullChatGaps :: "Node \<Rightarrow> Node" where
  "pullChatGaps n = (case PullPlans (nd_chatGaps n) of (gaps, plans) \<Rightarrow>
     foldl (\<lambda>n p. send (pp_Addr p) (MsgChatPull \<lparr>cp_From = advertised n, cp_Seqs = pp_Seqs p\<rparr>) (addCount ChatPullsSent 1 n))
       (n\<lparr>nd_chatGaps := gaps\<rparr>) plans)"

definition ChatGaps :: "Node \<Rightarrow> ChatGapStat list" where
  "ChatGaps n = map (\<lambda>s. s\<lparr>gs_Nick := NickOf (nd_Model n) (gs_Addr s)\<rparr>) (Stats (nd_chatGaps n))"

section \<open>Replication\<close>

definition applyRemote :: "KVUpdate \<Rightarrow> Node \<Rightarrow> Node \<times> bool" where
  "applyRemote u n = (case withStore (\<lambda>kv. ApplyWithReason kv u) n of (n1, applied, refused) \<Rightarrow>
     let who = WriterName (nd_Model n1) (Node (u_Version u)); ctr = Counter (u_Version u) in
     if applied then
       (logActivity (if u_Action u = KVDelete then ActDeleted who (u_Key u) ctr
          else ActSet who (u_Key u) (u_Value u) ctr) (addCount KVApplied 1 n1), True)
     else (case refused of
       Some err \<Rightarrow> (logActivity (ActRefused (u_Action u) (u_Key u) ctr who err) (addCount KVRefused 1 n1), False)
     | None \<Rightarrow> (logActivity (ActStale (u_Action u) (u_Key u) ctr who) (addCount KVRejectedStale 1 n1), False)))"

definition handleKV :: "KVUpdate \<Rightarrow> Node \<Rightarrow> Node" where
  "handleKV u n = (case applyRemote u n of (n1, changed) \<Rightarrow> if changed then notify KVChanged n1 else n1)"

definition batchStep :: "Node \<times> bool \<Rightarrow> KVUpdate \<Rightarrow> Node \<times> bool" where
  "batchStep = (\<lambda>(n, changed) u. case applyRemote u n of (n1, ok) \<Rightarrow> (n1, changed \<or> ok))"

definition handleKVBatch :: "KVUpdate list \<Rightarrow> Node \<Rightarrow> Node" where
  "handleKVBatch us n = (case foldl batchStep (n, False) us of (n1, changed) \<Rightarrow>
     if changed then notify KVChanged n1 else n1)"

definition mergeUpdate :: "Node \<times> bool \<Rightarrow> KVUpdate \<Rightarrow> Node \<times> bool" where
  "mergeUpdate = (\<lambda>(n, changed) u. case withStore (\<lambda>kv. ApplyWithReason kv u) n of (n1, applied, refused) \<Rightarrow>
     if applied then (addCount KVApplied 1 n1, True)
     else if refused \<noteq> None then (addCount KVRefused 1 n1, changed)
     else (addCount KVRejectedStale 1 n1, changed))"

definition mergeState :: "StateResponse \<Rightarrow> Node \<Rightarrow> Node" where
  "mergeState resp n =
     (case foldl mergeUpdate (addCount StateSyncIn 1 n, False) (sr_KV resp) of (n1, changed) \<Rightarrow>
        let n2 = (if sr_Chat resp = [] then n1
              else notify ChatChanged ((onModel (PrependChat (sr_Chat resp)) n1)
                     \<lparr>nd_chatGaps := Seed (sr_Chat resp) (nd_chatGaps n1)\<rparr>))
        in if changed then notify KVChanged (logActivity (ActMerged (length (sr_KV resp))) n2) else n2)"

definition datagramSyncLimit :: nat where "datagramSyncLimit = 200"
definition stateSyncChatLines :: nat where "stateSyncChatLines = 200"

definition lastChat :: "ChatEntry list \<Rightarrow> nat \<Rightarrow> ChatEntry list" where
  "lastChat entries k =
     (let out = filter (\<lambda>e. ce_Kind e \<noteq> ChatDirect) entries
      in if length out \<le> k then out else drop (length out - k) out)"

definition stateResponse :: "nat \<Rightarrow> Node \<Rightarrow> StateResponse" where
  "stateResponse limit n =
     (let updates = Updates (nodeStore n)
      in \<lparr>sr_KV = (if limit > 0 \<and> length updates > limit then take limit updates else updates),
          sr_Chat = lastChat (ChatLog (nd_Model n)) stateSyncChatLines\<rparr>)"

definition handleStateRequest :: "string \<Rightarrow> Node \<Rightarrow> Node" where
  "handleStateRequest from n =
     (let n1 = addCount StateSyncOut 1 (touch from n)
      in send from (MsgStateResponse (stateResponse datagramSyncLimit n1)) n1)"

definition handleStateResponse :: "StateResponse \<Rightarrow> Node \<Rightarrow> Node" where
  "handleStateResponse resp n = mergeState resp n"

section \<open>Anti-entropy\<close>

definition antiEntropyRound :: "string \<Rightarrow> Node \<Rightarrow> Node" where
  "antiEntropyRound target n =
     (if target = '''' then n
      else (case aeAdvance (nodeStore n) (DigestBatch (nc_budgets (nd_cfg n))) target (nd_aeCursors n) of (cursors, d) \<Rightarrow>
        send target (MsgDigest (d\<lparr>d_From := advertised n\<rparr>)) (addCount AERounds 1 (n\<lparr>nd_aeCursors := cursors\<rparr>))))"

definition forgetPeerCursor :: "string \<Rightarrow> Node \<Rightarrow> Node" where
  "forgetPeerCursor addr n = n\<lparr>nd_aeCursors := fmdrop addr (nd_aeCursors n), nd_peerLimits := fmdrop addr (nd_peerLimits n)\<rparr>"

definition sendUpdates :: "string \<Rightarrow> KVUpdate list \<Rightarrow> Node \<Rightarrow> Node" where
  "sendUpdates addr us n =
     (if nd_stopped n then n
      else if length (nd_bulk n) < bulkCap then n\<lparr>nd_bulk := nd_bulk n @ [(addr, us)]\<rparr>
      else logActivity ActQueueFull n)"

definition handleDigest :: "Digest \<Rightarrow> Node \<Rightarrow> Node" where
  "handleDigest d n =
     (let n1 = touch (d_From d) n in
      case Reconcile (nodeStore n1) d (MaxPush (nc_budgets (nd_cfg n))) (MaxPull (nc_budgets (nd_cfg n))) of (push, pull) \<Rightarrow>
        let n2 = (if push = [] then n1
              else sendUpdates (d_From d) push (logActivity (ActPushing (length push) (peerName n1 (d_From d)))
                     (addCount AEPushed (word_of_nat (length push)) n1)))
        in if pull = [] then n2
           else send (d_From d) (MsgPullRequest \<lparr>pr_From = advertised n, pr_Keys = pull\<rparr>)
                  (logActivity (ActPulling (length pull) (peerName n2 (d_From d)))
                    (addCount AEPulled (word_of_nat (length pull)) n2)))"

definition handlePullRequest :: "PullRequest \<Rightarrow> Node \<Rightarrow> Node" where
  "handlePullRequest req n =
     (let n1 = touch (pr_From req) n; updates = UpdatesFor (nodeStore n1) (pr_Keys req)
      in if updates = [] then n1 else sendUpdates (pr_From req) updates n1)"

definition sendRepair :: "(KVUpdate \<Rightarrow> nat) \<Rightarrow> string \<Rightarrow> KVUpdate list \<Rightarrow> Node \<Rightarrow> Node" where
  "sendRepair encLen addr updates n =
     (let maxValue = (case fmlookup (nd_peerLimits n) addr of Some l \<Rightarrow> sl_MaxValueBytes l | None \<Rightarrow> 0)
      in foldl (\<lambda>n b. send addr (MsgKVBatch b) n) n (repairBatches encLen maxValue updates [] 0))"

definition repairWorker :: "(KVUpdate \<Rightarrow> nat) \<Rightarrow> Node \<Rightarrow> Node" where
  "repairWorker encLen n =
     (if nd_stopped n then n
      else (case nd_bulk n of
        [] \<Rightarrow> n
      | (addr, updates) # rest \<Rightarrow> sendRepair encLen addr updates (n\<lparr>nd_bulk := rest\<rparr>)))"

definition ReplicationWarnings :: "Node \<Rightarrow> (string \<times> StoreLimits) list" where
  "ReplicationWarnings n = filter (\<lambda>(a, l). sl_MaxKeys l \<noteq> MaxKeys (nc_Limits (nd_cfg n))
      \<or> sl_MaxValueBytes l \<noteq> MaxValueBytes (nc_Limits (nd_cfg n))) (fmentries (nd_peerLimits n))"

definition fingerprintReply :: "(string \<Rightarrow> 256 word) \<Rightarrow> int list \<Rightarrow> Node \<Rightarrow> FingerprintReply" where
  "fingerprintReply sha buckets n =
     (let r = (StoreFingerprint sha (nodeStore n) (int FingerprintBuckets))\<lparr>fr_From := advertised n, fr_Nick := Nick (nd_Model n)\<rparr>
      in if buckets = [] then r
         else r\<lparr>fr_Entries := BucketEntries sha (nodeStore n) (int FingerprintBuckets) buckets\<rparr>)"

definition fingerprintResponse :: "(string \<Rightarrow> 256 word) \<Rightarrow> Fingerprint \<Rightarrow> Node \<Rightarrow> FingerprintReply" where
  "fingerprintResponse sha req n =
     (let r = (fingerprintReply sha (fp_Buckets req) n)\<lparr>fr_Capabilities := [''digest-v2'', ''empty-value-hash'', ''expiry-metadata'']\<rparr>
      in if fp_DigestVersion req = 2
         then r\<lparr>fr_Buckets := fr_Buckets (FingerprintVersion sha (nodeStore n) (int FingerprintBuckets) 2), fr_DigestVersion := 2\<rparr>
         else r)"

definition handleFingerprint :: "(string \<Rightarrow> 256 word) \<Rightarrow> Fingerprint \<Rightarrow> Node \<Rightarrow> Node" where
  "handleFingerprint sha req n =
     (if fp_From req = '''' then n
      else let n1 = touch (fp_From req) n in send (fp_From req) (MsgFingerprintReply (fingerprintReply sha [] n1)) n1)"

definition handleFingerprintReply :: "FingerprintReply \<Rightarrow> Node \<Rightarrow> Node" where
  "handleFingerprintReply reply n = touch (fr_From reply) n"

section \<open>Membership\<close>

definition greetPeer :: "string \<Rightarrow> string \<Rightarrow> Node \<Rightarrow> Node \<times> bool" where
  "greetPeer addr nick n = (case meetPeer addr nick n of (n1, added) \<Rightarrow>
     if added then (send addr (MsgHello (helloMessage n1)) n1, True) else (n1, False))"

definition gossipedPeer :: "Node \<times> bool \<Rightarrow> string \<Rightarrow> Node \<times> bool" where
  "gossipedPeer = (\<lambda>(n, changed) p. case greetPeer p (NickOf (nd_Model n) p) n of (n1, added) \<Rightarrow> (n1, changed \<or> added))"

definition handlePeerGossip :: "PeerGossip \<Rightarrow> Node \<Rightarrow> Node" where
  "handlePeerGossip g n =
     (let n1 = learnID (pg_ID g) (pg_From g) (learnNick (pg_From g) (pg_Nick g) (touch (pg_From g) n));
          n2 = onModel (RecordPeerView (nodeNow n1) (pg_From g) (pg_Peers g)) n1
      in case foldl gossipedPeer (greetPeer (pg_From g) (pg_Nick g) n2) (pg_Peers g) of (n3, changed) \<Rightarrow>
        if changed then notify PeersChanged n3 else n3)"

text \<open>\<open>None\<close> when the loop of \<open>Announce\<close> does not end.\<close>

definition handleHello :: "Hello \<Rightarrow> Node \<Rightarrow> Node option" where
  "handleHello h n =
     (let n1 = n\<lparr>nd_peerLimits := (case h_Limits h of Some l \<Rightarrow> fmupd (h_From h) l (nd_peerLimits n)
                  | None \<Rightarrow> fmdrop (h_From h) (nd_peerLimits n))\<rparr>;
          n2 = learnID (h_ID h) (h_From h) (learnNick (h_From h) (h_Nick h) (touch (h_From h) n1));
          author = (if h_ID h = '''' then h_From h else h_ID h);
          before = outstanding (nd_chatGaps n2)
      in case Announce (nd_chatGaps n2) author (h_From h) (h_ChatSeq h) of
        None \<Rightarrow> None
      | Some gaps \<Rightarrow> Some (case meetPeer (h_From h) (h_Nick h) (countGrown before (n2\<lparr>nd_chatGaps := gaps\<rparr>)) of
          (n3, added) \<Rightarrow> if added then notify PeersChanged n3 else n3))"

definition handleGoodbye :: "Goodbye \<Rightarrow> Node \<Rightarrow> Node" where
  "handleGoodbye g n =
     (if \<not> HasPeer (nd_Model n) (gb_From g) then n
      else
        let nick = (if gb_Nick g = '''' then NickOf (nd_Model n) (gb_From g) else gb_Nick g)
        in notify PeersChanged (announceLeave (gb_From g) nick
             (forgetPeerCursor (gb_From g) (onModel (RemovePeer (gb_From g)) n))))"

definition recordSeenAt :: "string \<Rightarrow> Node \<Rightarrow> Node" where
  "recordSeenAt addr n = (if addr = '''' then n else n\<lparr>nd_seen := addr\<rparr>)"

definition requestStateFrom :: "string \<Rightarrow> Node \<Rightarrow> Node" where
  "requestStateFrom peer n = send peer (MsgStateRequest (advertised n)) n"

definition requestStateFromRandomPeer :: "nat \<Rightarrow> Node \<Rightarrow> Node" where
  "requestStateFromRandomPeer rnd n = (let peer = randomPeer rnd n in if peer = '''' then n else requestStateFrom peer n)"

definition rosterPeer :: "Node \<times> bool \<Rightarrow> BootstrapPeer \<Rightarrow> Node \<times> bool" where
  "rosterPeer = (\<lambda>(n, learned) p.
     let n1 = learnNick (bp_Addr p) (bp_Nick p) n
     in case meetPeer (bp_Addr p) (NickOf (nd_Model n1) (bp_Addr p)) n1 of (n2, added) \<Rightarrow> (n2, learned \<or> added))"

definition applyRoster :: "nat \<Rightarrow> BootstrapRoster \<Rightarrow> Node \<Rightarrow> Node" where
  "applyRoster rnd roster n = (case foldl rosterPeer (recordSeenAt (ro_SeenAt roster) n, False) (ro_Peers roster) of (n1, learned) \<Rightarrow>
     if \<not> learned then n1 else requestStateFromRandomPeer rnd (helloAllPeers (notify PeersChanged n1)))"

definition registerWithBootstrap :: "Node \<Rightarrow> Node" where
  "registerWithBootstrap n = foldl (\<lambda>n seed. if seed = '''' then n
       else send seed (MsgBootstrapRegister \<lparr>br_From = advertised n, br_Nick = Nick (nd_Model n)\<rparr>) n)
     n (nc_BootstrapAddrs (nd_cfg n))"

text \<open>\<open>answers seed\<close>: the stream exchange with that seed succeeds.\<close>

definition discoverFromBootstrap :: "(string \<Rightarrow> bool) \<Rightarrow> Node \<Rightarrow> Node" where
  "discoverFromBootstrap answers n =
     (let req = MsgBootstrapDiscover (advertised n); seeds = filter (\<lambda>s. s \<noteq> '''') (nc_BootstrapAddrs (nd_cfg n))
      in case List.find answers seeds of
        Some seed \<Rightarrow> send seed req n
      | None \<Rightarrow> foldl (\<lambda>n seed. send seed req n) n seeds)"

definition join :: "(string \<Rightarrow> bool) \<Rightarrow> nat \<Rightarrow> Node \<Rightarrow> Node" where
  "join answers rnd n =
     requestStateFromRandomPeer rnd (helloAllPeers (discoverFromBootstrap answers (registerWithBootstrap n)))"

section \<open>Ticks\<close>

definition gossipTick :: "nat \<Rightarrow> Node \<Rightarrow> Node" where
  "gossipTick rnd n =
     (if GetNodes (nd_Model n) = [] then n
      else
        let target = randomPeer rnd n
        in pullChatGaps (antiEntropyRound target (send target (MsgPeerGossip \<lparr>pg_From = advertised n,
             pg_Nick = Nick (nd_Model n), pg_ID = md_NodeID (nd_Model n),
             pg_Peers = GossipPeers (nodeNow n) (nc_EvictThreshold (nd_cfg n)) (nd_Model n)\<rparr>) n)))"

definition heartbeatTick :: "(string \<Rightarrow> bool) \<Rightarrow> Node \<Rightarrow> Node" where
  "heartbeatTick answers n =
     (let n1 = registerWithBootstrap n
      in helloAllPeers (if GetNodes (nd_Model n1) = [] then discoverFromBootstrap answers n1 else n1))"

definition evictTick :: "Node \<Rightarrow> Node" where
  "evictTick n = (case EvictStalePeers (nodeNow n) (nc_EvictThreshold (nd_cfg n)) (nd_Model n) of (m, evicted) \<Rightarrow>
     let n1 = foldl (\<lambda>n (addr, nick). announceLeave addr nick (forgetPeerCursor addr n)) (n\<lparr>nd_Model := m\<rparr>) evicted
     in if evicted = [] then n1 else notify PeersChanged n1)"

definition sweepTick :: "Node \<Rightarrow> Node" where
  "sweepTick n = (case withStore SweepExpired n of (n1, gone) \<Rightarrow>
     let n2 = (if gone > 0 then notify KVChanged (logActivity (ActExpired gone)
                 (addCount KVExpired (word_of_nat gone) n1)) else n1)
     in if nc_TombstoneTTL (nd_cfg n) \<le> 0 then n2
        else (case withStore (\<lambda>kv. GCTombstones kv (nc_TombstoneTTL (nd_cfg n))) n2 of (n3, gced) \<Rightarrow>
          if gced > 0 then logActivity (ActReclaimed gced) (addCount KVGCed (word_of_nat gced) n3) else n3))"

section \<open>Packets\<close>

fun dispatchBody :: "(string \<Rightarrow> 256 word) \<Rightarrow> nat \<Rightarrow> message \<Rightarrow> Node \<Rightarrow> Node option" where
  "dispatchBody sha rnd (MsgKV u) n = Some (handleKV u n)"
| "dispatchBody sha rnd (MsgKVBatch us) n = Some (handleKVBatch us n)"
| "dispatchBody sha rnd (MsgChat m) n = Some (handleChat m n)"
| "dispatchBody sha rnd (MsgDirectMessage m) n = Some (handleDirectMessage m n)"
| "dispatchBody sha rnd (MsgStateRequest from) n = Some (handleStateRequest from n)"
| "dispatchBody sha rnd (MsgStateResponse r) n = Some (handleStateResponse r n)"
| "dispatchBody sha rnd (MsgPeerGossip g) n = Some (handlePeerGossip g n)"
| "dispatchBody sha rnd (MsgHello h) n = handleHello h n"
| "dispatchBody sha rnd (MsgGoodbye g) n = Some (handleGoodbye g n)"
| "dispatchBody sha rnd (MsgDigest d) n = Some (handleDigest d n)"
| "dispatchBody sha rnd (MsgPullRequest r) n = Some (handlePullRequest r n)"
| "dispatchBody sha rnd (MsgFingerprint r) n = Some (handleFingerprint sha r n)"
| "dispatchBody sha rnd (MsgFingerprintReply r) n = Some (handleFingerprintReply r n)"
| "dispatchBody sha rnd (MsgChatPull r) n = Some (handleChatPull r n)"
| "dispatchBody sha rnd (MsgChatBacklog r) n = Some (handleChatBacklog r n)"
| "dispatchBody sha rnd (MsgBootstrapRoster r) n = Some (applyRoster rnd r n)"
| "dispatchBody sha rnd (MsgBootstrapRegister r) n = Some (addCount MalformedDrops 1 n)"
| "dispatchBody sha rnd (MsgBootstrapDiscover r) n = Some (addCount MalformedDrops 1 n)"

text \<open>\<open>unm kind body\<close> is what \<open>json.Unmarshal\<close> reads into the struct the kind's handler declares.\<close>

definition dispatch ::
  "(MessageKind \<Rightarrow> bytes \<Rightarrow> message option) \<Rightarrow> (string \<Rightarrow> 256 word) \<Rightarrow> nat \<Rightarrow> MessageKind \<Rightarrow> bytes \<Rightarrow> Node \<Rightarrow> Node option" where
  "dispatch unm sha rnd kind body n = (case unm kind body of
     None \<Rightarrow> Some (addCount MalformedDrops 1 n)
   | Some msg \<Rightarrow> dispatchBody sha rnd msg n)"

definition senderOf :: "(bytes \<Rightarrow> (string \<times> string) option) \<Rightarrow> bytes \<Rightarrow> string" where
  "senderOf rd body = (case rd body of
     None \<Rightarrow> ''''
   | Some (from, sender) \<Rightarrow> if from \<noteq> '''' then from else sender)"

definition isRendezvous :: "string \<Rightarrow> Node \<Rightarrow> bool" where
  "isRendezvous from n \<longleftrightarrow> from |\<in>| nd_rendezvous n"

definition noteStranger :: "string \<Rightarrow> string \<Rightarrow> Node \<Rightarrow> Node" where
  "noteStranger from claimed n =
     (if claimed \<noteq> '''' \<and> (HasPeerNormalized (nd_Model n) claimed \<or> IsSelf (nd_Model n) claimed) then n
      else if from = '''' \<or> HasPeerNormalized (nd_Model n) from \<or> IsSelf (nd_Model n) from then n
      else if isRendezvous from n then n
      else n\<lparr>nd_strangers := fmupd from (unix (nodeNow n)) (nd_strangers n)\<rparr>)"

definition noteRendezvous :: "string \<Rightarrow> Node \<Rightarrow> Node" where
  "noteRendezvous from n =
     (if from = '''' then n
      else n\<lparr>nd_rendezvous := finsert from (nd_rendezvous n), nd_strangers := fmdrop from (nd_strangers n)\<rparr>)"

record Stranger =
  st_Addr :: string
  st_LastSeen :: unix_time
  st_PacketsIn :: u64
  st_Rejected :: u64

definition StrangerQuietWindow :: nanos where
  "StrangerQuietWindow = 300 * second"

definition Strangers :: "Node \<Rightarrow> Node \<times> Stranger list" where
  "Strangers n =
     (let cutoff = unix (nodeNow n - StrangerQuietWindow);
          known = (\<lambda>a. HasPeerNormalized (nd_Model n) a);
          stale = (\<lambda>a. case fmlookup (nd_strangers n) a of Some at \<Rightarrow> \<not> known a \<and> at < cutoff | None \<Rightarrow> False);
          out = map (\<lambda>(a, at). case fmlookup (nd_peerCounters n) a of
              Some c \<Rightarrow> \<lparr>st_Addr = a, st_LastSeen = at, st_PacketsIn = pc_packetsIn c, st_Rejected = pc_rejected c\<rparr>
            | None \<Rightarrow> \<lparr>st_Addr = a, st_LastSeen = at, st_PacketsIn = 0, st_Rejected = 0\<rparr>)
            (filter (\<lambda>(a, at). \<not> known a \<and> \<not> at < cutoff) (fmentries (nd_strangers n)))
      in (n\<lparr>nd_strangers := fmfilter (\<lambda>a. \<not> stale a) (nd_strangers n)\<rparr>, out))"

definition counters :: "string \<Rightarrow> Node \<Rightarrow> peerCounters" where
  "counters addr n = (case fmlookup (nd_peerCounters n) addr of Some c \<Rightarrow> c
     | None \<Rightarrow> \<lparr>pc_packetsIn = 0, pc_bytesIn = 0, pc_rejected = 0\<rparr>)"

definition Recv :: "MessageKind \<Rightarrow> nat \<Rightarrow> Node \<Rightarrow> Node" where
  "Recv kind len n = addCount (RecvByKind kind) 1 (addCount BytesRecv (word_of_nat len) (addCount PacketsRecv 1 n))"

definition RecvFrom :: "string \<Rightarrow> MessageKind \<Rightarrow> nat \<Rightarrow> Node \<Rightarrow> Node" where
  "RecvFrom addr kind len n =
     (let n1 = Recv kind len n
      in if addr = '''' then n1
         else n1\<lparr>nd_peerCounters := fmupd addr ((counters addr n)\<lparr>pc_packetsIn := pc_packetsIn (counters addr n) + 1,
                pc_bytesIn := pc_bytesIn (counters addr n) + word_of_nat len\<rparr>) (nd_peerCounters n)\<rparr>)"

definition RejectedFrom :: "string \<Rightarrow> Node \<Rightarrow> Node" where
  "RejectedFrom addr n =
     (if addr = '''' then n
      else n\<lparr>nd_peerCounters := fmupd addr ((counters addr n)\<lparr>pc_rejected := pc_rejected (counters addr n) + 1\<rparr>)
             (nd_peerCounters n)\<rparr>)"

definition dropCounter :: "codecError \<Rightarrow> counter" where
  "dropCounter err = (case err of ErrBadMAC \<Rightarrow> AuthFailures | ErrReplay \<Rightarrow> ReplayDrops | ErrClockSkew \<Rightarrow> SkewDrops
     | ErrShortFrame \<Rightarrow> MalformedDrops)"

definition handlePacket ::
  "(bytes \<Rightarrow> bytes \<Rightarrow> bytes) \<Rightarrow> (MessageKind \<Rightarrow> bytes \<Rightarrow> message option) \<Rightarrow> (bytes \<Rightarrow> (string \<times> string) option) \<Rightarrow>
   (string \<Rightarrow> 256 word) \<Rightarrow> nat \<Rightarrow> string \<Rightarrow> bytes \<Rightarrow> Node \<Rightarrow> Node option" where
  "handlePacket hmac unm rd sha rnd from frame n =
     (let src = NormalizeAddr from in
      case Decode hmac (nd_codec n) (nodeNow n) frame of
        (c, Inl err) \<Rightarrow>
          Some (noteStranger src '''' (RejectedFrom src (addCount (dropCounter err) 1 (n\<lparr>nd_codec := c\<rparr>))))
      | (c, Inr (kind, body)) \<Rightarrow>
          let claimed = senderOf rd body;
              attribution = (if claimed \<noteq> '''' then NormalizeAddr claimed else src);
              n1 = RecvFrom attribution kind (length frame) (n\<lparr>nd_codec := c\<rparr>);
              n2 = (if kind = KindBootstrapRoster then noteRendezvous src n1 else n1)
          in dispatch unm sha rnd kind body (noteStranger src claimed n2))"

text \<open>A stream carries one request.  The reply is written to the connection it came on.\<close>

definition serveStream ::
  "(bytes \<Rightarrow> bytes \<Rightarrow> bytes) \<Rightarrow> (MessageKind \<Rightarrow> bytes \<Rightarrow> message option) \<Rightarrow> (string \<Rightarrow> 256 word) \<Rightarrow> nat \<Rightarrow> string \<Rightarrow> bytes \<Rightarrow>
   Node \<Rightarrow> Node option" where
  "serveStream hmac unm sha rnd conn frame n = (case Decode hmac (nd_codec n) (nodeNow n) frame of
     (c, Inl err) \<Rightarrow> Some (addCount AuthFailures 1 (n\<lparr>nd_codec := c\<rparr>))
   | (c, Inr (kind, body)) \<Rightarrow>
       let n1 = Recv kind (length frame) (n\<lparr>nd_codec := c\<rparr>) in
       if kind = KindStateRequest then
         (case unm kind body of
            Some (MsgStateRequest from) \<Rightarrow>
              let n2 = addCount StateSyncOut 1 (touch from n1) in Some (send conn (MsgStateResponse (stateResponse 0 n2)) n2)
          | _ \<Rightarrow> Some (addCount MalformedDrops 1 n1))
       else if kind = KindFingerprint then
         (case unm kind body of
            Some (MsgFingerprint req) \<Rightarrow>
              let n2 = touch (fp_From req) n1 in Some (send conn (MsgFingerprintReply (fingerprintResponse sha req n2)) n2)
          | _ \<Rightarrow> Some (addCount MalformedDrops 1 n1))
       else dispatch unm sha rnd kind body n1)"

section \<open>The API\<close>

definition finishWrite :: "Node \<times> (kvError + KVUpdate) \<Rightarrow> Node \<times> (kvError + KVUpdate)" where
  "finishWrite = (\<lambda>(n, r). case r of
     Inl err \<Rightarrow> (if err = ErrVersionMismatch then addCount KVCASFailures 1 n else n, Inl err)
   | Inr u \<Rightarrow> (notify KVChanged (broadcast (MsgKV u) (addCount KVLocalWrites 1 n)), Inr u))"

definition writeKey :: "string \<Rightarrow> string \<Rightarrow> nanos \<Rightarrow> version option \<Rightarrow> Node \<Rightarrow> Node \<times> (kvError + KVUpdate)" where
  "writeKey key val ttl expect n = finishWrite (withStore (\<lambda>kv. Write kv key val
     (zero_WriteOptions\<lparr>o_Expect := expect, o_ExpiresAt := (if ttl > 0 then unix (nodeNow n + ttl) else 0)\<rparr>)) n)"

definition removeKey :: "string \<Rightarrow> version option \<Rightarrow> Node \<Rightarrow> Node \<times> (kvError + KVUpdate)" where
  "removeKey key expect n = finishWrite (withStore (\<lambda>kv. Remove kv key (zero_WriteOptions\<lparr>o_Expect := expect\<rparr>)) n)"

definition NodeSet :: "string \<Rightarrow> string \<Rightarrow> nanos \<Rightarrow> Node \<Rightarrow> Node \<times> (kvError + KVUpdate)" where
  "NodeSet key val ttl n = writeKey key val ttl None n"

definition CompareAndSet :: "string \<Rightarrow> string \<Rightarrow> nanos \<Rightarrow> version \<Rightarrow> Node \<Rightarrow> Node \<times> (kvError + KVUpdate)" where
  "CompareAndSet key val ttl expect n = writeKey key val ttl (Some expect) n"

definition NodeDelete :: "string \<Rightarrow> Node \<Rightarrow> Node \<times> (kvError + KVUpdate)" where
  "NodeDelete key n = removeKey key None n"

definition CompareAndDelete :: "string \<Rightarrow> version \<Rightarrow> Node \<Rightarrow> Node \<times> (kvError + KVUpdate)" where
  "CompareAndDelete key expect n = removeKey key (Some expect) n"

definition importEntry :: "bool \<Rightarrow> Node \<times> nat \<Rightarrow> KVUpdate \<Rightarrow> Node \<times> nat" where
  "importEntry asLocalWrites = (\<lambda>(n, applied) u.
     if asLocalWrites then
       (if u_Action u = KVDelete then (fst (NodeDelete (u_Key u) n), Suc applied)
        else
          let ttl = (if u_ExpiresAt u > 0 then u_ExpiresAt u * second - nodeNow n else 0) in
          if u_ExpiresAt u > 0 \<and> ttl \<le> 0 then (n, applied)
          else (fst (NodeSet (u_Key u) (u_Value u) ttl n), Suc applied))
     else (case withStore (\<lambda>kv. Apply kv u) n of (n1, ok) \<Rightarrow>
       if ok then (broadcast (MsgKV u) n1, Suc applied) else (n1, applied)))"

text \<open>\<open>Import\<close> of an export whose entries were read.\<close>

definition Import :: "KVUpdate list \<Rightarrow> bool \<Rightarrow> Node \<Rightarrow> Node \<times> nat" where
  "Import entries asLocalWrites n = (case foldl (importEntry asLocalWrites) (n, 0) entries of (n1, applied) \<Rightarrow>
     if applied > 0 then (notify KVChanged (logActivity (ActImported applied) n1), applied) else (n1, applied))"

record PeerInfo =
  pi_Addr :: string
  pi_Nick :: string
  pi_LastSeen :: unix_time
  pi_AgeSec :: int

text \<open>A duration in seconds, fraction dropped.\<close>

definition wholeSeconds :: "nanos \<Rightarrow> int" where
  "wholeSeconds d = (if d < 0 then - ((- d) div second) else d div second)"

definition Peers :: "Node \<Rightarrow> PeerInfo list" where
  "Peers n = map (\<lambda>a. case LastSeen (nd_Model n) a of
       Some ts \<Rightarrow> \<lparr>pi_Addr = a, pi_Nick = NickOf (nd_Model n) a, pi_LastSeen = unix ts, pi_AgeSec = wholeSeconds (nodeNow n - ts)\<rparr>
     | None \<Rightarrow> \<lparr>pi_Addr = a, pi_Nick = NickOf (nd_Model n) a, pi_LastSeen = 0, pi_AgeSec = 0\<rparr>) (GetNodes (nd_Model n))"

definition Stop :: "Node \<Rightarrow> Node" where
  "Stop n = (if nd_stopped n then n
     else (broadcast (MsgGoodbye \<lparr>gb_From = advertised n, gb_Nick = Nick (nd_Model n)\<rparr>) n)\<lparr>nd_stopped := True\<rparr>)"


end
