(* ===== verification/EngineInvariants.thy ===== *)
theory EngineInvariants
  imports NodeEngine
begin

text \<open>
  Engine invariants.  The locale \<open>engine_frame\<close> is the contract between the engine's operations and
  a property of a node: it is enough that the primitives keep it.  Its lemmas lift it through every
  handler, tick and call that leaves the store alone; \<open>engine\<close> adds the operations of the store.
\<close>

section \<open>Steps of a node\<close>

text \<open>What a node does on its own account or for its user, apart from writing to the store.\<close>

inductive quiet_step :: "Node \<Rightarrow> Node \<Rightarrow> bool" where
  qs_chat: "quiet_step n (sendChatMessage text action n)"
| qs_dm: "quiet_step n (fst (SendDM equalFold target text n))"
| qs_nick: "quiet_step n (NodeSetNick nick n)"
| qs_join: "quiet_step n (join answers rnd n)"
| qs_gossip: "quiet_step n (gossipTick rnd n)"
| qs_heartbeat: "quiet_step n (heartbeatTick answers n)"
| qs_evict: "quiet_step n (evictTick n)"
| qs_strangers: "quiet_step n (fst (Strangers n))"
| qs_stop: "quiet_step n (Stop n)"

text \<open>Every step: those, any packet or stream frame, the store's operations, the repair worker, time passing.\<close>

inductive engine_step ::
  "(bytes \<Rightarrow> bytes \<Rightarrow> bytes) \<Rightarrow> (MessageKind \<Rightarrow> bytes \<Rightarrow> message option) \<Rightarrow> (bytes \<Rightarrow> (string \<times> string) option) \<Rightarrow>
   (string \<Rightarrow> 256 word) \<Rightarrow> Node \<Rightarrow> Node \<Rightarrow> bool" for hmac unm rd sha where
  es_quiet: "quiet_step n n' \<Longrightarrow> engine_step hmac unm rd sha n n'"
| es_packet: "handlePacket hmac unm rd sha rnd from frame n = Some n' \<Longrightarrow> engine_step hmac unm rd sha n n'"
| es_stream: "serveStream hmac unm sha rnd conn frame n = Some n' \<Longrightarrow> engine_step hmac unm rd sha n n'"
| es_write: "engine_step hmac unm rd sha n (fst (writeKey k v ttl expect n))"
| es_remove: "engine_step hmac unm rd sha n (fst (removeKey k expect n))"
| es_import: "engine_step hmac unm rd sha n (fst (Import us b n))"
| es_sweep: "engine_step hmac unm rd sha n (sweepTick n)"
| es_repair: "engine_step hmac unm rd sha n (repairWorker encLen n)"
| es_clock: "engine_step hmac unm rd sha n (onModel (\<lambda>m. m\<lparr>md_Store := SetClock s (md_Store m)\<rparr>) n)"

section \<open>What the engine is made of\<close>

text \<open>What the operations do to the model, apart from the store.\<close>

inductive model_step :: "Model \<Rightarrow> Model \<Rightarrow> bool" where
  ms_touch: "model_step m (TouchPeer now a m)"
| ms_add: "model_step m (fst (AddPeer now a m))"
| ms_remove: "model_step m (RemovePeer a m)"
| ms_nick: "model_step m (SetNick a nick m)"
| ms_id: "model_step m (SetNodeID now i a m)"
| ms_view: "model_step m (RecordPeerView now a ps m)"
| ms_append: "model_step m (AppendChat e m)"
| ms_insert: "model_step m (InsertChat e m)"
| ms_prepend: "model_step m (PrependChat es m)"
| ms_seq: "model_step m (fst (NextChatSeq m))"
| ms_ownnick: "model_step m (fst (SetOwnNick nick m))"
| ms_evict: "model_step m (fst (EvictStalePeers now th m))"

text \<open>An update built from an entry the store holds, and what a node may send.\<close>

definition held :: "kvStore \<Rightarrow> KVUpdate set" where
  "held kv = {entryUpdate k e |k e. fmlookup (kv_store kv) k = Some e}"

fun honest :: "Node \<Rightarrow> message \<Rightarrow> bool" where
  "honest n (MsgKV u) = False"
| "honest n (MsgKVBatch us) = False"
| "honest n (MsgChat m) = (m_Hops m \<le> MaxChatHops)"
| "honest n (MsgChatBacklog b) = (\<forall>m \<in> set (cb_Messages b). \<exists>e \<in> set (md_chatLog (nd_Model n)).
     ownLine (advertised n) (md_NodeID (nd_Model n)) e \<and> m = backlogMessage n e)"
| "honest n (MsgStateResponse r) = (\<exists>limit. r = stateResponse limit n)"
| "honest n _ = True"

text \<open>The updates a message brings.\<close>

fun msgUpdates :: "message \<Rightarrow> KVUpdate list option" where
  "msgUpdates (MsgKV u) = Some [u]"
| "msgUpdates (MsgKVBatch us) = Some us"
| "msgUpdates (MsgStateResponse r) = Some (sr_KV r)"
| "msgUpdates _ = None"

lemma heldI: "fmlookup (kv_store kv) k = Some e \<Longrightarrow> entryUpdate k e \<in> held kv"
  by (auto simp: held_def)

lemma UpdatesFor_held: "set (UpdatesFor kv ks) \<subseteq> held kv"
  by (auto simp: set_UpdatesFor intro: heldI)

lemma Reconcile_held: "set (fst (Reconcile kv d mp mq)) \<subseteq> held kv"
  by (auto simp: toPush_def dest!: Reconcile_push_subset intro: heldI)

lemma Updates_held: "set (Updates kv) \<subseteq> held kv"
  by (auto simp: Updates_def fmentries_def fmkeys_def fmlookup_dom_iff intro: heldI)

lemma PrependChat_store [simp]: "md_Store (PrependChat es m) = md_Store m"
  by (simp add: PrependChat_def Let_def)

lemma node_frame [simp]: "nd_Model (addCount c k n) = nd_Model n" "nd_Model (notify e n) = nd_Model n"
  "nd_Model (logActivity l n) = nd_Model n" "nd_Model (send a msg n) = nd_Model n" "nd_Model (broadcast msg n) = nd_Model n"
  "nd_cfg (addCount c k n) = nd_cfg n" "nd_cfg (notify e n) = nd_cfg n" "nd_cfg (logActivity l n) = nd_cfg n"
  "nd_cfg (send a msg n) = nd_cfg n" "nd_cfg (broadcast msg n) = nd_cfg n" "nd_cfg (onModel f n) = nd_cfg n"
  "nd_Model (onModel f n) = f (nd_Model n)"
  by (simp_all add: addCount_def notify_def logActivity_def send_def broadcast_def onModel_def)

lemma honest_cong: "nd_Model n' = nd_Model n \<Longrightarrow> nd_cfg n' = nd_cfg n \<Longrightarrow> honest n' msg = honest n msg"
  by (cases msg) (simp_all add: backlogMessage_def [abs_def] stateResponse_def)

lemma honest_simps [simp]: "honest (addCount c k n) msg = honest n msg" "honest (notify e n) msg = honest n msg"
  "honest (logActivity l n) msg = honest n msg" "honest (send a msg' n) msg = honest n msg"
  "honest (n\<lparr>nd_aeCursors := x\<rparr>) msg = honest n msg"
  by (auto simp: addCount_def notify_def logActivity_def send_def intro!: honest_cong)

locale engine_frame =
  fixes P :: "Node \<Rightarrow> bool"
  assumes P_metrics: "P n \<Longrightarrow> P (n\<lparr>nd_Metrics := x\<rparr>)"
    and P_peerCounters: "P n \<Longrightarrow> P (n\<lparr>nd_peerCounters := xc\<rparr>)"
    and P_codec: "P n \<Longrightarrow> P (n\<lparr>nd_codec := c\<rparr>)"
    and P_notices: "P n \<Longrightarrow> P (n\<lparr>nd_notices := xn\<rparr>)"
    and P_strangers: "P n \<Longrightarrow> P (n\<lparr>nd_strangers := xs\<rparr>)"
    and P_rendezvous: "P n \<Longrightarrow> P (n\<lparr>nd_rendezvous := xr\<rparr>)"
    and P_seen: "P n \<Longrightarrow> P (n\<lparr>nd_seen := s\<rparr>)"
    and P_limits: "P n \<Longrightarrow> P (n\<lparr>nd_peerLimits := xl\<rparr>)"
    and P_cursors: "P n \<Longrightarrow> P (n\<lparr>nd_aeCursors := xa\<rparr>)"
    and P_stopped: "P n \<Longrightarrow> P (n\<lparr>nd_stopped := b\<rparr>)"
    and P_activity: "P n \<Longrightarrow> P (n\<lparr>nd_activity := ring activityRing (nd_activity n @ [l])\<rparr>)"
    and P_gaps: "P n \<Longrightarrow> tr_step (nd_chatGaps n) cmd = Some t \<Longrightarrow> P (n\<lparr>nd_chatGaps := t\<rparr>)"
    and P_model: "P n \<Longrightarrow> model_step (nd_Model n) m \<Longrightarrow> P (n\<lparr>nd_Model := m\<rparr>)"
    and P_send: "P n \<Longrightarrow> honest n msg \<Longrightarrow> P (n\<lparr>nd_outbox := nd_outbox n @ [(a, msg)]\<rparr>)"
    and P_queue: "P n \<Longrightarrow> set us \<subseteq> held (nodeStore n) \<Longrightarrow> length (nd_bulk n) < bulkCap \<Longrightarrow>
      P (n\<lparr>nd_bulk := nd_bulk n @ [(a, us)]\<rparr>)"
begin

lemma P_addCount: "P n \<Longrightarrow> P (addCount c k n)"
  by (simp add: addCount_def P_metrics)

lemma P_notify: "P n \<Longrightarrow> P (notify e n)"
  by (simp add: notify_def P_notices)

lemma P_log: "P n \<Longrightarrow> P (logActivity l n)"
  by (simp add: logActivity_def P_notify P_activity)

lemma P_sent: "P n \<Longrightarrow> honest n msg \<Longrightarrow> P (send a msg n)"
  by (simp add: send_def P_send)

lemma P_onModel: "P n \<Longrightarrow> model_step (nd_Model n) (f (nd_Model n)) \<Longrightarrow> P (onModel f n)"
  by (simp add: onModel_def P_model)

lemmas P_basic = P_addCount P_notify P_log P_sent P_onModel P_metrics P_peerCounters P_codec P_notices P_strangers
  P_rendezvous P_seen P_limits P_cursors P_stopped model_step.intros

lemma P_sends: "P n \<Longrightarrow> honest n msg \<Longrightarrow> P (foldl (\<lambda>n a. send a msg n) n as)"
  by (induction as arbitrary: n) (simp_all add: P_sent)

lemma P_broadcast: "P n \<Longrightarrow> honest n msg \<Longrightarrow> P (broadcast msg n)"
proof -
  have "broadcast msg n = foldl (\<lambda>n a. send a msg n) n (GetNodes (nd_Model n))"
  proof -
    have "foldl (\<lambda>n a. send a msg n) n as = n\<lparr>nd_outbox := nd_outbox n @ map (\<lambda>a. (a, msg)) as\<rparr>" for as
      by (induction as arbitrary: n) (simp_all add: send_def)
    then show ?thesis
      by (simp add: broadcast_def)
  qed
  then show "P n \<Longrightarrow> honest n msg \<Longrightarrow> P (broadcast msg n)"
    by (simp add: P_sends)
qed

lemma P_touch: "P n \<Longrightarrow> P (touch a n)"
  by (simp add: touch_def P_basic)

lemma P_learnNick: "P n \<Longrightarrow> P (learnNick a nick n)"
  by (simp add: learnNick_def P_basic)

lemma P_learnID: "P n \<Longrightarrow> P (learnID i a n)"
  by (simp add: learnID_def P_basic)

lemma P_appendChat: "P n \<Longrightarrow> P (appendChat e n)"
  by (simp add: appendChat_def Let_def P_basic)

lemma P_announce: "P n \<Longrightarrow> P (announceJoin a nick n)" "P n \<Longrightarrow> P (announceLeave a nick n)" "P n \<Longrightarrow> P (systemLine s n)"
  by (simp_all add: announceJoin_def announceLeave_def systemLine_def P_appendChat)

lemma P_meetPeer: "P n \<Longrightarrow> P (fst (meetPeer a nick n))"
  using P_model [OF _ ms_add, of n "nodeNow n" a]
  by (auto simp: meetPeer_def nodeAddPeer_def P_announce split: prod.split)

lemma P_greetPeer: "P n \<Longrightarrow> P (fst (greetPeer a nick n))"
  using P_meetPeer [of n a nick] by (auto simp: greetPeer_def P_sent split: prod.split)

lemma P_hello: "P n \<Longrightarrow> P (helloAllPeers n)"
  by (simp add: helloAllPeers_def P_broadcast)

lemma P_grown: "P n \<Longrightarrow> P (countGrown k n)"
  by (simp add: countGrown_def Let_def P_addCount)

lemma P_observe: "P n \<Longrightarrow> P (n\<lparr>nd_chatGaps := fst (Observe (nd_chatGaps n) m)\<rparr>)"
  by (rule P_gaps [of _ "TObserve m"]) simp_all

lemma P_seed: "P n \<Longrightarrow> P (n\<lparr>nd_chatGaps := Seed es (nd_chatGaps n)\<rparr>)"
proof (induction es arbitrary: n)
  case (Cons e es)
  then show ?case
    using Cons.IH [OF P_gaps [of n "TSeed e"]] by (simp add: Seed_def)
qed (simp add: Seed_def)

lemma P_acceptChat: "P n \<Longrightarrow> P (fst (acceptChat m n))"
  using P_observe [of n m]
  by (auto simp: acceptChat_def P_basic P_appendChat P_grown Let_def split: prod.split chatOutcome.split)

lemma P_relayChat:
  assumes "P n"
  shows "P (relayChat m n)"
proof -
  have "m_Hops m + 1 \<le> MaxChatHops" if "m_Hops m < MaxChatHops"
    using that inc_le by blast
  then show ?thesis
    using assms by (auto simp: relayChat_def Let_def P_basic P_sends)
qed

lemma P_handleChat: "P n \<Longrightarrow> P (handleChat m n)"
  using P_acceptChat [of "learnNick (m_Sender m) (m_Nick m) (touch (m_Sender m) n)" m]
    P_meetPeer [OF P_relayChat, of "fst (acceptChat m (learnNick (m_Sender m) (m_Nick m) (touch (m_Sender m) n)))" "m_Sender m" "m_Nick m" m]
  by (auto simp: handleChat_def P_basic P_touch P_learnNick split: prod.split bool.split)

lemma P_handleDirectMessage: "P n \<Longrightarrow> P (handleDirectMessage m n)"
  by (simp add: handleDirectMessage_def P_appendChat P_learnNick P_touch)

lemma P_handleChatPull: "P n \<Longrightarrow> P (handleChatPull req n)"
  by (auto simp: handleChatPull_def OwnChat_def Let_def set_map_filter backlogMessage_def addCount_def
      intro!: P_sent P_metrics dest!: ownBySeq_lookup(1))

lemma P_backlog: "P n \<Longrightarrow> P (foldl (backlogLine from) n ms)"
  by (induction ms arbitrary: n) (auto simp: backlogLine_def P_basic P_acceptChat)

lemma P_handleChatBacklog: "P n \<Longrightarrow> P (handleChatBacklog b n)"
  using P_gaps [OF P_backlog, of n _ _ "TMark (cb_From b) (cb_Unavailable b)"]
  by (auto simp: handleChatBacklog_def Let_def P_backlog P_basic)

lemma P_pullChatGaps:
  assumes "P n"
  shows "P (pullChatGaps n)"
proof -
  have "P n \<Longrightarrow> P (foldl (\<lambda>n p. send (pp_Addr p) (MsgChatPull \<lparr>cp_From = advertised n, cp_Seqs = pp_Seqs p\<rparr>) (addCount ChatPullsSent 1 n)) n ps)" for n ps
    by (induction ps arbitrary: n) (auto simp: P_basic)
  then show ?thesis
    using P_gaps [OF assms, of TPull] by (cases "PullPlans (nd_chatGaps n)") (simp add: pullChatGaps_def)
qed

lemma P_sendChat: "P n \<Longrightarrow> P (sendChatMessage text action n)"
  using P_model [OF _ ms_seq, of n]
  by (auto simp: sendChatMessage_def NextChatSeq_def Let_def MaxChatHops_def intro!: P_broadcast P_appendChat)

lemma P_SendDM: "P n \<Longrightarrow> P (fst (SendDM eqf target text n))"
  by (simp add: SendDM_def Let_def P_appendChat P_sent)

lemma P_setNick: "P n \<Longrightarrow> P (NodeSetNick nick n)"
  using P_model [OF _ ms_ownnick, of n nick]
  by (simp add: NodeSetNick_def SetOwnNick_def SendChat_def P_sendChat P_hello P_announce)

lemma P_sendUpdates: "P n \<Longrightarrow> set us \<subseteq> held (nodeStore n) \<Longrightarrow> P (sendUpdates a us n)"
  by (simp add: sendUpdates_def P_queue P_log)

lemma P_sendState: "P n \<Longrightarrow> P (send a (MsgStateResponse (stateResponse limit n)) n)"
  by (rule P_sent) auto

lemma P_handleStateRequest: "P n \<Longrightarrow> P (handleStateRequest from n)"
  by (simp add: handleStateRequest_def Let_def P_sendState P_addCount P_touch)

lemma P_handleDigest:
  assumes "P n"
  shows "P (handleDigest d n)"
proof -
  let ?n = "touch (d_From d) n"
  let ?r = "Reconcile (nodeStore ?n) d (MaxPush (nc_budgets (nd_cfg n))) (MaxPull (nc_budgets (nd_cfg n)))"
  show ?thesis
    using P_touch [OF assms, of "d_From d"]
      Reconcile_held [of "nodeStore ?n" d "MaxPush (nc_budgets (nd_cfg n))" "MaxPull (nc_budgets (nd_cfg n))"]
    by (cases ?r) (auto simp: handleDigest_def Let_def intro!: P_sent P_log P_addCount P_sendUpdates)
qed

lemma P_handlePullRequest: "P n \<Longrightarrow> P (handlePullRequest req n)"
  by (simp add: handlePullRequest_def Let_def P_touch P_sendUpdates UpdatesFor_held)

lemma P_handleFingerprint: "P n \<Longrightarrow> P (handleFingerprint sha req n)" "P n \<Longrightarrow> P (handleFingerprintReply reply n)"
  by (simp_all add: handleFingerprint_def handleFingerprintReply_def Let_def P_sent P_touch)

lemma P_aeRound: "P n \<Longrightarrow> P (antiEntropyRound target n)"
  by (auto simp: antiEntropyRound_def split: prod.split intro!: P_sent P_addCount P_cursors)

lemma P_forget: "P n \<Longrightarrow> P (forgetPeerCursor a n)"
  using P_limits [OF P_cursors, of n "fmdrop a (nd_peerLimits n)" "fmdrop a (nd_aeCursors n)"] by (simp add: forgetPeerCursor_def)

lemma P_fold: "(\<And>x p. P (fst x) \<Longrightarrow> P (fst (f x p))) \<Longrightarrow> P (fst x) \<Longrightarrow> P (fst (foldl f x ps))"
  by (induction ps arbitrary: x) simp_all

lemma P_gossiped: "P (fst x) \<Longrightarrow> P (fst (foldl gossipedPeer x ps))"
proof (rule P_fold)
  show "P (fst x) \<Longrightarrow> P (fst (gossipedPeer x p))" for x p
    using P_greetPeer [of "fst x" p "NickOf (nd_Model (fst x)) p"] by (simp add: gossipedPeer_def split_beta)
qed

lemma P_handlePeerGossip: "P n \<Longrightarrow> P (handlePeerGossip g n)"
proof -
  let ?n = "learnID (pg_ID g) (pg_From g) (learnNick (pg_From g) (pg_Nick g) (touch (pg_From g) n))"
  let ?r = "foldl gossipedPeer (greetPeer (pg_From g) (pg_Nick g) (onModel (RecordPeerView (nodeNow ?n) (pg_From g) (pg_Peers g)) ?n)) (pg_Peers g)"
  assume "P n"
  then have "P (fst ?r)"
    by (simp add: P_gossiped P_greetPeer P_basic P_learnID P_learnNick P_touch)
  then show ?thesis
    by (cases ?r) (simp add: handlePeerGossip_def Let_def P_notify)
qed

lemma P_handleHello:
  assumes "P n" "handleHello h n = Some n'"
  shows "P n'"
proof -
  define n2 where "n2 = learnID (h_ID h) (h_From h) (learnNick (h_From h) (h_Nick h) (touch (h_From h)
     (n\<lparr>nd_peerLimits := (case h_Limits h of Some l \<Rightarrow> fmupd (h_From h) l (nd_peerLimits n) | None \<Rightarrow> fmdrop (h_From h) (nd_peerLimits n))\<rparr>)))"
  have "P n2"
    using assms(1) by (simp add: n2_def P_learnID P_learnNick P_touch P_limits)
  then have gaps: "P (n2\<lparr>nd_chatGaps := t\<rparr>)" if "Announce (nd_chatGaps n2) a b c = Some t" for a b c t
    using P_gaps [of n2 "TAnnounce a b c" t] that by simp
  obtain t b where t: "Announce (nd_chatGaps n2) (if h_ID h = '''' then h_From h else h_ID h) (h_From h) (h_ChatSeq h) = Some t"
      "n' = (case meetPeer (h_From h) (h_Nick h) (countGrown (outstanding (nd_chatGaps n2)) (n2\<lparr>nd_chatGaps := t\<rparr>)) of
          (n3, added) \<Rightarrow> if added then notify PeersChanged n3 else n3)"
    using assms(2) by (auto simp: handleHello_def n2_def [symmetric] Let_def split: option.splits)
  show ?thesis
    using P_meetPeer [OF P_grown [OF gaps [OF t(1)]], of "h_From h" "h_Nick h" "outstanding (nd_chatGaps n2)"]
    by (auto simp: t(2) P_notify split: prod.split)
qed

lemma P_handleGoodbye: "P n \<Longrightarrow> P (handleGoodbye g n)"
  by (simp add: handleGoodbye_def Let_def P_basic P_announce P_forget)

lemma P_requestState: "P n \<Longrightarrow> P (requestStateFromRandomPeer rnd n)"
  by (simp add: requestStateFromRandomPeer_def requestStateFrom_def Let_def P_sent)

lemma P_roster: "P (fst x) \<Longrightarrow> P (fst (foldl rosterPeer x ps))"
  by (rule P_fold) (simp_all add: rosterPeer_def Let_def split_beta P_meetPeer P_learnNick)

lemma P_applyRoster: "P n \<Longrightarrow> P (applyRoster rnd roster n)"
proof -
  let ?r = "foldl rosterPeer (recordSeenAt (ro_SeenAt roster) n, False) (ro_Peers roster)"
  assume "P n"
  then have "P (fst ?r)"
    by (simp add: P_roster recordSeenAt_def P_seen)
  then show ?thesis
    by (cases ?r) (simp add: applyRoster_def P_requestState P_hello P_notify)
qed

lemma P_register: "P n \<Longrightarrow> P (registerWithBootstrap n)"
proof -
  have "P n \<Longrightarrow> P (foldl (\<lambda>n seed. if seed = '''' then n
       else send seed (MsgBootstrapRegister \<lparr>br_From = advertised n, br_Nick = Nick (nd_Model n)\<rparr>) n) n seeds)" for n seeds
    by (induction seeds arbitrary: n) (simp_all add: P_sent)
  then show "P n \<Longrightarrow> P (registerWithBootstrap n)"
    by (simp add: registerWithBootstrap_def)
qed

lemma P_discover: "P n \<Longrightarrow> P (discoverFromBootstrap answers n)"
  by (auto simp: discoverFromBootstrap_def Let_def P_sent P_sends split: option.split)

lemma P_join: "P n \<Longrightarrow> P (join answers rnd n)"
  by (simp add: join_def P_requestState P_hello P_discover P_register)

lemma P_gossipTick: "P n \<Longrightarrow> P (gossipTick rnd n)"
  by (simp add: gossipTick_def Let_def P_pullChatGaps P_aeRound P_sent)

lemma P_heartbeatTick: "P n \<Longrightarrow> P (heartbeatTick answers n)"
  by (simp add: heartbeatTick_def Let_def P_hello P_discover P_register)

lemma P_evictTick:
  assumes "P n"
  shows "P (evictTick n)"
proof -
  have fold: "P n \<Longrightarrow> P (foldl (\<lambda>n (addr, nick). announceLeave addr nick (forgetPeerCursor addr n)) n ev)" for n ev
    by (induction ev arbitrary: n) (auto simp: P_announce P_forget)
  have "P (n\<lparr>nd_Model := fst (EvictStalePeers (nodeNow n) (nc_EvictThreshold (nd_cfg n)) (nd_Model n))\<rparr>)"
    using assms by (rule P_model) (rule ms_evict)
  then show ?thesis
    by (cases "EvictStalePeers (nodeNow n) (nc_EvictThreshold (nd_cfg n)) (nd_Model n)")
      (simp add: evictTick_def Let_def fold P_notify)
qed

lemma P_stop: "P n \<Longrightarrow> P (Stop n)"
  by (simp add: Stop_def P_stopped P_broadcast)

lemma P_noted: "P n \<Longrightarrow> P (noteStranger from claimed n)" "P n \<Longrightarrow> P (noteRendezvous from n)"
  using P_strangers [OF P_rendezvous, of n "fmdrop from (nd_strangers n)" "finsert from (nd_rendezvous n)"]
  by (simp_all add: noteStranger_def noteRendezvous_def P_strangers)

lemma P_counted: "P n \<Longrightarrow> P (Recv kind len n)" "P n \<Longrightarrow> P (RecvFrom a kind len n)" "P n \<Longrightarrow> P (RejectedFrom a n)"
  by (simp_all add: Recv_def RecvFrom_def RejectedFrom_def Let_def P_addCount P_peerCounters)

lemma P_Strangers: "P n \<Longrightarrow> P (fst (Strangers n))"
  by (simp add: Strangers_def Let_def P_strangers)

lemma P_quiet_step: "quiet_step n n' \<Longrightarrow> P n \<Longrightarrow> P n'"
  by (induction rule: quiet_step.induct)
    (simp_all add: P_sendChat P_SendDM P_setNick P_join P_gossipTick P_heartbeatTick P_evictTick P_Strangers P_stop)

lemma P_mergeChat: "P n \<Longrightarrow> P ((onModel (PrependChat es) n)\<lparr>nd_chatGaps := Seed es (nd_chatGaps n)\<rparr>)"
  using P_seed [of "onModel (PrependChat es) n" es] P_onModel [of n "PrependChat es", OF _ ms_prepend] by (simp add: onModel_def)

lemma P_quiet_dispatch:
  assumes "P n" "dispatchBody sha rnd msg n = Some n'" "msgUpdates msg = None"
  shows "P n'"
  using assms
  by (cases msg) (auto simp: P_addCount P_handleChat P_handleDirectMessage P_handleStateRequest P_handlePeerGossip P_handleHello
      P_handleGoodbye P_handleDigest P_handlePullRequest P_handleFingerprint P_handleChatPull P_handleChatBacklog P_applyRoster)

end

section \<open>Operations of the store\<close>

lemma fst_Apply: "fst (Apply kv u) = fst (ApplyWithReason kv u)"
  by (simp add: Apply_def split_beta)

lemma withStore_store: "nodeStore (fst (withStore f n)) = fst (f (nodeStore n))"
  "snd (withStore f n) = snd (snd (f (nodeStore n)))"
  by (simp_all add: withStore_def Let_def split_beta)

lemma send_batches:
  "foldl (\<lambda>n b. send a (MsgKVBatch b) n) n bs = n\<lparr>nd_outbox := nd_outbox n @ map (\<lambda>b. (a, MsgKVBatch b)) bs\<rparr>"
  by (induction bs arbitrary: n) (simp_all add: send_def)

lemma repairBatches_sub: "b \<in> set (repairBatches encLen m us [] 0) \<Longrightarrow> set b \<subseteq> set us"
  using repairBatches_concat [of encLen m us "[]" 0] by (metis UN_upper append_Nil filter_is_subset set_concat subset_trans)

definition carries :: "kvStore \<Rightarrow> KVUpdate \<Rightarrow> bool" where
  "carries kv u \<longleftrightarrow> (\<exists>e. fmlookup (kv_store kv) (u_Key u) = Some e \<and> e_Version e = u_Version u)"

lemma mutate_carries: "mutate kv k v rm opt = (kv', eff, Inr u) \<Longrightarrow> carries kv' u"
  using mutate_InrD [of kv k v rm opt kv' eff u] by (auto simp: carries_def)

lemma Apply_carries: "snd (snd (Apply kv u)) \<Longrightarrow> carries (fst (Apply kv u)) u"
  by (auto simp: Apply_def ApplyWithReason_def carries_def recordLocked_def applyEntry_def Let_def split: option.splits if_splits)

locale engine = engine_frame +
  assumes P_step: "P n \<Longrightarrow> m = (nd_Model n)\<lparr>md_Store := kv_step (nodeStore n) cmd\<rparr> \<Longrightarrow>
      P (n\<lparr>nd_Model := (if b then Persist m else m),
           nd_hub := (if evs = [] then nd_hub n else publishMutations (nd_uuid n) evs (nd_hub n))\<rparr>)"
    and P_sendKV: "P n \<Longrightarrow> carries (nodeStore n) u \<Longrightarrow> P (n\<lparr>nd_outbox := nd_outbox n @ [(a, MsgKV u)]\<rparr>)"
    and P_repair: "P n \<Longrightarrow> nd_bulk n = (a, us) # rest \<Longrightarrow> (\<And>b. b \<in> set bs \<Longrightarrow> set b \<subseteq> set us) \<Longrightarrow>
      P (n\<lparr>nd_bulk := rest, nd_outbox := nd_outbox n @ map (\<lambda>b. (a, MsgKVBatch b)) bs\<rparr>)"
begin

lemma P_store: "P n \<Longrightarrow> fst (f (nodeStore n)) = kv_step (nodeStore n) cmd \<Longrightarrow> P (fst (withStore f n))"
  using P_step [of n "(nd_Model n)\<lparr>md_Store := kv_step (nodeStore n) cmd\<rparr>" cmd "eff_events (fst (snd (f (nodeStore n))))"
      "eff_change (fst (snd (f (nodeStore n))))"]
  by (simp add: withStore_def Let_def split_beta split: if_splits)

lemma P_apply: "P n \<Longrightarrow> P (fst (withStore (\<lambda>kv. ApplyWithReason kv u) n))"
  using P_store [of n "\<lambda>kv. ApplyWithReason kv u" "CmdApply u"] by simp

lemma P_applyRemote: "P n \<Longrightarrow> P (fst (applyRemote u n))"
  using P_apply [of n u] by (auto simp: applyRemote_def Let_def P_log P_addCount split: prod.split option.split)

lemma P_handleKV: "P n \<Longrightarrow> P (handleKV u n)"
  using P_applyRemote [of n u] by (auto simp: handleKV_def P_notify split: prod.split)

lemma P_handleKVBatch: "P n \<Longrightarrow> P (handleKVBatch us n)"
  using P_fold [of batchStep "(n, False)" us] by (auto simp: handleKVBatch_def batchStep_def split_beta P_notify P_applyRemote)

lemma P_mergeState: "P n \<Longrightarrow> P (mergeState resp n)"
proof -
  let ?r = "foldl mergeUpdate (addCount StateSyncIn 1 n, False) (sr_KV resp)"
  assume "P n"
  then have "P (fst ?r)"
    by (intro P_fold) (auto simp: mergeUpdate_def split_beta P_addCount P_apply)
  then show ?thesis
    by (cases ?r) (simp add: mergeState_def Let_def P_log P_notify P_mergeChat)
qed

lemma P_dispatch: "P n \<Longrightarrow> dispatchBody sha rnd msg n = Some n' \<Longrightarrow> P n'"
  using P_quiet_dispatch [of n sha rnd msg n']
  by (cases msg) (auto simp: P_handleKV P_handleKVBatch handleStateResponse_def P_mergeState)

lemma P_dispatched: "P n \<Longrightarrow> dispatch unm sha rnd kind body n = Some n' \<Longrightarrow> P n'"
  by (auto simp: dispatch_def P_addCount split: option.splits intro: P_dispatch)

lemma P_handlePacket:
  assumes "P n" "handlePacket hmac unm rd sha rnd from frame n = Some n'"
  shows "P n'"
proof (cases "Decode hmac (nd_codec n) (nodeNow n) frame")
  case (Pair c r)
  then show ?thesis
    using assms P_codec [OF assms(1), of c]
    by (cases r) (auto simp: handlePacket_def Let_def P_noted P_counted P_addCount elim!: P_dispatched [rotated] split: if_splits)
qed

lemma P_serveStream:
  assumes "P n" "serveStream hmac unm sha rnd conn frame n = Some n'"
  shows "P n'"
proof (cases "Decode hmac (nd_codec n) (nodeNow n) frame")
  case (Pair c r)
  then show ?thesis
    using assms P_codec [OF assms(1), of c]
    by (cases r) (auto simp: serveStream_def Let_def P_counted P_addCount P_touch P_sendState P_sent
        split: if_splits option.splits message.splits elim!: P_dispatched [rotated])
qed

lemma P_broadcastKV:
  assumes "P n" "carries (nodeStore n) u"
  shows "P (broadcast (MsgKV u) n)"
proof -
  have "P (n\<lparr>nd_outbox := nd_outbox n @ map (\<lambda>a. (a, MsgKV u)) as\<rparr>)" for as
  proof (induction as rule: rev_induct)
    case Nil
    then show ?case
      using assms(1) by simp
  next
    case (snoc a as)
    then show ?case
      using P_sendKV [OF snoc.IH, of u a] assms(2) by simp
  qed
  then show ?thesis
    by (simp add: broadcast_def)
qed

lemma P_finishWrite:
  assumes "P (fst (withStore f n))" "\<And>kv' eff u. f (nodeStore n) = (kv', eff, Inr u) \<Longrightarrow> carries kv' u"
  shows "P (fst (finishWrite (withStore f n)))"
proof (cases "f (nodeStore n)")
  case (fields kv' eff r)
  then obtain n1 where n1: "withStore f n = (n1, r)" "nodeStore n1 = kv'"
    using withStore_store [of f n] by (metis fst_conv snd_conv surjective_pairing)
  show ?thesis
    using assms fields n1 by (cases r) (auto simp: finishWrite_def P_addCount P_notify P_broadcastKV)
qed

lemma P_writeKey: "P n \<Longrightarrow> P (fst (writeKey k v ttl expect n))"
  using P_store [of n "\<lambda>kv. Write kv k v (zero_WriteOptions\<lparr>o_Expect := expect, o_ExpiresAt := (if ttl > 0 then unix (nodeNow n + ttl) else 0)\<rparr>)",
      OF _ kv_step.simps(1) [symmetric]]
  unfolding writeKey_def by (intro P_finishWrite) (auto simp: Write_def intro: mutate_carries)

lemma P_removeKey: "P n \<Longrightarrow> P (fst (removeKey k expect n))"
  using P_store [of n "\<lambda>kv. Remove kv k (zero_WriteOptions\<lparr>o_Expect := expect\<rparr>)", OF _ kv_step.simps(2) [symmetric]]
  unfolding removeKey_def by (intro P_finishWrite) (auto simp: Remove_def intro: mutate_carries)

lemma P_importEntry: "P (fst x) \<Longrightarrow> P (fst (importEntry b x u))"
proof -
  let ?n = "fst x"
  assume "P ?n"
  then have ap: "P (fst (withStore (\<lambda>kv. Apply kv u) ?n))"
    using P_store [of ?n "\<lambda>kv. Apply kv u" "CmdApply u"] by (simp add: fst_Apply)
  show ?thesis
    using \<open>P ?n\<close> ap P_broadcastKV [OF ap, of u] Apply_carries [of "nodeStore ?n" u] withStore_store [of "\<lambda>kv. Apply kv u" ?n]
    by (auto simp: importEntry_def Let_def split_beta NodeDelete_def NodeSet_def P_writeKey P_removeKey)
qed

lemma P_Import: "P n \<Longrightarrow> P (fst (Import us b n))"
proof -
  assume "P n"
  then have "P (fst (foldl (importEntry b) (n, 0) us))"
    by (intro P_fold) (simp_all add: P_importEntry)
  then show ?thesis
    by (simp add: Import_def split_beta P_notify P_log)
qed

lemma P_repairWorker: "P n \<Longrightarrow> P (repairWorker encLen n)"
proof -
  assume n: "P n"
  show "P (repairWorker encLen n)"
    using P_repair [OF n] repairBatches_sub n
    by (auto simp: repairWorker_def sendRepair_def Let_def send_batches split: list.split option.split)
qed

lemma P_sweepTick: "P n \<Longrightarrow> P (sweepTick n)"
proof -
  assume "P n"
  then have "P (fst (withStore SweepExpired n))"
    using P_store [of n SweepExpired CmdSweep] by simp
  moreover have "P (fst (withStore (\<lambda>kv. GCTombstones kv d) n))" if "P n" for n d
    using that P_store [of n "\<lambda>kv. GCTombstones kv d" "CmdGC d"] by simp
  ultimately show ?thesis
    by (simp add: sweepTick_def Let_def split_beta P_notify P_log P_addCount)
qed

lemma P_engine_step: "engine_step hmac unm rd sha n n' \<Longrightarrow> P n \<Longrightarrow> P n'"
proof (induction rule: engine_step.induct)
  case (es_clock n s)
  then show ?case
    using P_step [OF es_clock refl, of "[]" False "CmdTime s"] by (simp add: onModel_def)
qed (auto intro: P_quiet_step P_handlePacket P_serveStream simp: P_writeKey P_removeKey P_Import P_sweepTick P_repairWorker)

lemma P_engine_run: "(engine_step hmac unm rd sha)\<^sup>*\<^sup>* n n' \<Longrightarrow> P n \<Longrightarrow> P n'"
  by (induction rule: rtranclp_induct) (auto intro: P_engine_step)

end

section \<open>A node stays sound\<close>

text \<open>What a message on the wire never is.\<close>

fun msg_ok :: "message \<Rightarrow> bool" where
  "msg_ok (MsgChat m) = (m_Hops m \<le> MaxChatHops)"
| "msg_ok (MsgStateResponse r) = (ChatDirect \<notin> ce_Kind ` set (sr_Chat r) \<and> length (sr_Chat r) \<le> stateSyncChatLines)"
| "msg_ok (MsgChatBacklog b) = (0 \<notin> m_Seq ` set (cb_Messages b))"
| "msg_ok _ = True"

definition node_ok :: "Node \<Rightarrow> bool" where
  "node_ok n \<longleftrightarrow> peers_ok (nd_Model n) \<and> tracker_ok (nd_chatGaps n) \<and> kv_wf (nodeStore n)
     \<and> length (md_chatLog (nd_Model n)) \<le> chatRing \<and> length (nd_activity n) \<le> activityRing
     \<and> length (nd_bulk n) \<le> bulkCap \<and> (\<forall>x \<in> set (nd_outbox n). msg_ok (snd x))"

lemma peers_ok_frame [simp]: "peers_ok (Persist m) = peers_ok m" "peers_ok (m\<lparr>md_chatLog := l\<rparr>) = peers_ok m"
  "peers_ok (m\<lparr>md_nicks := x\<rparr>) = peers_ok m" "peers_ok (m\<lparr>md_ids := y\<rparr>) = peers_ok m"
  "peers_ok (m\<lparr>md_impostors := z\<rparr>) = peers_ok m" "peers_ok (m\<lparr>md_views := v\<rparr>) = peers_ok m"
  "peers_ok (m\<lparr>md_chatSeq := q\<rparr>) = peers_ok m" "peers_ok (m\<lparr>md_nodeNick := k\<rparr>) = peers_ok m"
  "peers_ok (m\<lparr>md_Store := s\<rparr>) = peers_ok m"
  by (auto simp: peers_ok_def IsSelf_def Persist_def split: option.split)

lemma evict_peers_ok:
  "peers_ok m \<Longrightarrow> peers_ok (fst (EvictStalePeers now th m)) \<and> md_chatLog (fst (EvictStalePeers now th m)) = md_chatLog m
     \<and> md_Store (fst (EvictStalePeers now th m)) = md_Store m"
proof -
  have "peers_ok (fst x) \<Longrightarrow> peers_ok (fst (foldl (evictOne now th) x xs)) \<and> md_chatLog (fst (foldl (evictOne now th) x xs)) = md_chatLog (fst x)
      \<and> md_Store (fst (foldl (evictOne now th) x xs)) = md_Store (fst x)" for x xs
  proof (induction xs arbitrary: x)
    case (Cons a xs)
    show ?case
      using Cons.IH [of "evictOne now th x a"] Cons.prems RemovePeer_ok [OF Cons.prems, of "fst a"]
      by (auto simp: evictOne_def split_beta RemovePeer_def)
  qed simp
  from this [of "(m, [])"] show "peers_ok m \<Longrightarrow> ?thesis"
    by (simp add: EvictStalePeers_def)
qed

lemma model_step_ok:
  assumes "model_step m m'" "peers_ok m" "length (md_chatLog m) \<le> chatRing"
  shows "peers_ok m' \<and> md_Store m' = md_Store m \<and> length (md_chatLog m') \<le> chatRing"
  using assms
proof (induction rule: model_step.induct)
  case (ms_evict m now th)
  then show ?case
    using evict_peers_ok by simp
next
  case (ms_add m now a)
  then show ?case
    using AddPeer_ok [of m now a] by (simp add: AddPeer_def)
next
  case (ms_touch m now a)
  then show ?case
    using TouchPeer_ok [of m now a] by (simp add: TouchPeer_def)
next
  case (ms_remove m a)
  then show ?case
    using RemovePeer_ok [of m a] by (simp add: RemovePeer_def)
qed (auto simp: SetNick_def SetNodeID_def RecordPeerView_def
    AppendChat_def InsertChat_def PrependChat_def NextChatSeq_def SetOwnNick_def Let_def split: option.split)

lemma lastChat_ok: "ChatDirect \<notin> ce_Kind ` set (lastChat es k)" "length (lastChat es k) \<le> k"
  by (auto simp: lastChat_def Let_def dest!: in_set_dropD)

lemma honest_msg_ok:
  assumes "honest n msg"
  shows "msg_ok msg"
proof (cases msg)
  case (MsgStateResponse r)
  then obtain limit where "r = stateResponse limit n"
    using assms by auto
  then show ?thesis
    using lastChat_ok [of "ChatLog (nd_Model n)" stateSyncChatLines] by (simp only: MsgStateResponse msg_ok.simps stateResponse_def Let_def StateResponse.simps simp_thms)
next
  case (MsgChatBacklog b)
  have "m_Seq m \<noteq> 0" if m: "m \<in> set (cb_Messages b)" for m
  proof -
    obtain e where "ownLine (advertised n) (md_NodeID (nd_Model n)) e" "m = backlogMessage n e"
      using assms [unfolded MsgChatBacklog honest.simps] m by (blast dest: bspec)
    then show ?thesis
      by (simp add: ownLine_def backlogMessage_def)
  qed
  then show ?thesis
    unfolding MsgChatBacklog msg_ok.simps by (metis imageE)
qed (use assms in simp_all)

interpretation sound: engine node_ok
proof
  show "node_ok (n\<lparr>nd_chatGaps := t\<rparr>)" if "node_ok n" "tr_step (nd_chatGaps n) cmd = Some t" for n cmd t
    using that tr_step_ok [of "nd_chatGaps n" cmd t] by (simp add: node_ok_def)
  show "node_ok (n\<lparr>nd_Model := m\<rparr>)" if "node_ok n" "model_step (nd_Model n) m" for n m
    using that model_step_ok [of "nd_Model n" m] by (simp add: node_ok_def)
  show "node_ok (n\<lparr>nd_outbox := nd_outbox n @ [(a, msg)]\<rparr>)" if "node_ok n" "honest n msg" for n msg a
    using that honest_msg_ok by (simp add: node_ok_def)
  show "node_ok (n\<lparr>nd_Model := (if b then Persist m else m),
      nd_hub := (if evs = [] then nd_hub n else publishMutations (nd_uuid n) evs (nd_hub n))\<rparr>)"
    if "node_ok n" "m = (nd_Model n)\<lparr>md_Store := kv_step (nodeStore n) cmd\<rparr>" for n m cmd b evs
    using that by (simp add: node_ok_def kv_step_wf)
qed (auto simp: node_ok_def)

lemma New_ok:
  assumes "peers_ok m" "kv_wf (md_Store m)" "length (md_chatLog m) \<le> chatRing"
  shows "node_ok (New hmac psk uuid cfg m)"
proof -
  have "kv_wf (SetOnMutate (SetLimits (nc_Limits cfg) (md_Store m)))"
    using assms(2) by (simp add: kv_wf_def SetOnMutate_def SetLimits_def)
  moreover have "tracker_ok newChatTracker"
    by (simp add: tracker_ok_def newChatTracker_def)
  ultimately show ?thesis
    using assms(1,3) by (simp add: node_ok_def New_def ChatLog_def Seed_ok)
qed

text \<open>
  C3.  A node stays sound whatever it is sent.  From a node built on a sound model, after any sequence of
  packets and stream frames (arbitrary bytes), writes, imports, chat, ticks and clock movement: the peer table holds
  only valid addresses that are not the node's own and were heard of, the gap tracker and the store keep their invariants, the chat
  log, the activity feed and the repair queue keep their bounds, and nothing the node has sent is a chat line past the
  hop limit, a state response with a direct message or too many lines, or a backlog line without a sequence number.
\<close>

theorem engine_sound:
  assumes "peers_ok m" "kv_wf (md_Store m)" "length (md_chatLog m) \<le> chatRing"
    and "(engine_step hmac unm rd sha)\<^sup>*\<^sup>* (New hmac psk uuid cfg m) n"
  shows "node_ok n"
  using sound.P_engine_run [OF assms(4) New_ok [OF assms(1-3)]] .

definition demo_cfg :: nodeConfig where
  "demo_cfg = \<lparr>nc_BootstrapAddrs = [], nc_NodeAddr = '':1'', nc_AdvertiseAddr = '':1'', nc_Cluster = ''c'',
     nc_EvictThreshold = 15 * second, nc_TombstoneTTL = 0, nc_budgets = demo_budgets, nc_Limits = \<lparr>MaxValueBytes = 0, MaxKeys = 0\<rparr>\<rparr>"

definition demo_node :: Node where
  "demo_node = New demo_hmac ''s'' ''u'' demo_cfg demo_model"

theorem engine_sound_witness: "node_ok (sendChatMessage ''hi'' False demo_node) \<and> node_ok (fst (writeKey ''k'' ''v'' 0 None demo_node))"
proof -
  have m: "peers_ok demo_model" "kv_wf (md_Store demo_model)" "length (md_chatLog demo_model) \<le> chatRing"
    by (simp_all add: demo_model_def peers_ok_def NewKVStore_wf)
  have "(engine_step demo_hmac (\<lambda>_ _. None) (\<lambda>_. None) (\<lambda>_. 0))\<^sup>*\<^sup>* demo_node (sendChatMessage ''hi'' False demo_node)"
      "(engine_step demo_hmac (\<lambda>_ _. None) (\<lambda>_. None) (\<lambda>_. 0))\<^sup>*\<^sup>* demo_node (fst (writeKey ''k'' ''v'' 0 None demo_node))"
    by (auto intro: es_quiet qs_chat es_write)
  then show ?thesis
    unfolding demo_node_def using engine_sound [OF m] by blast
qed

end
