(* ===== verification/Consistency.thy ===== *)
theory Consistency
  imports EngineInvariants
begin

text \<open>
  The checking side of the consistency check (\<open>pkg/discovery/node/consistency.go\<close>): the framed request over a
  stream, the comparison of one peer's digests with ours, the naming of the keys behind a bucket that differs,
  and the report over all peers.

  \<open>conn addr req\<close> is what the network gives for one request: the failure of a step, or the frame that was
  read.  \<open>mar\<close> and \<open>unmReply\<close> are \<open>json.Marshal\<close> of the request and \<open>json.Unmarshal\<close> of the reply's body.
  The code asks the peers in parallel and sorts the answers by address; the model asks them in
  order, and the local store does not change during one check.  A reason the report prints is the error it came from.
\<close>

section \<open>Data\<close>

datatype streamFailure = DialFailed string | EncodeFailed string | WriteFailed string | ReadFailed string

datatype checkError =
    ErrStream streamFailure
  | ErrCodec codecError
  | ErrAnsweredWith MessageKind
  | ErrMalformedReply
  | ErrUnsupportedDigest
  | ErrBucketCount nat nat

record KeyDifference =
  kd_Key :: string
  kd_Local :: string
  kd_Remote :: string
  kd_LocalDeleted :: bool
  kd_RemoteDeleted :: bool
  kd_SameVersion :: bool

record PeerConsistency =
  pk_DigestVersion :: int
  pk_Capabilities :: "string list"
  pk_Comparable :: bool
  pk_Addr :: string
  pk_Nick :: string
  pk_Reachable :: bool
  pk_Error :: "checkError option"
  pk_Keys :: nat
  pk_Tombstones :: nat
  pk_Clock :: u64
  pk_Agrees :: bool
  pk_DifferingBuckets :: "nat list"
  pk_Differences :: "KeyDifference list"
  pk_MoreDifferences :: nat

record ConsistencyReport =
  rp_Unsupported :: nat
  rp_Complete :: bool
  rp_Addr :: string
  rp_Keys :: nat
  rp_Tombstones :: nat
  rp_Clock :: u64
  rp_CheckedAt :: unix_time
  rp_Peers :: "PeerConsistency list"
  rp_Converged :: bool
  rp_Unreachable :: nat

definition MaxReportedDifferences :: nat where "MaxReportedDifferences = 50"

text \<open>The parameters of an exchange, together.\<close>

record exchange =
  ex_hmac :: "bytes \<Rightarrow> bytes \<Rightarrow> bytes"
  ex_sha :: "string \<Rightarrow> 256 word"
  ex_mar :: "Fingerprint \<Rightarrow> bytes"
  ex_unmReply :: "bytes \<Rightarrow> FingerprintReply option"
  ex_conn :: "string \<Rightarrow> Fingerprint \<Rightarrow> streamFailure + bytes"

section \<open>One round trip\<close>

definition Sent :: "MessageKind \<Rightarrow> nat \<Rightarrow> Node \<Rightarrow> Node" where
  "Sent kind len n = addCount (SentByKind kind) 1 (addCount BytesSent (word_of_nat len) (addCount PacketsSent 1 n))"

definition requestOverStream :: "exchange \<Rightarrow> string \<Rightarrow> Fingerprint \<Rightarrow> Node \<Rightarrow> Node \<times> (checkError + bytes)" where
  "requestOverStream ex addr req n =
     (let sent = Sent KindFingerprint (headerLen + length (ex_mar ex req)) n in
      case ex_conn ex addr req of
        Inl (DialFailed e) \<Rightarrow> (n, Inl (ErrStream (DialFailed e)))
      | Inl (EncodeFailed e) \<Rightarrow> (n, Inl (ErrStream (EncodeFailed e)))
      | Inl (WriteFailed e) \<Rightarrow> (addCount StreamErrors 1 n, Inl (ErrStream (WriteFailed e)))
      | Inl (ReadFailed e) \<Rightarrow> (addCount StreamErrors 1 sent, Inl (ErrStream (ReadFailed e)))
      | Inr frame \<Rightarrow> (case Decode (ex_hmac ex) (nd_codec sent) (nodeNow sent) frame of
          (c, Inl err) \<Rightarrow> (addCount AuthFailures 1 (sent\<lparr>nd_codec := c\<rparr>), Inl (ErrCodec err))
        | (c, Inr (kind, body)) \<Rightarrow>
            let n1 = Recv kind (length frame) (sent\<lparr>nd_codec := c\<rparr>) in
            if kind \<noteq> KindFingerprintReply then (n1, Inl (ErrAnsweredWith kind)) else (n1, Inr body)))"

text \<open>A round trip with the body read, which is how both callers go on.\<close>

definition askPeer :: "exchange \<Rightarrow> string \<Rightarrow> Fingerprint \<Rightarrow> Node \<Rightarrow> Node \<times> (checkError + FingerprintReply)" where
  "askPeer ex addr req n = (case requestOverStream ex addr req n of
     (n1, Inl err) \<Rightarrow> (n1, Inl err)
   | (n1, Inr body) \<Rightarrow> (case ex_unmReply ex body of
       None \<Rightarrow> (n1, Inl ErrMalformedReply)
     | Some reply \<Rightarrow> (n1, Inr reply)))"

definition formatVersion :: "version \<Rightarrow> string" where
  "formatVersion v = decimalNat (unat (Counter v)) @ ''.'' @ Node v"

section \<open>Naming the differences\<close>

definition localDifference :: "int \<Rightarrow> (string, KeyVersion) fmap \<Rightarrow> KeyVersion \<Rightarrow> KeyDifference option" where
  "localDifference digest remote l =
     (let r = fmlookup remote (kvn_Key l);
          agreed = (case r of None \<Rightarrow> False
            | Some r \<Rightarrow> Equal (kvn_Version r) (kvn_Version l) \<and> kvn_Deleted r = kvn_Deleted l);
          sameVersion = (agreed \<and> digest = 2 \<and> (case r of None \<Rightarrow> False
            | Some r \<Rightarrow> kvn_ValueHash r \<noteq> kvn_ValueHash l \<or> kvn_ExpiresAt r \<noteq> kvn_ExpiresAt l))
      in if agreed \<and> \<not> sameVersion then None
         else Some \<lparr>kd_Key = kvn_Key l, kd_Local = formatVersion (kvn_Version l),
            kd_Remote = (case r of None \<Rightarrow> '''' | Some r \<Rightarrow> formatVersion (kvn_Version r)),
            kd_LocalDeleted = kvn_Deleted l,
            kd_RemoteDeleted = (case r of None \<Rightarrow> False | Some r \<Rightarrow> kvn_Deleted r),
            kd_SameVersion = sameVersion\<rparr>)"

definition remoteOnly :: "KeyVersion \<Rightarrow> KeyDifference" where
  "remoteOnly r = \<lparr>kd_Key = kvn_Key r, kd_Local = '''', kd_Remote = formatVersion (kvn_Version r),
     kd_LocalDeleted = False, kd_RemoteDeleted = kvn_Deleted r, kd_SameVersion = False\<rparr>"

definition diffEntries :: "KeyVersion list \<Rightarrow> FingerprintReply \<Rightarrow> KeyDifference list" where
  "diffEntries locals reply =
     (let remote = foldl (\<lambda>m e. fmupd (kvn_Key e) e m) fmempty (fr_Entries reply);
          seen = kvn_Key ` set locals;
          diffs = List.map_filter (localDifference (fr_DigestVersion reply) remote) locals
                  @ map remoteOnly (filter (\<lambda>r. kvn_Key r \<notin> seen) (fr_Entries reply))
      in sort_key kd_Key diffs)"

definition namedDifferencesLimit ::
  "exchange \<Rightarrow> string \<Rightarrow> nat list \<Rightarrow> nat \<Rightarrow> Node \<Rightarrow> Node \<times> KeyDifference list \<times> nat" where
  "namedDifferencesLimit ex addr buckets limit n =
     (case askPeer ex addr \<lparr>fp_DigestVersion = 2, fp_From = advertised n, fp_Buckets = map int buckets\<rparr> n of
        (n1, Inl err) \<Rightarrow> (n1, [], 0)
      | (n1, Inr reply) \<Rightarrow>
          let diffs = diffEntries (BucketEntries (ex_sha ex) (nodeStore n1) (int FingerprintBuckets) (map int buckets)) reply
          in if limit > 0 \<and> length diffs > limit then (n1, take limit diffs, length diffs - limit) else (n1, diffs, 0))"

definition namedDifferences :: "exchange \<Rightarrow> string \<Rightarrow> nat list \<Rightarrow> Node \<Rightarrow> Node \<times> KeyDifference list \<times> nat" where
  "namedDifferences ex addr buckets n = namedDifferencesLimit ex addr buckets MaxReportedDifferences n"

section \<open>One peer\<close>

definition differingBuckets :: "string list \<Rightarrow> string list \<Rightarrow> nat list" where
  "differingBuckets ours theirs = filter (\<lambda>i. ours ! i \<noteq> theirs ! i) [0..<length ours]"

definition fingerprintPeer ::
  "exchange \<Rightarrow> FingerprintReply \<Rightarrow> string \<Rightarrow> Node \<Rightarrow> Node \<times> PeerConsistency" where
  "fingerprintPeer ex local addr n =
     (let out = \<lparr>pk_DigestVersion = 0, pk_Capabilities = [], pk_Comparable = False, pk_Addr = addr,
            pk_Nick = NickOf (nd_Model n) addr, pk_Reachable = False, pk_Error = None, pk_Keys = 0, pk_Tombstones = 0,
            pk_Clock = 0, pk_Agrees = False, pk_DifferingBuckets = [], pk_Differences = [], pk_MoreDifferences = 0\<rparr>
      in case askPeer ex addr \<lparr>fp_DigestVersion = 2, fp_From = advertised n, fp_Buckets = []\<rparr> n of
        (n1, Inl err) \<Rightarrow> (n1, out\<lparr>pk_Error := Some err\<rparr>)
      | (n1, Inr reply) \<Rightarrow>
          let out1 = out\<lparr>pk_DigestVersion := fr_DigestVersion reply, pk_Capabilities := fr_Capabilities reply, pk_Reachable := True\<rparr> in
          if fr_DigestVersion reply \<noteq> 2 then (n1, out1\<lparr>pk_Error := Some ErrUnsupportedDigest\<rparr>)
          else
            let out2 = out1\<lparr>pk_Keys := fr_Keys reply, pk_Tombstones := fr_Tombstones reply, pk_Clock := fr_Clock reply,
                  pk_Nick := (if fr_Nick reply \<noteq> '''' then fr_Nick reply else pk_Nick out1)\<rparr> in
            if length (fr_Buckets reply) \<noteq> length (fr_Buckets local)
            then (n1, out2\<lparr>pk_Error := Some (ErrBucketCount (length (fr_Buckets reply)) (length (fr_Buckets local)))\<rparr>)
            else
              let differing = differingBuckets (fr_Buckets local) (fr_Buckets reply);
                  out3 = out2\<lparr>pk_Comparable := True, pk_DifferingBuckets := differing, pk_Agrees := (differing = [])\<rparr>
              in if differing = [] then (n1, out3)
                 else (case namedDifferences ex addr differing n1 of
                   (n2, diffs, left) \<Rightarrow> (n2, out3\<lparr>pk_Differences := diffs, pk_MoreDifferences := left\<rparr>)))"

section \<open>The report\<close>

fun askAll :: "exchange \<Rightarrow> FingerprintReply \<Rightarrow> string list \<Rightarrow> Node \<Rightarrow> Node \<times> PeerConsistency list" where
  "askAll ex local [] n = (n, [])"
| "askAll ex local (addr # addrs) n =
     (case fingerprintPeer ex local addr n of (n1, r) \<Rightarrow>
        case askAll ex local addrs n1 of (n2, rs) \<Rightarrow> (n2, r # rs))"

definition addResult :: "ConsistencyReport \<Rightarrow> PeerConsistency \<Rightarrow> ConsistencyReport" where
  "addResult report r =
     (let report1 = (if pk_Reachable r \<and> \<not> pk_Comparable r then report\<lparr>rp_Unsupported := rp_Unsupported report + 1\<rparr> else report);
          report2 = (if \<not> pk_Reachable r then report1\<lparr>rp_Unreachable := rp_Unreachable report1 + 1\<rparr>
                     else if \<not> pk_Agrees r then report1\<lparr>rp_Converged := False\<rparr> else report1)
      in report2\<lparr>rp_Peers := rp_Peers report2 @ [r]\<rparr>)"

definition CheckConsistency :: "exchange \<Rightarrow> Node \<Rightarrow> Node \<times> ConsistencyReport" where
  "CheckConsistency ex n =
     (let local = FingerprintVersion (ex_sha ex) (nodeStore n) (int FingerprintBuckets) 2;
          report = \<lparr>rp_Unsupported = 0, rp_Complete = False, rp_Addr = advertised n, rp_Keys = fr_Keys local,
            rp_Tombstones = fr_Tombstones local, rp_Clock = fr_Clock local, rp_CheckedAt = unix (nodeNow n),
            rp_Peers = [], rp_Converged = True, rp_Unreachable = 0\<rparr>
      in case askAll ex local (GetNodes (nd_Model n)) n of (n1, results) \<Rightarrow>
        let report1 = foldl addResult report results
        in (n1, report1\<lparr>rp_Complete := rp_Unreachable report1 = 0 \<and> rp_Unsupported report1 = 0,
                 rp_Peers := sort_key pk_Addr (rp_Peers report1)\<rparr>))"

section \<open>What is compared\<close>

text \<open>What the digests say of a key: its version, whether it is deleted, the hash of its value and its expiry.\<close>

definition kview :: "(string \<Rightarrow> 256 word) \<Rightarrow> kvStore \<Rightarrow> string \<Rightarrow> (version \<times> bool \<times> string \<times> unix_time) option" where
  "kview sha kv k = map_option (\<lambda>e. (e_Version e, e_Deleted e, valueHash sha e, e_ExpiresAt e)) (fmlookup (kv_store kv) k)"

definition keyBucket :: "(string \<Rightarrow> 256 word) \<Rightarrow> string \<Rightarrow> nat" where
  "keyBucket sha k = bucketOf sha k FingerprintBuckets"

definition bucketDigest :: "(string \<Rightarrow> 256 word) \<Rightarrow> kvStore \<Rightarrow> nat \<Rightarrow> string" where
  "bucketDigest sha kv i = fr_Buckets (FingerprintVersion sha kv (int FingerprintBuckets) 2) ! i"

text \<open>The keys two stores do not hold the same way, among those of some buckets.\<close>

definition differingKeys :: "(string \<Rightarrow> 256 word) \<Rightarrow> kvStore \<Rightarrow> kvStore \<Rightarrow> nat list \<Rightarrow> string set" where
  "differingKeys sha A B want = {k. keyBucket sha k \<in> set want \<and> kview sha A k \<noteq> kview sha B k}"

definition entryKeyVersion :: "(string \<Rightarrow> 256 word) \<Rightarrow> string \<Rightarrow> kvEntry \<Rightarrow> KeyVersion" where
  "entryKeyVersion sha k e = \<lparr>kvn_ExpiresAt = e_ExpiresAt e, kvn_Key = k, kvn_Version = e_Version e,
     kvn_Deleted = e_Deleted e, kvn_ValueHash = valueHash sha e\<rparr>"

lemma entryKeyVersion_simps [simp]: "kvn_Key (entryKeyVersion sha k e) = k" "kvn_Version (entryKeyVersion sha k e) = e_Version e"
  "kvn_Deleted (entryKeyVersion sha k e) = e_Deleted e" "kvn_ValueHash (entryKeyVersion sha k e) = valueHash sha e"
  "kvn_ExpiresAt (entryKeyVersion sha k e) = e_ExpiresAt e"
  by (simp_all add: entryKeyVersion_def)

lemma bucketCount_Buckets [simp]: "bucketCount (int FingerprintBuckets) = FingerprintBuckets"
  by (simp add: bucketCount_def FingerprintBuckets_def)

lemma set_BucketEntries:
  "set (BucketEntries sha kv (int FingerprintBuckets) (map int want)) =
     {entryKeyVersion sha k e |k e. fmlookup (kv_store kv) k = Some e \<and> keyBucket sha k \<in> set want}"
  by (auto simp: BucketEntries_def entryKeyVersion_def keyBucket_def set_fmentries image_iff)

lemma distinct_BucketEntries: "distinct (map kvn_Key (BucketEntries sha kv b want))"
  by (auto simp: BucketEntries_def fmentries_def filter_map comp_def case_prod_beta distinct_map inj_on_def)

lemma lookup_by_key:
  assumes "distinct (map kvn_Key es)"
  shows "fmlookup (foldl (\<lambda>m e. fmupd (kvn_Key e) e m) m es) k =
    (case find (\<lambda>e. kvn_Key e = k) es of Some e \<Rightarrow> Some e | None \<Rightarrow> fmlookup m k)"
  using assms
proof (induction es arbitrary: m)
  case (Cons e es)
  have "find (\<lambda>x. kvn_Key x = k) es = None" if "kvn_Key e = k"
    using Cons.prems that by (auto simp: find_None_iff image_iff)
  then show ?case
    using Cons by (auto split: option.split)
qed simp

lemma find_BucketEntries:
  "find (\<lambda>e. kvn_Key e = k) (BucketEntries sha kv (int FingerprintBuckets) (map int want)) =
     (if keyBucket sha k \<in> set want then map_option (entryKeyVersion sha k) (fmlookup (kv_store kv) k) else None)"
    (is "find _ ?es = ?r")
proof (cases "find (\<lambda>e. kvn_Key e = k) ?es")
  case None
  then have "x \<notin> set ?es" if "kvn_Key x = k" for x
    using that by (auto simp: find_None_iff)
  from this [of "entryKeyVersion sha k _"] show ?thesis
    using None by (cases "fmlookup (kv_store kv) k") (auto simp: set_BucketEntries entryKeyVersion_def)
next
  case (Some x)
  then have "x \<in> set ?es" "kvn_Key x = k"
    by (auto simp: find_Some_iff)
  then show ?thesis
    using Some by (auto simp: set_BucketEntries entryKeyVersion_def)
qed

lemma localDifference_key: "localDifference v remote l = Some d \<Longrightarrow> kd_Key d = kvn_Key l"
  by (auto simp: localDifference_def Let_def split: if_splits)

lemma localDifference_None:
  "localDifference 2 remote (entryKeyVersion sha k e) = None \<longleftrightarrow>
     (case fmlookup remote k of None \<Rightarrow> False | Some r \<Rightarrow> kvn_Version r = e_Version e \<and> kvn_Deleted r = e_Deleted e
        \<and> kvn_ValueHash r = valueHash sha e \<and> kvn_ExpiresAt r = e_ExpiresAt e)"
  by (auto simp: localDifference_def Let_def entryKeyVersion_def split: option.split)

lemma map_key_map_filter:
  assumes "\<And>x d. f x = Some d \<Longrightarrow> key d = g x"
  shows "map key (List.map_filter f xs) = map g (filter (\<lambda>x. f x \<noteq> None) xs)"
  using assms by (induction xs) (auto simp: List.map_filter_def)

lemma sort_key_keys:
  "set (map f (sort_key f xs)) = set (map f xs)" "distinct (map f (sort_key f xs)) \<longleftrightarrow> distinct (map f xs)"
proof -
  have "mset (map f (sort_key f xs)) = mset (map f xs)" by simp
  then show "set (map f (sort_key f xs)) = set (map f xs)" "distinct (map f (sort_key f xs)) \<longleftrightarrow> distinct (map f xs)"
    by (auto dest: mset_eq_setD mset_eq_imp_distinct_iff simp del: mset_map)
qed

lemma diffEntries_keys:
  assumes "fr_Entries reply = BucketEntries sha B (int FingerprintBuckets) (map int want)" "fr_DigestVersion reply = 2"
  shows "set (map kd_Key (diffEntries (BucketEntries sha A (int FingerprintBuckets) (map int want)) reply)) = differingKeys sha A B want"
    "distinct (map kd_Key (diffEntries (BucketEntries sha A (int FingerprintBuckets) (map int want)) reply))"
    "sorted (map kd_Key (diffEntries (BucketEntries sha A (int FingerprintBuckets) (map int want)) reply))"
proof -
  let ?A = "BucketEntries sha A (int FingerprintBuckets) (map int want)" and ?B = "fr_Entries reply"
  define remote where "remote = foldl (\<lambda>m e. fmupd (kvn_Key e) e m) fmempty ?B"
  let ?ds = "List.map_filter (localDifference 2 remote) ?A @ map remoteOnly (filter (\<lambda>r. kvn_Key r \<notin> kvn_Key ` set ?A) ?B)"
  have d: "diffEntries ?A reply = sort_key kd_Key ?ds"
    by (simp add: diffEntries_def Let_def remote_def assms(2))
  have look: "fmlookup remote k = (if keyBucket sha k \<in> set want then map_option (entryKeyVersion sha k) (fmlookup (kv_store B) k) else None)" for k
    unfolding remote_def assms(1) lookup_by_key [OF distinct_BucketEntries] find_BucketEntries by (auto split: option.split)
  have ks: "map kd_Key ?ds = map kvn_Key (filter (\<lambda>l. localDifference 2 remote l \<noteq> None) ?A)
      @ map kvn_Key (filter (\<lambda>r. kvn_Key r \<notin> kvn_Key ` set ?A) ?B)"
    using map_key_map_filter [of "localDifference 2 remote" kd_Key kvn_Key ?A] localDifference_key
    by (simp add: remoteOnly_def comp_def)
  have nd: "localDifference 2 remote (entryKeyVersion sha k e) \<noteq> None \<longleftrightarrow> kview sha A k \<noteq> kview sha B k"
    if "fmlookup (kv_store A) k = Some e" "keyBucket sha k \<in> set want" for k e
    unfolding localDifference_None look kview_def using that by (cases "fmlookup (kv_store B) k") auto
  have "distinct (map kd_Key ?ds)"
    unfolding ks unfolding distinct_append assms(1)
    by (intro conjI distinct_map_filter distinct_BucketEntries) (auto simp: image_iff)
  moreover have "set (map kd_Key ?ds) = differingKeys sha A B want"
  proof -
    have "set (map kvn_Key (filter (\<lambda>l. localDifference 2 remote l \<noteq> None) ?A)) =
        {k. keyBucket sha k \<in> set want \<and> fmlookup (kv_store A) k \<noteq> None \<and> kview sha A k \<noteq> kview sha B k}"
    proof (intro set_eqI iffI)
      fix k assume "k \<in> {k. keyBucket sha k \<in> set want \<and> fmlookup (kv_store A) k \<noteq> None \<and> kview sha A k \<noteq> kview sha B k}"
      then obtain e where "fmlookup (kv_store A) k = Some e" "keyBucket sha k \<in> set want" "kview sha A k \<noteq> kview sha B k" by auto
      then have "entryKeyVersion sha k e \<in> set (filter (\<lambda>l. localDifference 2 remote l \<noteq> None) ?A)"
        using nd [of k e] by (simp add: set_BucketEntries del: not_None_eq) blast
      then show "k \<in> set (map kvn_Key (filter (\<lambda>l. localDifference 2 remote l \<noteq> None) ?A))"
        unfolding set_map by (rule image_eqI [rotated]) simp
    next
      fix k assume "k \<in> set (map kvn_Key (filter (\<lambda>l. localDifference 2 remote l \<noteq> None) ?A))"
      then have "\<exists>e. localDifference 2 remote (entryKeyVersion sha k e) \<noteq> None \<and> fmlookup (kv_store A) k = Some e \<and> keyBucket sha k \<in> set want"
        unfolding set_map set_filter set_BucketEntries by auto
      then obtain e where "localDifference 2 remote (entryKeyVersion sha k e) \<noteq> None" "fmlookup (kv_store A) k = Some e" "keyBucket sha k \<in> set want"
        by blast
      then show "k \<in> {k. keyBucket sha k \<in> set want \<and> fmlookup (kv_store A) k \<noteq> None \<and> kview sha A k \<noteq> kview sha B k}"
        using nd [of k e] by simp
    qed
    moreover have "set (map kvn_Key (filter (\<lambda>r. kvn_Key r \<notin> kvn_Key ` set ?A) ?B)) =
        {k. keyBucket sha k \<in> set want \<and> fmlookup (kv_store A) k = None \<and> kview sha A k \<noteq> kview sha B k}"
    proof (intro set_eqI iffI)
      fix k assume "k \<in> {k. keyBucket sha k \<in> set want \<and> fmlookup (kv_store A) k = None \<and> kview sha A k \<noteq> kview sha B k}"
      then obtain e where "fmlookup (kv_store A) k = None" "keyBucket sha k \<in> set want" "fmlookup (kv_store B) k = Some e"
        by (auto simp: kview_def)
      then have "entryKeyVersion sha k e \<in> set (filter (\<lambda>r. kvn_Key r \<notin> kvn_Key ` set ?A) ?B)"
        by (auto simp: assms(1) set_BucketEntries)
      then show "k \<in> set (map kvn_Key (filter (\<lambda>r. kvn_Key r \<notin> kvn_Key ` set ?A) ?B))"
        unfolding set_map by (rule image_eqI [rotated]) simp
    next
      fix k assume "k \<in> set (map kvn_Key (filter (\<lambda>r. kvn_Key r \<notin> kvn_Key ` set ?A) ?B))"
      then obtain e where e: "keyBucket sha k \<in> set want" "fmlookup (kv_store B) k = Some e" "k \<notin> kvn_Key ` set ?A"
        by (auto simp: assms(1) set_BucketEntries)
      then have "fmlookup (kv_store A) k = None"
      proof (cases "fmlookup (kv_store A) k")
        case (Some a)
        then have "entryKeyVersion sha k a \<in> set ?A"
          using e(1) unfolding set_BucketEntries by blast
        then have "k \<in> kvn_Key ` set ?A"
          by (rule image_eqI [rotated]) simp
        then show ?thesis
          using e(3) by blast
      qed
      then show "k \<in> {k. keyBucket sha k \<in> set want \<and> fmlookup (kv_store A) k = None \<and> kview sha A k \<noteq> kview sha B k}"
        using e by (simp add: kview_def)
    qed
    ultimately show ?thesis
      unfolding ks by (auto simp: differingKeys_def)
  qed
  ultimately show "set (map kd_Key (diffEntries ?A reply)) = differingKeys sha A B want"
      "distinct (map kd_Key (diffEntries ?A reply))" "sorted (map kd_Key (diffEntries ?A reply))"
    unfolding d sort_key_keys by (simp_all only: sorted_sort_key)
qed

section \<open>One peer\<close>

lemma requestOverStream_frame [simp]: "nd_Model (fst (requestOverStream ex addr req n)) = nd_Model n" "nd_cfg (fst (requestOverStream ex addr req n)) = nd_cfg n" "nd_outbox (fst (requestOverStream ex addr req n)) = nd_outbox n"
  by (auto simp: requestOverStream_def Let_def addCount_def Sent_def Recv_def split: sum.split streamFailure.split prod.split)

lemma askPeer_frame [simp]: "nd_Model (fst (askPeer ex addr req n)) = nd_Model n" "nd_cfg (fst (askPeer ex addr req n)) = nd_cfg n" "nd_outbox (fst (askPeer ex addr req n)) = nd_outbox n"
  using requestOverStream_frame [of ex addr req n]
  by (cases "requestOverStream ex addr req n"; auto simp: askPeer_def split: sum.split option.split)+

lemma length_Buckets [simp]: "length (fr_Buckets (FingerprintVersion sha kv (int FingerprintBuckets) v)) = FingerprintBuckets"
  by (simp add: FingerprintVersion_def)

lemma set_differingBuckets:
  "set (differingBuckets (fr_Buckets (FingerprintVersion sha A (int FingerprintBuckets) 2)) (fr_Buckets (FingerprintVersion sha B (int FingerprintBuckets) 2))) =
     {i. i < FingerprintBuckets \<and> bucketDigest sha A i \<noteq> bucketDigest sha B i}"
  by (auto simp: differingBuckets_def bucketDigest_def)

text \<open>The two requests a check makes of a peer.\<close>

definition digestRequest :: "Node \<Rightarrow> Fingerprint" where
  "digestRequest n = \<lparr>fp_DigestVersion = 2, fp_From = advertised n, fp_Buckets = []\<rparr>"

definition bucketRequest :: "Node \<Rightarrow> nat list \<Rightarrow> Fingerprint" where
  "bucketRequest n want = \<lparr>fp_DigestVersion = 2, fp_From = advertised n, fp_Buckets = map int want\<rparr>"

text \<open>The buckets two stores differ in.\<close>

definition splitBuckets :: "(string \<Rightarrow> 256 word) \<Rightarrow> kvStore \<Rightarrow> kvStore \<Rightarrow> nat list" where
  "splitBuckets sha A B = filter (\<lambda>i. bucketDigest sha A i \<noteq> bucketDigest sha B i) [0..<FingerprintBuckets]"

lemma fingerprintResponse_fields [simp]:
  "fp_DigestVersion req = 2 \<Longrightarrow> fr_DigestVersion (fingerprintResponse sha req p) = 2"
  "fp_DigestVersion req = 2 \<Longrightarrow>
     fr_Buckets (fingerprintResponse sha req p) = fr_Buckets (FingerprintVersion sha (nodeStore p) (int FingerprintBuckets) 2)"
  "fr_Clock (fingerprintResponse sha req p) = kv_clock (nodeStore p)"
  "fr_Entries (fingerprintResponse sha req p) = BucketEntries sha (nodeStore p) (int FingerprintBuckets) (fp_Buckets req)"
  by (auto simp: fingerprintResponse_def fingerprintReply_def StoreFingerprint_def FingerprintVersion_def BucketEntries_def Let_def)

lemma differingBuckets_split:
  "differingBuckets (fr_Buckets (FingerprintVersion sha A (int FingerprintBuckets) 2)) (fr_Buckets (FingerprintVersion sha B (int FingerprintBuckets) 2)) =
     splitBuckets sha A B"
  by (simp add: differingBuckets_def splitBuckets_def bucketDigest_def)

lemma entryDigest_kview:
  "kview sha A k = kview sha B k \<Longrightarrow> contribution sha 2 A k = contribution sha 2 B k"
  by (auto simp: kview_def contribution_def entryDigest_def split: option.splits)

lemma fmentries_digests:
  "map (\<lambda>(k, e). entryDigest sha 2 k e) (filter (\<lambda>(k, e). keyBucket sha k = i) (fmentries (kv_store A))) =
     map (contribution sha 2 A) (filter (\<lambda>k. keyBucket sha k = i) (fmkeys (kv_store A)))"
  by (auto simp: fmentries_def filter_map comp_def contribution_def fmlookup_dom'_iff)

lemma same_bucket_same_digest:
  assumes "\<And>k. keyBucket sha k = i \<Longrightarrow> kview sha A k = kview sha B k" "i < FingerprintBuckets"
  shows "bucketDigest sha A i = bucketDigest sha B i"
proof -
  have dom: "k \<in> fmdom' (kv_store A) \<longleftrightarrow> k \<in> fmdom' (kv_store B)" if "keyBucket sha k = i" for k
    using assms(1) [OF that] by (cases "fmlookup (kv_store A) k"; cases "fmlookup (kv_store B) k") (auto simp: kview_def fmlookup_dom'_iff)
  have "filter (\<lambda>k. keyBucket sha k = i) (fmkeys (kv_store A)) = filter (\<lambda>k. keyBucket sha k = i) (fmkeys (kv_store B))"
    by (rule sorted_distinct_set_unique) (auto simp: dom sorted_wrt_filter)
  moreover have "contribution sha 2 A k = contribution sha 2 B k" if "keyBucket sha k = i" for k
    using entryDigest_kview [OF assms(1) [OF that]] .
  ultimately have "bucketDigests sha FingerprintBuckets 2 i (fmentries (kv_store A)) = bucketDigests sha FingerprintBuckets 2 i (fmentries (kv_store B))"
    unfolding bucketDigests_def fmentries_digests [unfolded keyBucket_def] by (auto simp: keyBucket_def)
  then show ?thesis
    using assms(2) by (simp add: bucketDigest_def FingerprintVersion_def foldBuckets_nth)
qed

text \<open>A difference is only missed when two unequal buckets hash alike.\<close>

definition collision_free :: "(string \<Rightarrow> 256 word) \<Rightarrow> kvStore \<Rightarrow> kvStore \<Rightarrow> bool" where
  "collision_free sha A B \<longleftrightarrow> (\<forall>k. kview sha A k \<noteq> kview sha B k \<longrightarrow>
     bucketDigest sha A (keyBucket sha k) \<noteq> bucketDigest sha B (keyBucket sha k))"

lemma keyBucket_less [simp]: "keyBucket sha k < FingerprintBuckets"
  by (simp add: keyBucket_def FingerprintBuckets_def)

lemma splitBuckets_all:
  assumes "collision_free sha A B"
  shows "differingKeys sha A B (splitBuckets sha A B) = {k. kview sha A k \<noteq> kview sha B k}"
  using assms by (auto simp: differingKeys_def splitBuckets_def collision_free_def)

lemma finite_differingKeys: "finite (differingKeys sha A B want)"
proof (rule finite_subset)
  show "differingKeys sha A B want \<subseteq> fmdom' (kv_store A) \<union> fmdom' (kv_store B)"
    by (auto simp: differingKeys_def kview_def fmlookup_dom'_iff)
qed simp

lemma splitBuckets_Nil: "splitBuckets sha A B = [] \<longleftrightarrow> (\<forall>i < FingerprintBuckets. bucketDigest sha A i = bucketDigest sha B i)"
  by (auto simp: splitBuckets_def filter_empty_conv)

lemma namedDifferencesLimit_honest:
  assumes "snd (askPeer ex addr (bucketRequest n want) n) = Inr (fingerprintResponse (ex_sha ex) (bucketRequest n want) p)"
    and "namedDifferencesLimit ex addr want limit n = (n', diffs, left)"
  shows "sorted (map kd_Key diffs) \<and> distinct (map kd_Key diffs)
    \<and> length diffs + left = card (differingKeys (ex_sha ex) (nodeStore n) (nodeStore p) want)
    \<and> kd_Key ` set diffs \<subseteq> differingKeys (ex_sha ex) (nodeStore n) (nodeStore p) want
    \<and> (left = 0 \<or> length diffs = limit) \<and> nd_Model n' = nd_Model n \<and> nd_cfg n' = nd_cfg n"
proof -
  let ?sha = "ex_sha ex" and ?K = "differingKeys (ex_sha ex) (nodeStore n) (nodeStore p) want"
  let ?reply = "fingerprintResponse ?sha (bucketRequest n want) p"
  let ?ds = "diffEntries (BucketEntries ?sha (nodeStore n) (int FingerprintBuckets) (map int want)) ?reply"
  obtain n1 where a: "askPeer ex addr (bucketRequest n want) n = (n1, Inr ?reply)"
    using assms(1) by (metis prod.collapse)
  have fr: "nd_Model n1 = nd_Model n" "nd_cfg n1 = nd_cfg n"
    using askPeer_frame [of ex addr "bucketRequest n want" n] by (simp_all add: a)
  have k: "set (map kd_Key ?ds) = ?K" "distinct (map kd_Key ?ds)" "sorted (map kd_Key ?ds)"
    using diffEntries_keys [of ?reply ?sha "nodeStore p" want "nodeStore n"] by (simp_all add: bucketRequest_def)
  have len: "length ?ds = card ?K"
    using distinct_card [OF k(2)] k(1) by simp
  have r: "n' = n1" "(diffs, left) = (if limit > 0 \<and> length ?ds > limit then (take limit ?ds, length ?ds - limit) else (?ds, 0))"
    using assms(2) a fr by (auto simp: namedDifferencesLimit_def Let_def bucketRequest_def split: if_splits)
  show ?thesis
  proof (cases "limit > 0 \<and> length ?ds > limit")
    case True
    then have "diffs = take limit ?ds" "left = length ?ds - limit"
      using r(2) by auto
    then show ?thesis
      using k len r(1) fr True by (auto simp: take_map [symmetric] sorted_wrt_take dest: in_set_takeD)
  next
    case False
    then have "diffs = ?ds" "left = 0"
      using r(2) by (auto split: if_splits)
    then show ?thesis
      using k len r(1) fr by auto
  qed
qed

text \<open>
  C32.  What one peer's line of the report says.  When the peer answers both requests truthfully: it is reported
  reachable and comparable, with its clock; it agrees exactly when every bucket's digest is the same in both stores; the named
  keys, in ascending order and each once, are keys of the differing buckets that the two stores hold differently (in version,
  deletion, value hash or expiry), and the count of those left out makes the number of such keys exact; and unless
  two unequal buckets hash alike, it agrees exactly when the two stores hold every key the same way, and the named keys and the
  left out ones are all the keys on which they differ.
\<close>

theorem fingerprint_peer_exact:
  assumes "askPeer ex addr (digestRequest n) n = (n1, Inr (fingerprintResponse (ex_sha ex) (digestRequest n) p))"
    and "splitBuckets (ex_sha ex) (nodeStore n) (nodeStore p) \<noteq> [] \<Longrightarrow>
      snd (askPeer ex addr (bucketRequest n (splitBuckets (ex_sha ex) (nodeStore n) (nodeStore p))) n1) =
      Inr (fingerprintResponse (ex_sha ex) (bucketRequest n (splitBuckets (ex_sha ex) (nodeStore n) (nodeStore p))) p)"
    and "fingerprintPeer ex (FingerprintVersion (ex_sha ex) (nodeStore n) (int FingerprintBuckets) 2) addr n = (n', r)"
  shows "pk_Reachable r \<and> pk_Comparable r \<and> pk_Clock r = kv_clock (nodeStore p)
    \<and> (pk_Agrees r \<longleftrightarrow> (\<forall>i < FingerprintBuckets. bucketDigest (ex_sha ex) (nodeStore n) i = bucketDigest (ex_sha ex) (nodeStore p) i))
    \<and> sorted (map kd_Key (pk_Differences r)) \<and> distinct (map kd_Key (pk_Differences r))
    \<and> kd_Key ` set (pk_Differences r) \<subseteq> {k. kview (ex_sha ex) (nodeStore n) k \<noteq> kview (ex_sha ex) (nodeStore p) k}
    \<and> (pk_MoreDifferences r = 0 \<or> length (pk_Differences r) = MaxReportedDifferences)
    \<and> (collision_free (ex_sha ex) (nodeStore n) (nodeStore p) \<longrightarrow>
        (pk_Agrees r \<longleftrightarrow> (\<forall>k. kview (ex_sha ex) (nodeStore n) k = kview (ex_sha ex) (nodeStore p) k))
        \<and> length (pk_Differences r) + pk_MoreDifferences r =
            card {k. kview (ex_sha ex) (nodeStore n) k \<noteq> kview (ex_sha ex) (nodeStore p) k})"
proof -
  let ?sha = "ex_sha ex" and ?A = "nodeStore n" and ?B = "nodeStore p"
  let ?want = "splitBuckets ?sha ?A ?B"
  have fr: "nd_Model n1 = nd_Model n" "nd_cfg n1 = nd_cfg n"
    using askPeer_frame [of ex addr "digestRequest n" n] by (simp_all add: assms(1))
  obtain n2 diffs left where nd: "namedDifferences ex addr ?want n1 = (n2, diffs, left)"
    by (metis prod.exhaust)
  have "bucketRequest n1 ?want = bucketRequest n ?want"
    by (simp add: bucketRequest_def fr)
  then have h: "?want \<noteq> [] \<Longrightarrow> sorted (map kd_Key diffs) \<and> distinct (map kd_Key diffs) \<and> length diffs + left = card (differingKeys ?sha ?A ?B ?want)
      \<and> kd_Key ` set diffs \<subseteq> differingKeys ?sha ?A ?B ?want \<and> (left = 0 \<or> length diffs = MaxReportedDifferences)"
    using namedDifferencesLimit_honest [of ex addr n1 ?want p MaxReportedDifferences n2 diffs left] assms(2) nd
    by (simp add: namedDifferences_def fr)
  have ag: "collision_free ?sha ?A ?B \<Longrightarrow> ?want = [] \<longleftrightarrow> (\<forall>k. kview ?sha ?A k = kview ?sha ?B k)"
    using same_bucket_same_digest [of ?sha _ ?A ?B] unfolding splitBuckets_Nil collision_free_def by (metis keyBucket_less)
  have r: "pk_Reachable r" "pk_Comparable r" "pk_Clock r = kv_clock ?B" "pk_Agrees r \<longleftrightarrow> ?want = []"
      "pk_Differences r = (if ?want = [] then [] else diffs)" "pk_MoreDifferences r = (if ?want = [] then 0 else left)"
    using assms(3) nd assms(1)
    by (auto simp: fingerprintPeer_def digestRequest_def Let_def differingBuckets_split split: if_splits)
  show ?thesis
  proof (cases "?want = []")
    case True
    then show ?thesis
      using r(1-6) ag by (simp add: splitBuckets_Nil)
  next
    case False
    then have "pk_Differences r = diffs" "pk_MoreDifferences r = left" "\<not> pk_Agrees r"
      using r by simp_all
    moreover have "kd_Key ` set diffs \<subseteq> {k. kview ?sha ?A k \<noteq> kview ?sha ?B k}"
      using h [OF False] by (auto simp: differingKeys_def)
    ultimately show ?thesis
      using r(1-4) False h [OF False] ag splitBuckets_all [of ?sha ?A ?B] by (auto simp: splitBuckets_Nil)
  qed
qed

text \<open>A node without keys asks one that holds a key.\<close>

lemma askPeer_gets:
  assumes "ex_conn ex addr req = Inr f" "Decode (ex_hmac ex) (nd_codec n) (nodeNow n) f = (c, Inr (KindFingerprintReply, body))"
    and "ex_unmReply ex body = Some reply"
  shows "\<exists>n1. askPeer ex addr req n = (n1, Inr reply) \<and> nd_codec n1 = c"
  using assms by (simp add: askPeer_def requestOverStream_def Let_def Sent_def Recv_def addCount_def)

definition demo_reply_frame :: "8 word \<Rightarrow> bytes" where
  "demo_reply_frame i = the (Encode demo_hmac (NewCodec demo_hmac ''s'' ''c'') 0 KindFingerprintReply (Some [i]) (Some (replicate 8 i)))"

definition demo_peer :: Node where
  "demo_peer = demo_node\<lparr>nd_Model := demo_model\<lparr>md_Store := demo_store\<rparr>\<rparr>"

definition demo_exchange :: exchange where
  "demo_exchange = \<lparr>ex_hmac = demo_hmac, ex_sha = (\<lambda>_. 5), ex_mar = (\<lambda>_. []),
     ex_unmReply = (\<lambda>body. Some (fingerprintResponse (\<lambda>_. 5)
        \<lparr>fp_DigestVersion = 2, fp_From = '':1'', fp_Buckets = (if body = [1] then [] else [0])\<rparr> demo_peer)),
     ex_conn = (\<lambda>addr req. Inr (demo_reply_frame (if fp_Buckets req = [] then 1 else 2)))\<rparr>"

lemma demo_reply_decodes:
  assumes "c_key c = c_key (NewCodec demo_hmac ''s'' ''c'')" "c_skew c = c_skew (NewCodec demo_hmac ''s'' ''c'')"
    and "fmlookup (c_seen c) (replicate 8 i) = None" "0 \<le> t" "t \<le> 5 * second"
  shows "snd (Decode demo_hmac c t (demo_reply_frame i)) = Inr (KindFingerprintReply, [i])"
proof (rule Decode_Encode)
  show "Encode demo_hmac (NewCodec demo_hmac ''s'' ''c'') 0 KindFingerprintReply (Some [i]) (Some (replicate 8 i)) = Some (demo_reply_frame i)"
    by (simp add: demo_reply_frame_def Encode_def Let_def)
qed (use assms in \<open>simp_all add: demo_hmac_def frame_sizes NewCodec_def DefaultSkew_def unix_def second_def\<close>)

lemma demo_split: "splitBuckets (\<lambda>_. 5) (nodeStore demo_node) (nodeStore demo_peer) = [0]"
proof -
  have k: "fmkeys (kv_store demo_store) = [''k'']"
    by (simp add: eval_store fmkeys_def)
  have "bucketOf (\<lambda>_. 5) ''k'' 16 = 0"
    by (simp add: bucketOf_def)
  moreover have "[0..<16] = [0::nat, 1, 2, 3, 4, 5, 6, 7, 8, 9, 10, 11, 12, 13, 14, 15]"
    by (simp add: upt_rec)
  ultimately show ?thesis
    by (simp add: splitBuckets_def bucketDigest_def FingerprintVersion_def FingerprintBuckets_def bucketCount_def foldBuckets_nth
        bucketDigests_def demo_peer_def demo_node_def New_def demo_model_def SetOnMutate_def SetLimits_def NewKVStore_def fmentries_def k entryDigest_def)
qed

lemma NewCodec_seen: "c_seen (NewCodec hmac psk cl) = fmempty"
  by (simp add: NewCodec_def)

lemma Decode_other_nonce:
  "fmlookup (c_seen c) nonce = None \<Longrightarrow> frame_nonce f \<noteq> nonce \<Longrightarrow> fmlookup (c_seen (fst (Decode hmac c now f))) nonce = None"
  using Decode_state [of hmac c now f] prune_lookup_None [of c nonce now] by (auto simp: remember_def Let_def)

lemma demo_reply_nonce: "frame_nonce (demo_reply_frame i) = replicate 8 i"
  by (simp add: demo_reply_frame_def Encode_def Let_def frame_nonce_def frame_sizes)

theorem fingerprint_peer_exact_witness:
  "\<exists>n' r. fingerprintPeer demo_exchange (FingerprintVersion (\<lambda>_. 5) (nodeStore demo_node) (int FingerprintBuckets) 2) ''h:2'' demo_node = (n', r)
     \<and> \<not> pk_Agrees r \<and> pk_Clock r = 1"
proof -
  have n: "nd_codec demo_node = NewCodec demo_hmac ''s'' ''c''" "nodeNow demo_node = 0" "advertised demo_node = '':1''"
    by (simp_all add: demo_node_def New_def demo_model_def demo_cfg_def SetOnMutate_def SetLimits_def NewKVStore_def)
  obtain c where c: "Decode demo_hmac (NewCodec demo_hmac ''s'' ''c'') 0 (demo_reply_frame 1) = (c, Inr (KindFingerprintReply, [1]))"
    using demo_reply_decodes [of "NewCodec demo_hmac ''s'' ''c''" 1 0]
    by (cases "Decode demo_hmac (NewCodec demo_hmac ''s'' ''c'') 0 (demo_reply_frame 1)") (simp add: NewCodec_seen second_def)
  have reqs: "digestRequest demo_node = \<lparr>fp_DigestVersion = 2, fp_From = '':1'', fp_Buckets = []\<rparr>"
      "bucketRequest demo_node [0] = \<lparr>fp_DigestVersion = 2, fp_From = '':1'', fp_Buckets = [0]\<rparr>"
    by (simp_all add: digestRequest_def bucketRequest_def n)
  have "ex_conn demo_exchange ''h:2'' (digestRequest demo_node) = Inr (demo_reply_frame 1)"
    by (simp add: demo_exchange_def digestRequest_def)
  from askPeer_gets [OF this, of demo_node c "[1]" "fingerprintResponse (\<lambda>_. 5) (digestRequest demo_node) demo_peer"] c
  obtain n1 where n1: "askPeer demo_exchange ''h:2'' (digestRequest demo_node) demo_node =
      (n1, Inr (fingerprintResponse (\<lambda>_. 5) (digestRequest demo_node) demo_peer))" "nd_codec n1 = c"
    by (auto simp: demo_exchange_def n reqs)
  have now: "nodeNow n1 = 0"
    using askPeer_frame(1) [of demo_exchange "''h:2''" "digestRequest demo_node" demo_node] n1 n by simp
  have "fmlookup (c_seen c) (replicate 8 2) = None" "c_key c = c_key (NewCodec demo_hmac ''s'' ''c'')" "c_skew c = c_skew (NewCodec demo_hmac ''s'' ''c'')"
    using Decode_other_nonce [of "NewCodec demo_hmac ''s'' ''c''" "replicate 8 2" "demo_reply_frame 1" demo_hmac 0]
      Decode_frame [of demo_hmac "NewCodec demo_hmac ''s'' ''c''" 0 "demo_reply_frame 1"] c
    by (simp_all add: NewCodec_seen demo_reply_nonce)
  then obtain c2 where c2: "Decode demo_hmac c 0 (demo_reply_frame 2) = (c2, Inr (KindFingerprintReply, [2]))"
    using demo_reply_decodes [of c 2 0] by (cases "Decode demo_hmac c 0 (demo_reply_frame 2)") (simp add: second_def)
  have "ex_conn demo_exchange ''h:2'' (bucketRequest demo_node [0]) = Inr (demo_reply_frame 2)"
    by (simp add: demo_exchange_def bucketRequest_def)
  from askPeer_gets [OF this, of n1 c2 "[2]" "fingerprintResponse (\<lambda>_. 5) (bucketRequest demo_node [0]) demo_peer"] c2
  have n2: "snd (askPeer demo_exchange ''h:2'' (bucketRequest demo_node [0]) n1) = Inr (fingerprintResponse (\<lambda>_. 5) (bucketRequest demo_node [0]) demo_peer)"
    by (auto simp: demo_exchange_def n1(2) now reqs)
  obtain n' r where f: "fingerprintPeer demo_exchange (FingerprintVersion (\<lambda>_. 5) (nodeStore demo_node) (int FingerprintBuckets) 2) ''h:2'' demo_node = (n', r)"
    by force
  have sha: "ex_sha demo_exchange = (\<lambda>_. 5)"
    by (simp add: demo_exchange_def)
  have "pk_Clock r = kv_clock (nodeStore demo_peer)
      \<and> (pk_Agrees r \<longleftrightarrow> (\<forall>i < FingerprintBuckets. bucketDigest (\<lambda>_. 5) (nodeStore demo_node) i = bucketDigest (\<lambda>_. 5) (nodeStore demo_peer) i))"
    using fingerprint_peer_exact [of demo_exchange "''h:2''" demo_node n1 demo_peer n' r] n1(1) n2 f by (simp add: sha demo_split)
  moreover have "kv_clock (nodeStore demo_peer) = 1"
    by (simp add: demo_peer_def)
  ultimately show ?thesis
    using f splitBuckets_Nil [of "\<lambda>_. 5" "nodeStore demo_node" "nodeStore demo_peer"] by (auto simp: demo_split)
qed

section \<open>The report\<close>

lemma addResult_run:
  "let s = foldl addResult rep rs in
   rp_Peers s = rp_Peers rep @ rs
   \<and> rp_Unreachable s = rp_Unreachable rep + length (filter (\<lambda>r. \<not> pk_Reachable r) rs)
   \<and> rp_Unsupported s = rp_Unsupported rep + length (filter (\<lambda>r. pk_Reachable r \<and> \<not> pk_Comparable r) rs)
   \<and> (rp_Converged s \<longleftrightarrow> rp_Converged rep \<and> (\<forall>r \<in> set rs. pk_Reachable r \<longrightarrow> pk_Agrees r))
   \<and> rp_Clock s = rp_Clock rep"
  by (induction rs arbitrary: rep) (auto simp: addResult_def Let_def)

lemma fingerprintPeer_addr: "pk_Addr (snd (fingerprintPeer ex local addr n)) = addr"
  by (auto simp: fingerprintPeer_def Let_def split: prod.split sum.split)

lemma namedDifferences_frame [simp]: "nd_Model (fst (namedDifferences ex addr bs n)) = nd_Model n" "nd_cfg (fst (namedDifferences ex addr bs n)) = nd_cfg n" "nd_outbox (fst (namedDifferences ex addr bs n)) = nd_outbox n"
proof -
  obtain n1 r where a: "askPeer ex addr \<lparr>fp_DigestVersion = 2, fp_From = advertised n, fp_Buckets = map int bs\<rparr> n = (n1, r)" by force
  have "nd_Model n1 = nd_Model n" "nd_cfg n1 = nd_cfg n" "nd_outbox n1 = nd_outbox n"
    using askPeer_frame [of ex addr "\<lparr>fp_DigestVersion = 2, fp_From = advertised n, fp_Buckets = map int bs\<rparr>" n] by (simp_all add: a)
  then show "nd_Model (fst (namedDifferences ex addr bs n)) = nd_Model n" "nd_cfg (fst (namedDifferences ex addr bs n)) = nd_cfg n" "nd_outbox (fst (namedDifferences ex addr bs n)) = nd_outbox n"
    by (auto simp: namedDifferences_def namedDifferencesLimit_def a Let_def split: sum.split)
qed

lemma fingerprintPeer_frame [simp]: "nd_Model (fst (fingerprintPeer ex local addr n)) = nd_Model n" "nd_cfg (fst (fingerprintPeer ex local addr n)) = nd_cfg n" "nd_outbox (fst (fingerprintPeer ex local addr n)) = nd_outbox n"
proof -
  obtain n1 r where a: "askPeer ex addr \<lparr>fp_DigestVersion = 2, fp_From = advertised n, fp_Buckets = []\<rparr> n = (n1, r)" by force
  have fr: "nd_Model n1 = nd_Model n" "nd_cfg n1 = nd_cfg n" "nd_outbox n1 = nd_outbox n"
    using askPeer_frame [of ex addr "\<lparr>fp_DigestVersion = 2, fp_From = advertised n, fp_Buckets = []\<rparr>" n] by (simp_all add: a)
  have "nd_Model n2 = nd_Model n \<and> nd_cfg n2 = nd_cfg n \<and> nd_outbox n2 = nd_outbox n" if "namedDifferences ex addr bs n1 = (n2, ds, k)" for n2 ds k bs
    using namedDifferences_frame [of ex addr bs n1] by (simp add: that fr)
  then show "nd_Model (fst (fingerprintPeer ex local addr n)) = nd_Model n" "nd_cfg (fst (fingerprintPeer ex local addr n)) = nd_cfg n" "nd_outbox (fst (fingerprintPeer ex local addr n)) = nd_outbox n"
    by (auto simp: fingerprintPeer_def a fr Let_def split: sum.split prod.split)
qed

lemma askAll_run: "nd_Model (fst (askAll ex local addrs n)) = nd_Model n \<and> nd_cfg (fst (askAll ex local addrs n)) = nd_cfg n
    \<and> nd_outbox (fst (askAll ex local addrs n)) = nd_outbox n
    \<and> map pk_Addr (snd (askAll ex local addrs n)) = addrs"
proof (induction addrs arbitrary: n)
  case (Cons a as)
  obtain n1 r where f: "fingerprintPeer ex local a n = (n1, r)" by force
  then have "nd_Model n1 = nd_Model n" "nd_cfg n1 = nd_cfg n" "nd_outbox n1 = nd_outbox n" "pk_Addr r = a"
    using fingerprintPeer_frame [of ex local a n] fingerprintPeer_addr [of ex local a n] by simp_all
  then show ?case
    using Cons.IH [of n1] by (cases "askAll ex local as n1") (simp add: f)
qed simp

text \<open>
  C33.  The verdict of a consistency check.  A check leaves the node's model (store, peers, chat) as it was; its report has one line for each
  peer, in address order; it counts as unreachable the peers that gave no answer and as unsupported those that answered in a
  form that cannot be compared; it is converged when every peer that answered agrees, and
  complete when every peer answered comparably.
\<close>

theorem consistency_verdict:
  "let (n', rep) = CheckConsistency ex n in
     nd_Model n' = nd_Model n
   \<and> map pk_Addr (rp_Peers rep) = GetNodes (nd_Model n)
   \<and> rp_Clock rep = kv_clock (nodeStore n)
   \<and> rp_Unreachable rep = length (filter (\<lambda>r. \<not> pk_Reachable r) (rp_Peers rep))
   \<and> rp_Unsupported rep = length (filter (\<lambda>r. pk_Reachable r \<and> \<not> pk_Comparable r) (rp_Peers rep))
   \<and> rp_Converged rep = list_all pk_Agrees (filter pk_Reachable (rp_Peers rep))
   \<and> rp_Complete rep = list_all (\<lambda>r. pk_Reachable r \<and> pk_Comparable r) (rp_Peers rep)"
proof -
  let ?local = "FingerprintVersion (ex_sha ex) (nodeStore n) (int FingerprintBuckets) 2"
  obtain n' results where a: "askAll ex ?local (GetNodes (nd_Model n)) n = (n', results)" by force
  have r: "nd_Model n' = nd_Model n" "map pk_Addr results = GetNodes (nd_Model n)"
    using askAll_run [of ex ?local "GetNodes (nd_Model n)" n] by (simp_all add: a)
  then have "sorted (map pk_Addr results)"
    by (simp add: GetNodes_def sorted_list_of_fset.rep_eq)
  then have s: "sort_key pk_Addr results = results"
    by (simp add: sort_key_id_if_sorted)
  show ?thesis
    unfolding CheckConsistency_def Let_def a
    using addResult_run [of _ results] r s
    by (simp add: Let_def FingerprintVersion_def list_all_iff filter_empty_conv) blast
qed

text \<open>
  A peer whose digests cannot be compared (an older digest, another number of buckets) answers, does not agree, and so
  makes the report say that the cluster has not converged.
\<close>

lemma incomparable_peer_reads_diverged:
  assumes "askPeer ex addr (digestRequest n) n = (n1, Inr reply)" "fr_DigestVersion reply \<noteq> 2 \<or> length (fr_Buckets reply) \<noteq> length (fr_Buckets local)"
  shows "let r = snd (fingerprintPeer ex local addr n) in pk_Reachable r \<and> \<not> pk_Comparable r \<and> \<not> pk_Agrees r \<and> pk_Error r \<noteq> None
     \<and> \<not> rp_Converged (addResult rep r)"
  using assms by (auto simp: fingerprintPeer_def digestRequest_def Let_def addResult_def)

text \<open>A reply that names no keys makes every key of those buckets a difference.\<close>

lemma silent_reply_names_everything:
  assumes "fr_Entries reply = []"
  shows "set (map kd_Key (diffEntries locals reply)) = kvn_Key ` set locals"
proof -
  have "localDifference v fmempty l \<noteq> None" for v l
    by (simp add: localDifference_def)
  then have "map kd_Key (List.map_filter (localDifference (fr_DigestVersion reply) fmempty) locals) = map kvn_Key locals"
    using map_key_map_filter [of "localDifference (fr_DigestVersion reply) fmempty" kd_Key kvn_Key locals] localDifference_key
    by (simp del: not_None_eq)
  moreover have "diffEntries locals reply = sort_key kd_Key (List.map_filter (localDifference (fr_DigestVersion reply) fmempty) locals)"
    by (simp add: diffEntries_def assms)
  ultimately show ?thesis
    by (simp only: sort_key_keys list.set_map [symmetric])
qed

end
