(* ===== verification/Repair.thy ===== *)
theory Repair
  imports Consistency
begin

text \<open>
  Repair plans and restores (\<open>pkg/discovery/node/repair.go\<close>, \<open>restore.go\<close>): a preview captures what a
  node holds under some keys, is cached for ten minutes and read in pages; applying it writes each key again under a
  version newer than any clock the peers reported, unless the key has changed since; a restore is a preview
  against a backup.

  \<open>rs_plans\<close> is the node's \<open>repairPlans\<close>.  The fresh plan id (\<open>uuid.NewString\<close>) is an argument.  Every
  consistency check talks to the peers anew, so the exchange of each is an argument of its own.  When several
  plans are equally old, the one evicted is the one of the least id.  \<open>json.Unmarshal\<close> of a
  backup is an argument: the file it reads, or nothing.
\<close>

section \<open>Data\<close>

datatype RepairStatus = RepairRewritten | RepairAbsent | RepairRefused | RepairChanged

datatype repairError = PreviewOfAnotherNode | PreviewKeyMismatch | StoreRefused kvError

record RepairOutcome =
  ro_Key :: string
  ro_Status :: RepairStatus
  ro_Version :: string
  ro_Error :: "repairError option"

record RepairReport =
  rr_Changed :: nat
  rr_Remaining :: int
  rr_Complete :: bool
  rr_After :: "ConsistencyReport option"
  rr_From :: string
  rr_Rewritten :: nat
  rr_Absent :: nat
  rr_Refused :: nat
  rr_Keys :: "RepairOutcome list"

record RepairCandidate =
  rc_Desired :: "KVUpdate option"
  rc_Change :: string
  rc_Key :: string
  rc_Current :: "KVUpdate option"

record RepairPlan =
  pl_Kind :: string
  pl_SourceCluster :: string
  pl_SourceNode :: string
  pl_ID :: string
  pl_Error :: string
  pl_From :: string
  pl_NodeID :: string
  pl_CreatedAt :: unix_time
  pl_Total :: int
  pl_Offset :: int
  pl_Next :: int
  pl_Items :: "RepairCandidate list"

record repairState =
  rs_node :: Node
  rs_plans :: "(string, RepairPlan) fmap"

definition zero_RepairPlan :: RepairPlan where
  "zero_RepairPlan = \<lparr>pl_Kind = '''', pl_SourceCluster = '''', pl_SourceNode = '''', pl_ID = '''', pl_Error = '''', pl_From = '''',
     pl_NodeID = '''', pl_CreatedAt = 0, pl_Total = 0, pl_Offset = 0, pl_Next = 0, pl_Items = []\<rparr>"

definition zero_RepairReport :: "string \<Rightarrow> RepairReport" where
  "zero_RepairReport addr = \<lparr>rr_Changed = 0, rr_Remaining = 0, rr_Complete = False, rr_After = None, rr_From = addr,
     rr_Rewritten = 0, rr_Absent = 0, rr_Refused = 0, rr_Keys = []\<rparr>"

section \<open>Previews\<close>

definition dedupe :: "string list \<Rightarrow> string list" where
  "dedupe keys = sort (remdups keys)"

definition planFresh :: "nanos \<Rightarrow> RepairPlan \<Rightarrow> bool" where
  "planFresh now p \<longleftrightarrow> \<not> unix now - pl_CreatedAt p > 600"

definition oldestPlan :: "(string, RepairPlan) fmap \<Rightarrow> string" where
  "oldestPlan plans = fst (foldl (\<lambda>(oldest, at) (planID, old).
      if oldest = '''' \<or> pl_CreatedAt old < at then (planID, pl_CreatedAt old) else (oldest, at)) ('''', 0) (fmentries plans))"

text \<open>Pages: \<open>offset\<close> and \<open>limit\<close> are clamped, \<open>Next\<close> is where the following page starts, or -1.\<close>

definition pageOf :: "int \<Rightarrow> int \<Rightarrow> RepairPlan \<Rightarrow> RepairPlan" where
  "pageOf offset limit p =
     (let tot = int (length (pl_Items p));
          offset = (if offset < 0 then 0 else if offset > tot then tot else offset);
          limit = (if limit \<le> 0 then 100 else if limit > 500 then 500 else limit);
          stop = (if offset + limit > tot then tot else offset + limit)
      in p\<lparr>pl_Offset := offset, pl_Next := (if stop < tot then stop else - 1),
           pl_Items := take (nat (stop - offset)) (drop (nat offset) (pl_Items p))\<rparr>)"

definition RepairPlanPage :: "nanos \<Rightarrow> (string, RepairPlan) fmap \<Rightarrow> string \<Rightarrow> int \<Rightarrow> int \<Rightarrow> RepairPlan" where
  "RepairPlanPage now plans planID offset limit = (case fmlookup plans planID of
     None \<Rightarrow> zero_RepairPlan\<lparr>pl_Error := ''repair preview expired or unknown; preview again'', pl_Next := - 1\<rparr>
   | Some p \<Rightarrow>
       if \<not> planFresh now p
       then zero_RepairPlan\<lparr>pl_Error := ''repair preview expired or unknown; preview again'', pl_Next := - 1\<rparr>
       else pageOf offset limit p)"

definition cachePlan :: "RepairPlan \<Rightarrow> int \<Rightarrow> int \<Rightarrow> repairState \<Rightarrow> repairState \<times> RepairPlan" where
  "cachePlan p offset limit s =
     (let now = nodeNow (rs_node s);
          fresh = fmfilter (\<lambda>planID. planFresh now (the (fmlookup (rs_plans s) planID))) (rs_plans s);
          room = (if fcard (fmdom fresh) \<ge> 4 then fmdrop (oldestPlan fresh) fresh else fresh);
          plans = fmupd (pl_ID p) p room
      in (s\<lparr>rs_plans := plans\<rparr>, RepairPlanPage now plans (pl_ID p) offset limit))"

definition previewItems :: "kvStore \<Rightarrow> string list \<Rightarrow> RepairCandidate list" where
  "previewItems kv keys =
     (let held = foldl (\<lambda>m u. fmupd (u_Key u) u m) fmempty (UpdatesFor kv keys)
      in map (\<lambda>k. \<lparr>rc_Desired = None, rc_Change = '''', rc_Key = k, rc_Current = fmlookup held k\<rparr>) keys)"

definition PreviewRepair :: "string \<Rightarrow> string list \<Rightarrow> int \<Rightarrow> int \<Rightarrow> repairState \<Rightarrow> repairState \<times> RepairPlan" where
  "PreviewRepair uuid keys0 offset limit s =
     (let keys = dedupe keys0; n = rs_node s in
      cachePlan (zero_RepairPlan\<lparr>pl_ID := uuid, pl_From := advertised n, pl_NodeID := md_NodeID (nd_Model n),
          pl_CreatedAt := unix (nodeNow n), pl_Total := int (length keys), pl_Next := - 1,
          pl_Items := previewItems (nodeStore n) keys\<rparr>) offset limit s)"

section \<open>Applying a plan\<close>

definition repairFloor :: "ConsistencyReport \<Rightarrow> u64" where
  "repairFloor before = foldl (\<lambda>flr peer. if pk_Reachable peer \<and> pk_Clock peer > flr then pk_Clock peer else flr)
     (rp_Clock before) (rp_Peers before)"

definition outcome :: "RepairCandidate \<Rightarrow> RepairStatus \<Rightarrow> string \<Rightarrow> repairError option \<Rightarrow> RepairReport \<Rightarrow> RepairReport" where
  "outcome item status version err rep =
     rep\<lparr>rr_Keys := rr_Keys rep @ [\<lparr>ro_Key = rc_Key item, ro_Status = status, ro_Version = version, ro_Error = err\<rparr>]\<rparr>"

definition currentOf :: "RepairCandidate \<Rightarrow> KVUpdate" where
  "currentOf item = (case rc_Current item of
     None \<Rightarrow> \<lparr>u_Action = '''', u_Key = rc_Key item, u_Value = '''', u_Version = Version 0 '''', u_ExpiresAt = 0, u_DeletedAt = 0\<rparr>
   | Some u \<Rightarrow> u)"

definition desiredOf :: "RepairCandidate \<Rightarrow> KVUpdate" where
  "desiredOf item = (case rc_Desired item of None \<Rightarrow> currentOf item | Some u \<Rightarrow> u)"

definition repairOptions :: "u64 \<Rightarrow> RepairCandidate \<Rightarrow> WriteOptions" where
  "repairOptions flr item = zero_WriteOptions\<lparr>o_ExpiresAt := u_ExpiresAt (desiredOf item), o_ExpectUpdate := rc_Current item,
     o_ExpectMissing := (rc_Current item = None), o_AfterCounter := flr\<rparr>"

definition repairItem :: "RepairPlan \<Rightarrow> u64 \<Rightarrow> Node \<times> RepairReport \<Rightarrow> RepairCandidate \<Rightarrow> Node \<times> RepairReport" where
  "repairItem plan flr = (\<lambda>(n, rep) item.
     if pl_NodeID plan \<noteq> md_NodeID (nd_Model n) \<or> pl_From plan \<noteq> advertised n
     then (n, outcome item RepairRefused '''' (Some PreviewOfAnotherNode) (rep\<lparr>rr_Refused := rr_Refused rep + 1\<rparr>))
     else if rc_Current item = None \<and> rc_Desired item = None
     then (n, outcome item RepairAbsent '''' None (rep\<lparr>rr_Absent := rr_Absent rep + 1\<rparr>))
     else if u_Key (currentOf item) \<noteq> rc_Key item \<or> u_Key (desiredOf item) \<noteq> rc_Key item
     then (n, outcome item RepairRefused '''' (Some PreviewKeyMismatch) (rep\<lparr>rr_Refused := rr_Refused rep + 1\<rparr>))
     else (case withStore (\<lambda>kv. if u_Action (desiredOf item) = KVDelete then Remove kv (rc_Key item) (repairOptions flr item)
              else Write kv (rc_Key item) (u_Value (desiredOf item)) (repairOptions flr item)) n of
        (n1, Inl err) \<Rightarrow>
          if err = ErrVersionMismatch
          then (n1, outcome item RepairChanged '''' (Some (StoreRefused err)) (rep\<lparr>rr_Changed := rr_Changed rep + 1\<rparr>))
          else (n1, outcome item RepairRefused '''' (Some (StoreRefused err)) (rep\<lparr>rr_Refused := rr_Refused rep + 1\<rparr>))
      | (n1, Inr u) \<Rightarrow>
          (notify KVChanged (broadcast (MsgKV u) (addCount KVLocalWrites 1 n1)),
           outcome item RepairRewritten (formatVersion (u_Version u)) None (rep\<lparr>rr_Rewritten := rr_Rewritten rep + 1\<rparr>))))"

definition ApplyRepairPlan :: "exchange \<Rightarrow> exchange \<Rightarrow> RepairPlan \<Rightarrow> Node \<Rightarrow> Node \<times> RepairReport" where
  "ApplyRepairPlan exBefore exAfter plan n =
     (case CheckConsistency exBefore n of (n0, before) \<Rightarrow>
      case foldl (repairItem plan (repairFloor before)) (n0, zero_RepairReport (advertised n)) (pl_Items plan) of (n1, rep) \<Rightarrow>
        let remaining = int (rr_Absent rep + rr_Refused rep + rr_Changed rep)
              + (if pl_Next plan \<ge> 0 then pl_Total plan - pl_Next plan else 0)
        in case CheckConsistency exAfter n1 of (n2, after) \<Rightarrow>
          (if rr_Rewritten rep > 0 then logActivity (ActRepaired (rr_Rewritten rep)) n2 else n2,
           rep\<lparr>rr_Remaining := remaining, rr_After := Some after,
              rr_Complete := (remaining = 0 \<and> rp_Converged after \<and> rp_Unreachable after = 0)\<rparr>))"

lemma pageOf_next: "pl_Next (pageOf offset limit p) \<ge> 0 \<Longrightarrow> offset < pl_Next (pageOf offset limit p)"
  by (auto simp: pageOf_def Let_def split: if_splits)

lemma pageOf_next_le: "pl_Next (pageOf offset limit p) \<le> int (length (pl_Items p))"
  by (simp add: pageOf_def Let_def)

lemma RepairPlanPage_next: "pl_Next (RepairPlanPage now plans planID offset limit) \<ge> 0 \<Longrightarrow> offset < pl_Next (RepairPlanPage now plans planID offset limit)"
  using pageOf_next by (auto simp: RepairPlanPage_def split: option.splits if_splits)

text \<open>The loop of \<open>Repair\<close> over the pages; \<open>net i\<close> is the exchange of the \<open>i\<close>-th check.\<close>

function repairPages :: "(nat \<Rightarrow> exchange) \<Rightarrow> nat \<Rightarrow> string \<Rightarrow> string list \<Rightarrow> int \<Rightarrow> repairState \<times> RepairReport \<Rightarrow> repairState \<times> RepairReport \<times> nat" where
  "repairPages net i planID keys offset (s, tot) =
     (if \<not> offset < int (length keys) then (s, tot, i)
      else
        let plan = RepairPlanPage (nodeNow (rs_node s)) (rs_plans s) planID offset 500 in
        if pl_Error plan \<noteq> '''' then (s, tot\<lparr>rr_Refused := rr_Refused tot + nat (int (length keys) - offset)\<rparr>, i)
        else (case ApplyRepairPlan (net i) (net (i + 1)) plan (rs_node s) of (n1, r) \<Rightarrow>
          let tot1 = tot\<lparr>rr_Rewritten := rr_Rewritten tot + rr_Rewritten r, rr_Absent := rr_Absent tot + rr_Absent r,
                rr_Refused := rr_Refused tot + rr_Refused r, rr_Changed := rr_Changed tot + rr_Changed r,
                rr_Keys := rr_Keys tot @ rr_Keys r, rr_After := rr_After r\<rparr>
          in if pl_Next plan < 0 then (s\<lparr>rs_node := n1\<rparr>, tot1, i + 2)
             else repairPages net (i + 2) planID keys (pl_Next plan) (s\<lparr>rs_node := n1\<rparr>, tot1)))"
  by pat_completeness auto
termination
proof (relation "measure (\<lambda>(net, i, planID, keys, offset, st). nat (int (length keys) - offset))", goal_cases)
  case (2 net i planID keys offset s tot plan n1 r tot1)
  have "offset < pl_Next plan"
    using RepairPlanPage_next [of "nodeNow (rs_node s)" "rs_plans s" planID offset 500] 2 by simp
  then show ?case
    using 2 by simp
qed simp

declare repairPages.simps [simp del]

definition Repair :: "(nat \<Rightarrow> exchange) \<Rightarrow> string \<Rightarrow> string list \<Rightarrow> repairState \<Rightarrow> repairState \<times> RepairReport" where
  "Repair net uuid keys0 s =
     (let keys = dedupe keys0 in
      case PreviewRepair uuid keys 0 500 s of (s1, first) \<Rightarrow>
      case repairPages net 0 (pl_ID first) keys 0 (s1, zero_RepairReport (advertised (rs_node s))) of (s2, tot, i) \<Rightarrow>
        let remaining = int (rr_Absent tot + rr_Refused tot + rr_Changed tot) in
        (case rr_After tot of
           Some after \<Rightarrow> (s2, tot\<lparr>rr_Remaining := remaining,
             rr_Complete := (remaining = 0 \<and> rp_Converged after \<and> rp_Unreachable after = 0)\<rparr>)
         | None \<Rightarrow> (case CheckConsistency (net i) (rs_node s2) of (n3, after) \<Rightarrow>
             (s2\<lparr>rs_node := n3\<rparr>, tot\<lparr>rr_Remaining := remaining, rr_After := Some after,
               rr_Complete := (remaining = 0 \<and> rp_Converged after \<and> rp_Unreachable after = 0)\<rparr>))))"

text \<open>\<open>DivergentKeys\<close>: a peer with more differences than were named is asked again, without a limit.\<close>

fun divergentKeys :: "exchange \<Rightarrow> PeerConsistency list \<Rightarrow> Node \<Rightarrow> Node \<times> string list" where
  "divergentKeys ex [] n = (n, [])"
| "divergentKeys ex (peer # peers) n =
     (case (if pk_MoreDifferences peer > 0
            then (case namedDifferencesLimit ex (pk_Addr peer) (pk_DifferingBuckets peer) 0 n of (n1, diffs, _) \<Rightarrow> (n1, diffs))
            else (n, pk_Differences peer)) of (n1, diffs) \<Rightarrow>
      case divergentKeys ex peers n1 of (n2, keys) \<Rightarrow> (n2, map kd_Key diffs @ keys))"

definition DivergentKeys :: "exchange \<Rightarrow> ConsistencyReport \<Rightarrow> Node \<Rightarrow> Node \<times> string list" where
  "DivergentKeys ex report n = (case divergentKeys ex (rp_Peers report) n of (n1, keys) \<Rightarrow> (n1, dedupe keys))"

definition RepairDivergent ::
  "exchange \<Rightarrow> exchange \<Rightarrow> (nat \<Rightarrow> exchange) \<Rightarrow> string \<Rightarrow> repairState \<Rightarrow> repairState \<times> ConsistencyReport \<times> RepairReport" where
  "RepairDivergent ex1 ex2 net uuid s =
     (case CheckConsistency ex1 (rs_node s) of (n1, report) \<Rightarrow>
      case DivergentKeys ex2 report n1 of (n2, keys) \<Rightarrow>
      case Repair net uuid keys (s\<lparr>rs_node := n2\<rparr>) of (s3, r) \<Rightarrow> (s3, report, r))"

section \<open>Restore\<close>

record ExportFile =
  xf_Node :: string
  xf_Cluster :: string
  xf_ExportedAt :: unix_time
  xf_Entries :: "KVUpdate list option"

definition Export :: "Node \<Rightarrow> ExportFile" where
  "Export n = \<lparr>xf_Node = advertised n, xf_Cluster = nc_Cluster (nd_cfg n), xf_ExportedAt = unix (nodeNow n),
     xf_Entries = Some (Updates (nodeStore n))\<rparr>"

datatype restoreError =
    BackupUnreadable | BackupWithoutEntries | BackupOfAnotherCluster string string | InvalidBackupEntry string
  | DuplicateBackupKey string | SelectSomeKeys | RestorePreviewExpired | KeyNotInPreview

definition expiredEntry :: "unix_time \<Rightarrow> KVUpdate \<Rightarrow> KVUpdate" where
  "expiredEntry now u =
     (if u_Action u = KVSet \<and> u_ExpiresAt u \<noteq> 0 \<and> u_ExpiresAt u \<le> now
      then u\<lparr>u_Action := KVDelete, u_Value := '''', u_ExpiresAt := 0\<rparr> else u)"

fun readBackup :: "unix_time \<Rightarrow> (string, KVUpdate) fmap \<Rightarrow> KVUpdate list \<Rightarrow> restoreError + (string, KVUpdate) fmap" where
  "readBackup now desired [] = Inr desired"
| "readBackup now desired (u # us) =
     (if \<not> ValidString (u_Key u) \<or> \<not> ValidString (u_Value u) \<or> (u_Action u \<noteq> KVSet \<and> u_Action u \<noteq> KVDelete)
      then Inl (InvalidBackupEntry (u_Key u))
      else if fmlookup desired (u_Key u) \<noteq> None then Inl (DuplicateBackupKey (u_Key u))
      else readBackup now (fmupd (u_Key u) (expiredEntry now u) desired) us)"

definition deletedUpdate :: "string \<Rightarrow> KVUpdate" where
  "deletedUpdate k = \<lparr>u_Action = KVDelete, u_Key = k, u_Value = '''', u_Version = Version 0 '''', u_ExpiresAt = 0, u_DeletedAt = 0\<rparr>"

definition addMissing :: "kvStore \<Rightarrow> (string, KVUpdate) fmap \<Rightarrow> (string, KVUpdate) fmap" where
  "addMissing kv desired = foldl (\<lambda>m k. if fmlookup m k = None then fmupd k (deletedUpdate k) m else m) desired (fmkeys (kv_store kv))"

definition restoreItem :: "kvStore \<Rightarrow> string \<Rightarrow> KVUpdate \<Rightarrow> RepairCandidate option" where
  "restoreItem kv k d =
     (let cur = map_option (entryUpdate k) (fmlookup (kv_store kv) k) in
      if (case cur of None \<Rightarrow> False | Some c \<Rightarrow> u_Action c = u_Action d
            \<and> (u_Action d = KVDelete \<or> u_Value c = u_Value d \<and> u_ExpiresAt c = u_ExpiresAt d))
      then None
      else Some \<lparr>rc_Desired = Some d,
        rc_Change = (if u_Action d = KVDelete then ''delete'' else if cur \<noteq> None then ''overwrite'' else ''add''),
        rc_Key = k, rc_Current = cur\<rparr>)"

definition restoreItems :: "kvStore \<Rightarrow> string list \<Rightarrow> (string, KVUpdate) fmap \<Rightarrow> RepairCandidate list" where
  "restoreItems kv keys desired =
     List.map_filter (\<lambda>(k, d). restoreItem kv k d) (filter (\<lambda>(k, d). keys = [] \<or> k \<in> set keys) (fmentries desired))"

definition PreviewRestore ::
  "string \<Rightarrow> ExportFile option \<Rightarrow> string list \<Rightarrow> bool \<Rightarrow> bool \<Rightarrow> repairState \<Rightarrow> repairState \<times> (restoreError + RepairPlan)" where
  "PreviewRestore uuid data keys deleteMissing allowCrossCluster s =
     (let n = rs_node s; kv = nodeStore n; now = unix (nodeNow n) in
      case data of
        None \<Rightarrow> (s, Inl BackupUnreadable)
      | Some backup \<Rightarrow> (case xf_Entries backup of
          None \<Rightarrow> (s, Inl BackupWithoutEntries)
        | Some entries \<Rightarrow>
            if xf_Cluster backup \<noteq> nc_Cluster (nd_cfg n) \<and> \<not> allowCrossCluster
            then (s, Inl (BackupOfAnotherCluster (xf_Cluster backup) (nc_Cluster (nd_cfg n))))
            else (case readBackup now fmempty entries of
              Inl err \<Rightarrow> (s, Inl err)
            | Inr desired0 \<Rightarrow>
                let desired = (if deleteMissing then addMissing kv desired0 else desired0);
                    items = restoreItems kv keys desired
                in case cachePlan (zero_RepairPlan\<lparr>pl_ID := uuid, pl_Kind := ''restore'', pl_From := advertised n,
                      pl_NodeID := md_NodeID (nd_Model n), pl_CreatedAt := now, pl_SourceCluster := xf_Cluster backup,
                      pl_SourceNode := xf_Node backup, pl_Total := int (length items), pl_Items := items\<rparr>) 0 100 s of
                  (s1, p) \<Rightarrow> (s1, Inr p))))"

definition ApplyRestore ::
  "exchange \<Rightarrow> exchange \<Rightarrow> string \<Rightarrow> string list \<Rightarrow> repairState \<Rightarrow> repairState \<times> (restoreError + RepairReport)" where
  "ApplyRestore exBefore exAfter planID keys s =
     (if keys = [] \<or> length keys > 500 then (s, Inl SelectSomeKeys)
      else case fmlookup (rs_plans s) planID of
        None \<Rightarrow> (s, Inl RestorePreviewExpired)
      | Some p \<Rightarrow>
          if pl_Kind p \<noteq> ''restore'' \<or> \<not> planFresh (nodeNow (rs_node s)) p then (s, Inl RestorePreviewExpired)
          else
            let (chosen, wanted) = foldl (\<lambda>(chosen, wanted) item.
                  if rc_Key item \<in> wanted then (chosen @ [item], wanted - {rc_Key item}) else (chosen, wanted))
                  ([], set keys) (pl_Items p)
            in if wanted \<noteq> {} then (s, Inl KeyNotInPreview)
               else case ApplyRepairPlan exBefore exAfter (p\<lparr>pl_Items := chosen, pl_Total := int (length chosen), pl_Next := - 1\<rparr>) (rs_node s) of
                 (n1, r) \<Rightarrow> (s\<lparr>rs_node := n1\<rparr>, Inr r))"

section \<open>What a plan does to the store\<close>

definition wantsDelete :: "RepairCandidate \<Rightarrow> bool" where
  "wantsDelete item \<longleftrightarrow> u_Action (desiredOf item) = KVDelete"

text \<open>The key still holds what the preview saw.\<close>

definition previewHolds :: "RepairCandidate \<Rightarrow> kvEntry option \<Rightarrow> bool" where
  "previewHolds item cur = (case rc_Current item of None \<Rightarrow> cur = None | Some x \<Rightarrow> matchesUpdate cur x)"

text \<open>The content the plan asks for.\<close>

definition hasDesired :: "RepairCandidate \<Rightarrow> kvEntry \<Rightarrow> bool" where
  "hasDesired item e \<longleftrightarrow> (if wantsDelete item then e_Deleted e \<and> e_Value e = '''' \<and> e_ExpiresAt e = 0
     else \<not> e_Deleted e \<and> e_Value e = u_Value (desiredOf item) \<and> e_ExpiresAt e = u_ExpiresAt (desiredOf item))"

text \<open>One key, rewritten or left alone: \<open>s0\<close> and \<open>s1\<close> are the store's maps before and after, \<open>out\<close> what the node has sent.\<close>

definition itemEffect ::
  "u64 \<Rightarrow> string list \<Rightarrow> (string, kvEntry) fmap \<Rightarrow> (string, kvEntry) fmap \<Rightarrow> (string \<times> message) list \<Rightarrow> RepairCandidate \<Rightarrow> RepairOutcome \<Rightarrow> bool" where
  "itemEffect flr peers s0 s1 out item oc \<longleftrightarrow> ro_Key oc = rc_Key item \<and>
     (if ro_Status oc = RepairRewritten
      then previewHolds item (fmlookup s0 (rc_Key item)) \<and> (\<exists>e. fmlookup s1 (rc_Key item) = Some e \<and> hasDesired item e
             \<and> flr < Counter (e_Version e) \<and> (\<forall>a \<in> set peers. (a, MsgKV (entryUpdate (rc_Key item) e)) \<in> set out))
      else fmlookup s1 (rc_Key item) = fmlookup s0 (rc_Key item))"

lemma repair_store_op:
  "(if u_Action (desiredOf item) = KVDelete then Remove kv (rc_Key item) (repairOptions flr item)
     else Write kv (rc_Key item) (u_Value (desiredOf item)) (repairOptions flr item)) =
   mutate kv (rc_Key item) (if wantsDelete item then '''' else u_Value (desiredOf item)) (wantsDelete item) (repairOptions flr item)"
  by (simp add: wantsDelete_def Remove_def Write_def)

lemma withStore_refused: "f (nodeStore n) = (nodeStore n, no_effects, r) \<Longrightarrow> withStore f n = (n, r)"
  by (simp add: withStore_def Let_def)

lemma withStore_fields:
  assumes "withStore f n = (n', r)"
  shows "nodeStore n' = fst (f (nodeStore n))" "r = snd (snd (f (nodeStore n)))" "nd_outbox n' = nd_outbox n" "nd_cfg n' = nd_cfg n"
    "md_Nodes (nd_Model n') = md_Nodes (nd_Model n)" "md_NodeID (nd_Model n') = md_NodeID (nd_Model n)"
  using assms by (auto simp: withStore_def Let_def Persist_def split: prod.splits option.splits if_splits)

lemma repairItem_effect:
  assumes "repairItem plan flr (n, rep) item = (n', rep')"
  shows "\<exists>oc. rr_Keys rep' = rr_Keys rep @ [oc]
      \<and> itemEffect flr (GetNodes (nd_Model n)) (kv_store (nodeStore n)) (kv_store (nodeStore n')) (nd_outbox n') item oc"
    and "k \<noteq> rc_Key item \<Longrightarrow> fmlookup (kv_store (nodeStore n')) k = fmlookup (kv_store (nodeStore n)) k"
    and "set (nd_outbox n) \<subseteq> set (nd_outbox n')" "GetNodes (nd_Model n') = GetNodes (nd_Model n)"
    and "rr_Rewritten rep' + rr_Absent rep' + rr_Refused rep' + rr_Changed rep' =
      Suc (rr_Rewritten rep + rr_Absent rep + rr_Refused rep + rr_Changed rep)"
proof -
  let ?val = "if wantsDelete item then '''' else u_Value (desiredOf item)"
  let ?op = "\<lambda>kv. mutate kv (rc_Key item) ?val (wantsDelete item) (repairOptions flr item)"
  let ?goal = "(\<exists>oc. rr_Keys rep' = rr_Keys rep @ [oc]
        \<and> itemEffect flr (GetNodes (nd_Model n)) (kv_store (nodeStore n)) (kv_store (nodeStore n')) (nd_outbox n') item oc)
      \<and> (\<forall>k. k \<noteq> rc_Key item \<longrightarrow> fmlookup (kv_store (nodeStore n')) k = fmlookup (kv_store (nodeStore n)) k)
      \<and> set (nd_outbox n) \<subseteq> set (nd_outbox n') \<and> GetNodes (nd_Model n') = GetNodes (nd_Model n)
      \<and> rr_Rewritten rep' + rr_Absent rep' + rr_Refused rep' + rr_Changed rep' =
        Suc (rr_Rewritten rep + rr_Absent rep + rr_Refused rep + rr_Changed rep)"
  have ?goal
  proof (cases "pl_NodeID plan \<noteq> md_NodeID (nd_Model n) \<or> pl_From plan \<noteq> advertised n
      \<or> (rc_Current item = None \<and> rc_Desired item = None) \<or> u_Key (currentOf item) \<noteq> rc_Key item \<or> u_Key (desiredOf item) \<noteq> rc_Key item")
    case True
    then show ?thesis
      using assms by (auto simp: repairItem_def outcome_def itemEffect_def split: if_splits)
  next
    case False
    then have r: "(case withStore ?op n of
        (n1, Inl err) \<Rightarrow>
          if err = ErrVersionMismatch
          then (n1, outcome item RepairChanged '''' (Some (StoreRefused err)) (rep\<lparr>rr_Changed := rr_Changed rep + 1\<rparr>))
          else (n1, outcome item RepairRefused '''' (Some (StoreRefused err)) (rep\<lparr>rr_Refused := rr_Refused rep + 1\<rparr>))
      | (n1, Inr u) \<Rightarrow>
          (notify KVChanged (broadcast (MsgKV u) (addCount KVLocalWrites 1 n1)),
           outcome item RepairRewritten (formatVersion (u_Version u)) None (rep\<lparr>rr_Rewritten := rr_Rewritten rep + 1\<rparr>))) = (n', rep')"
      using assms unfolding repairItem_def repair_store_op prod.case by (simp only: if_False de_Morgan_disj simp_thms)
    show ?thesis
    proof (cases "mutateRefusal (nodeStore n) (rc_Key item) ?val (wantsDelete item) (repairOptions flr item)")
      case (Some err)
      then have "withStore ?op n = (n, Inl err)"
        by (intro withStore_refused) (simp add: mutate_refused)
      then show ?thesis
        using r by (auto simp: outcome_def itemEffect_def split: if_splits)
    next
      case None
      let ?e = "mutateEntry (nodeStore n) ?val (wantsDelete item) (repairOptions flr item)"
      obtain n1 where w: "withStore ?op n = (n1, Inr (entryUpdate (rc_Key item) ?e))"
        using None by (cases "withStore ?op n") (auto dest: withStore_fields(2) simp: mutate_result)
      note f = withStore_fields [OF w]
      have n': "n' = notify KVChanged (broadcast (MsgKV (entryUpdate (rc_Key item) ?e)) (addCount KVLocalWrites 1 n1))"
          "rep' = outcome item RepairRewritten (formatVersion (u_Version (entryUpdate (rc_Key item) ?e))) None (rep\<lparr>rr_Rewritten := rr_Rewritten rep + 1\<rparr>)"
        using r by (simp_all add: w)
      have st: "kv_store (nodeStore n') = fmupd (rc_Key item) ?e (kv_store (nodeStore n))"
        using f(1) None by (simp add: n' mutate_store notify_def broadcast_def addCount_def)
      have out: "nd_outbox n' = nd_outbox n @ map (\<lambda>a. (a, MsgKV (entryUpdate (rc_Key item) ?e))) (GetNodes (nd_Model n))"
        using f(3,5) by (simp add: n' notify_def broadcast_def addCount_def GetNodes_def)
      have hold: "previewHolds item (fmlookup (kv_store (nodeStore n)) (rc_Key item))"
        using mutateRefusal_NoneD(5,6) [OF None] by (auto simp: previewHolds_def repairOptions_def zero_WriteOptions_def split: option.split)
      have "flr \<le> nextClock (nodeStore n) (repairOptions flr item)"
        using nextClock_ge(2) [of "repairOptions flr item" "nodeStore n"] by (simp add: repairOptions_def)
      then have "flr < Counter (e_Version ?e)"
        using mutateRefusal_NoneD(1) [OF None] word_less_inc by simp
      moreover have "hasDesired item ?e"
        by (simp add: hasDesired_def repairOptions_def)
      ultimately have "itemEffect flr (GetNodes (nd_Model n)) (kv_store (nodeStore n)) (kv_store (nodeStore n')) (nd_outbox n') item
          \<lparr>ro_Key = rc_Key item, ro_Status = RepairRewritten, ro_Version = formatVersion (u_Version (entryUpdate (rc_Key item) ?e)), ro_Error = None\<rparr>"
        using hold by (simp add: itemEffect_def st out)
      moreover have "GetNodes (nd_Model n') = GetNodes (nd_Model n)"
        using f(5) by (simp add: n' notify_def broadcast_def addCount_def GetNodes_def)
      ultimately show ?thesis
        unfolding n'(2) by (auto simp: outcome_def st out)
    qed
  qed
  then show "\<exists>oc. rr_Keys rep' = rr_Keys rep @ [oc]
      \<and> itemEffect flr (GetNodes (nd_Model n)) (kv_store (nodeStore n)) (kv_store (nodeStore n')) (nd_outbox n') item oc"
    "k \<noteq> rc_Key item \<Longrightarrow> fmlookup (kv_store (nodeStore n')) k = fmlookup (kv_store (nodeStore n)) k"
    "set (nd_outbox n) \<subseteq> set (nd_outbox n')" "GetNodes (nd_Model n') = GetNodes (nd_Model n)"
    "rr_Rewritten rep' + rr_Absent rep' + rr_Refused rep' + rr_Changed rep' =
      Suc (rr_Rewritten rep + rr_Absent rep + rr_Refused rep + rr_Changed rep)"
    by blast+
qed

lemma itemEffect_mono:
  assumes "itemEffect flr peers s0 s1 out item oc"
    and "fmlookup t0 (rc_Key item) = fmlookup s0 (rc_Key item)" "fmlookup t1 (rc_Key item) = fmlookup s1 (rc_Key item)" "set out \<subseteq> set out'"
  shows "itemEffect flr peers t0 t1 out' item oc"
  using assms unfolding itemEffect_def by (simp split: if_splits) blast

definition handled :: "RepairReport \<Rightarrow> nat" where
  "handled rep = rr_Rewritten rep + rr_Absent rep + rr_Refused rep + rr_Changed rep"

lemma repair_run:
  assumes "foldl (repairItem plan flr) (n, rep) items = (n', rep')" "distinct (map rc_Key items)"
  shows "(\<exists>ocs. rr_Keys rep' = rr_Keys rep @ ocs
      \<and> list_all2 (itemEffect flr (GetNodes (nd_Model n)) (kv_store (nodeStore n)) (kv_store (nodeStore n')) (nd_outbox n')) items ocs)
    \<and> (\<forall>k. k \<notin> rc_Key ` set items \<longrightarrow> fmlookup (kv_store (nodeStore n')) k = fmlookup (kv_store (nodeStore n)) k)
    \<and> set (nd_outbox n) \<subseteq> set (nd_outbox n') \<and> GetNodes (nd_Model n') = GetNodes (nd_Model n)
    \<and> handled rep' = handled rep + length items"
  using assms
proof (induction items arbitrary: n rep)
  case (Cons item items)
  obtain n1 rep1 where s: "repairItem plan flr (n, rep) item = (n1, rep1)" by force
  note e = repairItem_effect [OF s]
  obtain oc where oc: "rr_Keys rep1 = rr_Keys rep @ [oc]"
      "itemEffect flr (GetNodes (nd_Model n)) (kv_store (nodeStore n)) (kv_store (nodeStore n1)) (nd_outbox n1) item oc"
    using e(1) by blast
  have "foldl (repairItem plan flr) (n1, rep1) items = (n', rep')" "distinct (map rc_Key items)"
    using Cons.prems s by simp_all
  from Cons.IH [OF this] obtain ocs where ih: "rr_Keys rep' = rr_Keys rep1 @ ocs"
      "list_all2 (itemEffect flr (GetNodes (nd_Model n1)) (kv_store (nodeStore n1)) (kv_store (nodeStore n')) (nd_outbox n')) items ocs"
      "\<And>k. k \<notin> rc_Key ` set items \<Longrightarrow> fmlookup (kv_store (nodeStore n')) k = fmlookup (kv_store (nodeStore n1)) k"
      "set (nd_outbox n1) \<subseteq> set (nd_outbox n')" "GetNodes (nd_Model n') = GetNodes (nd_Model n1)" "handled rep' = handled rep1 + length items"
    by blast
  have fresh: "rc_Key item \<notin> rc_Key ` set items"
    using Cons.prems(2) by simp
  have "itemEffect flr (GetNodes (nd_Model n)) (kv_store (nodeStore n)) (kv_store (nodeStore n')) (nd_outbox n') item oc"
    by (rule itemEffect_mono [OF oc(2) refl ih(3) [OF fresh] ih(4)])
  moreover have "list_all2 (itemEffect flr (GetNodes (nd_Model n)) (kv_store (nodeStore n)) (kv_store (nodeStore n')) (nd_outbox n')) items ocs"
    using ih(2) unfolding e(4)
  proof (rule list.rel_mono_strong)
    fix i c assume i: "i \<in> set items" "itemEffect flr (GetNodes (nd_Model n)) (kv_store (nodeStore n1)) (kv_store (nodeStore n')) (nd_outbox n') i c"
    then have "rc_Key i \<noteq> rc_Key item"
      using fresh by (metis image_eqI)
    then show "itemEffect flr (GetNodes (nd_Model n)) (kv_store (nodeStore n)) (kv_store (nodeStore n')) (nd_outbox n') i c"
      using itemEffect_mono [OF i(2), of "kv_store (nodeStore n)"] e(2) by simp
  qed
  ultimately show ?case
    using oc(1) ih e(2-5) by (auto simp: handled_def intro!: exI [of _ "oc # ocs"])
qed simp

lemma repairFloor_ge:
  "rp_Clock before \<le> repairFloor before" "peer \<in> set (rp_Peers before) \<Longrightarrow> pk_Reachable peer \<Longrightarrow> pk_Clock peer \<le> repairFloor before"
proof -
  let ?f = "\<lambda>flr peer. if pk_Reachable peer \<and> pk_Clock peer > flr then pk_Clock peer else flr"
  have "c \<le> foldl ?f c ps \<and> (\<forall>p \<in> set ps. pk_Reachable p \<longrightarrow> pk_Clock p \<le> foldl ?f c ps)" for c ps
  proof (induction ps arbitrary: c)
    case (Cons p ps)
    have "c \<le> ?f c p" "pk_Reachable p \<longrightarrow> pk_Clock p \<le> ?f c p" by auto
    then show ?case
      using Cons.IH [of "?f c p"] by (auto intro: order_trans)
  qed simp
  then show "rp_Clock before \<le> repairFloor before" "peer \<in> set (rp_Peers before) \<Longrightarrow> pk_Reachable peer \<Longrightarrow> pk_Clock peer \<le> repairFloor before"
    unfolding repairFloor_def by blast+
qed

lemma CheckConsistency_frame [simp]: "nd_Model (fst (CheckConsistency ex n)) = nd_Model n" "nd_cfg (fst (CheckConsistency ex n)) = nd_cfg n" "nd_outbox (fst (CheckConsistency ex n)) = nd_outbox n"
  using askAll_run [of ex "FingerprintVersion (ex_sha ex) (nodeStore n) (int FingerprintBuckets) 2" "GetNodes (nd_Model n)" n]
  by (auto simp: CheckConsistency_def Let_def split: prod.split)

lemma consistency_clock: "rp_Clock (snd (CheckConsistency ex n)) = kv_clock (nodeStore n)"
proof -
  have "rp_Clock (foldl addResult rep rs) = rp_Clock rep" for rep rs
    using addResult_run [of rep rs] by (simp add: Let_def)
  then show ?thesis
    by (simp add: CheckConsistency_def Let_def FingerprintVersion_def split: prod.split)
qed

lemma repair_effects:
  assumes "ApplyRepairPlan ex1 ex2 plan n = (n', rep)" "distinct (map rc_Key (pl_Items plan))"
  shows "handled rep = length (pl_Items plan) \<and>
    (\<exists>flr. kv_clock (nodeStore n) \<le> flr
      \<and> (\<forall>peer \<in> set (rp_Peers (snd (CheckConsistency ex1 n))). pk_Reachable peer \<longrightarrow> pk_Clock peer \<le> flr)
      \<and> list_all2 (itemEffect flr (GetNodes (nd_Model n)) (kv_store (nodeStore n)) (kv_store (nodeStore n')) (nd_outbox n'))
          (pl_Items plan) (rr_Keys rep))
    \<and> (\<forall>k. k \<notin> rc_Key ` set (pl_Items plan) \<longrightarrow> fmlookup (kv_store (nodeStore n')) k = fmlookup (kv_store (nodeStore n)) k)"
proof -
  obtain n0 before where b: "CheckConsistency ex1 n = (n0, before)" by force
  let ?flr = "repairFloor before" and ?z = "zero_RepairReport (advertised n)"
  obtain n1 rep1 where f: "foldl (repairItem plan ?flr) (n0, ?z) (pl_Items plan) = (n1, rep1)" by force
  obtain n2 after where a: "CheckConsistency ex2 n1 = (n2, after)" by force
  have n0: "nd_Model n0 = nd_Model n" "nd_outbox n0 = nd_outbox n"
    using CheckConsistency_frame [of ex1 n] by (simp_all add: b)
  have n2: "nd_Model n2 = nd_Model n1" "nd_outbox n2 = nd_outbox n1"
    using CheckConsistency_frame [of ex2 n1] by (simp_all add: a)
  have r: "nodeStore n' = nodeStore n1" "nd_outbox n' = nd_outbox n1" "rr_Keys rep = rr_Keys rep1" "handled rep = handled rep1"
    using assms(1) n2 unfolding ApplyRepairPlan_def b prod.case f a Let_def
    by (auto simp: logActivity_def notify_def handled_def split: if_splits)
  note run = repair_run [OF f assms(2)]
  have "rr_Keys ?z = []" "handled ?z = 0"
    by (simp_all add: zero_RepairReport_def handled_def)
  then have "list_all2 (itemEffect ?flr (GetNodes (nd_Model n)) (kv_store (nodeStore n)) (kv_store (nodeStore n')) (nd_outbox n'))
      (pl_Items plan) (rr_Keys rep)" "handled rep = length (pl_Items plan)"
    using run r by (auto simp: n0)
  moreover have "kv_clock (nodeStore n) \<le> ?flr"
    using repairFloor_ge(1) [of before] consistency_clock [of ex1 n] by (simp add: b)
  ultimately show ?thesis
    using repairFloor_ge(2) [of _ before] run by (auto simp: b n0 r intro!: exI [of _ ?flr])
qed

text \<open>
  C30.  Applying a repair plan.  If the plan names each key once: every item is answered for, in order, and the counts add up; a key
  is rewritten only if it still holds exactly what the preview captured; a rewritten key has the content the plan asked for under
  a version whose counter is above this node's clock and above the clock of every peer that answered the check made first, and that entry has
  been sent to every peer; every other key, named by the plan or not, is left as it was.
\<close>

theorem repair_plan_effect:
  assumes "ApplyRepairPlan ex1 ex2 plan n = (n', rep)" "distinct (map rc_Key (pl_Items plan))"
  shows "handled rep = length (pl_Items plan) \<and>
    (\<exists>flr. kv_clock (nodeStore n) \<le> flr
      \<and> (\<forall>peer \<in> set (rp_Peers (snd (CheckConsistency ex1 n))). pk_Reachable peer \<longrightarrow> pk_Clock peer \<le> flr)
      \<and> list_all2 (itemEffect flr (GetNodes (nd_Model n)) (kv_store (nodeStore n)) (kv_store (nodeStore n')) (nd_outbox n'))
          (pl_Items plan) (rr_Keys rep))
    \<and> (\<forall>k. k \<notin> rc_Key ` set (pl_Items plan) \<longrightarrow> fmlookup (kv_store (nodeStore n')) k = fmlookup (kv_store (nodeStore n)) k)"
  using repair_effects [OF assms] .

text \<open>The update of a fresh version lands on every sound store whose clock is not above it.\<close>

lemma newer_update_lands:
  assumes "kv_wf B" "kv_clock B < Counter (e_Version e)" "applyRefusal B (entryUpdate k e) = None"
  shows "fmlookup (kv_store (fst (ApplyWithReason B (entryUpdate k e)))) k = Some (applyEntry (entryUpdate k e) (unix (kv_now B)))"
proof -
  have "\<not> staleFor B (entryUpdate k e)"
  proof
    assume "staleFor B (entryUpdate k e)"
    then obtain cur where cur: "fmlookup (kv_store B) k = Some cur" "e_Version e \<le> e_Version cur"
      by (auto simp: staleFor_def entryUpdate_def split: option.splits)
    have "Counter (e_Version cur) < Counter (e_Version e)"
      using kv_wf_counter [OF assms(1) cur(1)] assms(2) by (rule le_less_trans)
    then show False
      using cur(2) by (auto simp: less_eq_version_def less_version_def)
  qed
  then show ?thesis
    using assms(3) by (simp add: ApplyWithReason_store entryUpdate_def)
qed

definition sameContent :: "kvEntry \<Rightarrow> kvEntry \<Rightarrow> bool" where
  "sameContent e e' \<longleftrightarrow> e_Version e = e_Version e' \<and> e_Deleted e = e_Deleted e' \<and> e_Value e = e_Value e' \<and> e_ExpiresAt e = e_ExpiresAt e'"

lemma reported_peer: "p \<in> set (rp_Peers (snd (CheckConsistency ex n))) \<Longrightarrow> pk_Addr p \<in> set (GetNodes (nd_Model n))"
proof -
  obtain n' results where a: "askAll ex (FingerprintVersion (ex_sha ex) (nodeStore n) (int FingerprintBuckets) 2) (GetNodes (nd_Model n)) n = (n', results)"
    by force
  then have "map pk_Addr results = GetNodes (nd_Model n)"
    using askAll_run [of ex "FingerprintVersion (ex_sha ex) (nodeStore n) (int FingerprintBuckets) 2" "GetNodes (nd_Model n)" n] by simp
  moreover have "set (rp_Peers (snd (CheckConsistency ex n))) = set results"
    using addResult_run [of _ results] by (simp add: CheckConsistency_def Let_def a)
  ultimately show "p \<in> set (rp_Peers (snd (CheckConsistency ex n))) \<Longrightarrow> pk_Addr p \<in> set (GetNodes (nd_Model n))"
    by (metis image_eqI list.set_map)
qed

text \<open>
  C29.  A repaired key wins.  For every key a plan reports rewritten and every peer that answered the check with its true clock: the
  node has sent that peer an update of the key which, unless the peer's own limits refuse it, replaces whatever the peer
  held, and then the two stores hold the key alike: version, value, deletion and expiry.
\<close>

theorem repair_wins:
  assumes "ApplyRepairPlan ex1 ex2 plan n = (n', rep)" "distinct (map rc_Key (pl_Items plan))"
    and "i < length (pl_Items plan)" "ro_Status (rr_Keys rep ! i) = RepairRewritten"
    and "p \<in> set (rp_Peers (snd (CheckConsistency ex1 n)))" "pk_Reachable p" "pk_Clock p = kv_clock B" "kv_wf B"
  shows "\<exists>u e. (pk_Addr p, MsgKV u) \<in> set (nd_outbox n') \<and> u_Key u = rc_Key (pl_Items plan ! i)
    \<and> fmlookup (kv_store (nodeStore n')) (rc_Key (pl_Items plan ! i)) = Some e
    \<and> (applyRefusal B u = None \<longrightarrow>
         (\<exists>e'. fmlookup (kv_store (fst (ApplyWithReason B u))) (rc_Key (pl_Items plan ! i)) = Some e' \<and> sameContent e e'))"
proof -
  let ?k = "rc_Key (pl_Items plan ! i)"
  obtain flr where flr: "pk_Clock p \<le> flr"
      "list_all2 (itemEffect flr (GetNodes (nd_Model n)) (kv_store (nodeStore n)) (kv_store (nodeStore n')) (nd_outbox n')) (pl_Items plan) (rr_Keys rep)"
    using repair_effects [OF assms(1,2)] assms(5,6) by blast
  have "itemEffect flr (GetNodes (nd_Model n)) (kv_store (nodeStore n)) (kv_store (nodeStore n')) (nd_outbox n') (pl_Items plan ! i) (rr_Keys rep ! i)"
    using list_all2_nthD [OF flr(2) assms(3)] .
  then obtain e where e: "fmlookup (kv_store (nodeStore n')) ?k = Some e" "flr < Counter (e_Version e)"
      "\<forall>a \<in> set (GetNodes (nd_Model n)). (a, MsgKV (entryUpdate ?k e)) \<in> set (nd_outbox n')"
    using assms(4) by (auto simp: itemEffect_def)
  have "kv_clock B < Counter (e_Version e)"
    using flr(1) e(2) assms(7) by simp
  then have "applyRefusal B (entryUpdate ?k e) = None \<Longrightarrow>
      \<exists>e'. fmlookup (kv_store (fst (ApplyWithReason B (entryUpdate ?k e)))) ?k = Some e' \<and> sameContent e e'"
    using newer_update_lands [OF assms(8)] by (auto simp: sameContent_def entryUpdate_def)
  then show ?thesis
    using e(1,3) reported_peer [OF assms(5)] by (intro exI [of _ "entryUpdate ?k e"] exI [of _ e]) (auto simp: entryUpdate_def)
qed

section \<open>Pages\<close>

text \<open>Following \<open>Next\<close> from an offset.\<close>

function allPages :: "int \<Rightarrow> RepairPlan \<Rightarrow> int \<Rightarrow> RepairCandidate list" where
  "allPages limit p offset =
     (let page = pageOf offset limit p
      in if pl_Next page < 0 then pl_Items page else pl_Items page @ allPages limit p (pl_Next page))"
  by pat_completeness auto
termination
proof (relation "measure (\<lambda>(limit, p, offset). nat (int (length (pl_Items p)) - offset))", goal_cases)
  case (2 limit p offset page)
  have "offset < pl_Next page" "pl_Next page \<le> int (length (pl_Items p))"
    using 2 pageOf_next [of offset limit p] pageOf_next_le [of offset limit p] by simp_all
  then show ?case by simp
qed simp

declare allPages.simps [simp del]

lemma pageOf_split:
  assumes "0 \<le> offset" "offset \<le> int (length (pl_Items p))"
  shows "pl_Next (pageOf offset limit p) < 0 \<Longrightarrow> pl_Items (pageOf offset limit p) = drop (nat offset) (pl_Items p)"
    and "0 \<le> pl_Next (pageOf offset limit p) \<Longrightarrow> pl_Next (pageOf offset limit p) \<le> int (length (pl_Items p))
      \<and> pl_Items (pageOf offset limit p) @ drop (nat (pl_Next (pageOf offset limit p))) (pl_Items p) = drop (nat offset) (pl_Items p)"
proof -
  show "pl_Items (pageOf offset limit p) = drop (nat offset) (pl_Items p)" if "pl_Next (pageOf offset limit p) < 0"
    using that assms by (auto simp: pageOf_def Let_def nat_diff_distrib split: if_splits)
  have split: "take (nat (stop - offset)) (drop (nat offset) xs) @ drop (nat stop) xs = drop (nat offset) xs" if "offset \<le> stop" for stop and xs :: "RepairCandidate list"
  proof -
    have "nat stop = nat (stop - offset) + nat offset"
      using that assms(1) by (simp add: nat_add_distrib [symmetric])
    then show ?thesis
      by (metis append_take_drop_id drop_drop)
  qed
  show "pl_Next (pageOf offset limit p) \<le> int (length (pl_Items p))
      \<and> pl_Items (pageOf offset limit p) @ drop (nat (pl_Next (pageOf offset limit p))) (pl_Items p) = drop (nat offset) (pl_Items p)"
    if "0 \<le> pl_Next (pageOf offset limit p)"
    using that assms by (auto simp: pageOf_def Let_def split split: if_splits)
qed

lemma allPages_drop: "0 \<le> offset \<Longrightarrow> offset \<le> int (length (pl_Items p)) \<Longrightarrow> allPages limit p offset = drop (nat offset) (pl_Items p)"
proof (induction limit p offset rule: allPages.induct)
  case (1 limit p offset)
  show ?case
    using pageOf_split [OF "1.prems", of limit] "1.IH" [OF refl] "1.prems" pageOf_next [of offset limit p]
    by (subst allPages.simps) (auto simp: Let_def)
qed

text \<open>
  The pages of a plan are its items.  Reading a cached plan page by page, from the start and at whatever limit, by following \<open>Next\<close>,
  ends and gives every item once and in order; every page has at most five hundred items, and every page
  that is followed by another has at least one.
\<close>

theorem pages_cover_plan:
  "allPages limit p 0 = pl_Items p \<and> length (pl_Items (pageOf offset limit p)) \<le> 500
    \<and> (pl_Next (pageOf offset limit p) < 0 \<or> 0 < length (pl_Items (pageOf offset limit p)))"
  using allPages_drop [of 0 p limit] by (auto simp: pageOf_def Let_def)

section \<open>A whole repair\<close>

lemma repairItem_frame:
  assumes "repairItem plan flr (n, rep) item = (n', rep')"
  shows "nodeNow n' = nodeNow n \<and> nd_cfg n' = nd_cfg n"
proof -
  define op where "op = (\<lambda>kv. mutate kv (rc_Key item) (if wantsDelete item then '''' else u_Value (desiredOf item)) (wantsDelete item) (repairOptions flr item))"
  obtain n1 r where w: "withStore op n = (n1, r)" by force
  have "nodeNow n1 = nodeNow n" "nd_cfg n1 = nd_cfg n"
    using withStore_fields [OF w] by (simp_all add: op_def)
  then show ?thesis
    using assms unfolding repairItem_def repair_store_op op_def [symmetric] prod.case w
    by (auto simp: notify_def broadcast_def addCount_def split: if_splits sum.splits)
qed

lemma repair_run_keys:
  assumes "foldl (repairItem plan flr) (n, rep) items = (n', rep')"
  shows "map ro_Key (rr_Keys rep') = map ro_Key (rr_Keys rep) @ map rc_Key items \<and> handled rep' = handled rep + length items
    \<and> nodeNow n' = nodeNow n \<and> nd_cfg n' = nd_cfg n"
  using assms
proof (induction items arbitrary: n rep)
  case (Cons item items)
  obtain n1 rep1 where s: "repairItem plan flr (n, rep) item = (n1, rep1)" by force
  have "map ro_Key (rr_Keys rep1) = map ro_Key (rr_Keys rep) @ [rc_Key item]"
    using repairItem_effect(1) [OF s] by (auto simp: itemEffect_def)
  then show ?case
    using Cons.IH [of n1 rep1] Cons.prems s repairItem_effect(5) [OF s] repairItem_frame [OF s] by (simp add: handled_def)
qed simp

lemma ApplyRepairPlan_handled:
  assumes "ApplyRepairPlan ex1 ex2 plan n = (n', rep)"
  shows "handled rep = length (pl_Items plan) \<and> map ro_Key (rr_Keys rep) = map rc_Key (pl_Items plan) \<and> nodeNow n' = nodeNow n \<and> nd_cfg n' = nd_cfg n"
proof -
  obtain n0 before where b: "CheckConsistency ex1 n = (n0, before)" by force
  obtain n1 rep1 where f: "foldl (repairItem plan (repairFloor before)) (n0, zero_RepairReport (advertised n)) (pl_Items plan) = (n1, rep1)" by force
  obtain n2 after where a: "CheckConsistency ex2 n1 = (n2, after)" by force
  have "nd_Model n0 = nd_Model n" "nd_cfg n0 = nd_cfg n" "nd_Model n2 = nd_Model n1" "nd_cfg n2 = nd_cfg n1"
    using CheckConsistency_frame [of ex1 n] CheckConsistency_frame [of ex2 n1] by (simp_all add: a b)
  moreover have "handled rep = handled rep1" "rr_Keys rep = rr_Keys rep1" "nodeNow n' = nodeNow n2" "nd_cfg n' = nd_cfg n2"
    using assms unfolding ApplyRepairPlan_def b prod.case f a Let_def
    by (auto simp: logActivity_def notify_def handled_def split: if_splits)
  ultimately show ?thesis
    using repair_run_keys [OF f] by (simp add: zero_RepairReport_def handled_def)
qed

lemma repairPages_run:
  assumes "fmlookup (rs_plans s) planID = Some p" "planFresh (nodeNow (rs_node s)) p" "pl_Error p = ''''"
    and "map rc_Key (pl_Items p) = keys" "0 \<le> offset" "offset < int (length keys)"
    and "repairPages net i planID keys offset (s, tot) = (s', tot', j)"
  shows "map ro_Key (rr_Keys tot') = map ro_Key (rr_Keys tot) @ drop (nat offset) keys
    \<and> handled tot' = handled tot + (length keys - nat offset)"
  using assms
proof (induction "nat (int (length keys) - offset)" arbitrary: offset i s tot rule: less_induct)
  case less
  let ?plan = "pageOf offset 500 p"
  have page: "RepairPlanPage (nodeNow (rs_node s)) (rs_plans s) planID offset 500 = ?plan"
    using less.prems(1,2) by (simp add: RepairPlanPage_def)
  have noerr: "pl_Error ?plan = ''''"
    using less.prems(3) by (simp add: pageOf_def Let_def)
  obtain n1 r where a: "ApplyRepairPlan (net i) (net (i + 1)) ?plan (rs_node s) = (n1, r)" by force
  note h = ApplyRepairPlan_handled [OF a]
  let ?tot1 = "tot\<lparr>rr_Rewritten := rr_Rewritten tot + rr_Rewritten r, rr_Absent := rr_Absent tot + rr_Absent r,
                rr_Refused := rr_Refused tot + rr_Refused r, rr_Changed := rr_Changed tot + rr_Changed r,
                rr_Keys := rr_Keys tot @ rr_Keys r, rr_After := rr_After r\<rparr>"
  have len: "length (pl_Items p) = length keys"
    using less.prems(4) by (metis length_map)
  have t1: "map ro_Key (rr_Keys ?tot1) = map ro_Key (rr_Keys tot) @ map rc_Key (pl_Items ?plan)"
      "handled ?tot1 = handled tot + length (pl_Items ?plan)"
    using h by (simp_all add: handled_def)
  have eq: "repairPages net i planID keys offset (s, tot) =
      (if pl_Next ?plan < 0 then (s\<lparr>rs_node := n1\<rparr>, ?tot1, i + 2)
       else repairPages net (i + 2) planID keys (pl_Next ?plan) (s\<lparr>rs_node := n1\<rparr>, ?tot1))"
    using less.prems(6) by (subst repairPages.simps) (simp add: page noerr a [simplified] Let_def)
  have range: "0 \<le> offset" "offset \<le> int (length (pl_Items p))"
    using less.prems(5,6) len by simp_all
  show ?case
  proof (cases "pl_Next ?plan < 0")
    case True
    then have "tot' = ?tot1" "pl_Items ?plan = drop (nat offset) (pl_Items p)"
      using less.prems(7) eq pageOf_split(1) [OF range] by simp_all
    then show ?thesis
      using t1 less.prems(4) len by (simp add: drop_map [symmetric])
  next
    case False
    then have nx: "0 \<le> pl_Next ?plan" "offset < pl_Next ?plan" "pl_Next ?plan < int (length keys)"
        "pl_Items ?plan @ drop (nat (pl_Next ?plan)) (pl_Items p) = drop (nat offset) (pl_Items p)"
      using pageOf_next [of offset 500 p] pageOf_split(2) [OF range, of 500] len by (auto simp: pageOf_def Let_def split: if_splits)
    have "map ro_Key (rr_Keys tot') = map ro_Key (rr_Keys ?tot1) @ drop (nat (pl_Next ?plan)) keys
        \<and> handled tot' = handled ?tot1 + (length keys - nat (pl_Next ?plan))"
      by (rule less.hyps [of "pl_Next ?plan" "s\<lparr>rs_node := n1\<rparr>" "i + 2"])
         (use less.prems False nx eq h in simp_all)
    moreover have "map rc_Key (pl_Items ?plan) @ drop (nat (pl_Next ?plan)) keys = drop (nat offset) keys"
      using arg_cong [OF nx(4), of "map rc_Key"] less.prems(4) by (simp flip: drop_map)
    moreover have "length (pl_Items ?plan) + (length keys - nat (pl_Next ?plan)) = length keys - nat offset"
      using arg_cong [OF nx(4), of length] len by simp
    ultimately show ?thesis
      using t1 by simp
  qed
qed

lemma previewItems_keys: "map rc_Key (previewItems kv keys) = keys"
  by (simp add: previewItems_def Let_def comp_def)

text \<open>
  A repair answers for every key.  Whatever the peers answer, \<open>Repair\<close> returns, and its report has exactly one outcome for each
  distinct key it was asked for, in ascending order, every one of them counted once as rewritten, absent, refused or changed; what remains
  is what was not rewritten.
\<close>

theorem repair_answers_every_key:
  "let (s', rep) = Repair net uuid keys s in
     map ro_Key (rr_Keys rep) = sort (remdups keys) \<and> handled rep = card (set keys)
   \<and> rr_Remaining rep = int (card (set keys) - rr_Rewritten rep)"
proof -
  let ?keys = "dedupe keys" and ?n = "rs_node s"
  have dd: "dedupe ?keys = ?keys"
    by (simp add: dedupe_def distinct_remdups_id sorted_sort_id)
  have card: "length ?keys = card (set keys)"
    by (simp add: dedupe_def length_remdups_card_conv)
  define p where "p = zero_RepairPlan\<lparr>pl_ID := uuid, pl_From := advertised ?n, pl_NodeID := md_NodeID (nd_Model ?n),
          pl_CreatedAt := unix (nodeNow ?n), pl_Total := int (length ?keys), pl_Next := - 1,
          pl_Items := previewItems (nodeStore ?n) ?keys\<rparr>"
  have p: "pl_ID p = uuid" "pl_Error p = ''''" "planFresh (nodeNow ?n) p" "map rc_Key (pl_Items p) = ?keys"
    by (simp_all add: p_def planFresh_def zero_RepairPlan_def previewItems_keys)
  obtain s1 first where c: "PreviewRepair uuid ?keys 0 500 s = (s1, first)" by force
  then have s1: "rs_node s1 = ?n" "fmlookup (rs_plans s1) uuid = Some p" "pl_ID first = uuid"
    using p by (auto simp: PreviewRepair_def dd Let_def p_def [symmetric] cachePlan_def RepairPlanPage_def pageOf_def)
  obtain s2 tot i where r: "repairPages net 0 uuid ?keys 0 (s1, zero_RepairReport (advertised ?n)) = (s2, tot, i)"
    by (metis prod.exhaust)
  have t: "map ro_Key (rr_Keys tot) = ?keys \<and> handled tot = length ?keys"
  proof (cases "?keys = []")
    case True
    then show ?thesis
      using r by (subst (asm) repairPages.simps) (auto simp: zero_RepairReport_def handled_def)
  next
    case False
    then show ?thesis
      using repairPages_run [OF s1(2) _ p(2,4) _ _ r] p(3) s1(1) by (simp add: zero_RepairReport_def handled_def)
  qed
  have rem: "int (rr_Absent tot + rr_Refused tot + rr_Changed tot) = int (card (set keys) - rr_Rewritten tot)"
    using t card by (simp add: handled_def)
  have k: "map ro_Key (rr_Keys tot) = sort (remdups keys)" "handled tot = card (set keys)"
    using t card by (simp_all add: dedupe_def)
  show ?thesis
    unfolding Repair_def Let_def dd c prod.case s1(3) r
    using k rem by (auto simp: handled_def split: option.split prod.split)
qed

text \<open>When the second question to a peer fails, \<open>DivergentKeys\<close> loses the names the first answer gave.\<close>

lemma divergent_keys_lost:
  assumes "pk_MoreDifferences peer > 0" "askPeer ex (pk_Addr peer) (bucketRequest n (pk_DifferingBuckets peer)) n = (n1, Inl err)"
  shows "snd (divergentKeys ex [peer] n) = []"
  using assms by (simp add: namedDifferencesLimit_def bucketRequest_def)

section \<open>Restoring a backup\<close>

text \<open>What a backup says a reader should see under a key at time \<open>now\<close>.\<close>

definition backupReads :: "unix_time \<Rightarrow> KVUpdate list \<Rightarrow> string \<Rightarrow> string option" where
  "backupReads now entries k = (case find (\<lambda>u. u_Key u = k) entries of
     None \<Rightarrow> None
   | Some u \<Rightarrow> if u_Action u = KVDelete \<or> (u_ExpiresAt u \<noteq> 0 \<and> u_ExpiresAt u \<le> now) then None else Some (u_Value u))"

lemma readBackup_lookup:
  assumes "readBackup now desired entries = Inr desired'"
  shows "fmlookup desired' k = (case fmlookup desired k of Some d \<Rightarrow> Some d
    | None \<Rightarrow> map_option (expiredEntry now) (find (\<lambda>u. u_Key u = k) entries))"
  using assms
proof (induction entries arbitrary: desired)
  case (Cons u us)
  then have "fmlookup desired (u_Key u) = None" "readBackup now (fmupd (u_Key u) (expiredEntry now u) desired) us = Inr desired'"
    by (auto split: if_splits)
  then show ?case
    using Cons.IH by (auto split: option.split)
qed (simp split: option.split)

lemma readBackup_actions:
  assumes "readBackup now desired entries = Inr desired'" "u \<in> set entries"
  shows "u_Action u = KVSet \<or> u_Action u = KVDelete"
  using assms by (induction entries arbitrary: desired) (auto split: if_splits)

lemma addMissing_lookup:
  "fmlookup (addMissing kv desired) k = (case fmlookup desired k of Some d \<Rightarrow> Some d
     | None \<Rightarrow> if k \<in> fmdom' (kv_store kv) then Some (deletedUpdate k) else None)"
proof -
  have "fmlookup (foldl (\<lambda>m k. if fmlookup m k = None then fmupd k (deletedUpdate k) m else m) m ks) k =
      (case fmlookup m k of Some d \<Rightarrow> Some d | None \<Rightarrow> if k \<in> set ks then Some (deletedUpdate k) else None)" for m ks
    by (induction ks arbitrary: m) (auto split: option.split)
  then show ?thesis
    by (simp add: addMissing_def)
qed

text \<open>What a plan's desired entry makes a reader see.\<close>

definition desiredReads :: "KVUpdate \<Rightarrow> string option" where
  "desiredReads d = (if u_Action d = KVDelete then None else Some (u_Value d))"

lemma desired_backup:
  assumes "readBackup now fmempty entries = Inr desired0" "desired = (if dm then addMissing kv desired0 else desired0)"
    and "fmlookup desired k = Some d"
  shows "desiredReads d = backupReads now entries k \<and> (u_Action d \<noteq> KVDelete \<longrightarrow> u_Action d = KVSet \<and> (u_ExpiresAt d = 0 \<or> now < u_ExpiresAt d))"
proof -
  have l: "fmlookup desired0 k = map_option (expiredEntry now) (find (\<lambda>u. u_Key u = k) entries)"
    using readBackup_lookup [OF assms(1), of k] by simp
  show ?thesis
  proof (cases "find (\<lambda>u. u_Key u = k) entries")
    case None
    then have "d = deletedUpdate k"
      using assms(2,3) l by (auto simp: addMissing_lookup split: if_splits)
    then show ?thesis
      using None by (simp add: backupReads_def desiredReads_def deletedUpdate_def)
  next
    case (Some u)
    then have d: "d = expiredEntry now u"
      using assms(2,3) l by (auto simp: addMissing_lookup split: if_splits)
    have "u \<in> set entries"
      using Some by (auto simp: find_Some_iff)
    then have "u_Action u = KVSet \<or> u_Action u = KVDelete"
      using readBackup_actions [OF assms(1)] by blast
    then show ?thesis
      using Some by (auto simp: d backupReads_def desiredReads_def expiredEntry_def)
  qed
qed

lemma Get_lookup: "Get kv k = (case fmlookup (kv_store kv) k of None \<Rightarrow> None
    | Some e \<Rightarrow> if \<not> visible e (unix (kv_now kv)) then None else Some (e_Value e))"
  by (simp add: Get_def)

lemma restoreItem_fields:
  assumes "restoreItem kv k d = Some item"
  shows "rc_Key item = k" "rc_Desired item = Some d" "rc_Current item = map_option (entryUpdate k) (fmlookup (kv_store kv) k)"
  using assms by (auto simp: restoreItem_def Let_def split: if_splits)

lemma restoreItem_idle:
  assumes "restoreItem kv k d = None" "u_Action d \<noteq> KVDelete \<longrightarrow> u_Action d = KVSet \<and> (u_ExpiresAt d = 0 \<or> unix (kv_now kv) < u_ExpiresAt d)"
  shows "Get kv k = desiredReads d"
  using assms by (auto simp: restoreItem_def Let_def Get_lookup desiredReads_def entryUpdate_def visible_def expired_def split: option.splits if_splits)

lemma restored_reads:
  assumes "hasDesired item e" "desiredOf item = d" "fmlookup (kv_store kv) k = Some e"
    and "u_Action d \<noteq> KVDelete \<longrightarrow> u_Action d = KVSet \<and> (u_ExpiresAt d = 0 \<or> unix (kv_now kv) < u_ExpiresAt d)"
  shows "Get kv k = desiredReads d"
  using assms by (auto simp: hasDesired_def wantsDelete_def Get_lookup desiredReads_def visible_def expired_def split: if_splits)

lemma map_filter_fmentries:
  assumes "\<And>k d item. f (k, d) = Some item \<Longrightarrow> rc_Key item = k"
  shows "distinct (map rc_Key (List.map_filter f (filter P (fmentries m))))"
    "set (List.map_filter f (filter P (fmentries m))) = {item. \<exists>k d. fmlookup m k = Some d \<and> P (k, d) \<and> f (k, d) = Some item}"
proof -
  have "map rc_Key (List.map_filter f xs) = map fst (filter (\<lambda>x. f x \<noteq> None) xs)" for xs
    using assms by (induction xs) (auto simp: List.map_filter_def)
  then have "map rc_Key (List.map_filter f (filter P (fmentries m))) = map fst (filter (\<lambda>x. P x \<and> f x \<noteq> None) (fmentries m))"
    by (simp add: filter_filter conj_commute)
  moreover have "distinct (map fst (filter Q (fmentries m)))" for Q
    by (metis distinct_fmkeys distinct_map_filter map_fst_fmentries)
  ultimately show "distinct (map rc_Key (List.map_filter f (filter P (fmentries m))))" by simp
  show "set (List.map_filter f (filter P (fmentries m))) = {item. \<exists>k d. fmlookup m k = Some d \<and> P (k, d) \<and> f (k, d) = Some item}"
    by (auto simp: set_map_filter set_fmentries)
qed

lemma choose_items:
  "distinct (map rc_Key items) \<Longrightarrow>
   foldl (\<lambda>(chosen, wanted) item. if rc_Key item \<in> wanted then (chosen @ [item], wanted - {rc_Key item}) else (chosen, wanted)) (acc, W) items =
     (acc @ filter (\<lambda>item. rc_Key item \<in> W) items, W - rc_Key ` set items)"
proof (induction items arbitrary: acc W)
  case (Cons i items)
  have "filter (\<lambda>item. rc_Key item \<in> W - {rc_Key i}) items = filter (\<lambda>item. rc_Key item \<in> W) items"
    using Cons.prems by (auto intro!: filter_cong simp: image_iff)
  then show ?case
    using Cons by auto
qed simp

lemma PreviewRestore_plan:
  assumes "PreviewRestore uuid (Some backup) sel dm acc s = (s1, Inr page)" "xf_Entries backup = Some entries"
  obtains desired0 p where "readBackup (unix (nodeNow (rs_node s))) fmempty entries = Inr desired0"
    "fmlookup (rs_plans s1) uuid = Some p" "rs_node s1 = rs_node s"
    "pl_Items p = restoreItems (nodeStore (rs_node s)) sel (if dm then addMissing (nodeStore (rs_node s)) desired0 else desired0)"
  using assms by (auto simp: PreviewRestore_def Let_def cachePlan_def zero_RepairPlan_def split: if_splits sum.splits)

lemma restored_key:
  assumes "list_all2 (itemEffect flr peers st (kv_store kv) sent) chosen ocs" "item \<in> set chosen" "rc_Key item = k" "rc_Desired item = Some d"
    and "u_Action d \<noteq> KVDelete \<longrightarrow> u_Action d = KVSet \<and> (u_ExpiresAt d = 0 \<or> unix (kv_now kv) < u_ExpiresAt d)"
  shows "\<exists>oc \<in> set ocs. ro_Key oc = k \<and> (ro_Status oc = RepairRewritten \<longrightarrow> Get kv k = desiredReads d)"
proof -
  obtain i where i: "i < length chosen" "chosen ! i = item"
    using assms(2) by (metis in_set_conv_nth)
  have e: "itemEffect flr peers st (kv_store kv) sent item (ocs ! i)"
    using list_all2_nthD [OF assms(1) i(1)] i(2) by simp
  have "Get kv k = desiredReads d" if rw: "ro_Status (ocs ! i) = RepairRewritten"
  proof -
    obtain e1 where "fmlookup (kv_store kv) k = Some e1" "hasDesired item e1"
      using e assms(3) rw unfolding itemEffect_def by auto
    then show ?thesis
      using restored_reads [of item e1 d kv k] assms(4,5) by (simp add: desiredOf_def)
  qed
  moreover have "ocs ! i \<in> set ocs" "ro_Key (ocs ! i) = k"
    using e assms(3) i(1) list_all2_lengthD [OF assms(1)] by (auto simp: itemEffect_def)
  ultimately show ?thesis by blast
qed

lemma restoreItems_set:
  "distinct (map rc_Key (restoreItems kv sel desired))"
  "set (restoreItems kv sel desired) = {item. \<exists>k d. fmlookup desired k = Some d \<and> (sel = [] \<or> k \<in> set sel) \<and> restoreItem kv k d = Some item}"
  unfolding restoreItems_def
  using map_filter_fmentries [of "\<lambda>(k, d). restoreItem kv k d" "\<lambda>(k, d). sel = [] \<or> k \<in> set sel" desired]
  by (simp_all add: restoreItem_fields)

text \<open>A key of the backup that the preview left out read as the backup says already.\<close>

lemma unlisted_reads:
  assumes "readBackup (unix (kv_now kv)) fmempty entries = Inr desired0" "desired = (if dm then addMissing kv desired0 else desired0)"
    and "u \<in> set entries" "sel = [] \<or> u_Key u \<in> set sel" "u_Key u \<notin> rc_Key ` set (restoreItems kv sel desired)"
  shows "Get kv (u_Key u) = backupReads (unix (kv_now kv)) entries (u_Key u)"
proof -
  have "find (\<lambda>v. u_Key v = u_Key u) entries \<noteq> None"
    using assms(3) by (auto simp: find_None_iff)
  then obtain d where d: "fmlookup desired (u_Key u) = Some d"
    using readBackup_lookup [OF assms(1), of "u_Key u"] by (auto simp: assms(2) addMissing_lookup)
  have "restoreItem kv (u_Key u) d = None"
  proof (cases "restoreItem kv (u_Key u) d")
    case (Some item)
    then have "item \<in> set (restoreItems kv sel desired)" "rc_Key item = u_Key u"
      using d assms(4) restoreItem_fields(1) [OF Some] by (auto simp: restoreItems_set(2))
    then show ?thesis using assms(5) by (metis image_eqI)
  qed
  then show ?thesis
    using restoreItem_idle [of kv "u_Key u" d] desired_backup [OF assms(1,2) d] by simp
qed

text \<open>
  C31.  A restore gives back the backup.  After a restore of selected keys of a preview of a backup, with no write in between: each selected key has an
  outcome, and if it was rewritten a reader sees under it exactly what the backup holds (nothing for a key the backup
  deletes, lacks, or whose entry has expired); every key that was not selected is as it was; and any key of the backup
  within the preview's scope that the preview does not list read that way already.
\<close>

theorem restore_reads_backup:
  assumes "PreviewRestore uuid (Some backup) sel dm acc s = (s1, Inr page)" "xf_Entries backup = Some entries"
    and "ApplyRestore ex1 ex2 uuid keys s1 = (s2, Inr rep)"
  shows "(\<forall>k \<in> set keys. \<exists>oc \<in> set (rr_Keys rep). ro_Key oc = k \<and> (ro_Status oc = RepairRewritten \<longrightarrow>
        Get (nodeStore (rs_node s2)) k = backupReads (unix (nodeNow (rs_node s))) entries k))
    \<and> (\<forall>k. k \<notin> set keys \<longrightarrow> fmlookup (kv_store (nodeStore (rs_node s2))) k = fmlookup (kv_store (nodeStore (rs_node s))) k)
    \<and> (\<forall>u \<in> set entries. (sel = [] \<or> u_Key u \<in> set sel) \<and> u_Key u \<notin> rc_Key ` set (pl_Items (the (fmlookup (rs_plans s1) uuid))) \<longrightarrow>
         Get (nodeStore (rs_node s)) (u_Key u) = backupReads (unix (nodeNow (rs_node s))) entries (u_Key u))"
proof -
  let ?n = "rs_node s" and ?now = "unix (nodeNow (rs_node s))"
  obtain desired0 p where pr: "readBackup ?now fmempty entries = Inr desired0" "fmlookup (rs_plans s1) uuid = Some p" "rs_node s1 = ?n"
      "pl_Items p = restoreItems (nodeStore ?n) sel (if dm then addMissing (nodeStore ?n) desired0 else desired0)"
    by (rule PreviewRestore_plan [OF assms(1,2)])
  define desired where "desired = (if dm then addMissing (nodeStore ?n) desired0 else desired0)"
  have items: "pl_Items p = restoreItems (nodeStore ?n) sel desired"
    by (simp add: pr(4) desired_def)
  have dist: "distinct (map rc_Key (pl_Items p))"
    by (simp add: items restoreItems_set(1))
  let ?chosen = "filter (\<lambda>item. rc_Key item \<in> set keys) (pl_Items p)"
  let ?plan = "p\<lparr>pl_Items := ?chosen, pl_Total := int (length ?chosen), pl_Next := - 1\<rparr>"
  obtain n1 where a: "ApplyRepairPlan ex1 ex2 ?plan ?n = (n1, rep)" "s2 = s1\<lparr>rs_node := n1\<rparr>" "set keys \<subseteq> rc_Key ` set (pl_Items p)"
    using assms(3) by (auto simp: ApplyRestore_def pr(2,3) choose_items [OF dist] split: if_splits prod.splits)
  have dc: "distinct (map rc_Key (pl_Items ?plan))"
    using dist by (simp add: distinct_map_filter)
  obtain flr where eff: "list_all2 (itemEffect flr (GetNodes (nd_Model ?n)) (kv_store (nodeStore ?n)) (kv_store (nodeStore n1)) (nd_outbox n1)) ?chosen (rr_Keys rep)"
      and other: "\<And>k. k \<notin> rc_Key ` set ?chosen \<Longrightarrow> fmlookup (kv_store (nodeStore n1)) k = fmlookup (kv_store (nodeStore ?n)) k"
    using repair_effects [OF a(1) dc] by auto
  have now: "nodeNow n1 = nodeNow ?n"
    using ApplyRepairPlan_handled [OF a(1)] by simp
  have "\<exists>oc \<in> set (rr_Keys rep). ro_Key oc = k \<and> (ro_Status oc = RepairRewritten \<longrightarrow> Get (nodeStore n1) k = backupReads ?now entries k)"
    if k: "k \<in> set keys" for k
  proof -
    have "k \<in> rc_Key ` set (pl_Items p)"
      using a(3) k by blast
    then obtain item where item: "item \<in> set ?chosen" "rc_Key item = k" "item \<in> set (pl_Items p)"
      using k by auto
    then obtain d where d: "fmlookup desired k = Some d" "rc_Desired item = Some d"
      unfolding items restoreItems_set(2) by (auto dest: restoreItem_fields)
    then show ?thesis
      using restored_key [OF eff item(1,2) d(2)] desired_backup [OF pr(1) desired_def d(1)] now by simp
  qed
  moreover have "Get (nodeStore ?n) (u_Key u) = backupReads ?now entries (u_Key u)"
    if "u \<in> set entries" "sel = [] \<or> u_Key u \<in> set sel" "u_Key u \<notin> rc_Key ` set (pl_Items p)" for u
    using unlisted_reads [OF pr(1) desired_def that(1,2)] that(3) by (simp add: items)
  moreover have "fmlookup (kv_store (nodeStore n1)) k = fmlookup (kv_store (nodeStore ?n)) k" if "k \<notin> set keys" for k
    using other [of k] that by auto
  ultimately show ?thesis
    using a(2) pr(2) by simp
qed

section \<open>An instance\<close>

text \<open>A node that holds a key repairs it towards a peer that holds nothing.\<close>

definition demo_source :: Node where
  "demo_source = demo_node\<lparr>nd_Model := demo_model\<lparr>md_Store := demo_store, md_Nodes := {|''h:2''|}\<rparr>\<rparr>"

definition demo_answer :: FingerprintReply where
  "demo_answer = fingerprintResponse (\<lambda>_. 5) \<lparr>fp_DigestVersion = 2, fp_From = '':1'', fp_Buckets = []\<rparr> demo_node"

definition demo_exchange2 :: exchange where
  "demo_exchange2 = \<lparr>ex_hmac = demo_hmac, ex_sha = (\<lambda>_. 5), ex_mar = (\<lambda>_. []), ex_unmReply = (\<lambda>_. Some demo_answer),
     ex_conn = (\<lambda>_ _. Inr (demo_reply_frame 1))\<rparr>"

definition demo_plan :: RepairPlan where
  "demo_plan = zero_RepairPlan\<lparr>pl_ID := ''p'', pl_From := '':1'', pl_NodeID := ''n1'', pl_Total := 1, pl_Next := - 1,
     pl_Items := [\<lparr>rc_Desired = None, rc_Change = '''', rc_Key = ''k'', rc_Current = Some (entryUpdate ''k'' (the (fmlookup (kv_store demo_store) ''k'')))\<rparr>]\<rparr>"

lemma demo_source_fields [simp]: "nodeStore demo_source = demo_store" "GetNodes (nd_Model demo_source) = [''h:2'']"
  "md_NodeID (nd_Model demo_source) = ''n1''" "advertised demo_source = '':1''" "nd_codec demo_source = NewCodec demo_hmac ''s'' ''c''"
  by (simp_all add: demo_source_def demo_node_def New_def demo_model_def demo_cfg_def GetNodes_def)

lemma demo_plan_fields [simp]: "pl_Items demo_plan = [\<lparr>rc_Desired = None, rc_Change = '''', rc_Key = ''k'', rc_Current = Some (entryUpdate ''k''
    \<lparr>e_Value = ''v'', e_Version = Version 1 ''n1'', e_Deleted = False, e_ExpiresAt = 0, e_DeletedAt = 0\<rparr>)\<rparr>]"
  "pl_From demo_plan = '':1''" "pl_NodeID demo_plan = ''n1''"
  by (simp_all add: demo_plan_def)

lemma fingerprintPeer_reached:
  assumes "askPeer ex addr (digestRequest n) n = (n1, Inr reply)" "fr_DigestVersion reply = 2"
  shows "pk_Reachable (snd (fingerprintPeer ex local addr n)) \<and> pk_Clock (snd (fingerprintPeer ex local addr n)) = fr_Clock reply"
  using assms by (auto simp: fingerprintPeer_def digestRequest_def Let_def split: prod.split)

lemma demo_peer_line:
  obtains r where "rp_Peers (snd (CheckConsistency demo_exchange2 demo_source)) = [r]" "pk_Reachable r" "pk_Clock r = 0" "pk_Addr r = ''h:2''"
proof -
  obtain c where c: "Decode demo_hmac (NewCodec demo_hmac ''s'' ''c'') (5 * second) (demo_reply_frame 1) = (c, Inr (KindFingerprintReply, [1]))"
    using demo_reply_decodes [of "NewCodec demo_hmac ''s'' ''c''" 1 "5 * second"]
    by (cases "Decode demo_hmac (NewCodec demo_hmac ''s'' ''c'') (5 * second) (demo_reply_frame 1)") (simp add: NewCodec_seen second_def)
  have "ex_conn demo_exchange2 ''h:2'' (digestRequest demo_source) = Inr (demo_reply_frame 1)"
    by (simp add: demo_exchange2_def)
  from askPeer_gets [OF this, of demo_source c "[1]" demo_answer] c
  obtain n1 where n1: "askPeer demo_exchange2 ''h:2'' (digestRequest demo_source) demo_source = (n1, Inr demo_answer)"
    by (auto simp: demo_exchange2_def)
  let ?local = "FingerprintVersion (\<lambda>_. 5) demo_store (int FingerprintBuckets) 2"
  obtain n2 r where r: "fingerprintPeer demo_exchange2 ?local ''h:2'' demo_source = (n2, r)" by force
  have "fr_DigestVersion demo_answer = 2" "fr_Clock demo_answer = 0"
    by (simp_all add: demo_answer_def demo_node_def New_def demo_model_def SetOnMutate_def SetLimits_def NewKVStore_def)
  then have "pk_Reachable r" "pk_Clock r = 0"
    using fingerprintPeer_reached [OF n1, of ?local] r by simp_all
  moreover have "rp_Peers (snd (CheckConsistency demo_exchange2 demo_source)) = [r]"
    using r by (simp add: CheckConsistency_def Let_def demo_exchange2_def addResult_def)
  moreover have "pk_Addr r = ''h:2''"
    using fingerprintPeer_addr [of demo_exchange2 ?local "''h:2''" demo_source] r by simp
  ultimately show thesis
    using that by blast
qed

lemma demo_repair:
  obtains n' rep where "ApplyRepairPlan demo_exchange2 demo_exchange2 demo_plan demo_source = (n', rep)" "ro_Status (rr_Keys rep ! 0) = RepairRewritten"
proof -
  obtain r where r: "rp_Peers (snd (CheckConsistency demo_exchange2 demo_source)) = [r]" "pk_Reachable r" "pk_Clock r = 0"
    by (rule demo_peer_line)
  obtain n0 before where b: "CheckConsistency demo_exchange2 demo_source = (n0, before)" by force
  have fl: "repairFloor before = 1"
    using r consistency_clock [of demo_exchange2 demo_source] by (simp add: b repairFloor_def)
  have n0: "nd_Model n0 = nd_Model demo_source" "nd_cfg n0 = nd_cfg demo_source"
    using CheckConsistency_frame [of demo_exchange2 demo_source] by (simp_all add: b)
  let ?item = "hd (pl_Items demo_plan)"
  obtain n1 rep1 where f: "repairItem demo_plan 1 (n0, zero_RepairReport '':1'') ?item = (n1, rep1)" by force
  have "mutateRefusal demo_store ''k'' ''v'' False (repairOptions 1 ?item) = None"
    by (simp add: mutateRefusal_def representable_def matchesUpdate_def entryUpdate_def repairOptions_def desiredOf_def currentOf_def
        zero_WriteOptions_def admitLocked_def nextClock_def Let_def) (simp add: eval_store)
  then obtain u where "snd (snd (mutate demo_store ''k'' ''v'' False (repairOptions 1 ?item))) = Inr u"
    by (simp add: mutate_result)
  then have st: "ro_Status (rr_Keys rep1 ! 0) = RepairRewritten"
    using f by (auto simp: repairItem_def n0 currentOf_def desiredOf_def entryUpdate_def Write_def withStore_def Let_def outcome_def
        zero_RepairReport_def split: prod.splits)
  obtain n2 after where a: "CheckConsistency demo_exchange2 n1 = (n2, after)" by force
  have "\<exists>n' rep. ApplyRepairPlan demo_exchange2 demo_exchange2 demo_plan demo_source = (n', rep) \<and> rr_Keys rep = rr_Keys rep1"
    using f by (simp add: ApplyRepairPlan_def b fl a Let_def)
  then show thesis
    using st that by metis
qed

theorem repair_plan_effect_witness:
  "\<exists>n' rep. ApplyRepairPlan demo_exchange2 demo_exchange2 demo_plan demo_source = (n', rep) \<and> handled rep = 1"
proof -
  obtain n' rep where a: "ApplyRepairPlan demo_exchange2 demo_exchange2 demo_plan demo_source = (n', rep)" by force
  then show ?thesis
    using repair_plan_effect [OF a] by simp
qed

theorem repair_wins_witness:
  "\<exists>n' rep. ApplyRepairPlan demo_exchange2 demo_exchange2 demo_plan demo_source = (n', rep)
     \<and> (\<exists>u. (''h:2'', MsgKV u) \<in> set (nd_outbox n') \<and> u_Key u = ''k'')"
proof -
  obtain n' rep where a: "ApplyRepairPlan demo_exchange2 demo_exchange2 demo_plan demo_source = (n', rep)" "ro_Status (rr_Keys rep ! 0) = RepairRewritten"
    by (rule demo_repair)
  obtain r where r: "rp_Peers (snd (CheckConsistency demo_exchange2 demo_source)) = [r]" "pk_Reachable r" "pk_Clock r = 0" "pk_Addr r = ''h:2''"
    by (rule demo_peer_line)
  have "kv_wf (NewKVStore ''n2'' 0)" "kv_clock (NewKVStore ''n2'' 0) = 0"
    by (simp_all add: NewKVStore_wf) (simp add: NewKVStore_def)
  then show ?thesis
    using repair_wins [OF a(1) _ _ a(2), of r "NewKVStore ''n2'' 0"] a(1) r by auto
qed

definition demo_backup :: ExportFile where
  "demo_backup = \<lparr>xf_Node = '':1'', xf_Cluster = ''c'', xf_ExportedAt = 0, xf_Entries = Some [entryUpdate ''k''
     \<lparr>e_Value = ''w'', e_Version = Version 1 ''n1'', e_Deleted = False, e_ExpiresAt = 0, e_DeletedAt = 0\<rparr>]\<rparr>"

definition demo_state :: repairState where
  "demo_state = \<lparr>rs_node = demo_source, rs_plans = fmempty\<rparr>"

theorem restore_reads_backup_witness:
  "\<exists>s1 page s2 rep. PreviewRestore ''p'' (Some demo_backup) [] False False demo_state = (s1, Inr page)
     \<and> ApplyRestore demo_exchange2 demo_exchange2 ''p'' [''k''] s1 = (s2, Inr rep) \<and> (\<exists>oc \<in> set (rr_Keys rep). ro_Key oc = ''k'')"
proof -
  let ?d = "entryUpdate ''k'' \<lparr>e_Value = ''w'', e_Version = Version 1 ''n1'', e_Deleted = False, e_ExpiresAt = 0, e_DeletedAt = 0\<rparr>"
  have cl: "nc_Cluster (nd_cfg demo_source) = ''c''"
    by (simp add: demo_source_def demo_node_def New_def demo_cfg_def)
  have items: "\<exists>item. restoreItems demo_store [] (fmupd ''k'' ?d fmempty) = [item] \<and> rc_Key item = ''k''"
    by (simp add: restoreItems_def fmentries_def fmkeys_def restoreItem_def entryUpdate_def Let_def List.map_filter_def)
  obtain s1 page where p: "PreviewRestore ''p'' (Some demo_backup) [] False False demo_state = (s1, Inr page)"
    by (simp add: PreviewRestore_def demo_backup_def demo_state_def cl entryUpdate_def expiredEntry_def cachePlan_def Let_def)
  obtain q where q: "fmlookup (rs_plans s1) ''p'' = Some q" "rs_node s1 = demo_source" "pl_Kind q = ''restore''" "planFresh (nodeNow demo_source) q"
      "\<exists>item. pl_Items q = [item] \<and> rc_Key item = ''k''"
    using p items by (auto simp: PreviewRestore_def demo_backup_def demo_state_def cl entryUpdate_def expiredEntry_def cachePlan_def Let_def
        planFresh_def zero_RepairPlan_def)
  obtain item where item: "pl_Items q = [item]" "rc_Key item = ''k''"
    using q(5) by blast
  obtain n1 rep where a: "ApplyRepairPlan demo_exchange2 demo_exchange2 (q\<lparr>pl_Items := [item], pl_Total := 1, pl_Next := - 1\<rparr>) demo_source = (n1, rep)"
    by force
  have r: "ApplyRestore demo_exchange2 demo_exchange2 ''p'' [''k''] s1 = (s1\<lparr>rs_node := n1\<rparr>, Inr rep)"
    using q(1-4) item a by (simp add: ApplyRestore_def Let_def)
  have "xf_Entries demo_backup = Some [?d]"
    by (simp add: demo_backup_def)
  from restore_reads_backup [OF p this r] show ?thesis
    using p r by auto
qed

end
