(* ===== verification/Cluster.thy ===== *)
theory Cluster
  imports Replication
begin

text \<open>
  A cluster of stores.  Every node runs the store of \<open>KVStore\<close>; what they exchange are updates:
  those local writes broadcast, and those any node builds from an entry it holds (a digest push, a
  pull reply, a state sync).  A step is a local write, the delivery of any update sent so far to
  any node (so the network may lose, repeat and reorder), a node sending what it holds, a sweep, a
  clock movement up to the horizon \<open>t\<close>, or a restart from the saved state.  Tombstone collection
  is left out: the code documents that it can bring a deleted key back.

  \<open>c_got\<close> is bookkeeping: which updates reached each node.
\<close>

record cluster =
  c_nodes :: "string \<Rightarrow> kvStore"
  c_sent :: "KVUpdate set"
  c_got :: "string \<Rightarrow> KVUpdate set"

text \<open>Which of its callbacks (\<open>SetOnChange\<close>, \<open>SetOnMutate\<close>) a store has registered.\<close>

definition hooked :: "bool \<times> bool \<Rightarrow> kvStore \<Rightarrow> kvStore" where
  "hooked b kv = kv\<lparr>kv_onChange := fst b, kv_onMutate := snd b\<rparr>"

inductive cluster_step :: "nanos \<Rightarrow> cluster \<Rightarrow> cluster \<Rightarrow> bool" for t where
  cl_write: "mutate (c_nodes c n) k v rm opt = (kv', eff, Inr u) \<Longrightarrow>
     cluster_step t c (c\<lparr>c_nodes := (c_nodes c)(n := kv'), c_sent := insert u (c_sent c),
        c_got := (c_got c)(n := insert u (c_got c n))\<rparr>)"
| cl_deliver: "u \<in> c_sent c \<Longrightarrow>
     cluster_step t c (c\<lparr>c_nodes := (c_nodes c)(n := fst (ApplyWithReason (c_nodes c n) u)),
        c_got := (c_got c)(n := insert u (c_got c n))\<rparr>)"
| cl_relay: "fmlookup (kv_store (c_nodes c n)) k = Some e \<Longrightarrow>
     cluster_step t c (c\<lparr>c_sent := insert (entryUpdate k e) (c_sent c)\<rparr>)"
| cl_sweep: "cluster_step t c (c\<lparr>c_nodes := (c_nodes c)(n := fst (SweepExpired (c_nodes c n)))\<rparr>)"
| cl_time: "s \<le> t \<Longrightarrow>
     cluster_step t c (c\<lparr>c_nodes := (c_nodes c)(n := SetClock s (c_nodes c n))\<rparr>)"
| cl_restart: "s \<le> t \<Longrightarrow>
     cluster_step t c (c\<lparr>c_nodes := (c_nodes c)(n := hooked b (LoadState (State (c_nodes c n)) (NewKVStore n s)))\<rparr>)"

definition cluster_init :: "bool \<times> bool \<Rightarrow> (string \<Rightarrow> nanos) \<Rightarrow> cluster" where
  "cluster_init b now = \<lparr>c_nodes = (\<lambda>n. hooked b (NewKVStore n (now n))), c_sent = {}, c_got = (\<lambda>_. {})\<rparr>"

inductive cluster_reachable :: "nanos \<Rightarrow> cluster \<Rightarrow> bool" for t where
  cl_init: "(\<And>n. now n \<le> t) \<Longrightarrow> cluster_reachable t (cluster_init b now)"
| cl_step: "cluster_reachable t c \<Longrightarrow> cluster_step t c c' \<Longrightarrow> cluster_reachable t c'"

section \<open>The invariant\<close>

definition update_views :: "nanos \<Rightarrow> KVUpdate set \<Rightarrow> (string \<times> view) set" where
  "update_views t U = (\<lambda>u. (u_Key u, update_view t u)) ` U"

text \<open>What holds of one node on its own.\<close>

definition node_inv :: "nanos \<Rightarrow> string \<Rightarrow> kvStore \<Rightarrow> bool" where
  "node_inv t n kv \<longleftrightarrow> replica_inv t kv \<and> kv_wf kv \<and> kv_node kv = n
     \<and> fmpred (\<lambda>k e. holdable (entryUpdate k e)) (kv_store kv)"

definition cluster_inv :: "nanos \<Rightarrow> cluster \<Rightarrow> bool" where
  "cluster_inv t c \<longleftrightarrow>
     (\<forall>n. node_inv t n (c_nodes c n))
     \<and> (\<forall>n. holds_newest fst (update_views t (c_got c n)) (kv_view t (c_nodes c n)))
     \<and> (\<forall>n. update_views t (c_got c n) \<subseteq> update_views t (c_sent c))
     \<and> (\<forall>u\<in>c_sent c. holdable u \<and> Counter (u_Version u) \<le> kv_clock (c_nodes c (Node (u_Version u))))
     \<and> version_consistent fst (update_views t (c_sent c))"

lemma update_views_insert [simp]:
  "update_views t (insert u U) = insert (u_Key u, update_view t u) (update_views t U)"
  by (simp add: update_views_def)

lemma update_views_empty [simp]: "update_views t {} = {}"
  by (simp add: update_views_def)

section \<open>Steps of one node\<close>

lemma hooked_simps [simp]: "kv_node (hooked b kv) = kv_node kv" "kv_clock (hooked b kv) = kv_clock kv"
  "kv_store (hooked b kv) = kv_store kv" "kv_history (hooked b kv) = kv_history kv"
  "kv_limits (hooked b kv) = kv_limits kv" "kv_now (hooked b kv) = kv_now kv"
  by (simp_all add: hooked_def)

lemma hooked_view [simp]: "kv_view t (hooked b kv) = kv_view t kv"
  by (rule kv_view_cong) simp

lemma node_inv_hooked [simp]: "node_inv t n (hooked b kv) = node_inv t n kv"
  by (simp add: node_inv_def replica_inv_def unlimited_def kv_wf_def)

lemma node_inv_mutate:
  assumes "node_inv t n kv" "mutate kv k v rm opt = (kv', eff, Inr u)"
  shows "node_inv t n kv'" "kv_view t kv' = lww_join fst (kv_view t kv) (k, update_view t u)"
    "holdable u" "u_Key u = k" "Node (u_Version u) = n" "kv_clock kv < Counter (u_Version u)"
    "kv_clock kv' = Counter (u_Version u)"
proof -
  note ok = mutate_InrD [OF assms(2)]
  have inv: "replica_inv t kv" "kv_wf kv" "kv_node kv = n"
      "fmpred (\<lambda>k e. holdable (entryUpdate k e)) (kv_store kv)"
    using assms(1) by (auto simp: node_inv_def)
  have h: "holdable (entryUpdate k (mutateEntry kv v rm opt))"
    using inv(1) ok(1) by (simp add: holdable_mutateEntry replica_inv_def)
  then show "holdable u" "u_Key u = k" "Node (u_Version u) = n" "kv_clock kv' = Counter (u_Version u)"
    using ok inv by auto
  show "kv_clock kv < Counter (u_Version u)"
    using word_less_inc [OF mutateRefusal_NoneD(1) [OF ok(1)] nextClock_ge(1)] ok(9) by simp
  have "kv_wf kv'"
    using mutate_wf [OF inv(2), of k v rm opt] assms(2) by simp
  then show "node_inv t n kv'"
    using inv ok h by (auto simp: node_inv_def replica_inv_def unlimited_def intro: fmpred_upd)
  have "e_Version e < u_Version u" if "fmlookup (kv_store kv) k = Some e" for e
    using mutate_version_dominates [OF inv(2) ok(1) that] ok(9) by simp
  then show "kv_view t kv' = lww_join fst (kv_view t kv) (k, update_view t u)"
    using ok(2,9) by (auto simp: fun_eq_iff kv_view_def lww_join_apply split: option.split)
qed

lemma node_inv_Apply:
  assumes "node_inv t n kv" "holdable u"
  shows "node_inv t n (fst (ApplyWithReason kv u))"
    "kv_view t (fst (ApplyWithReason kv u)) = lww_join fst (kv_view t kv) (u_Key u, update_view t u)"
    "kv_clock kv \<le> kv_clock (fst (ApplyWithReason kv u))"
proof -
  have inv: "replica_inv t kv" "kv_wf kv" "kv_node kv = n"
      "fmpred (\<lambda>k e. holdable (entryUpdate k e)) (kv_store kv)"
    using assms(1) by (auto simp: node_inv_def)
  have "replica_inv t (fst (ApplyWithReason kv u))"
    using kvr.step_inv [OF inv(1), of "CmdApply u"] by simp
  then show "node_inv t n (fst (ApplyWithReason kv u))"
    using inv ApplyWithReason_wf [OF inv(2)] holdable_applyEntry [OF assms(2)]
    by (auto simp: node_inv_def ApplyWithReason_store intro: fmpred_upd)
  show "kv_view t (fst (ApplyWithReason kv u)) = lww_join fst (kv_view t kv) (u_Key u, update_view t u)"
    using inv(1) assms(2) by (simp add: kv_view_Apply replica_inv_def)
  show "kv_clock kv \<le> kv_clock (fst (ApplyWithReason kv u))"
    by (simp add: ApplyWithReason_clock)
qed

lemma node_inv_Sweep:
  assumes "node_inv t n kv"
  shows "node_inv t n (fst (SweepExpired kv))" "kv_view t (fst (SweepExpired kv)) = kv_view t kv"
proof -
  have inv: "replica_inv t kv" "kv_wf kv" "kv_node kv = n"
      "fmpred (\<lambda>k e. holdable (entryUpdate k e)) (kv_store kv)"
    using assms(1) by (auto simp: node_inv_def)
  have "replica_inv t (fst (SweepExpired kv))"
    using kvr.step_inv [OF inv(1), of CmdSweep] by simp
  then show "node_inv t n (fst (SweepExpired kv))"
    using inv SweepExpired_wf [OF inv(2)]
    by (auto simp: node_inv_def SweepExpired_store fmpred_iff holdable_sweepEntry)
  show "kv_view t (fst (SweepExpired kv)) = kv_view t kv"
    using inv(1) by (simp add: kv_view_Sweep replica_inv_def)
qed

lemma node_inv_SetClock: "node_inv t n kv \<Longrightarrow> s \<le> t \<Longrightarrow> node_inv t n (SetClock s kv)"
  by (auto simp: node_inv_def replica_inv_def unlimited_def SetClock_wf) (auto simp: SetClock_def)

lemma node_inv_restart:
  assumes "node_inv t n kv" "s \<le> t"
  shows "node_inv t n (LoadState (State kv) (NewKVStore n s))"
    "kv_view t (LoadState (State kv) (NewKVStore n s)) = kv_view t kv"
    "kv_clock (LoadState (State kv) (NewKVStore n s)) = kv_clock kv"
proof -
  show "node_inv t n (LoadState (State kv) (NewKVStore n s))"
    using assms LoadState_State_wf [of kv n s]
    by (auto simp: node_inv_def replica_inv_def unlimited_def)
      (auto simp: LoadState_def State_def NewKVStore_def)
  show "kv_view t (LoadState (State kv) (NewKVStore n s)) = kv_view t kv"
    by (rule kv_view_cong) (simp add: LoadState_def State_def)
  show "kv_clock (LoadState (State kv) (NewKVStore n s)) = kv_clock kv"
    by (simp add: LoadState_def State_def)
qed

section \<open>The invariant is kept\<close>

lemma cluster_invD:
  assumes "cluster_inv t c"
  shows "node_inv t n (c_nodes c n)"
    "holds_newest fst (update_views t (c_got c n)) (kv_view t (c_nodes c n))"
    "update_views t (c_got c n) \<subseteq> update_views t (c_sent c)"
    "u \<in> c_sent c \<Longrightarrow> holdable u"
    "u \<in> c_sent c \<Longrightarrow> Counter (u_Version u) \<le> kv_clock (c_nodes c (Node (u_Version u)))"
    "version_consistent fst (update_views t (c_sent c))"
  using assms by (auto simp: cluster_inv_def)

text \<open>A step that changes one node's store and not what it shows.\<close>

lemma cluster_inv_local:
  assumes "cluster_inv t c" "node_inv t n kv'" "kv_view t kv' = kv_view t (c_nodes c n)"
    and "kv_clock (c_nodes c n) \<le> kv_clock kv'"
  shows "cluster_inv t (c\<lparr>c_nodes := (c_nodes c)(n := kv')\<rparr>)"
  using assms by (auto simp: cluster_inv_def intro: order_trans)

text \<open>An update that joins one node's view, already sent or of a version nobody used before.\<close>

lemma version_consistent_insert_fresh:
  assumes "version_consistent fst (update_views t U)" "\<And>u'. u' \<in> U \<Longrightarrow> u_Version u' \<noteq> u_Version u"
  shows "version_consistent fst (update_views t (insert u U))"
proof -
  have "fst p \<noteq> u_Version u" if "(k, p) \<in> update_views t U" for k p
    using that assms(2) by (auto simp: update_views_def)
  from this [of "u_Key u"] show ?thesis
    using assms(1) unfolding version_consistent_def update_views_insert
    by (metis Pair_inject fst_update_view insertE)
qed

lemma version_consistent_insert_known:
  assumes "version_consistent fst (update_views t U)" "(k, entry_view t e) \<in> update_views t U"
  shows "version_consistent fst (update_views t (insert (entryUpdate k e) U))"
  using assms by (simp add: insert_absorb)

lemma cluster_inv_write:
  assumes "cluster_inv t c" "mutate (c_nodes c n) k v rm opt = (kv', eff, Inr u)"
  shows "cluster_inv t (c\<lparr>c_nodes := (c_nodes c)(n := kv'), c_sent := insert u (c_sent c),
     c_got := (c_got c)(n := insert u (c_got c n))\<rparr>)"
proof -
  note inv = cluster_invD [OF assms(1)]
  note w = node_inv_mutate [OF inv(1) assms(2)]
  have fresh: "u_Version u' \<noteq> u_Version u" if "u' \<in> c_sent c" for u'
    using inv(5) [OF that] w(5,6) by auto
  have cons: "version_consistent fst (update_views t (insert u (c_sent c)))"
    by (rule version_consistent_insert_fresh [OF inv(6) fresh])
  have clk: "Counter (u_Version u') \<le> kv_clock (((c_nodes c)(n := kv')) (Node (u_Version u')))"
    if "u' \<in> insert u (c_sent c)" for u'
    using that inv(5) [of u'] w(5-7) by (auto intro: order_trans less_imp_le)
  have view: "holds_newest fst (update_views t (insert u (c_got c n))) (kv_view t kv')"
    using holds_newest_join [OF inv(2)] w(2,4) by simp
  show ?thesis
    using assms(1) w(1,3) cons clk view by (auto simp: cluster_inv_def)
qed

lemma cluster_inv_deliver:
  assumes "cluster_inv t c" "u \<in> c_sent c"
  shows "cluster_inv t (c\<lparr>c_nodes := (c_nodes c)(n := fst (ApplyWithReason (c_nodes c n) u)),
     c_got := (c_got c)(n := insert u (c_got c n))\<rparr>)"
proof -
  note inv = cluster_invD [OF assms(1)]
  note d = node_inv_Apply [OF inv(1) inv(4) [OF assms(2)]]
  have view: "holds_newest fst (update_views t (insert u (c_got c n)))
      (kv_view t (fst (ApplyWithReason (c_nodes c n) u)))"
    using holds_newest_join [OF inv(2)] d(2) by simp
  have sent: "update_views t (insert u (c_got c n)) \<subseteq> update_views t (c_sent c)"
    using inv(3) assms(2) by (auto simp: update_views_def)
  have clk: "Counter (u_Version u') \<le>
      kv_clock (((c_nodes c)(n := fst (ApplyWithReason (c_nodes c n) u))) (Node (u_Version u')))"
    if "u' \<in> c_sent c" for u'
    using inv(5) [OF that] d(3) by (auto intro: order_trans)
  show ?thesis
    using assms(1) d(1) view sent clk by (auto simp: cluster_inv_def)
qed

lemma cluster_inv_relay:
  assumes "cluster_inv t c" "fmlookup (kv_store (c_nodes c n)) k = Some e"
  shows "cluster_inv t (c\<lparr>c_sent := insert (entryUpdate k e) (c_sent c)\<rparr>)"
proof -
  note inv = cluster_invD [OF assms(1)]
  have "kv_view t (c_nodes c n) k = Some (entry_view t e)"
    using assms(2) by (simp add: kv_view_def)
  then have known: "(k, entry_view t e) \<in> update_views t (c_sent c)"
    using holds_newestD(1) [OF inv(2) [of n]] inv(3) [of n] by (meson newest_def subsetD)
  then obtain u where u: "u \<in> c_sent c" "u_Version u = e_Version e"
    by (auto simp: update_views_def entry_view_def update_view_def)
  have h: "holdable (entryUpdate k e)"
    using inv(1) [of n] assms(2) by (auto simp: node_inv_def fmpred_iff)
  show ?thesis
    using assms(1) known u h by (auto simp: cluster_inv_def insert_absorb)
qed

lemma cluster_inv_step:
  assumes "cluster_step t c c'" "cluster_inv t c"
  shows "cluster_inv t c'"
  using assms
proof (cases rule: cluster_step.cases)
  case (cl_sweep n)
  then show ?thesis
    using assms(2) node_inv_Sweep [OF cluster_invD(1) [OF assms(2)], of n]
    by (auto intro: cluster_inv_local)
next
  case (cl_time s n)
  then show ?thesis
    using assms(2) node_inv_SetClock [OF cluster_invD(1) [OF assms(2)], of s n]
    by (auto intro!: cluster_inv_local) (simp add: SetClock_def)
next
  case (cl_restart s n b)
  then show ?thesis
    using assms(2) node_inv_restart [OF cluster_invD(1) [OF assms(2)], of s n]
    by (auto intro: cluster_inv_local)
qed (auto intro: cluster_inv_write cluster_inv_deliver cluster_inv_relay)

lemma cluster_reachable_inv: "cluster_reachable t c \<Longrightarrow> cluster_inv t c"
proof (induction rule: cluster_reachable.induct)
  case (cl_init now b)
  have "node_inv t n (NewKVStore n (now n))" for n
    using cl_init NewKVStore_wf
    by (simp add: node_inv_def replica_inv_def unlimited_def NewKVStore_wf)
      (simp add: NewKVStore_def)
  moreover have "kv_view t (NewKVStore n (now n)) = Map.empty" for n
    by (simp add: kv_view_def NewKVStore_def fun_eq_iff)
  ultimately show ?case
    by (simp add: cluster_inv_def cluster_init_def version_consistent_def)
qed (rule cluster_inv_step)

section \<open>Convergence of the cluster\<close>

lemma cluster_agree:
  assumes "cluster_reachable t c" "update_views t (c_got c a) = update_views t (c_got c b)"
  shows "Get (SetClock t (c_nodes c a)) k = Get (SetClock t (c_nodes c b)) k
    \<and> map_option e_Version (fmlookup (kv_store (c_nodes c a)) k) =
        map_option e_Version (fmlookup (kv_store (c_nodes c b)) k)"
proof -
  note inv = cluster_invD [OF cluster_reachable_inv [OF assms(1)]]
  have cons: "version_consistent fst (update_views t (c_got c a))"
    using version_consistent_mono [OF inv(6) inv(3)] .
  have view: "kv_view t (c_nodes c a) = kv_view t (c_nodes c b)"
    using holds_newest_unique [OF cons inv(2)] inv(2) [of b] assms(2) by simp
  have vers: "map_option e_Version (fmlookup (kv_store kv) k) = map_option fst (kv_view t kv k)" for kv
    by (simp add: kv_view_def option.map_comp comp_def)
  show ?thesis
    by (simp add: Get_kv_view view vers)
qed

text \<open>
  C4.  Cluster convergence.  In every state a cluster of unlimited stores can reach, under any
  loss, duplication and reordering, any sweeps, restarts that lose nothing the node held and clock settings up to \<open>t\<close>: two nodes
  that have received the same updates (as far as a reader at \<open>t\<close> can tell) answer every read at
  \<open>t\<close> alike and hold the same version of every key.
\<close>

theorem cluster_convergence:
  assumes "cluster_reachable t c"
    and "update_views t (c_got c a) = update_views t (c_got c b)"
  shows "Get (SetClock t (c_nodes c a)) k = Get (SetClock t (c_nodes c b)) k
    \<and> map_option e_Version (fmlookup (kv_store (c_nodes c a)) k) =
        map_option e_Version (fmlookup (kv_store (c_nodes c b)) k)"
  by (rule cluster_agree [OF assms])

text \<open>
  Why a restart keeps what the node held: a node that is restarted from a state saved before its last write, which the
  others may have received by then, gives the same version to its next write.
\<close>

lemma lossy_restart_reuses_version:
  assumes "mutate (NewKVStore n s) ''k'' ''v'' False zero_WriteOptions = (kv1, eff1, r1)"
    and "mutate (LoadState (State (NewKVStore n s)) (NewKVStore n s)) ''k'' ''w'' False zero_WriteOptions = (kv2, eff2, r2)"
  shows "\<exists>u1 u2. r1 = Inr u1 \<and> r2 = Inr u2 \<and> u_Version u1 = u_Version u2 \<and> u_Value u1 \<noteq> u_Value u2"
  using assms by (auto simp: eval_store State_def LoadState_def)

text \<open>A concrete run: one node writes, the update is delivered to another.\<close>

definition demo_c0 :: cluster where
  "demo_c0 = cluster_init (False, False) (\<lambda>_. 5 * second)"

definition demo_u :: KVUpdate where
  "demo_u = \<lparr>u_Action = KVSet, u_Key = ''k'', u_Value = ''v'', u_Version = Version 1 ''n1'',
     u_ExpiresAt = 0, u_DeletedAt = 0\<rparr>"

definition demo_c1 :: cluster where
  "demo_c1 = demo_c0\<lparr>c_nodes := (c_nodes demo_c0)(''n1'' := demo_store), c_sent := {demo_u},
     c_got := (\<lambda>_. {})(''n1'' := {demo_u})\<rparr>"

definition demo_c2 :: cluster where
  "demo_c2 = demo_c1\<lparr>c_nodes := (c_nodes demo_c1)(''n2'' := fst (ApplyWithReason (c_nodes demo_c1 ''n2'') demo_u)),
     c_got := (c_got demo_c1)(''n2'' := {demo_u})\<rparr>"

lemma demo_c2_reachable: "cluster_reachable (5 * second) demo_c2"
proof -
  have r0: "cluster_reachable (5 * second) demo_c0"
    unfolding demo_c0_def by (rule cl_init) simp
  obtain eff where "mutate (c_nodes demo_c0 ''n1'') ''k'' ''v'' False zero_WriteOptions = (demo_store, eff, Inr demo_u)"
    by (simp add: demo_c0_def cluster_init_def hooked_def eval_store demo_u_def)
  then have "cluster_step (5 * second) demo_c0 demo_c1"
    using cl_write [of demo_c0 "''n1''"] by (fastforce simp: demo_c1_def demo_c0_def cluster_init_def)
  then have r1: "cluster_reachable (5 * second) demo_c1"
    using r0 by (rule cl_step [rotated])
  have "cluster_step (5 * second) demo_c1 demo_c2"
    using cl_deliver [of demo_u demo_c1 _ "''n2''"] by (simp add: demo_c2_def demo_c1_def)
  then show ?thesis
    using r1 by (rule cl_step [rotated])
qed

theorem cluster_convergence_witness:
  "cluster_reachable (5 * second) demo_c2
   \<and> Get (SetClock (5 * second) (c_nodes demo_c2 ''n2'')) ''k'' = Some ''v''"
proof -
  have "Get (SetClock (5 * second) (c_nodes demo_c2 ''n1'')) ''k'' = Some ''v''"
    by (simp add: demo_c2_def demo_c1_def Get_def SetClock_def visible_def expired_def)
  moreover have "c_got demo_c2 ''n1'' = c_got demo_c2 ''n2''"
    by (simp add: demo_c2_def demo_c1_def)
  ultimately show ?thesis
    using cluster_convergence [OF demo_c2_reachable, of "''n1''" "''n2''" "''k''"] demo_c2_reachable
    by simp
qed

end
