(* ===== verification/Network.thy ===== *)
theory Network
  imports Repair Cluster
begin

text \<open>
  A network of engines.  Every node runs the engine; a packet is any frame whose updates, if it is accepted,
  are in a message some node has sent, so packets may be lost, repeated, reordered and redirected, and anything
  else may be forged.  Nodes write, remove, import (any entries as a seed, the network's own exports as a merge),
  repair and restore, check each other, restart from their saved state and move their clocks.  The network refines
  the cluster of stores of \<open>Cluster\<close>, so its convergence is the network's.

  Three things are left out because the program does not promise convergence under them: stores with limits (a full
  store refuses an update another one takes), tombstone collection (a collected key can come back, as the last
  lemma of this theory shows) and a restart that loses writes the node has already sent (its next write can reuse
  their version: \<open>lossy_restart_reuses_version\<close>).
\<close>

section \<open>What a node has put on the wire\<close>

definition msgSet :: "message \<Rightarrow> KVUpdate set" where
  "msgSet msg = (case msgUpdates msg of Some us \<Rightarrow> set us | None \<Rightarrow> {})"

definition outUpdates :: "Node \<Rightarrow> KVUpdate set" where
  "outUpdates n = (\<Union>x \<in> set (nd_outbox n). msgSet (snd x))"

definition handed :: "Node \<Rightarrow> KVUpdate set" where
  "handed n = outUpdates n \<union> (\<Union>x \<in> set (nd_bulk n). set (snd x))"

lemma msgSet_simps [simp]: "msgSet (MsgKV u) = {u}" "msgSet (MsgKVBatch us) = set us" "msgSet (MsgStateResponse r) = set (sr_KV r)"
  "msgUpdates msg = None \<Longrightarrow> msgSet msg = {}"
  by (simp_all add: msgSet_def)

lemma honest_held: "honest n msg \<Longrightarrow> msgSet msg \<subseteq> held (nodeStore n)"
  using Updates_held [of "nodeStore n"]
  by (cases msg) (auto simp: stateResponse_def Let_def dest!: in_set_takeD split: if_splits)

section \<open>Steps that leave the store alone\<close>

definition quiet_at :: "kvStore \<Rightarrow> KVUpdate set \<Rightarrow> Node \<Rightarrow> bool" where
  "quiet_at kv H n \<longleftrightarrow> nodeStore n = kv \<and> handed n \<subseteq> H \<union> held kv"

lemma model_step_store: "model_step m m' \<Longrightarrow> md_Store m' = md_Store m"
proof (induction rule: model_step.induct)
  case (ms_evict m now th)
  have "md_Store (fst (foldl (evictOne now th) x xs)) = md_Store (fst x)" for x xs
    by (induction xs arbitrary: x) (simp_all add: evictOne_def split_beta RemovePeer_def)
  then show ?case
    by (simp add: EvictStalePeers_def)
qed (simp_all add: AddPeer_def TouchPeer_def RemovePeer_def SetNick_def SetNodeID_def RecordPeerView_def AppendChat_def
    InsertChat_def PrependChat_def NextChatSeq_def SetOwnNick_def Let_def split: option.split)

interpretation quiet: engine_frame "quiet_at kv H" for kv H
proof
  show "quiet_at kv H (n\<lparr>nd_Model := m\<rparr>)" if "quiet_at kv H n" "model_step (nd_Model n) m" for n m
    using that model_step_store [of "nd_Model n" m] by (simp add: quiet_at_def handed_def outUpdates_def)
  show "quiet_at kv H (n\<lparr>nd_outbox := nd_outbox n @ [(a, msg)]\<rparr>)" if "quiet_at kv H n" "honest n msg" for n msg a
    using that honest_held [of n msg] by (auto simp: quiet_at_def handed_def outUpdates_def)
qed (auto simp: quiet_at_def handed_def outUpdates_def)

lemma quiet_self: "quiet_at (nodeStore n) (handed n) n"
  by (simp add: quiet_at_def)

section \<open>Packets\<close>

definition packetUpdates :: "(bytes \<Rightarrow> bytes \<Rightarrow> bytes) \<Rightarrow> (MessageKind \<Rightarrow> bytes \<Rightarrow> message option) \<Rightarrow> bytes \<Rightarrow> Node \<Rightarrow> KVUpdate list" where
  "packetUpdates hmac unm frame n = (case Decode hmac (nd_codec n) (nodeNow n) frame of
     (c, Inl err) \<Rightarrow> []
   | (c, Inr (kind, body)) \<Rightarrow> (case unm kind body of
       None \<Rightarrow> []
     | Some msg \<Rightarrow> (case msgUpdates msg of Some us \<Rightarrow> us | None \<Rightarrow> [])))"

definition wire :: "Node \<Rightarrow> (string \<times> message) list \<times> (string \<times> KVUpdate list) list" where
  "wire n = (nd_outbox n, nd_bulk n)"

lemma handed_wire: "wire n' = wire n \<Longrightarrow> handed n' = handed n"
  by (simp add: wire_def handed_def outUpdates_def)

lemma wire_simps [simp]: "wire (addCount c k n) = wire n" "wire (notify e n) = wire n" "wire (logActivity l n) = wire n"
  "wire (onModel f n) = wire n" "wire (fst (withStore g n)) = wire n" "wire (n\<lparr>nd_chatGaps := t\<rparr>) = wire n"
  by (simp_all add: wire_def addCount_def notify_def logActivity_def onModel_def withStore_def Let_def split_beta)

lemma applyRemote_effect: "nodeStore (fst (applyRemote u n)) = fst (ApplyWithReason (nodeStore n) u)"
  "wire (fst (applyRemote u n)) = wire n"
  using withStore_store(1) [of "\<lambda>kv. ApplyWithReason kv u" n]
  by (simp_all add: applyRemote_def Let_def split_beta split: option.split)

lemma fold_effect:
  assumes "\<And>x u. nodeStore (fst (f x u)) = fst (ApplyWithReason (nodeStore (fst x)) u)" "\<And>x u. wire (fst (f x u)) = wire (fst x)"
  shows "nodeStore (fst (foldl f x us)) = applyAll (nodeStore (fst x)) us" "wire (fst (foldl f x us)) = wire (fst x)"
  using assms by (induction us arbitrary: x) (simp_all add: applyAll_def)

lemma batchStep_effect: "nodeStore (fst (batchStep x u)) = fst (ApplyWithReason (nodeStore (fst x)) u)" "wire (fst (batchStep x u)) = wire (fst x)"
  using applyRemote_effect [of u "fst x"] by (simp_all add: batchStep_def split_beta)

lemma mergeUpdate_effect: "nodeStore (fst (mergeUpdate x u)) = fst (ApplyWithReason (nodeStore (fst x)) u)" "wire (fst (mergeUpdate x u)) = wire (fst x)"
  using withStore_store(1) [of "\<lambda>kv. ApplyWithReason kv u" "fst x"] by (simp_all add: mergeUpdate_def split_beta)

lemma update_dispatch:
  assumes "msgUpdates msg = Some us" "dispatchBody sha rnd msg n = Some n'"
  shows "nodeStore n' = applyAll (nodeStore n) us" "wire n' = wire n"
proof -
  note folds = fold_effect [of batchStep "(n, False)" us, OF batchStep_effect]
    fold_effect [of mergeUpdate "(addCount StateSyncIn 1 n, False)" us, OF mergeUpdate_effect]
  have "nodeStore n' = applyAll (nodeStore n) us \<and> wire n' = wire n"
    using assms folds applyRemote_effect
    by (cases msg) (auto simp: handleKV_def handleKVBatch_def handleStateResponse_def mergeState_def Let_def split_beta applyAll_def)
  then show "nodeStore n' = applyAll (nodeStore n) us" "wire n' = wire n"
    by auto
qed

text \<open>Every message either leaves the store and sends what it holds, or applies its updates and sends nothing.\<close>

definition step_effect :: "KVUpdate list \<Rightarrow> Node \<Rightarrow> Node \<Rightarrow> bool" where
  "step_effect us n n' \<longleftrightarrow> nodeStore n' = applyAll (nodeStore n) us \<and> handed n' \<subseteq> handed n \<union> held (nodeStore n)"

lemma dispatch_effect:
  assumes "dispatchBody sha rnd msg n = Some n'" "nodeStore n = kv" "handed n \<subseteq> H \<union> held kv"
  shows "nodeStore n' = applyAll kv (case msgUpdates msg of Some us \<Rightarrow> us | None \<Rightarrow> []) \<and> handed n' \<subseteq> H \<union> held kv"
proof (cases "msgUpdates msg")
  case None
  have "quiet_at kv H n"
    using assms(2,3) by (simp add: quiet_at_def)
  then have "quiet_at kv H n'"
    using quiet.P_quiet_dispatch [OF _ assms(1) None] by blast
  then show ?thesis
    by (simp add: None quiet_at_def applyAll_def)
next
  case (Some us)
  then show ?thesis
    using update_dispatch [OF Some assms(1)] handed_wire [of n' n] assms(2,3) by simp
qed

lemma dispatched_effect:
  assumes "dispatch unm sha rnd kind body n = Some n'" "quiet_at kv H n"
  shows "nodeStore n' = applyAll kv (case unm kind body of None \<Rightarrow> [] | Some msg \<Rightarrow> (case msgUpdates msg of Some us \<Rightarrow> us | None \<Rightarrow> []))
    \<and> handed n' \<subseteq> H \<union> held kv"
  using assms dispatch_effect [of sha rnd _ n n' kv H] quiet.P_addCount [of kv H n MalformedDrops 1]
  by (auto simp: dispatch_def quiet_at_def applyAll_def split: option.splits)

lemma packet_effect:
  assumes "handlePacket hmac unm rd sha rnd from frame n = Some n'"
  shows "step_effect (packetUpdates hmac unm frame n) n n'"
proof (cases "Decode hmac (nd_codec n) (nodeNow n) frame")
  case (Pair c r)
  have base: "quiet_at (nodeStore n) (handed n) (n\<lparr>nd_codec := c\<rparr>)"
    by (simp add: quiet.P_codec quiet_self)
  show ?thesis
  proof (cases r)
    case (Inl err)
    then have "quiet_at (nodeStore n) (handed n) n'"
      using assms Pair base by (auto simp: handlePacket_def Let_def quiet.P_noted quiet.P_counted quiet.P_addCount)
    then show ?thesis
      by (simp add: step_effect_def packetUpdates_def Pair Inl quiet_at_def applyAll_def)
  next
    case (Inr kb)
    obtain kind body where kb: "kb = (kind, body)"
      by (cases kb)
    let ?n0 = "RecvFrom (if senderOf rd body \<noteq> '''' then NormalizeAddr (senderOf rd body) else NormalizeAddr from) kind (length frame) (n\<lparr>nd_codec := c\<rparr>)"
    let ?n1 = "noteStranger (NormalizeAddr from) (senderOf rd body)
       (if kind = KindBootstrapRoster then noteRendezvous (NormalizeAddr from) ?n0 else ?n0)"
    have "dispatch unm sha rnd kind body ?n1 = Some n'"
      using assms Pair by (simp add: handlePacket_def Let_def Inr kb del: if_split)
    moreover have "quiet_at (nodeStore n) (handed n) ?n1"
      using base by (simp add: quiet.P_noted quiet.P_counted)
    ultimately obtain n1 where n1: "quiet_at (nodeStore n) (handed n) n1" "dispatch unm sha rnd kind body n1 = Some n'"
      by blast
    show ?thesis
      using dispatched_effect [OF n1(2,1)] by (simp add: step_effect_def packetUpdates_def Pair Inr kb)
  qed
qed

text \<open>The unmarshaller of a kind reads messages of that kind.\<close>

fun kindOf :: "message \<Rightarrow> MessageKind" where
  "kindOf (MsgKV _) = KindKV"
| "kindOf (MsgKVBatch _) = KindKVBatch"
| "kindOf (MsgChat _) = KindChat"
| "kindOf (MsgDirectMessage _) = KindDirectMessage"
| "kindOf (MsgStateRequest _) = KindStateRequest"
| "kindOf (MsgStateResponse _) = KindStateResponse"
| "kindOf (MsgPeerGossip _) = KindPeerGossip"
| "kindOf (MsgHello _) = KindHello"
| "kindOf (MsgGoodbye _) = KindGoodbye"
| "kindOf (MsgDigest _) = KindDigest"
| "kindOf (MsgPullRequest _) = KindPullRequest"
| "kindOf (MsgFingerprint _) = KindFingerprint"
| "kindOf (MsgFingerprintReply _) = KindFingerprintReply"
| "kindOf (MsgChatPull _) = KindChatPull"
| "kindOf (MsgChatBacklog _) = KindChatBacklog"
| "kindOf (MsgBootstrapRoster _) = KindBootstrapRoster"
| "kindOf (MsgBootstrapRegister _) = KindBootstrapRegister"
| "kindOf (MsgBootstrapDiscover _) = KindBootstrapDiscover"

definition reads_kind :: "(MessageKind \<Rightarrow> bytes \<Rightarrow> message option) \<Rightarrow> bool" where
  "reads_kind unm \<longleftrightarrow> (\<forall>kind body msg. unm kind body = Some msg \<longrightarrow> kindOf msg = kind)"

lemma reads_kind_quiet:
  assumes "reads_kind unm" "unm kind body = Some msg" "kind = KindStateRequest \<or> kind = KindFingerprint"
  shows "msgUpdates msg = None"
proof -
  have "kindOf msg = kind"
    using assms(1,2) by (simp add: reads_kind_def)
  then show ?thesis
    using assms(3) by (cases msg) auto
qed

lemma stream_effect:
  assumes "serveStream hmac unm sha rnd conn frame n = Some n'"
    and typed: "reads_kind unm"
  shows "step_effect (packetUpdates hmac unm frame n) n n'"
proof (cases "Decode hmac (nd_codec n) (nodeNow n) frame")
  case (Pair c r)
  have base: "quiet_at (nodeStore n) (handed n) (n\<lparr>nd_codec := c\<rparr>)"
    by (simp add: quiet.P_codec quiet_self)
  show ?thesis
  proof (cases r)
    case (Inl err)
    then have "quiet_at (nodeStore n) (handed n) n'"
      using assms Pair base by (auto simp: serveStream_def quiet.P_addCount)
    then show ?thesis
      by (simp add: step_effect_def packetUpdates_def Pair Inl quiet_at_def applyAll_def)
  next
    case (Inr kb)
    obtain kind body where kb: "kb = (kind, body)"
      by (cases kb)
    have recv: "quiet_at (nodeStore n) (handed n) (Recv kind (length frame) (n\<lparr>nd_codec := c\<rparr>))"
      using base by (simp add: quiet.P_counted)
    show ?thesis
    proof (cases "kind = KindStateRequest \<or> kind = KindFingerprint")
      case True
      then have "quiet_at (nodeStore n) (handed n) n'"
        using assms(1) Pair recv
        by (auto simp: serveStream_def Let_def Inr kb quiet.P_addCount quiet.P_touch quiet.P_sendState quiet.P_sent
            split: option.splits message.splits)
      moreover have "packetUpdates hmac unm frame n = []"
        using reads_kind_quiet [OF typed _ True, of body] by (simp add: packetUpdates_def Pair Inr kb split: option.split)
      ultimately show ?thesis
        by (simp add: step_effect_def quiet_at_def applyAll_def)
    next
      case False
      then have "dispatch unm sha rnd kind body (Recv kind (length frame) (n\<lparr>nd_codec := c\<rparr>)) = Some n'"
        using assms(1) Pair by (simp add: serveStream_def Let_def Inr kb)
      then show ?thesis
        using dispatched_effect [OF _ recv] by (simp add: step_effect_def packetUpdates_def Pair Inr kb)
    qed
  qed
qed

section \<open>The other steps\<close>

lemma quiet_step_effect: "quiet_step n n' \<Longrightarrow> step_effect [] n n'"
  using quiet.P_quiet_step [OF _ quiet_self] by (simp add: step_effect_def quiet_at_def applyAll_def)

lemma handed_broadcastKV: "handed (broadcast (MsgKV u) n) \<subseteq> insert u (handed n)"
  by (auto simp: handed_def outUpdates_def broadcast_def)

text \<open>The update a successful write returns.\<close>

fun setInr :: "kvError + KVUpdate \<Rightarrow> KVUpdate set" where
  "setInr (Inl err) = {}"
| "setInr (Inr u) = {u}"

lemma write_effect:
  assumes "f (nodeStore n) = mutate (nodeStore n) k v rm opt" "(n', r') = finishWrite (withStore f n)"
  shows "nodeStore n' = nodeStore n \<and> handed n' = handed n \<and> setInr r' = {}
    \<or> (\<exists>kv' eff u. mutate (nodeStore n) k v rm opt = (kv', eff, Inr u) \<and> nodeStore n' = kv' \<and> handed n' \<subseteq> insert u (handed n) \<and> r' = Inr u)"
proof (cases "mutate (nodeStore n) k v rm opt")
  case (fields kv' eff r)
  obtain n1 where n1: "withStore f n = (n1, r)" "nodeStore n1 = kv'" "wire n1 = wire n"
    using withStore_store [of f n] wire_simps(5) [of f n] assms(1) fields by (metis fst_conv snd_conv surjective_pairing)
  show ?thesis
  proof (cases r)
    case (Inl err)
    then have "kv' = nodeStore n"
      using fields by (auto simp: mutate_def Let_def split: option.splits)
    then show ?thesis
      using assms(2) n1 Inl handed_wire [of n' n] by (auto simp: finishWrite_def)
  next
    case (Inr u)
    have "handed n' \<subseteq> insert u (handed n)"
      using handed_broadcastKV [of u "addCount KVLocalWrites 1 n1"] handed_wire [of "addCount KVLocalWrites 1 n1" n] n1
        handed_wire [of n' "broadcast (MsgKV u) (addCount KVLocalWrites 1 n1)"] assms(2)
      by (simp add: finishWrite_def Inr)
    then show ?thesis
      using assms(2) n1 Inr fields by (auto simp: finishWrite_def)
  qed
qed

text \<open>A sweep collects nothing when collection is off, and otherwise when no tombstone is old enough.\<close>

definition collectsNothing :: "Node \<Rightarrow> bool" where
  "collectsNothing n \<longleftrightarrow> nodeStore (sweepTick n) = fst (SweepExpired (nodeStore n))"

lemma collectsNothing_off: "nc_TombstoneTTL (nd_cfg n) \<le> 0 \<Longrightarrow> collectsNothing n"
  using withStore_store(1) [of SweepExpired n] by (simp add: collectsNothing_def sweepTick_def Let_def split_beta)

lemma sweep_handed: "handed (sweepTick n) = handed n"
proof -
  have "wire (sweepTick n) = wire n"
    by (simp add: sweepTick_def Let_def split_beta)
  then show ?thesis
    by (rule handed_wire)
qed

text \<open>An entry of an export, merged under its own version.\<close>

lemma import_effect:
  assumes "importEntry False (n, a) u = (n', a')"
  shows "nodeStore n' = fst (ApplyWithReason (nodeStore n) u)" "handed n' \<subseteq> insert u (handed n)"
proof -
  obtain n1 ok where w: "withStore (\<lambda>kv. Apply kv u) n = (n1, ok)"
    by fastforce
  have n1: "nodeStore n1 = fst (ApplyWithReason (nodeStore n) u)" "handed n1 = handed n"
    using withStore_store(1) [of "\<lambda>kv. Apply kv u" n] wire_simps(5) [of "\<lambda>kv. Apply kv u" n] handed_wire [of n1 n]
    by (simp_all add: w fst_Apply)
  have n': "n' = (if ok then broadcast (MsgKV u) n1 else n1)"
    using assms by (simp add: importEntry_def w split: if_splits)
  show "nodeStore n' = fst (ApplyWithReason (nodeStore n) u)"
    using n1(1) by (simp add: n' broadcast_def)
  show "handed n' \<subseteq> insert u (handed n)"
    using n1(2) handed_broadcastKV [of u n1] by (auto simp: n')
qed

text \<open>The update a step of node \<open>n\<close> on key \<open>k\<close> wrote, if it wrote one.\<close>

definition written :: "Node \<Rightarrow> string \<Rightarrow> Node \<Rightarrow> KVUpdate set" where
  "written n k n' = (if nodeStore n' = nodeStore n then {}
     else (case fmlookup (kv_store (nodeStore n')) k of Some e \<Rightarrow> {entryUpdate k e} | None \<Rightarrow> {}))"

lemma written_mutate:
  assumes "mutate (nodeStore n) k v rm opt = (nodeStore n', eff, Inr u)"
  shows "written n k n' = {u}"
proof -
  note ok = mutate_InrD [OF assms]
  have "kv_clock (nodeStore n) < kv_clock (nodeStore n')"
    using word_less_inc [OF mutateRefusal_NoneD(1) [OF ok(1)] nextClock_ge(1)] ok(3) by simp
  then have "nodeStore n' \<noteq> nodeStore n"
    by auto
  then show ?thesis
    using ok(2,9) by (simp add: written_def)
qed

lemma repairItem_write:
  assumes "repairItem plan flr (n, rep) item = (n', rep')"
  shows "nodeStore n' = nodeStore n \<and> handed n' = handed n \<and> written n (rc_Key item) n' = {}
    \<or> (\<exists>v rm opt eff u. mutate (nodeStore n) (rc_Key item) v rm opt = (nodeStore n', eff, Inr u)
        \<and> handed n' \<subseteq> insert u (handed n) \<and> written n (rc_Key item) n' = {u})"
proof -
  define op where "op = (\<lambda>kv. mutate kv (rc_Key item) (if wantsDelete item then [] else u_Value (desiredOf item)) (wantsDelete item) (repairOptions flr item))"
  obtain n1 r where w: "withStore op n = (n1, r)" by force
  obtain eff where m: "op (nodeStore n) = (nodeStore n1, eff, r)"
    using withStore_fields(1,2) [OF w] by (metis prod.collapse)
  have h1: "handed n1 = handed n"
    using wire_simps(5) [of op n] handed_wire [of n1 n] by (simp add: w)
  show ?thesis
  proof (cases "n' = n")
    case False
    then have r: "(\<exists>err. r = Inl err \<and> n' = n1) \<or> (\<exists>u. r = Inr u \<and> n' = notify KVChanged (broadcast (MsgKV u) (addCount KVLocalWrites 1 n1)))"
      using assms unfolding repairItem_def repair_store_op op_def [symmetric] prod.case w
      by (auto split: if_splits sum.splits)
    then show ?thesis
    proof
      assume "\<exists>err. r = Inl err \<and> n' = n1"
      then have "nodeStore n' = nodeStore n" "n' = n1"
        using m mutate_InlD(1) unfolding op_def by blast+
      then show ?thesis
        using h1 by (simp add: written_def)
    next
      assume "\<exists>u. r = Inr u \<and> n' = notify KVChanged (broadcast (MsgKV u) (addCount KVLocalWrites 1 n1))"
      then obtain u where u: "r = Inr u" "n' = notify KVChanged (broadcast (MsgKV u) (addCount KVLocalWrites 1 n1))"
        by blast
      have "nodeStore n' = nodeStore n1"
        by (simp add: u(2) notify_def broadcast_def addCount_def)
      then have "op (nodeStore n) = (nodeStore n', eff, Inr u)"
        using m u(1) by simp
      moreover have "handed n' \<subseteq> insert u (handed n)"
        using handed_broadcastKV [of u "addCount KVLocalWrites 1 n1"] h1 handed_wire [of "addCount KVLocalWrites 1 n1" n1]
          handed_wire [of n' "broadcast (MsgKV u) (addCount KVLocalWrites 1 n1)"] by (simp add: u(2))
      ultimately show ?thesis
        unfolding op_def using written_mutate by blast
    qed
  qed (simp add: written_def)
qed

text \<open>A consistency check leaves the store and the queues alone.\<close>

lemma askPeer_bulk: "nd_bulk (fst (askPeer ex addr req n)) = nd_bulk n"
proof -
  have "nd_bulk (fst (requestOverStream ex addr req n)) = nd_bulk n"
    by (auto simp: requestOverStream_def Let_def addCount_def Sent_def Recv_def split: prod.split sum.split streamFailure.split)
  then show ?thesis
    by (auto simp: askPeer_def split: prod.split sum.split option.split)
qed

lemma namedDifferences_bulk: "namedDifferences ex addr bs n = (n1, ds, left) \<Longrightarrow> nd_bulk n1 = nd_bulk n"
  using askPeer_bulk [of ex addr "\<lparr>fp_DigestVersion = 2, fp_From = advertised n, fp_Buckets = map int bs\<rparr>" n]
  by (auto simp: namedDifferences_def namedDifferencesLimit_def Let_def split: prod.splits sum.splits if_splits)

lemma fingerprintPeer_bulk: "nd_bulk (fst (fingerprintPeer ex local addr n)) = nd_bulk n"
proof -
  obtain n1 r where a: "askPeer ex addr \<lparr>fp_DigestVersion = 2, fp_From = advertised n, fp_Buckets = []\<rparr> n = (n1, r)" by force
  have "nd_bulk n1 = nd_bulk n"
    using askPeer_bulk [of ex addr "\<lparr>fp_DigestVersion = 2, fp_From = advertised n, fp_Buckets = []\<rparr>" n] by (simp add: a)
  then show ?thesis
    by (auto simp: fingerprintPeer_def a Let_def namedDifferences_bulk split: sum.split prod.split)
qed

lemma check_wire: "wire (fst (CheckConsistency ex n)) = wire n"
proof -
  have "nd_bulk (fst (askAll ex local addrs n)) = nd_bulk n" for local addrs n
  proof (induction addrs arbitrary: n)
    case (Cons a as)
    then show ?case
      using fingerprintPeer_bulk [of ex local a n] by (simp add: split_beta)
  qed simp
  then have "nd_bulk (fst (CheckConsistency ex n)) = nd_bulk n"
    by (simp add: CheckConsistency_def Let_def split_beta)
  then show ?thesis
    by (simp add: wire_def)
qed

lemma repair_effect: "nodeStore (repairWorker encLen n) = nodeStore n" "handed (repairWorker encLen n) \<subseteq> handed n"
proof -
  show "nodeStore (repairWorker encLen n) = nodeStore n"
    by (simp add: repairWorker_def sendRepair_def Let_def send_batches split: list.split)
  show "handed (repairWorker encLen n) \<subseteq> handed n"
  proof (cases "nd_stopped n \<or> nd_bulk n = []")
    case False
    then obtain a us rest where b: "nd_bulk n = (a, us) # rest" "\<not> nd_stopped n"
      by (cases "nd_bulk n") auto
    define bs where "bs = repairBatches encLen (case fmlookup (nd_peerLimits n) a of Some l \<Rightarrow> sl_MaxValueBytes l | None \<Rightarrow> 0) us [] 0"
    have "repairWorker encLen n = n\<lparr>nd_bulk := rest, nd_outbox := nd_outbox n @ map (\<lambda>b. (a, MsgKVBatch b)) bs\<rparr>"
      by (simp add: repairWorker_def sendRepair_def Let_def send_batches b bs_def)
    moreover have "\<Union> (set ` set bs) \<subseteq> set us"
      unfolding bs_def by (intro UN_least) (rule repairBatches_sub)
    ultimately show ?thesis
      by (auto simp: handed_def outUpdates_def b(1))
  qed (auto simp: repairWorker_def)
qed

section \<open>The network\<close>

record network =
  nw_nodes :: "string \<Rightarrow> Node"
  nw_got :: "string \<Rightarrow> KVUpdate set"
  nw_exports :: "KVUpdate set"

definition nw_update :: "string \<Rightarrow> Node \<Rightarrow> KVUpdate set \<Rightarrow> network \<Rightarrow> network" where
  "nw_update i n us w = w\<lparr>nw_nodes := (nw_nodes w)(i := n), nw_got := (nw_got w)(i := nw_got w i \<union> us)\<rparr>"

text \<open>The updates of all messages ever sent; a restart takes back nothing that was sent.\<close>

definition on_wire :: "network \<Rightarrow> KVUpdate set" where
  "on_wire w = (\<Union>i. outUpdates (nw_nodes w i))"

text \<open>
  A step of one node.  The loops of \<open>Import\<close> and \<open>ApplyRepairPlan\<close> take the store's lock once per entry, so other
  steps may come between: each entry is a step (an entry of a seed is a \<open>net_write\<close> or \<open>net_remove\<close>), and
  \<open>Import_run\<close> and \<open>ApplyRepairPlan_run\<close> below compose them.  \<open>net_local\<close> is anything that touches neither the store
  nor what is sent.
\<close>

inductive net_step ::
  "(bytes \<Rightarrow> bytes \<Rightarrow> bytes) \<Rightarrow> (MessageKind \<Rightarrow> bytes \<Rightarrow> message option) \<Rightarrow> (bytes \<Rightarrow> (string \<times> string) option) \<Rightarrow>
   (string \<Rightarrow> 256 word) \<Rightarrow> nanos \<Rightarrow> network \<Rightarrow> network \<Rightarrow> bool" for hmac unm rd sha t where
  net_quiet: "quiet_step (nw_nodes w i) n \<Longrightarrow> net_step hmac unm rd sha t w (nw_update i n {} w)"
| net_packet: "handlePacket hmac unm rd sha rnd from frame (nw_nodes w i) = Some n \<Longrightarrow>
    set (packetUpdates hmac unm frame (nw_nodes w i)) \<subseteq> on_wire w \<Longrightarrow>
    net_step hmac unm rd sha t w (nw_update i n (set (packetUpdates hmac unm frame (nw_nodes w i))) w)"
| net_stream: "serveStream hmac unm sha rnd conn frame (nw_nodes w i) = Some n \<Longrightarrow>
    set (packetUpdates hmac unm frame (nw_nodes w i)) \<subseteq> on_wire w \<Longrightarrow>
    net_step hmac unm rd sha t w (nw_update i n (set (packetUpdates hmac unm frame (nw_nodes w i))) w)"
| net_write: "writeKey k v ttl expect (nw_nodes w i) = (n, r) \<Longrightarrow>
    net_step hmac unm rd sha t w (nw_update i n (setInr r) w)"
| net_remove: "removeKey k expect (nw_nodes w i) = (n, r) \<Longrightarrow>
    net_step hmac unm rd sha t w (nw_update i n (setInr r) w)"
| net_sweep: "collectsNothing (nw_nodes w i) \<Longrightarrow>
    net_step hmac unm rd sha t w (nw_update i (sweepTick (nw_nodes w i)) {} w)"
| net_repair: "net_step hmac unm rd sha t w (nw_update i (repairWorker encLen (nw_nodes w i)) {} w)"
| net_clock: "s \<le> t \<Longrightarrow>
    net_step hmac unm rd sha t w (nw_update i (onModel (\<lambda>m. m\<lparr>md_Store := SetClock s (md_Store m)\<rparr>) (nw_nodes w i)) {} w)"
| net_local: "nodeStore n = nodeStore (nw_nodes w i) \<Longrightarrow> wire n = wire (nw_nodes w i) \<Longrightarrow>
    net_step hmac unm rd sha t w (nw_update i n {} w)"
| net_export: "set (Updates (nodeStore (nw_nodes w i))) = us \<Longrightarrow>
    net_step hmac unm rd sha t w (w\<lparr>nw_exports := nw_exports w \<union> us\<rparr>)"
| net_import: "importEntry False (nw_nodes w i, a) u = (n, a') \<Longrightarrow> u \<in> nw_exports w \<Longrightarrow>
    net_step hmac unm rd sha t w (nw_update i n {u} w)"
| net_repairItem: "repairItem plan flr (nw_nodes w i, rep) item = (n, rep') \<Longrightarrow>
    net_step hmac unm rd sha t w (nw_update i n (written (nw_nodes w i) (rc_Key item) n) w)"
| net_restart: "s \<le> t \<Longrightarrow> nc_Limits cfg = \<lparr>MaxValueBytes = 0, MaxKeys = 0\<rparr> \<Longrightarrow>
    md_Store m = SetOnChange (LoadState (State (nodeStore (nw_nodes w i))) (NewKVStore i s)) \<Longrightarrow>
    net_step hmac unm rd sha t w
      (nw_update i ((New hmac psk uuid cfg m)\<lparr>nd_outbox := nd_outbox (nw_nodes w i)\<rparr>) {} w)"

text \<open>Every node starts with an empty unlimited store.\<close>

definition net_start :: "(bytes \<Rightarrow> bytes \<Rightarrow> bytes) \<Rightarrow> nanos \<Rightarrow> network \<Rightarrow> bool" where
  "net_start hmac t w \<longleftrightarrow> nw_exports w = {} \<and> (\<forall>i. nw_got w i = {} \<and> (\<exists>psk uuid cfg m now. nw_nodes w i = New hmac psk uuid cfg m
     \<and> md_Store m = SetOnChange (NewKVStore i now) \<and> now \<le> t \<and> nc_Limits cfg = \<lparr>MaxValueBytes = 0, MaxKeys = 0\<rparr>))"

section \<open>Whole operations as runs\<close>

lemma nw_update_twice: "nw_update i n2 U2 (nw_update i n1 U1 w) = nw_update i n2 (U1 \<union> U2) w"
  by (cases w) (simp add: nw_update_def fun_upd_def fun_eq_iff Un_assoc)

lemma nw_update_same: "nw_update i (nw_nodes w i) {} w = w"
  by (cases w) (simp add: nw_update_def)

lemma nw_update_nodes [simp]: "nw_nodes (nw_update i n U w) i = n" "nw_exports (nw_update i n U w) = nw_exports w"
  by (simp_all add: nw_update_def)

text \<open>Composing runs of one node.\<close>

lemma run_trans:
  assumes "(net_step hmac unm rd sha t)\<^sup>*\<^sup>* w (nw_update i n1 U1 w)"
    and "(net_step hmac unm rd sha t)\<^sup>*\<^sup>* (nw_update i n1 U1 w) (nw_update i n2 U2 (nw_update i n1 U1 w))"
  shows "\<exists>U. (net_step hmac unm rd sha t)\<^sup>*\<^sup>* w (nw_update i n2 U w)"
  using rtranclp_trans [OF assms] nw_update_twice by metis

lemma run_local:
  assumes "nodeStore n' = nodeStore n" "wire n' = wire n"
  shows "(net_step hmac unm rd sha t)\<^sup>*\<^sup>* (nw_update i n U w) (nw_update i n' {} (nw_update i n U w))"
  using net_local [of n' "nw_update i n U w" i] assms by (simp add: r_into_rtranclp)

text \<open>One entry of an import: a seed writes it afresh, a merge needs it to come from an export.\<close>

lemma importEntry_run:
  assumes "importEntry b (nw_nodes w i, a) u = (n, a')" "b \<or> u \<in> nw_exports w"
  shows "\<exists>U. (net_step hmac unm rd sha t)\<^sup>*\<^sup>* w (nw_update i n U w)"
proof (cases b)
  case True
  consider "n = nw_nodes w i" | "n = fst (removeKey (u_Key u) None (nw_nodes w i))"
    | ttl where "n = fst (writeKey (u_Key u) (u_Value u) ttl None (nw_nodes w i))"
    using assms(1) True by (auto simp: importEntry_def Let_def NodeDelete_def NodeSet_def split: if_splits)
  then show ?thesis
  proof cases
    case 1
    then show ?thesis
      using nw_update_same [of i w] by (metis rtranclp.rtrancl_refl)
  next
    case 2
    then show ?thesis
      using net_remove [of "u_Key u" None w i n] by (metis prod.collapse r_into_rtranclp)
  next
    case 3
    then show ?thesis
      using net_write [of "u_Key u" "u_Value u" ttl None w i n] by (metis prod.collapse r_into_rtranclp)
  qed
next
  case False
  then show ?thesis
    using net_import [of w i a u n a'] assms by (metis r_into_rtranclp)
qed

text \<open>A fold over entries whose single entries are runs.\<close>

lemma fold_run:
  assumes step: "\<And>w r x. x \<in> set xs \<Longrightarrow> nw_exports w = E \<Longrightarrow>
      \<exists>U. (net_step hmac unm rd sha t)\<^sup>*\<^sup>* w (nw_update i (fst (f (nw_nodes w i, r) x)) U w)"
    and "nw_exports w = E"
  shows "\<exists>U. (net_step hmac unm rd sha t)\<^sup>*\<^sup>* w (nw_update i (fst (foldl f (nw_nodes w i, r) xs)) U w)"
  using assms
proof (induction xs arbitrary: w r)
  case Nil
  then show ?case
    using nw_update_same [of i w] by (metis foldl_Nil fst_conv rtranclp.rtrancl_refl)
next
  case (Cons x xs)
  obtain n1 r1 where s: "f (nw_nodes w i, r) x = (n1, r1)"
    by fastforce
  obtain U1 where U1: "(net_step hmac unm rd sha t)\<^sup>*\<^sup>* w (nw_update i n1 U1 w)"
    using Cons.prems(1) [of x w r] Cons.prems(2) s by auto
  obtain U2 where "(net_step hmac unm rd sha t)\<^sup>*\<^sup>* (nw_update i n1 U1 w)
      (nw_update i (fst (foldl f (n1, r1) xs)) U2 (nw_update i n1 U1 w))"
    using Cons.IH [of "nw_update i n1 U1 w" r1] Cons.prems by auto
  then show ?case
    using run_trans [OF U1] by (simp add: s)
qed

text \<open>\<open>Import\<close> is a run: of any entries as local writes, of exported entries as a merge.\<close>

lemma Import_run:
  assumes "asLocalWrites \<or> set entries \<subseteq> nw_exports w" "Import entries asLocalWrites (nw_nodes w i) = (n, applied)"
  shows "\<exists>U. (net_step hmac unm rd sha t)\<^sup>*\<^sup>* w (nw_update i n U w)"
proof -
  obtain n1 a where f: "foldl (importEntry asLocalWrites) (nw_nodes w i, 0) entries = (n1, a)"
    by fastforce
  have "\<exists>U. (net_step hmac unm rd sha t)\<^sup>*\<^sup>* w (nw_update i (fst (foldl (importEntry asLocalWrites) (nw_nodes w i, 0) entries)) U w)"
  proof (rule fold_run [OF _ refl])
    show "\<exists>U. (net_step hmac unm rd sha t)\<^sup>*\<^sup>* v (nw_update i (fst (importEntry asLocalWrites (nw_nodes v i, r) u)) U v)"
      if "u \<in> set entries" "nw_exports v = nw_exports w" for v r u
      using that assms(1) importEntry_run [of asLocalWrites v i r u] by (metis prod.collapse subsetD)
  qed
  then obtain U where U: "(net_step hmac unm rd sha t)\<^sup>*\<^sup>* w (nw_update i n1 U w)"
    by (auto simp: f)
  have "n = notify KVChanged (logActivity (ActImported a) n1) \<or> n = n1"
    using assms(2) by (auto simp: Import_def f split: if_splits)
  then have "nodeStore n = nodeStore n1" "wire n = wire n1"
    by (auto simp: notify_def logActivity_def wire_def)
  then show ?thesis
    using run_trans [OF U run_local] by blast
qed

text \<open>\<open>ApplyRepairPlan\<close>, which applies repairs and restores, is a run.\<close>

lemma ApplyRepairPlan_run:
  assumes "ApplyRepairPlan ex1 ex2 plan (nw_nodes w i) = (n, rep)"
  shows "\<exists>U. (net_step hmac unm rd sha t)\<^sup>*\<^sup>* w (nw_update i n U w)"
proof -
  obtain n0 before where b: "CheckConsistency ex1 (nw_nodes w i) = (n0, before)"
    by fastforce
  define flr z where "flr = repairFloor before" and "z = zero_RepairReport (advertised (nw_nodes w i))"
  obtain n1 rep1 where f: "foldl (repairItem plan flr) (n0, z) (pl_Items plan) = (n1, rep1)"
    by fastforce
  obtain n2 after where a: "CheckConsistency ex2 n1 = (n2, after)"
    by fastforce
  have n: "n = logActivity (ActRepaired (rr_Rewritten rep1)) n2 \<or> n = n2"
    using assms by (auto simp: ApplyRepairPlan_def b f [unfolded flr_def z_def] a Let_def)
  have "nodeStore n0 = nodeStore (nw_nodes w i)" "wire n0 = wire (nw_nodes w i)"
    using CheckConsistency_frame(1) [of ex1 "nw_nodes w i"] check_wire [of ex1 "nw_nodes w i"] by (simp_all add: b)
  then have r0: "(net_step hmac unm rd sha t)\<^sup>*\<^sup>* w (nw_update i n0 {} w)"
    by (simp add: net_local r_into_rtranclp)
  have "\<exists>U. (net_step hmac unm rd sha t)\<^sup>*\<^sup>* (nw_update i n0 {} w)
      (nw_update i (fst (foldl (repairItem plan flr) (nw_nodes (nw_update i n0 {} w) i, z) (pl_Items plan))) U (nw_update i n0 {} w))"
  proof (rule fold_run [OF _ refl])
    show "\<exists>U. (net_step hmac unm rd sha t)\<^sup>*\<^sup>* v (nw_update i (fst (repairItem plan flr (nw_nodes v i, r) x)) U v)" for v r x
      using net_repairItem [of plan flr v i r x] by (metis prod.collapse r_into_rtranclp)
  qed
  then obtain U1 where U1: "(net_step hmac unm rd sha t)\<^sup>*\<^sup>* w (nw_update i n1 U1 w)"
    using run_trans [OF r0] by (auto simp: f)
  have "nodeStore n = nodeStore n1" "wire n = wire n1"
    using n CheckConsistency_frame(1) [of ex2 n1] check_wire [of ex2 n1] by (auto simp: a logActivity_def notify_def wire_def)
  then show ?thesis
    using run_trans [OF U1 run_local] by blast
qed

section \<open>The network refines the cluster\<close>

definition simulates :: "network \<Rightarrow> cluster \<Rightarrow> bool" where
  "simulates w c \<longleftrightarrow> c_nodes c = (\<lambda>i. nodeStore (nw_nodes w i)) \<and> c_got c = nw_got w
     \<and> (\<forall>i. handed (nw_nodes w i) \<subseteq> c_sent c) \<and> nw_exports w \<subseteq> c_sent c"

lemma held_finite: "finite (held kv)"
proof -
  have "held kv = (\<lambda>k. entryUpdate k (the (fmlookup (kv_store kv) k))) ` fmdom' (kv_store kv)"
    by (force simp: held_def fmlookup_dom'_iff)
  then show ?thesis
    by simp
qed

lemma relay_star:
  assumes "finite U" "U \<subseteq> held (c_nodes c i)"
  shows "(cluster_step t)\<^sup>*\<^sup>* c (c\<lparr>c_sent := c_sent c \<union> U\<rparr>)"
  using assms
proof (induction rule: finite_induct)
  case (insert u U)
  obtain k e where e: "u = entryUpdate k e" "fmlookup (kv_store (c_nodes c i)) k = Some e"
    using insert.prems by (auto simp: held_def)
  have "cluster_step t (c\<lparr>c_sent := c_sent c \<union> U\<rparr>) (c\<lparr>c_sent := c_sent c \<union> insert u U\<rparr>)"
    using cl_relay [of "c\<lparr>c_sent := c_sent c \<union> U\<rparr>" i k e t] e by simp
  then show ?case
    using insert by (auto intro: rtranclp.rtrancl_into_rtrancl)
qed simp

lemma deliver_star:
  "set us \<subseteq> c_sent c \<Longrightarrow> (cluster_step t)\<^sup>*\<^sup>* c
     (c\<lparr>c_nodes := (c_nodes c)(i := applyAll (c_nodes c i) us), c_got := (c_got c)(i := c_got c i \<union> set us)\<rparr>)"
proof (induction us arbitrary: c)
  case Nil
  then show ?case
    by (simp add: applyAll_def)
next
  case (Cons u us)
  let ?c = "c\<lparr>c_nodes := (c_nodes c)(i := fst (ApplyWithReason (c_nodes c i) u)), c_got := (c_got c)(i := insert u (c_got c i))\<rparr>"
  have "cluster_step t c ?c"
    using Cons.prems by (intro cl_deliver) simp
  then show ?case
    using Cons.IH [of ?c] Cons.prems by (auto simp: applyAll_def fun_upd_def cong: if_cong intro: converse_rtranclp_into_rtranclp)
qed

lemma reachable_star: "(cluster_step t)\<^sup>*\<^sup>* c c' \<Longrightarrow> cluster_reachable t c \<Longrightarrow> cluster_reachable t c'"
  by (induction rule: rtranclp_induct) (auto intro: cl_step)

lemma wire_handed: "simulates w c \<Longrightarrow> on_wire w \<subseteq> c_sent c"
  by (auto simp: simulates_def on_wire_def handed_def)

lemma sim_effect:
  assumes sim: "simulates w c" and eff: "step_effect us (nw_nodes w i) n" and us: "set us \<subseteq> on_wire w"
  shows "\<exists>c'. (cluster_step t)\<^sup>*\<^sup>* c c' \<and> simulates (nw_update i n (set us) w) c'"
proof -
  let ?c = "c\<lparr>c_sent := c_sent c \<union> held (c_nodes c i)\<rparr>"
  let ?c' = "?c\<lparr>c_nodes := (c_nodes ?c)(i := applyAll (c_nodes ?c i) us), c_got := (c_got ?c)(i := c_got ?c i \<union> set us)\<rparr>"
  have "(cluster_step t)\<^sup>*\<^sup>* c ?c"
    by (rule relay_star [OF held_finite order_refl])
  moreover have "(cluster_step t)\<^sup>*\<^sup>* ?c ?c'"
    using us wire_handed [OF sim] by (intro deliver_star) auto
  moreover have "simulates (nw_update i n (set us) w) ?c'"
    using sim eff by (auto simp: simulates_def step_effect_def nw_update_def)
  ultimately show ?thesis
    by (meson rtranclp_trans)
qed

text \<open>A store operation that may have written one update.\<close>

lemma sim_written:
  assumes sim: "simulates w c"
    and eff: "nodeStore n = nodeStore (nw_nodes w i) \<and> handed n = handed (nw_nodes w i) \<and> us = {}
      \<or> (\<exists>k v rm opt eff u. mutate (nodeStore (nw_nodes w i)) k v rm opt = (nodeStore n, eff, Inr u)
          \<and> handed n \<subseteq> insert u (handed (nw_nodes w i)) \<and> us = {u})"
  shows "\<exists>c'. (cluster_step t)\<^sup>*\<^sup>* c c' \<and> simulates (nw_update i n us w) c'"
  using eff
proof
  assume "nodeStore n = nodeStore (nw_nodes w i) \<and> handed n = handed (nw_nodes w i) \<and> us = {}"
  then have "simulates (nw_update i n us w) c"
    using sim by (auto simp: simulates_def nw_update_def)
  then show ?thesis
    by blast
next
  assume "\<exists>k v rm opt eff u. mutate (nodeStore (nw_nodes w i)) k v rm opt = (nodeStore n, eff, Inr u)
    \<and> handed n \<subseteq> insert u (handed (nw_nodes w i)) \<and> us = {u}"
  then obtain k v rm opt eff u where wr: "mutate (nodeStore (nw_nodes w i)) k v rm opt = (nodeStore n, eff, Inr u)"
      "handed n \<subseteq> insert u (handed (nw_nodes w i))" "us = {u}"
    by blast
  let ?c = "c\<lparr>c_nodes := (c_nodes c)(i := nodeStore n), c_sent := insert u (c_sent c), c_got := (c_got c)(i := insert u (c_got c i))\<rparr>"
  have "c_nodes c i = nodeStore (nw_nodes w i)"
    using sim by (simp add: simulates_def)
  then have "cluster_step t c ?c"
    using wr(1) by (intro cl_write) simp
  moreover have "simulates (nw_update i n us w) ?c"
    using sim wr(2,3) by (auto simp: simulates_def nw_update_def)
  ultimately show ?thesis
    by blast
qed

lemma sim_import:
  assumes sim: "simulates w c" and n: "importEntry False (nw_nodes w i, a) u = (n, a')" and u: "u \<in> nw_exports w"
  shows "\<exists>c'. (cluster_step t)\<^sup>*\<^sup>* c c' \<and> simulates (nw_update i n {u} w) c'"
proof -
  let ?c = "c\<lparr>c_nodes := (c_nodes c)(i := fst (ApplyWithReason (c_nodes c i) u)), c_got := (c_got c)(i := insert u (c_got c i))\<rparr>"
  have sent: "u \<in> c_sent c"
    using sim u by (auto simp: simulates_def)
  then have "cluster_step t c ?c"
    by (rule cl_deliver)
  moreover have "simulates (nw_update i n {u} w) ?c"
    using sim import_effect [OF n] sent by (auto simp: simulates_def nw_update_def)
  ultimately show ?thesis
    by blast
qed

lemma restart_hooked:
  assumes "nc_Limits cfg = \<lparr>MaxValueBytes = 0, MaxKeys = 0\<rparr>" "md_Store m = SetOnChange (LoadState ps (NewKVStore i s))"
  shows "nodeStore (New hmac psk uuid cfg m) = hooked (True, True) (LoadState ps (NewKVStore i s))"
  using assms by (simp add: New_def hooked_def SetOnMutate_def SetOnChange_def SetLimits_def LoadState_def NewKVStore_def)

lemma sim_restart:
  assumes sim: "simulates w c" and s: "s \<le> t"
    and m: "nc_Limits cfg = \<lparr>MaxValueBytes = 0, MaxKeys = 0\<rparr>"
      "md_Store m = SetOnChange (LoadState (State (nodeStore (nw_nodes w i))) (NewKVStore i s))"
  shows "\<exists>c'. (cluster_step t)\<^sup>*\<^sup>* c c'
    \<and> simulates (nw_update i ((New hmac psk uuid cfg m)\<lparr>nd_outbox := nd_outbox (nw_nodes w i)\<rparr>) {} w) c'"
proof -
  let ?n = "(New hmac psk uuid cfg m)\<lparr>nd_outbox := nd_outbox (nw_nodes w i)\<rparr>"
  let ?c = "c\<lparr>c_nodes := (c_nodes c)(i := hooked (True, True) (LoadState (State (c_nodes c i)) (NewKVStore i s)))\<rparr>"
  have "cluster_step t c ?c"
    by (rule cl_restart [OF s])
  moreover have "handed ?n \<subseteq> c_sent c"
    using sim by (auto simp: simulates_def handed_def outUpdates_def New_def)
  then have "simulates (nw_update i ?n {} w) ?c"
    using sim by (auto simp: simulates_def nw_update_def restart_hooked [OF m] fun_eq_iff)
  ultimately show ?thesis
    by blast
qed

lemma sim_write:
  assumes sim: "simulates w c" and f: "f (nodeStore (nw_nodes w i)) = mutate (nodeStore (nw_nodes w i)) k v rm opt"
    and n: "(n, r) = finishWrite (withStore f (nw_nodes w i))"
  shows "\<exists>c'. (cluster_step t)\<^sup>*\<^sup>* c c' \<and> simulates (nw_update i n (setInr r) w) c'"
proof (rule sim_written [OF sim])
  show "nodeStore n = nodeStore (nw_nodes w i) \<and> handed n = handed (nw_nodes w i) \<and> setInr r = {}
      \<or> (\<exists>k v rm opt eff u. mutate (nodeStore (nw_nodes w i)) k v rm opt = (nodeStore n, eff, Inr u)
          \<and> handed n \<subseteq> insert u (handed (nw_nodes w i)) \<and> setInr r = {u})"
    using write_effect [OF f n] by fastforce
qed

lemma sim_step:
  assumes "net_step hmac unm rd sha t w w'" "simulates w c" "reads_kind unm"
  shows "\<exists>c'. (cluster_step t)\<^sup>*\<^sup>* c c' \<and> simulates w' c'"
  using assms
proof (cases rule: net_step.cases)
  case (net_quiet i n)
  then show ?thesis
    using sim_effect [OF assms(2) quiet_step_effect, of i n t] by simp
next
  case (net_packet rnd src frame i n)
  then show ?thesis
    using sim_effect [OF assms(2) packet_effect] by blast
next
  case (net_stream rnd conn frame i n)
  then show ?thesis
    using sim_effect [OF assms(2) stream_effect [OF _ assms(3)]] by blast
next
  case (net_write k v ttl expect i n r)
  then obtain opt where "(n, r) = finishWrite (withStore (\<lambda>kv. Write kv k v opt) (nw_nodes w i))"
    unfolding writeKey_def by metis
  from sim_write [OF assms(2) _ this, of k v False opt t] show ?thesis
    by (simp add: Write_def net_write(1))
next
  case (net_remove k expect i n r)
  then obtain opt where "(n, r) = finishWrite (withStore (\<lambda>kv. Remove kv k opt) (nw_nodes w i))"
    unfolding removeKey_def by metis
  from sim_write [OF assms(2) _ this, of k "''''" True opt t] show ?thesis
    by (simp add: Remove_def net_remove(1))
next
  case (net_sweep i)
  have "cluster_step t c (c\<lparr>c_nodes := (c_nodes c)(i := fst (SweepExpired (c_nodes c i)))\<rparr>)"
    by (rule cl_sweep)
  moreover have "simulates w' (c\<lparr>c_nodes := (c_nodes c)(i := fst (SweepExpired (c_nodes c i)))\<rparr>)"
    using assms(2) net_sweep sweep_handed [of "nw_nodes w i"] by (auto simp: simulates_def nw_update_def collectsNothing_def)
  ultimately show ?thesis
    by blast
next
  case (net_repair i encLen)
  then have "simulates w' c"
    using assms(2) repair_effect(1) [of encLen "nw_nodes w i"] subset_trans [OF repair_effect(2) [of encLen "nw_nodes w i"], of "c_sent c"]
    by (simp add: simulates_def nw_update_def fun_eq_iff)
  then show ?thesis
    by blast
next
  case (net_clock s i)
  have "cluster_step t c (c\<lparr>c_nodes := (c_nodes c)(i := SetClock s (c_nodes c i))\<rparr>)"
    using net_clock(2) by (rule cl_time)
  moreover have "simulates w' (c\<lparr>c_nodes := (c_nodes c)(i := SetClock s (c_nodes c i))\<rparr>)"
    using assms(2) net_clock(1) by (auto simp: simulates_def nw_update_def onModel_def handed_def outUpdates_def)
  ultimately show ?thesis
    by blast
next
  case (net_local n i)
  then have "simulates w' c"
    using assms(2) handed_wire [of n "nw_nodes w i"] by (auto simp: simulates_def nw_update_def)
  then show ?thesis
    by blast
next
  case (net_export i us)
  have us: "us \<subseteq> held (c_nodes c i)"
    using assms(2) net_export(2) Updates_held by (auto simp: simulates_def)
  have "(cluster_step t)\<^sup>*\<^sup>* c (c\<lparr>c_sent := c_sent c \<union> us\<rparr>)"
    by (rule relay_star [OF finite_subset [OF us held_finite] us])
  moreover have "simulates w' (c\<lparr>c_sent := c_sent c \<union> us\<rparr>)"
    using assms(2) net_export(1) by (auto simp: simulates_def)
  ultimately show ?thesis
    by blast
next
  case (net_import i a u n a')
  then show ?thesis
    using sim_import [OF assms(2)] by blast
next
  case (net_repairItem plan flr i rep item n rep')
  show ?thesis
    unfolding net_repairItem(1)
  proof (rule sim_written [OF assms(2)])
    show "nodeStore n = nodeStore (nw_nodes w i) \<and> handed n = handed (nw_nodes w i) \<and> written (nw_nodes w i) (rc_Key item) n = {}
        \<or> (\<exists>k v rm opt eff u. mutate (nodeStore (nw_nodes w i)) k v rm opt = (nodeStore n, eff, Inr u)
            \<and> handed n \<subseteq> insert u (handed (nw_nodes w i)) \<and> written (nw_nodes w i) (rc_Key item) n = {u})"
      using repairItem_write [OF net_repairItem(2)] by fast
  qed
next
  case (net_restart s cfg m i psk uuid)
  then show ?thesis
    using sim_restart [OF assms(2)] by blast
qed

lemma sim_start:
  assumes "net_start hmac t w"
  shows "\<exists>c. cluster_reachable t c \<and> simulates w c"
proof -
  obtain now where now: "\<And>i. now i \<le> t \<and> nodeStore (nw_nodes w i) = hooked (True, True) (NewKVStore i (now i))
      \<and> handed (nw_nodes w i) = {} \<and> nw_got w i = {}"
  proof -
    have "\<exists>now. now \<le> t \<and> nodeStore (nw_nodes w i) = hooked (True, True) (NewKVStore i now)
      \<and> handed (nw_nodes w i) = {} \<and> nw_got w i = {}" for i
      using spec [OF conjunct2 [OF assms [unfolded net_start_def]], of i]
      by (auto simp: New_def handed_def outUpdates_def hooked_def SetOnMutate_def SetOnChange_def SetLimits_def NewKVStore_def)
    then show ?thesis
      using that by metis
  qed
  then have "simulates w (cluster_init (True, True) now)"
    using assms by (simp add: simulates_def cluster_init_def fun_eq_iff net_start_def)
  moreover have "cluster_reachable t (cluster_init (True, True) now)"
    using now by (intro cl_init) blast
  ultimately show ?thesis
    by blast
qed

lemma sim_run:
  assumes "(net_step hmac unm rd sha t)\<^sup>*\<^sup>* w w'" "cluster_reachable t c" "simulates w c" "reads_kind unm"
  shows "\<exists>c'. cluster_reachable t c' \<and> simulates w' c'"
  using assms
proof (induction rule: rtranclp_induct)
  case (step w1 w2)
  then show ?case
    using sim_step reachable_star by meson
qed blast

text \<open>
  C2.  The network of engines refines the cluster of stores.  Nodes start empty and without limits, collect no
  tombstones and restart from the state they hold; they write, remove, sweep, repair, restore, import (seeds, and the
  network's own exports), check and gossip, and packets and streams are lost, repeated and reordered.  Whatever they
  do, their stores are those of a reachable state of the cluster in which every update a node has put on the wire was
  sent and every node received the updates of the frames it accepted and of the exports it merged.
\<close>

theorem network_refines_cluster:
  assumes "net_start hmac t w0" "reads_kind unm" "(net_step hmac unm rd sha t)\<^sup>*\<^sup>* w0 w"
  shows "\<exists>c. cluster_reachable t c \<and> c_nodes c = (\<lambda>i. nodeStore (nw_nodes w i)) \<and> c_got c = nw_got w \<and> on_wire w \<subseteq> c_sent c"
proof -
  obtain c where "cluster_reachable t c" "simulates w c"
    using sim_start [OF assms(1)] sim_run [OF assms(3) _ _ assms(2)] by blast
  then show ?thesis
    using wire_handed [of w c] by (auto simp: simulates_def)
qed

text \<open>
  C1.  The network converges.  In every state a network of nodes that start empty and without limits reaches, with
  no tombstone collection and no restart that loses what the node held, two nodes that have received the same updates,
  as far as a reader at \<open>t\<close> can tell, answer every read at \<open>t\<close> alike and hold the same version of
  every key, whatever else they were sent and in whatever order, and whatever was repaired, restored, seeded, merged
  from exports of the network or restarted meanwhile.
\<close>

theorem network_converges:
  assumes "net_start hmac t w0" "reads_kind unm" "(net_step hmac unm rd sha t)\<^sup>*\<^sup>* w0 w"
    and "update_views t (nw_got w a) = update_views t (nw_got w b)"
  shows "Get (SetClock t (nodeStore (nw_nodes w a))) k = Get (SetClock t (nodeStore (nw_nodes w b))) k
    \<and> map_option e_Version (fmlookup (kv_store (nodeStore (nw_nodes w a))) k) =
        map_option e_Version (fmlookup (kv_store (nodeStore (nw_nodes w b))) k)"
proof -
  obtain c where c: "cluster_reachable t c" "simulates w c"
    using sim_start [OF assms(1)] sim_run [OF assms(3) _ _ assms(2)] by blast
  then show ?thesis
    using cluster_agree [OF c(1), of a b k] assms(4) by (simp add: simulates_def)
qed

text \<open>A network of two nodes: one writes, and the packet with its update reaches the other.\<close>

definition demo_nodes :: "string \<Rightarrow> Node" where
  "demo_nodes i = New demo_hmac ''s'' ''u'' demo_cfg (demo_model\<lparr>md_Store := SetOnChange (NewKVStore i (6 * second)), md_NodeID := i,
     md_Nodes := (if i = ''n1'' then {|''h:2''|} else {||})\<rparr>)"

definition demo_net :: network where
  "demo_net = \<lparr>nw_nodes = demo_nodes, nw_got = (\<lambda>_. {}), nw_exports = {}\<rparr>"

definition demo_unm :: "MessageKind \<Rightarrow> bytes \<Rightarrow> message option" where
  "demo_unm kind body = (if kind = KindKV then Some (MsgKV demo_u) else None)"

definition demo_packet :: bytes where
  "demo_packet = the (Encode demo_hmac (NewCodec demo_hmac ''s'' ''c'') (5 * second) KindKV (Some [7]) (Some (replicate 8 9)))"

lemma demo_nodes_fields [simp]: "nodeStore (demo_nodes i) = hooked (True, True) (NewKVStore i (6 * second))"
  "nd_codec (demo_nodes i) = NewCodec demo_hmac ''s'' ''c''" "nd_outbox (demo_nodes i) = []"
  "md_Nodes (nd_Model (demo_nodes ''n1'')) = {|''h:2''|}"
  by (simp_all add: demo_nodes_def New_def hooked_def SetOnMutate_def SetOnChange_def SetLimits_def NewKVStore_def demo_cfg_def)

lemma demo_net_start: "net_start demo_hmac (6 * second) demo_net"
proof -
  have "nc_Limits demo_cfg = \<lparr>MaxValueBytes = 0, MaxKeys = 0\<rparr>"
    by (simp add: demo_cfg_def)
  moreover have "md_Store (demo_model\<lparr>md_Store := SetOnChange (NewKVStore i (6 * second)), md_NodeID := i, md_Nodes := x\<rparr>)
      = SetOnChange (NewKVStore i (6 * second))" for i x
    by simp
  ultimately show ?thesis
    unfolding net_start_def demo_net_def demo_nodes_def network.simps by blast
qed

lemma demo_packet_decodes:
  "snd (Decode demo_hmac (NewCodec demo_hmac ''s'' ''c'') (6 * second) demo_packet) = Inr (KindKV, [7])"
proof (rule Decode_Encode)
  show "Encode demo_hmac (NewCodec demo_hmac ''s'' ''c'') (5 * second) KindKV (Some [7]) (Some (replicate 8 9)) = Some demo_packet"
    by (simp add: demo_packet_def Encode_def Let_def)
qed (simp_all add: demo_hmac_def frame_sizes NewCodec_def DefaultSkew_def unix_def second_def)

lemma demo_mutate: "\<exists>kv' eff. mutate (hooked (True, True) (NewKVStore ''n1'' (6 * second))) ''k'' ''v'' False
    (zero_WriteOptions\<lparr>o_Expect := None, o_ExpiresAt := 0\<rparr>) = (kv', eff, Inr demo_u) \<and> Get (SetClock (6 * second) kv') ''k'' = Some ''v''"
  by (simp add: hooked_def eval_store demo_u_def Get_def SetClock_def visible_def expired_def)

lemma demo_write:
  obtains n where "writeKey ''k'' ''v'' 0 None (demo_nodes ''n1'') = (n, Inr demo_u)" "nd_outbox n = [(''h:2'', MsgKV demo_u)]"
    "Get (SetClock (6 * second) (nodeStore n)) ''k'' = Some ''v''"
proof -
  obtain kv' eff where m: "mutate (hooked (True, True) (NewKVStore ''n1'' (6 * second))) ''k'' ''v'' False
      (zero_WriteOptions\<lparr>o_Expect := None, o_ExpiresAt := 0\<rparr>) = (kv', eff, Inr demo_u)" "Get (SetClock (6 * second) kv') ''k'' = Some ''v''"
    using demo_mutate by blast
  let ?n = "fst (writeKey ''k'' ''v'' 0 None (demo_nodes ''n1''))"
  have "writeKey ''k'' ''v'' 0 None (demo_nodes ''n1'') = (?n, Inr demo_u)"
    by (simp add: writeKey_def finishWrite_def withStore_def Write_def m Let_def)
  moreover have "nd_outbox ?n = [(''h:2'', MsgKV demo_u)]"
    by (simp add: writeKey_def finishWrite_def withStore_def Write_def m Let_def broadcast_def addCount_def notify_def GetNodes_def)
  moreover have "nodeStore ?n = kv'"
    by (simp add: writeKey_def finishWrite_def withStore_def Write_def m Let_def)
  ultimately show thesis
    using that m(2) by metis
qed

lemma demo_unm_reads: "reads_kind demo_unm"
  by (simp add: reads_kind_def demo_unm_def)

text \<open>The run: \<open>n1\<close> writes and the packet with its update reaches \<open>n2\<close>.\<close>

lemma demo_run:
  obtains w where "(net_step demo_hmac demo_unm (\<lambda>_. None) (\<lambda>_. 0) (6 * second))\<^sup>*\<^sup>* demo_net w"
    "nw_got w ''n1'' = {demo_u}" "nw_got w ''n2'' = {demo_u}" "demo_u \<in> on_wire w"
    "Get (SetClock (6 * second) (nodeStore (nw_nodes w ''n1''))) ''k'' = Some ''v''"
proof -
  let ?step = "net_step demo_hmac demo_unm (\<lambda>_. None) (\<lambda>_. 0) (6 * second)"
  obtain n1 where n1: "writeKey ''k'' ''v'' 0 None (demo_nodes ''n1'') = (n1, Inr demo_u)" "nd_outbox n1 = [(''h:2'', MsgKV demo_u)]"
      "Get (SetClock (6 * second) (nodeStore n1)) ''k'' = Some ''v''"
    by (rule demo_write)
  define w1 where "w1 = nw_update ''n1'' n1 {demo_u} demo_net"
  have "nw_nodes demo_net ''n1'' = demo_nodes ''n1''"
    by (simp add: demo_net_def)
  then have s1: "?step demo_net w1"
    using net_write [of "''k''" "''v''" 0 None demo_net "''n1''" n1 "Inr demo_u"] n1(1) by (simp add: w1_def)
  have n2: "nw_nodes w1 ''n2'' = demo_nodes ''n2''"
    by (simp add: w1_def nw_update_def demo_net_def)
  have pk: "packetUpdates demo_hmac demo_unm demo_packet (demo_nodes ''n2'') = [demo_u]"
    using demo_packet_decodes by (cases "Decode demo_hmac (NewCodec demo_hmac ''s'' ''c'') (6 * second) demo_packet")
      (simp add: packetUpdates_def demo_unm_def NewKVStore_def)
  have "handlePacket demo_hmac demo_unm (\<lambda>_. None) (\<lambda>_. 0) 0 ''h:1'' demo_packet (demo_nodes ''n2'') \<noteq> None"
    using demo_packet_decodes by (cases "Decode demo_hmac (NewCodec demo_hmac ''s'' ''c'') (6 * second) demo_packet")
      (simp add: handlePacket_def dispatch_def demo_unm_def NewKVStore_def Let_def)
  then obtain n where n: "handlePacket demo_hmac demo_unm (\<lambda>_. None) (\<lambda>_. 0) 0 ''h:1'' demo_packet (demo_nodes ''n2'') = Some n"
    by blast
  let ?w = "nw_update ''n2'' n {demo_u} w1"
  have "demo_u \<in> outUpdates n1"
    by (simp add: outUpdates_def n1(2))
  then have wire: "demo_u \<in> on_wire w1" "demo_u \<in> on_wire ?w"
    by (auto simp: on_wire_def w1_def nw_update_def intro!: exI [of _ "''n1''"])
  then have s2: "?step w1 ?w"
    using net_packet [of demo_hmac demo_unm "\<lambda>_. None" "\<lambda>_. 0" 0 "''h:1''" demo_packet w1 "''n2''" n] n pk by (simp add: n2)
  have run: "?step\<^sup>*\<^sup>* demo_net ?w"
    using s1 s2 by (meson converse_rtranclp_into_rtranclp r_into_rtranclp)
  have "nw_got ?w ''n1'' = {demo_u}" "nw_got ?w ''n2'' = {demo_u}" "nw_nodes ?w ''n1'' = n1"
    by (simp_all add: w1_def nw_update_def demo_net_def)
  then show thesis
    using that [OF run] wire(2) n1(3) by simp
qed

theorem network_converges_witness:
  "\<exists>w. (net_step demo_hmac demo_unm (\<lambda>_. None) (\<lambda>_. 0) (6 * second))\<^sup>*\<^sup>* demo_net w
     \<and> nw_got w ''n2'' = {demo_u} \<and> Get (SetClock (6 * second) (nodeStore (nw_nodes w ''n2''))) ''k'' = Some ''v''"
proof -
  obtain w where w: "(net_step demo_hmac demo_unm (\<lambda>_. None) (\<lambda>_. 0) (6 * second))\<^sup>*\<^sup>* demo_net w"
      "nw_got w ''n1'' = {demo_u}" "nw_got w ''n2'' = {demo_u}" "demo_u \<in> on_wire w"
      "Get (SetClock (6 * second) (nodeStore (nw_nodes w ''n1''))) ''k'' = Some ''v''"
    by (rule demo_run)
  then show ?thesis
    using network_converges [OF demo_net_start demo_unm_reads w(1), of "''n1''" "''n2''" "''k''"] by force
qed

theorem network_refines_cluster_witness:
  "\<exists>w c. (net_step demo_hmac demo_unm (\<lambda>_. None) (\<lambda>_. 0) (6 * second))\<^sup>*\<^sup>* demo_net w
     \<and> cluster_reachable (6 * second) c \<and> c_got c ''n2'' = {demo_u} \<and> demo_u \<in> c_sent c
     \<and> Get (SetClock (6 * second) (c_nodes c ''n1'')) ''k'' = Some ''v''"
proof -
  obtain w where w: "(net_step demo_hmac demo_unm (\<lambda>_. None) (\<lambda>_. 0) (6 * second))\<^sup>*\<^sup>* demo_net w"
      "nw_got w ''n1'' = {demo_u}" "nw_got w ''n2'' = {demo_u}" "demo_u \<in> on_wire w"
      "Get (SetClock (6 * second) (nodeStore (nw_nodes w ''n1''))) ''k'' = Some ''v''"
    by (rule demo_run)
  obtain c where "cluster_reachable (6 * second) c" "c_nodes c = (\<lambda>i. nodeStore (nw_nodes w i))" "c_got c = nw_got w" "on_wire w \<subseteq> c_sent c"
    using network_refines_cluster [OF demo_net_start demo_unm_reads w(1)] by blast
  then show ?thesis
    using w by (intro exI [of _ w] exI [of _ c]) auto
qed

text \<open>
  Why collection is left out: two replicas receive the same updates in the same order, a value, its deletion and the
  value again; the one that collected the tombstone in between shows the deleted value, the other does not.
\<close>

definition demo_del :: KVUpdate where
  "demo_del = demo_u\<lparr>u_Action := KVDelete, u_Value := [], u_Version := Version 2 ''n1'', u_DeletedAt := 1\<rparr>"

lemma demo_updates_holdable: "holdable demo_u" "holdable demo_del"
  by (simp_all add: holdable_def demo_del_def demo_u_def representable_def EscapedLen_def escapedLenFrom.simps
      asciiEscapeLen_def byte_def MaxReplicableValueBytes_eq)

lemma collection_splits_replicas:
  assumes kv: "kv = fst (ApplyWithReason (fst (ApplyWithReason (NewKVStore ''n2'' (100 * second)) demo_u)) demo_del)"
  shows "Get (fst (ApplyWithReason (fst (GCTombstones kv (10 * second))) demo_u)) ''k'' = Some ''v''"
    and "Get (fst (ApplyWithReason kv demo_u)) ''k'' = None"
proof -
  have us: "u_Key demo_u = ''k''" "u_Version demo_u = Version 1 ''n1''" "u_Key demo_del = ''k''" "u_Version demo_del = Version 2 ''n1''"
      "u_Action demo_del = KVDelete" "u_DeletedAt demo_del = 1"
    by (simp_all add: demo_u_def demo_del_def)
  have kept: "unlimited (fst (ApplyWithReason s u)) = unlimited s" for s u
    by (simp add: unlimited_def)
  define kv0 where "kv0 = fst (ApplyWithReason (NewKVStore ''n2'' (100 * second)) demo_u)"
  have new: "unlimited (NewKVStore ''n2'' (100 * second))" "kv_store (NewKVStore ''n2'' (100 * second)) = fmempty"
    by (simp_all add: unlimited_def NewKVStore_def)
  have kv0: "unlimited kv0" "fmlookup (kv_store kv0) ''k'' = Some (applyEntry demo_u 100)" "kv_now kv0 = 100 * second"
    using new demo_updates_holdable(1) by (simp_all add: kv0_def kept ApplyWithReason_store applyRefusal_unlimited staleFor_def us NewKVStore_def)
      (simp add: unix_def second_def)
  have kv: "kv = fst (ApplyWithReason kv0 demo_del)"
    by (simp add: kv kv0_def)
  have kv1: "unlimited kv" "fmlookup (kv_store kv) ''k'' = Some (applyEntry demo_del 100)" "kv_now kv = 100 * second"
    using kv0 demo_updates_holdable(2)
    by (simp_all add: kv kept ApplyWithReason_store applyRefusal_unlimited staleFor_def us less_eq_version_def less_version_def)
      (simp add: unix_def second_def)
  have gc: "unlimited (fst (GCTombstones kv (10 * second)))" "fmlookup (kv_store (fst (GCTombstones kv (10 * second)))) ''k'' = None"
    using kv1 by (simp_all add: unlimited_def GCTombstones_lookup collectable_def applyEntry_def us) (simp add: unix_def second_def)
  have "fmlookup (kv_store (fst (ApplyWithReason (fst (GCTombstones kv (10 * second))) demo_u))) ''k'' =
      Some (applyEntry demo_u (unix (100 * second)))"
    using gc kv1(3) demo_updates_holdable(1) by (simp add: ApplyWithReason_store applyRefusal_unlimited staleFor_def us(1))
  then show "Get (fst (ApplyWithReason (fst (GCTombstones kv (10 * second))) demo_u)) ''k'' = Some ''v''"
    by (simp add: Get_def visible_def expired_def demo_u_def)
  have "staleFor kv demo_u"
    using kv1(2) by (simp add: staleFor_def us less_eq_version_def less_version_def)
  then have "kv_store (fst (ApplyWithReason kv demo_u)) = kv_store kv"
    by (simp add: ApplyWithReason_store)
  then show "Get (fst (ApplyWithReason kv demo_u)) ''k'' = None"
    using kv1(2) by (simp add: Get_def visible_def demo_del_def)
qed

end
