(* ===== verification/EngineEffects.thy ===== *)
theory EngineEffects
  imports EngineInvariants
begin

text \<open>
  What single operations of the engine do: how a batch and a snapshot are counted, what a local write
  sends and publishes, and four behaviours the code's comments do not mention.
\<close>

section \<open>Counting updates\<close>

definition outcomeOf :: "bool \<times> kvError option \<Rightarrow> counter" where
  "outcomeOf r = (if fst r then KVApplied else if snd r \<noteq> None then KVRefused else KVRejectedStale)"

fun outcomes :: "kvStore \<Rightarrow> KVUpdate list \<Rightarrow> counter list" where
  "outcomes kv [] = []"
| "outcomes kv (u # us) = outcomeOf (snd (snd (ApplyWithReason kv u))) # outcomes (fst (ApplyWithReason kv u)) us"

definition tallied :: "(counter \<Rightarrow> u64) \<Rightarrow> counter list \<Rightarrow> counter \<Rightarrow> u64" where
  "tallied m cs = (\<lambda>c. m c + word_of_nat (count_list cs c))"

lemma tallied_Nil [simp]: "tallied m [] = m"
  by (simp add: tallied_def)

lemma tallied_Cons: "tallied m (c # cs) = tallied (tallied m [c]) cs"
  by (auto simp: tallied_def fun_eq_iff)

lemma metrics_simps [simp]: "nd_Metrics (notify e n) = nd_Metrics n" "nd_Metrics (logActivity l n) = nd_Metrics n"
  "nd_Metrics (addCount c k n) = (nd_Metrics n)(c := nd_Metrics n c + k)" "nd_Metrics (fst (withStore f n)) = nd_Metrics n"
  "nd_Metrics (onModel g n) = nd_Metrics n"
  by (simp_all add: notify_def logActivity_def addCount_def onModel_def withStore_def Let_def split_beta)

lemma applyRemote_counts:
  "nd_Metrics (fst (applyRemote u n)) = tallied (nd_Metrics n) [outcomeOf (snd (snd (ApplyWithReason (nodeStore n) u)))]"
  "nodeStore (fst (applyRemote u n)) = fst (ApplyWithReason (nodeStore n) u)"
  "snd (applyRemote u n) = (outcomeOf (snd (snd (ApplyWithReason (nodeStore n) u))) = KVApplied)"
  using withStore_store [of "\<lambda>kv. ApplyWithReason kv u" n]
  by (auto simp: applyRemote_def Let_def split_beta outcomeOf_def tallied_def fun_eq_iff split: option.split)

lemma mergeUpdate_counts:
  "nd_Metrics (fst (mergeUpdate x u)) = tallied (nd_Metrics (fst x)) [outcomeOf (snd (snd (ApplyWithReason (nodeStore (fst x)) u)))]"
  "nodeStore (fst (mergeUpdate x u)) = fst (ApplyWithReason (nodeStore (fst x)) u)"
  "snd (mergeUpdate x u) = (snd x \<or> outcomeOf (snd (snd (ApplyWithReason (nodeStore (fst x)) u))) = KVApplied)"
  using withStore_store [of "\<lambda>kv. ApplyWithReason kv u" "fst x"]
  by (auto simp: mergeUpdate_def Let_def split_beta outcomeOf_def tallied_def fun_eq_iff)

lemma batchStep_counts:
  "nd_Metrics (fst (batchStep x u)) = tallied (nd_Metrics (fst x)) [outcomeOf (snd (snd (ApplyWithReason (nodeStore (fst x)) u)))]"
  "nodeStore (fst (batchStep x u)) = fst (ApplyWithReason (nodeStore (fst x)) u)"
  "snd (batchStep x u) = (snd x \<or> outcomeOf (snd (snd (ApplyWithReason (nodeStore (fst x)) u))) = KVApplied)"
  using applyRemote_counts [of u "fst x"] by (auto simp: batchStep_def split_beta)

lemma fold_counts:
  assumes "\<And>x u. nd_Metrics (fst (f x u)) = tallied (nd_Metrics (fst x)) [outcomeOf (snd (snd (ApplyWithReason (nodeStore (fst x)) u)))]"
    and "\<And>x u. nodeStore (fst (f x u)) = fst (ApplyWithReason (nodeStore (fst x)) u)"
    and "\<And>x u. snd (f x u) = (snd x \<or> outcomeOf (snd (snd (ApplyWithReason (nodeStore (fst x)) u))) = KVApplied)"
  shows "nd_Metrics (fst (foldl f x us)) = tallied (nd_Metrics (fst x)) (outcomes (nodeStore (fst x)) us)
    \<and> nodeStore (fst (foldl f x us)) = applyAll (nodeStore (fst x)) us
    \<and> snd (foldl f x us) = (snd x \<or> KVApplied \<in> set (outcomes (nodeStore (fst x)) us))"
  using assms
proof (induction us arbitrary: x)
  case (Cons u us)
  then show ?case
    using Cons.IH [of "f x u"]
      tallied_Cons [of "nd_Metrics (fst x)" "outcomeOf (snd (snd (ApplyWithReason (nodeStore (fst x)) u)))" "outcomes (fst (ApplyWithReason (nodeStore (fst x)) u)) us"]
    by (auto simp: applyAll_def)
qed (simp add: applyAll_def)

lemma addCount_tallied: "nd_Metrics (addCount c 1 n) = tallied (nd_Metrics n) [c]"
  by (auto simp: tallied_def fun_eq_iff)

lemma notices_simps: "nd_notices (notify e n) = nd_notices n @ [e]" "nd_notices (logActivity l n) = nd_notices n @ [ActivityChanged]"
  "nd_notices (addCount c k n) = nd_notices n" "nd_notices (fst (withStore f n)) = nd_notices n" "nd_notices (onModel g n) = nd_notices n"
  by (simp_all add: notify_def logActivity_def addCount_def onModel_def withStore_def Let_def split_beta)

lemma batch_notices: "nd_notices (fst (foldl batchStep x us)) = nd_notices (fst x) @ replicate (length us) ActivityChanged"
  by (induction us arbitrary: x)
    (auto simp: batchStep_def applyRemote_def Let_def split_beta notices_simps split: option.split)

lemma merge_notices: "nd_notices (fst (foldl mergeUpdate x us)) = nd_notices (fst x)"
  by (induction us arbitrary: x) (simp_all add: mergeUpdate_def split_beta notices_simps)

text \<open>
  Every update is accounted for.  A batch, or the updates of a state snapshot, leaves the store as applying
  them in order does and adds each update to exactly one of the counters applied, refused and stale; no other
  counter moves (but the snapshot's own), and the front end hears of a change exactly when something was applied.
\<close>

theorem updates_accounted:
  "nodeStore (handleKVBatch us n) = applyAll (nodeStore n) us
   \<and> nd_Metrics (handleKVBatch us n) = tallied (nd_Metrics n) (outcomes (nodeStore n) us)
   \<and> nd_notices (handleKVBatch us n) = nd_notices n @ replicate (length us) ActivityChanged
        @ (if KVApplied \<in> set (outcomes (nodeStore n) us) then [KVChanged] else [])
   \<and> nodeStore (mergeState r n) = applyAll (nodeStore n) (sr_KV r)
   \<and> nd_Metrics (mergeState r n) = tallied (nd_Metrics n) (StateSyncIn # outcomes (nodeStore n) (sr_KV r))
   \<and> nd_notices (mergeState r n) = nd_notices n @ (if sr_Chat r = [] then [] else [ChatChanged])
        @ (if KVApplied \<in> set (outcomes (nodeStore n) (sr_KV r)) then [ActivityChanged, KVChanged] else [])"
proof -
  let ?b = "foldl batchStep (n, False) us" and ?m = "foldl mergeUpdate (addCount StateSyncIn 1 n, False) (sr_KV r)"
  have b: "nd_Metrics (fst ?b) = tallied (nd_Metrics n) (outcomes (nodeStore n) us)" "nodeStore (fst ?b) = applyAll (nodeStore n) us"
      "snd ?b = (KVApplied \<in> set (outcomes (nodeStore n) us))" "nd_notices (fst ?b) = nd_notices n @ replicate (length us) ActivityChanged"
    using fold_counts [of batchStep "(n, False)" us, OF batchStep_counts] batch_notices [of "(n, False)" us] by simp_all
  have m: "nd_Metrics (fst ?m) = tallied (nd_Metrics n) (StateSyncIn # outcomes (nodeStore n) (sr_KV r))"
      "nodeStore (fst ?m) = applyAll (nodeStore n) (sr_KV r)" "snd ?m = (KVApplied \<in> set (outcomes (nodeStore n) (sr_KV r)))"
      "nd_notices (fst ?m) = nd_notices n"
    using fold_counts [of mergeUpdate "(addCount StateSyncIn 1 n, False)" "sr_KV r", OF mergeUpdate_counts]
      merge_notices [of "(addCount StateSyncIn 1 n, False)" "sr_KV r"]
    by (simp_all add: tallied_Cons [of "nd_Metrics n" StateSyncIn "outcomes (nodeStore n) (sr_KV r)"] addCount_tallied notices_simps
        del: metrics_simps)
  show ?thesis
    using b m by (simp add: handleKVBatch_def mergeState_def split_beta Let_def notices_simps)
qed

section \<open>Local writes\<close>

text \<open>
  C22.  A local write.  Refused, it changes nothing of the node but the counter of failed swaps (and only for a version
  mismatch).  Accepted, the store holds the returned update, exactly that update goes to every known peer and to nobody
  else, the write is counted once, the watchers' stream advances by exactly that update, and a node with a state file is dirty.
\<close>

theorem write_replicated:
  assumes "writeKey k v ttl expect n = (n', r)" "kv_onMutate (nodeStore n)" "kv_onChange (nodeStore n)"
  shows "(\<forall>err. r = Inl err \<longrightarrow> n' = (if err = ErrVersionMismatch then addCount KVCASFailures 1 n else n))
    \<and> (\<forall>u. r = Inr u \<longrightarrow> u \<in> held (nodeStore n') \<and> u_Key u = k \<and> u_Value u = v \<and> Node (u_Version u) = kv_node (nodeStore n)
       \<and> nd_outbox n' = nd_outbox n @ map (\<lambda>a. (a, MsgKV u)) (GetNodes (nd_Model n))
       \<and> nd_Metrics n' = (nd_Metrics n)(KVLocalWrites := nd_Metrics n KVLocalWrites + 1)
       \<and> nd_hub n' = publishMutations (nd_uuid n) [\<lparr>ev_ID = '''', ev_Source = KVSourceLocal, ev_Update = u\<rparr>] (nd_hub n)
       \<and> (md_persister (nd_Model n) \<noteq> None \<longrightarrow> md_dirty (nd_Model n')))"
proof -
  let ?opt = "zero_WriteOptions\<lparr>o_Expect := expect, o_ExpiresAt := (if ttl > 0 then unix (nodeNow n + ttl) else 0)\<rparr>"
  let ?kv = "nodeStore n"
  have eq: "(n', r) = finishWrite (withStore (\<lambda>kv. mutate kv k v False ?opt) n)"
    using assms(1) by (simp add: writeKey_def Write_def)
  show ?thesis
  proof (cases "mutateRefusal ?kv k v False ?opt")
    case (Some err)
    then have "mutate ?kv k v False ?opt = (?kv, no_effects, Inl err)"
      by (simp add: mutate_def)
    then have "withStore (\<lambda>kv. mutate kv k v False ?opt) n = (n, Inl err)"
      by (simp add: withStore_def no_effects_def)
    then show ?thesis
      using eq by (auto simp: finishWrite_def)
  next
    case None
    define u where "u = \<lparr>u_Action = KVSet, u_Key = k, u_Value = v, u_Version = Version (nextClock ?kv ?opt + 1) (kv_node ?kv),
      u_ExpiresAt = o_ExpiresAt ?opt, u_DeletedAt = 0\<rparr>"
    have "\<exists>kv' eff. mutate ?kv k v False ?opt = (kv', eff, Inr u)
        \<and> fmlookup (kv_store kv') k = Some (mutateEntry ?kv v False ?opt)
        \<and> eff_change eff \<and> eff_events eff = [\<lparr>ev_ID = '''', ev_Source = KVSourceLocal, ev_Update = u\<rparr>]"
      using None assms(2,3) by (simp add: mutate_def Let_def mutateEntry_def recordLocked_def emit_def u_def)
    then obtain kv' eff where m: "mutate ?kv k v False ?opt = (kv', eff, Inr u)"
        "fmlookup (kv_store kv') k = Some (mutateEntry ?kv v False ?opt)"
        "eff_change eff" "eff_events eff = [\<lparr>ev_ID = '''', ev_Source = KVSourceLocal, ev_Update = u\<rparr>]"
      by blast
    have "entryUpdate k (mutateEntry ?kv v False ?opt) = u"
      by (simp add: entryUpdate_def mutateEntry_def u_def)
    then have "u \<in> held kv'"
      using heldI [OF m(2)] by simp
    then show ?thesis
      using eq m(1,3,4) by (auto simp: finishWrite_def withStore_def Let_def broadcast_def addCount_def notify_def GetNodes_def u_def Persist_def split: option.split)
  qed
qed

theorem write_replicated_witness:
  "\<exists>u. u \<in> held (nodeStore (fst (writeKey ''k'' ''v'' 0 None (demo_node\<lparr>nd_Model := (nd_Model demo_node)\<lparr>md_Store := SetOnChange (nodeStore demo_node)\<rparr>\<rparr>))))
     \<and> u_Value u = ''v''"
proof -
  let ?n = "demo_node\<lparr>nd_Model := (nd_Model demo_node)\<lparr>md_Store := SetOnChange (nodeStore demo_node)\<rparr>\<rparr>"
  have flags: "kv_onMutate (nodeStore ?n)" "kv_onChange (nodeStore ?n)"
    by (simp_all add: demo_node_def New_def SetOnMutate_def SetOnChange_def)
  have "mutateRefusal (nodeStore ?n) ''k'' ''v'' False (zero_WriteOptions\<lparr>o_Expect := None, o_ExpiresAt := 0\<rparr>) = None"
    by (simp add: demo_node_def New_def demo_model_def demo_cfg_def SetOnMutate_def SetOnChange_def SetLimits_def eval_store)
  then have "\<exists>u. snd (writeKey ''k'' ''v'' 0 None ?n) = Inr u"
    by (simp add: writeKey_def finishWrite_def withStore_def Write_def mutate_def Let_def)
  then obtain u where "writeKey ''k'' ''v'' 0 None ?n = (fst (writeKey ''k'' ''v'' 0 None ?n), Inr u)"
    by (metis prod.collapse)
  from write_replicated [OF this flags] show ?thesis
    by blast
qed

section \<open>Behaviours worth knowing\<close>

definition forged_line :: ChatEntry where
  "forged_line = \<lparr>ce_TS = 1, ce_Sender = '':1'', ce_Nick = '''', ce_Text = ''x'', ce_Kind = ChatMsg, ce_To = '''', ce_Seq = 7, ce_Node = ''n1''\<rparr>"

definition forged_message :: ChatMessage where
  "forged_message = \<lparr>m_Sender = '':1'', m_Nick = '''', m_Text = ''x'', m_TS = 1, m_Action = False, m_To = '''', m_Seq = 7,
     m_Node = ''n1'', m_Hops = 0\<rparr>"

text \<open>
  A line this node never wrote is refused as a broadcast but taken from a state response, and then served to a peer as its own.
\<close>

lemma state_sync_takes_own_lines:
  "md_chatSeq (nd_Model demo_node) = 0
   \<and> snd (acceptChat forged_message demo_node) = False
   \<and> md_chatLog (nd_Model (handleStateResponse \<lparr>sr_KV = [], sr_Chat = [forged_line]\<rparr> demo_node)) = [forged_line]
   \<and> map (cb_Messages \<circ> (\<lambda>x. case snd x of MsgChatBacklog b \<Rightarrow> b)) (nd_outbox (handleChatPull \<lparr>cp_From = ''h:2'', cp_Seqs = [7]\<rparr>
        (handleStateResponse \<lparr>sr_KV = [], sr_Chat = [forged_line]\<rparr> demo_node))) = [[forged_message]]"
  by (simp add: demo_node_def New_def demo_model_def demo_cfg_def forged_line_def forged_message_def acceptChat_def selfAttributed_def addCount_def
      handleStateResponse_def mergeState_def onModel_def notify_def PrependChat_def ring_def chatRing_def Persist_def
      handleChatPull_def OwnChat_def ownBySeq_def ownLine_def send_def backlogMessage_def MaxChatPull_def map_filter_simps Let_def)

text \<open>An import as local writes counts an entry the store refused.\<close>

definition limited_node :: Node where
  "limited_node = New demo_hmac ''s'' ''u'' (demo_cfg\<lparr>nc_Limits := \<lparr>MaxValueBytes = 1, MaxKeys = 0\<rparr>\<rparr>) demo_model"

lemma import_counts_refused:
  "snd (Import [demo_update\<lparr>u_Value := ''vv''\<rparr>] True limited_node) = 1
   \<and> nodeStore (fst (Import [demo_update\<lparr>u_Value := ''vv''\<rparr>] True limited_node)) = nodeStore limited_node"
proof -
  have "mutateRefusal (nodeStore limited_node) ''k'' ''vv'' False (zero_WriteOptions\<lparr>o_Expect := None, o_ExpiresAt := 0\<rparr>) = Some ErrTooLarge"
    by (simp add: limited_node_def New_def demo_model_def demo_cfg_def SetOnMutate_def SetLimits_def eval_store ValidString_ascii_all byte_def)
  then have "writeKey ''k'' ''vv'' 0 None limited_node = (limited_node, Inl ErrTooLarge)"
    by (simp add: writeKey_def finishWrite_def withStore_def Write_def mutate_def no_effects_def)
  then show ?thesis
    by (simp add: Import_def importEntry_def NodeSet_def demo_update_def Let_def)
qed

text \<open>A backlog that names a line nobody was waiting for still counts it as lost.\<close>

lemma backlog_counts_unasked_loss:
  "nd_chatGaps (handleChatBacklog \<lparr>cb_From = ''h:2'', cb_Messages = [], cb_Unavailable = [9]\<rparr> demo_node) = nd_chatGaps demo_node
   \<and> nd_Metrics (handleChatBacklog \<lparr>cb_From = ''h:2'', cb_Messages = [], cb_Unavailable = [9]\<rparr> demo_node) ChatLost = 1"
  by (simp add: demo_node_def New_def demo_model_def demo_cfg_def handleChatBacklog_def MarkUnavailable_def logActivity_def notify_def addCount_def
      Seed_def newChatTracker_def ChatLog_def Let_def)


end
