(* ===== verification/Bootstrap.thy ===== *)
theory Bootstrap
  imports NodeEngine
begin

text \<open>
  The rendezvous service (\<open>pkg/bootstrap/model/model.go\<close>, \<open>pkg/bootstrap/server/server.go\<close>): the roster of registered
  nodes, its file, and the server that answers REGISTER and DISCOVER.

  The service's clock is \<open>bs_now\<close>.  \<open>bs_disk\<close> is the roster file: \<open>None\<close> when there is none, otherwise what \<open>json.Unmarshal\<close>
  reads from it (\<open>None\<close> when it does not parse).  A save writes a temporary file and renames it, so it either replaces the
  file or leaves it; which of the two is the argument \<open>ok\<close> of the operations that save.  The JSON of requests and rosters
  and the codec's HMAC are parameters, as in the engine.
\<close>

section \<open>The roster\<close>

record NodeInfo =
  ni_Addr :: string
  ni_Nick :: string
  ni_LastSeen :: nanos

record rosterModel =
  bs_NodeTimeout :: nanos
  bs_DataPath :: string
  bs_nodes :: "(string, NodeInfo) fmap"
  bs_now :: nanos
  bs_disk :: "NodeInfo list option option"

definition loadRoster :: "rosterModel \<Rightarrow> rosterModel" where
  "loadRoster bn =
     (if bs_DataPath bn = '''' then bn
      else case bs_disk bn of
        None \<Rightarrow> bn
      | Some None \<Rightarrow> bn
      | Some (Some nodes) \<Rightarrow>
          bn\<lparr>bs_nodes := foldl (\<lambda>m n. if ni_Addr n = '''' then m else fmupd (ni_Addr n) (n\<lparr>ni_LastSeen := bs_now bn\<rparr>) m) (bs_nodes bn) nodes\<rparr>)"

definition NewRosterModel :: "nanos \<Rightarrow> string \<Rightarrow> nanos \<Rightarrow> NodeInfo list option option \<Rightarrow> rosterModel" where
  "NewRosterModel nodeTimeout dataPath now disk =
     loadRoster \<lparr>bs_NodeTimeout = nodeTimeout, bs_DataPath = dataPath, bs_nodes = fmempty, bs_now = now, bs_disk = disk\<rparr>"

definition GetNodeInfos :: "rosterModel \<Rightarrow> NodeInfo list" where
  "GetNodeInfos bn = map snd (fmentries (bs_nodes bn))"

definition saveRoster :: "bool \<Rightarrow> rosterModel \<Rightarrow> rosterModel" where
  "saveRoster ok bn =
     (if bs_DataPath bn = '''' then bn
      else if ok then bn\<lparr>bs_disk := Some (Some (GetNodeInfos bn))\<rparr> else bn)"

definition RegisterNode :: "bool \<Rightarrow> string \<Rightarrow> string \<Rightarrow> rosterModel \<Rightarrow> rosterModel \<times> bool" where
  "RegisterNode ok address nick bn =
     (if address = '''' then (bn, False)
      else
        let prev = fmlookup (bs_nodes bn) address;
            prevNick = (case prev of None \<Rightarrow> '''' | Some p \<Rightarrow> ni_Nick p);
            info = \<lparr>ni_Addr = address, ni_Nick = (if nick = '''' then prevNick else nick), ni_LastSeen = bs_now bn\<rparr>;
            bn1 = bn\<lparr>bs_nodes := fmupd address info (bs_nodes bn)\<rparr>;
            changed = (prev = None \<or> prevNick \<noteq> ni_Nick info)
        in (if changed then saveRoster ok bn1 else bn1, prev = None))"

definition staleNode :: "rosterModel \<Rightarrow> NodeInfo \<Rightarrow> bool" where
  "staleNode bn info \<longleftrightarrow> bs_now bn - ni_LastSeen info > bs_NodeTimeout bn"

definition RemoveStaleNodes :: "bool \<Rightarrow> rosterModel \<Rightarrow> rosterModel \<times> NodeInfo list" where
  "RemoveStaleNodes ok bn =
     (let removed = map snd (filter (\<lambda>(a, info). staleNode bn info) (fmentries (bs_nodes bn)));
          bn1 = bn\<lparr>bs_nodes := fmfilter (\<lambda>a. \<not> staleNode bn (the (fmlookup (bs_nodes bn) a))) (bs_nodes bn)\<rparr>
      in (if removed \<noteq> [] then saveRoster ok bn1 else bn1, removed))"

definition RosterAddrs :: "rosterModel \<Rightarrow> string list" where
  "RosterAddrs bn = map ni_Addr (GetNodeInfos bn)"

definition Roster :: "string \<Rightarrow> rosterModel \<Rightarrow> BootstrapRoster" where
  "Roster exclude bn = \<lparr>ro_Peers = map (\<lambda>n. \<lparr>bp_Addr = ni_Addr n, bp_Nick = ni_Nick n, bp_LastSeen = unix (ni_LastSeen n)\<rparr>)
      (filter (\<lambda>n. ni_Addr n \<noteq> exclude) (GetNodeInfos bn)), ro_SeenAt = ''''\<rparr>"

section \<open>The server\<close>

record bootServer =
  sv_Model :: rosterModel
  sv_codec :: codec
  sv_sent :: "(string \<times> BootstrapRoster) list"
  sv_notified :: nat

definition NewServer :: "(bytes \<Rightarrow> bytes \<Rightarrow> bytes) \<Rightarrow> string \<Rightarrow> string \<Rightarrow> nanos \<Rightarrow> string \<Rightarrow> nanos \<Rightarrow> NodeInfo list option option \<Rightarrow> bootServer" where
  "NewServer hmac psk cluster timeout dataPath now disk =
     \<lparr>sv_Model = NewRosterModel (if timeout = 0 then 30 * second else timeout) dataPath now disk,
      sv_codec = NewCodec hmac psk (if cluster = '''' then DefaultCluster else cluster), sv_sent = [], sv_notified = 0\<rparr>"

definition serverNotify :: "bootServer \<Rightarrow> bootServer" where
  "serverNotify s = s\<lparr>sv_notified := sv_notified s + 1\<rparr>"

definition registerWith :: "bool \<Rightarrow> string \<Rightarrow> string \<Rightarrow> bootServer \<Rightarrow> bootServer" where
  "registerWith ok addr nick s = (case RegisterNode ok addr nick (sv_Model s) of (m, new) \<Rightarrow>
     let s1 = s\<lparr>sv_Model := m\<rparr> in if new then serverNotify s1 else s1)"

text \<open>
  \<open>handle\<close>: \<open>seenAt\<close> is the source address the transport observed and \<open>replyTo\<close> where a reply goes.  \<open>enc\<close> says
  whether the reply could be encoded.
\<close>

definition serverHandle ::
  "bool \<Rightarrow> bool \<Rightarrow> (MessageKind \<Rightarrow> bytes \<Rightarrow> message option) \<Rightarrow> MessageKind \<Rightarrow> bytes \<Rightarrow> string \<Rightarrow> string \<Rightarrow> bootServer \<Rightarrow> bootServer" where
  "serverHandle ok enc unm kind body seenAt replyTo s =
     (if kind = KindBootstrapRegister then
        (case unm kind body of
           Some (MsgBootstrapRegister reg) \<Rightarrow> if br_From reg = '''' then s else registerWith ok (br_From reg) (br_Nick reg) s
         | _ \<Rightarrow> s)
      else if kind = KindBootstrapDiscover then
        (case unm kind body of
           Some (MsgBootstrapDiscover from) \<Rightarrow>
             let s1 = (if from \<noteq> '''' then registerWith ok from '''' s else s);
                 roster = (Roster from (sv_Model s1))\<lparr>ro_SeenAt := seenAt\<rparr>
             in if enc then s1\<lparr>sv_sent := sv_sent s1 @ [(replyTo, roster)]\<rparr> else s1
         | _ \<Rightarrow> s)
      else s)"

definition replyAddr :: "(MessageKind \<Rightarrow> bytes \<Rightarrow> message option) \<Rightarrow> string \<Rightarrow> bytes \<Rightarrow> MessageKind \<Rightarrow> string" where
  "replyAddr unm from body kind =
     (if kind = KindBootstrapDiscover
      then (case unm kind body of Some (MsgBootstrapDiscover f) \<Rightarrow> if f \<noteq> '''' then f else from | _ \<Rightarrow> from)
      else from)"

definition serverPacket ::
  "bool \<Rightarrow> bool \<Rightarrow> (bytes \<Rightarrow> bytes \<Rightarrow> bytes) \<Rightarrow> (MessageKind \<Rightarrow> bytes \<Rightarrow> message option) \<Rightarrow> string \<Rightarrow> bytes \<Rightarrow> bootServer \<Rightarrow> bootServer" where
  "serverPacket ok enc hmac unm from frame s = (case Decode hmac (sv_codec s) (bs_now (sv_Model s)) frame of
     (c, Inl err) \<Rightarrow> s\<lparr>sv_codec := c\<rparr>
   | (c, Inr (kind, body)) \<Rightarrow> serverHandle ok enc unm kind body from (replyAddr unm from body kind) (s\<lparr>sv_codec := c\<rparr>))"

text \<open>A stream is answered on its own connection, whatever address the request advertises.\<close>

definition serverStream ::
  "bool \<Rightarrow> bool \<Rightarrow> (bytes \<Rightarrow> bytes \<Rightarrow> bytes) \<Rightarrow> (MessageKind \<Rightarrow> bytes \<Rightarrow> message option) \<Rightarrow> string \<Rightarrow> bytes \<Rightarrow> bootServer \<Rightarrow> bootServer" where
  "serverStream ok enc hmac unm conn frame s = (case Decode hmac (sv_codec s) (bs_now (sv_Model s)) frame of
     (c, Inl err) \<Rightarrow> s\<lparr>sv_codec := c\<rparr>
   | (c, Inr (kind, body)) \<Rightarrow> serverHandle ok enc unm kind body conn conn (s\<lparr>sv_codec := c\<rparr>))"

definition sweepInterval :: "rosterModel \<Rightarrow> nanos" where
  "sweepInterval bn = (let i = bs_NodeTimeout bn div 2 in if i \<le> 0 then second else i)"

definition serverSweep :: "bool \<Rightarrow> bootServer \<Rightarrow> bootServer" where
  "serverSweep ok s = (case RemoveStaleNodes ok (sv_Model s) of (m, removed) \<Rightarrow>
     let s1 = s\<lparr>sv_Model := m\<rparr> in if removed \<noteq> [] then serverNotify s1 else s1)"

section \<open>Runs\<close>

text \<open>
  Everything that can happen to a service: packets and stream frames of arbitrary bytes, sweeps, time passing, and a restart from its
  file.  \<open>ok\<close> is whether a save succeeds.
\<close>

inductive serverStep ::
  "(bytes \<Rightarrow> bytes \<Rightarrow> bytes) \<Rightarrow> (MessageKind \<Rightarrow> bytes \<Rightarrow> message option) \<Rightarrow> (bool \<Rightarrow> bool) \<Rightarrow> bootServer \<Rightarrow> bootServer \<Rightarrow> bool"
  for hmac unm saves where
  sv_packet: "saves ok \<Longrightarrow> serverStep hmac unm saves s (serverPacket ok enc hmac unm src frame s)"
| sv_stream: "saves ok \<Longrightarrow> serverStep hmac unm saves s (serverStream ok enc hmac unm conn frame s)"
| sv_sweep: "saves ok \<Longrightarrow> serverStep hmac unm saves s (serverSweep ok s)"
| sv_time: "bs_now (sv_Model s) \<le> t \<Longrightarrow> serverStep hmac unm saves s (s\<lparr>sv_Model := (sv_Model s)\<lparr>bs_now := t\<rparr>\<rparr>)"
| sv_restart: "serverStep hmac unm saves s (NewServer hmac psk cluster (bs_NodeTimeout (sv_Model s)) (bs_DataPath (sv_Model s))
     (bs_now (sv_Model s)) (bs_disk (sv_Model s)))"

text \<open>What a step does to the roster.\<close>

inductive rosterStep :: "(bool \<Rightarrow> bool) \<Rightarrow> rosterModel \<Rightarrow> rosterModel \<Rightarrow> bool" for saves where
  rs_same: "rosterStep saves m m"
| rs_register: "saves ok \<Longrightarrow> rosterStep saves m (fst (RegisterNode ok a nick m))"
| rs_sweep: "saves ok \<Longrightarrow> rosterStep saves m (fst (RemoveStaleNodes ok m))"
| rs_time: "bs_now m \<le> t \<Longrightarrow> rosterStep saves m (m\<lparr>bs_now := t\<rparr>)"
| rs_restart: "bs_NodeTimeout m \<noteq> 0 \<Longrightarrow> rosterStep saves m (NewRosterModel (bs_NodeTimeout m) (bs_DataPath m) (bs_now m) (bs_disk m))"

inductive_cases rosterStepE: "rosterStep saves m m'"

lemma registerWith_model [simp]: "sv_Model (registerWith ok a nick s) = fst (RegisterNode ok a nick (sv_Model s))"
  by (simp add: registerWith_def serverNotify_def Let_def split: prod.split)

lemma serverHandle_model:
  assumes "saves ok"
  shows "rosterStep saves (sv_Model s) (sv_Model (serverHandle ok enc unm kind body seenAt replyTo s))"
  unfolding serverHandle_def Let_def
  by (auto split: option.split message.split intro: rs_same rs_register [of saves ok, OF assms])

lemma serverStep_model:
  assumes "serverStep hmac unm saves s s'" "bs_NodeTimeout (sv_Model s) \<noteq> 0"
  shows "rosterStep saves (sv_Model s) (sv_Model s')"
  using assms
proof (induction rule: serverStep.induct)
  case (sv_packet ok s enc src frame)
  then show ?case
    using serverHandle_model [of saves ok "s\<lparr>sv_codec := fst (Decode hmac (sv_codec s) (bs_now (sv_Model s)) frame)\<rparr>"]
    by (auto simp: serverPacket_def split: prod.split sum.split intro: rs_same)
next
  case (sv_stream ok s enc conn frame)
  then show ?case
    using serverHandle_model [of saves ok "s\<lparr>sv_codec := fst (Decode hmac (sv_codec s) (bs_now (sv_Model s)) frame)\<rparr>"]
    by (auto simp: serverStream_def split: prod.split sum.split intro: rs_same)
next
  case (sv_sweep ok s)
  then have "sv_Model (serverSweep ok s) = fst (RemoveStaleNodes ok (sv_Model s))"
    by (simp add: serverSweep_def serverNotify_def Let_def split: prod.split)
  then show ?case
    using rs_sweep [of saves ok, OF sv_sweep(1)] by simp
qed (auto simp: NewServer_def intro: rs_time rs_restart)

lemma saveRoster_frame [simp]: "bs_nodes (saveRoster ok m) = bs_nodes m" "bs_now (saveRoster ok m) = bs_now m"
  "bs_NodeTimeout (saveRoster ok m) = bs_NodeTimeout m" "bs_DataPath (saveRoster ok m) = bs_DataPath m"
  by (simp_all add: saveRoster_def)

lemma RegisterNode_frame [simp]: "bs_now (fst (RegisterNode ok a nick m)) = bs_now m" "bs_NodeTimeout (fst (RegisterNode ok a nick m)) = bs_NodeTimeout m"
  "bs_DataPath (fst (RegisterNode ok a nick m)) = bs_DataPath m"
  by (simp_all add: RegisterNode_def Let_def)

lemma RemoveStaleNodes_frame [simp]: "bs_now (fst (RemoveStaleNodes ok m)) = bs_now m" "bs_NodeTimeout (fst (RemoveStaleNodes ok m)) = bs_NodeTimeout m"
  "bs_DataPath (fst (RemoveStaleNodes ok m)) = bs_DataPath m"
  by (simp_all add: RemoveStaleNodes_def Let_def)

lemma NewRosterModel_frame [simp]: "bs_now (NewRosterModel t p now d) = now" "bs_NodeTimeout (NewRosterModel t p now d) = t" "bs_DataPath (NewRosterModel t p now d) = p"
  by (simp_all add: NewRosterModel_def loadRoster_def split: option.split)

lemma RegisterNode_lookup:
  "fmlookup (bs_nodes (fst (RegisterNode ok a nick m))) b =
     (if a \<noteq> '''' \<and> a = b then Some \<lparr>ni_Addr = a, ni_Nick = (if nick = '''' then (case fmlookup (bs_nodes m) a of None \<Rightarrow> '''' | Some p \<Rightarrow> ni_Nick p) else nick),
        ni_LastSeen = bs_now m\<rparr>
      else fmlookup (bs_nodes m) b)"
  by (simp add: RegisterNode_def Let_def)

lemma RemoveStaleNodes_lookup:
  "fmlookup (bs_nodes (fst (RemoveStaleNodes ok m))) a = (case fmlookup (bs_nodes m) a of
     None \<Rightarrow> None | Some i \<Rightarrow> if staleNode m i then None else Some i)"
  by (simp add: RemoveStaleNodes_def Let_def split: option.split)

section \<open>Invariants\<close>

definition roster_ok :: "rosterModel \<Rightarrow> bool" where
  "roster_ok m \<longleftrightarrow> fmpred (\<lambda>a i. ni_Addr i = a \<and> a \<noteq> '''' \<and> ni_LastSeen i \<le> bs_now m) (bs_nodes m)"

lemma loadRoster_lookup:
  "fmlookup (foldl (\<lambda>m n. if ni_Addr n = '''' then m else fmupd (ni_Addr n) (n\<lparr>ni_LastSeen := now\<rparr>) m) m nodes) a = Some i \<Longrightarrow>
     fmlookup m a = Some i \<or> (a \<noteq> '''' \<and> ni_Addr i = a \<and> ni_LastSeen i = now)"
proof (induction nodes arbitrary: m)
  case (Cons n ns)
  from Cons.IH [OF Cons.prems [unfolded foldl_Cons]] show ?case
    by (auto split: if_splits)
qed simp

definition loadedNodes :: "nanos \<Rightarrow> NodeInfo list \<Rightarrow> (string, NodeInfo) fmap" where
  "loadedNodes now ds = foldl (\<lambda>m n. if ni_Addr n = '''' then m else fmupd (ni_Addr n) (n\<lparr>ni_LastSeen := now\<rparr>) m) fmempty ds"

lemma NewRosterModel_nodes:
  "bs_nodes (NewRosterModel t p now d) = (if p = '''' then fmempty else case d of Some (Some ds) \<Rightarrow> loadedNodes now ds | _ \<Rightarrow> fmempty)"
  by (simp add: NewRosterModel_def loadRoster_def loadedNodes_def cong: if_cong split: option.split)

lemma NewRosterModel_lookup:
  "fmlookup (bs_nodes (NewRosterModel t p now d)) a = Some i \<Longrightarrow> a \<noteq> '''' \<and> ni_Addr i = a \<and> ni_LastSeen i = now"
  using loadRoster_lookup [of now fmempty _ a i]
  by (auto simp: NewRosterModel_nodes loadedNodes_def split: if_splits option.splits)

lemma NewRosterModel_ok: "roster_ok (NewRosterModel t p now d)"
  by (auto simp: roster_ok_def fmpred_iff dest!: NewRosterModel_lookup)

lemma rosterStep_ok: "rosterStep saves m m' \<Longrightarrow> roster_ok m \<Longrightarrow> roster_ok m'"
proof (induction rule: rosterStep.induct)
  case (rs_restart m)
  then show ?case by (simp add: NewRosterModel_ok)
next
  case (rs_time m t)
  then show ?case
    by (auto simp: roster_ok_def fmpred_iff intro: order_trans)
qed (auto simp: roster_ok_def fmpred_iff RegisterNode_lookup RemoveStaleNodes_lookup split: if_splits option.splits)

text \<open>The file says who is on the roster, and under which nick.\<close>

definition nicks :: "rosterModel \<Rightarrow> (string \<times> string) list" where
  "nicks m = map (\<lambda>(a, i). (a, ni_Nick i)) (fmentries (bs_nodes m))"

definition disk_synced :: "rosterModel \<Rightarrow> bool" where
  "disk_synced m \<longleftrightarrow> (case bs_disk m of
     Some (Some ds) \<Rightarrow> map (\<lambda>i. (ni_Addr i, ni_Nick i)) ds = nicks m
   | _ \<Rightarrow> bs_nodes m = fmempty)"

lemma map_of_nicks: "map_of (nicks m) a = map_option ni_Nick (fmlookup (bs_nodes m) a)"
proof -
  have "map_of (fmentries (bs_nodes m)) a = fmlookup (bs_nodes m) a"
  proof (cases "fmlookup (bs_nodes m) a")
    case None
    then show ?thesis
      by (auto simp: map_of_eq_None_iff image_iff set_fmentries)
  next
    case (Some i)
    then show ?thesis
      by (simp add: map_of_eq_Some_iff set_fmentries)
  qed
  moreover have "map_of (nicks m) a = map_option ni_Nick (map_of (fmentries (bs_nodes m)) a)"
    unfolding nicks_def by (simp add: map_of_map)
  ultimately show ?thesis by simp
qed

lemma nicks_infos: "roster_ok m \<Longrightarrow> map (\<lambda>i. (ni_Addr i, ni_Nick i)) (GetNodeInfos m) = nicks m"
  by (auto simp: GetNodeInfos_def nicks_def roster_ok_def fmpred_iff set_fmentries)

lemma nicks_cong:
  assumes "\<And>a. map_option ni_Nick (fmlookup (bs_nodes m) a) = map_option ni_Nick (fmlookup (bs_nodes m') a)"
  shows "nicks m = nicks m'"
proof -
  have "fmlookup (bs_nodes m) a = None \<longleftrightarrow> fmlookup (bs_nodes m') a = None" for a
    using assms [of a] by (metis option.map_disc_iff)
  then have "fmdom' (bs_nodes m) = fmdom' (bs_nodes m')"
    by (auto simp: fmlookup_dom'_iff) (metis option.distinct(1) option.exhaust)+
  then have k: "fmkeys (bs_nodes m) = fmkeys (bs_nodes m')"
    by (simp add: fmkeys_def fmdom'_alt_def fset_inject)
  have "ni_Nick (the (fmlookup (bs_nodes m) a)) = ni_Nick (the (fmlookup (bs_nodes m') a))"
    if "a \<in> set (fmkeys (bs_nodes m'))" for a
    using assms [of a] that by (auto simp: fmlookup_dom'_iff)
  then show ?thesis
    by (auto simp: nicks_def fmentries_def k comp_def)
qed

lemma disk_synced_save: "roster_ok m \<Longrightarrow> bs_DataPath m \<noteq> '''' \<Longrightarrow> disk_synced (saveRoster True m)"
proof -
  assume a: "roster_ok m" "bs_DataPath m \<noteq> ''''"
  have "nicks (m\<lparr>bs_disk := d\<rparr>) = nicks m" for d
    by (simp add: nicks_def)
  then show ?thesis
    using a by (simp add: disk_synced_def saveRoster_def nicks_infos)
qed

lemma disk_synced_same:
  assumes "disk_synced m" "bs_disk m' = bs_disk m"
    "\<And>a. map_option ni_Nick (fmlookup (bs_nodes m) a) = map_option ni_Nick (fmlookup (bs_nodes m') a)"
  shows "disk_synced m'"
proof -
  have "bs_nodes m = fmempty \<Longrightarrow> bs_nodes m' = fmempty"
    using assms(3) by (intro fmap_ext) simp
  then show ?thesis
    using assms(1) nicks_cong [OF assms(3)]
    by (auto simp: disk_synced_def assms(2) split: option.splits)
qed

lemma register_disk_synced:
  assumes "roster_ok m" "disk_synced m" "bs_DataPath m \<noteq> ''''"
  shows "disk_synced (fst (RegisterNode True a nick m))"
proof (cases "a = ''''")
  case True
  then show ?thesis using assms by (simp add: RegisterNode_def)
next
  case ne: False
  let ?m' = "fst (RegisterNode True a nick m)"
  define i where "i = the (fmlookup (bs_nodes ?m') a)"
  define m1 where "m1 = m\<lparr>bs_nodes := fmupd a i (bs_nodes m)\<rparr>"
  have ok1: "roster_ok m1"
    using assms(1) ne by (auto simp: roster_ok_def m1_def i_def fmpred_iff RegisterNode_lookup)
  have "?m' = saveRoster True m1 \<or>
      (\<exists>p. fmlookup (bs_nodes m) a = Some p \<and> ni_Nick p = ni_Nick i) \<and> ?m' = m1"
    using ne by (auto simp: RegisterNode_def Let_def m1_def i_def RegisterNode_lookup split: option.splits)
  then show ?thesis
  proof
    assume "?m' = saveRoster True m1"
    then show ?thesis
      using disk_synced_save [OF ok1] assms(3) by (simp add: m1_def)
  next
    assume "(\<exists>p. fmlookup (bs_nodes m) a = Some p \<and> ni_Nick p = ni_Nick i) \<and> ?m' = m1"
    moreover have "disk_synced m1" if "fmlookup (bs_nodes m) a = Some p" "ni_Nick p = ni_Nick i" for p
      by (rule disk_synced_same [OF assms(2)]) (auto simp: m1_def that)
    ultimately show ?thesis by auto
  qed
qed

lemma sweep_disk_synced:
  assumes "roster_ok m" "disk_synced m" "bs_DataPath m \<noteq> ''''"
  shows "disk_synced (fst (RemoveStaleNodes True m))"
proof (cases "snd (RemoveStaleNodes True m) = []")
  case True
  then have n: "\<not> staleNode m i" if "fmlookup (bs_nodes m) a = Some i" for a i
    using that by (auto simp: RemoveStaleNodes_def Let_def filter_empty_conv set_fmentries)
  have d: "bs_disk (fst (RemoveStaleNodes True m)) = bs_disk m"
    using True by (simp add: RemoveStaleNodes_def Let_def)
  show ?thesis
    by (rule disk_synced_same [OF assms(2) d]) (auto simp: RemoveStaleNodes_lookup n split: option.split)
next
  case False
  define m1 where "m1 = m\<lparr>bs_nodes := bs_nodes (fst (RemoveStaleNodes True m))\<rparr>"
  have "roster_ok m1"
    using assms(1) by (auto simp: roster_ok_def m1_def fmpred_iff RemoveStaleNodes_lookup split: option.splits if_splits)
  moreover have "fst (RemoveStaleNodes True m) = saveRoster True m1"
    using False by (auto simp: RemoveStaleNodes_def Let_def m1_def)
  moreover have "bs_DataPath m1 \<noteq> ''''"
    using assms(3) by (simp add: m1_def)
  ultimately show ?thesis
    using disk_synced_save [of m1] by simp
qed

text \<open>A restart brings back exactly the nodes and nicks of the file.\<close>

lemma loadRoster_fold:
  assumes "distinct (map ni_Addr ds)" "'''' \<notin> ni_Addr ` set ds"
  shows "map_option ni_Nick (fmlookup (foldl (\<lambda>m n. if ni_Addr n = '''' then m else fmupd (ni_Addr n) (n\<lparr>ni_LastSeen := now\<rparr>) m) m ds) a)
    = (case map_of (map (\<lambda>i. (ni_Addr i, ni_Nick i)) ds) a of None \<Rightarrow> map_option ni_Nick (fmlookup m a) | Some n \<Rightarrow> Some n)"
  using assms
proof (induction ds arbitrary: m)
  case (Cons n ds)
  have "map_of (map (\<lambda>i. (ni_Addr i, ni_Nick i)) ds) (ni_Addr n) = None"
    using Cons.prems(1) by (force simp: map_of_eq_None_iff)
  then show ?case
    using Cons by (auto split: option.split)
qed simp

lemma restart_nicks:
  assumes "roster_ok m" "disk_synced m" "bs_DataPath m \<noteq> ''''"
  shows "map_option ni_Nick (fmlookup (bs_nodes (NewRosterModel t (bs_DataPath m) now (bs_disk m))) a) = map_option ni_Nick (fmlookup (bs_nodes m) a)"
proof (cases "bs_disk m")
  case None
  then show ?thesis using assms by (simp add: NewRosterModel_def loadRoster_def disk_synced_def)
next
  case (Some d)
  show ?thesis
  proof (cases d)
    case None
    then show ?thesis using assms Some by (simp add: NewRosterModel_def loadRoster_def disk_synced_def)
  next
    case ds: (Some ds)
    have eq: "map (\<lambda>i. (ni_Addr i, ni_Nick i)) ds = nicks m"
      using assms(2) Some ds by (simp add: disk_synced_def)
    have "map ni_Addr ds = map fst (map (\<lambda>i. (ni_Addr i, ni_Nick i)) ds)"
      by simp
    also have "\<dots> = fmkeys (bs_nodes m)"
      unfolding eq by (simp add: nicks_def comp_def case_prod_beta)
    finally have k: "map ni_Addr ds = fmkeys (bs_nodes m)" .
    have "'''' \<notin> set (map ni_Addr ds)"
      unfolding k using assms(1) by (fastforce simp: roster_ok_def fmpred_iff fmlookup_dom'_iff)
    then have ne: "'''' \<notin> ni_Addr ` set ds" by (simp only: set_map not_False_eq_True)
    have "distinct (map ni_Addr ds)" unfolding k by simp
    from loadRoster_fold [OF this ne, of now fmempty a]
    have "map_option ni_Nick (fmlookup (loadedNodes now ds) a) = map_option ni_Nick (fmlookup (bs_nodes m) a)"
      unfolding eq map_of_nicks loadedNodes_def by (cases "fmlookup (bs_nodes m) a") simp_all
    then show ?thesis
      using assms(3) Some ds by (simp add: NewRosterModel_nodes)
  qed
qed

lemma NewRosterModel_disk [simp]: "bs_disk (NewRosterModel t p now d) = d"
  by (simp add: NewRosterModel_def loadRoster_def split: option.split)

lemma rosterStep_disk:
  assumes "rosterStep (\<lambda>ok. ok) m m'" "roster_ok m" "disk_synced m" "bs_DataPath m \<noteq> ''''"
  shows "disk_synced m'"
  using assms
proof (induction rule: rosterStep.induct)
  case (rs_time m t)
  then show ?case by (auto intro: disk_synced_same)
next
  case (rs_restart m)
  show ?case
    by (rule disk_synced_same [OF rs_restart(3)]) (simp_all add: restart_nicks rs_restart)
qed (simp_all add: register_disk_synced sweep_disk_synced)

section \<open>Properties\<close>

text \<open>A node heard from at \<open>t\<close> or later.\<close>

definition heard :: "string \<Rightarrow> nanos \<Rightarrow> rosterModel \<Rightarrow> bool" where
  "heard a t m \<longleftrightarrow> (case fmlookup (bs_nodes m) a of None \<Rightarrow> False | Some i \<Rightarrow> ni_LastSeen i \<ge> t)"

lemma rosterStep_frame:
  "rosterStep saves m m' \<Longrightarrow> bs_now m \<le> bs_now m' \<and> bs_NodeTimeout m' = bs_NodeTimeout m \<and> bs_DataPath m' = bs_DataPath m"
  by (induction rule: rosterStep.induct) simp_all

lemma rosterStep_heard:
  assumes "rosterStep (\<lambda>ok. ok) m m'" "roster_ok m" "disk_synced m" "bs_DataPath m \<noteq> ''''"
    "heard a t m" "t \<le> bs_now m" "bs_now m \<le> t + bs_NodeTimeout m"
  shows "heard a t m'"
  using assms
proof (induction rule: rosterStep.induct)
  case (rs_register ok m b nick)
  then show ?case
    by (auto simp: heard_def RegisterNode_lookup split: option.splits)
next
  case (rs_sweep ok m)
  then show ?case
    by (auto simp: heard_def RemoveStaleNodes_lookup staleNode_def split: option.splits)
next
  case (rs_restart m)
  let ?m' = "NewRosterModel (bs_NodeTimeout m) (bs_DataPath m) (bs_now m) (bs_disk m)"
  obtain i where "fmlookup (bs_nodes m) a = Some i"
    using rs_restart(5) by (auto simp: heard_def split: option.splits)
  then obtain j where "fmlookup (bs_nodes ?m') a = Some j"
    using restart_nicks [OF rs_restart(2-4), of "bs_NodeTimeout m" "bs_now m" a] by auto
  then show ?case
    using NewRosterModel_lookup [of _ _ _ _ a j] rs_restart(6) by (simp add: heard_def)
qed (auto simp: heard_def split: option.splits)

text \<open>What every run from a first start keeps.\<close>

definition rosterInv :: "rosterModel \<Rightarrow> bool" where
  "rosterInv m \<longleftrightarrow> roster_ok m \<and> disk_synced m \<and> bs_DataPath m \<noteq> '''' \<and> bs_NodeTimeout m \<noteq> 0"

lemma rosterStep_inv: "rosterStep (\<lambda>ok. ok) m m' \<Longrightarrow> rosterInv m \<Longrightarrow> rosterInv m'"
  unfolding rosterInv_def using rosterStep_ok rosterStep_disk rosterStep_frame by metis

lemma serverSteps_model:
  "(serverStep hmac unm saves)\<^sup>*\<^sup>* s s' \<Longrightarrow> bs_NodeTimeout (sv_Model s) \<noteq> 0 \<Longrightarrow> (rosterStep saves)\<^sup>*\<^sup>* (sv_Model s) (sv_Model s')
     \<and> bs_NodeTimeout (sv_Model s') = bs_NodeTimeout (sv_Model s)"
proof (induction rule: rtranclp_induct)
  case (step u v)
  then have "rosterStep saves (sv_Model u) (sv_Model v)"
    by (intro serverStep_model) auto
  with step show ?case
    using rosterStep_frame [of saves "sv_Model u" "sv_Model v"] by (auto intro: rtranclp.rtrancl_into_rtrancl)
qed simp

lemma rosterSteps_inv: "(rosterStep (\<lambda>ok. ok))\<^sup>*\<^sup>* m m' \<Longrightarrow> rosterInv m \<Longrightarrow> rosterInv m'"
  by (induction rule: rtranclp_induct) (auto intro: rosterStep_inv)

lemma rosterSteps_frame: "(rosterStep saves)\<^sup>*\<^sup>* m m' \<Longrightarrow> bs_now m \<le> bs_now m' \<and> bs_NodeTimeout m' = bs_NodeTimeout m"
proof (induction rule: rtranclp_induct)
  case (step u v)
  then show ?case using rosterStep_frame [OF step(2)] by auto
qed simp

lemma rosterSteps_heard:
  assumes "(rosterStep (\<lambda>ok. ok))\<^sup>*\<^sup>* m m'" "rosterInv m" "heard a t m" "t \<le> bs_now m" "bs_now m' \<le> t + bs_NodeTimeout m"
  shows "heard a t m'"
  using assms(1,5)
proof (induction rule: rtranclp_induct)
  case base
  show ?case by fact
next
  case (step u v)
  have f: "bs_now u \<le> bs_now v"
    using rosterStep_frame [OF step(2)] by simp
  have g: "bs_now m \<le> bs_now u" "bs_NodeTimeout u = bs_NodeTimeout m"
    using rosterSteps_frame [OF step(1)] by auto
  have "rosterInv u" by (rule rosterSteps_inv [OF step(1) assms(2)])
  then show ?case
    using rosterStep_heard [OF step(2)] step f g assms(4) by (simp add: rosterInv_def)
qed

lemma fresh_inv: "p \<noteq> '''' \<Longrightarrow> rosterInv (sv_Model (NewServer hmac psk cluster timeout p now None))"
  by (simp add: rosterInv_def NewServer_def NewRosterModel_def loadRoster_def roster_ok_def disk_synced_def second_def)

lemma heard_roster:
  assumes "roster_ok m" "heard a t m" "a \<noteq> ex"
  shows "a \<in> bp_Addr ` set (ro_Peers (Roster ex m))"
proof -
  obtain i where i: "fmlookup (bs_nodes m) a = Some i"
    using assms(2) by (auto simp: heard_def split: option.splits)
  then have "ni_Addr i = a" "i \<in> set (GetNodeInfos m)"
    using assms(1) by (auto simp: roster_ok_def fmpred_iff GetNodeInfos_def set_fmentries image_iff)
  then show ?thesis
    using assms(3) by (force simp: Roster_def)
qed

text \<open>
  C34.  A node that registered stays discoverable: from a first start, through packets and streams of arbitrary bytes, sweeps, restarts
  of the service from its file and the passing of time, as long as the file can be written and no more than the node timeout has
  passed since the node was last heard, the roster the service sends to any other node lists it.
\<close>

theorem registered_node_discoverable:
  assumes "p \<noteq> ''''"
    "(serverStep hmac unm (\<lambda>ok. ok))\<^sup>*\<^sup>* (NewServer hmac psk cluster timeout p start None) s"
    "unm KindBootstrapRegister body = Some (MsgBootstrapRegister reg)" "br_From reg \<noteq> ''''"
    "s1 = serverHandle True enc unm KindBootstrapRegister body seenAt replyTo s"
    "(serverStep hmac unm (\<lambda>ok. ok))\<^sup>*\<^sup>* s1 s2"
    "bs_now (sv_Model s2) \<le> bs_now (sv_Model s) + bs_NodeTimeout (sv_Model s)"
    "ex \<noteq> br_From reg"
  shows "br_From reg \<in> bp_Addr ` set (ro_Peers (Roster ex (sv_Model s2)))"
proof -
  let ?t = "bs_now (sv_Model s)"
  have i0: "rosterInv (sv_Model (NewServer hmac psk cluster timeout p start None))"
    by (rule fresh_inv) (rule assms(1))
  then have i: "rosterInv (sv_Model s)"
    using serverSteps_model [OF assms(2)] rosterSteps_inv by (auto simp: rosterInv_def)
  have m1: "sv_Model s1 = fst (RegisterNode True (br_From reg) (br_Nick reg) (sv_Model s))"
    using assms(3,4) by (simp add: assms(5) serverHandle_def)
  then have i1: "rosterInv (sv_Model s1)"
    using rosterStep_inv [OF rs_register [of "\<lambda>ok. ok"] i] by simp
  have "heard (br_From reg) ?t (sv_Model s1)"
    using assms(4) by (simp add: heard_def m1 RegisterNode_lookup)
  moreover have "(rosterStep (\<lambda>ok. ok))\<^sup>*\<^sup>* (sv_Model s1) (sv_Model s2)"
    using serverSteps_model [OF assms(6)] i1 by (simp add: rosterInv_def)
  ultimately have "heard (br_From reg) ?t (sv_Model s2)" "rosterInv (sv_Model s2)"
    using rosterSteps_heard rosterSteps_inv i1 assms(7) by (auto simp: m1)
  then show ?thesis
    using heard_roster assms(8) by (auto simp: rosterInv_def)
qed

definition demo_boot_unm :: "MessageKind \<Rightarrow> bytes \<Rightarrow> message option" where
  "demo_boot_unm k b = Some (MsgBootstrapRegister \<lparr>br_From = ''a:1'', br_Nick = ''al''\<rparr>)"

definition demo_boot :: bootServer where
  "demo_boot = serverHandle True True demo_boot_unm KindBootstrapRegister [] '''' '''' (NewServer (\<lambda>k m. []) ''s'' ''c'' 0 ''f'' 0 None)"

definition demo_reboot :: bootServer where
  "demo_reboot = NewServer (\<lambda>k m. []) ''s'' ''c'' (bs_NodeTimeout (sv_Model demo_boot)) (bs_DataPath (sv_Model demo_boot)) (bs_now (sv_Model demo_boot)) (bs_disk (sv_Model demo_boot))"

lemma demo_reboot_now: "bs_now (sv_Model demo_reboot) = 0"
  by (simp add: demo_reboot_def demo_boot_def NewServer_def serverHandle_def demo_boot_unm_def)

theorem registered_node_discoverable_witness:
  "''a:1'' \<in> bp_Addr ` set (ro_Peers (Roster ''b:2'' (sv_Model demo_reboot)))"
proof -
  have r: "(serverStep (\<lambda>k m. []) demo_boot_unm (\<lambda>ok. ok))\<^sup>*\<^sup>* demo_boot demo_reboot"
    unfolding demo_reboot_def by (intro r_into_rtranclp sv_restart)
  show ?thesis
    using registered_node_discoverable [where reg = "\<lparr>br_From = ''a:1'', br_Nick = ''al''\<rparr>", OF _ rtranclp.rtrancl_refl _ _ demo_boot_def r, of "''b:2''"]
    by (simp_all add: demo_boot_unm_def demo_reboot_now NewServer_def second_def)
qed

text \<open>
  A sweep drops exactly the nodes not heard from within the timeout and keeps every other as it was; it reports exactly the dropped
  ones; and when it dropped any, and the file can be written, the file lists exactly the nodes left.
\<close>

theorem sweep_exact:
  assumes "roster_ok m" "RemoveStaleNodes True m = (m', removed)"
  shows "(fmlookup (bs_nodes m') a = Some i \<longleftrightarrow> fmlookup (bs_nodes m) a = Some i \<and> bs_now m - ni_LastSeen i \<le> bs_NodeTimeout m)
    \<and> (i \<in> set removed \<longleftrightarrow> fmlookup (bs_nodes m) (ni_Addr i) = Some i \<and> bs_now m - ni_LastSeen i > bs_NodeTimeout m)
    \<and> (removed = [] \<or> bs_DataPath m = '''' \<or> bs_disk m' = Some (Some (GetNodeInfos m')))"
proof -
  have m: "m' = fst (RemoveStaleNodes True m)" "removed = snd (RemoveStaleNodes True m)"
    using assms(2) by simp_all
  have "fmlookup (bs_nodes m') a = Some i \<longleftrightarrow> fmlookup (bs_nodes m) a = Some i \<and> bs_now m - ni_LastSeen i \<le> bs_NodeTimeout m"
    by (auto simp: m RemoveStaleNodes_lookup staleNode_def split: option.split)
  moreover have "i \<in> set removed \<longleftrightarrow> fmlookup (bs_nodes m) (ni_Addr i) = Some i \<and> bs_now m - ni_LastSeen i > bs_NodeTimeout m"
    using assms(1) by (auto simp: m RemoveStaleNodes_def staleNode_def Let_def set_fmentries roster_ok_def fmpred_iff image_iff)
  moreover have "removed = [] \<or> bs_DataPath m = '''' \<or> bs_disk m' = Some (Some (GetNodeInfos m'))"
    by (simp add: m RemoveStaleNodes_def Let_def saveRoster_def GetNodeInfos_def)
  ultimately show ?thesis by blast
qed

definition demo_stale :: rosterModel where
  "demo_stale = (sv_Model demo_boot)\<lparr>bs_now := 31 * second\<rparr>"

theorem sweep_exact_witness:
  "\<lparr>ni_Addr = ''a:1'', ni_Nick = ''al'', ni_LastSeen = 0\<rparr> \<in> set (snd (RemoveStaleNodes True demo_stale))"
proof -
  have m: "sv_Model demo_boot = fst (RegisterNode True ''a:1'' ''al'' (sv_Model (NewServer (\<lambda>k m. []) ''s'' ''c'' 0 ''f'' 0 None)))"
    by (simp add: demo_boot_def serverHandle_def demo_boot_unm_def)
  have l: "fmlookup (bs_nodes demo_stale) x = (if x = ''a:1'' then Some \<lparr>ni_Addr = ''a:1'', ni_Nick = ''al'', ni_LastSeen = 0\<rparr> else None)" for x
    by (auto simp: demo_stale_def m RegisterNode_lookup NewServer_def NewRosterModel_nodes)
  have t: "bs_now demo_stale = 31 * second" "bs_NodeTimeout demo_stale = 30 * second"
    by (simp_all add: demo_stale_def m NewServer_def)
  have "roster_ok demo_stale"
    by (auto simp: roster_ok_def fmpred_iff l t second_def split: if_splits)
  from sweep_exact [OF this prod.collapse [symmetric], of "''''" "\<lparr>ni_Addr = ''a:1'', ni_Nick = ''al'', ni_LastSeen = 0\<rparr>"]
  show ?thesis
    by (simp add: l t second_def)
qed

end
