(* ===== verification/Dns.thy ===== *)
theory Dns
  imports Codec
begin

text \<open>
  The DNS messages of LAN discovery (\<open>pkg/discovery/mdns/dns.go\<close>): names with compression read and never written, questions
  and the four record types of DNS-SD.

  A datagram is a list of bytes.  \<open>decodeName\<close> follows pointers in a loop bounded by \<open>maxNamePointers\<close>; its recursion here is on the
  pointers left and then on the bytes left.  \<open>next\<close>, which the code starts at \<open>-1\<close>, is \<open>None\<close> until the first pointer.  A
  \<open>net.IP\<close> is its bytes.
\<close>

unbundle bit_operations_syntax

type_synonym u16 = "16 word"
type_synonym u32 = "32 word"

section \<open>Constants and data\<close>

definition typeA :: u16 where "typeA = 1"
definition typePTR :: u16 where "typePTR = 12"
definition typeTXT :: u16 where "typeTXT = 16"
definition typeSRV :: u16 where "typeSRV = 33"
definition typeAny :: u16 where "typeAny = 255"
definition classIN :: u16 where "classIN = 1"
definition cacheFlush :: u16 where "cacheFlush = 0x8000"
definition unicastResponse :: u16 where "unicastResponse = 0x8000"

definition maxNamePointers :: nat where "maxNamePointers = 16"

lemmas record_types = typeA_def typePTR_def typeTXT_def typeSRV_def

datatype dnsError = ErrMalformed | ErrLongLabel string | ErrLongTXT | ErrNotIPv4 bytes | ErrRecordType u16

record question =
  q_name :: string
  q_type :: u16
  q_class :: u16
  q_unicast :: bool

record dnsRecord =
  r_name :: string
  r_rtype :: u16
  r_class :: u16
  r_ttl :: u32
  r_ptr :: string
  r_target :: string
  r_port :: u16
  r_txt :: "string list"
  r_ip :: bytes

record dnsMessage =
  dm_id :: u16
  dm_response :: bool
  dm_questions :: "question list"
  dm_answers :: "dnsRecord list"

section \<open>The library functions used\<close>

definition Uint16 :: "bytes \<Rightarrow> u16" where
  "Uint16 bs = word_of_nat (beVal (take 2 bs))"

definition Uint32 :: "bytes \<Rightarrow> u32" where
  "Uint32 bs = word_of_nat (beVal (take 4 bs))"

definition PutUint16 :: "u16 \<Rightarrow> bytes" where
  "PutUint16 w = beBytes 2 (unat w)"

definition PutUint32 :: "u32 \<Rightarrow> bytes" where
  "PutUint32 w = beBytes 4 (unat w)"

definition bytes_str :: "bytes \<Rightarrow> string" where
  "bytes_str bs = map (\<lambda>b. char_of (unat b)) bs"

text \<open>\<open>strings.Split\<close> at a one-byte separator, \<open>strings.TrimSuffix\<close> of one byte, and \<open>strings.Join\<close>.\<close>

fun splitAt :: "char \<Rightarrow> string \<Rightarrow> string list" where
  "splitAt c [] = [[]]"
| "splitAt c (x # xs) = (if x = c then [] # splitAt c xs else (x # hd (splitAt c xs)) # tl (splitAt c xs))"

definition trimSuffix :: "char \<Rightarrow> string \<Rightarrow> string" where
  "trimSuffix c s = (if s \<noteq> [] \<and> last s = c then butlast s else s)"

fun joinLabels :: "string \<Rightarrow> string list \<Rightarrow> string" where
  "joinLabels sep [] = []"
| "joinLabels sep [x] = x"
| "joinLabels sep (x # y # xs) = x @ sep @ joinLabels sep (y # xs)"

text \<open>\<open>net.IP.To4\<close>: a 4-byte address, or the last four bytes of an IPv4-mapped 16-byte one.\<close>

definition To4 :: "bytes \<Rightarrow> bytes option" where
  "To4 ip = (if length ip = 4 then Some ip
     else if length ip = 16 \<and> take 12 ip = replicate 10 0 @ [255, 255] then Some (drop 12 ip) else None)"

section \<open>Names\<close>

fun encodeLabels :: "bytes \<Rightarrow> string list \<Rightarrow> dnsError + bytes" where
  "encodeLabels b [] = Inr (b @ [0])"
| "encodeLabels b (label # ls) =
     (if label = [] then encodeLabels b ls
      else if length label > 63 then Inl (ErrLongLabel label)
      else encodeLabels (b @ [word_of_nat (length label)] @ str_bytes label) ls)"

definition encodeName :: "bytes \<Rightarrow> string \<Rightarrow> dnsError + bytes" where
  "encodeName b name = encodeLabels b (splitAt (CHR ''.'') (trimSuffix (CHR ''.'') name))"

function decodeLabels :: "bytes \<Rightarrow> string list \<Rightarrow> nat \<Rightarrow> nat option \<Rightarrow> nat \<Rightarrow> dnsError + string \<times> nat" where
  "decodeLabels msg labels pointers nxt off =
     (if off \<ge> length msg then Inl ErrMalformed
      else
        let len = unat (msg ! off) in
        if len = 0 then Inr (joinLabels ''.'' labels @ ''.'', (case nxt of None \<Rightarrow> off + 1 | Some x \<Rightarrow> x))
        else if (msg ! off) AND 0xC0 = 0xC0 then
          (if off + 1 \<ge> length msg then Inl ErrMalformed
           else if pointers + 1 > maxNamePointers then Inl ErrMalformed
           else
             let target = unat (Uint16 (drop off msg) AND 0x3FFF) in
             if target \<ge> off then Inl ErrMalformed
             else decodeLabels msg labels (pointers + 1) (case nxt of None \<Rightarrow> Some (off + 2) | Some x \<Rightarrow> Some x) target)
        else if len > 63 then Inl ErrMalformed
        else if off + 1 + len > length msg then Inl ErrMalformed
        else decodeLabels msg (labels @ [bytes_str (take len (drop (off + 1) msg))]) pointers nxt (off + 1 + len))"
  by pat_completeness auto

termination decodeLabels
  by (relation "inv_image (less_than <*lex*> less_than) (\<lambda>(msg, labels, pointers, nxt, off). (maxNamePointers - pointers, length msg - off))") auto

declare decodeLabels.simps [simp del]

definition decodeName :: "bytes \<Rightarrow> nat \<Rightarrow> dnsError + string \<times> nat" where
  "decodeName msg off = decodeLabels msg [] 0 None off"

section \<open>Encoding\<close>

fun encodeTxt :: "bytes \<Rightarrow> string list \<Rightarrow> dnsError + bytes" where
  "encodeTxt data [] = Inr data"
| "encodeTxt data (s # ss) =
     (if length s > 255 then Inl ErrLongTXT else encodeTxt (data @ [word_of_nat (length s)] @ str_bytes s) ss)"

definition encodeData :: "dnsRecord \<Rightarrow> dnsError + bytes" where
  "encodeData r =
     (if r_rtype r = typePTR then encodeName [] (r_ptr r)
      else if r_rtype r = typeSRV then encodeName (PutUint16 0 @ PutUint16 0 @ PutUint16 (r_port r)) (r_target r)
      else if r_rtype r = typeTXT then
        (case encodeTxt [] (r_txt r) of Inl e \<Rightarrow> Inl e | Inr data \<Rightarrow> Inr (if data = [] then [0] else data))
      else if r_rtype r = typeA then (case To4 (r_ip r) of None \<Rightarrow> Inl (ErrNotIPv4 (r_ip r)) | Some v4 \<Rightarrow> Inr v4)
      else Inl (ErrRecordType (r_rtype r)))"

fun encodeQuestions :: "bytes \<Rightarrow> question list \<Rightarrow> dnsError + bytes" where
  "encodeQuestions b [] = Inr b"
| "encodeQuestions b (q # qs) = (case encodeName b (q_name q) of
     Inl e \<Rightarrow> Inl e
   | Inr b1 \<Rightarrow> encodeQuestions (b1 @ PutUint16 (q_type q) @ PutUint16 (if q_unicast q then q_class q OR unicastResponse else q_class q)) qs)"

fun encodeAnswers :: "bytes \<Rightarrow> dnsRecord list \<Rightarrow> dnsError + bytes" where
  "encodeAnswers b [] = Inr b"
| "encodeAnswers b (r # rs) = (case encodeName b (r_name r) of
     Inl e \<Rightarrow> Inl e
   | Inr b1 \<Rightarrow> (case encodeData r of
       Inl e \<Rightarrow> Inl e
     | Inr data \<Rightarrow> encodeAnswers (b1 @ PutUint16 (r_rtype r) @ PutUint16 (r_class r) @ PutUint32 (r_ttl r)
         @ PutUint16 (word_of_nat (length data)) @ data) rs))"

definition encodeMessage :: "dnsMessage \<Rightarrow> dnsError + bytes" where
  "encodeMessage m = (case encodeQuestions
       (PutUint16 (dm_id m) @ PutUint16 (if dm_response m then 0x8400 else 0) @ PutUint16 (word_of_nat (length (dm_questions m)))
        @ PutUint16 (word_of_nat (length (dm_answers m))) @ PutUint16 0 @ PutUint16 0) (dm_questions m) of
     Inl e \<Rightarrow> Inl e
   | Inr b \<Rightarrow> encodeAnswers b (dm_answers m))"

section \<open>Decoding\<close>

fun decodeQuestions :: "bytes \<Rightarrow> nat \<Rightarrow> nat \<Rightarrow> dnsError + question list \<times> nat" where
  "decodeQuestions buf 0 off = Inr ([], off)"
| "decodeQuestions buf (Suc i) off = (case decodeName buf off of
     Inl e \<Rightarrow> Inl e
   | Inr (name, nxt) \<Rightarrow>
       if nxt + 4 > length buf then Inl ErrMalformed
       else
         let class = Uint16 (drop (nxt + 2) buf);
             q = \<lparr>q_name = name, q_type = Uint16 (drop nxt buf), q_class = class AND NOT unicastResponse,
                  q_unicast = (class AND unicastResponse \<noteq> 0)\<rparr>
         in (case decodeQuestions buf i (nxt + 4) of Inl e \<Rightarrow> Inl e | Inr (qs, off') \<Rightarrow> Inr (q # qs, off')))"

function decodeTxt :: "bytes \<Rightarrow> nat \<Rightarrow> dnsError + string list" where
  "decodeTxt data i =
     (if i \<ge> length data then Inr []
      else
        let len = unat (data ! i) in
        if i + 1 + len > length data then Inl ErrMalformed
        else (case decodeTxt data (i + 1 + len) of
          Inl e \<Rightarrow> Inl e | Inr ss \<Rightarrow> Inr (bytes_str (take len (drop (i + 1) data)) # ss)))"
  by pat_completeness auto

termination decodeTxt
  by (relation "measure (\<lambda>(data, i). length data - i)") auto

declare decodeTxt.simps [simp del]

text \<open>The data of one record at \<open>off\<close>; a type that is not handled keeps its name and type and nothing else.\<close>

definition decodeData :: "bytes \<Rightarrow> nat \<Rightarrow> nat \<Rightarrow> dnsRecord \<Rightarrow> dnsError + dnsRecord" where
  "decodeData buf off dataLen r =
     (let data = take dataLen (drop off buf) in
      if r_rtype r = typePTR then
        (case decodeName buf off of Inl e \<Rightarrow> Inl e | Inr (name, _) \<Rightarrow> Inr (r\<lparr>r_ptr := name\<rparr>))
      else if r_rtype r = typeSRV then
        (if dataLen < 6 then Inl ErrMalformed
         else (case decodeName buf (off + 6) of
           Inl e \<Rightarrow> Inl e | Inr (name, _) \<Rightarrow> Inr (r\<lparr>r_port := Uint16 (drop 4 data), r_target := name\<rparr>)))
      else if r_rtype r = typeTXT then
        (case decodeTxt data 0 of Inl e \<Rightarrow> Inl e | Inr ss \<Rightarrow> Inr (r\<lparr>r_txt := ss\<rparr>))
      else if r_rtype r = typeA then (if dataLen \<noteq> 4 then Inl ErrMalformed else Inr (r\<lparr>r_ip := data\<rparr>))
      else Inr r)"

definition zero_record :: dnsRecord where
  "zero_record = \<lparr>r_name = '''', r_rtype = 0, r_class = 0, r_ttl = 0, r_ptr = '''', r_target = '''', r_port = 0, r_txt = [], r_ip = []\<rparr>"

fun decodeRecords :: "bytes \<Rightarrow> nat \<Rightarrow> nat \<Rightarrow> dnsError + dnsRecord list" where
  "decodeRecords buf 0 off = Inr []"
| "decodeRecords buf (Suc i) off =
     (if off \<ge> length buf then Inr []
      else (case decodeName buf off of
        Inl e \<Rightarrow> Inl e
      | Inr (name, nxt) \<Rightarrow>
          if nxt + 10 > length buf then Inl ErrMalformed
          else
            let r = zero_record\<lparr>r_name := name, r_rtype := Uint16 (drop nxt buf), r_class := Uint16 (drop (nxt + 2) buf) AND NOT cacheFlush,
                  r_ttl := Uint32 (drop (nxt + 4) buf)\<rparr>;
                dataLen = unat (Uint16 (drop (nxt + 8) buf));
                off1 = nxt + 10
            in if off1 + dataLen > length buf then Inl ErrMalformed
               else (case decodeData buf off1 dataLen r of
                 Inl e \<Rightarrow> Inl e
               | Inr r1 \<Rightarrow> (case decodeRecords buf i (off1 + dataLen) of Inl e \<Rightarrow> Inl e | Inr rs \<Rightarrow> Inr (r1 # rs)))))"

definition decodeMessage :: "bytes \<Rightarrow> dnsError + dnsMessage" where
  "decodeMessage buf =
     (if length buf < 12 then Inl ErrMalformed
      else
        let qdCount = unat (Uint16 (drop 4 buf));
            rrCount = unat (Uint16 (drop 6 buf)) + unat (Uint16 (drop 8 buf)) + unat (Uint16 (drop 10 buf))
        in (case decodeQuestions buf qdCount 12 of
          Inl e \<Rightarrow> Inl e
        | Inr (qs, off) \<Rightarrow> (case decodeRecords buf rrCount off of
            Inl e \<Rightarrow> Inl e
          | Inr rs \<Rightarrow> Inr \<lparr>dm_id = Uint16 buf, dm_response = ((buf ! 2) AND 0x80 \<noteq> 0), dm_questions = qs, dm_answers = rs\<rparr>)))"

section \<open>Library lemmas\<close>

lemma length_Put [simp]: "length (PutUint16 w) = 2" "length (PutUint32 x) = 4"
  by (simp_all add: PutUint16_def PutUint32_def)

lemma Uint16_Put [simp]: "Uint16 (PutUint16 w @ xs) = w"
proof -
  have "unat w < 2 ^ LENGTH(16)"
    by (rule unsigned_less)
  then show ?thesis
    by (simp add: Uint16_def PutUint16_def beVal_beBytes)
qed

lemma Uint32_Put [simp]: "Uint32 (PutUint32 w @ xs) = w"
proof -
  have "unat w < 2 ^ LENGTH(32)"
    by (rule unsigned_less)
  then show ?thesis
    by (simp add: Uint32_def PutUint32_def beVal_beBytes)
qed

lemma length_str_bytes [simp]: "length (str_bytes s) = length s"
  by (simp add: str_bytes_def)

lemma bytes_str_bytes [simp]: "bytes_str (str_bytes s) = s"
proof -
  have "char_of (unat (of_char c :: 8 word)) = c" for c :: char
  proof -
    have "unat (word_of_nat (of_char c) :: 8 word) = of_char c"
      by (simp add: unat_of_nat del: of_nat_of_char)
    then have "unat (of_char c :: 8 word) = of_char c" by (simp add: of_nat_of_char)
    then show ?thesis by simp
  qed
  then show ?thesis by (simp add: bytes_str_def str_bytes_def comp_def)
qed

lemma splitAt_ne [simp]: "splitAt c s \<noteq> []"
  by (cases s) auto

lemma drop_at [simp]: "drop (length xs + n) (xs @ ys) = drop n ys"
  by simp

section \<open>What the encoders write\<close>

text \<open>The labels of a name as it is written, and the name as it is read back.\<close>

definition labelsOf :: "string \<Rightarrow> string list" where
  "labelsOf name = filter (\<lambda>l. l \<noteq> []) (splitAt (CHR ''.'') (trimSuffix (CHR ''.'') name))"

definition canonName :: "string \<Rightarrow> string" where
  "canonName name = joinLabels ''.'' (labelsOf name) @ ''.''"

definition wireLabel :: "string \<Rightarrow> bytes" where
  "wireLabel l = word_of_nat (length l) # str_bytes l"

definition wireName :: "string list \<Rightarrow> bytes" where
  "wireName ls = concat (map wireLabel ls) @ [0]"

definition okLabels :: "string list \<Rightarrow> bool" where
  "okLabels ls \<longleftrightarrow> list_all (\<lambda>l. l \<noteq> [] \<and> length l \<le> 63) ls"

lemma encodeLabels_iff:
  "encodeLabels b ls = Inr b' \<longleftrightarrow>
     okLabels (filter (\<lambda>l. l \<noteq> []) ls) \<and> b' = b @ wireName (filter (\<lambda>l. l \<noteq> []) ls)"
  by (induction ls arbitrary: b) (auto simp: okLabels_def wireName_def wireLabel_def)

lemma encodeName_iff: "encodeName b name = Inr b' \<longleftrightarrow> okLabels (labelsOf name) \<and> b' = b @ wireName (labelsOf name)"
  by (simp add: encodeName_def encodeLabels_iff labelsOf_def)

lemma wireName_ne [simp]: "wireName ls \<noteq> []"
  by (simp add: wireName_def)

lemma decodeLabels_wire:
  assumes "okLabels ls"
  shows "decodeLabels (pre @ wireName ls @ post) acc p None (length pre) = Inr (joinLabels ''.'' (acc @ ls) @ ''.'', length pre + length (wireName ls))"
  using assms
proof (induction ls arbitrary: pre acc)
  case Nil
  then show ?case
    by (subst decodeLabels.simps) (simp add: wireName_def)
next
  case (Cons l ls)
  let ?w = "word_of_nat (length l) :: 8 word"
  have l: "l \<noteq> []" "length l \<le> 63" "okLabels ls"
    using Cons.prems by (simp_all add: okLabels_def)
  have u: "unat ?w = length l"
    using l(2) by (simp add: unat_of_nat)
  have "?w AND 0xC0 \<le> ?w" by (rule word_and_le2)
  then have "unat (?w AND 0xC0) \<le> 63"
    using u l(2) by (simp add: word_le_nat_alt)
  then have n: "?w AND 0xC0 \<noteq> 0xC0"
    by auto
  let ?msg = "pre @ wireName (l # ls) @ post"
  have m: "?msg = (pre @ wireLabel l) @ wireName ls @ post"
    by (simp add: wireName_def)
  have at: "?msg ! length pre = ?w" "take (length l) (drop (length pre + 1) ?msg) = str_bytes l"
    "length pre + 1 + length l \<le> length ?msg"
    by (simp_all add: wireName_def wireLabel_def)
  have "decodeLabels ?msg acc p None (length pre) = decodeLabels ?msg (acc @ [l]) p None (length pre + 1 + length l)"
    using at l(1,2) n by (subst decodeLabels.simps) (simp add: Let_def u)
  also have "length pre + 1 + length l = length (pre @ wireLabel l)"
    by (simp add: wireLabel_def)
  also have "decodeLabels ?msg (acc @ [l]) p None (length (pre @ wireLabel l)) =
      Inr (joinLabels ''.'' ((acc @ [l]) @ ls) @ ''.'', length (pre @ wireLabel l) + length (wireName ls))"
    unfolding m by (rule Cons.IH [OF l(3)])
  finally show ?case
    by (simp add: wireName_def)
qed

lemma decodeName_wire:
  "okLabels (labelsOf name) \<Longrightarrow> msg = pre @ wireName (labelsOf name) @ post \<Longrightarrow> off = length pre \<Longrightarrow>
     decodeName msg off = Inr (canonName name, length pre + length (wireName (labelsOf name)))"
  using decodeLabels_wire [of "labelsOf name" pre post "[]" 0] by (simp add: decodeName_def canonName_def)

definition wireTxt :: "string list \<Rightarrow> bytes" where
  "wireTxt ss = concat (map wireLabel ss)"

lemma wireTxt_ne [simp]: "wireTxt (s # ss) \<noteq> []"
  by (simp add: wireTxt_def wireLabel_def)

lemma encodeTxt_iff: "encodeTxt b ss = Inr b' \<longleftrightarrow> list_all (\<lambda>s. length s \<le> 255) ss \<and> b' = b @ wireTxt ss"
  by (induction ss arbitrary: b) (auto simp: wireTxt_def wireLabel_def)

lemma decodeTxt_wire: "list_all (\<lambda>s. length s \<le> 255) ss \<Longrightarrow> decodeTxt (pre @ wireTxt ss) (length pre) = Inr ss"
proof (induction ss arbitrary: pre)
  case Nil
  then show ?case by (subst decodeTxt.simps) (simp add: wireTxt_def)
next
  case (Cons s ss)
  let ?d = "pre @ wireTxt (s # ss)"
  have u: "unat (word_of_nat (length s) :: 8 word) = length s"
    using Cons.prems by (simp add: unat_of_nat)
  have d: "?d = (pre @ wireLabel s) @ wireTxt ss"
    by (simp add: wireTxt_def)
  have at: "?d ! length pre = word_of_nat (length s)" "take (length s) (drop (length pre + 1) ?d) = str_bytes s"
    "length pre + 1 + length s \<le> length ?d"
    by (simp_all add: wireTxt_def wireLabel_def)
  have "decodeTxt ?d (length pre + 1 + length s) = Inr ss"
    using Cons.IH [of "pre @ wireLabel s"] Cons.prems unfolding d by (simp add: wireLabel_def)
  then show ?case
    using at by (subst decodeTxt.simps) (simp add: Let_def u)
qed

section \<open>Round trip\<close>

text \<open>The record and the question a receiver reads: only the fields of its type, names in canonical form, the top bit of the class taken off.\<close>

definition canonRecord :: "dnsRecord \<Rightarrow> dnsRecord" where
  "canonRecord r =
     (let c = zero_record\<lparr>r_name := canonName (r_name r), r_rtype := r_rtype r, r_class := r_class r AND NOT cacheFlush, r_ttl := r_ttl r\<rparr> in
      if r_rtype r = typePTR then c\<lparr>r_ptr := canonName (r_ptr r)\<rparr>
      else if r_rtype r = typeSRV then c\<lparr>r_port := r_port r, r_target := canonName (r_target r)\<rparr>
      else if r_rtype r = typeTXT then c\<lparr>r_txt := (if r_txt r = [] then [''''] else r_txt r)\<rparr>
      else c\<lparr>r_ip := the (To4 (r_ip r))\<rparr>)"

definition canonQuestion :: "question \<Rightarrow> question" where
  "canonQuestion q = q\<lparr>q_name := canonName (q_name q), q_class := q_class q AND NOT unicastResponse,
     q_unicast := (q_unicast q \<or> q_class q AND unicastResponse \<noteq> 0)\<rparr>"

definition canonMessage :: "dnsMessage \<Rightarrow> dnsMessage" where
  "canonMessage m = m\<lparr>dm_questions := map canonQuestion (dm_questions m), dm_answers := map canonRecord (dm_answers m)\<rparr>"

definition wireQuestion :: "question \<Rightarrow> bytes" where
  "wireQuestion q = wireName (labelsOf (q_name q)) @ PutUint16 (q_type q)
     @ PutUint16 (if q_unicast q then q_class q OR unicastResponse else q_class q)"

lemma encodeQuestions_iff:
  "encodeQuestions b qs = Inr b' \<longleftrightarrow> list_all (\<lambda>q. okLabels (labelsOf (q_name q))) qs \<and> b' = b @ concat (map wireQuestion qs)"
proof (induction qs arbitrary: b)
  case (Cons q qs)
  show ?case
  proof (cases "okLabels (labelsOf (q_name q))")
    case True
    then have "encodeName b (q_name q) = Inr (b @ wireName (labelsOf (q_name q)))"
      by (simp add: encodeName_iff)
    then show ?thesis
      using True Cons.IH by (simp add: wireQuestion_def)
  next
    case False
    then obtain e where "encodeName b (q_name q) = Inl e"
      using encodeName_iff [of b "q_name q"] by (cases "encodeName b (q_name q)") auto
    then show ?thesis using False by simp
  qed
qed auto

lemma class_bits:
  fixes w m :: "'a::len word"
  shows "(w OR m) AND NOT m = w AND NOT m" "(w OR m) AND m = m"
  by (rule bit_word_eqI; auto simp: bit_simps)+

lemma unicastResponse_ne [simp]: "unicastResponse \<noteq> 0"
  by (simp add: unicastResponse_def)

lemma drop_add: "drop nxt buf = xs @ ys \<Longrightarrow> k = nxt + length xs \<Longrightarrow> drop k buf = ys"
  by (metis add.commute append_eq_conv_conj drop_drop)

lemma drop_bound: "drop nxt buf = xs \<Longrightarrow> xs \<noteq> [] \<Longrightarrow> nxt + length xs = length buf"
  by auto

lemma decodeQuestions_step:
  assumes "decodeName buf off = Inr (name, nxt)" "drop nxt buf = PutUint16 t @ PutUint16 c @ rest"
  shows "decodeQuestions buf (Suc i) off = (case decodeQuestions buf i (nxt + 4) of Inl e \<Rightarrow> Inl e
     | Inr (qs, off') \<Rightarrow> Inr (\<lparr>q_name = name, q_type = t, q_class = c AND NOT unicastResponse, q_unicast = (c AND unicastResponse \<noteq> 0)\<rparr> # qs, off'))"
proof -
  have "drop (nxt + 2) buf = PutUint16 c @ rest"
    by (rule drop_add [OF assms(2)]) simp
  moreover have "nxt + 4 \<le> length buf"
    using drop_bound [OF assms(2)] by (cases "PutUint16 t") (auto dest: arg_cong [where f = length])
  ultimately show ?thesis
    by (simp add: assms Let_def)
qed

lemma decodeQuestions_wire:
  assumes "list_all (\<lambda>q. okLabels (labelsOf (q_name q))) qs"
  shows "decodeQuestions (pre @ concat (map wireQuestion qs) @ post) (length qs) (length pre)
    = Inr (map canonQuestion qs, length pre + length (concat (map wireQuestion qs)))"
  using assms
proof (induction qs arbitrary: pre)
  case (Cons q qs)
  let ?buf = "pre @ concat (map wireQuestion (q # qs)) @ post"
  let ?n = "wireName (labelsOf (q_name q))"
  define c where "c = (if q_unicast q then q_class q OR unicastResponse else q_class q)"
  let ?rest = "concat (map wireQuestion qs) @ post"
  have ok: "okLabels (labelsOf (q_name q))" using Cons.prems by simp
  have buf: "?buf = pre @ ?n @ (PutUint16 (q_type q) @ PutUint16 c @ ?rest)"
    by (simp add: wireQuestion_def c_def)
  have q: "\<lparr>q_name = canonName (q_name q), q_type = q_type q, q_class = c AND NOT unicastResponse, q_unicast = (c AND unicastResponse \<noteq> 0)\<rparr> = canonQuestion q"
    by (simp add: canonQuestion_def c_def class_bits)
  have "drop (length pre + length ?n) ?buf = PutUint16 (q_type q) @ PutUint16 c @ ?rest"
    unfolding buf by simp
  note step = decodeQuestions_step [OF decodeName_wire [OF ok buf refl] this, of "length qs", unfolded q]
  have split: "?buf = (pre @ wireQuestion q) @ ?rest" by simp
  have len: "length (pre @ wireQuestion q) = length pre + length ?n + 4"
    by (simp add: wireQuestion_def)
  have "list_all (\<lambda>q. okLabels (labelsOf (q_name q))) qs" using Cons.prems by simp
  note ih = Cons.IH [OF this, of "pre @ wireQuestion q", unfolded len, folded split]
  have "decodeQuestions ?buf (Suc (length qs)) (length pre) =
      Inr (canonQuestion q # map canonQuestion qs, length pre + length ?n + 4 + length (concat (map wireQuestion qs)))"
    unfolding step ih by simp
  moreover have "length (concat (map wireQuestion (q # qs))) = length ?n + 4 + length (concat (map wireQuestion qs))"
    by (simp add: wireQuestion_def)
  ultimately show ?case
    by (simp only: list.map(2) [of canonQuestion] list.size add_Suc_right add_0_right add.assoc)
qed simp

text \<open>The data of a record that can be encoded.\<close>

definition okData :: "dnsRecord \<Rightarrow> bool" where
  "okData r \<longleftrightarrow>
     (if r_rtype r = typePTR then okLabels (labelsOf (r_ptr r))
      else if r_rtype r = typeSRV then okLabels (labelsOf (r_target r))
      else if r_rtype r = typeTXT then list_all (\<lambda>s. length s \<le> 255) (r_txt r)
      else r_rtype r = typeA \<and> To4 (r_ip r) \<noteq> None)"

definition wireData :: "dnsRecord \<Rightarrow> bytes" where
  "wireData r =
     (if r_rtype r = typePTR then wireName (labelsOf (r_ptr r))
      else if r_rtype r = typeSRV then PutUint16 0 @ PutUint16 0 @ PutUint16 (r_port r) @ wireName (labelsOf (r_target r))
      else if r_rtype r = typeTXT then (if r_txt r = [] then [0] else wireTxt (r_txt r))
      else the (To4 (r_ip r)))"

lemma wireTxt_empty [simp]: "wireTxt ss = [] \<longleftrightarrow> ss = []"
  by (cases ss) (simp_all add: wireTxt_def wireLabel_def)

lemma encodeData_iff: "encodeData r = Inr d \<longleftrightarrow> okData r \<and> d = wireData r"
proof (cases "r_rtype r = typeTXT")
  case True
  show ?thesis
  proof (cases "encodeTxt [] (r_txt r)")
    case (Inl e)
    then show ?thesis
      using True encodeTxt_iff [of "[]" "r_txt r"] by (auto simp: encodeData_def okData_def record_types)
  next
    case (Inr x)
    then show ?thesis
      using True encodeTxt_iff [of "[]" "r_txt r" x] by (auto simp: encodeData_def okData_def wireData_def record_types)
  qed
next
  case False
  then show ?thesis
    by (auto simp: encodeData_def okData_def wireData_def encodeName_iff split: option.splits)
qed

definition wireRecord :: "dnsRecord \<Rightarrow> bytes" where
  "wireRecord r = wireName (labelsOf (r_name r)) @ PutUint16 (r_rtype r) @ PutUint16 (r_class r) @ PutUint32 (r_ttl r)
     @ PutUint16 (word_of_nat (length (wireData r))) @ wireData r"

definition okRecord :: "dnsRecord \<Rightarrow> bool" where
  "okRecord r \<longleftrightarrow> okLabels (labelsOf (r_name r)) \<and> okData r"

lemma encodeAnswers_iff: "encodeAnswers b rs = Inr b' \<longleftrightarrow> list_all okRecord rs \<and> b' = b @ concat (map wireRecord rs)"
proof (induction rs arbitrary: b)
  case (Cons r rs)
  show ?case
  proof (cases "okRecord r")
    case True
    then have "encodeName b (r_name r) = Inr (b @ wireName (labelsOf (r_name r)))" "encodeData r = Inr (wireData r)"
      by (simp_all add: encodeName_iff encodeData_iff okRecord_def)
    then show ?thesis
      using True Cons.IH by (simp add: wireRecord_def)
  next
    case False
    show ?thesis
    proof (cases "encodeName b (r_name r)")
      case (Inr b1)
      then have "okLabels (labelsOf (r_name r))" by (simp add: encodeName_iff)
      with False obtain e where "encodeData r = Inl e"
        using encodeData_iff [of r] by (cases "encodeData r") (auto simp: okRecord_def)
      then show ?thesis using False Inr by simp
    qed (use False in simp)
  qed
qed auto

lemma To4_length: "To4 ip = Some v \<Longrightarrow> length v = 4"
  by (auto simp: To4_def split: if_splits)

lemma decodeTxt_zero: "decodeTxt [0] 0 = Inr ['''']"
  by (subst decodeTxt.simps, subst decodeTxt.simps) (simp add: bytes_str_def)

lemma decodeData_wire:
  assumes "okData r" "buf = pre @ wireData r @ post" "r_rtype r' = r_rtype r"
  shows "decodeData buf (length pre) (length (wireData r)) r' = Inr (
      if r_rtype r = typePTR then r'\<lparr>r_ptr := canonName (r_ptr r)\<rparr>
      else if r_rtype r = typeSRV then r'\<lparr>r_port := r_port r, r_target := canonName (r_target r)\<rparr>
      else if r_rtype r = typeTXT then r'\<lparr>r_txt := (if r_txt r = [] then [''''] else r_txt r)\<rparr>
      else r'\<lparr>r_ip := the (To4 (r_ip r))\<rparr>)"
proof -
  have data: "take (length (wireData r)) (drop (length pre) buf) = wireData r"
    by (simp add: assms(2))
  consider "r_rtype r = typePTR" | "r_rtype r = typeSRV" | "r_rtype r = typeTXT" | "r_rtype r = typeA"
    using assms(1) by (auto simp: okData_def split: if_splits)
  then show ?thesis
  proof cases
    case 1
    then have "decodeName buf (length pre) = Inr (canonName (r_ptr r), length pre + length (wireName (labelsOf (r_ptr r))))"
      using assms(1,2) by (intro decodeName_wire) (simp_all add: okData_def wireData_def)
    then show ?thesis
      using 1 assms(3) by (simp add: decodeData_def)
  next
    case 2
    then have n: "r_rtype r \<noteq> typePTR" by (simp add: record_types)
    have w: "wireData r = (PutUint16 0 @ PutUint16 0 @ PutUint16 (r_port r)) @ wireName (labelsOf (r_target r))"
      using 2 n by (simp add: wireData_def)
    have "decodeName buf (length pre + 6) = Inr (canonName (r_target r), length (pre @ PutUint16 0 @ PutUint16 0 @ PutUint16 (r_port r)) + length (wireName (labelsOf (r_target r))))"
      using assms(1,2) 2 n by (intro decodeName_wire [of _ _ "pre @ PutUint16 0 @ PutUint16 0 @ PutUint16 (r_port r)" post]) (simp_all add: okData_def w)
    moreover have "Uint16 (drop 4 (wireData r)) = r_port r"
      by (simp add: w)
    ultimately show ?thesis
      using 2 n assms(3) by (simp add: decodeData_def data Let_def) (simp add: w)
  next
    case 3
    then have n: "r_rtype r \<noteq> typePTR" "r_rtype r \<noteq> typeSRV" by (simp_all add: record_types)
    have "decodeTxt (wireData r) 0 = Inr (if r_txt r = [] then [''''] else r_txt r)"
      using assms(1) 3 n decodeTxt_wire [of "r_txt r" "[]"] by (simp add: okData_def wireData_def decodeTxt_zero)
    then show ?thesis
      using 3 n assms(3) by (simp add: decodeData_def data Let_def)
  next
    case 4
    then have n: "r_rtype r \<noteq> typePTR" "r_rtype r \<noteq> typeSRV" "r_rtype r \<noteq> typeTXT" by (simp_all add: record_types)
    then have "length (wireData r) = 4"
      using assms(1) 4 To4_length by (auto simp: okData_def wireData_def)
    then show ?thesis
      using 4 n assms(3) data by (simp add: decodeData_def wireData_def Let_def)
  qed
qed

lemma decodeRecords_step:
  assumes "decodeName buf off = Inr (name, nxt)" "off < length buf"
    and d: "drop nxt buf = PutUint16 t @ PutUint16 c @ PutUint32 ttl @ PutUint16 n @ rest" and "unat n \<le> length rest"
    and r: "decodeData buf (nxt + 10) (unat n) (zero_record\<lparr>r_name := name, r_rtype := t, r_class := c AND NOT cacheFlush, r_ttl := ttl\<rparr>) = Inr r"
  shows "decodeRecords buf (Suc i) off = (case decodeRecords buf i (nxt + 10 + unat n) of Inl e \<Rightarrow> Inl e | Inr rs \<Rightarrow> Inr (r # rs))"
proof -
  have d2: "drop (nxt + 2) buf = PutUint16 c @ PutUint32 ttl @ PutUint16 n @ rest"
    by (rule drop_add [OF d]) simp
  have d4: "drop (nxt + 4) buf = PutUint32 ttl @ PutUint16 n @ rest"
    by (rule drop_add [OF d2]) simp
  have d8: "drop (nxt + 8) buf = PutUint16 n @ rest"
    by (rule drop_add [OF d4]) simp
  have "nxt + (10 + length rest) = length buf"
    using drop_bound [OF d] by (cases "PutUint16 t") (auto dest: arg_cong [where f = length])
  then have b: "nxt + 10 \<le> length buf" "nxt + 10 + unat n \<le> length buf"
    using assms(4) by simp_all
  show ?thesis
    using b assms(2) d2 by (simp add: assms(1) d d4 d8 Let_def r)
qed

lemma decodeRecords_wire:
  assumes "list_all okRecord rs" "list_all (\<lambda>r. length (wireData r) < 65536) rs" "length rs \<le> n"
  shows "decodeRecords (pre @ concat (map wireRecord rs)) n (length pre) = Inr (map canonRecord rs)"
  using assms
proof (induction rs arbitrary: pre n)
  case Nil
  then show ?case by (cases n) simp_all
next
  case (Cons r rs)
  obtain i where i: "n = Suc i" "length rs \<le> i"
    using Cons.prems(3) by (cases n) auto
  define buf where "buf = pre @ concat (map wireRecord (r # rs))"
  let ?n = "wireName (labelsOf (r_name r))"
  let ?l = "word_of_nat (length (wireData r)) :: 16 word"
  define rest where "rest = concat (map wireRecord rs)"
  have ok: "okLabels (labelsOf (r_name r))" "okData r" using Cons.prems(1) by (simp_all add: okRecord_def)
  have l: "unat ?l = length (wireData r)"
    using Cons.prems(2) by (simp add: unat_of_nat)
  have buf: "buf = pre @ ?n @ (PutUint16 (r_rtype r) @ PutUint16 (r_class r) @ PutUint32 (r_ttl r) @ PutUint16 ?l @ (wireData r @ rest))"
    by (simp add: buf_def rest_def wireRecord_def)
  have d: "drop (length pre + length ?n) buf = PutUint16 (r_rtype r) @ PutUint16 (r_class r) @ PutUint32 (r_ttl r) @ PutUint16 ?l @ (wireData r @ rest)"
    unfolding buf by simp
  let ?r0 = "zero_record\<lparr>r_name := canonName (r_name r), r_rtype := r_rtype r, r_class := r_class r AND NOT cacheFlush, r_ttl := r_ttl r\<rparr>"
  let ?pre = "pre @ ?n @ PutUint16 (r_rtype r) @ PutUint16 (r_class r) @ PutUint32 (r_ttl r) @ PutUint16 ?l"
  have pre: "length ?pre = length pre + length ?n + 10"
    by simp
  have "buf = ?pre @ wireData r @ rest"
    by (simp add: buf)
  from decodeData_wire [OF ok(2) this, of ?r0, unfolded pre]
  have dd: "decodeData buf (length pre + length ?n + 10) (unat ?l) ?r0 = Inr (canonRecord r)"
    by (simp add: l canonRecord_def Let_def)
  have lt: "length pre < length buf" "unat ?l \<le> length (wireData r @ rest)"
    using l by (simp_all add: buf)
  note step = decodeRecords_step [OF decodeName_wire [OF ok(1) buf refl] lt(1) d lt(2) dd]
  have split: "buf = (pre @ wireRecord r) @ rest"
    by (simp add: buf_def rest_def)
  have len: "length (pre @ wireRecord r) = length pre + length ?n + 10 + unat ?l"
    by (simp add: wireRecord_def l)
  have "list_all okRecord rs" "list_all (\<lambda>r. length (wireData r) < 65536) rs"
    using Cons.prems by simp_all
  note ih = Cons.IH [OF this i(2), of "pre @ wireRecord r", folded rest_def, unfolded len, folded split]
  show ?case
    unfolding i buf_def [symmetric] step ih by simp
qed

definition wireHeader :: "dnsMessage \<Rightarrow> bytes" where
  "wireHeader m = PutUint16 (dm_id m) @ PutUint16 (if dm_response m then 0x8400 else 0) @ PutUint16 (word_of_nat (length (dm_questions m)))
        @ PutUint16 (word_of_nat (length (dm_answers m))) @ PutUint16 0 @ PutUint16 0"

definition wireMessage :: "dnsMessage \<Rightarrow> bytes" where
  "wireMessage m = wireHeader m @ concat (map wireQuestion (dm_questions m)) @ concat (map wireRecord (dm_answers m))"

definition okMessage :: "dnsMessage \<Rightarrow> bool" where
  "okMessage m \<longleftrightarrow> list_all (\<lambda>q. okLabels (labelsOf (q_name q))) (dm_questions m) \<and> list_all okRecord (dm_answers m)"

lemma encodeMessage_iff: "encodeMessage m = Inr b \<longleftrightarrow> okMessage m \<and> b = wireMessage m"
proof (cases "encodeQuestions (wireHeader m) (dm_questions m)")
  case (Inl e)
  then have "\<not> okMessage m"
    using encodeQuestions_iff [of "wireHeader m" "dm_questions m"] by (auto simp: okMessage_def)
  then show ?thesis
    using Inl by (simp add: encodeMessage_def wireHeader_def [symmetric])
next
  case (Inr x)
  then show ?thesis
    using encodeQuestions_iff [of "wireHeader m" "dm_questions m" x]
    by (auto simp: encodeMessage_def wireHeader_def [symmetric] encodeAnswers_iff okMessage_def wireMessage_def)
qed

lemma concat_longer: "(\<And>x. x \<in> set xs \<Longrightarrow> f x \<noteq> []) \<Longrightarrow> length xs \<le> length (concat (map f xs))"
proof (induction xs)
  case (Cons x xs)
  then have "0 < length (f x)" by simp
  moreover have "length xs \<le> length (concat (map f xs))" using Cons by simp
  ultimately show ?case unfolding list.map concat.simps length_append list.size by linarith
qed simp

lemma concat_member: "x \<in> set xs \<Longrightarrow> length (f x) \<le> length (concat (map f xs))"
  by (induction xs) auto

lemma beBytes_2: "beBytes 2 x = [word_of_nat (x div 256), word_of_nat x]"
  by (simp add: numeral_2_eq_2)

lemma response_bit: "(wireMessage m ! 2) AND 0x80 \<noteq> 0 \<longleftrightarrow> dm_response m"
  by (simp add: wireMessage_def wireHeader_def nth_append PutUint16_def beBytes_2)

lemma decode_wire:
  assumes "okMessage m" "length (wireMessage m) < 65536"
  shows "decodeMessage (wireMessage m) = Inr (canonMessage m)"
proof -
  let ?b = "wireMessage m" and ?qs = "dm_questions m" and ?rs = "dm_answers m"
  have h: "length (wireHeader m) = 12" by (simp add: wireHeader_def)
  have "wireQuestion q \<noteq> []" "wireRecord r \<noteq> []" for q r
    by (simp_all add: wireQuestion_def wireRecord_def)
  then have "length ?qs \<le> length (concat (map wireQuestion ?qs))" "length ?rs \<le> length (concat (map wireRecord ?rs))"
    by (simp_all add: concat_longer)
  then have n: "length ?qs < 65536" "length ?rs < 65536"
    using assms(2) by (simp_all add: wireMessage_def)
  have "length (wireData r) < 65536" if "r \<in> set ?rs" for r
  proof -
    have "length (wireData r) \<le> length (wireRecord r)" by (simp add: wireRecord_def)
    also have "\<dots> \<le> length (concat (map wireRecord ?rs))" by (rule concat_member) fact
    finally show ?thesis using assms(2) by (simp add: wireMessage_def)
  qed
  then have data: "list_all (\<lambda>r. length (wireData r) < 65536) ?rs" by (simp add: list_all_iff)
  have ok: "list_all (\<lambda>q. okLabels (labelsOf (q_name q))) ?qs" "list_all okRecord ?rs"
    using assms(1) by (simp_all add: okMessage_def)
  have w: "unat (word_of_nat (length ?qs) :: 16 word) = length ?qs" "unat (word_of_nat (length ?rs) :: 16 word) = length ?rs"
    using n by (simp_all add: unat_of_nat)
  have fields: "Uint16 ?b = dm_id m" "unat (Uint16 (drop 4 ?b)) = length ?qs"
      "unat (Uint16 (drop 6 ?b)) + unat (Uint16 (drop 8 ?b)) + unat (Uint16 (drop 10 ?b)) = length ?rs"
    using w by (simp_all add: wireMessage_def wireHeader_def)
  have q: "decodeQuestions ?b (length ?qs) 12 = Inr (map canonQuestion ?qs, length (wireHeader m @ concat (map wireQuestion ?qs)))"
    using decodeQuestions_wire [OF ok(1), of "wireHeader m" "concat (map wireRecord ?rs)"] by (simp add: wireMessage_def h)
  have r: "decodeRecords ?b (length ?rs) (length (wireHeader m @ concat (map wireQuestion ?qs))) = Inr (map canonRecord ?rs)"
    using decodeRecords_wire [OF ok(2) data order_refl, of "wireHeader m @ concat (map wireQuestion ?qs)"] by (simp add: wireMessage_def)
  have "\<not> length ?b < 12" by (simp add: wireMessage_def h)
  then show ?thesis
    unfolding decodeMessage_def Let_def fields q sum.case prod.case r response_bit
    by (simp add: canonMessage_def)
qed

text \<open>
  C36.  What one node writes every other reads.  If a message can be encoded, and fits a datagram, decoding it gives back its
  identifier, direction, questions and records, in order: names with empty labels left out and one final dot, the top bit of every class
  taken off (and reported as the unicast flag of a question), an empty text record as one empty string, and an address as its four bytes.
\<close>

theorem dns_roundtrip:
  "encodeMessage m = Inr b \<Longrightarrow> length b < 65536 \<Longrightarrow> decodeMessage b = Inr (canonMessage m)"
  by (simp add: encodeMessage_iff decode_wire)

definition demo_dns :: dnsMessage where
  "demo_dns = \<lparr>dm_id = 7, dm_response = True, dm_questions = [],
     dm_answers = [zero_record\<lparr>r_name := ''a.local.'', r_rtype := typeA, r_class := classIN OR cacheFlush, r_ttl := 120, r_ip := [10, 0, 0, 1]\<rparr>]\<rparr>"

lemma demo_dns_labels: "labelsOf ''a.local.'' = [''a'', ''local'']"
  by (simp add: labelsOf_def trimSuffix_def)

lemma demo_dns_ok: "okMessage demo_dns"
  by (simp add: okMessage_def demo_dns_def okRecord_def okData_def record_types demo_dns_labels okLabels_def To4_def)

lemma demo_dns_length: "length (wireMessage demo_dns) = 35"
  by (simp add: wireMessage_def wireHeader_def demo_dns_def wireRecord_def wireData_def record_types demo_dns_labels wireName_def
      wireLabel_def To4_def)

theorem dns_roundtrip_witness:
  "decodeMessage (wireMessage demo_dns) = Inr (canonMessage demo_dns)"
  by (rule dns_roundtrip) (simp_all add: encodeMessage_iff demo_dns_ok demo_dns_length)

section \<open>Datagrams from anywhere\<close>

lemma decodeLabels_bounds:
  assumes "decodeLabels msg labels p nxt off = Inr (name, k)"
  shows "(case nxt of None \<Rightarrow> off < k \<and> k \<le> length msg | Some x \<Rightarrow> k = x)"
  using assms
proof (induction msg labels p nxt off rule: decodeLabels.induct)
  case (1 msg labels p nxt off)
  let ?w = "msg ! off"
  show ?case
  proof (cases "off < length msg \<and> unat ?w \<noteq> 0")
    case False
    then show ?thesis
      using "1.prems" by (subst (asm) decodeLabels.simps) (auto split: if_splits option.splits)
  next
    case True
    then have off: "\<not> length msg \<le> off" "unat ?w \<noteq> 0" by simp_all
    show ?thesis
    proof (cases "?w AND 0xC0 = 0xC0")
      case ptr: True
      let ?t = "unat (Uint16 (drop off msg) AND 0x3FFF)"
      have c: "\<not> length msg \<le> off + 1" "\<not> maxNamePointers < p + 1" "\<not> off \<le> ?t"
          "decodeLabels msg labels (p + 1) (case nxt of None \<Rightarrow> Some (off + 2) | Some x \<Rightarrow> Some x) ?t = Inr (name, k)"
        using "1.prems" off ptr by (subst (asm) decodeLabels.simps, auto simp: Let_def split: if_splits)+
      from "1.IH"(1) [OF off(1) refl off(2) ptr c(1,2) refl c(3,4)] c(1) show ?thesis
        by (auto split: option.splits)
    next
      case lab: False
      let ?l = "labels @ [bytes_str (take (unat ?w) (drop (off + 1) msg))]"
      have c: "\<not> 63 < unat ?w" "\<not> length msg < off + 1 + unat ?w" "decodeLabels msg ?l p nxt (off + 1 + unat ?w) = Inr (name, k)"
        using "1.prems" off lab by (subst (asm) decodeLabels.simps, auto simp: Let_def split: if_splits)+
      from "1.IH"(2) [OF off(1) refl off(2) lab c] show ?thesis
        by (auto split: option.splits)
    qed
  qed
qed

definition labelBytes :: "string list \<Rightarrow> nat" where
  "labelBytes ls = sum_list (map (\<lambda>l. length l + 1) ls)"

lemma length_join: "length (joinLabels ''.'' ls) \<le> labelBytes ls"
  by (induction "''.''" ls rule: joinLabels.induct) (auto simp: labelBytes_def)

lemma length_bytes_str [simp]: "length (bytes_str bs) = length bs"
  by (simp add: bytes_str_def)

lemma decodeLabels_length:
  assumes "decodeLabels msg labels p nxt off = Inr (name, k)"
  shows "length name \<le> labelBytes labels + 1 + (maxNamePointers - p) * length msg + (length msg - off)"
  using assms
proof (induction msg labels p nxt off rule: decodeLabels.induct)
  case (1 msg labels p nxt off)
  let ?w = "msg ! off"
  show ?case
  proof (cases "off < length msg \<and> unat ?w \<noteq> 0")
    case False
    then show ?thesis
      using "1.prems" length_join [of labels] by (subst (asm) decodeLabels.simps) (auto split: if_splits option.splits)
  next
    case True
    then have off: "\<not> length msg \<le> off" "unat ?w \<noteq> 0" by simp_all
    show ?thesis
    proof (cases "?w AND 0xC0 = 0xC0")
      case ptr: True
      let ?t = "unat (Uint16 (drop off msg) AND 0x3FFF)"
      have c: "\<not> length msg \<le> off + 1" "\<not> maxNamePointers < p + 1" "\<not> off \<le> ?t"
          "decodeLabels msg labels (p + 1) (case nxt of None \<Rightarrow> Some (off + 2) | Some x \<Rightarrow> Some x) ?t = Inr (name, k)"
        using "1.prems" off ptr by (subst (asm) decodeLabels.simps, auto simp: Let_def split: if_splits)+
      have "maxNamePointers - p = Suc (maxNamePointers - (p + 1))"
        using c(2) by simp
      then have "(maxNamePointers - p) * length msg = length msg + (maxNamePointers - (p + 1)) * length msg"
        by (simp only: mult_Suc)
      with "1.IH"(1) [OF off(1) refl off(2) ptr c(1,2) refl c(3,4)] show ?thesis
        by linarith
    next
      case lab: False
      let ?l = "labels @ [bytes_str (take (unat ?w) (drop (off + 1) msg))]"
      have c: "\<not> 63 < unat ?w" "\<not> length msg < off + 1 + unat ?w" "decodeLabels msg ?l p nxt (off + 1 + unat ?w) = Inr (name, k)"
        using "1.prems" off lab by (subst (asm) decodeLabels.simps, auto simp: Let_def split: if_splits)+
      have "labelBytes ?l = labelBytes labels + unat ?w + 1"
        using c(2) by (simp add: labelBytes_def)
      with "1.IH"(2) [OF off(1) refl off(2) lab c] c(2) show ?thesis
        by linarith
    qed
  qed
qed

lemma decodeName_bounds:
  assumes "decodeName msg off = Inr (name, k)"
  shows "off < k" "k \<le> length msg" "length name \<le> 1 + 17 * length msg"
  using decodeLabels_bounds [OF assms [unfolded decodeName_def]] decodeLabels_length [OF assms [unfolded decodeName_def]]
  by (simp_all add: labelBytes_def maxNamePointers_def)

lemma decodeQuestions_bounds:
  "decodeQuestions buf n off = Inr (qs, k) \<Longrightarrow> off \<le> length buf \<Longrightarrow> length qs = n \<and> off + 5 * n \<le> k \<and> k \<le> length buf \<and> list_all (\<lambda>q. length (q_name q) \<le> 1 + 17 * length buf) qs"
proof (induction n arbitrary: off qs)
  case (Suc n)
  then obtain name nxt q qs' where "decodeName buf off = Inr (name, nxt)" "nxt + 4 \<le> length buf" "decodeQuestions buf n (nxt + 4) = Inr (qs', k)" "qs = q # qs'" "q_name q = name"
    by (auto simp: Let_def split: sum.splits prod.splits if_splits)
  then show ?case
    using Suc.IH [of "nxt + 4" qs'] decodeName_bounds [of buf off name nxt] by auto
qed simp

definition boundedRecord :: "nat \<Rightarrow> dnsRecord \<Rightarrow> bool" where
  "boundedRecord n r \<longleftrightarrow> length (r_name r) \<le> 1 + 17 * n \<and> length (r_ptr r) \<le> 1 + 17 * n \<and> length (r_target r) \<le> 1 + 17 * n
     \<and> labelBytes (r_txt r) \<le> n \<and> length (r_ip r) = (if r_rtype r = typeA then 4 else 0)"

lemma decodeTxt_bounds: "decodeTxt data i = Inr ss \<Longrightarrow> labelBytes ss \<le> length data - i"
proof (induction data i arbitrary: ss rule: decodeTxt.induct)
  case (1 data i)
  show ?case
  proof (cases "length data \<le> i")
    case True
    then show ?thesis using "1.prems" by (subst (asm) decodeTxt.simps) (simp add: labelBytes_def)
  next
    case False
    let ?n = "unat (data ! i)"
    obtain ss' where s: "\<not> i + 1 + ?n > length data" "decodeTxt data (i + 1 + ?n) = Inr ss'" "ss = bytes_str (take ?n (drop (i + 1) data)) # ss'"
      using "1.prems" False by (subst (asm) decodeTxt.simps) (auto simp: Let_def split: if_splits sum.splits)
    from "1.IH" [OF False refl s(1,2)] s(1) show ?thesis
      by (simp add: s(3) labelBytes_def)
  qed
qed

lemma decodeData_bounds:
  assumes "decodeData buf off n r = Inr r'" "off + n \<le> length buf" "boundedRecord (length buf) (r\<lparr>r_rtype := 0\<rparr>)" "r_txt r = []" "r_ip r = []"
  shows "boundedRecord (length buf) r'"
proof -
  have t: "labelBytes ss \<le> length buf" if "decodeTxt (take n (drop off buf)) 0 = Inr ss" for ss
    using decodeTxt_bounds [OF that] assms(2) by simp
  have b: "length (r_name r) \<le> 1 + 17 * length buf" "length (r_ptr r) \<le> 1 + 17 * length buf" "length (r_target r) \<le> 1 + 17 * length buf"
    using assms(3) by (simp_all add: boundedRecord_def)
  have nm: "length name \<le> 1 + 17 * length buf" if "decodeName buf o' = Inr (name, k)" for o' name k
    using decodeName_bounds [OF that] by simp
  show ?thesis
    using assms(1,2,4,5) b nm t unfolding decodeData_def Let_def
    by (simp split: if_splits sum.splits prod.splits)
      (auto simp: boundedRecord_def record_types labelBytes_def)
qed

lemma decodeRecords_bounds:
  "decodeRecords buf n off = Inr rs \<Longrightarrow> off \<le> length buf \<Longrightarrow>
     length rs \<le> n \<and> off + 11 * length rs \<le> length buf \<and> list_all (boundedRecord (length buf)) rs"
proof (induction n arbitrary: off rs)
  case (Suc n)
  show ?case
  proof (cases "length buf \<le> off")
    case True
    then show ?thesis using Suc.prems by simp
  next
    case False
    obtain name nxt where nm: "decodeName buf off = Inr (name, nxt)"
      using Suc.prems(1) False by (auto split: sum.splits)
    define r0 where "r0 = zero_record\<lparr>r_name := name, r_rtype := Uint16 (drop nxt buf), r_class := Uint16 (drop (Suc (Suc nxt)) buf) AND NOT cacheFlush,
                  r_ttl := Uint32 (drop (nxt + 4) buf)\<rparr>"
    define d where "d = unat (Uint16 (drop (nxt + 8) buf))"
    obtain r rs' where r: "nxt + 10 + d \<le> length buf" "decodeData buf (nxt + 10) d r0 = Inr r" "decodeRecords buf n (nxt + 10 + d) = Inr rs'" "rs = r # rs'"
      using Suc.prems(1) False by (auto simp: nm Let_def r0_def [symmetric] d_def [symmetric] simp flip: r0_def split: sum.splits if_splits)
    have "boundedRecord (length buf) r"
      using decodeName_bounds(3) [OF nm] by (intro decodeData_bounds [OF r(2,1)]) (simp_all add: r0_def zero_record_def boundedRecord_def labelBytes_def typeA_def)
    then show ?thesis
      using Suc.IH [OF r(3,1)] decodeName_bounds(1) [OF nm] by (auto simp: r(4))
  qed
qed simp

text \<open>
  C37.  Datagrams from anywhere.  Decoding ends for every sequence of bytes (pointers to pointers and all), and what it returns is bounded by the
  datagram and not by the counts it claims: at least five bytes were read for each question and eleven for each record; no name is longer than
  seventeen times the datagram; the strings of a text record fit in it; an address has four bytes.
\<close>

theorem dns_decode_bounded:
  assumes "decodeMessage buf = Inr m"
  shows "12 + 5 * length (dm_questions m) + 11 * length (dm_answers m) \<le> length buf
    \<and> list_all (\<lambda>q. length (q_name q) \<le> 1 + 17 * length buf) (dm_questions m)
    \<and> list_all (boundedRecord (length buf)) (dm_answers m)"
proof -
  obtain k j where q: "decodeQuestions buf (unat (Uint16 (drop 4 buf))) 12 = Inr (dm_questions m, k)"
    and l: "12 \<le> length buf" and r: "decodeRecords buf j k = Inr (dm_answers m)"
    using assms by (auto simp: decodeMessage_def Let_def not_less split: if_splits sum.splits prod.splits)
  show ?thesis
    using decodeQuestions_bounds [OF q l] decodeRecords_bounds [OF r] by auto
qed

theorem dns_decode_bounded_witness:
  "12 + 11 * length (dm_answers demo_dns) \<le> length (wireMessage demo_dns)"
proof -
  have "decodeMessage (wireMessage demo_dns) = Inr (canonMessage demo_dns)"
    by (rule decode_wire) (simp_all add: demo_dns_ok demo_dns_length)
  from dns_decode_bounded [OF this] show ?thesis
    by (simp add: canonMessage_def)
qed

end
