(* ===== verification/Mdns.thy ===== *)
theory Mdns
  imports NodeEngine Dns "HOL-Library.Sublist"
begin

text \<open>
  LAN discovery (\<open>pkg/discovery/mdns/mdns.go\<close>, \<open>pkg/discovery/node/mdnsjoin.go\<close>): announcing a node, browsing, answering queries,
  collecting the nodes other responses describe, and adopting them as peers.

  What the sockets carry is \<open>ms_sent\<close>, datagrams with their destination (\<open>None\<close> is the multicast group); the wait of a browse is the gap
  between \<open>browseStart\<close> and \<open>browseResult\<close>.  \<open>strings.ToLower\<close> and \<open>strings.EqualFold\<close>, which rest on the Unicode tables, are the parameters
  \<open>toLower\<close> and \<open>equalFold\<close>; the random identifier, the interface addresses and \<open>net.ParseIP\<close> are parameters too.
\<close>

section \<open>The responder\<close>

definition Service :: string where
  "Service = ''_rezoagwe._udp.local.''"

definition defaultTTL :: u32 where "defaultTTL = 120"

record lanEntry =
  le_Addr :: string
  le_Cluster :: string
  le_Nick :: string
  le_Instance :: string

record lanConfig =
  lc_Instance :: string
  lc_Port :: int
  lc_IP :: bytes
  lc_Cluster :: string
  lc_Nick :: string

record lanServer =
  ms_cfg :: lanConfig
  ms_entries :: "(string, lanEntry) fmap"
  ms_sent :: "(bytes \<times> string option) list"

text \<open>\<open>New\<close>, once its sockets are open.  An empty \<open>lc_IP\<close> is the nil address.\<close>

definition NewLan :: "bytes \<Rightarrow> lanConfig \<Rightarrow> lanServer option" where
  "NewLan localIPv4 cfg =
     (if lc_Instance cfg = '''' then None
      else Some \<lparr>ms_cfg = (if lc_IP cfg = [] then cfg\<lparr>lc_IP := localIPv4\<rparr> else cfg), ms_entries = fmempty, ms_sent = []\<rparr>)"

definition escapeInstance :: "string \<Rightarrow> string" where
  "escapeInstance s =
     (let s1 = map (\<lambda>c. if c = CHR ''.'' \<or> c = CHR '' '' then CHR ''-'' else c) s;
          s2 = (if length s1 > 63 then take 63 s1 else s1)
      in if s2 = '''' then ''node'' else s2)"

definition instanceName :: "lanConfig \<Rightarrow> string" where
  "instanceName cfg = escapeInstance (lc_Instance cfg) @ ''.'' @ Service"

definition hostName :: "lanConfig \<Rightarrow> string" where
  "hostName cfg = escapeInstance (lc_Instance cfg) @ ''.local.''"

definition records :: "lanConfig \<Rightarrow> dnsRecord list" where
  "records cfg =
     [zero_record\<lparr>r_name := Service, r_rtype := typePTR, r_class := classIN, r_ttl := defaultTTL, r_ptr := instanceName cfg\<rparr>,
      zero_record\<lparr>r_name := instanceName cfg, r_rtype := typeSRV, r_class := classIN OR cacheFlush, r_ttl := defaultTTL,
        r_target := hostName cfg, r_port := word_of_int (lc_Port cfg)\<rparr>,
      zero_record\<lparr>r_name := instanceName cfg, r_rtype := typeTXT, r_class := classIN OR cacheFlush, r_ttl := defaultTTL,
        r_txt := [''cluster='' @ lc_Cluster cfg, ''nick='' @ lc_Nick cfg]\<rparr>]
     @ (case To4 (lc_IP cfg) of None \<Rightarrow> []
        | Some ip \<Rightarrow> [zero_record\<lparr>r_name := hostName cfg, r_rtype := typeA, r_class := classIN OR cacheFlush, r_ttl := defaultTTL, r_ip := ip\<rparr>])"

definition lanWrite :: "dnsMessage \<Rightarrow> string option \<Rightarrow> lanServer \<Rightarrow> lanServer" where
  "lanWrite m addr s = (case encodeMessage m of Inl e \<Rightarrow> s | Inr buf \<Rightarrow> s\<lparr>ms_sent := ms_sent s @ [(buf, addr)]\<rparr>)"

definition announcement :: "lanConfig \<Rightarrow> dnsMessage" where
  "announcement cfg = \<lparr>dm_id = 0, dm_response = True, dm_questions = [], dm_answers = records cfg\<rparr>"

definition lanAnnounce :: "lanServer \<Rightarrow> lanServer" where
  "lanAnnounce s = lanWrite (announcement (ms_cfg s)) None s"

definition browseStart :: "nat \<Rightarrow> lanServer \<Rightarrow> lanServer" where
  "browseStart rnd s = lanWrite \<lparr>dm_id = word_of_nat rnd, dm_response = False,
       dm_questions = [\<lparr>q_name = Service, q_type = typePTR, q_class = classIN, q_unicast = False\<rparr>], dm_answers = []\<rparr> None
     (s\<lparr>ms_entries := fmempty\<rparr>)"

definition browseResult :: "lanServer \<Rightarrow> lanEntry list" where
  "browseResult s = map snd (fmentries (ms_entries s))"

definition wantedQuestion :: "(string \<Rightarrow> string \<Rightarrow> bool) \<Rightarrow> lanConfig \<Rightarrow> question \<Rightarrow> bool" where
  "wantedQuestion equalFold cfg q \<longleftrightarrow>
     (equalFold (q_name q) Service \<or> equalFold (q_name q) (instanceName cfg))
     \<and> (q_type q = typePTR \<or> q_type q = typeAny \<or> q_type q = typeSRV \<or> q_type q = typeTXT)"

definition answer :: "(string \<Rightarrow> string \<Rightarrow> bool) \<Rightarrow> dnsMessage \<Rightarrow> string \<Rightarrow> lanServer \<Rightarrow> lanServer" where
  "answer equalFold msg src s =
     (let asked = filter (wantedQuestion equalFold (ms_cfg s)) (dm_questions msg);
          reply = \<lparr>dm_id = dm_id msg, dm_response = True, dm_questions = [], dm_answers = records (ms_cfg s)\<rparr>
      in if asked = [] then s
         else if list_ex q_unicast asked then lanWrite reply (Some src) s
         else lanWrite reply None s)"

definition ownInstance :: "(string \<Rightarrow> string) \<Rightarrow> string \<Rightarrow> bool" where
  "ownInstance toLower name \<longleftrightarrow> suffix (''.'' @ toLower Service) (toLower name)"

text \<open>The four maps \<open>collect\<close> builds from one message.\<close>

record lanSeen =
  ls_srv :: "(string, dnsRecord) fmap"
  ls_txt :: "(string, string list) fmap"
  ls_hosts :: "(string, bytes) fmap"
  ls_instances :: "string fset"

definition seeRecord :: "(string \<Rightarrow> string) \<Rightarrow> (string \<Rightarrow> string \<Rightarrow> bool) \<Rightarrow> lanSeen \<Rightarrow> dnsRecord \<Rightarrow> lanSeen" where
  "seeRecord toLower equalFold seen r =
     (if r_rtype r = typePTR then
        (if equalFold (r_name r) Service then seen\<lparr>ls_instances := finsert (r_ptr r) (ls_instances seen)\<rparr> else seen)
      else if r_rtype r = typeSRV then
        (if ownInstance toLower (r_name r)
         then seen\<lparr>ls_srv := fmupd (r_name r) r (ls_srv seen), ls_instances := finsert (r_name r) (ls_instances seen)\<rparr> else seen)
      else if r_rtype r = typeTXT then
        (if ownInstance toLower (r_name r) then seen\<lparr>ls_txt := fmupd (r_name r) (r_txt r) (ls_txt seen)\<rparr> else seen)
      else if r_rtype r = typeA then seen\<lparr>ls_hosts := fmupd (r_name r) (r_ip r) (ls_hosts seen)\<rparr>
      else seen)"

text \<open>\<open>strings.Cut\<close> at the first equals sign; \<open>net.IP.String\<close> of a four-byte address.\<close>

definition cutEq :: "string \<Rightarrow> (string \<times> string) option" where
  "cutEq s = (case dropWhile (\<lambda>c. c \<noteq> CHR ''='') s of [] \<Rightarrow> None | _ # v \<Rightarrow> Some (takeWhile (\<lambda>c. c \<noteq> CHR ''='') s, v))"

definition ipString :: "bytes \<Rightarrow> string" where
  "ipString ip = joinLabels ''.'' (map (\<lambda>b. decimalNat (unat b)) ip)"

definition readTxt :: "lanEntry \<Rightarrow> string \<Rightarrow> lanEntry" where
  "readTxt e kv = (case cutEq kv of
     None \<Rightarrow> e
   | Some (key, val) \<Rightarrow>
       if key = ''cluster'' then e\<lparr>le_Cluster := val\<rparr> else if key = ''nick'' then e\<lparr>le_Nick := val\<rparr> else e)"

definition entryOf :: "lanSeen \<Rightarrow> string \<Rightarrow> dnsRecord \<Rightarrow> bytes \<Rightarrow> lanEntry" where
  "entryOf seen inst rec ip = foldl readTxt
     \<lparr>le_Addr = JoinHostPort (ipString ip) (decimalNat (unat (r_port rec))), le_Cluster = '''', le_Nick = '''', le_Instance = inst\<rparr>
     (case fmlookup (ls_txt seen) inst of None \<Rightarrow> [] | Some t \<Rightarrow> t)"

definition collectOne :: "(string \<Rightarrow> string) \<Rightarrow> (string \<Rightarrow> string \<Rightarrow> bool) \<Rightarrow> lanConfig \<Rightarrow> lanSeen \<Rightarrow> (string, lanEntry) fmap \<Rightarrow> string \<Rightarrow> (string, lanEntry) fmap" where
  "collectOne toLower equalFold cfg seen es inst =
     (if \<not> ownInstance toLower inst then es
      else if equalFold inst (instanceName cfg) then es
      else case fmlookup (ls_srv seen) inst of
        None \<Rightarrow> es
      | Some rec \<Rightarrow> (case fmlookup (ls_hosts seen) (r_target rec) of
          None \<Rightarrow> es
        | Some ip \<Rightarrow> fmupd inst (entryOf seen inst rec ip) es))"

definition seenIn :: "(string \<Rightarrow> string) \<Rightarrow> (string \<Rightarrow> string \<Rightarrow> bool) \<Rightarrow> dnsMessage \<Rightarrow> lanSeen" where
  "seenIn toLower equalFold msg =
     foldl (seeRecord toLower equalFold) \<lparr>ls_srv = fmempty, ls_txt = fmempty, ls_hosts = fmempty, ls_instances = {||}\<rparr> (dm_answers msg)"

definition collect :: "(string \<Rightarrow> string) \<Rightarrow> (string \<Rightarrow> string \<Rightarrow> bool) \<Rightarrow> dnsMessage \<Rightarrow> lanServer \<Rightarrow> lanServer" where
  "collect toLower equalFold msg s =
     (let seen = seenIn toLower equalFold msg
      in s\<lparr>ms_entries := foldl (collectOne toLower equalFold (ms_cfg s) seen) (ms_entries s) (sorted_list_of_fset (ls_instances seen))\<rparr>)"

text \<open>One round of \<open>serve\<close>: the read buffer holds 9000 bytes, and a longer datagram is cut.\<close>

definition serveDatagram :: "(string \<Rightarrow> string) \<Rightarrow> (string \<Rightarrow> string \<Rightarrow> bool) \<Rightarrow> bytes \<Rightarrow> string \<Rightarrow> lanServer \<Rightarrow> lanServer" where
  "serveDatagram toLower equalFold buf src s = (case decodeMessage (take 9000 buf) of
     Inl e \<Rightarrow> s
   | Inr msg \<Rightarrow> if dm_response msg then collect toLower equalFold msg s else answer equalFold msg src s)"

section \<open>Adoption\<close>

definition splitHostPort :: "string \<Rightarrow> string \<times> int" where
  "splitHostPort addr = (case SplitHostPort addr of
     None \<Rightarrow> ('''', 0)
   | Some (host, portStr) \<Rightarrow> (case Atoi portStr of None \<Rightarrow> (host, 0) | Some port \<Rightarrow> (host, port)))"

text \<open>
  \<open>startMDNS\<close> up to opening the sockets.  \<open>parseIP\<close> is \<open>net.ParseIP\<close>; an unspecified address is all zeroes, in its four-byte form if it has one.
\<close>

definition mdnsConfig :: "(string \<Rightarrow> bytes option) \<Rightarrow> Node \<Rightarrow> lanConfig" where
  "mdnsConfig parseIP n =
     (let (host, port) = splitHostPort (advertised n);
          cfg = \<lparr>lc_Instance = md_NodeID (nd_Model n), lc_Port = port, lc_IP = [], lc_Cluster = nc_Cluster (nd_cfg n), lc_Nick = md_nodeNick (nd_Model n)\<rparr>
      in case parseIP host of
           None \<Rightarrow> cfg
         | Some ip \<Rightarrow> if list_all (\<lambda>b. b = 0) (case To4 ip of None \<Rightarrow> ip | Some v4 \<Rightarrow> v4) then cfg else cfg\<lparr>lc_IP := ip\<rparr>)"

definition adoptEntry :: "Node \<Rightarrow> lanEntry \<Rightarrow> Node" where
  "adoptEntry n e =
     (if le_Cluster e \<noteq> nc_Cluster (nd_cfg n) then n
      else if IsSelf (nd_Model n) (le_Addr e) \<or> HasPeerNormalized (nd_Model n) (le_Addr e) then n
      else if \<not> ValidPeerAddr (le_Addr e) then n
      else case nodeAddPeer (le_Addr e) n of
        (n1, False) \<Rightarrow> n1
      | (n1, True) \<Rightarrow>
          let n2 = logActivity (ActFound (if le_Nick e = '''' then le_Addr e else le_Nick e)) n1
          in notify PeersChanged (send (le_Addr e) (MsgHello (helloMessage n2)) n2))"

definition adoptMDNS :: "lanEntry list \<Rightarrow> Node \<Rightarrow> Node" where
  "adoptMDNS found n = foldl adoptEntry n found"

section \<open>Names\<close>

lemma escapeInstance_label: "CHR ''.'' \<notin> set (escapeInstance s)" "escapeInstance s \<noteq> []" "length (escapeInstance s) \<le> 63"
  by (auto simp: escapeInstance_def Let_def dest: in_set_takeD)

lemma splitAt_append: "c \<notin> set e \<Longrightarrow> splitAt c (e @ c # xs) = e # splitAt c xs"
  by (induction e) auto

lemma trimSuffix_snoc [simp]: "trimSuffix c (s @ [c]) = s"
  by (simp add: trimSuffix_def)

lemma trim_instance:
  "trimSuffix (CHR ''.'') (e @ ''._rezoagwe._udp.local.'') = e @ ''._rezoagwe._udp.local''"
  "trimSuffix (CHR ''.'') (e @ ''.local.'') = e @ ''.local''"
  by (simp_all add: trimSuffix_def butlast_append)

lemma splitAt_end: "c \<notin> set e \<Longrightarrow> splitAt c e = [e]"
  by (induction e) auto

lemma split_service: "splitAt (CHR ''.'') ''_rezoagwe._udp.local'' = [''_rezoagwe'', ''_udp'', ''local'']"
  using splitAt_append [of "CHR ''.''" "''_rezoagwe''" "''_udp.local''"] splitAt_append [of "CHR ''.''" "''_udp''" "''local''"]
    splitAt_end [of "CHR ''.''" "''local''"]
  by (simp del: splitAt.simps)

lemma labels_Service: "labelsOf Service = [''_rezoagwe'', ''_udp'', ''local'']"
  using trim_instance(1) [of "[]"] split_service by (simp add: labelsOf_def Service_def trimSuffix_def del: splitAt.simps)

lemma labels_instance: "labelsOf (instanceName cfg) = [escapeInstance (lc_Instance cfg), ''_rezoagwe'', ''_udp'', ''local'']"
  using escapeInstance_label [of "lc_Instance cfg"] split_service
    splitAt_append [of "CHR ''.''" "escapeInstance (lc_Instance cfg)" "''_rezoagwe._udp.local''"]
  by (simp add: labelsOf_def instanceName_def Service_def trim_instance [simplified] del: splitAt.simps)

lemma labels_host: "labelsOf (hostName cfg) = [escapeInstance (lc_Instance cfg), ''local'']"
  using escapeInstance_label [of "lc_Instance cfg"] splitAt_append [of "CHR ''.''" "escapeInstance (lc_Instance cfg)" "''local''"]
  by (simp add: labelsOf_def hostName_def trim_instance [simplified] splitAt_end del: splitAt.simps)

lemma canon_names [simp]: "canonName Service = Service" "canonName (instanceName cfg) = instanceName cfg" "canonName (hostName cfg) = hostName cfg"
  by (simp_all add: canonName_def labels_Service labels_instance labels_host) (simp_all add: Service_def instanceName_def hostName_def)

lemma okLabels_names [simp]: "okLabels (labelsOf Service)" "okLabels (labelsOf (instanceName cfg))" "okLabels (labelsOf (hostName cfg))"
  using escapeInstance_label [of "lc_Instance cfg"] by (simp_all add: okLabels_def labels_Service labels_instance labels_host)

lemma length_names:
  "length (wireName (labelsOf Service)) = 22" "length (wireName (labelsOf (instanceName cfg))) \<le> 86" "length (wireName (labelsOf (hostName cfg))) \<le> 71"
  using escapeInstance_label(3) [of "lc_Instance cfg"] by (simp_all add: labels_Service labels_instance labels_host wireName_def wireLabel_def)

section \<open>One message\<close>

definition response :: "u16 \<Rightarrow> lanConfig \<Rightarrow> dnsMessage" where
  "response i cfg = \<lparr>dm_id = i, dm_response = True, dm_questions = [], dm_answers = records cfg\<rparr>"

definition announcable :: "lanConfig \<Rightarrow> bytes \<Rightarrow> bool" where
  "announcable cfg ip \<longleftrightarrow> To4 (lc_IP cfg) = Some ip \<and> length (lc_Cluster cfg) \<le> 247 \<and> length (lc_Nick cfg) \<le> 250"

lemma To4_idem: "To4 ip = Some v \<Longrightarrow> To4 v = Some v"
  by (auto simp: To4_def split: if_splits)

lemma response_ok: "announcable cfg ip \<Longrightarrow> okMessage (response i cfg)"
  using To4_idem [of "lc_IP cfg" ip]
  by (simp add: announcable_def okMessage_def response_def records_def okRecord_def okData_def record_types)

lemma response_fits: "announcable cfg ip \<Longrightarrow> length (wireMessage (response i cfg)) \<le> 9000"
  using length_names(1) length_names(2,3) [of cfg] To4_idem [of "lc_IP cfg" ip] To4_length [of "lc_IP cfg" ip]
  by (simp add: announcable_def wireMessage_def wireHeader_def response_def records_def wireRecord_def wireData_def record_types
      wireTxt_def wireLabel_def)

lemma class_flush: "(classIN OR cacheFlush) AND NOT cacheFlush = classIN" "classIN AND NOT cacheFlush = classIN"
  by (simp_all add: class_bits) (simp_all add: classIN_def cacheFlush_def)

lemma response_decoded:
  assumes "announcable cfg ip"
  shows "decodeMessage (take 9000 (wireMessage (response i cfg))) = Inr (canonMessage (response i cfg))"
  using response_fits [OF assms, of i] by (simp add: decode_wire response_ok [OF assms])

text \<open>What the parameters must satisfy: lower-casing works rune by rune, and the service name is in lower case; folding is reflexive.\<close>

definition case_laws :: "(string \<Rightarrow> string) \<Rightarrow> (string \<Rightarrow> string \<Rightarrow> bool) \<Rightarrow> bool" where
  "case_laws toLower equalFold \<longleftrightarrow> toLower Service = Service \<and> (\<forall>x. toLower (x @ ''.'' @ Service) = toLower x @ ''.'' @ Service)
     \<and> equalFold Service Service"

lemma own_instance: "case_laws toLower equalFold \<Longrightarrow> ownInstance toLower (instanceName cfg)"
  by (simp add: case_laws_def ownInstance_def instanceName_def suffix_def)

lemma cut_cluster: "cutEq (''cluster='' @ s) = Some (''cluster'', s)" "cutEq (''nick='' @ s) = Some (''nick'', s)"
  by (simp_all add: cutEq_def)

definition lanEntryOf :: "lanConfig \<Rightarrow> bytes \<Rightarrow> lanEntry" where
  "lanEntryOf cfg ip = \<lparr>le_Addr = JoinHostPort (ipString ip) (decimalNat (unat (word_of_int (lc_Port cfg) :: u16))),
     le_Cluster = lc_Cluster cfg, le_Nick = lc_Nick cfg, le_Instance = instanceName cfg\<rparr>"

lemma collect_response:
  assumes "announcable cfg ip" "case_laws toLower equalFold" "\<not> equalFold (instanceName cfg) (instanceName (ms_cfg s))"
  shows "ms_entries (collect toLower equalFold (canonMessage (response i cfg)) s) = fmupd (instanceName cfg) (lanEntryOf cfg ip) (ms_entries s)"
proof -
  have f: "equalFold Service Service" using assms(2) by (simp add: case_laws_def)
  have a: "To4 (lc_IP cfg) = Some ip" "To4 ip = Some ip" using assms(1) To4_idem by (auto simp: announcable_def)
  have "instanceName cfg \<noteq> hostName cfg"
    by (simp add: instanceName_def hostName_def Service_def)
  then show ?thesis
    by (simp add: collect_def seenIn_def canonMessage_def response_def records_def a seeRecord_def canonRecord_def record_types f
        own_instance [OF assms(2)] Let_def collectOne_def assms(3) entryOf_def readTxt_def cut_cluster [simplified] lanEntryOf_def zero_record_def)
qed

lemma lanAnnounce_sent:
  "announcable (ms_cfg s) ip \<Longrightarrow> ms_sent (lanAnnounce s) = ms_sent s @ [(wireMessage (response 0 (ms_cfg s)), None)]"
proof -
  assume a: "announcable (ms_cfg s) ip"
  have "encodeMessage (announcement (ms_cfg s)) = Inr (wireMessage (response 0 (ms_cfg s)))"
    using response_ok [OF a, of 0] by (simp add: encodeMessage_iff announcement_def response_def)
  then show ?thesis by (simp add: lanAnnounce_def lanWrite_def)
qed

definition query :: "nat \<Rightarrow> dnsMessage" where
  "query rnd = \<lparr>dm_id = word_of_nat rnd, dm_response = False,
     dm_questions = [\<lparr>q_name = Service, q_type = typePTR, q_class = classIN, q_unicast = False\<rparr>], dm_answers = []\<rparr>"

lemma query_ok: "okMessage (query rnd)"
  by (simp add: okMessage_def query_def)

lemma query_decoded: "decodeMessage (take 9000 (wireMessage (query rnd))) = Inr (query rnd)"
proof -
  have l: "length (wireMessage (query rnd)) = 38"
    by (simp add: wireMessage_def wireHeader_def query_def wireQuestion_def length_names)
  have c: "classIN AND NOT unicastResponse = classIN" "classIN AND unicastResponse = 0"
    by (simp_all add: classIN_def unicastResponse_def)
  have "canonMessage (query rnd) = query rnd"
    by (simp add: canonMessage_def query_def canonQuestion_def c)
  then show ?thesis
    using decode_wire [OF query_ok, of rnd] by (simp add: l)
qed

lemma browseStart_sent: "ms_sent (browseStart rnd s) = ms_sent s @ [(wireMessage (query rnd), None)]" "ms_entries (browseStart rnd s) = fmempty"
  "ms_cfg (browseStart rnd s) = ms_cfg s"
proof -
  have "encodeMessage (query rnd) = Inr (wireMessage (query rnd))"
    by (simp add: encodeMessage_iff query_ok)
  then show "ms_sent (browseStart rnd s) = ms_sent s @ [(wireMessage (query rnd), None)]" "ms_entries (browseStart rnd s) = fmempty"
    "ms_cfg (browseStart rnd s) = ms_cfg s"
    by (simp_all add: browseStart_def lanWrite_def query_def [symmetric])
qed

lemma query_answered:
  assumes "announcable (ms_cfg s) ip" "equalFold Service Service"
  shows "ms_sent (serveDatagram toLower equalFold (wireMessage (query rnd)) src s) = ms_sent s @ [(wireMessage (response (word_of_nat rnd) (ms_cfg s)), None)]"
proof -
  have e: "encodeMessage \<lparr>dm_id = word_of_nat rnd, dm_response = True, dm_questions = [], dm_answers = records (ms_cfg s)\<rparr>
      = Inr (wireMessage (response (word_of_nat rnd) (ms_cfg s)))"
    using response_ok [OF assms(1), of "word_of_nat rnd"] by (simp add: encodeMessage_iff response_def)
  have "serveDatagram toLower equalFold (wireMessage (query rnd)) src s = answer equalFold (query rnd) src s"
    by (simp add: serveDatagram_def query_decoded) (simp add: query_def)
  then show ?thesis
    using assms(2) e by (simp add: answer_def query_def wantedQuestion_def Let_def lanWrite_def)
qed

lemma response_collected:
  assumes "announcable cfg ip" "case_laws toLower equalFold" "\<not> equalFold (instanceName cfg) (instanceName (ms_cfg s))"
  shows "ms_entries (serveDatagram toLower equalFold (wireMessage (response i cfg)) src s) = fmupd (instanceName cfg) (lanEntryOf cfg ip) (ms_entries s)"
proof -
  have "serveDatagram toLower equalFold (wireMessage (response i cfg)) src s = collect toLower equalFold (canonMessage (response i cfg)) s"
    by (simp add: serveDatagram_def response_decoded [OF assms(1)]) (simp add: canonMessage_def response_def)
  then show ?thesis using collect_response [OF assms] by simp
qed

text \<open>
  C35.  Two nodes on a LAN find each other.  If node \<open>a\<close> has an IPv4 address to advertise and its cluster name and nickname fit a text record, then the datagram
  of its announcement, and the datagram with which it answers the datagram of another node's browse, each give that other node an entry with
  \<open>a\<close>'s address and port, its cluster and its nickname, exactly as configured, through encoding, decoding and assembly of the records.
\<close>

theorem lan_nodes_find_each_other:
  assumes "case_laws toLower equalFold" "announcable (ms_cfg a) ip" "\<not> equalFold (instanceName (ms_cfg a)) (instanceName (ms_cfg b))"
  shows "let found = (\<lambda>d s. fmlookup (ms_entries (serveDatagram toLower equalFold d src s)) (instanceName (ms_cfg a)));
             asking = browseStart rnd b;
             ask = fst (last (ms_sent asking));
             reply = fst (last (ms_sent (serveDatagram toLower equalFold ask src a)))
         in found (fst (last (ms_sent (lanAnnounce a)))) b = Some (lanEntryOf (ms_cfg a) ip) \<and> found reply asking = Some (lanEntryOf (ms_cfg a) ip)"
proof -
  have f: "equalFold Service Service" using assms(1) by (simp add: case_laws_def)
  show ?thesis
    by (simp add: Let_def lanAnnounce_sent [OF assms(2)] browseStart_sent query_answered [where equalFold = equalFold, OF assms(2) f]
        response_collected [OF assms(2,1)] assms(3))
qed

definition demo_lan :: "string \<Rightarrow> lanServer" where
  "demo_lan name = \<lparr>ms_cfg = \<lparr>lc_Instance = name, lc_Port = 3137, lc_IP = [10, 0, 0, 1], lc_Cluster = ''c'', lc_Nick = ''al''\<rparr>, ms_entries = fmempty, ms_sent = []\<rparr>"

theorem lan_nodes_find_each_other_witness:
  "fmlookup (ms_entries (serveDatagram (\<lambda>s. s) (=) (fst (last (ms_sent (lanAnnounce (demo_lan ''x''))))) ''s'' (demo_lan ''y''))) ''x._rezoagwe._udp.local.''
     = Some \<lparr>le_Addr = ''10.0.0.1:3137'', le_Cluster = ''c'', le_Nick = ''al'', le_Instance = ''x._rezoagwe._udp.local.''\<rparr>"
proof -
  have n: "instanceName (ms_cfg (demo_lan ''x'')) = ''x._rezoagwe._udp.local.''" "instanceName (ms_cfg (demo_lan ''y'')) = ''y._rezoagwe._udp.local.''"
    by (simp_all add: instanceName_def demo_lan_def escapeInstance_def Service_def)
  have "announcable (ms_cfg (demo_lan ''x'')) [10, 0, 0, 1]"
    by (simp add: announcable_def demo_lan_def To4_def)
  moreover have "case_laws (\<lambda>s. s) (=)" by (simp add: case_laws_def)
  moreover have "lanEntryOf (ms_cfg (demo_lan ''x'')) [10, 0, 0, 1] =
      \<lparr>le_Addr = ''10.0.0.1:3137'', le_Cluster = ''c'', le_Nick = ''al'', le_Instance = ''x._rezoagwe._udp.local.''\<rparr>"
    unfolding lanEntryOf_def n by (simp add: demo_lan_def ipString_def JoinHostPort_def decimalNat.simps char_of_def bit_Suc_0_iff)
  ultimately show ?thesis
    using lan_nodes_find_each_other [of "\<lambda>s. s" "(=)" "demo_lan ''x''" "[10, 0, 0, 1]" "demo_lan ''y''" "''s''" 0] by (simp add: Let_def n)
qed

text \<open>
  The comment on \<open>collect\<close> says the records are assembled by name because nothing guarantees that they arrive in one message.  They are assembled within one
  message only: a response without an address record never adds an entry, whatever was received before.
\<close>

lemma split_response_lost:
  assumes "list_all (\<lambda>r. r_rtype r \<noteq> typeA) (dm_answers msg)"
  shows "collect toLower equalFold msg s = s"
proof -
  have step: "ls_hosts (foldl (seeRecord toLower equalFold) seen rs) = ls_hosts seen" if "list_all (\<lambda>r. r_rtype r \<noteq> typeA) rs" for rs seen
    using that by (induction rs arbitrary: seen) (auto simp: seeRecord_def)
  have "ls_hosts (seenIn toLower equalFold msg) = fmempty"
    using step [OF assms] by (simp add: seenIn_def)
  then have one: "collectOne toLower equalFold cfg (seenIn toLower equalFold msg) es inst = es" for cfg es inst
    by (simp add: collectOne_def split: option.split)
  have "foldl (collectOne toLower equalFold cfg (seenIn toLower equalFold msg)) es insts = es" for cfg es insts
    by (induction insts) (simp_all add: one)
  then show ?thesis by (simp add: collect_def Let_def)
qed

section \<open>Adopting what was found\<close>

lemma adoptEntry_cases:
  obtains "adoptEntry n e = n"
    "\<not> (le_Cluster e = nc_Cluster (nd_cfg n) \<and> ValidPeerAddr (le_Addr e) \<and> \<not> IsSelf (nd_Model n) (le_Addr e) \<and> \<not> HasPeerNormalized (nd_Model n) (le_Addr e))"
  | h where "le_Cluster e = nc_Cluster (nd_cfg n)" "ValidPeerAddr (le_Addr e)" "\<not> IsSelf (nd_Model n) (le_Addr e)" "\<not> HasPeerNormalized (nd_Model n) (le_Addr e)"
    "nd_Model (adoptEntry n e) = fst (AddPeer (nodeNow n) (le_Addr e) (nd_Model n))" "nd_outbox (adoptEntry n e) = nd_outbox n @ [(le_Addr e, MsgHello h)]"
    "nd_cfg (adoptEntry n e) = nd_cfg n"
proof -
  have ne: "\<not> ValidPeerAddr ''''"
    by (simp add: ValidPeerAddr_def SplitHostPort_def)
  show ?thesis
  proof (cases "le_Cluster e = nc_Cluster (nd_cfg n) \<and> ValidPeerAddr (le_Addr e) \<and> \<not> IsSelf (nd_Model n) (le_Addr e) \<and> \<not> HasPeerNormalized (nd_Model n) (le_Addr e)")
    case False
    then show ?thesis
      using that(1) by (auto simp: adoptEntry_def)
  next
    case True
    then have "snd (AddPeer (nodeNow n) (le_Addr e) (nd_Model n))"
      using ne by (auto simp: AddPeer_def HasPeerNormalized_def split: if_splits)
    then obtain m where m: "AddPeer (nodeNow n) (le_Addr e) (nd_Model n) = (m, True)"
      by (cases "AddPeer (nodeNow n) (le_Addr e) (nd_Model n)") auto
    show ?thesis
      by (rule that(2)) (use True in \<open>auto simp: adoptEntry_def nodeAddPeer_def m logActivity_def notify_def send_def Let_def\<close>)
  qed
qed

lemma AddPeer_grows: "md_Nodes bn |\<subseteq>| md_Nodes (fst (AddPeer now a bn))" "IsSelf (fst (AddPeer now a bn)) b = IsSelf bn b"
  "HasPeerNormalized bn b \<Longrightarrow> HasPeerNormalized (fst (AddPeer now a bn)) b"
  by (auto simp: AddPeer_def IsSelf_def HasPeerNormalized_def split: if_splits)

definition joinable :: "Node \<Rightarrow> lanEntry \<Rightarrow> bool" where
  "joinable n e \<longleftrightarrow> le_Cluster e = nc_Cluster (nd_cfg n) \<and> ValidPeerAddr (le_Addr e) \<and> \<not> IsSelf (nd_Model n) (le_Addr e)"

lemma adoptEntry_step:
  "nd_cfg (adoptEntry n e) = nd_cfg n \<and> IsSelf (nd_Model (adoptEntry n e)) b = IsSelf (nd_Model n) b
   \<and> (HasPeerNormalized (nd_Model n) b \<longrightarrow> HasPeerNormalized (nd_Model (adoptEntry n e)) b)
   \<and> (joinable n e \<longrightarrow> HasPeerNormalized (nd_Model (adoptEntry n e)) (le_Addr e))
   \<and> (\<exists>hs. nd_outbox (adoptEntry n e) = nd_outbox n @ hs
        \<and> md_Nodes (nd_Model (adoptEntry n e)) = md_Nodes (nd_Model n) |\<union>| fset_of_list (map fst hs)
        \<and> list_all (\<lambda>(a, m). (\<exists>h. m = MsgHello h) \<and> a = le_Addr e \<and> joinable n e) hs)"
proof (rule adoptEntry_cases [of n e])
  assume a: "adoptEntry n e = n"
    "\<not> (le_Cluster e = nc_Cluster (nd_cfg n) \<and> ValidPeerAddr (le_Addr e) \<and> \<not> IsSelf (nd_Model n) (le_Addr e) \<and> \<not> HasPeerNormalized (nd_Model n) (le_Addr e))"
  show ?thesis
    using a by (auto simp: joinable_def intro!: exI [of _ "[]"])
next
  fix h
  assume a: "le_Cluster e = nc_Cluster (nd_cfg n)" "ValidPeerAddr (le_Addr e)" "\<not> IsSelf (nd_Model n) (le_Addr e)" "\<not> HasPeerNormalized (nd_Model n) (le_Addr e)"
    "nd_Model (adoptEntry n e) = fst (AddPeer (nodeNow n) (le_Addr e) (nd_Model n))" "nd_outbox (adoptEntry n e) = nd_outbox n @ [(le_Addr e, MsgHello h)]"
    "nd_cfg (adoptEntry n e) = nd_cfg n"
  have j: "joinable n e" using a(1-3) by (simp add: joinable_def)
  have ne: "le_Addr e \<noteq> ''''"
    using a(2) by (auto simp: ValidPeerAddr_def SplitHostPort_def)
  have nodes: "md_Nodes (nd_Model (adoptEntry n e)) = finsert (le_Addr e) (md_Nodes (nd_Model n))"
    using a(2,3) ne by (simp add: a(5) AddPeer_def)
  have "HasPeerNormalized (nd_Model (adoptEntry n e)) (le_Addr e)"
    by (simp add: HasPeerNormalized_def nodes)
  then show ?thesis
    using j AddPeer_grows [where bn = "nd_Model n"] by (auto simp: a(5-7) nodes [unfolded a(5)] intro!: exI [of _ "[(le_Addr e, MsgHello h)]"])
qed

text \<open>
  What a browse changes of a node.  Every peer it had it keeps; it sends a hello to each new peer and nothing else; every new peer is the address of an entry found
  that names this node's own cluster, is a usable address and is not this node; and every such entry is a peer afterwards, under that spelling or an
  equivalent one.
\<close>

theorem lan_adoption:
  "\<exists>hs. nd_outbox (adoptMDNS found n) = nd_outbox n @ hs
     \<and> md_Nodes (nd_Model (adoptMDNS found n)) = md_Nodes (nd_Model n) |\<union>| fset_of_list (map fst hs)
     \<and> list_all (\<lambda>(a, m). (\<exists>h. m = MsgHello h) \<and> list_ex (\<lambda>e. le_Addr e = a \<and> joinable n e) found) hs
     \<and> list_all (\<lambda>e. HasPeerNormalized (nd_Model (adoptMDNS found n)) (le_Addr e)) (filter (joinable n) found)"
proof -
  have run: "nd_cfg (adoptMDNS found n) = nd_cfg n \<and> (\<forall>b. HasPeerNormalized (nd_Model n) b \<longrightarrow> HasPeerNormalized (nd_Model (adoptMDNS found n)) b) \<and>
    (\<exists>hs. nd_outbox (adoptMDNS found n) = nd_outbox n @ hs
     \<and> md_Nodes (nd_Model (adoptMDNS found n)) = md_Nodes (nd_Model n) |\<union>| fset_of_list (map fst hs)
     \<and> (\<forall>(a, m) \<in> set hs. (\<exists>h. m = MsgHello h) \<and> (\<exists>e \<in> set found. le_Addr e = a \<and> joinable n e))
     \<and> (\<forall>e \<in> set found. joinable n e \<longrightarrow> HasPeerNormalized (nd_Model (adoptMDNS found n)) (le_Addr e)))" for n
  proof (induction found arbitrary: n)
    case Nil
    then show ?case by (simp add: adoptMDNS_def)
  next
    case (Cons e found)
    let ?n1 = "adoptEntry n e"
    have a: "adoptMDNS (e # found) n = adoptMDNS found ?n1" by (simp add: adoptMDNS_def)
    have j: "joinable ?n1 x = joinable n x" for x
      using adoptEntry_step [of n e "le_Addr x"] by (simp add: joinable_def)
    obtain hs1 where s: "nd_outbox ?n1 = nd_outbox n @ hs1" "md_Nodes (nd_Model ?n1) = md_Nodes (nd_Model n) |\<union>| fset_of_list (map fst hs1)"
        "\<forall>(a, m) \<in> set hs1. (\<exists>h. m = MsgHello h) \<and> a = le_Addr e \<and> joinable n e"
      using adoptEntry_step [of n e undefined] by (auto simp: list_all_iff)
    obtain hs2 where t: "nd_outbox (adoptMDNS found ?n1) = nd_outbox ?n1 @ hs2"
        "md_Nodes (nd_Model (adoptMDNS found ?n1)) = md_Nodes (nd_Model ?n1) |\<union>| fset_of_list (map fst hs2)"
        "\<forall>(a, m) \<in> set hs2. (\<exists>h. m = MsgHello h) \<and> (\<exists>e \<in> set found. le_Addr e = a \<and> joinable ?n1 e)"
        "\<forall>e \<in> set found. joinable ?n1 e \<longrightarrow> HasPeerNormalized (nd_Model (adoptMDNS found ?n1)) (le_Addr e)"
      using Cons.IH [of ?n1] by blast
    have keep: "HasPeerNormalized (nd_Model n) b \<Longrightarrow> HasPeerNormalized (nd_Model (adoptMDNS found ?n1)) b" for b
      using adoptEntry_step [of n e b] Cons.IH [of ?n1] by blast
    have e: "joinable n e \<Longrightarrow> HasPeerNormalized (nd_Model (adoptMDNS found ?n1)) (le_Addr e)"
      using adoptEntry_step [of n e "le_Addr e"] Cons.IH [of ?n1] by blast
    show ?case
      unfolding a
    proof (intro conjI exI [of _ "hs1 @ hs2"])
      show "nd_cfg (adoptMDNS found ?n1) = nd_cfg n"
        using Cons.IH [of ?n1] adoptEntry_step [of n e] by simp
      show "\<forall>(a, m) \<in> set (hs1 @ hs2). (\<exists>h. m = MsgHello h) \<and> (\<exists>e \<in> set (e # found). le_Addr e = a \<and> joinable n e)"
        using s(3) t(3) j by fastforce
    qed (use s(1,2) t(1,2,4) keep e j in \<open>auto simp: fset_of_list.rep_eq funion_assoc\<close>)
  qed
  from run [of n] obtain hs where "nd_outbox (adoptMDNS found n) = nd_outbox n @ hs"
     "md_Nodes (nd_Model (adoptMDNS found n)) = md_Nodes (nd_Model n) |\<union>| fset_of_list (map fst hs)"
     "\<forall>(a, m) \<in> set hs. (\<exists>h. m = MsgHello h) \<and> (\<exists>e \<in> set found. le_Addr e = a \<and> joinable n e)"
     "\<forall>e \<in> set found. joinable n e \<longrightarrow> HasPeerNormalized (nd_Model (adoptMDNS found n)) (le_Addr e)" by blast
  then show ?thesis
    by (intro exI [of _ hs]) (auto simp: list_all_iff list_ex_iff)
qed

end
