(* ===== verification/Snapshots.thy ===== *)
theory Snapshots
  imports Repair
begin

text \<open>
  Periodic exports to disk (\<open>pkg/discovery/node/snapshot.go\<close>): the defaults, writing one snapshot beside its target and
  renaming it, and removing all but the newest.

  The snapshot directory is a map from names to contents, with the names of its subdirectories apart.  What the
  operating system may refuse is a record of outcomes; a write it refuses leaves no file, and the path returned is given by its
  name in the directory.  \<open>stamp\<close> is \<open>time.Format\<close> with the layout of the
  file names, and \<open>marshal\<close> is \<open>json.MarshalIndent\<close>.
\<close>

section \<open>Operations\<close>

record SnapshotConfig =
  sn_Dir :: string
  sn_Interval :: nanos
  sn_Keep :: int

definition snapshotPrefix :: string where "snapshotPrefix = ''rezoagwe-''"
definition snapshotSuffix :: string where "snapshotSuffix = ''.json''"

definition snapshotDefaults :: "SnapshotConfig \<Rightarrow> SnapshotConfig" where
  "snapshotDefaults c =
     (let c1 = (if sn_Interval c = 0 then c\<lparr>sn_Interval := 3600 * second\<rparr> else c)
      in if sn_Keep c1 = 0 then c1\<lparr>sn_Keep := 24\<rparr> else c1)"

record snapDir =
  dir_files :: "(string, bytes) fmap"
  dir_subdirs :: "string fset"

record osOutcome =
  os_mkdir :: bool
  os_write :: bool
  os_rename :: bool
  os_readDir :: bool
  os_remove :: "string \<Rightarrow> bool"

datatype snapshotError = NoSnapshotDir | ExportFailed | MkdirFailed | WriteFileFailed | RenameFailed | ReadDirFailed | RemoveFailed string

definition HasPrefix :: "string \<Rightarrow> string \<Rightarrow> bool" where
  "HasPrefix s pre \<longleftrightarrow> length pre \<le> length s \<and> take (length pre) s = pre"

definition HasSuffix :: "string \<Rightarrow> string \<Rightarrow> bool" where
  "HasSuffix s suf \<longleftrightarrow> length suf \<le> length s \<and> drop (length s - length suf) s = suf"

definition isSnapshot :: "string \<Rightarrow> bool" where
  "isSnapshot name \<longleftrightarrow> HasPrefix name snapshotPrefix \<and> HasSuffix name snapshotSuffix"

definition removeSnapshot :: "osOutcome \<Rightarrow> snapDir \<times> snapshotError option \<Rightarrow> string \<Rightarrow> snapDir \<times> snapshotError option" where
  "removeSnapshot os = (\<lambda>(d, firstErr) name.
     if os_remove os name then (d\<lparr>dir_files := fmdrop name (dir_files d)\<rparr>, firstErr)
     else (d, if firstErr = None then Some (RemoveFailed name) else firstErr))"

text \<open>\<open>os.ReadDir\<close> lists files and directories; directories are skipped.\<close>

definition pruneSnapshots :: "osOutcome \<Rightarrow> int \<Rightarrow> snapDir \<Rightarrow> snapDir \<times> snapshotError option" where
  "pruneSnapshots os keep d =
     (if keep \<le> 0 then (d, None)
      else if \<not> os_readDir os then (d, Some ReadDirFailed)
      else
        let names = filter isSnapshot (fmkeys (dir_files d)) in
        if int (length names) \<le> keep then (d, None)
        else foldl (removeSnapshot os) (d, None) (take (length names - nat keep) (sort names)))"

definition snapshotName :: "(nanos \<Rightarrow> string) \<Rightarrow> nanos \<Rightarrow> string" where
  "snapshotName stamp now = snapshotPrefix @ stamp now @ snapshotSuffix"

definition WriteSnapshot ::
  "osOutcome \<Rightarrow> (nanos \<Rightarrow> string) \<Rightarrow> (ExportFile \<Rightarrow> bytes option) \<Rightarrow> SnapshotConfig \<Rightarrow> Node \<Rightarrow> snapDir \<Rightarrow> Node \<times> snapDir \<times> (snapshotError + string)" where
  "WriteSnapshot os stamp marshal cfg n d =
     (if sn_Dir cfg = '''' then (n, d, Inl NoSnapshotDir)
      else case marshal (Export n) of
        None \<Rightarrow> (n, d, Inl ExportFailed)
      | Some data \<Rightarrow>
          if \<not> os_mkdir os then (n, d, Inl MkdirFailed)
          else
            let name = snapshotName stamp (nodeNow n); tmp = name @ ''.tmp'' in
            if \<not> os_write os then (n, d, Inl WriteFileFailed)
            else
              let d1 = d\<lparr>dir_files := fmupd tmp data (dir_files d)\<rparr> in
              if \<not> os_rename os
              then (n, if os_remove os tmp then d1\<lparr>dir_files := fmdrop tmp (dir_files d1)\<rparr> else d1, Inl RenameFailed)
              else
                let d2 = d1\<lparr>dir_files := fmupd name data (fmdrop tmp (dir_files d1))\<rparr>;
                    n1 = logActivity (ActSnapshot name (length data)) n
                in (n1, fst (pruneSnapshots os (sn_Keep cfg) d2), Inr name))"

definition snapshotTick ::
  "osOutcome \<Rightarrow> (nanos \<Rightarrow> string) \<Rightarrow> (ExportFile \<Rightarrow> bytes option) \<Rightarrow> SnapshotConfig \<Rightarrow> Node \<times> snapDir \<Rightarrow> Node \<times> snapDir" where
  "snapshotTick os stamp marshal cfg = (\<lambda>(n, d). case WriteSnapshot os stamp marshal cfg n d of
     (n1, d1, Inl err) \<Rightarrow> (logActivity ActSnapshotFailed n1, d1)
   | (n1, d1, Inr name) \<Rightarrow> (n1, d1))"

section \<open>Pruning\<close>

lemma removeFile_run:
  assumes "\<And>x. os_remove os x"
  shows "foldl (removeSnapshot os) (d, e) names = (d\<lparr>dir_files := fmdrop_set (set names) (dir_files d)\<rparr>, e)"
proof (induction names arbitrary: d)
  case Nil
  have "fmdrop_set {} (dir_files d) = dir_files d"
    by (rule fmap_ext) simp
  then show ?case by simp
next
  case (Cons x xs)
  have "fmdrop_set (set xs) (fmdrop x (dir_files d)) = fmdrop_set (insert x (set xs)) (dir_files d)"
    by (rule fmap_ext) simp
  then show ?case
    using Cons.IH assms by (simp add: removeSnapshot_def)
qed

lemma sorted_split_newest:
  assumes "sorted xs" "distinct xs" "a \<in> set (take n xs)" "b \<in> set (drop n xs)"
  shows "a < (b :: 'a :: linorder)"
proof -
  have "sorted (take n xs @ drop n xs)" "distinct (take n xs @ drop n xs)"
    using assms(1,2) by simp_all
  then show ?thesis
    using assms(3,4) unfolding sorted_append distinct_append by (metis disjoint_iff order_le_less)
qed

text \<open>
  Pruning keeps the newest.  When the directory can be read and files removed and at least one snapshot is to be kept: afterwards there
  are as many snapshots as before or as the limit allows, whichever is less; every snapshot removed has a lesser name than every
  one kept; and no file that is not a snapshot, and no subdirectory, is touched.
\<close>

theorem prune_keeps_newest:
  assumes "0 < keep" "os_readDir os" "\<And>x. os_remove os x"
  shows "let names = filter isSnapshot (fmkeys (dir_files d)); d' = fst (pruneSnapshots os keep d);
             names' = filter isSnapshot (fmkeys (dir_files d')) in
     snd (pruneSnapshots os keep d) = None
   \<and> length names' = min (nat keep) (length names) \<and> set names' \<subseteq> set names
   \<and> (\<forall>a \<in> set names - set names'. \<forall>b \<in> set names'. a < b)
   \<and> (\<forall>f. f \<notin> set names - set names' \<longrightarrow> fmlookup (dir_files d') f = fmlookup (dir_files d) f) \<and> dir_subdirs d' = dir_subdirs d"
proof -
  define names where "names = filter isSnapshot (fmkeys (dir_files d))"
  have sd: "sorted names" "distinct names"
    by (simp_all add: names_def sorted_wrt_filter)
  show ?thesis
  proof (cases "int (length names) \<le> keep")
    case True
    then have "pruneSnapshots os keep d = (d, None)"
      using assms by (simp add: pruneSnapshots_def names_def)
    then show ?thesis
      using True by (simp add: Let_def names_def)
  next
    case False
    let ?old = "take (length names - nat keep) names" and ?new = "drop (length names - nat keep) names"
    have p: "pruneSnapshots os keep d = (d\<lparr>dir_files := fmdrop_set (set ?old) (dir_files d)\<rparr>, None)"
      using assms False sd by (simp add: pruneSnapshots_def names_def [symmetric] Let_def removeFile_run sorted_sort_id)
    let ?d' = "d\<lparr>dir_files := fmdrop_set (set ?old) (dir_files d)\<rparr>"
    have dj: "set ?old \<inter> set ?new = {}" "set names = set ?old \<union> set ?new"
      using sd(2) by (metis append_take_drop_id distinct_append, metis append_take_drop_id set_append)
    have "set (filter isSnapshot (fmkeys (dir_files ?d'))) = set names - set ?old"
      by (auto simp: names_def fmlookup_dom'_iff)
    then have "set (filter isSnapshot (fmkeys (dir_files ?d'))) = set ?new"
      using dj by blast
    then have n': "filter isSnapshot (fmkeys (dir_files ?d')) = ?new"
      using sd by (intro sorted_distinct_set_unique) (simp_all add: sorted_wrt_filter sorted_wrt_drop)
    have diff: "set names - set ?new = set ?old"
      using dj by blast
    show ?thesis
      unfolding p Let_def fst_conv n' names_def [symmetric] diff
      using False assms(1) sorted_split_newest [OF sd] by (auto dest: in_set_dropD)
  qed
qed

theorem prune_keeps_newest_witness:
  "let os = \<lparr>os_mkdir = True, os_write = True, os_rename = True, os_readDir = True, os_remove = (\<lambda>_. True)\<rparr>;
       d = \<lparr>dir_files = fmap_of_list [(''rezoagwe-1.json'', []), (''rezoagwe-2.json'', []), (''x'', [])], dir_subdirs = {||}\<rparr> in
   length (filter isSnapshot (fmkeys (dir_files (fst (pruneSnapshots os 1 d))))) = 1"
proof -
  let ?names = "filter isSnapshot (fmkeys (fmap_of_list [(''rezoagwe-1.json'', []), (''rezoagwe-2.json'', []), (''x'', [] :: bytes)]))"
  have "set ?names = {''rezoagwe-1.json'', ''rezoagwe-2.json''}"
    by (auto simp: isSnapshot_def HasPrefix_def HasSuffix_def snapshotPrefix_def snapshotSuffix_def)
  moreover have "length ?names = card (set ?names)"
    by (rule distinct_card [symmetric]) simp
  ultimately have "length ?names = 2"
    by simp
  then show ?thesis
    using prune_keeps_newest [of 1 "\<lparr>os_mkdir = True, os_write = True, os_rename = True, os_readDir = True, os_remove = (\<lambda>_. True)\<rparr>"
        "\<lparr>dir_files = fmap_of_list [(''rezoagwe-1.json'', []), (''rezoagwe-2.json'', []), (''x'', [])], dir_subdirs = {||}\<rparr>"]
    by (simp add: Let_def)
qed

end
