(* ===== verification/Topology.thy ===== *)
theory Topology
  imports NodeEngine "HOL-Library.Product_Lexorder"
begin

text \<open>
  The cluster graph a node assembles from its peer table and the peer lists gossiped to it
  (\<open>pkg/discovery/topology/topology.go\<close>), and \<open>Node.Topology\<close> of \<open>api.go\<close>.

  The \<open>map[string]struct{}\<close> sets are finite sets and \<open>claims\<close> is a finite map to them.  A zero \<open>time.Time\<close>
  is \<open>None\<close>.  When two owners of a view have one normal form, Go keeps the view it happens to visit last; the
  model visits the owners in ascending order.  The coordinates \<open>place\<close> computes for drawing are floating
  point and are not modelled; the shells they are computed from are.

  The theorems: one link per claimed pair with the right kind; the nodes are the addresses anything mentions,
  in their display order; \<open>Components\<close> returns the connected components of the graph.
\<close>

section \<open>Data\<close>

datatype Role = RoleSelf | RoleDirect | RoleIndirect

datatype LinkKind = LinkDirect | LinkMutual | LinkObserved

definition shellCapacity :: nat where "shellCapacity = 10"

record topoNode =
  tn_Addr :: string
  tn_Label :: string
  tn_Role :: Role
  tn_LastSeen :: unix_time
  tn_Degree :: nat
  tn_Advertised :: int

record Link =
  l_A :: string
  l_B :: string
  l_Kind :: LinkKind

record Graph =
  g_Nodes :: "topoNode list"
  g_Links :: "Link list"
  g_GeneratedAt :: unix_time

record topoPeer =
  tp_Addr :: string
  tp_Nick :: string
  tp_LastSeen :: "nanos option"

record topoInput =
  ti_SelfAddr :: string
  ti_SelfNick :: string
  ti_Peers :: "topoPeer list"
  ti_Views :: "(string, PeerView) fmap"
  ti_Now :: "nanos option"

type_synonym claimMap = "(string, string fset) fmap"

section \<open>Links\<close>

definition claimsOf :: "claimMap \<Rightarrow> string \<Rightarrow> string fset" where
  "claimsOf claims from = (case fmlookup claims from of None \<Rightarrow> {||} | Some s \<Rightarrow> s)"

definition claim :: "string \<Rightarrow> string \<Rightarrow> claimMap \<Rightarrow> claimMap" where
  "claim from to claims =
     (if from = '''' \<or> to = '''' \<or> from = to then claims
      else fmupd from (finsert to (claimsOf claims from)) claims)"

definition pairKey :: "string \<Rightarrow> string \<Rightarrow> string" where
  "pairKey from to = (if from > to then to @ ''|'' @ from else from @ ''|'' @ to)"

definition linkKind :: "string \<Rightarrow> claimMap \<Rightarrow> string \<Rightarrow> string \<Rightarrow> LinkKind" where
  "linkKind self claims from to =
     (if from = self \<or> to = self then LinkDirect
      else if from |\<in>| claimsOf claims to then LinkMutual
      else LinkObserved)"

definition linkStep :: "string \<Rightarrow> claimMap \<Rightarrow> string \<Rightarrow> string set \<times> Link list \<Rightarrow> string \<Rightarrow> string set \<times> Link list" where
  "linkStep self claims from = (\<lambda>(seen, links) to.
     if pairKey from to \<in> seen then (seen, links)
     else (insert (pairKey from to) seen,
           links @ [\<lparr>l_A = from, l_B = to, l_Kind = linkKind self claims from to\<rparr>]))"

definition buildLinks :: "string \<Rightarrow> claimMap \<Rightarrow> Link list" where
  "buildLinks self claims =
     snd (foldl (\<lambda>acc from. foldl (linkStep self claims from) acc (sorted_list_of_fset (claimsOf claims from)))
            ({}, []) (fmkeys claims))"

section \<open>Assembling the graph\<close>

definition directPeers :: "topoPeer list \<Rightarrow> (string, topoPeer) fmap" where
  "directPeers ps = foldl (\<lambda>m p. fmupd (NormalizeAddr (tp_Addr p)) p m) fmempty ps"

definition normalViews :: "(string, PeerView) fmap \<Rightarrow> (string, PeerView) fmap" where
  "normalViews vs = foldl (\<lambda>m (owner, v). fmupd (NormalizeAddr owner) v m) fmempty (fmentries vs)"

definition collectClaims :: "string \<Rightarrow> (string, topoPeer) fmap \<Rightarrow> (string, PeerView) fmap \<Rightarrow> claimMap" where
  "collectClaims self direct vs =
     foldl (\<lambda>m (owner, v). foldl (\<lambda>m target. claim (NormalizeAddr owner) (NormalizeAddr target) m) m (pv_Peers v))
       (foldl (\<lambda>m addr. claim self addr m) fmempty (fmkeys direct)) (fmentries vs)"

definition graphAddrs :: "string \<Rightarrow> (string, topoPeer) fmap \<Rightarrow> claimMap \<Rightarrow> string fset" where
  "graphAddrs self direct claims =
     foldl (\<lambda>s (from, targets). finsert from s |\<union>| targets) (finsert self (fmdom direct)) (fmentries claims)"

definition degreeOf :: "Link list \<Rightarrow> string \<Rightarrow> nat" where
  "degreeOf links addr = foldl (\<lambda>d l. d + (if l_A l = addr then 1 else 0) + (if l_B l = addr then 1 else 0)) 0 links"

definition mention :: "string \<Rightarrow> unix_time \<Rightarrow> (string, unix_time) fmap \<Rightarrow> (string, unix_time) fmap" where
  "mention key at m = (if at > (case fmlookup m key of None \<Rightarrow> 0 | Some x \<Rightarrow> x) then fmupd key at m else m)"

definition mentioned :: "(string, PeerView) fmap \<Rightarrow> (string, unix_time) fmap" where
  "mentioned views =
     foldl (\<lambda>m (owner, v).
         foldl (\<lambda>m target. mention (NormalizeAddr target) (unix (pv_At v)) m) (mention owner (unix (pv_At v)) m) (pv_Peers v))
       fmempty (fmentries views)"

definition topoNodeOf ::
  "topoInput \<Rightarrow> string \<Rightarrow> (string, topoPeer) fmap \<Rightarrow> (string, PeerView) fmap \<Rightarrow> Link list \<Rightarrow> string \<Rightarrow> topoNode" where
  "topoNodeOf inp self direct views links addr =
     (let peer = fmlookup direct addr; view' = fmlookup views addr;
          role = (if addr = self then RoleSelf else if peer \<noteq> None then RoleDirect else RoleIndirect);
          label0 = (if addr = self then (if ti_SelfNick inp = '''' then ''this node'' else ti_SelfNick inp)
                    else case peer of Some p \<Rightarrow> tp_Nick p | None \<Rightarrow> '''')
      in \<lparr>tn_Addr = addr,
          tn_Label = (if label0 = '''' then addr else label0),
          tn_Role = role,
          tn_LastSeen = (case (case peer of None \<Rightarrow> None | Some p \<Rightarrow> tp_LastSeen p) of
              Some ts \<Rightarrow> unix ts
            | None \<Rightarrow> (case view' of
                Some v \<Rightarrow> unix (pv_At v)
              | None \<Rightarrow> (case fmlookup (mentioned views) addr of None \<Rightarrow> 0 | Some at \<Rightarrow> at))),
          tn_Degree = degreeOf links addr,
          tn_Advertised = (case view' of None \<Rightarrow> - 1 | Some v \<Rightarrow> int (length (pv_Peers v)))\<rparr>)"

fun roleOrder :: "Role \<Rightarrow> nat" where
  "roleOrder RoleSelf = 0"
| "roleOrder RoleDirect = 1"
| "roleOrder RoleIndirect = 2"

definition Build :: "nanos \<Rightarrow> topoInput \<Rightarrow> Graph" where
  "Build clock inp =
     (let now = (case ti_Now inp of None \<Rightarrow> clock | Some t \<Rightarrow> t);
          self = NormalizeAddr (ti_SelfAddr inp);
          direct = directPeers (ti_Peers inp);
          claims = collectClaims self direct (ti_Views inp);
          views = normalViews (ti_Views inp);
          addrs = graphAddrs self direct claims;
          links = buildLinks self claims;
          nodes = map (topoNodeOf inp self direct views links) (sorted_list_of_fset addrs)
      in \<lparr>g_Nodes = sort_key (\<lambda>n. (roleOrder (tn_Role n), tn_Addr n)) nodes,
          g_Links = links, g_GeneratedAt = unix now\<rparr>)"

definition NodeTopology :: "Node \<Rightarrow> Graph" where
  "NodeTopology n = Build (nodeNow n)
     \<lparr>ti_SelfAddr = nc_AdvertiseAddr (nd_cfg n), ti_SelfNick = Nick (nd_Model n),
      ti_Peers = map (\<lambda>p. \<lparr>tp_Addr = pi_Addr p, tp_Nick = pi_Nick p,
          tp_LastSeen = (if pi_LastSeen p > 0 then Some (pi_LastSeen p * second) else None)\<rparr>) (Peers n),
      ti_Views = PeerViews (nd_Model n), ti_Now = Some (nodeNow n)\<rparr>"

section \<open>Connected components\<close>

definition adjLookup :: "(string, string fset) fmap \<Rightarrow> string \<Rightarrow> string fset" where
  "adjLookup adj a = (case fmlookup adj a of None \<Rightarrow> {||} | Some s \<Rightarrow> s)"

definition addEdge :: "(string, string fset) fmap \<Rightarrow> Link \<Rightarrow> (string, string fset) fmap" where
  "addEdge adj l =
     (if l_A l = l_B l then adj
      else let adj1 = fmupd (l_A l) (finsert (l_B l) (adjLookup adj (l_A l))) adj
           in fmupd (l_B l) (finsert (l_A l) (adjLookup adj1 (l_B l))) adj1)"

definition adjacencyOf :: "Link list \<Rightarrow> (string, string fset) fmap" where
  "adjacencyOf links = foldl addEdge fmempty links"

definition enqueue :: "string fset \<times> string list \<Rightarrow> string \<Rightarrow> string fset \<times> string list" where
  "enqueue = (\<lambda>(remaining, queue) nxt.
     if nxt |\<in>| remaining then (remaining |-| {|nxt|}, queue @ [nxt]) else (remaining, queue))"

lemma enqueue_run:
  assumes "foldl enqueue (R, q) ns = (R', q')"
  shows "\<exists>xs. q' = q @ xs \<and> set xs = set ns \<inter> fset R \<and> distinct xs \<and> fset R' = fset R - set ns \<and> fcard R' + length xs = fcard R"
  using assms
proof (induction ns arbitrary: R q)
  case (Cons y ys)
  show ?case
  proof (cases "y |\<in>| R")
    case True
    from Cons.prems True have "foldl enqueue (R |-| {|y|}, q @ [y]) ys = (R', q')"
      by (simp add: enqueue_def)
    then obtain xs where "q' = (q @ [y]) @ xs" "set xs = set ys \<inter> fset (R |-| {|y|})" "distinct xs"
        "fset R' = fset (R |-| {|y|}) - set ys" "fcard R' + length xs = fcard (R |-| {|y|})"
      using Cons.IH [of "R |-| {|y|}" "q @ [y]"] by blast
    moreover have "Suc (fcard (R |-| {|y|})) = fcard R"
      using True by (metis fcard_Suc_fminus1)
    ultimately show ?thesis
      using True by (intro exI [of _ "y # xs"]) auto
  next
    case False
    with Cons.prems have "foldl enqueue (R, q) ys = (R', q')"
      by (simp add: enqueue_def)
    from Cons.IH [OF this] False show ?thesis
      by auto
  qed
qed simp

function bfs :: "(string, string fset) fmap \<Rightarrow> string fset \<Rightarrow> string list \<Rightarrow> string list \<Rightarrow> string fset \<times> string list" where
  "bfs adj remaining [] grp = (remaining, grp)"
| "bfs adj remaining (cur # queue) grp =
     (let (remaining', queue') = foldl enqueue (remaining, queue) (sorted_list_of_fset (adjLookup adj cur))
      in bfs adj remaining' queue' (grp @ [cur]))"
  by pat_completeness auto

text \<open>A node enters the queue by leaving \<open>remaining\<close>, so their joint size falls by one with every step.\<close>

termination
  by (relation "measure (\<lambda>(adj, remaining, queue, grp). fcard remaining + length queue)")
     (auto dest!: enqueue_run [OF sym])

definition componentStep :: "(string, string fset) fmap \<Rightarrow> string fset \<times> string list list \<Rightarrow> string \<Rightarrow> string fset \<times> string list list" where
  "componentStep adj = (\<lambda>(remaining, groups) seed.
     if seed |\<notin>| remaining then (remaining, groups)
     else case bfs adj (remaining |-| {|seed|}) [seed] [] of
       (remaining', grp) \<Rightarrow> (remaining', groups @ [sort grp]))"

definition Components :: "Graph \<Rightarrow> string list list" where
  "Components g =
     (let adj = adjacencyOf (g_Links g);
          addrs = map tn_Addr (g_Nodes g);
          groups = snd (foldl (componentStep adj) (fset_of_list addrs, []) (sort addrs))
      in sort_key (\<lambda>grp. (- int (length grp), hd grp)) groups)"

definition Unconfirmed :: "Graph \<Rightarrow> Link list" where
  "Unconfirmed g = filter (\<lambda>l. l_Kind l = LinkObserved) (g_Links g)"

definition Neighbours :: "Graph \<Rightarrow> string \<Rightarrow> string list" where
  "Neighbours g addr = sorted_list_of_fset
     (foldl (\<lambda>s l. if addr = l_A l then finsert (l_B l) s else if addr = l_B l then finsert (l_A l) s else s)
        {||} (g_Links g))"

section \<open>Shells\<close>

definition byRole :: "Graph \<Rightarrow> Role \<Rightarrow> string list" where
  "byRole g role = sort (map tn_Addr (filter (\<lambda>n. tn_Role n = role) (g_Nodes g)))"

function chunk :: "string list \<Rightarrow> string list list" where
  "chunk addrs = (if addrs = [] then [] else take shellCapacity addrs # chunk (drop shellCapacity addrs))"
  by pat_completeness auto
termination
  by (relation "measure length") (auto simp: shellCapacity_def)

declare chunk.simps [simp del]

definition shells :: "Graph \<Rightarrow> string list list" where
  "shells g = chunk (byRole g RoleDirect) @ chunk (byRole g RoleIndirect)"

section \<open>Breadth-first search\<close>

text \<open>The links as a relation on the nodes of the graph.\<close>

definition linked :: "Graph \<Rightarrow> (string \<times> string) set" where
  "linked g = {(a, b). a \<noteq> b \<and> a \<in> tn_Addr ` set (g_Nodes g) \<and> b \<in> tn_Addr ` set (g_Nodes g)
     \<and> (\<exists>l \<in> set (g_Links g). {l_A l, l_B l} = {a, b})}"

lemma adjLookup_upd [simp]: "adjLookup (fmupd a s adj) b = (if a = b then s else adjLookup adj b)"
  by (simp add: adjLookup_def)

lemma adjLookup_empty [simp]: "adjLookup fmempty a = {||}"
  by (simp add: adjLookup_def)

lemma addEdge_lookup:
  "b |\<in>| adjLookup (addEdge adj l) a \<longleftrightarrow> b |\<in>| adjLookup adj a \<or> (a \<noteq> b \<and> {l_A l, l_B l} = {a, b})"
  by (auto simp: addEdge_def Let_def doubleton_eq_iff)

lemma adjacencyOf_lookup:
  "b |\<in>| adjLookup (adjacencyOf links) a \<longleftrightarrow> a \<noteq> b \<and> (\<exists>l \<in> set links. {l_A l, l_B l} = {a, b})"
proof -
  have "b |\<in>| adjLookup (foldl addEdge adj links) a \<longleftrightarrow>
      b |\<in>| adjLookup adj a \<or> (a \<noteq> b \<and> (\<exists>l \<in> set links. {l_A l, l_B l} = {a, b}))" for adj
    by (induction links arbitrary: adj) (auto simp: addEdge_lookup)
  then show ?thesis
    by (simp add: adjacencyOf_def)
qed

lemma linked_adj: "(a, b) \<in> linked g \<longleftrightarrow> b |\<in>| adjLookup (adjacencyOf (g_Links g)) a
    \<and> a \<in> tn_Addr ` set (g_Nodes g) \<and> b \<in> tn_Addr ` set (g_Nodes g)"
  by (auto simp: linked_def adjacencyOf_lookup)

lemma sym_linked: "sym (linked g)"
  by (auto simp: sym_def linked_def insert_commute)

lemma set_sorted_list_of_fset [simp]: "set (sorted_list_of_fset s) = fset s"
  by (simp add: sorted_list_of_fset.rep_eq)

text \<open>What the search splits its input into, and that nothing it leaves is next to what it takes.\<close>

lemma bfs_run:
  assumes "bfs adj R q G = (R', G')" "distinct (G @ q)" "set (G @ q) \<inter> fset R = {}"
    and "\<forall>x \<in> set G. fset (adjLookup adj x) \<inter> fset R = {}"
  shows "distinct G' \<and> set G' \<inter> fset R' = {} \<and> set G' \<union> fset R' = set (G @ q) \<union> fset R \<and> set (G @ q) \<subseteq> set G'
    \<and> (\<forall>x \<in> set G'. fset (adjLookup adj x) \<inter> fset R' = {})"
  using assms
proof (induction adj R q G arbitrary: R' G' rule: bfs.induct)
  case (2 adj R cur q G)
  obtain R1 q1 where r: "foldl enqueue (R, q) (sorted_list_of_fset (adjLookup adj cur)) = (R1, q1)"
    by force
  then obtain xs where xs: "q1 = q @ xs" "set xs = fset (adjLookup adj cur) \<inter> fset R" "distinct xs"
      "fset R1 = fset R - fset (adjLookup adj cur)"
    using enqueue_run [OF r] by auto
  have "bfs adj R1 q1 (G @ [cur]) = (R', G')"
    using "2.prems"(1) r by simp
  moreover have "distinct ((G @ [cur]) @ q1)" "set ((G @ [cur]) @ q1) \<inter> fset R1 = {}"
      "\<forall>x \<in> set (G @ [cur]). fset (adjLookup adj x) \<inter> fset R1 = {}"
    using "2.prems"(2-4) xs by auto
  ultimately have "distinct G' \<and> set G' \<inter> fset R' = {} \<and> set G' \<union> fset R' = set ((G @ [cur]) @ q1) \<union> fset R1
      \<and> set ((G @ [cur]) @ q1) \<subseteq> set G' \<and> (\<forall>x \<in> set G'. fset (adjLookup adj x) \<inter> fset R' = {})"
    by (rule "2.IH" [OF r [symmetric] refl])
  then show ?case
    using xs by auto
qed auto

lemma bfs_reachable:
  assumes "bfs adj R q G = (R', G')" "set q \<union> fset R \<subseteq> N"
  shows "set G' \<subseteq> set G \<union> {(a, b). b |\<in>| adjLookup adj a \<and> a \<in> N \<and> b \<in> N}\<^sup>* `` set q"
  using assms
proof (induction adj R q G arbitrary: R' G' rule: bfs.induct)
  case (2 adj R cur q G)
  let ?r = "{(a, b). b |\<in>| adjLookup adj a \<and> a \<in> N \<and> b \<in> N}"
  obtain R1 q1 where r: "foldl enqueue (R, q) (sorted_list_of_fset (adjLookup adj cur)) = (R1, q1)"
    by force
  then obtain xs where xs: "q1 = q @ xs" "set xs = fset (adjLookup adj cur) \<inter> fset R" "fset R1 \<subseteq> fset R"
    using enqueue_run [OF r] by auto
  have "bfs adj R1 q1 (G @ [cur]) = (R', G')"
    using "2.prems"(1) r by simp
  moreover have "set q1 \<union> fset R1 \<subseteq> N"
    using "2.prems"(2) xs by auto
  ultimately have "set G' \<subseteq> set (G @ [cur]) \<union> ?r\<^sup>* `` set q1"
    by (rule "2.IH" [OF r [symmetric] refl])
  moreover have "?r\<^sup>* `` set xs \<subseteq> ?r\<^sup>* `` {cur}"
    using "2.prems"(2) by (auto simp: xs(2) intro: converse_rtrancl_into_rtrancl)
  ultimately show ?case
    by (auto simp: xs(1) Image_Un)
qed auto

definition comp_inv :: "Graph \<Rightarrow> string fset \<times> string list list \<Rightarrow> bool" where
  "comp_inv g = (\<lambda>(R, groups).
     fset R \<union> set (concat groups) = tn_Addr ` set (g_Nodes g) \<and> fset R \<inter> set (concat groups) = {}
     \<and> distinct (concat groups)
     \<and> (\<forall>grp \<in> set groups. sorted grp \<and> (\<exists>s \<in> set grp. set grp = (linked g)\<^sup>* `` {s})))"

lemma linked_rel: "linked g = {(a, b). b |\<in>| adjLookup (adjacencyOf (g_Links g)) a
    \<and> a \<in> tn_Addr ` set (g_Nodes g) \<and> b \<in> tn_Addr ` set (g_Nodes g)}"
  using linked_adj by auto

lemma linked_star_sym: "(a, b) \<in> (linked g)\<^sup>* \<longleftrightarrow> (b, a) \<in> (linked g)\<^sup>*"
  using sym_rtrancl [OF sym_linked] by (meson symD)

lemma component_new:
  assumes "comp_inv g (R, groups)" "seed |\<in>| R"
    and "bfs (adjacencyOf (g_Links g)) (R |-| {|seed|}) [seed] [] = (R', G')"
  shows "set G' = (linked g)\<^sup>* `` {seed}" "distinct G'" "set G' \<inter> fset R' = {}" "set G' \<union> fset R' = fset R" "seed \<in> set G'"
proof -
  have b: "distinct G'" "set G' \<inter> fset R' = {}" "set G' \<union> fset R' = set [seed] \<union> fset (R |-| {|seed|})" "set [seed] \<subseteq> set G'"
      "\<forall>x \<in> set G'. fset (adjLookup (adjacencyOf (g_Links g)) x) \<inter> fset R' = {}"
    using bfs_run [OF assms(3)] by simp_all
  then show p: "distinct G'" "set G' \<inter> fset R' = {}" "set G' \<union> fset R' = fset R" "seed \<in> set G'"
    using assms(2) by auto
  have N: "fset R \<subseteq> tn_Addr ` set (g_Nodes g)"
    using assms(1) by (auto simp: comp_inv_def)
  then have "set [seed] \<union> fset (R |-| {|seed|}) \<subseteq> tn_Addr ` set (g_Nodes g)"
    using assms(2) by auto
  from bfs_reachable [OF assms(3) this] have "set G' \<subseteq> (linked g)\<^sup>* `` {seed}"
    unfolding linked_rel by simp
  moreover have "linked g `` set G' \<subseteq> set G'"
  proof
    fix y assume "y \<in> linked g `` set G'"
    then obtain x where x: "x \<in> set G'" "(x, y) \<in> linked g" by blast
    have "y \<notin> set (concat groups)"
    proof
      assume "y \<in> set (concat groups)"
      then obtain grp s where "grp \<in> set groups" "y \<in> set grp" "set grp = (linked g)\<^sup>* `` {s}"
        using assms(1) by (auto simp: comp_inv_def)
      moreover have "(y, x) \<in> linked g"
        using x(2) sym_linked by (meson symD)
      ultimately have "x \<in> set (concat groups)"
        by (auto intro!: bexI [of _ grp] intro: rtrancl_into_rtrancl)
      then show False
        using assms(1) x(1) p(3) by (auto simp: comp_inv_def)
    qed
    moreover have "y \<in> tn_Addr ` set (g_Nodes g)" "y \<notin> fset R'"
      using x b(5) by (auto simp: linked_adj)
    ultimately show "y \<in> set G'"
      using assms(1) p(3) by (auto simp: comp_inv_def)
  qed
  then have "(linked g)\<^sup>* `` {seed} \<subseteq> set G'"
    using Image_closed_trancl [of "linked g" "set G'"] p(4) by blast
  ultimately show "set G' = (linked g)\<^sup>* `` {seed}" ..
qed

lemma componentStep_inv:
  assumes "comp_inv g (R, groups)" "componentStep (adjacencyOf (g_Links g)) (R, groups) seed = (R', groups')"
  shows "comp_inv g (R', groups')" "seed |\<notin>| R'" "fset R' \<subseteq> fset R"
proof -
  have "comp_inv g (R', groups') \<and> seed |\<notin>| R' \<and> fset R' \<subseteq> fset R"
  proof (cases "seed |\<in>| R")
    case True
    then obtain G' where G: "bfs (adjacencyOf (g_Links g)) (R |-| {|seed|}) [seed] [] = (R', G')" "groups' = groups @ [sort G']"
      using assms(2) by (auto simp: componentStep_def split: prod.splits)
    note n = component_new [OF assms(1) True G(1)]
    have "fset R' \<union> set (concat groups') = fset R \<union> set (concat groups)"
      using G(2) n(4) by auto
    moreover have "fset R' \<inter> set (concat groups') = {}" "distinct (concat groups')"
      using assms(1) G(2) n(2-4) by (auto simp: comp_inv_def distinct_append)
    moreover have "sorted grp \<and> (\<exists>s \<in> set grp. set grp = (linked g)\<^sup>* `` {s})" if "grp \<in> set groups'" for grp
      using that assms(1) G(2) n(1,5) by (auto simp: comp_inv_def)
    ultimately show ?thesis
      using assms(1) n by (auto simp: comp_inv_def)
  qed (use assms in \<open>auto simp: componentStep_def\<close>)
  then show "comp_inv g (R', groups')" "seed |\<notin>| R'" "fset R' \<subseteq> fset R" by auto
qed

lemma components_run:
  assumes "comp_inv g (R, groups)" "foldl (componentStep (adjacencyOf (g_Links g))) (R, groups) seeds = (R', groups')"
  shows "comp_inv g (R', groups') \<and> fset R' \<inter> set seeds = {} \<and> fset R' \<subseteq> fset R"
  using assms
proof (induction seeds arbitrary: R groups)
  case (Cons s seeds)
  obtain R1 g1 where s: "componentStep (adjacencyOf (g_Links g)) (R, groups) s = (R1, g1)" by force
  with Cons.prems(2) have "foldl (componentStep (adjacencyOf (g_Links g))) (R1, g1) seeds = (R', groups')"
    by simp
  from Cons.IH [OF componentStep_inv(1) [OF Cons.prems(1) s] this] componentStep_inv(2,3) [OF Cons.prems(1) s]
  show ?case by auto
qed simp

lemma components_classes:
  "set ` set (Components g) = (tn_Addr ` set (g_Nodes g)) // (linked g)\<^sup>*
     \<and> distinct (concat (Components g)) \<and> list_all sorted (Components g)
     \<and> sorted (map (\<lambda>grp. (- int (length grp), hd grp)) (Components g))"
proof -
  let ?adj = "adjacencyOf (g_Links g)" and ?as = "map tn_Addr (g_Nodes g)"
  obtain R groups where f: "foldl (componentStep ?adj) (fset_of_list ?as, []) (sort ?as) = (R, groups)" by force
  have "comp_inv g (fset_of_list ?as, [])"
    by (simp add: comp_inv_def fset_of_list.rep_eq)
  from components_run [OF this f] have inv: "comp_inv g (R, groups)" and R: "fset R = {}"
    by (auto simp: fset_of_list.rep_eq)
  let ?k = "\<lambda>grp. (- int (length grp), hd grp)"
  have c: "Components g = sort_key ?k groups"
    unfolding Components_def Let_def f by simp
  have m: "mset (concat (Components g)) = mset (concat groups)"
    by (simp add: c mset_concat flip: sum_mset_sum_list)
  have cover: "set (concat groups) = tn_Addr ` set (g_Nodes g)"
    and cls: "\<And>grp. grp \<in> set groups \<Longrightarrow> sorted grp \<and> (\<exists>s \<in> set grp. set grp = (linked g)\<^sup>* `` {s})"
    and d: "distinct (concat groups)"
    using inv R by (auto simp: comp_inv_def)
  have eq: "(linked g)\<^sup>* `` {x} = (linked g)\<^sup>* `` {y}" if "(x, y) \<in> (linked g)\<^sup>*" for x y
    using that linked_star_sym [of x y g] by (auto intro: rtrancl_trans)
  have "set ` set groups = (tn_Addr ` set (g_Nodes g)) // (linked g)\<^sup>*"
  proof (intro equalityI subsetI)
    fix X assume "X \<in> set ` set groups"
    then obtain grp s where "grp \<in> set groups" "X = set grp" "s \<in> set grp" "set grp = (linked g)\<^sup>* `` {s}"
      using cls by blast
    then show "X \<in> (tn_Addr ` set (g_Nodes g)) // (linked g)\<^sup>*"
      unfolding cover [symmetric] quotient_def by auto
  next
    fix X assume "X \<in> (tn_Addr ` set (g_Nodes g)) // (linked g)\<^sup>*"
    then obtain x where x: "x \<in> set (concat groups)" "X = (linked g)\<^sup>* `` {x}"
      unfolding cover [symmetric] quotient_def by auto
    then obtain grp s where "grp \<in> set groups" "x \<in> set grp" "set grp = (linked g)\<^sup>* `` {s}"
      using cls by (metis (no_types, lifting) UN_E set_concat)
    then show "X \<in> set ` set groups"
      using eq [of s x] x(2) by (auto intro!: image_eqI [of _ _ grp])
  qed
  moreover have "distinct (concat (Components g))"
    using d m by (metis mset_eq_imp_distinct_iff)
  ultimately show ?thesis
    using cls by (auto simp: c list_all_iff)
qed

text \<open>
  C40.  \<open>Components\<close> returns the connected components: read as sets, its groups are exactly the equivalence
  classes of the nodes under "linked by a path of links between nodes"; no address is listed twice, in one group or
  in two; every group is in ascending order, and the groups come largest first, those of one size by their first address.
\<close>

theorem components_are_classes:
  "set ` set (Components g) = (tn_Addr ` set (g_Nodes g)) // (linked g)\<^sup>*
     \<and> distinct (concat (Components g)) \<and> list_all sorted (Components g)
     \<and> sorted (map (\<lambda>grp. (- int (length grp), hd grp)) (Components g))"
  by (rule components_classes)

section \<open>Links\<close>

definition ends :: "Link \<Rightarrow> string set" where
  "ends l = {l_A l, l_B l}"

definition linkPairs :: "claimMap \<Rightarrow> (string \<times> string) list" where
  "linkPairs claims = concat (map (\<lambda>from. map (Pair from) (sorted_list_of_fset (claimsOf claims from))) (fmkeys claims))"

lemma set_linkPairs: "set (linkPairs claims) = {(a, b). b |\<in>| claimsOf claims a}"
  by (auto simp: linkPairs_def claimsOf_def fmlookup_dom'_iff image_iff split: option.splits)

lemma foldl_concat_map: "foldl (\<lambda>acc x. foldl (f x) acc (g x)) a xs = foldl (\<lambda>acc (x, y). f x acc y) a (concat (map (\<lambda>x. map (Pair x) (g x)) xs))"
proof -
  have "foldl (\<lambda>acc (x, y). f x acc y) a (map (Pair x) ys) = foldl (f x) a ys" for a x ys
    by (induction ys arbitrary: a) auto
  then show ?thesis
    by (induction xs arbitrary: a) auto
qed

lemma buildLinks_pairs: "buildLinks self claims = snd (foldl (\<lambda>acc (from, to). linkStep self claims from acc to) ({}, []) (linkPairs claims))"
  unfolding buildLinks_def linkPairs_def foldl_concat_map ..

lemma linkStep_run:
  assumes "foldl (\<lambda>acc (from, to). linkStep self claims from acc to) ({}, []) ps = (seen, links)"
  shows "seen = (\<lambda>(a, b). pairKey a b) ` set ps \<and> (\<lambda>l. pairKey (l_A l) (l_B l)) ` set links = seen
    \<and> distinct (map (\<lambda>l. pairKey (l_A l) (l_B l)) links)
    \<and> (\<forall>l \<in> set links. (l_A l, l_B l) \<in> set ps \<and> l_Kind l = linkKind self claims (l_A l) (l_B l))"
  using assms
proof (induction ps arbitrary: seen links rule: rev_induct)
  case (snoc p ps)
  obtain s0 l0 where f: "foldl (\<lambda>acc (from, to). linkStep self claims from acc to) ({}, []) ps = (s0, l0)" by force
  from snoc.IH [OF f] snoc.prems f show ?case
    by (cases p) (auto simp: linkStep_def split: if_splits)
qed simp

text \<open>No two links share a key, which is what the \<open>seen\<close> set is for.\<close>

lemma buildLinks_keys_distinct: "distinct (map (\<lambda>l. pairKey (l_A l) (l_B l)) (buildLinks self claims))"
proof -
  obtain seen links where f: "foldl (\<lambda>acc (from, to). linkStep self claims from acc to) ({}, []) (linkPairs claims) = (seen, links)" by force
  show ?thesis
    using linkStep_run [OF f] by (simp add: buildLinks_pairs f)
qed

lemma bar_split: "CHR ''|'' \<notin> set x \<Longrightarrow> CHR ''|'' \<notin> set u \<Longrightarrow> x @ CHR ''|'' # y = u @ CHR ''|'' # v \<Longrightarrow> x = u \<and> y = v"
  by (induction x arbitrary: u) (auto simp: Cons_eq_append_conv append_eq_Cons_conv)

lemma pairKey_inj:
  assumes "CHR ''|'' \<notin> set a" "CHR ''|'' \<notin> set b" "CHR ''|'' \<notin> set c" "CHR ''|'' \<notin> set d"
  shows "pairKey a b = pairKey c d \<longleftrightarrow> {a, b} = {c, d}"
proof
  assume "pairKey a b = pairKey c d"
  then show "{a, b} = {c, d}"
    using assms by (auto simp: pairKey_def split: if_splits dest!: bar_split [rotated -1])
next
  assume "{a, b} = {c, d}"
  then show "pairKey a b = pairKey c d"
    by (auto simp: pairKey_def doubleton_eq_iff)
qed

lemma buildLinks_exact:
  assumes "\<forall>a b. b |\<in>| claimsOf claims a \<longrightarrow> CHR ''|'' \<notin> set a \<and> CHR ''|'' \<notin> set b"
  shows "distinct (map ends (buildLinks self claims))"
    "ends ` set (buildLinks self claims) = {{a, b} |a b. b |\<in>| claimsOf claims a}"
    "l \<in> set (buildLinks self claims) \<Longrightarrow> l_B l |\<in>| claimsOf claims (l_A l) \<and> l_Kind l = linkKind self claims (l_A l) (l_B l)"
proof -
  obtain seen where f: "foldl (\<lambda>acc (from, to). linkStep self claims from acc to) ({}, []) (linkPairs claims) = (seen, buildLinks self claims)"
    by (metis buildLinks_pairs prod.collapse)
  let ?ls = "buildLinks self claims"
  note r = linkStep_run [OF f, unfolded set_linkPairs]
  show k: "l \<in> set ?ls \<Longrightarrow> l_B l |\<in>| claimsOf claims (l_A l) \<and> l_Kind l = linkKind self claims (l_A l) (l_B l)" for l
    using r by auto
  have inj: "pairKey (l_A l) (l_B l) = pairKey a b \<longleftrightarrow> ends l = {a, b}" if "l \<in> set ?ls" "b |\<in>| claimsOf claims a" for l a b
    unfolding ends_def using assms that(2) k [OF that(1)] by (intro pairKey_inj) auto
  have dm: "distinct (map (\<lambda>l. pairKey (l_A l) (l_B l)) ?ls)"
    using r by blast
  moreover have "inj_on ends (set ?ls)"
  proof (rule inj_onI)
    fix l m assume lm: "l \<in> set ?ls" "m \<in> set ?ls" "ends l = ends m"
    then have "pairKey (l_A l) (l_B l) = pairKey (l_A m) (l_B m)"
      using inj [OF lm(1), of "l_B m" "l_A m"] k [OF lm(2)] by (simp add: ends_def)
    then show "l = m"
      using dm lm(1,2) by (auto simp: distinct_map inj_on_def)
  qed
  ultimately show "distinct (map ends ?ls)"
    by (auto simp: distinct_map)
  show "ends ` set ?ls = {{a, b} |a b. b |\<in>| claimsOf claims a}"
  proof (intro equalityI subsetI)
    fix x assume "x \<in> {{a, b} |a b. b |\<in>| claimsOf claims a}"
    then obtain a b where ab: "x = {a, b}" "b |\<in>| claimsOf claims a" by blast
    then have "pairKey a b \<in> (\<lambda>l. pairKey (l_A l) (l_B l)) ` set ?ls"
      using r by auto
    then obtain l where "l \<in> set ?ls" "pairKey (l_A l) (l_B l) = pairKey a b" by auto
    then show "x \<in> ends ` set ?ls"
      using inj ab by auto
  qed (use k in \<open>auto simp: ends_def\<close>)
qed

section \<open>What the graph holds\<close>

text \<open>\<open>a\<close> says it is connected to \<open>b\<close>: the node itself of a peer, or a gossiped list of an entry.\<close>

definition claimed :: "topoInput \<Rightarrow> string \<Rightarrow> string \<Rightarrow> bool" where
  "claimed inp a b \<longleftrightarrow> a \<noteq> '''' \<and> b \<noteq> '''' \<and> a \<noteq> b \<and>
     (a = NormalizeAddr (ti_SelfAddr inp) \<and> b \<in> (\<lambda>p. NormalizeAddr (tp_Addr p)) ` set (ti_Peers inp)
      \<or> (\<exists>owner v. fmlookup (ti_Views inp) owner = Some v \<and> NormalizeAddr owner = a
           \<and> b \<in> NormalizeAddr ` set (pv_Peers v)))"

lemma claimsOf_claim: "b |\<in>| claimsOf (claim f t m) a \<longleftrightarrow> b |\<in>| claimsOf m a \<or> (f = a \<and> t = b \<and> a \<noteq> '''' \<and> b \<noteq> '''' \<and> a \<noteq> b)"
  by (auto simp: claim_def claimsOf_def)

lemma claimsOf_empty: "claimsOf fmempty a = {||}"
  by (simp add: claimsOf_def)

lemma claimsOf_fold:
  "b |\<in>| claimsOf (foldl (\<lambda>m x. claim (f x) (t x) m) m xs) a \<longleftrightarrow>
     b |\<in>| claimsOf m a \<or> (a \<noteq> '''' \<and> b \<noteq> '''' \<and> a \<noteq> b \<and> (\<exists>x \<in> set xs. f x = a \<and> t x = b))"
  by (induction xs arbitrary: m) (auto simp: claimsOf_claim)

lemma claimsOf_views:
  "b |\<in>| claimsOf (foldl (\<lambda>m (owner, v). foldl (\<lambda>m target. claim (NormalizeAddr owner) (NormalizeAddr target) m) m (pv_Peers v)) m vs) a \<longleftrightarrow>
     b |\<in>| claimsOf m a \<or> (a \<noteq> '''' \<and> b \<noteq> '''' \<and> a \<noteq> b \<and>
       (\<exists>(owner, v) \<in> set vs. NormalizeAddr owner = a \<and> b \<in> NormalizeAddr ` set (pv_Peers v)))"
proof (induction vs arbitrary: m)
  case (Cons e vs)
  obtain owner v where e: "e = (owner, v)" by force
  have "(\<exists>x \<in> set (pv_Peers v). NormalizeAddr owner = a \<and> NormalizeAddr x = b) \<longleftrightarrow>
      NormalizeAddr owner = a \<and> b \<in> NormalizeAddr ` set (pv_Peers v)"
    by auto
  moreover have "(\<exists>c \<in> insert (owner, v) (set vs). Q c) \<longleftrightarrow> Q (owner, v) \<or> (\<exists>c \<in> set vs. Q c)" for Q
    by simp
  ultimately show ?case
    by (simp only: e foldl_Cons case_prod_conv Cons.IH claimsOf_fold list.set) argo
qed simp

lemma fmlookup_directPeers: "fmdom' (directPeers ps) = (\<lambda>p. NormalizeAddr (tp_Addr p)) ` set ps"
proof -
  have "fmdom' (foldl (\<lambda>m p. fmupd (NormalizeAddr (tp_Addr p)) p m) m ps) = fmdom' m \<union> (\<lambda>p. NormalizeAddr (tp_Addr p)) ` set ps" for m
    by (induction ps arbitrary: m) auto
  then show ?thesis
    by (simp add: directPeers_def)
qed

lemma claimsOf_collect:
  "b |\<in>| claimsOf (collectClaims (NormalizeAddr (ti_SelfAddr inp)) (directPeers (ti_Peers inp)) (ti_Views inp)) a \<longleftrightarrow> claimed inp a b"
proof -
  have pairs: "(\<exists>(k, v) \<in> {(k, v). P k v}. Q k v) \<longleftrightarrow> (\<exists>k v. P k v \<and> Q k v)" for P Q :: "string \<Rightarrow> PeerView \<Rightarrow> bool"
    by auto
  have one: "(\<exists>x \<in> X. s = a \<and> x = b) \<longleftrightarrow> a = s \<and> b \<in> X" for X and s :: string
    by blast
  show ?thesis
    unfolding collectClaims_def claimsOf_views claimsOf_fold claimed_def set_fmentries set_fmkeys fmlookup_directPeers
      claimsOf_empty pairs one by (simp only: fempty_iff) argo
qed

lemma set_graphAddrs:
  "fset (graphAddrs self direct claims) = insert self (fmdom' direct) \<union> {a. \<exists>s. fmlookup claims a = Some s}
     \<union> {b. \<exists>a. b |\<in>| claimsOf claims a}"
proof -
  have f: "fset (foldl (\<lambda>s (from, targets). finsert from s |\<union>| targets) s es) = fset s \<union> fst ` set es \<union> (\<Union>(a, t) \<in> set es. fset t)"
    for s and es :: "(string \<times> string fset) list"
    by (induction es arbitrary: s) auto
  show ?thesis
    unfolding graphAddrs_def f by (auto simp: set_fmentries claimsOf_def fmdom'_alt_def image_iff split: option.splits)
qed

lemma claims_key: "fmlookup (collectClaims self direct vs) a = Some s \<Longrightarrow> \<exists>b. b |\<in>| s"
proof -
  let ?ok = "\<lambda>m :: claimMap. \<forall>a s. fmlookup m a = Some s \<longrightarrow> (\<exists>b. b |\<in>| s)"
  have c: "?ok (claim f t m)" if "?ok m" for f t m
  proof (cases "f = '''' \<or> t = '''' \<or> f = t")
    case True
    then show ?thesis
      using that by (simp only: claim_def if_True)
  next
    case False
    then show ?thesis
      using that by (simp only: claim_def if_False fmupd_lookup) (force split: if_splits)
  qed
  have 1: "?ok (foldl (\<lambda>m x. claim (f x) (t x) m) m xs)" if "?ok m" for f t m and xs :: "string list"
    using that
  proof (induction xs arbitrary: m)
    case (Cons x xs)
    show ?case
      using Cons.IH [OF c [OF Cons.prems, of "f x" "t x"]] by simp
  qed simp
  have "?ok (foldl (\<lambda>m (owner, v). foldl (\<lambda>m target. claim (NormalizeAddr owner) (NormalizeAddr target) m) m (pv_Peers v)) m es)"
    if "?ok m" for m and es :: "(string \<times> PeerView) list"
    using that
  proof (induction es arbitrary: m)
    case (Cons e es)
    show ?case
      using Cons.IH [OF 1 [OF Cons.prems, of "\<lambda>_. NormalizeAddr (fst e)" NormalizeAddr "pv_Peers (snd e)"]]
      by (simp add: case_prod_beta)
  qed simp
  from this [OF 1, of fmempty "\<lambda>_. self" "\<lambda>x. x" "fmkeys direct" "fmentries vs"]
  show "fmlookup (collectClaims self direct vs) a = Some s \<Longrightarrow> \<exists>b. b |\<in>| s"
    by (simp add: collectClaims_def)
qed

lemma tn_Addr_topoNodeOf [simp]: "tn_Addr (topoNodeOf inp self direct views links a) = a"
  by (simp add: topoNodeOf_def Let_def)

lemma degreeOf_length: "degreeOf links a = length (filter (\<lambda>l. l_A l = a) links) + length (filter (\<lambda>l. l_B l = a) links)"
proof -
  have "foldl (\<lambda>d l. d + (if l_A l = a then 1 else 0) + (if l_B l = a then 1 else 0)) d links
      = d + length (filter (\<lambda>l. l_A l = a) links) + length (filter (\<lambda>l. l_B l = a) links)" for d
    by (induction links arbitrary: d) auto
  then show ?thesis
    by (simp add: degreeOf_def)
qed

lemma Build_addrs:
  "tn_Addr ` set (g_Nodes (Build clock inp)) =
     insert (NormalizeAddr (ti_SelfAddr inp)) ((\<lambda>p. NormalizeAddr (tp_Addr p)) ` set (ti_Peers inp)
       \<union> {a. \<exists>b. claimed inp a b \<or> claimed inp b a})"
proof -
  let ?c = "collectClaims (NormalizeAddr (ti_SelfAddr inp)) (directPeers (ti_Peers inp)) (ti_Views inp)"
  have "{a. \<exists>s. fmlookup ?c a = Some s} = {a. \<exists>b. b |\<in>| claimsOf ?c a}"
    using claims_key by (auto simp: claimsOf_def split: option.splits)
  moreover have "tn_Addr ` set (g_Nodes (Build clock inp)) =
      fset (graphAddrs (NormalizeAddr (ti_SelfAddr inp)) (directPeers (ti_Peers inp)) ?c)"
    by (simp add: Build_def Let_def image_image)
  ultimately show ?thesis
    unfolding set_graphAddrs fmlookup_directPeers claimsOf_collect by blast
qed

lemma Build_links: "g_Links (Build clock inp) = buildLinks (NormalizeAddr (ti_SelfAddr inp))
    (collectClaims (NormalizeAddr (ti_SelfAddr inp)) (directPeers (ti_Peers inp)) (ti_Views inp))"
  by (simp add: Build_def Let_def)

lemma Build_nodes_sorted:
  "distinct (map tn_Addr (g_Nodes (Build clock inp)))"
  "sorted (map (\<lambda>n. (roleOrder (tn_Role n), tn_Addr n)) (g_Nodes (Build clock inp)))"
proof -
  have "mset (map tn_Addr (g_Nodes (Build clock inp))) = mset (sorted_list_of_fset (graphAddrs (NormalizeAddr (ti_SelfAddr inp))
      (directPeers (ti_Peers inp)) (collectClaims (NormalizeAddr (ti_SelfAddr inp)) (directPeers (ti_Peers inp)) (ti_Views inp))))"
    by (simp add: Build_def Let_def image_mset.compositionality comp_def)
  then show "distinct (map tn_Addr (g_Nodes (Build clock inp)))"
    using mset_eq_imp_distinct_iff by (fastforce simp: sorted_list_of_fset.rep_eq)
qed (simp add: Build_def Let_def)

lemma Build_node:
  assumes "n \<in> set (g_Nodes (Build clock inp))"
  shows "tn_Degree n = degreeOf (g_Links (Build clock inp)) (tn_Addr n)"
    "tn_Role n = (if tn_Addr n = NormalizeAddr (ti_SelfAddr inp) then RoleSelf
       else if tn_Addr n \<in> (\<lambda>p. NormalizeAddr (tp_Addr p)) ` set (ti_Peers inp) then RoleDirect else RoleIndirect)"
proof -
  have "fmlookup (directPeers ps) a = None \<longleftrightarrow> a \<notin> (\<lambda>p. NormalizeAddr (tp_Addr p)) ` set ps" for ps a
    using fmlookup_directPeers [of ps] by (metis fmdom'_notD fmdom'_notI)
  then show "tn_Degree n = degreeOf (g_Links (Build clock inp)) (tn_Addr n)"
    "tn_Role n = (if tn_Addr n = NormalizeAddr (ti_SelfAddr inp) then RoleSelf
       else if tn_Addr n \<in> (\<lambda>p. NormalizeAddr (tp_Addr p)) ` set (ti_Peers inp) then RoleDirect else RoleIndirect)"
    using assms by (auto simp: Build_def Let_def topoNodeOf_def)
qed

text \<open>The display order, by who a node is: this node, a peer, or somebody only heard of.\<close>

lemma Build_display_order:
  "sorted (map (\<lambda>n. (if tn_Addr n = NormalizeAddr (ti_SelfAddr inp) then 0 :: nat
       else if tn_Addr n \<in> (\<lambda>p. NormalizeAddr (tp_Addr p)) ` set (ti_Peers inp) then 1 else 2, tn_Addr n)) (g_Nodes (Build clock inp)))"
proof -
  have "roleOrder (tn_Role n) = (if tn_Addr n = NormalizeAddr (ti_SelfAddr inp) then 0
      else if tn_Addr n \<in> (\<lambda>p. NormalizeAddr (tp_Addr p)) ` set (ti_Peers inp) then 1 else 2)"
    if "n \<in> set (g_Nodes (Build clock inp))" for n
    unfolding Build_node(2) [OF that] by simp
  then have "map (\<lambda>n. (if tn_Addr n = NormalizeAddr (ti_SelfAddr inp) then 0 :: nat
       else if tn_Addr n \<in> (\<lambda>p. NormalizeAddr (tp_Addr p)) ` set (ti_Peers inp) then 1 else 2, tn_Addr n)) (g_Nodes (Build clock inp)) =
     map (\<lambda>n. (roleOrder (tn_Role n), tn_Addr n)) (g_Nodes (Build clock inp))"
    by (intro map_cong refl) (simp del: image_iff)
  then show ?thesis
    using Build_nodes_sorted(2) by metis
qed

lemma linkKind_claimed:
  "linkKind (NormalizeAddr (ti_SelfAddr inp)) (collectClaims (NormalizeAddr (ti_SelfAddr inp)) (directPeers (ti_Peers inp)) (ti_Views inp)) a b =
     (if NormalizeAddr (ti_SelfAddr inp) \<in> {a, b} then LinkDirect else if claimed inp b a then LinkMutual else LinkObserved)"
  by (simp add: linkKind_def claimsOf_collect)

lemma degree_ends:
  assumes "\<forall>l \<in> set links. l_A l \<noteq> l_B l"
  shows "degreeOf links a = length (filter (\<lambda>l. a \<in> ends l) links)"
proof -
  have "length (filter (\<lambda>l. l_A l = a) links) + length (filter (\<lambda>l. l_B l = a) links) = length (filter (\<lambda>l. a \<in> ends l) links)"
    using assms by (induction links) (auto simp: ends_def)
  then show ?thesis
    by (simp add: degreeOf_length)
qed

text \<open>
  C39.  The graph is exactly what was claimed.  Provided no claimed address contains a vertical bar: there is one link for
  each pair of addresses of which one claims the other and no other link; a link that touches this node is direct, any other is mutual
  when both ends claim it and observed when one does; the nodes are this node, its peers and every address
  in a claim, each once, in the role of this node, a peer or one only heard of; this node comes first, then the peers,
  then the rest, by address; every node's degree is the number of its links.
\<close>

theorem build_graph_exact:
  assumes "\<forall>a b. claimed inp a b \<longrightarrow> CHR ''|'' \<notin> set (a @ b)"
  shows "let self = NormalizeAddr (ti_SelfAddr inp); g = Build clock inp in
    distinct (map ends (g_Links g)) \<and> ends ` set (g_Links g) = {{a, b} |a b. claimed inp a b}
    \<and> (\<forall>l \<in> set (g_Links g). claimed inp (l_A l) (l_B l) \<and>
         l_Kind l = (if self \<in> ends l then LinkDirect else if claimed inp (l_B l) (l_A l) then LinkMutual else LinkObserved))
    \<and> distinct (map tn_Addr (g_Nodes g))
    \<and> tn_Addr ` set (g_Nodes g) = insert self ((\<lambda>p. NormalizeAddr (tp_Addr p)) ` set (ti_Peers inp)
         \<union> {a. \<exists>b. claimed inp a b \<or> claimed inp b a})
    \<and> sorted (map (\<lambda>n. (if tn_Addr n = self then 0 :: nat
         else if tn_Addr n \<in> (\<lambda>p. NormalizeAddr (tp_Addr p)) ` set (ti_Peers inp) then 1 else 2, tn_Addr n)) (g_Nodes g))
    \<and> (\<forall>n \<in> set (g_Nodes g). tn_Role n = (if tn_Addr n = self then RoleSelf
         else if tn_Addr n \<in> (\<lambda>p. NormalizeAddr (tp_Addr p)) ` set (ti_Peers inp) then RoleDirect else RoleIndirect))
    \<and> (\<forall>n \<in> set (g_Nodes g). tn_Degree n = length (filter (\<lambda>l. tn_Addr n \<in> ends l) (g_Links g)))"
proof -
  define self where "self = NormalizeAddr (ti_SelfAddr inp)"
  define g where "g = Build clock inp"
  let ?c = "collectClaims self (directPeers (ti_Peers inp)) (ti_Views inp)"
  have cl: "b |\<in>| claimsOf ?c a \<longleftrightarrow> claimed inp a b" for a b
    unfolding self_def by (rule claimsOf_collect)
  have nb: "\<forall>a b. b |\<in>| claimsOf ?c a \<longrightarrow> CHR ''|'' \<notin> set a \<and> CHR ''|'' \<notin> set b"
    using assms by (simp add: cl)
  have gl: "g_Links g = buildLinks self ?c"
    unfolding g_def self_def by (rule Build_links)
  note bl = buildLinks_exact [OF nb, where self = self, unfolded cl, folded gl]
  have l: "claimed inp (l_A l) (l_B l)"
      "l_Kind l = (if self \<in> ends l then LinkDirect else if claimed inp (l_B l) (l_A l) then LinkMutual else LinkObserved)"
    if "l \<in> set (g_Links g)" for l
    using bl(3) [OF that] linkKind_claimed [of inp "l_A l" "l_B l"] by (simp_all add: self_def ends_def)
  have "l_A l \<noteq> l_B l" if "l \<in> set (g_Links g)" for l
    using l(1) [OF that] by (simp add: claimed_def)
  then have "\<forall>n \<in> set (g_Nodes g). tn_Degree n = length (filter (\<lambda>l. tn_Addr n \<in> ends l) (g_Links g))"
    using Build_node(1) degree_ends unfolding g_def by simp
  then show ?thesis
    using bl(1,2) l Build_nodes_sorted(1) Build_addrs Build_display_order Build_node(2)
    unfolding g_def self_def Let_def by (simp del: image_iff)
qed

definition demo_topo :: topoInput where
  "demo_topo = \<lparr>ti_SelfAddr = ''a:1'', ti_SelfNick = '''', ti_Peers = [\<lparr>tp_Addr = ''b:1'', tp_Nick = '''', tp_LastSeen = None\<rparr>],
     ti_Views = fmap_of_list [(''b:1'', \<lparr>pv_Peers = [''c:1'', ''a:1''], pv_At = 0\<rparr>)], ti_Now = None\<rparr>"

lemma demo_normal: "NormalizeAddr ''a:1'' = ''a:1''" "NormalizeAddr ''b:1'' = ''b:1''" "NormalizeAddr ''c:1'' = ''c:1''"
  by (simp_all add: NormalizeAddr_def SplitHostPort_def afterLastColon_def JoinHostPort_def Let_def)

lemma demo_claimed: "claimed demo_topo a b \<longleftrightarrow>
    (a, b) \<in> {(''a:1'', ''b:1''), (''b:1'', ''a:1''), (''b:1'', ''c:1'')}"
  by (auto simp: claimed_def demo_topo_def demo_normal)

theorem build_graph_exact_witness:
  "ends ` set (g_Links (Build 0 demo_topo)) = {{''a:1'', ''b:1''}, {''b:1'', ''c:1''}}"
proof -
  have "\<forall>a b. claimed demo_topo a b \<longrightarrow> CHR ''|'' \<notin> set (a @ b)"
    by (auto simp: demo_claimed)
  then have "ends ` set (g_Links (Build 0 demo_topo)) = {{a, b} |a b. claimed demo_topo a b}"
    using build_graph_exact [of demo_topo 0, unfolded Let_def, THEN conjunct2, THEN conjunct1] by argo
  then show ?thesis
    by (auto simp: demo_claimed insert_commute)
qed

text \<open>
  The key of a pair is the two addresses around a bar, so with bars in the addresses two different pairs can have
  one key, and then only one of them gets a link.  Gossiped addresses are not checked before they get here.
\<close>

lemma pair_key_collision:
  "pairKey ''a'' ''b|c'' = pairKey ''a|b'' ''c''"
  "l \<in> set (buildLinks self claims) \<Longrightarrow> ends l = {''a'', ''b|c''} \<Longrightarrow> m \<in> set (buildLinks self claims) \<Longrightarrow> ends m \<noteq> {''a|b'', ''c''}"
proof -
  show k: "pairKey ''a'' ''b|c'' = pairKey ''a|b'' ''c''"
    by code_simp
  assume lm: "l \<in> set (buildLinks self claims)" "ends l = {''a'', ''b|c''}" "m \<in> set (buildLinks self claims)"
  show "ends m \<noteq> {''a|b'', ''c''}"
  proof
    assume m: "ends m = {''a|b'', ''c''}"
    have "pairKey (l_A l) (l_B l) = pairKey ''a'' ''b|c''" "pairKey (l_A m) (l_B m) = pairKey ''a|b'' ''c''"
      using lm(2) m by (auto simp: ends_def pairKey_def doubleton_eq_iff)
    then have "l = m"
      using k lm buildLinks_keys_distinct [of self claims] by (auto simp: distinct_map inj_on_def)
    then show False
      using lm(2) m by (auto simp: doubleton_eq_iff)
  qed
qed

section \<open>Neighbours and shells\<close>

lemma set_Neighbours: "set (Neighbours g addr) = {b. \<exists>l \<in> set (g_Links g). ends l = {addr, b}}"
proof -
  have "fset (foldl (\<lambda>s l. if addr = l_A l then finsert (l_B l) s else if addr = l_B l then finsert (l_A l) s else s) s ls)
      = fset s \<union> {b. \<exists>l \<in> set ls. ends l = {addr, b}}" for s ls
    by (induction ls arbitrary: s) (auto simp: ends_def doubleton_eq_iff)
  then show ?thesis
    by (simp add: Neighbours_def)
qed

lemma chunk_flat: "concat (chunk xs) = xs" "\<forall>c \<in> set (chunk xs). c \<noteq> [] \<and> length c \<le> shellCapacity"
  by (induction xs rule: chunk.induct) (subst chunk.simps; auto simp: shellCapacity_def)+

text \<open>Peers and nodes only heard of never share a shell, and no shell holds more than its capacity.\<close>

lemma shells_by_role:
  assumes "shell \<in> set (shells g)" "a \<in> set shell" "b \<in> set shell"
  shows "length shell \<le> shellCapacity \<and> (\<exists>role \<in> {RoleDirect, RoleIndirect}. a \<in> set (byRole g role) \<and> b \<in> set (byRole g role))"
proof -
  have "set c \<subseteq> set xs \<and> length c \<le> shellCapacity" if "c \<in> set (chunk xs)" for c xs
    using that chunk_flat [of xs] by (metis UN_upper set_concat)
  then show ?thesis
    using assms unfolding shells_def by fastforce
qed

end
