(* ===== verification/Diagnostics.thy ===== *)
theory Diagnostics
  imports Topology
begin

text \<open>
  Health rules (\<open>pkg/discovery/diagnostics/diagnostics.go\<close>, \<open>pkg/discovery/node/diagnose.go\<close>): every rule as a function of a snapshot, in the order
  the code runs them, and the verdict.

  A finding is a constructor with the data its title and detail show; the wording is not modelled.  Durations and the two timing maxima are in
  nanoseconds; \<open>int(d.Seconds())\<close> of a duration is the whole seconds in it.  A rule that indexes out of range panics: \<open>Checks\<close> is then \<open>None\<close>.
\<close>

section \<open>Data\<close>

datatype Severity = SeverityOK | SeverityInfo | SeverityWarn | SeverityError

definition SendErrorRecentWindow :: nanos where "SendErrorRecentWindow = 120 * second"

definition IDConflictFlips :: u64 where "IDConflictFlips = 3"

record SendError =
  se_Addr :: string
  se_Kind :: MessageKind
  se_At :: unix_time
  se_Oversize :: bool

record diagPeer =
  dp_Addr :: string
  dp_Nick :: string
  dp_LastSeen :: unix_time
  dp_PacketsIn :: u64
  dp_PacketsOut :: u64

datatype finding =
    LimitsDiffer "string \<times> StoreLimits"
  | StateUnsafe | StatePending | StateSaved
  | StateUnreadable persistError
  | AuthFailed u64
  | Impostor string
  | IDClaimed string string string u64
  | SkewDropped u64
  | Malformed u64
  | Refused u64 nat
  | ChatRefused u64 u64 u64
  | ChatLinesLost u64 string
  | ChatLinesLate u64
  | Replayed u64
  | SendFailing u64 "SendError option" bool
  | SendFailedBefore u64 SendError
  | StreamFailing u64
  | NoStreamListener string bool
  | LANEmpty | NoSeeds | NoPeersLearned "string list"
  | WrongAdvertise string string string
  | LoopbackAdvertised string
  | AdvertiseOverridden string string
  | StrangersSeen nat string
  | GoingStale nat string
  | NeverAnswered nat string
  | Partitioned "nat list"
  | OneSided nat
  | GossipPastEviction nanos nanos
  | GossipLate nanos nanos
  | TombstonesForever nat
  | TombstonesReclaimed nanos
  | NoPSK
  | Healthy nat nat

record Check =
  ck_Severity :: Severity
  ck_Finding :: finding

record diagSnapshot =
  ds_ReplicationWarnings :: "(string \<times> StoreLimits) list"
  ds_Persistence :: PersistenceHealth
  ds_Addr :: string
  ds_BindAddr :: string
  ds_AdvertiseAddr :: string
  ds_LocalIPv4 :: string
  ds_PSKSet :: bool
  ds_UptimeSec :: int
  ds_StreamListener :: bool
  ds_MDNS :: bool
  ds_AdvertiseMismatch :: string
  ds_LoadError :: "persistError option"
  ds_Seeds :: "string list"
  ds_Peers :: "diagPeer list"
  ds_ChatGaps :: "ChatGapStat list"
  ds_Strangers :: "Stranger list"
  ds_IDConflicts :: "IDConflict list"
  ds_Impostors :: "string list"
  ds_Metrics :: "counter \<Rightarrow> u64"
  ds_LastSendError :: "SendError option"
  ds_GossipLateMax :: nanos
  ds_GossipRoundMax :: nanos
  ds_Keys :: nat
  ds_Tombstones :: nat
  ds_Topology :: Graph
  ds_HeartbeatInterval :: nanos
  ds_EvictThreshold :: nanos
  ds_TombstoneTTL :: nanos

abbreviation (input) check :: "Severity \<Rightarrow> finding \<Rightarrow> Check" where
  "check s f \<equiv> \<lparr>ck_Severity = s, ck_Finding = f\<rparr>"

section \<open>Rules\<close>

definition shortID :: "string \<Rightarrow> string" where
  "shortID i = (if length i \<le> 8 then i else take 8 i)"

definition persistenceChecks :: "diagSnapshot \<Rightarrow> Check list" where
  "persistenceChecks d =
     (let p = ds_Persistence d in
      if \<not> ph_Enabled p then []
      else if ph_Error p \<noteq> [] then [check SeverityError StateUnsafe]
      else if ph_Pending p then [check SeverityInfo StatePending]
      else [check SeverityOK StateSaved])"

definition loadChecks :: "diagSnapshot \<Rightarrow> Check list" where
  "loadChecks d = (case ds_LoadError d of None \<Rightarrow> [] | Some e \<Rightarrow> [check SeverityError (StateUnreadable e)])"

definition countCheck :: "Severity \<Rightarrow> (u64 \<Rightarrow> finding) \<Rightarrow> u64 \<Rightarrow> Check list" where
  "countCheck s f n = (if n > 0 then [check s (f n)] else [])"

definition idConflictCheck :: "IDConflict \<Rightarrow> Check list option" where
  "idConflictCheck c =
     (if ic_Flips c < IDConflictFlips then Some []
      else case ic_Addrs c of
        a # b # _ \<Rightarrow> Some [check SeverityError (IDClaimed (shortID (ic_ID c)) a b (ic_Flips c))]
      | _ \<Rightarrow> None)"

fun idConflictChecks :: "IDConflict list \<Rightarrow> Check list option" where
  "idConflictChecks [] = Some []"
| "idConflictChecks (c # cs) = (case idConflictCheck c of
     None \<Rightarrow> None
   | Some x \<Rightarrow> (case idConflictChecks cs of None \<Rightarrow> None | Some y \<Rightarrow> Some (x @ y)))"

definition refusedChecks :: "diagSnapshot \<Rightarrow> Check list" where
  "refusedChecks d = countCheck SeverityError (\<lambda>n. Refused n (ds_Keys d)) (ds_Metrics d KVRefused)
     @ (if ds_Metrics d ChatUnsolicited > 0 \<or> ds_Metrics d ChatSelfAttributed > 0
        then [check SeverityWarn (ChatRefused (ds_Metrics d ChatUnsolicited + ds_Metrics d ChatSelfAttributed)
               (ds_Metrics d ChatUnsolicited) (ds_Metrics d ChatSelfAttributed))]
        else [])"

definition worstAuthor :: "ChatGapStat list \<Rightarrow> string" where
  "worstAuthor gs = foldl (\<lambda>w g. if gs_Lost g > 0 \<and> w = '''' then (if gs_Nick g = '''' then gs_Addr g else gs_Nick g) else w) '''' gs"

definition chatGapChecks :: "diagSnapshot \<Rightarrow> Check list" where
  "chatGapChecks d =
     (let lost = foldl (\<lambda>n g. n + gs_Lost g) 0 (ds_ChatGaps d);
          left = foldl (\<lambda>n g. n + word_of_nat (gs_Outstanding g)) 0 (ds_ChatGaps d)
      in if lost > 0 then [check SeverityWarn (ChatLinesLost lost (worstAuthor (ds_ChatGaps d)))]
         else if left > 0 then [check SeverityInfo (ChatLinesLate left)] else [])"

definition sendRecent :: "SendError option \<Rightarrow> nanos \<Rightarrow> bool" where
  "sendRecent e now \<longleftrightarrow> (case e of None \<Rightarrow> True | Some x \<Rightarrow> se_At x = 0 \<or> now - se_At x * second \<le> SendErrorRecentWindow)"

definition sendChecks :: "diagSnapshot \<Rightarrow> nanos \<Rightarrow> Check list" where
  "sendChecks d now =
     (if ds_Metrics d SendErrors > 0 then
        (if sendRecent (ds_LastSendError d) now
         then [check SeverityWarn (SendFailing (ds_Metrics d SendErrors) (ds_LastSendError d) (ds_StreamListener d))]
         else [check SeverityInfo (SendFailedBefore (ds_Metrics d SendErrors) (the (ds_LastSendError d)))])
      else [])"

definition streamChecks :: "diagSnapshot \<Rightarrow> Check list" where
  "streamChecks d = countCheck SeverityWarn StreamFailing (ds_Metrics d StreamErrors)
     @ (if ds_StreamListener d then []
        else [check SeverityWarn (NoStreamListener (ds_BindAddr d) (case ds_LastSendError d of None \<Rightarrow> False | Some e \<Rightarrow> se_Oversize e))])"

definition settled :: "diagSnapshot \<Rightarrow> bool" where
  "settled d \<longleftrightarrow> ds_UptimeSec d \<ge> max 6 (wholeSeconds (ds_HeartbeatInterval d) * 2)"

definition joinChecks :: "diagSnapshot \<Rightarrow> Check list" where
  "joinChecks d =
     (if settled d \<and> ds_Peers d = [] then
        (if ds_Seeds d = [] then (if ds_MDNS d then [check SeverityWarn LANEmpty] else [check SeverityWarn NoSeeds])
         else [check SeverityWarn (NoPeersLearned (ds_Seeds d))])
      else [])"

definition loopback :: "string \<Rightarrow> bool" where
  "loopback addr =
     (if CHR '':'' \<notin> set addr then False
      else let host = takeWhile (\<lambda>c. c \<noteq> CHR '':'') addr in
        host = '''' \<or> host = ''127.0.0.1'' \<or> host = ''localhost'' \<or> host = ''::1'' \<or> take 4 host = ''127.'')"

definition suggestedAddr :: "diagSnapshot \<Rightarrow> string" where
  "suggestedAddr d = (case SplitHostPort (ds_AdvertiseMismatch d) of
     None \<Rightarrow> ds_AdvertiseMismatch d
   | Some (host, _) \<Rightarrow> (case SplitHostPort (ds_BindAddr d) of
       None \<Rightarrow> ds_AdvertiseMismatch d
     | Some (_, port) \<Rightarrow> JoinHostPort host port))"

definition advertiseChecks :: "diagSnapshot \<Rightarrow> Check list" where
  "advertiseChecks d =
     (if ds_AdvertiseMismatch d \<noteq> '''' then [check SeverityError (WrongAdvertise (ds_Addr d) (ds_AdvertiseMismatch d) (suggestedAddr d))]
      else if loopback (ds_Addr d) then [check SeverityWarn (LoopbackAdvertised (ds_Addr d))]
      else if ds_AdvertiseAddr d \<noteq> '''' \<and> ds_LocalIPv4 d \<noteq> ''''
              \<and> take (length (ds_LocalIPv4 d)) (ds_AdvertiseAddr d) \<noteq> ds_LocalIPv4 d
        then [check SeverityInfo (AdvertiseOverridden (ds_AdvertiseAddr d) (ds_LocalIPv4 d))]
      else [])"

text \<open>\<open>join\<close>: at most \<open>n\<close> items; the rest are counted.\<close>

fun joinStrings :: "string list \<Rightarrow> string" where
  "joinStrings [] = ''''"
| "joinStrings [x] = x"
| "joinStrings (x # xs) = x @ '', '' @ joinStrings xs"

definition joinItems :: "string list \<Rightarrow> nat \<Rightarrow> string" where
  "joinItems items n =
     (if length items \<le> n then joinStrings items
      else joinStrings (take n items) @ '' and '' @ decimalNat (length items - n) @ '' more'')"

definition strangerAddrs :: "Stranger list \<Rightarrow> string list" where
  "strangerAddrs s = map st_Addr s"

definition peerLabel :: "diagPeer \<Rightarrow> string" where
  "peerLabel p = (if dp_Nick p \<noteq> '''' then dp_Nick p else dp_Addr p)"

definition stalePeers :: "diagSnapshot \<Rightarrow> nanos \<Rightarrow> string list" where
  "stalePeers d now =
     (if ds_EvictThreshold d \<le> 0 then []
      else sort (map peerLabel (filter (\<lambda>p. dp_LastSeen p > 0 \<and> unix now - dp_LastSeen p > ds_EvictThreshold d div (2 * second)) (ds_Peers d))))"

definition silentPeers :: "diagSnapshot \<Rightarrow> string list" where
  "silentPeers d = map dp_Addr (filter (\<lambda>p. dp_PacketsIn p = 0 \<and> dp_PacketsOut p > 0) (ds_Peers d))"

definition trafficChecks :: "diagSnapshot \<Rightarrow> nanos \<Rightarrow> Check list" where
  "trafficChecks d now =
     (if ds_Strangers d \<noteq> [] then [check SeverityInfo (StrangersSeen (length (ds_Strangers d)) (joinItems (strangerAddrs (ds_Strangers d)) 3))] else [])
     @ (let stale = stalePeers d now in
        if stale \<noteq> [] then [check SeverityWarn (GoingStale (length stale) (joinItems stale 3))] else [])
     @ (let silent = silentPeers d in
        if settled d \<and> silent \<noteq> [] then [check SeverityError (NeverAnswered (length silent) (joinItems silent 3))] else [])"

definition topologyChecks :: "diagSnapshot \<Rightarrow> Check list" where
  "topologyChecks d =
     (let groups = Components (ds_Topology d) in
      if length groups > 1 then [check SeverityError (Partitioned (map length groups))] else [])
     @ (let one = Unconfirmed (ds_Topology d) in
        if one \<noteq> [] then [check SeverityInfo (OneSided (length one))] else [])"

definition latenessChecks :: "diagSnapshot \<Rightarrow> Check list" where
  "latenessChecks d =
     (let late = ds_GossipLateMax d in
      if late > 0 \<and> ds_EvictThreshold d > 0 then
        (if late \<ge> ds_EvictThreshold d then [check SeverityError (GossipPastEviction late (ds_GossipRoundMax d))]
         else if late \<ge> ds_EvictThreshold d div 2 then [check SeverityWarn (GossipLate late (ds_GossipRoundMax d))]
         else [])
      else [])"

definition tombstoneChecks :: "diagSnapshot \<Rightarrow> Check list" where
  "tombstoneChecks d =
     (if ds_TombstoneTTL d = 0 \<and> ds_Tombstones d > 0 then [check SeverityInfo (TombstonesForever (ds_Tombstones d))] else [])
     @ (if ds_TombstoneTTL d > 0 then [check SeverityInfo (TombstonesReclaimed (ds_TombstoneTTL d))] else [])
     @ (if ds_PSKSet d then [] else [check SeverityInfo NoPSK])"

definition concerning :: "Check \<Rightarrow> bool" where
  "concerning c \<longleftrightarrow> ck_Severity c = SeverityWarn \<or> ck_Severity c = SeverityError"

definition withVerdict :: "diagSnapshot \<Rightarrow> Check list \<Rightarrow> Check list" where
  "withVerdict d out = (if list_ex concerning out then out else check SeverityOK (Healthy (length (ds_Peers d)) (ds_Keys d)) # out)"

definition Checks :: "diagSnapshot \<Rightarrow> nanos \<Rightarrow> Check list option" where
  "Checks d now = (case idConflictChecks (ds_IDConflicts d) of
     None \<Rightarrow> None
   | Some conflicts \<Rightarrow> Some (withVerdict d (
       map (\<lambda>w. check SeverityWarn (LimitsDiffer w)) (ds_ReplicationWarnings d)
       @ persistenceChecks d
       @ loadChecks d
       @ countCheck SeverityError AuthFailed (ds_Metrics d AuthFailures)
       @ map (\<lambda>a. check SeverityError (Impostor a)) (ds_Impostors d)
       @ conflicts
       @ countCheck SeverityError SkewDropped (ds_Metrics d SkewDrops)
       @ countCheck SeverityWarn Malformed (ds_Metrics d MalformedDrops)
       @ refusedChecks d
       @ chatGapChecks d
       @ countCheck SeverityInfo Replayed (ds_Metrics d ReplayDrops)
       @ sendChecks d now
       @ streamChecks d
       @ joinChecks d
       @ advertiseChecks d
       @ trafficChecks d now
       @ topologyChecks d
       @ latenessChecks d
       @ tombstoneChecks d)))"

fun rank :: "Severity \<Rightarrow> nat" where
  "rank SeverityOK = 0"
| "rank SeverityInfo = 1"
| "rank SeverityWarn = 2"
| "rank SeverityError = 3"

definition Worst :: "Check list \<Rightarrow> Severity" where
  "Worst checks = foldl (\<lambda>worst c. if rank (ck_Severity c) > rank worst then ck_Severity c else worst) SeverityOK checks"

section \<open>A node's own diagnosis\<close>

text \<open>What the snapshot takes from outside the node's record: the configuration the engine does not read, the transport, the clock since start, the timings and the
  traffic sent.\<close>

record diagEnv =
  de_LocalIPv4 :: string
  de_PSKSet :: bool
  de_UptimeSec :: int
  de_StreamListener :: bool
  de_MDNS :: bool
  de_AdvertiseMismatch :: string
  de_packetsOut :: "string \<Rightarrow> u64"
  de_LastSendError :: "SendError option"
  de_GossipLateMax :: nanos
  de_GossipRoundMax :: nanos
  de_HeartbeatInterval :: nanos

definition diagPeerOf :: "diagEnv \<Rightarrow> Node \<Rightarrow> PeerInfo \<Rightarrow> diagPeer" where
  "diagPeerOf env n p = \<lparr>dp_Addr = pi_Addr p, dp_Nick = pi_Nick p, dp_LastSeen = pi_LastSeen p,
     dp_PacketsIn = pc_packetsIn (counters (NormalizeAddr (pi_Addr p)) n), dp_PacketsOut = de_packetsOut env (NormalizeAddr (pi_Addr p))\<rparr>"

definition nodeDiagnostics :: "diagEnv \<Rightarrow> Node \<Rightarrow> diagSnapshot" where
  "nodeDiagnostics env n = \<lparr>
     ds_ReplicationWarnings = ReplicationWarnings n, ds_Persistence = ModelHealth (nd_Model n), ds_Addr = advertised n,
     ds_BindAddr = nc_NodeAddr (nd_cfg n), ds_AdvertiseAddr = (if advertised n \<noteq> nc_NodeAddr (nd_cfg n) then advertised n else ''''),
     ds_LocalIPv4 = de_LocalIPv4 env, ds_PSKSet = de_PSKSet env, ds_UptimeSec = de_UptimeSec env, ds_StreamListener = de_StreamListener env,
     ds_MDNS = de_MDNS env, ds_AdvertiseMismatch = de_AdvertiseMismatch env, ds_LoadError = md_LoadError (nd_Model n), ds_Seeds = nc_BootstrapAddrs (nd_cfg n),
     ds_Peers = map (diagPeerOf env n) (Peers n), ds_ChatGaps = ChatGaps n, ds_Strangers = snd (Strangers n), ds_IDConflicts = IDConflicts (nd_Model n),
     ds_Impostors = Impostors (nd_Model n), ds_Metrics = nd_Metrics n, ds_LastSendError = de_LastSendError env, ds_GossipLateMax = de_GossipLateMax env,
     ds_GossipRoundMax = de_GossipRoundMax env, ds_Keys = Len (nodeStore n), ds_Tombstones = Tombstones (nodeStore n), ds_Topology = NodeTopology n,
     ds_HeartbeatInterval = de_HeartbeatInterval env, ds_EvictThreshold = nc_EvictThreshold (nd_cfg n), ds_TombstoneTTL = nc_TombstoneTTL (nd_cfg n)\<rparr>"

definition HealthChecks :: "diagEnv \<Rightarrow> Node \<Rightarrow> Check list option" where
  "HealthChecks env n = Checks (nodeDiagnostics env n) (nodeNow n)"

section \<open>The verdict\<close>

lemma Worst_run:
  "rank w \<le> rank (foldl (\<lambda>worst c. if rank (ck_Severity c) > rank worst then ck_Severity c else worst) w cs)
   \<and> (\<forall>c \<in> set cs. rank (ck_Severity c) \<le> rank (foldl (\<lambda>worst c. if rank (ck_Severity c) > rank worst then ck_Severity c else worst) w cs))
   \<and> foldl (\<lambda>worst c. if rank (ck_Severity c) > rank worst then ck_Severity c else worst) w cs \<in> insert w (ck_Severity ` set cs)"
proof (induction cs arbitrary: w)
  case (Cons c cs)
  show ?case
    using Cons.IH [of w] Cons.IH [of "ck_Severity c"] by (auto split: if_splits)
qed simp

lemma Worst_max: "c \<in> set cs \<Longrightarrow> rank (ck_Severity c) \<le> rank (Worst cs)" "Worst cs \<in> insert SeverityOK (ck_Severity ` set cs)"
  using Worst_run [of SeverityOK cs] by (auto simp: Worst_def)

lemma rank_inj: "rank a = rank b \<longleftrightarrow> a = b"
  by (cases a; cases b) simp_all

lemma concerning_rank: "concerning c \<longleftrightarrow> 2 \<le> rank (ck_Severity c)"
  by (cases "ck_Severity c") (simp_all add: concerning_def)

lemma Worst_calm: "rank (Worst cs) < 2 \<longleftrightarrow> \<not> list_ex concerning cs"
proof
  assume "rank (Worst cs) < 2"
  then show "\<not> list_ex concerning cs"
    using Worst_max(1) [of _ cs] by (fastforce simp: list_ex_iff concerning_rank)
next
  assume n: "\<not> list_ex concerning cs"
  have "Worst cs = SeverityOK \<or> (\<exists>c \<in> set cs. Worst cs = ck_Severity c)"
    using Worst_max(2) [of cs] by auto
  then show "rank (Worst cs) < 2"
    using n by (auto simp: list_ex_iff concerning_rank not_le)
qed

lemma idConflictChecks_some: "list_all (\<lambda>c. 2 \<le> length (ic_Addrs c)) cs \<Longrightarrow> \<exists>x. idConflictChecks cs = Some x"
proof (induction cs)
  case (Cons c cs)
  then obtain x where "idConflictChecks cs = Some x" by auto
  moreover obtain a b as where "ic_Addrs c = a # b # as"
    using Cons.prems by (cases "ic_Addrs c"; cases "tl (ic_Addrs c)") auto
  ultimately show ?case by (simp add: idConflictCheck_def)
qed simp

lemma node_conflicts: "list_all (\<lambda>c. 2 \<le> length (ic_Addrs c)) (IDConflicts bn)"
  by (auto simp: IDConflicts_def list_all_iff)

text \<open>More than one component: two known nodes with no path of links between them.\<close>

lemma partitioned_iff:
  "1 < length (Components g) \<longleftrightarrow> (\<exists>a \<in> tn_Addr ` set (g_Nodes g). \<exists>b \<in> tn_Addr ` set (g_Nodes g). (a, b) \<notin> (linked g)\<^sup>*)"
proof
  have q: "set ` set (Components g) = (tn_Addr ` set (g_Nodes g)) // (linked g)\<^sup>*" and d: "distinct (concat (Components g))"
    using components_classes [of g] by auto
  {
    assume "1 < length (Components g)"
    then obtain A B gs where c: "Components g = A # B # gs"
      by (cases "Components g"; cases "tl (Components g)") auto
    have "set A \<in> set ` set (Components g)" "set B \<in> set ` set (Components g)"
      by (simp_all add: c)
    then obtain a b where "a \<in> tn_Addr ` set (g_Nodes g)" "set A = (linked g)\<^sup>* `` {a}" "b \<in> tn_Addr ` set (g_Nodes g)" "set B = (linked g)\<^sup>* `` {b}"
      unfolding q quotient_def by blast
    moreover from this have "b \<in> set B" by auto
    moreover have "set A \<inter> set B = {}"
      using d by (auto simp: c)
    ultimately show "\<exists>a \<in> tn_Addr ` set (g_Nodes g). \<exists>b \<in> tn_Addr ` set (g_Nodes g). (a, b) \<notin> (linked g)\<^sup>*" by blast
  }
  assume "\<exists>a \<in> tn_Addr ` set (g_Nodes g). \<exists>b \<in> tn_Addr ` set (g_Nodes g). (a, b) \<notin> (linked g)\<^sup>*"
  then obtain a b where ab: "a \<in> tn_Addr ` set (g_Nodes g)" "b \<in> tn_Addr ` set (g_Nodes g)" "(a, b) \<notin> (linked g)\<^sup>*" by blast
  then have "(linked g)\<^sup>* `` {a} \<in> set ` set (Components g)" "(linked g)\<^sup>* `` {b} \<in> set ` set (Components g)"
    unfolding q quotient_def by blast+
  moreover have "(linked g)\<^sup>* `` {a} \<noteq> (linked g)\<^sup>* `` {b}"
    using ab(3) by auto
  ultimately obtain A B where "A \<in> set (Components g)" "B \<in> set (Components g)" "A \<noteq> B" by force
  then show "1 < length (Components g)"
    by (cases "Components g"; cases "tl (Components g)") auto
qed

definition saysHealthy :: "Check \<Rightarrow> bool" where
  "saysHealthy c \<longleftrightarrow> (case ck_Finding c of Healthy _ _ \<Rightarrow> True | _ \<Rightarrow> False)"

definition saysPartitioned :: "Check \<Rightarrow> bool" where
  "saysPartitioned c \<longleftrightarrow> (case ck_Finding c of Partitioned _ \<Rightarrow> True | _ \<Rightarrow> False)"

lemmas rule_defs = persistenceChecks_def loadChecks_def countCheck_def refusedChecks_def chatGapChecks_def sendChecks_def streamChecks_def joinChecks_def
  advertiseChecks_def trafficChecks_def latenessChecks_def tombstoneChecks_def

lemma conflict_kinds: "idConflictChecks cs = Some x \<Longrightarrow> c \<in> set x \<Longrightarrow> \<not> saysHealthy c \<and> \<not> saysPartitioned c"
proof (induction cs arbitrary: x)
  case (Cons a cs)
  then show ?case
    by (auto simp: idConflictCheck_def saysHealthy_def saysPartitioned_def split: if_splits list.splits option.splits)
qed simp

lemma rule_kinds:
  "\<not> list_ex saysHealthy (persistenceChecks d) \<and> \<not> list_ex saysPartitioned (persistenceChecks d)"
  "\<not> list_ex saysHealthy (refusedChecks d) \<and> \<not> list_ex saysPartitioned (refusedChecks d)"
  "\<not> list_ex saysHealthy (chatGapChecks d) \<and> \<not> list_ex saysPartitioned (chatGapChecks d)"
  "\<not> list_ex saysHealthy (sendChecks d now) \<and> \<not> list_ex saysPartitioned (sendChecks d now)"
  "\<not> list_ex saysHealthy (streamChecks d) \<and> \<not> list_ex saysPartitioned (streamChecks d)"
  "\<not> list_ex saysHealthy (joinChecks d) \<and> \<not> list_ex saysPartitioned (joinChecks d)"
  "\<not> list_ex saysHealthy (advertiseChecks d) \<and> \<not> list_ex saysPartitioned (advertiseChecks d)"
  "\<not> list_ex saysHealthy (trafficChecks d now) \<and> \<not> list_ex saysPartitioned (trafficChecks d now)"
  "\<not> list_ex saysHealthy (latenessChecks d) \<and> \<not> list_ex saysPartitioned (latenessChecks d)"
  "\<not> list_ex saysHealthy (tombstoneChecks d) \<and> \<not> list_ex saysPartitioned (tombstoneChecks d)"
  "\<not> list_ex saysHealthy (topologyChecks d) \<and> (list_ex saysPartitioned (topologyChecks d) \<longleftrightarrow> 1 < length (Components (ds_Topology d)))"
  "\<not> list_ex saysHealthy (loadChecks d) \<and> \<not> list_ex saysPartitioned (loadChecks d)"
  by (simp_all add: rule_defs topologyChecks_def saysHealthy_def saysPartitioned_def Let_def split: option.split)

lemma verdict:
  assumes "\<not> list_ex saysHealthy out"
  shows "length (filter saysHealthy (withVerdict d out)) = (if Worst (withVerdict d out) \<in> {SeverityOK, SeverityInfo} then 1 else 0)"
    "saysHealthy (hd (withVerdict d out)) = (Worst (withVerdict d out) \<in> {SeverityOK, SeverityInfo})"
    "list_ex saysPartitioned (withVerdict d out) = list_ex saysPartitioned out"
proof -
  let ?cs = "withVerdict d out"
  have "\<not> concerning (check SeverityOK f)" for f by (simp add: concerning_def)
  then have calm: "Worst ?cs \<in> {SeverityOK, SeverityInfo} \<longleftrightarrow> \<not> list_ex concerning out"
    using Worst_calm [of ?cs] by (cases "Worst ?cs") (auto simp: withVerdict_def split: if_splits)
  have nf: "filter saysHealthy out = []"
    using assms by (simp add: list_ex_iff filter_empty_conv)
  have hd: "saysHealthy (hd out) = False" if "list_ex concerning out"
    using that assms by (cases out) auto
  have v: "saysHealthy (check SeverityOK (Healthy i j))" "\<not> saysPartitioned (check SeverityOK (Healthy i j))" for i j
    by (simp_all add: saysHealthy_def saysPartitioned_def)
  show "length (filter saysHealthy ?cs) = (if Worst ?cs \<in> {SeverityOK, SeverityInfo} then 1 else 0)"
    unfolding calm using nf v by (simp add: withVerdict_def)
  show "saysHealthy (hd ?cs) = (Worst ?cs \<in> {SeverityOK, SeverityInfo})"
    unfolding calm using hd v by (simp add: withVerdict_def)
  show "list_ex saysPartitioned ?cs = list_ex saysPartitioned out"
    using v by (simp add: withVerdict_def)
qed

lemma checks_run:
  obtains out where "HealthChecks env n = Some (withVerdict (nodeDiagnostics env n) out)" "\<not> list_ex saysHealthy out"
    "list_ex saysPartitioned out \<longleftrightarrow> 1 < length (Components (NodeTopology n))"
proof -
  let ?d = "nodeDiagnostics env n"
  obtain x where x: "idConflictChecks (ds_IDConflicts ?d) = Some x"
    using idConflictChecks_some [OF node_conflicts] by (auto simp: nodeDiagnostics_def)
  define out where "out = map (\<lambda>w. check SeverityWarn (LimitsDiffer w)) (ds_ReplicationWarnings ?d)
       @ persistenceChecks ?d
       @ loadChecks ?d
       @ countCheck SeverityError AuthFailed (ds_Metrics ?d AuthFailures)
       @ map (\<lambda>a. check SeverityError (Impostor a)) (ds_Impostors ?d)
       @ x
       @ countCheck SeverityError SkewDropped (ds_Metrics ?d SkewDrops)
       @ countCheck SeverityWarn Malformed (ds_Metrics ?d MalformedDrops)
       @ refusedChecks ?d
       @ chatGapChecks ?d
       @ countCheck SeverityInfo Replayed (ds_Metrics ?d ReplayDrops)
       @ sendChecks ?d (nodeNow n)
       @ streamChecks ?d
       @ joinChecks ?d
       @ advertiseChecks ?d
       @ trafficChecks ?d (nodeNow n)
       @ topologyChecks ?d
       @ latenessChecks ?d
       @ tombstoneChecks ?d"
  have cs: "HealthChecks env n = Some (withVerdict ?d out)"
    unfolding HealthChecks_def Checks_def x out_def by simp
  have top: "ds_Topology ?d = NodeTopology n"
    by (simp add: nodeDiagnostics_def)
  have nx: "\<not> list_ex saysHealthy x" "\<not> list_ex saysPartitioned x"
    using conflict_kinds [OF x] by (auto simp: list_ex_iff)
  have h: "\<not> list_ex saysHealthy out" and p: "list_ex saysPartitioned out \<longleftrightarrow> 1 < length (Components (NodeTopology n))"
    unfolding out_def list_ex_append using nx rule_kinds [of ?d] rule_kinds(4,8) [of ?d "nodeNow n"] top
    by (simp_all add: list_ex_iff countCheck_def saysHealthy_def saysPartitioned_def)
  show ?thesis
    by (rule that [OF cs h p])
qed

text \<open>
  C38.  A node's diagnosis.  It never panics; its severity is the highest of any finding; it says the node is healthy, first and once, exactly when nothing it found is a
  warning or an error; and it reports a partition exactly when two of the nodes known have no path of links between them.
\<close>

theorem diagnosis_verdict:
  "\<exists>cs. HealthChecks env n = Some cs
     \<and> list_all (\<lambda>c. rank (ck_Severity c) \<le> rank (Worst cs)) cs \<and> Worst cs \<in> insert SeverityOK (ck_Severity ` set cs)
     \<and> length (filter saysHealthy cs) = (if Worst cs \<in> {SeverityOK, SeverityInfo} then 1 else 0)
     \<and> saysHealthy (hd cs) = (Worst cs \<in> {SeverityOK, SeverityInfo})
     \<and> (list_ex saysPartitioned cs \<longleftrightarrow> 
          (\<exists>a \<in> tn_Addr ` set (g_Nodes (NodeTopology n)). \<exists>b \<in> tn_Addr ` set (g_Nodes (NodeTopology n)). (a, b) \<notin> (linked (NodeTopology n))\<^sup>*))"
proof -
  obtain out where out: "HealthChecks env n = Some (withVerdict (nodeDiagnostics env n) out)" "\<not> list_ex saysHealthy out"
      "list_ex saysPartitioned out \<longleftrightarrow> 1 < length (Components (NodeTopology n))"
    by (rule checks_run)
  let ?cs = "withVerdict (nodeDiagnostics env n) out"
  have "list_all (\<lambda>c. rank (ck_Severity c) \<le> rank (Worst ?cs)) ?cs"
    using Worst_max(1) [of _ ?cs] by (simp add: list_all_iff)
  then show ?thesis
    unfolding partitioned_iff [symmetric] using out(1,3) verdict [OF out(2)] Worst_max(2) [of ?cs] by (intro exI [of _ ?cs]) simp
qed

section \<open>Behaviours worth knowing\<close>

text \<open>The comment on \<open>Checks\<close> says the findings come worst first; they come in the order of the rules: an error after a warning.\<close>

definition demo_health :: diagSnapshot where
  "demo_health = \<lparr>ds_ReplicationWarnings = [], ds_Persistence = \<lparr>ph_Mode = '''', ph_Durable = False, ph_LastDurable = 0, ph_Enabled = False,
       ph_Pending = False, ph_LastSuccess = 0, ph_Error = [], ph_RecoveryFile = ''''\<rparr>,
     ds_Addr = ''10.0.0.12:3137'', ds_BindAddr = '':3137'', ds_AdvertiseAddr = '''', ds_LocalIPv4 = ''10.0.0.1'', ds_PSKSet = True, ds_UptimeSec = 0,
     ds_StreamListener = True, ds_MDNS = False, ds_AdvertiseMismatch = '''', ds_LoadError = None, ds_Seeds = [], ds_Peers = [], ds_ChatGaps = [],
     ds_Strangers = [], ds_IDConflicts = [], ds_Impostors = [], ds_Metrics = (\<lambda>_. 0), ds_LastSendError = None, ds_GossipLateMax = 0,
     ds_GossipRoundMax = 0, ds_Keys = 0, ds_Tombstones = 0, ds_Topology = \<lparr>g_Nodes = [], g_Links = [], g_GeneratedAt = 0\<rparr>, ds_HeartbeatInterval = 0,
     ds_EvictThreshold = 0, ds_TombstoneTTL = 0\<rparr>"

lemma demo_topology: "topologyChecks (d\<lparr>ds_Topology := \<lparr>g_Nodes = [], g_Links = [], g_GeneratedAt = 0\<rparr>\<rparr>) = []"
  by (simp add: topologyChecks_def Components_def Unconfirmed_def Let_def)

lemma checks_not_worst_first:
  "map ck_Severity (the (Checks (demo_health\<lparr>ds_Metrics := (\<lambda>c. if c = MalformedDrops \<or> c = KVRefused then 1 else 0)\<rparr>) 0)) = [SeverityWarn, SeverityError]"
  using demo_topology [of "demo_health\<lparr>ds_Metrics := (\<lambda>c. if c = MalformedDrops \<or> c = KVRefused then 1 else 0)\<rparr>"]
  by (simp add: Checks_def rule_defs withVerdict_def concerning_def loopback_def stalePeers_def silentPeers_def settled_def wholeSeconds_def Let_def demo_health_def)

text \<open>
  The loopback rule cuts the address at its first colon, so the host it compares with \<open>::1\<close> never contains a colon: an IPv6 loopback address is not recognised.
  The override rule compares prefixes, so an advertised address that starts with the digits of the local one passes for it.
  A node that ignored replayed packets is reported healthy, with the words that it dropped no packets.
\<close>

lemma ipv6_loopback_missed: "\<not> loopback ''[::1]:3137''" "takeWhile (\<lambda>c. c \<noteq> CHR '':'') addr \<noteq> ''::1''"
proof -
  show "\<not> loopback ''[::1]:3137''" by (simp add: loopback_def)
  show "takeWhile (\<lambda>c. c \<noteq> CHR '':'') addr \<noteq> ''::1''"
    by (cases addr) auto
qed

lemma override_by_prefix_missed: "advertiseChecks (demo_health\<lparr>ds_AdvertiseAddr := ''10.0.0.12:3137''\<rparr>) = []"
  by (simp add: advertiseChecks_def demo_health_def loopback_def Let_def)

lemma healthy_with_drops:
  "the (Checks (demo_health\<lparr>ds_Metrics := (\<lambda>c. if c = ReplayDrops then 5 else 0)\<rparr>) 0) = [check SeverityOK (Healthy 0 0), check SeverityInfo (Replayed 5)]"
  using demo_topology [of "demo_health\<lparr>ds_Metrics := (\<lambda>c. if c = ReplayDrops then 5 else 0)\<rparr>"]
  by (simp add: Checks_def rule_defs withVerdict_def concerning_def loopback_def stalePeers_def silentPeers_def settled_def wholeSeconds_def Let_def demo_health_def)

end
