(* ===== verification/Commands.thy ===== *)
theory Commands
  imports EngineInvariants
begin

text \<open>
  The chat input of a node (\<open>Submit\<close> and \<open>split2\<close> of \<open>pkg/discovery/node/chat.go\<close>): plain lines and slash commands.

  \<open>strings.TrimSpace\<close>, \<open>strings.ToLower\<close> and \<open>strings.EqualFold\<close> follow the Unicode tables and are the parameters of \<open>textFns\<close>.
  A duration is a 64-bit integer of nanoseconds, so the product \<open>time.Duration(ttl) * time.Second\<close> wraps.
\<close>

record textFns =
  tf_trim :: "string \<Rightarrow> string"
  tf_lower :: "string \<Rightarrow> string"
  tf_fold :: "string \<Rightarrow> string \<Rightarrow> bool"

definition wordEnd :: "char \<Rightarrow> bool" where
  "wordEnd c \<longleftrightarrow> c = CHR '' '' \<or> c = CHR 0x09"

definition split2 :: "textFns \<Rightarrow> string \<Rightarrow> string \<times> string" where
  "split2 tf s0 =
     (let s = tf_trim tf s0; i = length (takeWhile (\<lambda>c. \<not> wordEnd c) s) in
      if i = length s then (s, '''') else (take i s, tf_trim tf (drop (i + 1) s)))"

definition durationSeconds :: "int \<Rightarrow> nanos" where
  "durationSeconds secs = sint (word_of_int (secs * second) :: 64 word)"

fun joinComma :: "string list \<Rightarrow> string" where
  "joinComma [] = ''''"
| "joinComma [x] = x"
| "joinComma (x # xs) = x @ '', '' @ joinComma xs"

definition peerText :: "Node \<Rightarrow> string \<Rightarrow> string" where
  "peerText n p = peerName n p @ (if NickOf (nd_Model n) p \<noteq> '''' then '' ('' @ p @ '')'' else '''')"

definition helpText :: string where
  "helpText = ''commands: /nick <name>  /me <text>  /msg <peer> <text>  /peers  '' @
     ''/keys  /get <key>  /set <key> <value>  /setttl <key> <seconds> <value>  /del <key>''"

definition cmdMsg :: "textFns \<Rightarrow> string \<Rightarrow> Node \<Rightarrow> Node" where
  "cmdMsg tf rest n =
     (let (target, body) = split2 tf rest in
      if target = '''' \<or> body = '''' then systemLine ''usage: /msg <peer> <text>'' n
      else case SendDM (tf_fold tf) target body n of
        (n1, True) \<Rightarrow> n1
      | (n1, False) \<Rightarrow> systemLine (''no such peer: '' @ target) n1)"

definition cmdPeers :: "Node \<Rightarrow> Node" where
  "cmdPeers n =
     (let peers = sort (GetNodes (nd_Model n)) in
      if peers = [] then systemLine ''no peers known'' n
      else systemLine (''peers: '' @ joinComma (map (peerText n) peers)) n)"

definition cmdKeys :: "Node \<Rightarrow> Node" where
  "cmdKeys n =
     (let entries = Entries (nodeStore n) in
      if entries = [] then systemLine ''store is empty'' n
      else systemLine (''keys: '' @ joinComma (map en_Key entries)) n)"

definition cmdGet :: "string \<Rightarrow> Node \<Rightarrow> Node" where
  "cmdGet key n =
     (if key = '''' then systemLine ''usage: /get <key>'' n
      else case Get (nodeStore n) key of
        Some v \<Rightarrow> systemLine (key @ '' = '' @ v) n
      | None \<Rightarrow> systemLine (key @ '' is not set'') n)"

definition cmdSet :: "textFns \<Rightarrow> string \<Rightarrow> Node \<Rightarrow> Node" where
  "cmdSet tf rest n =
     (let (key, val) = split2 tf rest in
      if key = '''' then systemLine ''usage: /set <key> <value>'' n
      else systemLine (''set '' @ key) (fst (NodeSet key val 0 n)))"

definition cmdSetTTL :: "textFns \<Rightarrow> string \<Rightarrow> Node \<Rightarrow> Node" where
  "cmdSetTTL tf rest n =
     (let (key, remainder) = split2 tf rest; (secs, val) = split2 tf remainder in
      case Atoi secs of
        None \<Rightarrow> systemLine ''usage: /setttl <key> <seconds> <value>'' n
      | Some ttl \<Rightarrow>
          if key = '''' \<or> ttl \<le> 0 then systemLine ''usage: /setttl <key> <seconds> <value>'' n
          else systemLine (''set '' @ key @ '' (expires in '' @ decimalInt ttl @ ''s)'') (fst (NodeSet key val (durationSeconds ttl) n)))"

definition cmdDel :: "string \<Rightarrow> Node \<Rightarrow> Node" where
  "cmdDel key n =
     (if key = '''' then systemLine ''usage: /del <key>'' n
      else systemLine (''deleted '' @ key) (fst (NodeDelete key n)))"

definition command :: "textFns \<Rightarrow> string \<Rightarrow> string \<Rightarrow> Node \<Rightarrow> Node" where
  "command tf cmd rest n =
     (let c = tf_lower tf cmd in
      if c = ''help'' \<or> c = ''?'' then systemLine helpText n
      else if c = ''nick'' then (if rest = '''' then systemLine ''usage: /nick <name>'' n else NodeSetNick rest n)
      else if c = ''me'' then (if rest = '''' then systemLine ''usage: /me <text>'' n else SendAction rest n)
      else if c = ''msg'' \<or> c = ''dm'' then cmdMsg tf rest n
      else if c = ''peers'' then cmdPeers n
      else if c = ''keys'' then cmdKeys n
      else if c = ''get'' then cmdGet rest n
      else if c = ''set'' then cmdSet tf rest n
      else if c = ''setttl'' then cmdSetTTL tf rest n
      else if c = ''del'' \<or> c = ''delete'' then cmdDel rest n
      else systemLine (''unknown command: /'' @ cmd @ '' (try /help)'') n)"

definition Submit :: "textFns \<Rightarrow> string \<Rightarrow> Node \<Rightarrow> Node" where
  "Submit tf text0 n =
     (let text = tf_trim tf text0 in
      if text = '''' then n
      else if hd text \<noteq> CHR ''/'' then SendChat text n
      else let (cmd, rest) = split2 tf (tl text) in command tf cmd rest n)"

section \<open>Every invariant of the engine survives a line of input\<close>

context engine
begin

lemma P_commands: "P n \<Longrightarrow> P (cmdMsg tf rest n)" "P n \<Longrightarrow> P (cmdPeers n)" "P n \<Longrightarrow> P (cmdKeys n)" "P n \<Longrightarrow> P (cmdGet key n)"
  "P n \<Longrightarrow> P (cmdSet tf rest n)" "P n \<Longrightarrow> P (cmdSetTTL tf rest n)" "P n \<Longrightarrow> P (cmdDel key n)"
proof -
  assume p: "P n"
  show "P (cmdMsg tf rest n)"
  proof -
    obtain target body where t: "split2 tf rest = (target, body)" by force
    obtain n1 b where d: "SendDM (tf_fold tf) target body n = (n1, b)" by force
    then have "P n1" using P_SendDM [OF p, of "tf_fold tf" target body] by simp
    then show ?thesis
      using p by (cases b) (simp_all add: cmdMsg_def t d P_announce)
  qed
  show "P (cmdPeers n)" "P (cmdKeys n)" "P (cmdGet key n)"
    using p by (simp_all add: cmdPeers_def cmdKeys_def cmdGet_def Let_def P_announce split: option.split)
  show "P (cmdSet tf rest n)" "P (cmdSetTTL tf rest n)" "P (cmdDel key n)"
    using p by (simp_all add: cmdSet_def cmdSetTTL_def cmdDel_def NodeSet_def NodeDelete_def Let_def P_announce P_writeKey P_removeKey split: prod.split option.split)
qed

lemma P_Submit: "P n \<Longrightarrow> P (Submit tf text n)"
  unfolding Submit_def command_def Let_def
  by (simp add: P_announce P_commands P_setNick P_sendChat SendChat_def SendAction_def split: prod.split)

end

text \<open>
  A line of input keeps a node sound: whatever is typed, plain or command, the peer table, gap tracker, store, chat log, activity feed, repair
  queue and everything waiting to be sent keep their invariants and bounds.
\<close>

theorem submit_sound: "node_ok n \<Longrightarrow> node_ok (Submit tf text n)"
  by (rule sound.P_Submit)

theorem submit_sound_witness: "node_ok (Submit \<lparr>tf_trim = (\<lambda>s. s), tf_lower = (\<lambda>s. s), tf_fold = (=)\<rparr> ''/set k v'' demo_node)"
proof -
  have "node_ok demo_node"
    unfolding demo_node_def by (rule New_ok) (simp_all add: demo_model_def peers_ok_def NewKVStore_wf)
  then show ?thesis by (rule submit_sound)
qed

section \<open>What the commands say and do\<close>

lemma systemLine_frame [simp]: "nodeStore (systemLine s n) = nodeStore n" "nd_outbox (systemLine s n) = nd_outbox n" "nd_Metrics (systemLine s n) = nd_Metrics n"
  by (simp_all add: systemLine_def appendChat_def notify_def onModel_def AppendChat_def Let_def)

text \<open>
  \<open>/set\<close> and \<open>/del\<close> drop the error of the write: refused or not, the user is told that the key was set.  And a number of seconds whose nanoseconds do not fit 64 bits
  wraps: the key is then stored for good, although the user is told when it expires.
\<close>

lemma refused_set_says_set:
  assumes "snd (NodeSet key val 0 n) = Inl err" "split2 tf rest = (key, val)" "key \<noteq> ''''"
  shows "cmdSet tf rest n = systemLine (''set '' @ key) (fst (NodeSet key val 0 n))"
    "nodeStore (cmdSet tf rest n) = nodeStore n"
proof -
  show c: "cmdSet tf rest n = systemLine (''set '' @ key) (fst (NodeSet key val 0 n))"
    using assms(2,3) by (simp add: cmdSet_def)
  have "nodeStore (fst (NodeSet key val 0 n)) = nodeStore n"
    using assms(1) by (auto simp: NodeSet_def writeKey_def finishWrite_def withStore_def Write_def mutate_def addCount_def Let_def no_effects_def
        Persist_def split: prod.splits sum.splits option.splits if_splits)
  then show "nodeStore (cmdSet tf rest n) = nodeStore n"
    by (simp add: c)
qed

lemma setttl_wraps: "durationSeconds 9223372037 = - 9223372036709551616" "writeKey key val (durationSeconds 9223372037) None n = writeKey key val 0 None n"
proof -
  show d: "durationSeconds 9223372037 = - 9223372036709551616"
    by (simp add: durationSeconds_def second_def)
  show "writeKey key val (durationSeconds 9223372037) None n = writeKey key val 0 None n"
    by (simp add: writeKey_def d)
qed

end
