(* ===== verification/Gateway.thy ===== *)
theory Gateway
  imports Snapshots Diagnostics Commands
begin

text \<open>
  The HTTP gateway (\<open>pkg/discovery/httpapi/httpapi.go\<close>): authentication, the read-only guard, the routes, and every handler as a function on the
  node, its repair plans, its snapshot directory and its files.

  A request has the path its URL names, unescaped; what \<open>http.ServeMux\<close> answers by itself for a path in another form (a redirection) is the parameter
  \<open>ge_mux\<close>.  Header names are looked up in canonical form, as \<open>http.Header\<close> does.  A response has its status, the headers the handler
  sets and a body as a value: the JSON encoding of values is not modelled, and the decoders of request bodies are parameters.  A HEAD is answered as its GET
  (\<open>net/http\<close> leaves out the body).  A response of \<open>None\<close> is none at all: the process was killed while saving, or a handler panicked.
\<close>

section \<open>Requests and responses\<close>

record httpRequest =
  rq_Method :: string
  rq_Path :: string
  rq_Query :: "(string \<times> string) list"
  rq_Header :: "string \<Rightarrow> string list option"
  rq_Body :: "string \<times> string option"

record kvItem =
  it_Truncated :: bool
  it_Key :: string
  it_Value :: string
  it_Version :: string
  it_ExpiresAt :: unix_time

record historyItem =
  hi_Version :: string
  hi_Value :: string
  hi_Deleted :: bool
  hi_Local :: bool
  hi_At :: unix_time

record NodeStatus =
  ns_Addr :: string
  ns_Nick :: string
  ns_NodeID :: string
  ns_Cluster :: string
  ns_Peers :: nat
  ns_Keys :: nat
  ns_Tombstones :: nat
  ns_UptimeSec :: int
  ns_Connected :: bool

datatype gatewayError =
    BodyTooBig | BodyUnreadable string | InvalidToken | GatewayReadOnly | MalformedBody | NameTheKeys
  | SnapshotFailed snapshotError | BadLimit | BadOffset | ResnapshotRequired | NoSuchKey string
  | UnknownDurability | NeedsJournalSync | MalformedTTL string | MalformedVersion string
  | WriteRefused kvError string | EmptyMessage | MessageNotUtf8 | ExportUnencodable | UnknownImportMode string | ImportUnreadable
  | PlanUnknown string | PlanWithoutItems | RestoreRefused restoreError | NotDurable "persistError list"
  | PageNotFound | MethodNotAllowed

datatype streamOut =
    SseSnapshot string "kvItem list" | SseKV string KVEvent | SseReady string | SseDropped u64 | SseResnapshot | SsePing

record watchStream =
  ws_watcher :: u64
  ws_prefix :: string
  ws_reported :: u64
  ws_out :: "streamOut list"
  ws_open :: bool

datatype respBody =
    NoBody | ErrorBody gatewayError | TextBody string | DataBody bytes | StatusBody NodeStatus | MetricsBody "counter \<Rightarrow> u64"
  | PeersBody "PeerInfo list" | ActivityBody "(nanos \<times> activityLine) list" | ListBody "kvItem list" | PageBody "kvItem list" nat nat nat
  | HistoryBody "historyItem list" | ChatBody "ChatEntry list" | AppliedBody nat | PathBody string
  | RepairBody RepairReport | DivergentBody ConsistencyReport RepairReport | PlanBody RepairPlan
  | GraphBody Graph | ReportBody diagSnapshot nanos | ChecksBody Severity "Check list" diagSnapshot | ConsistencyBody ConsistencyReport
  | StreamBody watchStream

record httpResponse =
  rs_Status :: nat
  rs_Header :: "(string \<times> string) list"
  rs_Body :: respBody

record gateway =
  gw_rep :: repairState
  gw_snaps :: snapDir
  gw_fs :: files
  gw_faults :: "fault list"

record previewRequest =
  pq_ID :: string
  pq_Keys :: "string list"
  pq_Divergent :: bool
  pq_Offset :: int
  pq_Limit :: int

record restoreRequest =
  rb_Backup :: "ExportFile option"
  rb_Keys :: "string list"
  rb_DeleteMissing :: bool
  rb_AllowCrossCluster :: bool

text \<open>The configuration, and what the handlers take from outside the node: decoders, the network, the operating system.\<close>

record gatewayEnv =
  ge_Token :: string
  ge_ReadOnly :: bool
  ge_mux :: "httpRequest \<Rightarrow> httpResponse option"
  ge_text :: textFns
  ge_sha :: "string \<Rightarrow> 256 word"
  ge_json :: journal_json
  ge_keys :: "string \<Rightarrow> string list option"
  ge_preview :: "string \<Rightarrow> previewRequest option"
  ge_plan :: "string \<Rightarrow> RepairPlan option"
  ge_restore :: "string \<Rightarrow> restoreRequest option"
  ge_apply :: "string \<Rightarrow> (string \<times> string list) option"
  ge_import :: "string \<Rightarrow> ExportFile option"
  ge_marshal :: "ExportFile \<Rightarrow> bytes option"
  ge_uuid :: string
  ge_net :: "nat \<Rightarrow> exchange"
  ge_os :: osOutcome
  ge_stamp :: "nanos \<Rightarrow> string"
  ge_snap :: SnapshotConfig
  ge_diag :: diagEnv

abbreviation (input) gwNode :: "gateway \<Rightarrow> Node" where
  "gwNode g \<equiv> rs_node (gw_rep g)"

definition setNode :: "Node \<Rightarrow> gateway \<Rightarrow> gateway" where
  "setNode n g = g\<lparr>gw_rep := (gw_rep g)\<lparr>rs_node := n\<rparr>\<rparr>"

definition jsonHeader :: "string \<times> string" where
  "jsonHeader = (''Content-Type'', ''application/json'')"

definition writeJSON :: "(string \<times> string) list \<Rightarrow> nat \<Rightarrow> respBody \<Rightarrow> httpResponse" where
  "writeJSON hs code b = \<lparr>rs_Status = code, rs_Header = hs @ [jsonHeader], rs_Body = b\<rparr>"

definition writeErr :: "(string \<times> string) list \<Rightarrow> nat \<Rightarrow> gatewayError \<Rightarrow> httpResponse" where
  "writeErr hs code e = writeJSON hs code (ErrorBody e)"

definition writeHeader :: "(string \<times> string) list \<Rightarrow> nat \<Rightarrow> httpResponse" where
  "writeHeader hs code = \<lparr>rs_Status = code, rs_Header = hs, rs_Body = NoBody\<rparr>"

section \<open>Reading a request\<close>

definition maxBody :: nat where "maxBody = 32 * 2 ^ 20"

definition readBody :: "httpRequest \<Rightarrow> httpResponse + string" where
  "readBody r = (case rq_Body r of (data, failure) \<Rightarrow>
     if length data > maxBody then Inl (writeErr [] 413 BodyTooBig)
     else (case failure of Some e \<Rightarrow> Inl (writeErr [] 400 (BodyUnreadable e)) | None \<Rightarrow> Inr data))"

definition asciiUpper :: "char \<Rightarrow> char" where
  "asciiUpper c = (if 97 \<le> byte c \<and> byte c \<le> 122 then char_of (byte c - 32) else c)"

definition asciiLower :: "char \<Rightarrow> char" where
  "asciiLower c = (if 65 \<le> byte c \<and> byte c \<le> 90 then char_of (byte c + 32) else c)"

fun canonicalFrom :: "bool \<Rightarrow> string \<Rightarrow> string" where
  "canonicalFrom up [] = []"
| "canonicalFrom up (c # cs) = (if up then asciiUpper c else asciiLower c) # canonicalFrom (c = CHR ''-'') cs"

definition CanonicalMIMEHeaderKey :: "string \<Rightarrow> string" where
  "CanonicalMIMEHeaderKey name = canonicalFrom True name"

definition condition :: "httpRequest \<Rightarrow> string \<Rightarrow> string option" where
  "condition r name = (case rq_Header r (CanonicalMIMEHeaderKey name) of Some (v # _) \<Rightarrow> Some v | _ \<Rightarrow> None)"

definition headerGet :: "httpRequest \<Rightarrow> string \<Rightarrow> string" where
  "headerGet r name = (case condition r name of Some v \<Rightarrow> v | None \<Rightarrow> '''')"

definition queryHas :: "httpRequest \<Rightarrow> string \<Rightarrow> bool" where
  "queryHas r name \<longleftrightarrow> map_of (rq_Query r) name \<noteq> None"

definition queryGet :: "httpRequest \<Rightarrow> string \<Rightarrow> string" where
  "queryGet r name = (case map_of (rq_Query r) name of Some v \<Rightarrow> v | None \<Rightarrow> '''')"

section \<open>Versions as entity tags\<close>

definition isQuote :: "char \<Rightarrow> bool" where
  "isQuote c \<longleftrightarrow> c = CHR 0x22"

definition trimQuotes :: "string \<Rightarrow> string" where
  "trimQuotes s = rev (dropWhile isQuote (rev (dropWhile isQuote s)))"

definition quoteTag :: "version \<Rightarrow> string" where
  "quoteTag v = CHR 0x22 # formatVersion v @ [CHR 0x22]"

definition parseVersion :: "string \<Rightarrow> version option" where
  "parseVersion s0 =
     (let s = trimQuotes s0 in
      if s = '''' \<or> s = ''*'' then Some (Version 0 '''')
      else
        let counter = takeWhile (\<lambda>c. c \<noteq> CHR ''.'') s in
        if length counter = length s then None
        else (case ParseUint counter of None \<Rightarrow> None | Some c \<Rightarrow> Some (Version c (drop (length counter + 1) s))))"

fun splitComma :: "string \<Rightarrow> string \<Rightarrow> string list" where
  "splitComma cur [] = [cur]"
| "splitComma cur (c # cs) = (if c = CHR '','' then cur # splitComma [] cs else splitComma (cur @ [c]) cs)"

definition etagMatches :: "textFns \<Rightarrow> string \<Rightarrow> string \<Rightarrow> bool" where
  "etagMatches tf header etag =
     list_ex (\<lambda>c. trimQuotes (tf_trim tf c) = ''*'' \<or> trimQuotes (tf_trim tf c) = trimQuotes etag) (splitComma [] header)"

section \<open>Reads\<close>

definition NodeStatusOf :: "diagEnv \<Rightarrow> Node \<Rightarrow> NodeStatus" where
  "NodeStatusOf env n = (let peers = length (GetNodes (nd_Model n)) in
     \<lparr>ns_Addr = advertised n, ns_Nick = Nick (nd_Model n), ns_NodeID = md_NodeID (nd_Model n), ns_Cluster = nc_Cluster (nd_cfg n), ns_Peers = peers,
      ns_Keys = Len (nodeStore n), ns_Tombstones = Tombstones (nodeStore n), ns_UptimeSec = de_UptimeSec env, ns_Connected = (peers > 0)\<rparr>)"

definition handleHealth :: "gatewayEnv \<Rightarrow> gateway \<Rightarrow> httpResponse" where
  "handleHealth env g = writeJSON [] 200 (StatusBody (NodeStatusOf (ge_diag env) (gwNode g)))"

definition handleMetrics :: "gateway \<Rightarrow> httpResponse" where
  "handleMetrics g = \<lparr>rs_Status = 200, rs_Header = [(''Content-Type'', ''text/plain; version=0.0.4; charset=utf-8'')],
     rs_Body = MetricsBody (nd_Metrics (gwNode g))\<rparr>"

definition handlePeers :: "gateway \<Rightarrow> httpResponse" where
  "handlePeers g = writeJSON [] 200 (PeersBody (Peers (gwNode g)))"

definition handleActivity :: "gateway \<Rightarrow> httpResponse" where
  "handleActivity g = writeJSON [] 200 (ActivityBody (nd_activity (gwNode g)))"

definition handleTopology :: "gateway \<Rightarrow> httpResponse" where
  "handleTopology g = writeJSON [] 200 (GraphBody (NodeTopology (gwNode g)))"

definition handleDiagnostics :: "gatewayEnv \<Rightarrow> httpRequest \<Rightarrow> gateway \<Rightarrow> gateway \<times> httpResponse option" where
  "handleDiagnostics env r g =
     (let n = gwNode g; snap = nodeDiagnostics (ge_diag env) n; g1 = setNode (fst (Strangers n)) g in
      if queryGet r ''format'' = ''text''
      then (g1, Some \<lparr>rs_Status = 200, rs_Header = [(''Content-Type'', ''text/plain; charset=utf-8'')], rs_Body = ReportBody snap (nodeNow n)\<rparr>)
      else (case Checks snap (nodeNow n) of
        None \<Rightarrow> (g1, None)
      | Some checks \<Rightarrow> (g1, Some (writeJSON [] 200 (ChecksBody (Worst checks) checks snap)))))"

definition handleConsistency :: "gatewayEnv \<Rightarrow> gateway \<Rightarrow> gateway \<times> httpResponse" where
  "handleConsistency env g = (case CheckConsistency (ge_net env 0) (gwNode g) of (n1, report) \<Rightarrow>
     (setNode n1 g, writeJSON [] (if rp_Converged report then 200 else 409) (ConsistencyBody report)))"

definition listItem :: "Entry \<Rightarrow> kvItem" where
  "listItem e = \<lparr>it_Truncated = False, it_Key = en_Key e, it_Value = en_Value e, it_Version = formatVersion (en_Version e), it_ExpiresAt = en_ExpiresAt e\<rparr>"

definition listItems :: "string \<Rightarrow> Node \<Rightarrow> kvItem list" where
  "listItems pre n = map listItem (filter (\<lambda>e. pre = '''' \<or> HasPrefix (en_Key e) pre) (Entries (nodeStore n)))"

function trimValid :: "string \<Rightarrow> string" where
  "trimValid v = (if ValidString v then v else trimValid (butlast v))"
  by pat_completeness auto
termination
proof (relation "measure length")
  fix v
  assume "\<not> ValidString v"
  then have "v \<noteq> []" by auto
  then show "(butlast v, v) \<in> measure length" by simp
qed simp

declare trimValid.simps [simp del]

definition previewItem :: "kvItem \<Rightarrow> kvItem" where
  "previewItem i = (if length (it_Value i) > 512 then i\<lparr>it_Value := trimValid (take 512 (it_Value i)), it_Truncated := True\<rparr> else i)"

definition listPage :: "httpRequest \<Rightarrow> kvItem list \<Rightarrow> httpResponse" where
  "listPage r out = (case Atoi (queryGet r ''limit'') of
     None \<Rightarrow> writeErr [] 400 BadLimit
   | Some limit \<Rightarrow>
       if limit < 1 \<or> limit > 500 then writeErr [] 400 BadLimit
       else (case (if queryGet r ''offset'' = '''' then Some 0 else Atoi (queryGet r ''offset'')) of
         None \<Rightarrow> writeErr [] 400 BadOffset
       | Some offset0 \<Rightarrow>
           if offset0 < 0 then writeErr [] 400 BadOffset
           else
             let tot = int (length out);
                 offset = (if offset0 > tot then tot else offset0);
                 stop = (if offset + limit > tot then tot else offset + limit);
                 page = take (nat (stop - offset)) (drop (nat offset) out)
             in writeJSON [] 200 (PageBody (if queryGet r ''preview'' = ''true'' then map previewItem page else page)
                  (length out) (nat offset) (nat limit))))"

text \<open>A watch: the subscription, then the baseline or the replay.  What the client has not yet been sent is in its watcher.
  The baseline is read in the same step as the subscription; a write in between would show in both.\<close>

definition watchHeaders :: "(string \<times> string) list" where
  "watchHeaders = [(''Content-Type'', ''text/event-stream''), (''Cache-Control'', ''no-cache''), (''Connection'', ''keep-alive''), (''X-Accel-Buffering'', ''no'')]"

definition watchOpening :: "(string \<Rightarrow> 256 word) \<Rightarrow> string \<Rightarrow> string \<Rightarrow> Watcher \<Rightarrow> KVEvent list \<Rightarrow> Node \<Rightarrow> streamOut list" where
  "watchOpening sha pre cursor w missed n =
     (if cursor = '''' then [SseSnapshot (wa_Cursor w) (listItems pre n)]
      else map (\<lambda>ev. SseKV (Token sha pre (ev_ID ev)) ev) missed @ [SseReady (wa_Cursor w)])"

definition handleWatch :: "gatewayEnv \<Rightarrow> httpRequest \<Rightarrow> string \<Rightarrow> gateway \<Rightarrow> gateway \<times> httpResponse" where
  "handleWatch env r pre g =
     (let n = gwNode g; cursor = headerGet r ''Last-Event-ID'' in
      case WatchFrom (ge_sha env) (nd_uuid n) pre cursor (nd_hub n) of
        (hub, Inl _) \<Rightarrow> (setNode (n\<lparr>nd_hub := hub\<rparr>) g, writeErr [] 409 ResnapshotRequired)
      | (hub, Inr (i, missed)) \<Rightarrow>
          (setNode (n\<lparr>nd_hub := hub\<rparr>) g,
           \<lparr>rs_Status = 200, rs_Header = watchHeaders,
            rs_Body = StreamBody \<lparr>ws_watcher = i, ws_prefix = pre, ws_reported = 0,
              ws_out = watchOpening (ge_sha env) pre cursor (the (fmlookup (wh_objects hub) i)) missed n, ws_open = True\<rparr>\<rparr>))"

text \<open>
  The loop of a watch: one of the client leaving, an event, or the ping; the boolean says whether the client was still there to write to.
  An event case with nothing waiting is a channel not ready to receive from, or a closed one, which ends the stream.
\<close>

datatype watchCase = ClientDone | FromWatcher bool | PingDue bool

definition endStream :: "watchHub \<times> watchStream \<Rightarrow> watchHub \<times> watchStream" where
  "endStream = (\<lambda>(hub, ws). (CloseWatcher (ws_watcher ws) hub, ws\<lparr>ws_open := False\<rparr>))"

definition watchLoop :: "(string \<Rightarrow> 256 word) \<Rightarrow> watchCase \<Rightarrow> watchHub \<times> watchStream \<Rightarrow> watchHub \<times> watchStream" where
  "watchLoop sha what = (\<lambda>(hub, ws).
     if \<not> ws_open ws then (hub, ws)
     else (case what of
       ClientDone \<Rightarrow> endStream (hub, ws)
     | FromWatcher there \<Rightarrow> (case receive (ws_watcher ws) hub of
         None \<Rightarrow> if map_option wa_closed (fmlookup (wh_objects hub) (ws_watcher ws)) = Some False then (hub, ws) else endStream (hub, ws)
       | Some (ev, hub1) \<Rightarrow>
           let dropped = Dropped hub1 (ws_watcher ws) in
           if dropped > ws_reported ws
           then endStream (hub1, ws\<lparr>ws_reported := dropped, ws_out := ws_out ws @ (if there then [SseDropped dropped, SseResnapshot] else [])\<rparr>)
           else if there then (hub1, ws\<lparr>ws_out := ws_out ws @ [SseKV (Token sha (ws_prefix ws) (ev_ID ev)) ev]\<rparr>)
           else endStream (hub1, ws))
     | PingDue there \<Rightarrow> if there then (hub, ws\<lparr>ws_out := ws_out ws @ [SsePing]\<rparr>) else endStream (hub, ws)))"

definition handleList :: "gatewayEnv \<Rightarrow> httpRequest \<Rightarrow> gateway \<Rightarrow> gateway \<times> httpResponse" where
  "handleList env r g =
     (let pre = queryGet r ''prefix''; watch = queryGet r ''watch'' in
      if watch \<noteq> '''' \<and> watch \<noteq> ''0'' \<and> watch \<noteq> ''false'' then handleWatch env r pre g
      else
        let out = listItems pre (gwNode g) in
        (g, if queryHas r ''limit'' then listPage r out else writeJSON [] 200 (ListBody out)))"

definition handleGet :: "gatewayEnv \<Rightarrow> httpRequest \<Rightarrow> string \<Rightarrow> gateway \<Rightarrow> httpResponse" where
  "handleGet env r key g = (case GetEntry (nodeStore (gwNode g)) key of
     None \<Rightarrow> writeErr [] 404 (NoSuchKey key)
   | Some e \<Rightarrow>
       let etag = quoteTag (en_Version e);
           hs = (''ETag'', etag) # (if en_ExpiresAt e > 0 then [(''X-Rezoagwe-Expires'', decimalInt (en_ExpiresAt e))] else []);
           match = headerGet r ''If-None-Match''
       in if match \<noteq> '''' \<and> etagMatches (ge_text env) match etag then writeHeader hs 304
          else \<lparr>rs_Status = 200, rs_Header = hs @ [(''Content-Type'', ''text/plain; charset=utf-8'')], rs_Body = TextBody (en_Value e)\<rparr>)"

definition historyItemOf :: "HistoryEntry \<Rightarrow> historyItem" where
  "historyItemOf e = \<lparr>hi_Version = formatVersion (he_Version e), hi_Value = he_Value e, hi_Deleted = he_Deleted e, hi_Local = he_Local e, hi_At = unix (he_At e)\<rparr>"

definition handleHistory :: "string \<Rightarrow> gateway \<Rightarrow> httpResponse" where
  "handleHistory key g = writeJSON [] 200 (HistoryBody (map historyItemOf (History (nodeStore (gwNode g)) key)))"

definition handleChatGet :: "gateway \<Rightarrow> httpResponse" where
  "handleChatGet g = writeJSON [] 200 (ChatBody (ChatLog (nd_Model (gwNode g))))"

definition handleExport :: "gatewayEnv \<Rightarrow> gateway \<Rightarrow> httpResponse" where
  "handleExport env g = (case ge_marshal env (Export (gwNode g)) of
     None \<Rightarrow> writeErr [] 500 ExportUnencodable
   | Some data \<Rightarrow> \<lparr>rs_Status = 200, rs_Header = [jsonHeader, (''Content-Disposition'', ''attachment; filename='' @ [CHR 0x22] @ ''rezoagwe-export.json'' @ [CHR 0x22])], rs_Body = DataBody data\<rparr>)"

section \<open>Writes\<close>

definition writeRefusal :: "string \<Rightarrow> kvError \<Rightarrow> httpResponse" where
  "writeRefusal key err = writeErr [] (case err of
       ErrVersionMismatch \<Rightarrow> 412 | ErrNotRepresentable _ \<Rightarrow> 422 | ErrUnshippable \<Rightarrow> 413 | ErrTooLarge \<Rightarrow> 413 | ErrTooManyKeys \<Rightarrow> 507
     | ErrClockExhausted \<Rightarrow> 500) (WriteRefused err key)"

text \<open>\<open>Flush\<close> of the node's model, on the gateway's files.\<close>

definition flushNode :: "journal_json \<Rightarrow> gateway \<Rightarrow> outcome \<times> gateway" where
  "flushNode J g = (case Flush J (nodeNow (gwNode g) div 1000000)
       \<lparr>mc_model = nd_Model (gwNode g), mc_fs = gw_fs g, mc_faults = gw_faults g, mc_armed = False, mc_job = None, mc_closed = False\<rparr> of
     (r, mc) \<Rightarrow> (r, setNode ((gwNode g)\<lparr>nd_Model := mc_model mc\<rparr>) (g\<lparr>gw_fs := mc_fs mc, gw_faults := mc_faults mc\<rparr>)))"

definition finishPut :: "gatewayEnv \<Rightarrow> httpRequest \<Rightarrow> (string \<times> string) list \<Rightarrow> gateway \<Rightarrow> gateway \<times> httpResponse option" where
  "finishPut env r hs g =
     (if headerGet r ''X-Rezoagwe-Durability'' = ''durable''
      then (case flushNode (ge_json env) g of
        (Crash, g1) \<Rightarrow> (g1, None)
      | (_, g1) \<Rightarrow>
          let h = ModelHealth (nd_Model (gwNode g1)) in
          if \<not> ph_Durable h \<or> ph_Pending h \<or> ph_Error h \<noteq> []
          then (g1, Some (writeErr (hs @ [(''X-Rezoagwe-Accepted'', ''memory'')]) 503 (NotDurable (ph_Error h))))
          else (g1, Some (writeHeader (hs @ [(''X-Rezoagwe-Accepted'', ''durable'')]) 204)))
      else (g, Some (writeHeader (hs @ [(''X-Rezoagwe-Accepted'', ''memory'')]) 204)))"

definition putTTL :: "httpRequest \<Rightarrow> nanos option" where
  "putTTL r = (let raw = headerGet r ''X-Rezoagwe-TTL'' in
     if raw = '''' then Some 0
     else (case Atoi raw of
       None \<Rightarrow> None
     | Some secs \<Rightarrow> if secs < 0 \<or> secs > (2 ^ 63 - 1) div second then None else Some (secs * second)))"

definition storePut :: "gatewayEnv \<Rightarrow> httpRequest \<Rightarrow> string \<Rightarrow> gateway \<Rightarrow> Node \<times> (kvError + KVUpdate) \<Rightarrow> gateway \<times> httpResponse option" where
  "storePut env r key g = (\<lambda>(n1, res). case res of
     Inl err \<Rightarrow> (setNode n1 g, Some (writeRefusal key err))
   | Inr u \<Rightarrow> finishPut env r [(''ETag'', quoteTag (u_Version u))] (setNode n1 g))"

definition handlePut :: "gatewayEnv \<Rightarrow> httpRequest \<Rightarrow> string \<Rightarrow> gateway \<Rightarrow> gateway \<times> httpResponse option" where
  "handlePut env r key g =
     (let durable = headerGet r ''X-Rezoagwe-Durability''; n = gwNode g in
      if durable \<noteq> '''' \<and> durable \<noteq> ''memory'' \<and> durable \<noteq> ''durable'' then (g, Some (writeErr [] 400 UnknownDurability))
      else if durable = ''durable'' \<and> ph_Mode (ModelHealth (nd_Model n)) \<noteq> ''journal-sync'' then (g, Some (writeErr [] 409 NeedsJournalSync))
      else (case readBody r of
        Inl resp \<Rightarrow> (g, Some resp)
      | Inr body \<Rightarrow> (case putTTL r of
          None \<Rightarrow> (g, Some (writeErr [] 400 (MalformedTTL (headerGet r ''X-Rezoagwe-TTL''))))
        | Some ttl \<Rightarrow> (case condition r ''If-Match'' of
            Some match \<Rightarrow> (case parseVersion match of
              None \<Rightarrow> (g, Some (writeErr [] 400 (MalformedVersion match)))
            | Some expect \<Rightarrow> storePut env r key g (CompareAndSet key body ttl expect n))
          | None \<Rightarrow> storePut env r key g (NodeSet key body ttl n)))))"

definition finishDelete :: "string \<Rightarrow> gateway \<Rightarrow> Node \<times> (kvError + KVUpdate) \<Rightarrow> gateway \<times> httpResponse" where
  "finishDelete key g = (\<lambda>(n1, res). (setNode n1 g, case res of Inl err \<Rightarrow> writeRefusal key err | Inr u \<Rightarrow> writeHeader [] 204))"

definition handleDelete :: "httpRequest \<Rightarrow> string \<Rightarrow> gateway \<Rightarrow> gateway \<times> httpResponse" where
  "handleDelete r key g = (case condition r ''If-Match'' of
     Some match \<Rightarrow> (case parseVersion match of
       None \<Rightarrow> (g, writeErr [] 400 (MalformedVersion match))
     | Some expect \<Rightarrow> finishDelete key g (CompareAndDelete key expect (gwNode g)))
   | None \<Rightarrow> finishDelete key g (NodeDelete key (gwNode g)))"

definition withBody :: "httpRequest \<Rightarrow> gateway \<Rightarrow> (string \<Rightarrow> gateway \<times> httpResponse) \<Rightarrow> gateway \<times> httpResponse" where
  "withBody r g f = (case readBody r of Inl resp \<Rightarrow> (g, resp) | Inr body \<Rightarrow> f body)"

definition handleChatPost :: "gatewayEnv \<Rightarrow> httpRequest \<Rightarrow> gateway \<Rightarrow> gateway \<times> httpResponse" where
  "handleChatPost env r g = withBody r g (\<lambda>body.
     let text = tf_trim (ge_text env) body in
     if text = '''' then (g, writeErr [] 400 EmptyMessage)
     else if \<not> ValidString text then (g, writeErr [] 422 MessageNotUtf8)
     else (setNode (Submit (ge_text env) text (gwNode g)) g, writeHeader [] 204))"

definition handleImport :: "gatewayEnv \<Rightarrow> httpRequest \<Rightarrow> gateway \<Rightarrow> gateway \<times> httpResponse" where
  "handleImport env r g = withBody r g (\<lambda>data.
     let mode = queryGet r ''mode'' in
     if mode \<noteq> '''' \<and> mode \<noteq> ''merge'' \<and> mode \<noteq> ''seed'' then (g, writeErr [] 400 (UnknownImportMode mode))
     else (case ge_import env data of
       None \<Rightarrow> (g, writeErr [] 400 ImportUnreadable)
     | Some file \<Rightarrow> (case Import (case xf_Entries file of Some us \<Rightarrow> us | None \<Rightarrow> []) (mode = ''seed'') (gwNode g) of
         (n1, applied) \<Rightarrow> (setNode n1 g, writeJSON [] 200 (AppliedBody applied)))))"

definition handleSnapshot :: "gatewayEnv \<Rightarrow> gateway \<Rightarrow> gateway \<times> httpResponse" where
  "handleSnapshot env g = (case WriteSnapshot (ge_os env) (ge_stamp env) (ge_marshal env) (ge_snap env) (gwNode g) (gw_snaps g) of
     (n1, d, res) \<Rightarrow> (setNode n1 (g\<lparr>gw_snaps := d\<rparr>), case res of
       Inl err \<Rightarrow> writeErr [] 409 (SnapshotFailed err)
     | Inr path \<Rightarrow> writeJSON [] 200 (PathBody path)))"

definition handleRepair :: "gatewayEnv \<Rightarrow> httpRequest \<Rightarrow> gateway \<Rightarrow> gateway \<times> httpResponse" where
  "handleRepair env r g =
     (if queryGet r ''divergent'' = ''true''
      then (case RepairDivergent (ge_net env 0) (ge_net env 1) (\<lambda>i. ge_net env (i + 2)) (ge_uuid env) (gw_rep g) of
        (s, consistency, repair) \<Rightarrow> (g\<lparr>gw_rep := s\<rparr>, writeJSON [] 200 (DivergentBody consistency repair)))
      else withBody r g (\<lambda>body. case ge_keys env body of
        None \<Rightarrow> (g, writeErr [] 400 MalformedBody)
      | Some keys \<Rightarrow>
          if keys = [] then (g, writeErr [] 400 NameTheKeys)
          else (case Repair (ge_net env) (ge_uuid env) keys (gw_rep g) of (s, report) \<Rightarrow>
            (g\<lparr>gw_rep := s\<rparr>, writeJSON [] 200 (RepairBody report)))))"

definition handleRepairPreview :: "gatewayEnv \<Rightarrow> httpRequest \<Rightarrow> gateway \<Rightarrow> gateway \<times> httpResponse" where
  "handleRepairPreview env r g = withBody r g (\<lambda>body. case ge_preview env body of
     None \<Rightarrow> (g, writeErr [] 400 MalformedBody)
   | Some q \<Rightarrow>
       if pq_ID q \<noteq> ''''
       then (let p = RepairPlanPage (nodeNow (gwNode g)) (rs_plans (gw_rep g)) (pq_ID q) (pq_Offset q) (pq_Limit q)
             in (g, if pl_Error p \<noteq> '''' then writeErr [] 409 (PlanUnknown (pl_Error p)) else writeJSON [] 200 (PlanBody p)))
       else (case (if pq_Divergent q
                   then (case CheckConsistency (ge_net env 0) (gwNode g) of (n1, report) \<Rightarrow> DivergentKeys (ge_net env 1) report n1)
                   else (gwNode g, pq_Keys q)) of (n2, keys) \<Rightarrow>
         (case PreviewRepair (ge_uuid env) keys (pq_Offset q) (pq_Limit q) ((gw_rep g)\<lparr>rs_node := n2\<rparr>) of (s, p) \<Rightarrow>
           (g\<lparr>gw_rep := s\<rparr>, writeJSON [] 200 (PlanBody p)))))"

definition handleRepairApply :: "gatewayEnv \<Rightarrow> httpRequest \<Rightarrow> gateway \<Rightarrow> gateway \<times> httpResponse" where
  "handleRepairApply env r g = withBody r g (\<lambda>body. case ge_plan env body of
     None \<Rightarrow> (g, writeErr [] 400 MalformedBody)
   | Some plan \<Rightarrow>
       if pl_NodeID plan = '''' \<or> pl_Items plan = [] \<or> length (pl_Items plan) > 500 then (g, writeErr [] 400 PlanWithoutItems)
       else (case ApplyRepairPlan (ge_net env 0) (ge_net env 1) plan (gwNode g) of (n1, report) \<Rightarrow>
         (setNode n1 g, writeJSON [] 200 (RepairBody report))))"

definition handleRestorePreview :: "gatewayEnv \<Rightarrow> httpRequest \<Rightarrow> gateway \<Rightarrow> gateway \<times> httpResponse" where
  "handleRestorePreview env r g = withBody r g (\<lambda>body. case ge_restore env body of
     None \<Rightarrow> (g, writeErr [] 400 MalformedBody)
   | Some q \<Rightarrow> (case PreviewRestore (ge_uuid env) (rb_Backup q) (rb_Keys q) (rb_DeleteMissing q) (rb_AllowCrossCluster q) (gw_rep g) of
       (s, Inl err) \<Rightarrow> (g\<lparr>gw_rep := s\<rparr>, writeErr [] 400 (RestoreRefused err))
     | (s, Inr plan) \<Rightarrow> (g\<lparr>gw_rep := s\<rparr>, writeJSON [] 200 (PlanBody plan))))"

definition handleRestoreApply :: "gatewayEnv \<Rightarrow> httpRequest \<Rightarrow> gateway \<Rightarrow> gateway \<times> httpResponse" where
  "handleRestoreApply env r g = withBody r g (\<lambda>body. case ge_apply env body of
     None \<Rightarrow> (g, writeErr [] 400 MalformedBody)
   | Some (planID, keys) \<Rightarrow> (case ApplyRestore (ge_net env 0) (ge_net env 1) planID keys (gw_rep g) of
       (s, Inl err) \<Rightarrow> (g\<lparr>gw_rep := s\<rparr>, writeErr [] 409 (RestoreRefused err))
     | (s, Inr report) \<Rightarrow> (g\<lparr>gw_rep := s\<rparr>, writeJSON [] 200 (RepairBody report))))"

section \<open>Routing\<close>

datatype route =
    HealthR | MetricsR | PeersR | ActivityR | ListR | GetR string | PutR string | DeleteR string | HistoryR string | ChatGetR | ChatPostR
  | ExportR | ImportR | SnapshotR | RepairR | RepairPreviewR | RestorePreviewR | RestoreApplyR | RepairApplyR | TopologyR | DiagnosticsR | ConsistencyR

datatype pathPattern = Exact string route | Under string "string \<Rightarrow> route"

definition gatewayMux :: "(string \<times> pathPattern) list" where
  "gatewayMux = [
     (''GET'', Exact ''/health'' HealthR),
     (''GET'', Exact ''/metrics'' MetricsR),
     (''GET'', Exact ''/peers'' PeersR),
     (''GET'', Exact ''/activity'' ActivityR),
     (''GET'', Exact ''/kv'' ListR),
     (''GET'', Under ''/kv/'' GetR),
     (''PUT'', Under ''/kv/'' PutR),
     (''DELETE'', Under ''/kv/'' DeleteR),
     (''GET'', Under ''/history/'' HistoryR),
     (''GET'', Exact ''/chat'' ChatGetR),
     (''POST'', Exact ''/chat'' ChatPostR),
     (''GET'', Exact ''/export'' ExportR),
     (''POST'', Exact ''/import'' ImportR),
     (''POST'', Exact ''/snapshot'' SnapshotR),
     (''POST'', Exact ''/repair'' RepairR),
     (''POST'', Exact ''/repair/preview'' RepairPreviewR),
     (''POST'', Exact ''/restore/preview'' RestorePreviewR),
     (''POST'', Exact ''/restore/apply'' RestoreApplyR),
     (''POST'', Exact ''/repair/apply'' RepairApplyR),
     (''GET'', Exact ''/topology'' TopologyR),
     (''GET'', Exact ''/diagnostics'' DiagnosticsR),
     (''GET'', Exact ''/consistency'' ConsistencyR)]"

fun matchPath :: "string \<Rightarrow> pathPattern \<Rightarrow> route option" where
  "matchPath path (Exact p rt) = (if path = p then Some rt else None)"
| "matchPath path (Under p f) = (if HasPrefix path p then Some (f (drop (length p) path)) else None)"

definition methodMatches :: "string \<Rightarrow> string \<Rightarrow> bool" where
  "methodMatches want got \<longleftrightarrow> want = got \<or> want = ''GET'' \<and> got = ''HEAD''"

definition muxRoute :: "httpRequest \<Rightarrow> gatewayError + route" where
  "muxRoute r =
     (let here = filter (\<lambda>(m, p). matchPath (rq_Path r) p \<noteq> None) gatewayMux in
      case filter (\<lambda>(m, p). methodMatches m (rq_Method r)) here of
        (m, p) # _ \<Rightarrow> Inr (the (matchPath (rq_Path r) p))
      | [] \<Rightarrow> Inl (if here = [] then PageNotFound else MethodNotAllowed))"

definition answering :: "gateway \<times> httpResponse \<Rightarrow> gateway \<times> httpResponse option" where
  "answering = (\<lambda>(g, resp). (g, Some resp))"

definition handleRoute :: "gatewayEnv \<Rightarrow> httpRequest \<Rightarrow> route \<Rightarrow> gateway \<Rightarrow> gateway \<times> httpResponse option" where
  "handleRoute env r rt g = (case rt of
     HealthR \<Rightarrow> (g, Some (handleHealth env g))
   | MetricsR \<Rightarrow> (g, Some (handleMetrics g))
   | PeersR \<Rightarrow> (g, Some (handlePeers g))
   | ActivityR \<Rightarrow> (g, Some (handleActivity g))
   | ListR \<Rightarrow> answering (handleList env r g)
   | GetR key \<Rightarrow> (g, Some (handleGet env r key g))
   | PutR key \<Rightarrow> handlePut env r key g
   | DeleteR key \<Rightarrow> answering (handleDelete r key g)
   | HistoryR key \<Rightarrow> (g, Some (handleHistory key g))
   | ChatGetR \<Rightarrow> (g, Some (handleChatGet g))
   | ChatPostR \<Rightarrow> answering (handleChatPost env r g)
   | ExportR \<Rightarrow> (g, Some (handleExport env g))
   | ImportR \<Rightarrow> answering (handleImport env r g)
   | SnapshotR \<Rightarrow> answering (handleSnapshot env g)
   | RepairR \<Rightarrow> answering (handleRepair env r g)
   | RepairPreviewR \<Rightarrow> answering (handleRepairPreview env r g)
   | RestorePreviewR \<Rightarrow> answering (handleRestorePreview env r g)
   | RestoreApplyR \<Rightarrow> answering (handleRestoreApply env r g)
   | RepairApplyR \<Rightarrow> answering (handleRepairApply env r g)
   | TopologyR \<Rightarrow> (g, Some (handleTopology g))
   | DiagnosticsR \<Rightarrow> handleDiagnostics env r g
   | ConsistencyR \<Rightarrow> answering (handleConsistency env g))"

definition serveMux :: "gatewayEnv \<Rightarrow> httpRequest \<Rightarrow> gateway \<Rightarrow> gateway \<times> httpResponse option" where
  "serveMux env r g = (case ge_mux env r of
     Some resp \<Rightarrow> (g, Some resp)
   | None \<Rightarrow> (case muxRoute r of
       Inl e \<Rightarrow> (g, Some \<lparr>rs_Status = (if e = PageNotFound then 404 else 405), rs_Header = [], rs_Body = ErrorBody e\<rparr>)
     | Inr rt \<Rightarrow> handleRoute env r rt g))"

section \<open>The layers around the routes\<close>

definition guardWrites :: "gatewayEnv \<Rightarrow> httpRequest \<Rightarrow> gateway \<Rightarrow> gateway \<times> httpResponse option" where
  "guardWrites env r g =
     (if \<not> ge_ReadOnly env \<or> rq_Method r \<in> {''GET'', ''HEAD'', ''OPTIONS''} then serveMux env r g
      else (g, Some (writeErr [] 403 GatewayReadOnly)))"

definition presentedToken :: "httpRequest \<Rightarrow> string" where
  "presentedToken r =
     (let got = headerGet r ''X-Rezoagwe-Token''; auth = headerGet r ''Authorization'' in
      if got = '''' \<and> HasPrefix auth ''Bearer '' then drop 7 auth else got)"

definition authenticate :: "gatewayEnv \<Rightarrow> httpRequest \<Rightarrow> gateway \<Rightarrow> gateway \<times> httpResponse option" where
  "authenticate env r g =
     (if ge_Token env = '''' \<or> presentedToken r = ge_Token env then guardWrites env r g
      else (g, Some (writeErr [(''WWW-Authenticate'', ''Bearer realm='' @ [CHR 0x22] @ ''rezoagwe'' @ [CHR 0x22])] 401 InvalidToken)))"

definition countRequest :: "gateway \<Rightarrow> gateway" where
  "countRequest g = setNode (addCount HTTPRequests 1 (gwNode g)) g"

definition ServeHTTP :: "gatewayEnv \<Rightarrow> httpRequest \<Rightarrow> gateway \<Rightarrow> gateway \<times> httpResponse option" where
  "ServeHTTP env r g = authenticate env r (countRequest g)"

section \<open>Who may do what\<close>

lemma gwNode_setNode [simp]: "gwNode (setNode n g) = n" "rs_plans (gw_rep (setNode n g)) = rs_plans (gw_rep g)" "gw_snaps (setNode n g) = gw_snaps g"
  "gw_fs (setNode n g) = gw_fs g" "gw_faults (setNode n g) = gw_faults g"
  by (simp_all add: setNode_def)

lemma countRequest_frame [simp]: "nd_Model (gwNode (countRequest g)) = nd_Model (gwNode g)" "nd_outbox (gwNode (countRequest g)) = nd_outbox (gwNode g)"
  "rs_plans (gw_rep (countRequest g)) = rs_plans (gw_rep g)" "gw_snaps (countRequest g) = gw_snaps g"
  "gw_fs (countRequest g) = gw_fs g" "gw_faults (countRequest g) = gw_faults g"
  by (simp_all add: countRequest_def addCount_def)

definition readRoute :: "route \<Rightarrow> bool" where
  "readRoute rt \<longleftrightarrow> (case rt of PutR _ \<Rightarrow> False | DeleteR _ \<Rightarrow> False | ChatPostR \<Rightarrow> False | ImportR \<Rightarrow> False | SnapshotR \<Rightarrow> False | RepairR \<Rightarrow> False
     | RepairPreviewR \<Rightarrow> False | RestorePreviewR \<Rightarrow> False | RestoreApplyR \<Rightarrow> False | RepairApplyR \<Rightarrow> False | _ \<Rightarrow> True)"

lemma muxRoute_pattern:
  assumes "muxRoute r = Inr rt"
  obtains m p where "(m, p) \<in> set gatewayMux" "methodMatches m (rq_Method r)" "matchPath (rq_Path r) p = Some rt"
proof -
  define here where "here = filter (\<lambda>(m, p). methodMatches m (rq_Method r)) (filter (\<lambda>(m, p). matchPath (rq_Path r) p \<noteq> None) gatewayMux)"
  obtain m p rest where h: "here = (m, p) # rest" and rt: "rt = the (matchPath (rq_Path r) p)"
    using assms by (auto simp: muxRoute_def Let_def here_def split: list.splits prod.splits)
  then have "(m, p) \<in> set here" by simp
  then show ?thesis
    using that rt unfolding here_def by auto
qed

lemma read_methods:
  assumes "muxRoute r = Inr rt" "rq_Method r \<in> {''GET'', ''HEAD'', ''OPTIONS''}"
  shows "readRoute rt"
proof -
  obtain m p where p: "(m, p) \<in> set gatewayMux" "methodMatches m (rq_Method r)" "matchPath (rq_Path r) p = Some rt"
    using muxRoute_pattern [OF assms(1)] .
  have "m = ''GET''"
    using p(1,2) assms(2) by (auto simp: gatewayMux_def methodMatches_def)
  then have "list_all (\<lambda>(m, p). m = ''GET'' \<longrightarrow> (\<forall>path rt. matchPath path p = Some rt \<longrightarrow> readRoute rt)) gatewayMux \<longrightarrow> ?thesis"
    using p(1,3) by (auto simp: list_all_iff)
  then show ?thesis
    by (simp add: gatewayMux_def readRoute_def)
qed

text \<open>What a read leaves alone: the model, what is to be sent, the plans and everything on disk.\<close>

definition sameState :: "gateway \<Rightarrow> gateway \<Rightarrow> bool" where
  "sameState g g' \<longleftrightarrow> nd_Model (gwNode g') = nd_Model (gwNode g) \<and> nd_outbox (gwNode g') = nd_outbox (gwNode g)
     \<and> rs_plans (gw_rep g') = rs_plans (gw_rep g) \<and> gw_snaps g' = gw_snaps g \<and> gw_fs g' = gw_fs g \<and> gw_faults g' = gw_faults g"

lemma sameState_refl [simp]: "sameState g g"
  by (simp add: sameState_def)

lemma Strangers_frame [simp]: "nd_Model (fst (Strangers n)) = nd_Model n" "nd_outbox (fst (Strangers n)) = nd_outbox n"
  by (simp_all add: Strangers_def Let_def)

lemma answering_simps [simp]: "fst (answering x) = fst x" "snd (answering x) = Some (snd x)"
  by (simp_all add: answering_def case_prod_beta)

lemma readRoute_frame:
  assumes "readRoute rt"
  shows "sameState g (fst (handleRoute env r rt g))"
proof -
  have w: "sameState g (fst (handleWatch env r pre g))" for pre
    by (simp add: handleWatch_def sameState_def Let_def split: prod.split sum.split)
  have l: "sameState g (fst (answering (handleList env r g)))"
    using w by (simp add: handleList_def Let_def)
  have d: "sameState g (fst (handleDiagnostics env r g))"
    by (simp add: handleDiagnostics_def sameState_def Let_def split: option.split)
  have c: "sameState g (fst (answering (handleConsistency env g)))"
    using CheckConsistency_frame [of "ge_net env 0" "gwNode g"]
    by (simp add: handleConsistency_def sameState_def case_prod_beta)
  show ?thesis
    using assms l d c by (cases rt) (simp_all add: handleRoute_def readRoute_def)
qed

lemma readOnly_frame:
  assumes "ge_ReadOnly env"
  shows "sameState g (fst (ServeHTTP env r g))"
proof -
  have "sameState g' (fst (guardWrites env r g'))" for g'
    using assms read_methods [of r] by (auto simp: guardWrites_def serveMux_def readRoute_frame split: option.split sum.split)
  from this [of "countRequest g"] show ?thesis
    by (simp add: ServeHTTP_def authenticate_def sameState_def)
qed

text \<open>
  C10.  Access.  With a token set, a request that does not present exactly it is answered 401 on every route and changes nothing but the count of
  requests; and a read-only gateway answers nothing but GET, HEAD and OPTIONS, and whatever it is sent leaves the model (store, peers, chat),
  the messages to be sent, the repair plans, the snapshots and the files as they were.
\<close>

theorem gateway_access:
  "(ge_Token env \<noteq> '''' \<and> presentedToken r \<noteq> ge_Token env \<longrightarrow>
      fst (ServeHTTP env r g) = countRequest g \<and> map_option rs_Status (snd (ServeHTTP env r g)) = Some 401)
   \<and> (ge_ReadOnly env \<longrightarrow> sameState g (fst (ServeHTTP env r g)))
   \<and> (ge_ReadOnly env \<and> rq_Method r \<notin> {''GET'', ''HEAD'', ''OPTIONS''} \<longrightarrow>
      map_option rs_Status (snd (ServeHTTP env r g)) \<in> {Some 401, Some 403})"
proof (intro conjI impI)
  show "sameState g (fst (ServeHTTP env r g))" if "ge_ReadOnly env"
    using readOnly_frame [OF that] .
qed (auto simp: ServeHTTP_def authenticate_def guardWrites_def writeErr_def writeJSON_def)

section \<open>Reaching a handler\<close>

definition admitted :: "gatewayEnv \<Rightarrow> httpRequest \<Rightarrow> bool" where
  "admitted env r \<longleftrightarrow> ge_mux env r = None \<and> (ge_Token env = '''' \<or> presentedToken r = ge_Token env)
     \<and> (\<not> ge_ReadOnly env \<or> rq_Method r \<in> {''GET'', ''HEAD'', ''OPTIONS''})"

definition kvRequest :: "gatewayEnv \<Rightarrow> string \<Rightarrow> string \<Rightarrow> httpRequest \<Rightarrow> bool" where
  "kvRequest env method key r \<longleftrightarrow> admitted env r \<and> rq_Method r = method \<and> rq_Path r = ''/kv/'' @ key"

lemma served: "admitted env r \<Longrightarrow> muxRoute r = Inr rt \<Longrightarrow> ServeHTTP env r g = handleRoute env r rt (countRequest g)"
  by (auto simp: ServeHTTP_def authenticate_def guardWrites_def serveMux_def admitted_def)

lemma kv_routes:
  assumes "rq_Path r = ''/kv/'' @ key"
  shows "rq_Method r = ''GET'' \<Longrightarrow> muxRoute r = Inr (GetR key)" "rq_Method r = ''PUT'' \<Longrightarrow> muxRoute r = Inr (PutR key)"
    "rq_Method r = ''DELETE'' \<Longrightarrow> muxRoute r = Inr (DeleteR key)"
  using assms by (simp_all add: muxRoute_def gatewayMux_def HasPrefix_def methodMatches_def)

lemma kv_served:
  "kvRequest env ''GET'' key r \<Longrightarrow> ServeHTTP env r g = (countRequest g, Some (handleGet env r key (countRequest g)))"
  "kvRequest env ''PUT'' key r \<Longrightarrow> ServeHTTP env r g = handlePut env r key (countRequest g)"
  "kvRequest env ''DELETE'' key r \<Longrightarrow> ServeHTTP env r g = answering (handleDelete r key (countRequest g))"
  by (simp_all add: kvRequest_def served kv_routes handleRoute_def)

lemma get_response:
  assumes "kvRequest env ''GET'' key r" "GetEntry (nodeStore (gwNode g)) key = Some e" "headerGet r ''If-None-Match'' = ''''"
  obtains resp where "snd (ServeHTTP env r g) = Some resp" "rs_Status resp = 200" "rs_Body resp = TextBody (en_Value e)"
    "(''ETag'', quoteTag (en_Version e)) \<in> set (rs_Header resp)"
  using assms by (simp add: kv_served handleGet_def Let_def)

section \<open>What a write through the gateway does\<close>

lemma writeKey_refused:
  assumes "writeKey key val ttl expect n = (n', Inl err)"
  shows "nd_Model n' = nd_Model n" "nd_outbox n' = nd_outbox n"
    "mutateRefusal (nodeStore n) key val False (zero_WriteOptions\<lparr>o_Expect := expect, o_ExpiresAt := (if ttl > 0 then unix (nodeNow n + ttl) else 0)\<rparr>) = Some err"
proof -
  define opt where "opt = zero_WriteOptions\<lparr>o_Expect := expect, o_ExpiresAt := (if ttl > 0 then unix (nodeNow n + ttl) else 0)\<rparr>"
  obtain n1 r where w: "withStore (\<lambda>kv. Write kv key val opt) n = (n1, r)" by force
  have r: "r = Inl err" "n' = (if err = ErrVersionMismatch then addCount KVCASFailures 1 n1 else n1)"
    using assms by (auto simp: writeKey_def opt_def [symmetric] w finishWrite_def split: sum.splits)
  obtain kv' eff where m: "mutate (nodeStore n) key val False opt = (kv', eff, Inl err)"
    using w r(1) by (auto simp: withStore_def Write_def Let_def split: prod.splits)
  have "n1 = n"
    using w withStore_refused [of "\<lambda>kv. Write kv key val opt" n "Inl err"] m mutate_InlD [OF m] by (simp add: Write_def)
  then show "nd_Model n' = nd_Model n" "nd_outbox n' = nd_outbox n"
    by (simp_all add: r(2) addCount_def)
  show "mutateRefusal (nodeStore n) key val False (zero_WriteOptions\<lparr>o_Expect := expect, o_ExpiresAt := (if ttl > 0 then unix (nodeNow n + ttl) else 0)\<rparr>) = Some err"
    using mutate_InlD [OF m] by (simp add: opt_def)
qed

lemma unix_later: "0 < k \<Longrightarrow> unix t < unix (t + k * second)"
  by (simp add: unix_def second_def)

lemma writeKey_stored:
  assumes "writeKey key val ttl expect n = (n', Inr u)" "0 \<le> k" "ttl = k * second"
  shows "GetEntry (nodeStore n') key = Some \<lparr>en_Key = key, en_Value = val, en_Version = u_Version u, en_Deleted = False, en_ExpiresAt = u_ExpiresAt u\<rparr>"
    "k' \<noteq> key \<Longrightarrow> fmlookup (kv_store (nodeStore n')) k' = fmlookup (kv_store (nodeStore n)) k'"
    "nd_outbox n' = nd_outbox n @ map (\<lambda>a. (a, MsgKV u)) (GetNodes (nd_Model n))" "kv_now (nodeStore n') = kv_now (nodeStore n)"
    "expect = Some w \<Longrightarrow> matchesExpect (fmlookup (kv_store (nodeStore n)) key) (unix (nodeNow n)) w"
proof -
  define opt where "opt = zero_WriteOptions\<lparr>o_Expect := expect, o_ExpiresAt := (if ttl > 0 then unix (nodeNow n + ttl) else 0)\<rparr>"
  obtain n1 r where w: "withStore (\<lambda>kv. Write kv key val opt) n = (n1, r)" by force
  have r: "r = Inr u" "n' = notify KVChanged (broadcast (MsgKV u) (addCount KVLocalWrites 1 n1))"
    using assms(1) by (auto simp: writeKey_def opt_def [symmetric] w finishWrite_def split: sum.splits)
  obtain kv' eff where m: "mutate (nodeStore n) key val False opt = (kv', eff, Inr u)"
    using w r(1) by (auto simp: withStore_def Write_def Let_def split: prod.splits)
  have n1: "nodeStore n1 = kv'" "nd_outbox n1 = nd_outbox n" "GetNodes (nd_Model n1) = GetNodes (nd_Model n)"
    using withStore_fields [OF w] by (simp_all add: Write_def m GetNodes_def)
  have n': "nodeStore n' = kv'" "nd_outbox n' = nd_outbox n @ map (\<lambda>a. (a, MsgKV u)) (GetNodes (nd_Model n))"
    using n1 by (simp_all add: r(2) notify_def broadcast_def addCount_def send_def)
  note d = mutate_InrD [OF m]
  have "\<not> (o_ExpiresAt opt \<noteq> 0 \<and> o_ExpiresAt opt \<le> unix (nodeNow n))"
    using unix_later [of k "nodeNow n"] assms(2,3) by (auto simp: opt_def second_def)
  then show "GetEntry (nodeStore n') key = Some \<lparr>en_Key = key, en_Value = val, en_Version = u_Version u, en_Deleted = False, en_ExpiresAt = u_ExpiresAt u\<rparr>"
    by (auto simp: n' GetEntry_def d(2,5,9) visible_def expired_def entryUpdate_def)
  show "k' \<noteq> key \<Longrightarrow> fmlookup (kv_store (nodeStore n')) k' = fmlookup (kv_store (nodeStore n)) k'"
    by (simp add: n' d(2))
  show "nd_outbox n' = nd_outbox n @ map (\<lambda>a. (a, MsgKV u)) (GetNodes (nd_Model n))" "kv_now (nodeStore n') = kv_now (nodeStore n)"
    by (simp_all add: n' d(5))
  show "expect = Some w \<Longrightarrow> matchesExpect (fmlookup (kv_store (nodeStore n)) key) (unix (nodeNow n)) w"
    using mutateRefusal_NoneD(7) [OF d(1)] by (simp add: opt_def)
qed

lemma flushNode_frame:
  assumes "flushNode J g = (r, g')"
  shows "nodeStore (gwNode g') = nodeStore (gwNode g)" "nd_outbox (gwNode g') = nd_outbox (gwNode g)"
  using assms by (auto simp: flushNode_def Flush_def modelWriteState_def writeBegin_def writeEnd_def Let_def split: option.splits prod.splits)

lemma finishPut_frame:
  assumes "finishPut env r hs g = (g', Some resp)"
  shows "nodeStore (gwNode g') = nodeStore (gwNode g)" "nd_outbox (gwNode g') = nd_outbox (gwNode g)"
    "rs_Status resp \<in> {204, 503}" "set hs \<subseteq> set (rs_Header resp)"
proof -
  obtain o1 g1 where f: "flushNode (ge_json env) g = (o1, g1)" by force
  show "nodeStore (gwNode g') = nodeStore (gwNode g)" "nd_outbox (gwNode g') = nd_outbox (gwNode g)"
      "rs_Status resp \<in> {204, 503}" "set hs \<subseteq> set (rs_Header resp)"
    using assms flushNode_frame [OF f]
    by (auto simp: finishPut_def f writeErr_def writeJSON_def writeHeader_def Let_def split: if_splits outcome.splits)
qed

lemma putTTL_seconds: "putTTL r = Some ttl \<Longrightarrow> \<exists>k \<ge> 0. ttl = k * second"
  by (auto simp: putTTL_def Let_def split: if_splits option.splits intro: exI [of _ 0] dest: leI)

lemma storePut_cases:
  assumes "storePut env r key g (n1, res) = (g', Some resp)"
  shows "(\<exists>u. res = Inr u \<and> finishPut env r [(''ETag'', quoteTag (u_Version u))] (setNode n1 g) = (g', Some resp))
    \<or> (\<exists>err. res = Inl err \<and> g' = setNode n1 g \<and> rs_Status resp \<notin> {204, 503})"
  using assms by (cases res) (auto simp: storePut_def writeRefusal_def writeErr_def writeJSON_def split: kvError.splits)

definition stored :: "gatewayEnv \<Rightarrow> httpRequest \<Rightarrow> string \<Rightarrow> gateway \<Rightarrow> gateway \<times> httpResponse option \<Rightarrow> string \<Rightarrow> version option \<Rightarrow> bool" where
  "stored env r key g out body expect \<longleftrightarrow> (\<exists>k n1 u. readBody r = Inr body \<and> 0 \<le> k \<and> writeKey key body (k * second) expect (gwNode g) = (n1, Inr u)
     \<and> finishPut env r [(''ETag'', quoteTag (u_Version u))] (setNode n1 g) = out)"

definition expected :: "httpRequest \<Rightarrow> version option \<Rightarrow> bool" where
  "expected r expect \<longleftrightarrow> (case condition r ''If-Match'' of None \<Rightarrow> expect = None | Some m \<Rightarrow> expect = parseVersion m \<and> expect \<noteq> None)"

lemma handlePut_stages:
  "(\<exists>body ttl expect. readBody r = Inr body \<and> putTTL r = Some ttl \<and> expected r expect
      \<and> handlePut env r key g = storePut env r key g (writeKey key body ttl expect (gwNode g)))
   \<or> (\<exists>resp. handlePut env r key g = (g, Some resp) \<and> rs_Status resp \<in> {400, 409, 413})"
proof (cases "readBody r")
  case (Inl resp)
  then have "rs_Status resp \<in> {400, 409, 413}"
    by (auto simp: readBody_def writeErr_def writeJSON_def split: prod.splits if_splits option.splits)
  then show ?thesis
    using Inl by (auto simp: handlePut_def Let_def writeErr_def writeJSON_def)
next
  case (Inr body)
  then show ?thesis
    by (cases "putTTL r"; cases "condition r ''If-Match''"; cases "parseVersion (the (condition r ''If-Match''))")
      (auto simp: handlePut_def Let_def writeErr_def writeJSON_def CompareAndSet_def NodeSet_def expected_def)
qed

lemma handlePut_outcome:
  assumes "handlePut env r key g = (g', Some resp)"
  shows "(\<exists>body expect. stored env r key g (g', Some resp) body expect \<and> expected r expect)
    \<or> nd_Model (gwNode g') = nd_Model (gwNode g) \<and> nd_outbox (gwNode g') = nd_outbox (gwNode g) \<and> rs_Status resp \<notin> {204, 503}"
  using handlePut_stages [of r env key g]
proof (elim disjE exE conjE)
  fix body ttl expect
  assume b: "readBody r = Inr body" "putTTL r = Some ttl" "expected r expect"
    and p: "handlePut env r key g = storePut env r key g (writeKey key body ttl expect (gwNode g))"
  obtain k where k: "0 \<le> k" "ttl = k * second" using putTTL_seconds [OF b(2)] by auto
  obtain n1 res where w: "writeKey key body ttl expect (gwNode g) = (n1, res)" by force
  note c = storePut_cases [OF p [unfolded assms w, symmetric]]
  show ?thesis
  proof (cases res)
    case (Inl err)
    then show ?thesis
      using c writeKey_refused [OF w [unfolded Inl]] by auto
  next
    case (Inr u)
    then have "stored env r key g (g', Some resp) body expect"
      using c b(1) w k unfolding stored_def by auto
    then show ?thesis using b(3) by blast
  qed
qed (use assms in auto)

text \<open>
  C7.  A PUT tells the truth.  If the answer is 204 or 503 the whole body was read and is now the value of the key, under the version of the answer's
  entity tag; every other key is as it was; the update has been sent to every peer; and a GET of the key, on the gateway as the PUT left it, answers 200 with
  exactly those bytes and that tag.  With any other answer nothing of the model changed and nothing was sent.
\<close>

theorem put_tells_truth:
  assumes "kvRequest env ''PUT'' key r" "ServeHTTP env r g = (g', Some resp)"
  shows "if rs_Status resp \<in> {204, 503}
    then \<exists>body e u. readBody r = Inr body \<and> GetEntry (nodeStore (gwNode g')) key = Some e \<and> en_Value e = body
       \<and> (''ETag'', quoteTag (en_Version e)) \<in> set (rs_Header resp)
       \<and> (\<forall>k. k \<noteq> key \<longrightarrow> fmlookup (kv_store (nodeStore (gwNode g'))) k = fmlookup (kv_store (nodeStore (gwNode g))) k)
       \<and> u_Version u = en_Version e \<and> nd_outbox (gwNode g') = nd_outbox (gwNode g) @ map (\<lambda>a. (a, MsgKV u)) (GetNodes (nd_Model (gwNode g)))
       \<and> (\<forall>q. kvRequest env ''GET'' key q \<and> headerGet q ''If-None-Match'' = '''' \<longrightarrow>
            (\<exists>got. snd (ServeHTTP env q g') = Some got \<and> rs_Status got = 200 \<and> rs_Body got = TextBody body
               \<and> (''ETag'', quoteTag (en_Version e)) \<in> set (rs_Header got)))
    else nd_Model (gwNode g') = nd_Model (gwNode g) \<and> nd_outbox (gwNode g') = nd_outbox (gwNode g)"
proof -
  have h: "handlePut env r key (countRequest g) = (g', Some resp)"
    using assms kv_served(2) by simp
  show ?thesis
  proof (cases "\<exists>body expect. stored env r key (countRequest g) (g', Some resp) body expect")
    case True
    then obtain body expect k n1 u where s: "readBody r = Inr body" "0 \<le> k" "writeKey key body (k * second) expect (gwNode (countRequest g)) = (n1, Inr u)"
        "finishPut env r [(''ETag'', quoteTag (u_Version u))] (setNode n1 (countRequest g)) = (g', Some resp)"
      unfolding stored_def by auto
    note f = finishPut_frame [OF s(4), simplified] and w = writeKey_stored [OF s(3,2) refl, simplified]
    define e where "e = \<lparr>en_Key = key, en_Value = body, en_Version = u_Version u, en_Deleted = False, en_ExpiresAt = u_ExpiresAt u\<rparr>"
    have e: "GetEntry (nodeStore (gwNode g')) key = Some e" using f(1) w(1) by (simp add: e_def)
    have "\<exists>got. snd (ServeHTTP env q g') = Some got \<and> rs_Status got = 200 \<and> rs_Body got = TextBody body
        \<and> (''ETag'', quoteTag (en_Version e)) \<in> set (rs_Header got)" if "kvRequest env ''GET'' key q" "headerGet q ''If-None-Match'' = ''''" for q
      using get_response [OF that(1) e that(2)] by (metis e_def Entry.select_convs(2))
    then show ?thesis
      using s(1) e f w(2,3) by (auto simp: e_def)
  next
    case False
    then show ?thesis
      using handlePut_outcome [OF h] by auto
  qed
qed

section \<open>Entity tags and conditional writes\<close>

lemma dropWhile_stops: "xs \<noteq> [] \<Longrightarrow> \<not> P (hd xs) \<Longrightarrow> dropWhile P (xs @ ys) = xs @ ys"
  by (cases xs) auto

lemma trim_quoted:
  assumes "s \<noteq> ''''" "\<not> isQuote (hd s)" "\<not> isQuote (last s)"
  shows "trimQuotes (CHR 0x22 # s @ [CHR 0x22]) = s" "trimQuotes s = s"
proof -
  have "rev s \<noteq> []" "\<not> isQuote (hd (rev s))" using assms by (simp_all add: hd_rev)
  note d = dropWhile_stops [OF assms(1), of isQuote, OF assms(2)] dropWhile_stops [of "rev s" isQuote "[]", OF this]
  show "trimQuotes (CHR 0x22 # s @ [CHR 0x22]) = s" "trimQuotes s = s"
    using d(1) [of "[CHR 0x22]"] d(1) [of "[]"] d(2) by (simp_all add: trimQuotes_def) (simp_all add: isQuote_def)
qed

lemma decimal_digits: "c \<in> set (decimalNat m) \<Longrightarrow> isDigit c"
  using decimalNat_digits [of m] by (simp add: list_all_iff)

lemma formatVersion_ends:
  assumes "Node v = '''' \<or> \<not> isQuote (last (Node v))"
  shows "formatVersion v \<noteq> ''''" "\<not> isQuote (hd (formatVersion v))" "\<not> isQuote (last (formatVersion v))" "isDigit (hd (formatVersion v))"
proof -
  have d: "decimalNat (unat (Counter v)) \<noteq> []" using decimalNat_digits by simp
  then show h: "isDigit (hd (formatVersion v))"
    using decimal_digits [of "hd (decimalNat (unat (Counter v)))" "unat (Counter v)"] by (simp add: formatVersion_def)
  show "formatVersion v \<noteq> ''''" by (simp add: formatVersion_def)
  show "\<not> isQuote (hd (formatVersion v))" using h by (auto simp: isQuote_def isDigit_def byte_def)
  show "\<not> isQuote (last (formatVersion v))" using assms by (auto simp: formatVersion_def isQuote_def)
qed

lemma parse_tag:
  assumes "Node v = '''' \<or> \<not> isQuote (last (Node v))"
  shows "parseVersion (quoteTag v) = Some v" "parseVersion (formatVersion v) = Some v"
proof -
  note f = formatVersion_ends [OF assms]
  have star: "formatVersion v \<noteq> ''*''" using f(4) by (auto simp: isDigit_def byte_def)
  have "c \<in> set (decimalNat (unat (Counter v))) \<Longrightarrow> c \<noteq> CHR ''.''" for c
    using decimal_digits [of c "unat (Counter v)"] by (auto simp: isDigit_def byte_def)
  then have "takeWhile (\<lambda>c. c \<noteq> CHR ''.'') (formatVersion v) = decimalNat (unat (Counter v))"
    by (simp add: formatVersion_def takeWhile_append2)
  moreover have "length (decimalNat (unat (Counter v))) \<noteq> length (formatVersion v)"
      "drop (length (decimalNat (unat (Counter v))) + 1) (formatVersion v) = Node v"
    by (simp_all add: formatVersion_def)
  ultimately show "parseVersion (quoteTag v) = Some v" "parseVersion (formatVersion v) = Some v"
    using f(1) star trim_quoted [OF f(1-3)] by (simp_all add: parseVersion_def quoteTag_def)
qed

lemma refused_412:
  assumes "writeKey key body ttl expect n = (n1, Inl ErrVersionMismatch)"
  obtains w where "expect = Some w" "\<not> matchesExpect (fmlookup (kv_store (nodeStore n)) key) (unix (nodeNow n)) w"
proof -
  note m = writeKey_refused(3) [OF assms]
  have a: "admitLocked kv k v t \<noteq> Some ErrVersionMismatch" for kv k v t
    by (simp add: admitLocked_def)
  have "representable key body True \<noteq> Some ErrVersionMismatch"
    by (simp add: representable_def)
  with m a show ?thesis
    using that by (auto simp: mutateRefusal_def zero_WriteOptions_def Let_def split: option.splits if_splits)
qed

lemma put_412:
  assumes "handlePut env r key g = (g', Some resp)" "rs_Status resp = 412"
  obtains w where "expected r (Some w)" "\<not> matchesExpect (fmlookup (kv_store (nodeStore (gwNode g))) key) (unix (nodeNow (gwNode g))) w"
proof -
  consider body ttl expect where "expected r expect" "handlePut env r key g = storePut env r key g (writeKey key body ttl expect (gwNode g))"
    | "rs_Status resp \<in> {400, 409, 413}"
    using handlePut_stages [of r env key g] assms(1) by auto
  then show ?thesis
  proof cases
    case 1
    obtain n1 res where w: "writeKey key body ttl expect (gwNode g) = (n1, res)" by force
    have p: "storePut env r key g (n1, res) = (g', Some resp)" using 1(2) assms(1) w by simp
    have "res = Inl ErrVersionMismatch"
    proof (cases res)
      case (Inl err)
      then show ?thesis using p assms(2) by (cases err) (auto simp: storePut_def writeRefusal_def writeErr_def writeJSON_def)
    next
      case (Inr u)
      then show ?thesis using p assms(2) finishPut_frame(3) [of env r "[(''ETag'', quoteTag (u_Version u))]" "setNode n1 g" g' resp] by (simp add: storePut_def)
    qed
    from refused_412 [OF w [unfolded this]] 1(1) that show ?thesis by metis
  next
    case 2
    then show ?thesis using assms(2) by simp
  qed
qed

lemma get_tag:
  assumes "kvRequest env ''GET'' key q" "snd (ServeHTTP env q g) = Some got" "(''ETag'', tag) \<in> set (rs_Header got)"
    and "GetEntry (nodeStore (gwNode g)) key = Some e"
  shows "tag = quoteTag (en_Version e)"
  using assms by (auto simp: kv_served handleGet_def Let_def writeHeader_def split: if_splits)

lemma matchesExpect_read: "matchesExpect (fmlookup (kv_store kv) key) (unix (kv_now kv)) v \<longleftrightarrow>
    (case GetEntry kv key of Some e \<Rightarrow> en_Version e = v | None \<Rightarrow> Zero v)"
  by (simp add: matchesExpect_def GetEntry_def Equal_def version.expand split: option.split)

lemma guarded_put:
  assumes "handlePut env r key g = (g', Some resp)" "condition r ''If-Match'' = Some tag" "parseVersion tag = Some v" "\<not> Zero v"
  shows "rs_Status resp \<in> {204, 503} \<Longrightarrow> map_option en_Version (GetEntry (nodeStore (gwNode g)) key) = Some v"
    "rs_Status resp = 412 \<Longrightarrow> map_option en_Version (GetEntry (nodeStore (gwNode g)) key) \<noteq> Some v \<and> nd_Model (gwNode g') = nd_Model (gwNode g)"
proof -
  have x: "expected r expect \<longleftrightarrow> expect = Some v" for expect
    using assms(2,3) by (auto simp: expected_def)
  have read: "matchesExpect (fmlookup (kv_store (nodeStore (gwNode g))) key) (unix (nodeNow (gwNode g))) v
      \<longleftrightarrow> map_option en_Version (GetEntry (nodeStore (gwNode g)) key) = Some v"
    using assms(4) by (simp add: matchesExpect_read split: option.split)
  show "map_option en_Version (GetEntry (nodeStore (gwNode g)) key) = Some v" if s: "rs_Status resp \<in> {204, 503}"
  proof -
    have "\<exists>body. stored env r key g (g', Some resp) body (Some v)"
      using handlePut_outcome [OF assms(1)] s x by auto
    then obtain body k n1 u where "0 \<le> k" "writeKey key body (k * second) (Some v) (gwNode g) = (n1, Inr u)"
      unfolding stored_def by auto
    from writeKey_stored(5) [OF this(2,1) refl refl] show ?thesis using read by simp
  qed
  show "map_option en_Version (GetEntry (nodeStore (gwNode g)) key) \<noteq> Some v \<and> nd_Model (gwNode g') = nd_Model (gwNode g)" if "rs_Status resp = 412"
    using put_412 [OF assms(1) that] x read handlePut_outcome [OF assms(1)] finishPut_frame(3) that unfolding stored_def by fastforce
qed

text \<open>
  An entity tag guards a write.  A client GETs a key and later PUTs it with the tag it was given as \<open>If-Match\<close>.  If that PUT is answered 204 or 503, the
  key had at that moment the very version the GET showed; if it is answered 412, it had not, and nothing was changed.  (The version is not the zero
  version, which stands for a missing key, and its node name does not end in a quotation mark, which the parser trims.)
\<close>

theorem put_if_match:
  assumes "kvRequest env ''GET'' key q" "snd (ServeHTTP env q g0) = Some got" "(''ETag'', tag) \<in> set (rs_Header got)"
    and "kvRequest env ''PUT'' key r" "condition r ''If-Match'' = Some tag" "ServeHTTP env r g = (g', Some resp)"
    and "GetEntry (nodeStore (gwNode g0)) key = Some e0" "\<not> Zero (en_Version e0)" "Node (en_Version e0) = '''' \<or> \<not> isQuote (last (Node (en_Version e0)))"
  shows "(rs_Status resp \<in> {204, 503} \<longrightarrow> map_option en_Version (GetEntry (nodeStore (gwNode g)) key) = Some (en_Version e0))
    \<and> (rs_Status resp = 412 \<longrightarrow> map_option en_Version (GetEntry (nodeStore (gwNode g)) key) \<noteq> Some (en_Version e0)
         \<and> nd_Model (gwNode g') = nd_Model (gwNode g))"
proof -
  have "parseVersion tag = Some (en_Version e0)"
    using parse_tag(1) [OF assms(9)] get_tag [OF assms(1-3,7)] by simp
  moreover have "handlePut env r key (countRequest g) = (g', Some resp)"
    using assms(4,6) kv_served(2) by simp
  ultimately show ?thesis
    using guarded_put [of env r key "countRequest g" g' resp tag "en_Version e0"] assms(5,8) by simp
qed

text \<open>
  \<open>If-Match: *\<close> asks, by the HTTP convention the code refers to, that the key exist; here it asks that it does not: of a key that reads at any version but zero it
  is never satisfied.
\<close>

lemma star_means_missing:
  "parseVersion ''*'' = Some (Version 0 '''')"
  "GetEntry kv key = Some e \<Longrightarrow> \<not> Zero (en_Version e) \<Longrightarrow> \<not> matchesExpect (fmlookup (kv_store kv) key) (unix (kv_now kv)) (the (parseVersion ''*''))"
proof -
  show p: "parseVersion ''*'' = Some (Version 0 '''')"
    by (simp add: parseVersion_def trimQuotes_def isQuote_def)
  show "GetEntry kv key = Some e \<Longrightarrow> \<not> Zero (en_Version e) \<Longrightarrow> \<not> matchesExpect (fmlookup (kv_store kv) key) (unix (kv_now kv)) (the (parseVersion ''*''))"
    by (auto simp: p matchesExpect_read Zero_def)
qed

section \<open>Durable writes\<close>

lemma MarkDirty_path [simp]: "pr_path (MarkDirty p) = pr_path p" "pr_lastGen (MarkDirty p) = pr_lastGen p"
  by (simp_all add: MarkDirty_def)

lemma writeKey_persister:
  assumes "writeKey key val ttl expect n = (n', res)" "md_persister (nd_Model n) = Some p"
  shows "md_persistGen (nd_Model n') = md_persistGen (nd_Model n)" "md_persister (nd_Model n') \<in> {Some p, Some (MarkDirty p)}"
  using assms by (auto simp: writeKey_def finishWrite_def withStore_def Let_def Persist_def addCount_def notify_def broadcast_def
      split: prod.splits sum.splits if_splits)

lemma flushNode_saves:
  assumes "flushNode J g = (r, g')" "md_persister (nd_Model (gwNode g)) = Some p"
  obtains w' where "SaveAt J (nodeNow (gwNode g) div 1000000) (md_persistGen (nd_Model (gwNode g)) + 1) (modelState (nd_Model (gwNode g))) (Epoch p)
      \<lparr>w_fs = gw_fs g, w_faults = gw_faults g, w_p = p\<rparr> = (r, w')" "gw_fs g' = w_fs w'"
    "md_persister (nd_Model (gwNode g')) = Some (w_p w')" "modelState (nd_Model (gwNode g')) = modelState (nd_Model (gwNode g))"
proof -
  let ?m = "nd_Model (gwNode g)"
  obtain r' w' where s: "SaveAt J (nodeNow (gwNode g) div 1000000) (md_persistGen ?m + 1) (modelState ?m) (Epoch p)
      \<lparr>w_fs = gw_fs g, w_faults = gw_faults g, w_p = p\<rparr> = (r', w')" by force
  then have "r' = r" "gw_fs g' = w_fs w'" "md_persister (nd_Model (gwNode g')) = Some (w_p w')"
      "nd_Model (gwNode g') = ?m\<lparr>md_persistGen := md_persistGen ?m + 1, md_persister := Some (w_p w')\<rparr>"
    using assms by (auto simp: flushNode_def Flush_def modelWriteState_def writeBegin_def writeEnd_def Let_def)
  then show ?thesis
    using that s by (simp add: modelState_def ChatLog_def ModelChatSeq_def)
qed

lemma flushNode_survives:
  assumes "json_ok J good" "live J good \<lparr>w_fs = gw_fs g, w_faults = gw_faults g, w_p = p\<rparr> s" "md_persister (nd_Model (gwNode g)) = Some p"
    and "pr_lastGen p \<le> md_persistGen (nd_Model (gwNode g))" "md_persistGen (nd_Model (gwNode g)) \<noteq> - 1"
    and "flushNode J g = (r, g')" "r \<noteq> Crash" "ph_Error (ModelHealth (nd_Model (gwNode g'))) = []" "good (modelState (nd_Model (gwNode g')))"
  shows "\<exists>found w. Load J ns \<lparr>w_fs = gw_fs g', w_faults = [], w_p = NewPersister (pr_path p)\<rparr> = (Loaded (modelState (nd_Model (gwNode g'))) found, w)"
    and "modelState (nd_Model (gwNode g')) = modelState (nd_Model (gwNode g))"
proof -
  let ?m = "nd_Model (gwNode g)" and ?w = "\<lparr>w_fs = gw_fs g, w_faults = gw_faults g, w_p = p\<rparr>"
  obtain w' where save: "SaveAt J (nodeNow (gwNode g) div 1000000) (md_persistGen ?m + 1) (modelState ?m) (Epoch p) ?w = (r, w')"
      and g': "gw_fs g' = w_fs w'" "md_persister (nd_Model (gwNode g')) = Some (w_p w')" "modelState (nd_Model (gwNode g')) = modelState ?m"
    using flushNode_saves [OF assms(6,3)] by metis
  have ok: "r = Ok"
    using assms(7,8) SaveAt_err [of J _ _ _ _ ?w w'] save g'(2) by (cases r) (auto simp: ModelHealth_def Health_def)
  have fresh: "md_persistGen ?m + 1 = 0 \<or> pr_lastGen (w_p ?w) < md_persistGen ?m + 1"
    using assms(4,5) by (simp add: word_less_inc)
  have ls: "view (synced J s) (w_fs ?w) (w_p ?w)" "good s" "\<not> pr_blocked (w_p ?w)"
    using live_synced [OF assms(1,2)] by auto
  have "view (synced J (modelState ?m)) (w_fs w') (w_p w')"
    using SaveAt_outcome [OF assms(1) ls(2) _ ls(1,3) fresh save] assms(9) g'(3) ok by simp
  moreover have "pr_path (w_p w') = pr_path p"
    using SaveAt_path [of J "nodeNow (gwNode g) div 1000000" "md_persistGen ?m + 1" "modelState ?m" "Epoch p" ?w] save by simp
  ultimately show "\<exists>found w. Load J ns \<lparr>w_fs = gw_fs g', w_faults = [], w_p = NewPersister (pr_path p)\<rparr> = (Loaded (modelState (nd_Model (gwNode g'))) found, w)"
    using restart_synced [of J "modelState ?m" w' ns] g' by (auto simp: restarted_def)
  show "modelState (nd_Model (gwNode g')) = modelState ?m" by (rule g'(3))
qed

lemma finishPut_durable:
  assumes "finishPut env r hs g = (g', Some resp)" "headerGet r ''X-Rezoagwe-Durability'' = ''durable''" "rs_Status resp = 204"
  obtains o1 where "flushNode (ge_json env) g = (o1, g')" "o1 \<noteq> Crash" "ph_Error (ModelHealth (nd_Model (gwNode g'))) = []"
    "(''X-Rezoagwe-Accepted'', ''durable'') \<in> set (rs_Header resp)"
  using assms by (auto simp: finishPut_def Let_def writeErr_def writeJSON_def writeHeader_def split: prod.splits outcome.splits if_splits)

text \<open>
  C8.  A durable acknowledgement is kept.  In every history of the state file (\<open>live\<close>), under I/O errors and kills anywhere, where a process goes on after a
  failed save only if that save had completed its record or left the files as they were: when a PUT that asked for durability is answered
  204, then a process that starts from the files as they are at that moment loads a state in which the key has exactly the bytes of the request under the
  version of the entity tag, and with it everything else the node held.
\<close>

theorem durable_put_survives:
  assumes "json_ok (ge_json env) good" "live (ge_json env) good \<lparr>w_fs = gw_fs g, w_faults = gw_faults g, w_p = p\<rparr> s"
    and "md_persister (nd_Model (gwNode g)) = Some p" "pr_lastGen p \<le> md_persistGen (nd_Model (gwNode g))" "md_persistGen (nd_Model (gwNode g)) \<noteq> - 1"
    and "kvRequest env ''PUT'' key r" "headerGet r ''X-Rezoagwe-Durability'' = ''durable''"
    and "ServeHTTP env r g = (g', Some resp)" "rs_Status resp = 204" "good (modelState (nd_Model (gwNode g')))"
  shows "\<exists>found w e body. Load (ge_json env) ns \<lparr>w_fs = gw_fs g', w_faults = [], w_p = NewPersister (pr_path p)\<rparr>
        = (Loaded (modelState (nd_Model (gwNode g'))) found, w)
     \<and> readBody r = Inr body \<and> fmlookup (ps_Entries (modelState (nd_Model (gwNode g')))) key = Some e \<and> e_Value e = body \<and> \<not> e_Deleted e
     \<and> (''ETag'', quoteTag (e_Version e)) \<in> set (rs_Header resp) \<and> (''X-Rezoagwe-Accepted'', ''durable'') \<in> set (rs_Header resp)"
proof -
  let ?J = "ge_json env" and ?m' = "nd_Model (gwNode g')"
  have h: "handlePut env r key (countRequest g) = (g', Some resp)"
    using assms(6,8) kv_served(2) by simp
  obtain body expect where "stored env r key (countRequest g) (g', Some resp) body expect"
    using handlePut_outcome [OF h] assms(9) by auto
  then obtain k n1 u where st: "readBody r = Inr body" "0 \<le> k" "writeKey key body (k * second) expect (gwNode (countRequest g)) = (n1, Inr u)"
      and fin: "finishPut env r [(''ETag'', quoteTag (u_Version u))] (setNode n1 (countRequest g)) = (g', Some resp)"
    unfolding stored_def by auto
  obtain o1 where o1: "flushNode ?J (setNode n1 (countRequest g)) = (o1, g')" "o1 \<noteq> Crash" "ph_Error (ModelHealth ?m') = []"
      "(''X-Rezoagwe-Accepted'', ''durable'') \<in> set (rs_Header resp)"
    using finishPut_durable [OF fin assms(7,9)] by metis
  have p1: "md_persistGen (nd_Model n1) = md_persistGen (nd_Model (gwNode g))" "md_persister (nd_Model n1) \<in> {Some p, Some (MarkDirty p)}"
    using writeKey_persister [OF st(3), of p] assms(3) by simp_all
  then obtain p1 where p1': "md_persister (nd_Model n1) = Some p1" "p1 \<in> {p, MarkDirty p}" by auto
  have "live ?J good \<lparr>w_fs = gw_fs g, w_faults = gw_faults g, w_p = p1\<rparr> s"
    using assms(2) live_dirty [OF assms(2)] p1'(2) by auto
  note fl = flushNode_survives [OF assms(1) _ _ _ _ o1(1-3) assms(10), simplified, OF this p1'(1), unfolded p1(1)]
  have same: "modelState ?m' = modelState (nd_Model n1)"
    and load: "\<exists>found w. Load ?J ns \<lparr>w_fs = gw_fs g', w_faults = [], w_p = NewPersister (pr_path p)\<rparr> = (Loaded (modelState ?m') found, w)"
    using fl(1) [of ns] fl(2) assms(4,5) p1'(2) by auto
  have entry: "GetEntry (nodeStore n1) key = Some \<lparr>en_Key = key, en_Value = body, en_Version = u_Version u, en_Deleted = False, en_ExpiresAt = u_ExpiresAt u\<rparr>"
    using writeKey_stored(1) [OF st(3,2) refl] .
  then obtain e where e: "fmlookup (kv_store (nodeStore n1)) key = Some e" "e_Value e = body" "e_Version e = u_Version u" "\<not> e_Deleted e"
    by (auto simp: GetEntry_def visible_def split: option.splits if_splits)
  have "ps_Entries (modelState ?m') = kv_store (nodeStore n1)"
    using same by (simp add: modelState_def State_def)
  moreover have "(''ETag'', quoteTag (e_Version e)) \<in> set (rs_Header resp)"
    using finishPut_frame(4) [OF fin] e(3) by simp
  ultimately show ?thesis
    using load st(1) e o1(4) by (metis prod.collapse)
qed

section \<open>An instance\<close>

definition demo_persister :: Persister where
  "demo_persister = (NewPersister ''f'')\<lparr>pr_mode := ''journal-sync'', pr_health := (pr_health (NewPersister ''f''))\<lparr>ph_Mode := ''journal-sync''\<rparr>\<rparr>"

definition demo_gw_node :: Node where
  "demo_gw_node = New demo_hmac ''s'' ''u'' demo_cfg ((newModel demo_config)\<lparr>md_NodeID := ''n1'', md_Store := SetOnChange (NewKVStore ''n1'' 0), md_persister := Some demo_persister\<rparr>)"

definition demo_gateway :: gateway where
  "demo_gateway = \<lparr>gw_rep = \<lparr>rs_node = demo_gw_node, rs_plans = fmempty\<rparr>, gw_snaps = \<lparr>dir_files = fmempty, dir_subdirs = {||}\<rparr>, gw_fs = fmempty, gw_faults = []\<rparr>"

definition demo_env :: "string \<Rightarrow> bool \<Rightarrow> gatewayEnv" where
  "demo_env token readonly = \<lparr>ge_Token = token, ge_ReadOnly = readonly, ge_mux = (\<lambda>_. None),
     ge_text = \<lparr>tf_trim = (\<lambda>s. s), tf_lower = (\<lambda>s. s), tf_fold = (=)\<rparr>, ge_sha = (\<lambda>_. 0), ge_json = demo_json, ge_keys = (\<lambda>_. None), ge_preview = (\<lambda>_. None),
     ge_plan = (\<lambda>_. None), ge_restore = (\<lambda>_. None), ge_apply = (\<lambda>_. None), ge_import = (\<lambda>_. None), ge_marshal = (\<lambda>_. None), ge_uuid = ''u'',
     ge_net = (\<lambda>_. demo_exchange), ge_os = \<lparr>os_mkdir = True, os_write = True, os_rename = True, os_readDir = True, os_remove = (\<lambda>_. True)\<rparr>,
     ge_stamp = (\<lambda>_. ''t''), ge_snap = \<lparr>sn_Dir = '''', sn_Interval = 0, sn_Keep = 0\<rparr>,
     ge_diag = \<lparr>de_LocalIPv4 = '''', de_PSKSet = True, de_UptimeSec = 0, de_StreamListener = True, de_MDNS = False, de_AdvertiseMismatch = '''', de_packetsOut = (\<lambda>_. 0),
       de_LastSendError = None, de_GossipLateMax = 0, de_GossipRoundMax = 0, de_HeartbeatInterval = 0\<rparr>\<rparr>"

definition demo_put :: "string \<Rightarrow> string \<Rightarrow> httpRequest" where
  "demo_put name val = \<lparr>rq_Method = ''PUT'', rq_Path = ''/kv/k'', rq_Query = [], rq_Header = [name \<mapsto> [val]], rq_Body = (''v'', None)\<rparr>"

definition demo_get :: httpRequest where
  "demo_get = \<lparr>rq_Method = ''GET'', rq_Path = ''/kv/k'', rq_Query = [], rq_Header = (\<lambda>_. None), rq_Body = ('''', None)\<rparr>"

lemmas header_eval = headerGet_def condition_def CanonicalMIMEHeaderKey_def asciiUpper_def asciiLower_def byte_def

lemma demo_headers [simp]:
  "condition (demo_put ''X-Rezoagwe-Durability'' ''durable'') ''If-Match'' = None"
  "headerGet (demo_put ''X-Rezoagwe-Durability'' ''durable'') ''X-Rezoagwe-Durability'' = ''durable''"
  "headerGet (demo_put ''X-Rezoagwe-Durability'' ''durable'') ''X-Rezoagwe-TTL'' = ''''"
  "condition (demo_put ''If-Match'' val) ''If-Match'' = Some val"
  "headerGet (demo_put ''If-Match'' val) ''X-Rezoagwe-Durability'' = ''''"
  "headerGet (demo_put ''If-Match'' val) ''X-Rezoagwe-TTL'' = ''''"
  "headerGet demo_get name = ''''"
  by (simp_all add: demo_put_def demo_get_def header_eval)

lemma demo_request [simp]: "kvRequest (demo_env '''' False) ''PUT'' ''k'' (demo_put name val)" "kvRequest (demo_env '''' False) ''GET'' ''k'' demo_get"
  "readBody (demo_put name val) = Inr ''v''"
  by (simp_all add: kvRequest_def admitted_def demo_env_def demo_put_def demo_get_def readBody_def maxBody_def)

definition demo_written :: Node where
  "demo_written = fst (writeKey ''k'' ''v'' 0 None (gwNode (countRequest demo_gateway)))"

definition demo_update :: KVUpdate where
  "demo_update = \<lparr>u_Action = KVSet, u_Key = ''k'', u_Value = ''v'', u_Version = Version 1 ''n1'', u_ExpiresAt = 0, u_DeletedAt = 0\<rparr>"

lemma demo_gw_store: "nodeStore (gwNode (countRequest demo_gateway)) = SetOnMutate (SetLimits \<lparr>MaxValueBytes = 0, MaxKeys = 0\<rparr> (SetOnChange (NewKVStore ''n1'' 0)))"
  "nd_Model (gwNode demo_gateway) = nd_Model demo_gw_node"
  by (simp_all add: demo_gateway_def demo_gw_node_def New_def demo_cfg_def)

lemma demo_gw_write: "writeKey ''k'' ''v'' 0 None (gwNode (countRequest demo_gateway)) = (demo_written, Inr demo_update)"
proof -
  have "snd (writeKey ''k'' ''v'' 0 None (gwNode (countRequest demo_gateway))) = Inr demo_update"
    unfolding writeKey_def withStore_def demo_gw_store
    by (simp add: finishWrite_def Write_def SetOnMutate_def SetLimits_def SetOnChange_def eval_store demo_update_def)
  then show ?thesis by (metis demo_written_def prod.collapse)
qed

lemma demo_written_model: "modelState (nd_Model demo_written) = demo_saved" "md_persister (nd_Model demo_written) = Some (MarkDirty demo_persister)"
  "md_persistGen (nd_Model demo_written) = 0"
proof -
  let ?kv = "SetOnMutate (SetLimits \<lparr>MaxValueBytes = 0, MaxKeys = 0\<rparr> (SetOnChange (NewKVStore ''n1'' 0)))"
  define kv where "kv = fst (mutate ?kv ''k'' ''v'' False (zero_WriteOptions\<lparr>o_Expect := None, o_ExpiresAt := 0\<rparr>))"
  have s: "kv_store kv = ps_Entries demo_saved" "kv_clock kv = 1"
    unfolding kv_def by (simp_all add: SetOnMutate_def SetLimits_def SetOnChange_def eval_store demo_saved_def)
  have m: "nd_Model demo_written = Persist ((nd_Model demo_gw_node)\<lparr>md_Store := kv\<rparr>)"
    unfolding demo_written_def writeKey_def withStore_def demo_gw_store kv_def
    by (simp add: finishWrite_def Write_def SetOnMutate_def SetLimits_def SetOnChange_def eval_store addCount_def notify_def broadcast_def demo_gw_store)
  show "modelState (nd_Model demo_written) = demo_saved" "md_persister (nd_Model demo_written) = Some (MarkDirty demo_persister)"
      "md_persistGen (nd_Model demo_written) = 0"
    unfolding m by (simp_all add: modelState_def State_def s Persist_def demo_gw_node_def New_def newModel_def ChatLog_def ModelChatSeq_def demo_saved_def)
qed

abbreviation (input) demo_durable :: httpRequest where
  "demo_durable \<equiv> demo_put ''X-Rezoagwe-Durability'' ''durable''"

definition demo_stored :: gateway where
  "demo_stored = setNode demo_written (countRequest demo_gateway)"

lemma demo_stored_fields: "gwNode demo_stored = demo_written" "gw_fs demo_stored = fmempty" "gw_faults demo_stored = []"
  by (simp_all add: demo_stored_def countRequest_def demo_gateway_def setNode_def)

lemma demo_live: "live demo_json demo_good \<lparr>w_fs = fmempty, w_faults = [], w_p = demo_persister\<rparr> zeroState"
proof -
  have "live demo_json demo_good \<lparr>w_fs = fmempty, w_faults = [], w_p = NewPersister ''f''\<rparr> zeroState"
    by (rule live_new) simp_all
  from live_mode [OF this, of "''journal-sync''" demo_persister] show ?thesis
    by (simp add: SetDurability_def demo_persister_def)
qed

lemma demo_flush: "\<exists>g'. flushNode demo_json demo_stored = (Ok, g') \<and> \<not> ph_Pending (ModelHealth (nd_Model (gwNode g')))
    \<and> ph_Durable (ModelHealth (nd_Model (gwNode g'))) \<and> ph_Error (ModelHealth (nd_Model (gwNode g'))) = []"
proof -
  let ?w = "\<lparr>w_fs = fmempty, w_faults = [], w_p = MarkDirty demo_persister\<rparr>"
  obtain r g' where f: "flushNode demo_json demo_stored = (r, g')" by force
  obtain w' where s: "SaveAt demo_json (nodeNow demo_written div 1000000) 1 demo_saved (Epoch (MarkDirty demo_persister)) ?w = (r, w')"
      "md_persister (nd_Model (gwNode g')) = Some (w_p w')"
    using flushNode_saves [OF f] by (auto simp: demo_stored_fields demo_written_model)
  have "r = Ok"
    using s(1) by (simp add: demo_run syncDirectory_def demo_persister_def)
  moreover have "\<not> ph_Pending (Health (w_p w')) \<and> ph_Durable (Health (w_p w')) \<and> ph_Error (Health (w_p w')) = []"
    using SaveAt_report [OF s(1)] \<open>r = Ok\<close> by (simp add: demo_persister_def NewPersister_def MarkDirty_def)
  ultimately show ?thesis
    using f s(2) by (simp add: ModelHealth_def)
qed

lemma demo_served: "\<exists>g' resp. ServeHTTP (demo_env '''' False) demo_durable demo_gateway = (g', Some resp) \<and> rs_Status resp = 204
    \<and> modelState (nd_Model (gwNode g')) = demo_saved"
proof -
  obtain g' where f: "flushNode demo_json demo_stored = (Ok, g')" "\<not> ph_Pending (ModelHealth (nd_Model (gwNode g')))"
      "ph_Durable (ModelHealth (nd_Model (gwNode g')))" "ph_Error (ModelHealth (nd_Model (gwNode g'))) = []"
    using demo_flush by blast
  have m: "modelState (nd_Model (gwNode g')) = demo_saved"
    using flushNode_saves [OF f(1), of "MarkDirty demo_persister"] by (simp add: demo_stored_fields demo_written_model)
  have mode: "ph_Mode (ModelHealth (nd_Model (gwNode demo_gateway))) = ''journal-sync''"
    by (simp add: demo_gw_store demo_gw_node_def New_def ModelHealth_def Health_def demo_persister_def)
  have j: "ge_json (demo_env '''' False) = demo_json" by (simp add: demo_env_def)
  have "ServeHTTP (demo_env '''' False) demo_durable demo_gateway = handlePut (demo_env '''' False) demo_durable ''k'' (countRequest demo_gateway)"
    by (rule kv_served(2)) simp
  also have "\<dots> = finishPut (demo_env '''' False) demo_durable [(''ETag'', quoteTag (u_Version demo_update))] demo_stored"
    by (simp add: handlePut_def Let_def mode putTTL_def NodeSet_def demo_gw_write storePut_def demo_stored_def)
  finally show ?thesis
    using f m by (simp add: finishPut_def Let_def j writeHeader_def)
qed

theorem durable_put_survives_witness:
  "\<exists>g' resp found w. ServeHTTP (demo_env '''' False) demo_durable demo_gateway = (g', Some resp) \<and> rs_Status resp = 204
     \<and> Load demo_json 0 \<lparr>w_fs = gw_fs g', w_faults = [], w_p = NewPersister ''f''\<rparr> = (Loaded demo_saved found, w)"
proof -
  obtain g' resp where s: "ServeHTTP (demo_env '''' False) demo_durable demo_gateway = (g', Some resp)" "rs_Status resp = 204"
      "modelState (nd_Model (gwNode g')) = demo_saved"
    using demo_served by blast
  have j: "ge_json (demo_env '''' False) = demo_json" by (simp add: demo_env_def)
  have p: "md_persister (nd_Model (gwNode demo_gateway)) = Some demo_persister" "md_persistGen (nd_Model (gwNode demo_gateway)) = 0"
      "gw_fs demo_gateway = fmempty" "gw_faults demo_gateway = []"
    by (simp_all add: demo_gw_store demo_gw_node_def New_def) (simp_all add: demo_gateway_def)
  have q: "pr_path demo_persister = ''f''" "pr_lastGen demo_persister = 0"
    by (simp_all add: demo_persister_def NewPersister_def)
  note use = durable_put_survives [of "demo_env '''' False" demo_good demo_gateway demo_persister zeroState "''k''" demo_durable g' resp 0]
  show ?thesis
    using use s demo_json_ok demo_live by (auto simp: j p q demo_good_def)
qed

theorem put_tells_truth_witness:
  "\<exists>g' resp got. ServeHTTP (demo_env '''' False) demo_durable demo_gateway = (g', Some resp)
     \<and> snd (ServeHTTP (demo_env '''' False) demo_get g') = Some got \<and> rs_Body got = TextBody ''v''"
proof -
  obtain g' resp where s: "ServeHTTP (demo_env '''' False) demo_durable demo_gateway = (g', Some resp)" "rs_Status resp = 204"
    using demo_served by blast
  from put_tells_truth [OF _ s(1), of "''k''"] s(2) obtain got where
      "snd (ServeHTTP (demo_env '''' False) demo_get g') = Some got" "rs_Body got = TextBody ''v''"
    by (auto dest!: spec [of _ demo_get])
  with s(1) show ?thesis by blast
qed

theorem put_if_match_witness:
  "\<exists>got tag resp. snd (ServeHTTP (demo_env '''' False) demo_get demo_stored) = Some got \<and> (''ETag'', tag) \<in> set (rs_Header got)
     \<and> snd (ServeHTTP (demo_env '''' False) (demo_put ''If-Match'' tag) demo_gateway) = Some resp \<and> rs_Status resp = 412
     \<and> nd_Model (gwNode (fst (ServeHTTP (demo_env '''' False) (demo_put ''If-Match'' tag) demo_gateway))) = nd_Model (gwNode demo_gateway)"
proof -
  let ?env = "demo_env '''' False" and ?tag = "quoteTag (Version 1 ''n1'')"
  let ?e = "\<lparr>en_Key = ''k'', en_Value = ''v'', en_Version = Version 1 ''n1'', en_Deleted = False, en_ExpiresAt = 0\<rparr>"
  have e: "GetEntry (nodeStore (gwNode demo_stored)) ''k'' = Some ?e"
    using writeKey_stored(1) [of "''k''" "''v''" 0 None _ demo_written demo_update 0] demo_gw_write by (simp add: demo_stored_fields demo_update_def)
  obtain got where got: "snd (ServeHTTP ?env demo_get demo_stored) = Some got" "(''ETag'', ?tag) \<in> set (rs_Header got)"
    using get_response [of ?env "''k''" demo_get demo_stored, OF _ e] by auto
  have v: "Node (Version 1 ''n1'') = '''' \<or> \<not> isQuote (last (Node (Version 1 ''n1'')))" by (simp add: isQuote_def)
  have "\<exists>n1. CompareAndSet ''k'' ''v'' 0 (Version 1 ''n1'') (gwNode (countRequest demo_gateway)) = (n1, Inl ErrVersionMismatch)"
    unfolding CompareAndSet_def writeKey_def withStore_def demo_gw_store
    by (simp add: finishWrite_def Write_def SetOnMutate_def SetLimits_def SetOnChange_def eval_store matchesExpect_def Zero_def)
  then obtain n1 where "CompareAndSet ''k'' ''v'' 0 (Version 1 ''n1'') (gwNode (countRequest demo_gateway)) = (n1, Inl ErrVersionMismatch)" by blast
  then have put: "\<exists>g' resp. ServeHTTP ?env (demo_put ''If-Match'' ?tag) demo_gateway = (g', Some resp) \<and> rs_Status resp = 412"
    by (simp add: kv_served(2) [of ?env "''k''"] handlePut_def Let_def putTTL_def parse_tag(1) [OF v] storePut_def writeRefusal_def writeErr_def writeJSON_def)
  then obtain g' resp where p: "ServeHTTP ?env (demo_put ''If-Match'' ?tag) demo_gateway = (g', Some resp)" "rs_Status resp = 412" by blast
  have "nd_Model (gwNode g') = nd_Model (gwNode demo_gateway)"
    using put_if_match [of ?env "''k''" demo_get demo_stored got ?tag "demo_put ''If-Match'' ?tag", OF _ got _ _ p(1) e] p(2) v
    by (simp add: Zero_def)
  then show ?thesis
    using got p by (intro exI [of _ got] exI [of _ ?tag] exI [of _ resp]) simp
qed

theorem gateway_access_witness:
  "map_option rs_Status (snd (ServeHTTP (demo_env ''t'' False) demo_get demo_gateway)) = Some 401
   \<and> sameState demo_gateway (fst (ServeHTTP (demo_env '''' True) (demo_put ''If-Match'' ''x'') demo_gateway))
   \<and> map_option rs_Status (snd (ServeHTTP (demo_env '''' True) (demo_put ''If-Match'' ''x'') demo_gateway)) \<in> {Some 401, Some 403}"
proof -
  have t: "presentedToken demo_get \<noteq> ''t''" by (simp add: presentedToken_def HasPrefix_def)
  have e: "ge_Token (demo_env x b) = x" "ge_ReadOnly (demo_env x b) = b" for x b by (simp_all add: demo_env_def)
  have m: "rq_Method (demo_put ''If-Match'' ''x'') = ''PUT''" by (simp add: demo_put_def)
  show ?thesis
    using gateway_access [of "demo_env ''t'' False" demo_get demo_gateway] gateway_access [of "demo_env '''' True" "demo_put ''If-Match'' ''x''" demo_gateway] t
    by (simp add: e m)
qed

end
