(* ===== verification/GatewayReads.thy ===== *)
theory GatewayReads
  imports Gateway
begin

text \<open>
  Reading through the gateway: the pages of a listing, the preview of a value, and the event stream of a watch, whose loop runs beside everything else
  that publishes to the node's watchers.
\<close>

section \<open>Pages\<close>

definition pageRequest :: "httpRequest \<Rightarrow> string \<Rightarrow> nat \<Rightarrow> nat \<Rightarrow> httpRequest" where
  "pageRequest r pre limit offset = r\<lparr>rq_Method := ''GET'', rq_Path := ''/kv'',
     rq_Query := [(''prefix'', pre), (''limit'', decimalNat limit), (''offset'', decimalNat offset)]\<rparr>"

definition pageItems :: "httpResponse option \<Rightarrow> kvItem list" where
  "pageItems resp = (case resp of Some x \<Rightarrow> (case rs_Body x of PageBody items _ _ _ \<Rightarrow> items | _ \<Rightarrow> []) | None \<Rightarrow> [])"

lemma Atoi_decimal: "int n < 2 ^ 63 \<Longrightarrow> Atoi (decimalNat n) = Some (int n)"
proof -
  assume n: "int n < 2 ^ 63"
  have d: "decimalNat n \<noteq> ''''" "list_all isDigit (decimalNat n)" "digitsVal (decimalNat n) = int n"
    using decimalNat_digits [of n] by simp_all
  have "isDigit (hd (decimalNat n))" using d(1,2) by (cases "decimalNat n") simp_all
  then have "hd (decimalNat n) \<noteq> CHR ''-''" "hd (decimalNat n) \<noteq> CHR ''+''"
    by (auto simp: isDigit_def byte_def)
  then show ?thesis
    using d n by (simp add: Atoi_def Let_def)
qed

lemma page_served:
  assumes "admitted env (pageRequest r pre limit offset)" "1 \<le> limit" "limit \<le> 500" "int offset < 2 ^ 63"
  shows "pageItems (snd (ServeHTTP env (pageRequest r pre limit offset) g)) = take limit (drop offset (listItems pre (gwNode g)))"
proof -
  let ?r = "pageRequest r pre limit offset" and ?items = "listItems pre (gwNode g)"
  have q: "queryGet ?r ''prefix'' = pre" "queryGet ?r ''watch'' = ''''" "queryGet ?r ''limit'' = decimalNat limit"
      "queryGet ?r ''offset'' = decimalNat offset" "queryGet ?r ''preview'' = ''''" "queryHas ?r ''limit''"
    by (simp_all add: queryGet_def queryHas_def pageRequest_def)
  have "muxRoute ?r = Inr ListR"
    by (simp add: muxRoute_def gatewayMux_def HasPrefix_def methodMatches_def pageRequest_def)
  then have s: "snd (ServeHTTP env ?r g) = Some (listPage ?r (listItems pre (gwNode (countRequest g))))"
    using served [OF assms(1)] by (simp add: handleRoute_def handleList_def q)
  have a: "Atoi (decimalNat limit) = Some (int limit)" "Atoi (decimalNat offset) = Some (int offset)" "decimalNat offset \<noteq> ''''"
    using assms(3,4) Atoi_decimal [of limit] Atoi_decimal [of offset] decimalNat_digits [of offset] by simp_all
  have same: "listItems pre (gwNode (countRequest g)) = ?items" by (simp add: listItems_def)
  have cut: "take (nat ((if o' + l > tot then tot else o' + l) - o')) (drop (nat o') xs) = take limit (drop offset xs)"
    if "tot = int (length xs)" "o' = (if int offset > tot then tot else int offset)" "l = int limit" for tot o' l and xs :: "kvItem list"
  proof (cases "offset < length xs")
    case True
    then have "nat ((if o' + l > tot then tot else o' + l) - o') = min limit (length xs - offset)" "nat o' = offset"
      using that by (auto simp: min_def)
    then show ?thesis by (auto simp: min_def)
  next
    case False
    then show ?thesis using that by auto
  qed
  show ?thesis
    using assms(2,3) cut [OF refl refl refl, of ?items]
    by (simp add: s same listPage_def q a pageItems_def writeJSON_def Let_def)
qed

lemma concat_pages: "concat (map (\<lambda>i. take n (drop (i * n) xs)) [0..<m]) = take (m * n) xs"
proof (induction m)
  case (Suc m)
  have "take (Suc m * n) xs = take (m * n) xs @ take n (drop (m * n) xs)"
    by (metis add.commute mult_Suc take_add)
  then show ?case using Suc by simp
qed simp

lemma listItems_keys: "map it_Key (listItems pre n) = filter (\<lambda>k. HasPrefix k pre \<and> Get (nodeStore n) k \<noteq> None) (fmkeys (kv_store (nodeStore n)))"
proof -
  let ?kv = "nodeStore n"
  have p: "(pre = '''' \<or> HasPrefix k pre) = HasPrefix k pre" for k by (auto simp: HasPrefix_def)
  have v: "visible e (unix (kv_now ?kv)) \<longleftrightarrow> Get ?kv k \<noteq> None" if "(k, e) \<in> set (fmentries (kv_store ?kv))" for k e
    using that by (simp add: set_fmentries Get_def)
  have "map it_Key (listItems pre n) = map fst (filter (\<lambda>(k, e). HasPrefix k pre) (filter (\<lambda>(k, e). visible e (unix (kv_now ?kv))) (fmentries (kv_store ?kv))))"
    by (simp add: listItems_def Entries_def filter_map o_def listItem_def p case_prod_beta)
  also have "\<dots> = map fst (filter (\<lambda>x. HasPrefix (fst x) pre \<and> Get ?kv (fst x) \<noteq> None) (fmentries (kv_store ?kv)))"
    using v by (auto intro!: arg_cong [where f = "map fst"] filter_cong simp: case_prod_beta)
  also have "\<dots> = filter (\<lambda>k. HasPrefix k pre \<and> Get ?kv k \<noteq> None) (map fst (fmentries (kv_store ?kv)))"
    by (simp only: filter_map o_def)
  finally show ?thesis by simp
qed

text \<open>
  Paging through a listing.  With a limit of 1 to 500, the pages at offsets 0, limit, 2 * limit and so on, put together, are every key with the prefix that can be
  read, each once and in order of the key, with its value and version.
\<close>

theorem list_pages_cover:
  assumes "\<And>offset. admitted env (pageRequest r pre limit offset)" "1 \<le> limit" "limit \<le> 500" "int (length (listItems pre (gwNode g))) < 2 ^ 62"
  shows "let items = listItems pre (gwNode g); pages = (length items + limit - 1) div limit in
      concat (map (\<lambda>i. pageItems (snd (ServeHTTP env (pageRequest r pre limit (i * limit)) g))) [0..<pages]) = items
    \<and> map it_Key items = filter (\<lambda>k. HasPrefix k pre \<and> Get (nodeStore (gwNode g)) k \<noteq> None) (fmkeys (kv_store (nodeStore (gwNode g))))"
proof -
  let ?items = "listItems pre (gwNode g)"
  let ?pages = "(length ?items + limit - 1) div limit"
  have "?pages * limit \<le> length ?items + limit - 1" by (rule div_times_less_eq_dividend)
  then have small: "int (i * limit) < 2 ^ 63" if "i < ?pages" for i
  proof -
    have "i * limit \<le> ?pages * limit" using that by simp
    then have "i * limit \<le> length ?items + 500" using \<open>?pages * limit \<le> _\<close> assms(3) by linarith
    then have "int (i * limit) \<le> int (length ?items) + 500" by linarith
    then show ?thesis using assms(4) by simp
  qed
  have "length ?items \<le> ?pages * limit"
  proof -
    have "(length ?items + limit - 1) mod limit < limit" using assms(2) by simp
    moreover have "?pages * limit + (length ?items + limit - 1) mod limit = length ?items + limit - 1" by (rule div_mult_mod_eq)
    ultimately show ?thesis using assms(2) by linarith
  qed
  then have "concat (map (\<lambda>i. take limit (drop (i * limit) ?items)) [0..<?pages]) = ?items"
    by (simp add: concat_pages)
  moreover have "map (\<lambda>i. pageItems (snd (ServeHTTP env (pageRequest r pre limit (i * limit)) g))) [0..<?pages] = map (\<lambda>i. take limit (drop (i * limit) ?items)) [0..<?pages]"
    by (rule map_cong [OF refl], rule page_served [OF assms(1-3)], rule small) simp
  ultimately have c: "concat (map (\<lambda>i. pageItems (snd (ServeHTTP env (pageRequest r pre limit (i * limit)) g))) [0..<?pages]) = ?items"
    by (simp only:)
  show ?thesis
    using c listItems_keys [of pre "gwNode g"] by (simp only: Let_def simp_thms)
qed

text \<open>A preview is the longest valid beginning of the first 512 bytes, and valid for a client to decode.\<close>

lemma trimValid_valid: "ValidString (trimValid v) \<and> prefix (trimValid v) v"
proof (induction v rule: trimValid.induct)
  case (1 v)
  then show ?case
    by (subst (1 2) trimValid.simps) (auto intro: prefix_order.trans prefixeq_butlast)
qed

lemma previewItem_valid:
  assumes "ValidString (it_Value i)"
  shows "ValidString (it_Value (previewItem i))" "prefix (it_Value (previewItem i)) (it_Value i)" "length (it_Value (previewItem i)) \<le> 512"
    "it_Truncated i \<or> it_Truncated (previewItem i) = (it_Value (previewItem i) \<noteq> it_Value i)"
proof -
  let ?cut = "trimValid (take 512 (it_Value i))"
  have t: "ValidString ?cut" "prefix ?cut (take 512 (it_Value i))" using trimValid_valid by simp_all
  then have p: "prefix ?cut (it_Value i)" "length ?cut \<le> 512"
    using prefix_length_le [OF t(2)] by (auto intro: prefix_order.trans take_is_prefix)
  have "512 < length (it_Value i) \<Longrightarrow> ?cut \<noteq> it_Value i" using p(2) by auto
  then show "ValidString (it_Value (previewItem i))" "prefix (it_Value (previewItem i)) (it_Value i)" "length (it_Value (previewItem i)) \<le> 512"
      "it_Truncated i \<or> it_Truncated (previewItem i) = (it_Value (previewItem i) \<noteq> it_Value i)"
    using assms t(1) p by (auto simp: previewItem_def)
qed

section \<open>Watching over HTTP\<close>

text \<open>
  A stream beside the rest of the program: every other step of the hub (publishing, other watchers) that neither takes from nor closes this stream's watcher,
  and the turns of the stream's own loop, which are the only ones to receive from it.
\<close>

record streamSys =
  ss_sys :: watchSys
  ss_ws :: watchStream

definition taken :: "watchCase \<Rightarrow> watchHub \<Rightarrow> watchStream \<Rightarrow> KVEvent list" where
  "taken what hub ws = (if ws_open ws \<and> (\<exists>b. what = FromWatcher b)
     then (case receive (ws_watcher ws) hub of Some (ev, _) \<Rightarrow> [ev] | None \<Rightarrow> []) else [])"

inductive stream_step :: "(string \<Rightarrow> 256 word) \<Rightarrow> streamSys \<Rightarrow> streamSys \<Rightarrow> bool" for sha where
  others_step: "hub_step sha (ss_sys t) s' \<Longrightarrow> hs_got s' (ws_watcher (ss_ws t)) = hs_got (ss_sys t) (ws_watcher (ss_ws t)) \<Longrightarrow>
    map_option wa_closed (fmlookup (wh_objects (hs_hub s')) (ws_watcher (ss_ws t))) =
      map_option wa_closed (fmlookup (wh_objects (hs_hub (ss_sys t))) (ws_watcher (ss_ws t))) \<Longrightarrow>
    stream_step sha t (t\<lparr>ss_sys := s'\<rparr>)"
| loop_step: "watchLoop sha what (hs_hub (ss_sys t), ss_ws t) = (hub', ws') \<Longrightarrow>
    stream_step sha t \<lparr>ss_sys = (ss_sys t)\<lparr>hs_hub := hub', hs_got := (hs_got (ss_sys t))(ws_watcher (ss_ws t) :=
        hs_got (ss_sys t) (ws_watcher (ss_ws t)) @ taken what (hs_hub (ss_sys t)) (ss_ws t))\<rparr>, ss_ws = ws'\<rparr>"

definition sseEvents :: "streamOut list \<Rightarrow> streamOut list" where
  "sseEvents out = filter (\<lambda>x. \<exists>c ev. x = SseKV c ev) out"

definition sentEvents :: "(string \<Rightarrow> 256 word) \<Rightarrow> string \<Rightarrow> KVEvent list \<Rightarrow> streamOut list" where
  "sentEvents sha pre evs = map (\<lambda>ev. SseKV (Token sha pre (ev_ID ev)) ev) evs"

lemma sse_simps [simp]: "sseEvents (xs @ ys) = sseEvents xs @ sseEvents ys" "sseEvents [] = []" "sseEvents [SseKV c ev] = [SseKV c ev]"
  "sseEvents [SsePing] = []" "sseEvents [SseDropped d, SseResnapshot] = []" "sseEvents [SseReady c] = []" "sseEvents [SseSnapshot c is] = []"
  "sseEvents (sentEvents sha pre evs) = sentEvents sha pre evs"
  by (simp_all add: sseEvents_def sentEvents_def)

lemma sent_append [simp]: "sentEvents sha pre (xs @ ys) = sentEvents sha pre xs @ sentEvents sha pre ys" "sentEvents sha pre [ev] = [SseKV (Token sha pre (ev_ID ev)) ev]"
  "sentEvents sha pre [] = []"
  by (simp_all add: sentEvents_def)

text \<open>The turns of the loop, as steps of the hub.\<close>

lemma loop_hub:
  assumes "watchLoop sha what (hs_hub s, ws) = (hub', ws')"
  shows "hub_run sha s (s\<lparr>hs_hub := hub', hs_got := (hs_got s)(ws_watcher ws := hs_got s (ws_watcher ws) @ taken what (hs_hub s) ws)\<rparr>)"
proof -
  let ?i = "ws_watcher ws"
  have stay: "s\<lparr>hs_hub := hs_hub s, hs_got := (hs_got s)(?i := hs_got s ?i)\<rparr> = s" by simp
  have close: "hub_run sha s (s\<lparr>hs_hub := CloseWatcher ?i (hs_hub s)\<rparr>)" for s
    by (rule hub_next [OF hub_refl close_step])
  have rec: "hub_run sha s (s\<lparr>hs_hub := h1, hs_got := (hs_got s)(?i := hs_got s ?i @ [ev])\<rparr>)"
      "hub_run sha s (s\<lparr>hs_hub := CloseWatcher ?i h1, hs_got := (hs_got s)(?i := hs_got s ?i @ [ev])\<rparr>)" if "receive ?i (hs_hub s) = Some (ev, h1)" for ev h1
  proof -
    show r: "hub_run sha s (s\<lparr>hs_hub := h1, hs_got := (hs_got s)(?i := hs_got s ?i @ [ev])\<rparr>)"
      by (rule hub_next [OF hub_refl receive_step [OF that]])
    show "hub_run sha s (s\<lparr>hs_hub := CloseWatcher ?i h1, hs_got := (hs_got s)(?i := hs_got s ?i @ [ev])\<rparr>)"
      using hub_next [OF r close_step [of sha _ ?i]] by (cases s) simp
  qed
  show ?thesis
  proof (cases "ws_open ws")
    case False
    then have "hub' = hs_hub s" "taken what (hs_hub s) ws = []" using assms by (simp_all add: watchLoop_def taken_def)
    then show ?thesis using hub_refl [of sha s] by simp
  next
    case True
    then show ?thesis
      using assms close [of s] rec hub_refl [of sha s]
      by (cases what) (auto simp: watchLoop_def taken_def endStream_def Let_def split: option.splits if_splits)
  qed
qed

definition stream_ok :: "(string \<Rightarrow> 256 word) \<Rightarrow> u64 \<Rightarrow> string \<Rightarrow> nat \<Rightarrow> streamOut list \<Rightarrow> streamSys \<Rightarrow> bool" where
  "stream_ok sha i pre n base t \<longleftrightarrow> sys_ok (ss_sys t) \<and> feed_ok i pre n (ss_sys t) \<and> ws_watcher (ss_ws t) = i \<and> ws_prefix (ss_ws t) = pre
     \<and> (\<exists>seen. sseEvents (ws_out (ss_ws t)) = base @ sentEvents sha pre seen \<and> prefix seen (filter (wanted pre) (drop n (hs_log (ss_sys t))))
        \<and> (ws_open (ss_ws t) \<longrightarrow> seen = hs_got (ss_sys t) i \<and> ws_reported (ss_ws t) = 0
             \<and> map_option wa_closed (fmlookup (wh_objects (hs_hub (ss_sys t))) i) = Some False))"

lemma wanted_grow: "n \<le> length log \<Longrightarrow> prefix xs (filter P (drop n log)) \<Longrightarrow> prefix xs (filter P (drop n (log @ rest)))"
  by (auto simp: prefix_def)

lemma stream_ok_others:
  assumes "stream_ok sha i pre n base t" "hub_step sha (ss_sys t) s'" "hs_got s' i = hs_got (ss_sys t) i"
    and "map_option wa_closed (fmlookup (wh_objects (hs_hub s')) i) = map_option wa_closed (fmlookup (wh_objects (hs_hub (ss_sys t))) i)"
  shows "stream_ok sha i pre n base (t\<lparr>ss_sys := s'\<rparr>)"
proof -
  have ok: "sys_ok (ss_sys t)" "feed_ok i pre n (ss_sys t)" using assms(1) by (simp_all add: stream_ok_def)
  obtain rest where log: "hs_log s' = hs_log (ss_sys t) @ rest"
    using hub_step_log [OF assms(2)] by auto
  have "n \<le> length (hs_log (ss_sys t))" using ok(2) by (simp add: feed_ok_def)
  then show ?thesis
    using assms(1,3,4) sys_ok_step [OF assms(2) ok(1)] feed_ok_step [OF assms(2) ok] wanted_grow
    by (fastforce simp: stream_ok_def log)
qed

lemma receive_watcher:
  assumes "receive i hub = Some (ev, hub1)" "map_option wa_closed (fmlookup (wh_objects hub) i) = Some False"
  shows "map_option wa_closed (fmlookup (wh_objects hub1) i) = Some False"
  using assms by (auto simp: receive_def split: option.splits list.splits)

text \<open>What one turn of the loop writes: nothing, the event it took while nothing had been dropped, or the end of the stream.\<close>

lemma loop_cases:
  assumes "watchLoop sha what (hub, ws) = (hub', ws')" "ws_open ws" "ws_reported ws = 0"
    and "map_option wa_closed (fmlookup (wh_objects hub) (ws_watcher ws)) = Some False"
  shows "ws_watcher ws' = ws_watcher ws \<and> ws_prefix ws' = ws_prefix ws
    \<and> (ws_open ws' \<longrightarrow> ws_reported ws' = 0 \<and> map_option wa_closed (fmlookup (wh_objects hub') (ws_watcher ws)) = Some False
        \<and> sseEvents (ws_out ws') = sseEvents (ws_out ws) @ sentEvents sha (ws_prefix ws) (taken what hub ws)
        \<and> (taken what hub ws \<noteq> [] \<longrightarrow> Dropped hub' (ws_watcher ws) = 0))
    \<and> (\<not> ws_open ws' \<longrightarrow> sseEvents (ws_out ws') = sseEvents (ws_out ws))"
proof (cases what)
  case ClientDone
  then show ?thesis using assms by (auto simp: watchLoop_def endStream_def taken_def)
next
  case (PingDue there)
  then show ?thesis using assms by (auto simp: watchLoop_def endStream_def taken_def split: if_splits)
next
  case (FromWatcher there)
  show ?thesis
  proof (cases "receive (ws_watcher ws) hub")
    case None
    then show ?thesis using assms FromWatcher by (auto simp: watchLoop_def taken_def)
  next
    case (Some x)
    obtain ev hub1 where x: "receive (ws_watcher ws) hub = Some (ev, hub1)" using Some by (cases x) simp
    then show ?thesis
      using assms FromWatcher receive_watcher [OF x assms(4)]
      by (auto simp: watchLoop_def taken_def endStream_def Let_def word_gt_0 split: if_splits)
  qed
qed

lemma stream_ok_loop:
  assumes ok: "stream_ok sha i pre n base t" and loop: "watchLoop sha what (hs_hub (ss_sys t), ss_ws t) = (hub', ws')"
  shows "stream_ok sha i pre n base \<lparr>ss_sys = (ss_sys t)\<lparr>hs_hub := hub', hs_got := (hs_got (ss_sys t))(ws_watcher (ss_ws t) :=
        hs_got (ss_sys t) (ws_watcher (ss_ws t)) @ taken what (hs_hub (ss_sys t)) (ss_ws t))\<rparr>, ss_ws = ws'\<rparr>"
    (is "stream_ok sha i pre n base \<lparr>ss_sys = ?s, ss_ws = ws'\<rparr>")
proof -
  let ?ev = "taken what (hs_hub (ss_sys t)) (ss_ws t)"
  have ws: "ws_watcher (ss_ws t) = i" "ws_prefix (ss_ws t) = pre" and so: "sys_ok (ss_sys t)" "feed_ok i pre n (ss_sys t)"
    using ok by (simp_all add: stream_ok_def)
  obtain seen where seen: "sseEvents (ws_out (ss_ws t)) = base @ sentEvents sha pre seen" "prefix seen (filter (wanted pre) (drop n (hs_log (ss_sys t))))"
      "ws_open (ss_ws t) \<Longrightarrow> seen = hs_got (ss_sys t) i \<and> ws_reported (ss_ws t) = 0
         \<and> map_option wa_closed (fmlookup (wh_objects (hs_hub (ss_sys t))) i) = Some False"
    using ok by (auto simp: stream_ok_def)
  note run = loop_hub [OF loop]
  have s: "sys_ok ?s" "feed_ok i pre n ?s"
    using sys_ok_run [OF run so(1)] feed_ok_run [OF run so] .
  show ?thesis
  proof (cases "ws_open (ss_ws t)")
    case False
    then have "hub' = hs_hub (ss_sys t)" "ws' = ss_ws t" "?ev = []"
      using loop by (simp_all add: watchLoop_def taken_def)
    then have "\<lparr>ss_sys = ?s, ss_ws = ws'\<rparr> = t" by simp
    then show ?thesis using ok by simp
  next
    case True
    note c = loop_cases [OF loop True] and sn = seen(3) [OF True]
    have "prefix (seen @ ?ev) (filter (wanted pre) (drop n (hs_log (ss_sys t))))" if "ws_open ws'"
    proof (cases "?ev = []")
      case False
      then have "Dropped hub' i = 0" "map_option wa_closed (fmlookup (wh_objects hub') i) = Some False"
        using c that sn ws by auto
      then obtain w where "fmlookup (wh_objects hub') i = Some w" "wa_dropped w = 0" "\<not> wa_closed w"
        by (auto simp: Dropped_def)
      then have "(seen @ ?ev) @ wa_ch w = filter (wanted pre) (drop n (hs_log (ss_sys t)))"
        using s(2) sn ws by (simp add: feed_ok_def)
      then show ?thesis by (intro prefixI [OF sym])
    qed (use seen(2) in simp)
    then show ?thesis
      using s c sn ws seen(1,2) unfolding stream_ok_def
      by (cases "ws_open ws'") (auto intro!: exI [of _ "seen @ ?ev"] exI [of _ seen])
  qed
qed

lemma stream_ok_step: "stream_step sha t t' \<Longrightarrow> stream_ok sha i pre n base t \<Longrightarrow> stream_ok sha i pre n base t'"
proof (induction rule: stream_step.induct)
  case (others_step t s')
  moreover have "ws_watcher (ss_ws t) = i" using others_step(4) by (simp add: stream_ok_def)
  ultimately show ?case by (simp add: stream_ok_others)
next
  case (loop_step what t hub' ws')
  then show ?case by (rule stream_ok_loop [rotated])
qed

lemma stream_ok_run: "(stream_step sha)\<^sup>*\<^sup>* t t' \<Longrightarrow> stream_ok sha i pre n base t \<Longrightarrow> stream_ok sha i pre n base t'"
  by (induction rule: rtranclp_induct) (auto intro: stream_ok_step)

lemma stream_log: "(stream_step sha)\<^sup>*\<^sup>* t t' \<Longrightarrow> \<exists>rest. hs_log (ss_sys t') = hs_log (ss_sys t) @ rest"
proof (induction rule: rtranclp_induct)
  case (step y z)
  from step(2) have "\<exists>rest. hs_log (ss_sys z) = hs_log (ss_sys y) @ rest"
    by cases (auto dest!: hub_step_log)
  then show ?case using step(3) by auto
qed simp

lemma opened_stream:
  assumes "sys_ok s" "wh_watchSeq (hs_hub s) \<noteq> - 1" "epoch_ok uuid" "WatchFrom sha uuid pre cursor (hs_hub s) = (hub', Inr (i, missed))"
    and "ws_watcher ws = i" "ws_prefix ws = pre" "ws_reported ws = 0" "ws_open ws"
  shows "stream_ok sha i pre (length (hs_log s)) (sseEvents (ws_out ws)) \<lparr>ss_sys = s\<lparr>hs_hub := hub'\<rparr>, ss_ws = ws\<rparr>"
    and "fmlookup (wh_objects hub') i = Some (newWatcher sha pre (withEpoch uuid (hs_hub s)))"
proof -
  have h: "hub' = subscribed (newWatcher sha pre (withEpoch uuid (hs_hub s))) uuid (hs_hub s)" "i = wh_watchSeq (hs_hub s) + 1"
    using assms(4) by (auto simp: WatchFrom_alt split: option.splits)
  then show look: "fmlookup (wh_objects hub') i = Some (newWatcher sha pre (withEpoch uuid (hs_hub s)))"
    by (simp add: subscribed_lookup)
  have "sys_ok (s\<lparr>hs_hub := hub'\<rparr>)"
    using sys_ok_step [OF watch_step [OF assms(3,2,4)] assms(1)] .
  moreover have "feed_ok i pre (length (hs_log s)) (s\<lparr>hs_hub := hub'\<rparr>)"
    using feed_ok_subscribed [OF assms(1,2), of pre sha _ uuid] h by simp
  moreover have "hs_got s i = []"
    using \<open>feed_ok _ _ _ _\<close> look by (simp add: feed_ok_def)
  ultimately show "stream_ok sha i pre (length (hs_log s)) (sseEvents (ws_out ws)) \<lparr>ss_sys = s\<lparr>hs_hub := hub'\<rparr>, ss_ws = ws\<rparr>"
    using look assms(5-8) unfolding stream_ok_def by (intro conjI exI [of _ "[]"]) auto
qed

text \<open>
  A watch over HTTP has no silent gaps.  After any history of the node's watchers, a client opens a stream, fresh or with the \<open>Last-Event-ID\<close> of any event, and
  is not refused; then whatever the node publishes and however the stream's loop takes turns with it, the events the client is sent are, in order and without
  a gap, the first ones on its prefix since it subscribed, or since the event it named; each carries the cursor to resume from; and as long as the stream is open and
  nothing was dropped, what it was sent and what is waiting for it are all of them.
\<close>

theorem watch_stream_gapless:
  assumes "hub_run (ge_sha env) newSys s" "wh_watchSeq (hs_hub s) \<noteq> - 1" "epoch_ok (nd_uuid (gwNode g))" "nd_hub (gwNode g) = hs_hub s"
    and "handleWatch env r pre g = (g', resp)" "rs_Body resp = StreamBody ws"
    and cursor: "headerGet r ''Last-Event-ID'' = '''' \<and> k = length (hs_log s)
      \<or> wh_watchEpoch (hs_hub s) \<noteq> '''' \<and> headerGet r ''Last-Event-ID'' = Token (ge_sha env) pre (eventID (wh_watchEpoch (hs_hub s)) c) \<and> k = unat c"
    and "(stream_step (ge_sha env))\<^sup>*\<^sup>* \<lparr>ss_sys = s\<lparr>hs_hub := nd_hub (gwNode g')\<rparr>, ss_ws = ws\<rparr> t"
  shows "\<exists>seen. sseEvents (ws_out (ss_ws t)) = sentEvents (ge_sha env) pre seen
     \<and> prefix seen (filter (wanted pre) (drop k (hs_log (ss_sys t))))
     \<and> (ws_open (ss_ws t) \<and> Dropped (hs_hub (ss_sys t)) (ws_watcher ws) = 0 \<longrightarrow>
          seen @ wa_ch (the (fmlookup (wh_objects (hs_hub (ss_sys t))) (ws_watcher ws))) = filter (wanted pre) (drop k (hs_log (ss_sys t))))"
proof -
  let ?sha = "ge_sha env" and ?cursor = "headerGet r ''Last-Event-ID''" and ?n = "length (hs_log s)"
  have ok: "sys_ok s" using sys_ok_run [OF assms(1) newSys_ok] .
  obtain hub' i missed where w: "WatchFrom ?sha (nd_uuid (gwNode g)) pre ?cursor (hs_hub s) = (hub', Inr (i, missed))"
      and g': "nd_hub (gwNode g') = hub'" and ws: "ws_watcher ws = i" "ws_prefix ws = pre" "ws_reported ws = 0" "ws_open ws"
        "ws_out ws = watchOpening ?sha pre ?cursor (the (fmlookup (wh_objects hub') i)) missed (gwNode g)"
    using assms(4-6) by (auto simp: handleWatch_def Let_def writeErr_def writeJSON_def split: prod.splits sum.splits)
  have missed: "sseEvents (ws_out ws) = sentEvents ?sha pre (filter (wanted pre) (drop k (hs_log s)))" "k \<le> ?n"
  proof -
    have "missed = filter (wanted pre) (drop k (hs_log s)) \<and> k \<le> ?n"
      using cursor w WatchFrom_Token [of "hs_hub s" "hs_log s" ?sha "nd_uuid (gwNode g)" pre c] ok
      by (auto simp: sys_ok_def WatchFrom_alt split: if_splits option.splits)
    moreover have "?cursor \<noteq> '''' \<or> k = ?n" using cursor by auto
    ultimately show "sseEvents (ws_out ws) = sentEvents ?sha pre (filter (wanted pre) (drop k (hs_log s)))" "k \<le> ?n"
      by (auto simp: ws(5) watchOpening_def sentEvents_def [symmetric])
  qed
  note start = opened_stream(1) [OF ok assms(2,3) w ws(1-4)]
  have fin: "stream_ok ?sha i pre ?n (sseEvents (ws_out ws)) t"
    using stream_ok_run [OF assms(8) [unfolded g'] start] .
  then obtain got where got: "sseEvents (ws_out (ss_ws t)) = sseEvents (ws_out ws) @ sentEvents ?sha pre got"
      "prefix got (filter (wanted pre) (drop ?n (hs_log (ss_sys t))))"
      "ws_open (ss_ws t) \<Longrightarrow> got = hs_got (ss_sys t) i \<and> map_option wa_closed (fmlookup (wh_objects (hs_hub (ss_sys t))) i) = Some False"
    and feed: "feed_ok i pre ?n (ss_sys t)"
    unfolding stream_ok_def by auto
  obtain rest where log: "hs_log (ss_sys t) = hs_log s @ rest"
    using stream_log [OF assms(8)] by auto
  have split: "filter (wanted pre) (drop k (hs_log (ss_sys t))) = filter (wanted pre) (drop k (hs_log s)) @ filter (wanted pre) (drop ?n (hs_log (ss_sys t)))"
    using missed(2) by (simp add: log)
  let ?seen = "filter (wanted pre) (drop k (hs_log s)) @ got"
  have "ws_open (ss_ws t) \<and> Dropped (hs_hub (ss_sys t)) i = 0 \<Longrightarrow>
      got @ wa_ch (the (fmlookup (wh_objects (hs_hub (ss_sys t))) i)) = filter (wanted pre) (drop ?n (hs_log (ss_sys t)))"
    using got(3) feed by (auto simp: feed_ok_def Dropped_def)
  then show ?thesis
    using got(1,2) missed(1) split ws(1) by (intro exI [of _ ?seen]) auto
qed

theorem list_pages_cover_witness:
  "concat (map (\<lambda>i. pageItems (snd (ServeHTTP (demo_env '''' False) (pageRequest demo_get '''' 1 (i * 1)) demo_stored))) [0..<1])
     = listItems '''' (gwNode demo_stored) \<and> map it_Key (listItems '''' (gwNode demo_stored)) = [''k'']"
proof -
  have e: "kv_store (nodeStore (gwNode demo_stored)) = ps_Entries demo_saved"
    using demo_written_model(1) by (simp add: demo_stored_fields modelState_def State_def demo_saved_def)
  have k: "fmkeys (kv_store (nodeStore (gwNode demo_stored))) = [''k'']"
    by (simp add: e demo_saved_def fmkeys_def)
  have "Get (nodeStore (gwNode demo_stored)) ''k'' \<noteq> None"
    by (simp add: Get_def e demo_saved_def visible_def expired_def)
  then have keys: "map it_Key (listItems '''' (gwNode demo_stored)) = [''k'']"
    by (simp add: listItems_keys k HasPrefix_def)
  then have len: "length (listItems '''' (gwNode demo_stored)) = 1"
    using length_map [of it_Key "listItems '''' (gwNode demo_stored)"] by simp
  have "admitted (demo_env '''' False) (pageRequest demo_get '''' 1 offset)" for offset
    by (simp add: admitted_def demo_env_def)
  from list_pages_cover [OF this, of demo_stored] keys len show ?thesis
    by (simp only: Let_def) simp
qed

definition demo_watched :: gateway where
  "demo_watched = setNode (demo_gw_node\<lparr>nd_hub := hs_hub demo_sys\<rparr>) demo_gateway"

theorem watch_stream_gapless_witness:
  "\<exists>ws seen. rs_Body (snd (handleWatch (demo_env '''' False) (demo_put ''Last-Event-Id'' (Token (\<lambda>_. 0) ''k'' (eventID ''u'' 1))) ''k'' demo_watched)) = StreamBody ws
     \<and> sseEvents (ws_out ws) = sentEvents (\<lambda>_. 0) ''k'' seen \<and> seen = filter (wanted ''k'') (drop 1 (hs_log demo_sys))"
proof -
  let ?sha = "\<lambda>_. 0" and ?s = demo_sys and ?env = "demo_env '''' False"
  let ?r = "demo_put ''Last-Event-Id'' (Token (\<lambda>_. 0) ''k'' (eventID ''u'' 1))"
  have sha: "ge_sha ?env = ?sha" by (simp add: demo_env_def)
  have n: "gwNode demo_watched = demo_gw_node\<lparr>nd_hub := hs_hub ?s\<rparr>" "nd_uuid demo_gw_node = ''u''"
    by (simp_all add: demo_watched_def demo_gw_node_def New_def)
  have cur: "headerGet ?r ''Last-Event-ID'' = Token ?sha ''k'' (eventID ''u'' 1)"
    by (simp add: demo_put_def header_eval char_of_def bit_Suc_0_iff)
  have hist: "history_ok (hs_hub ?s) (hs_log ?s)"
    using sys_ok_run [OF demo_sys_run [of ?sha] newSys_ok] by (simp add: sys_ok_def)
  define hub where "hub = subscribed (newWatcher ?sha ''k'' (hs_hub ?s)) ''u'' (hs_hub ?s)"
  obtain missed where sub: "WatchFrom ?sha ''u'' ''k'' (Token ?sha ''k'' (eventID ''u'' 1)) (hs_hub ?s) = (hub, Inr (1, missed))"
    using WatchFrom_Token [OF hist, of ?sha "''u''" "''k''" 1] demo_sys_hub by (simp add: hub_def)
  have look: "fmlookup (wh_objects hub) 1 = Some (newWatcher ?sha ''k'' (hs_hub ?s))"
    by (simp add: hub_def subscribed_lookup demo_sys_hub)
  obtain g' ws where h: "handleWatch ?env ?r ''k'' demo_watched = (g', \<lparr>rs_Status = 200, rs_Header = watchHeaders, rs_Body = StreamBody ws\<rparr>)"
      "nd_hub (gwNode g') = hub" "ws_watcher ws = 1" "ws_open ws"
    by (simp add: handleWatch_def Let_def n sha cur sub)
  obtain seen where "sseEvents (ws_out ws) = sentEvents ?sha ''k'' seen"
      "Dropped hub 1 = 0 \<longrightarrow> seen @ wa_ch (the (fmlookup (wh_objects hub) 1)) = filter (wanted ''k'') (drop 1 (hs_log ?s))"
    using watch_stream_gapless [of ?env ?s demo_watched ?r "''k''" g' _ ws 1 1 "\<lparr>ss_sys = ?s\<lparr>hs_hub := hub\<rparr>, ss_ws = ws\<rparr>"] h
    by (auto simp: sha demo_sys_run demo_sys_hub n epoch_ok_def cur)
  then show ?thesis
    using h(1) look by (auto simp: Dropped_def)
qed

end
