(* ===== verification/Client.thy ===== *)
theory Client
  imports GatewayReads
begin

text \<open>
  The Go client of the gateway (\<open>pkg/client/client.go\<close>): how keys and prefixes are escaped, every request it makes, how an answer becomes a result
  or an error.  What the client calls of the standard library is modelled as far as it matters: a request's target is split, unescaped and its
  query parsed as \<open>net/url\<close> does; header values are checked and trimmed as \<open>net/http\<close> does; then the gateway serves the request.

  A request can fail to arrive, and an answer can be lost after the gateway acted (\<open>netOutcome\<close>).  Parameters: the JSON encoders and decoders, the
  texts of status codes, parsing of the base URL, the floating-point \<open>Duration.Seconds\<close>, and what \<open>http.ServeMux\<close> answers by itself (a redirection, and
  what comes of following it) for a path that is not in cleaned form.  Headers \<open>net/http\<close> adds are not among those the gateway reads.
\<close>

section \<open>Escaping\<close>

definition letterOrDigit :: "char \<Rightarrow> bool" where
  "letterOrDigit c \<longleftrightarrow> 97 \<le> byte c \<and> byte c \<le> 122 \<or> 65 \<le> byte c \<and> byte c \<le> 90 \<or> 48 \<le> byte c \<and> byte c \<le> 57"

definition hexUpper :: "nat \<Rightarrow> char" where
  "hexUpper d = (if d < 10 then char_of (48 + d) else char_of (55 + d))"

text \<open>\<open>fmt.Fprintf(&b, "%%%02X", ch)\<close>.\<close>

definition percentByte :: "char \<Rightarrow> string" where
  "percentByte c = [CHR ''%'', hexUpper (byte c div 16), hexUpper (byte c mod 16)]"

fun escapeKey :: "string \<Rightarrow> string" where
  "escapeKey [] = []"
| "escapeKey (c # cs) = (if letterOrDigit c \<or> c \<in> {CHR ''-'', CHR ''_'', CHR ''~''} then [c] else percentByte c) @ escapeKey cs"

fun queryEscape :: "string \<Rightarrow> string" where
  "queryEscape [] = []"
| "queryEscape (c # cs) = (if letterOrDigit c \<or> c \<in> {CHR ''-'', CHR ''_'', CHR ''.'', CHR ''~''} then [c] else percentByte c) @ queryEscape cs"

text \<open>\<open>url.PathUnescape\<close> and, with \<open>+\<close> for a space, \<open>url.QueryUnescape\<close>.\<close>

definition unhex :: "char \<Rightarrow> nat option" where
  "unhex c = (if 48 \<le> byte c \<and> byte c \<le> 57 then Some (byte c - 48)
     else if 97 \<le> byte c \<and> byte c \<le> 102 then Some (byte c - 87)
     else if 65 \<le> byte c \<and> byte c \<le> 70 then Some (byte c - 55) else None)"

fun unescape :: "bool \<Rightarrow> string \<Rightarrow> string option" where
  "unescape query [] = Some []"
| "unescape query (c # cs) =
     (if c = CHR ''%'' then
        (case cs of
           a # b # rest \<Rightarrow> (case (unhex a, unhex b) of
             (Some x, Some y) \<Rightarrow> map_option ((#) (char_of (16 * x + y))) (unescape query rest)
           | _ \<Rightarrow> None)
         | _ \<Rightarrow> None)
      else map_option ((#) (if query \<and> c = CHR ''+'' then CHR '' '' else c)) (unescape query cs))"

text \<open>\<open>url.ParseQuery\<close>: pairs that do not unescape, or hold a semicolon, are left out.\<close>

fun splitOn :: "char \<Rightarrow> string \<Rightarrow> string \<Rightarrow> string list" where
  "splitOn d cur [] = [cur]"
| "splitOn d cur (c # cs) = (if c = d then cur # splitOn d [] cs else splitOn d (cur @ [c]) cs)"

definition cutAt :: "char \<Rightarrow> string \<Rightarrow> string \<times> string" where
  "cutAt d s = (let before = takeWhile (\<lambda>c. c \<noteq> d) s in (before, drop (length before + 1) s))"

definition queryPair :: "string \<Rightarrow> (string \<times> string) list" where
  "queryPair part = (if part = '''' \<or> CHR '';'' \<in> set part then []
     else (case cutAt (CHR ''='') part of (k, v) \<Rightarrow>
       (case (unescape True k, unescape True v) of (Some k', Some v') \<Rightarrow> [(k', v')] | _ \<Rightarrow> [])))"

definition ParseQuery :: "string \<Rightarrow> (string \<times> string) list" where
  "ParseQuery q = concat (map queryPair (splitOn (CHR ''&'') [] q))"

definition parseTarget :: "string \<Rightarrow> (string \<times> (string \<times> string) list) option" where
  "parseTarget target = (case cutAt (CHR ''?'') target of (path, query) \<Rightarrow>
     map_option (\<lambda>p. (p, ParseQuery query)) (unescape False path))"

text \<open>A target whose path \<open>http.ServeMux\<close> routes as it is: no empty segment but the last, no dot segments, and a first segment written plainly.\<close>

definition plainTarget :: "string \<Rightarrow> bool" where
  "plainTarget target = (let segs = splitOn (CHR ''/'') [] (tl (fst (cutAt (CHR ''?'') target))) in
     take 1 target = ''/'' \<and> CHR ''%'' \<notin> set (hd segs) \<and> '''' \<notin> set (butlast segs) \<and> ''.'' \<notin> set segs \<and> ''..'' \<notin> set segs)"

section \<open>An exchange\<close>

record Client =
  cl_base :: string
  cl_token :: string

datatype clientErr = HttpError nat string | OtherError string | Undecodable

datatype netOutcome = Unreached string | Reached | AnswerLost string

record clientEnv =
  ce_gw :: gatewayEnv
  ce_mux :: "string \<Rightarrow> httpRequest \<Rightarrow> httpResponse option"
  ce_net :: netOutcome
  ce_url :: "string \<Rightarrow> string option"
  ce_wire :: "respBody \<Rightarrow> string"
  ce_errorField :: "string \<Rightarrow> string option"
  ce_statusText :: "nat \<Rightarrow> string"
  ce_secs :: "nanos \<Rightarrow> int"

text \<open>\<open>New\<close>: \<open>strings.Contains(cfg.BaseURL, "://")\<close> and \<open>strings.TrimSuffix\<close> of a slash.\<close>

definition NewClient :: "string \<Rightarrow> string \<Rightarrow> Client" where
  "NewClient baseURL token =
     (let b0 = (if baseURL = '''' then ''http://127.0.0.1:8080'' else baseURL);
          b1 = (if list_ex (\<lambda>t. HasPrefix t ''://'') (suffixes b0) then b0 else ''http://'' @ b0)
      in \<lparr>cl_base = (if last b1 = CHR ''/'' then butlast b1 else b1), cl_token = token\<rparr>)"

definition ErrorText :: "clientEnv \<Rightarrow> nat \<Rightarrow> string \<Rightarrow> string" where
  "ErrorText ce status msg = (if msg = '''' then ce_statusText ce status else msg)"

fun StatusOf :: "clientErr \<Rightarrow> nat" where
  "StatusOf (HttpError status _) = status"
| "StatusOf _ = 0"

definition NotFound :: "clientErr \<Rightarrow> bool" where "NotFound e \<longleftrightarrow> StatusOf e = 404"

definition Conflict :: "clientErr \<Rightarrow> bool" where "Conflict e \<longleftrightarrow> StatusOf e = 412"

definition blank :: "char \<Rightarrow> bool" where
  "blank c \<longleftrightarrow> c = CHR '' '' \<or> byte c = 9"

definition trimValue :: "string \<Rightarrow> string" where
  "trimValue s = rev (dropWhile blank (rev (dropWhile blank s)))"

definition validValue :: "string \<Rightarrow> bool" where
  "validValue v \<longleftrightarrow> list_all (\<lambda>c. byte c = 9 \<or> 32 \<le> byte c \<and> byte c \<noteq> 127) v"

definition headerMap :: "(string \<times> string) list \<Rightarrow> string \<Rightarrow> string list option" where
  "headerMap hs = foldl (\<lambda>m (k, v). m(CanonicalMIMEHeaderKey k \<mapsto> [trimValue v])) (\<lambda>_. None) hs"

definition bodyBytes :: "clientEnv \<Rightarrow> respBody \<Rightarrow> string" where
  "bodyBytes ce b = (case b of NoBody \<Rightarrow> [] | TextBody s \<Rightarrow> s | DataBody d \<Rightarrow> map (\<lambda>b. char_of (unat b)) d | _ \<Rightarrow> ce_wire ce b)"

definition respHeader :: "httpResponse \<Rightarrow> string \<Rightarrow> string" where
  "respHeader resp name = (case map_of (map (\<lambda>(k, v). (CanonicalMIMEHeaderKey k, v)) (rs_Header resp)) (CanonicalMIMEHeaderKey name) of
     Some v \<Rightarrow> v | None \<Rightarrow> '''')"

definition serveTarget :: "clientEnv \<Rightarrow> string \<Rightarrow> string \<Rightarrow> string \<Rightarrow> (string \<times> string) list \<Rightarrow> gateway \<Rightarrow> gateway \<times> httpResponse option" where
  "serveTarget ce method target body hs g = (case parseTarget target of
     None \<Rightarrow> (g, Some \<lparr>rs_Status = 400, rs_Header = [], rs_Body = NoBody\<rparr>)
   | Some (path, query) \<Rightarrow> ServeHTTP ((ce_gw ce)\<lparr>ge_mux := ce_mux ce target\<rparr>)
       \<lparr>rq_Method = method, rq_Path = path, rq_Query = query, rq_Header = headerMap hs, rq_Body = (body, None)\<rparr> g)"

definition httpDo :: "clientEnv \<Rightarrow> string \<Rightarrow> string \<Rightarrow> string \<Rightarrow> (string \<times> string) list \<Rightarrow> gateway \<Rightarrow> gateway \<times> (clientErr + httpResponse)" where
  "httpDo ce method target body hs g =
     (if \<not> list_all (\<lambda>(k, v). validValue v) hs then (g, Inl (OtherError ''invalid header field value''))
      else (case ce_net ce of
        Unreached e \<Rightarrow> (g, Inl (OtherError e))
      | AnswerLost e \<Rightarrow> (fst (serveTarget ce method target body hs g), Inl (OtherError e))
      | Reached \<Rightarrow> (case serveTarget ce method target body hs g of
          (g', None) \<Rightarrow> (g', Inl (OtherError ''EOF''))
        | (g', Some resp) \<Rightarrow> (g', Inr resp))))"

definition readError :: "clientEnv \<Rightarrow> httpResponse \<Rightarrow> clientErr" where
  "readError ce resp =
     (let data = take (64 * 1024) (bodyBytes ce (rs_Body resp)) in
      HttpError (rs_Status resp)
        (if data = [] then ce_statusText ce (rs_Status resp)
         else (case ce_errorField ce data of
           Some msg \<Rightarrow> if msg \<noteq> '''' then msg else tf_trim (ge_text (ce_gw ce)) data
         | None \<Rightarrow> tf_trim (ge_text (ce_gw ce)) data)))"

definition authHeader :: "Client \<Rightarrow> (string \<times> string) list" where
  "authHeader c = (if cl_token c \<noteq> '''' then [(''Authorization'', ''Bearer '' @ cl_token c)] else [])"

definition request :: "Client \<Rightarrow> clientEnv \<Rightarrow> string \<Rightarrow> string \<Rightarrow> string \<Rightarrow> (string \<times> string) list \<Rightarrow> gateway \<Rightarrow> gateway \<times> (clientErr + httpResponse)" where
  "request c ce method path body headers g = (case ce_url ce (cl_base c @ path) of
     Some e \<Rightarrow> (g, Inl (OtherError e))
   | None \<Rightarrow> (case httpDo ce method path body (authHeader c @ headers) g of
       (g', Inl e) \<Rightarrow> (g', Inl e)
     | (g', Inr resp) \<Rightarrow> (g', if rs_Status resp \<ge> 300 then Inl (readError ce resp) else Inr resp)))"

text \<open>What a method makes of the answer.\<close>

definition onAnswer :: "(httpResponse \<Rightarrow> clientErr + 'a) \<Rightarrow> gateway \<times> (clientErr + httpResponse) \<Rightarrow> gateway \<times> (clientErr + 'a)" where
  "onAnswer f = (\<lambda>(g, res). (g, case res of Inl e \<Rightarrow> Inl e | Inr resp \<Rightarrow> f resp))"

definition decoded :: "clientEnv \<Rightarrow> (string \<Rightarrow> 'a option) \<Rightarrow> httpResponse \<Rightarrow> clientErr + 'a" where
  "decoded ce dec resp = (case dec (bodyBytes ce (rs_Body resp)) of None \<Rightarrow> Inl Undecodable | Some x \<Rightarrow> Inr x)"

definition getJSON :: "Client \<Rightarrow> clientEnv \<Rightarrow> (string \<Rightarrow> 'a option) \<Rightarrow> string \<Rightarrow> gateway \<Rightarrow> gateway \<times> (clientErr + 'a)" where
  "getJSON c ce dec path g = onAnswer (decoded ce dec) (request c ce ''GET'' path '''' [] g)"

section \<open>Keys\<close>

record clientEntry =
  cn_Key :: string
  cn_Value :: string
  cn_Version :: string
  cn_ExpiresAt :: unix_time

record PutOptions =
  po_Durable :: bool
  po_TTL :: nanos
  po_IfMatch :: string

definition clientGet :: "Client \<Rightarrow> clientEnv \<Rightarrow> string \<Rightarrow> gateway \<Rightarrow> gateway \<times> (clientErr + string \<times> string)" where
  "clientGet c ce key g = onAnswer (\<lambda>resp. Inr (bodyBytes ce (rs_Body resp), trimQuotes (respHeader resp ''ETag'')))
     (request c ce ''GET'' (''/kv/'' @ escapeKey key) '''' [] g)"

definition clientList :: "Client \<Rightarrow> clientEnv \<Rightarrow> (string \<Rightarrow> clientEntry list option) \<Rightarrow> string \<Rightarrow> gateway \<Rightarrow> gateway \<times> (clientErr + clientEntry list)" where
  "clientList c ce dec pre g = getJSON c ce dec (''/kv'' @ (if pre \<noteq> '''' then ''?prefix='' @ queryEscape pre else '''')) g"

definition putHeaders :: "clientEnv \<Rightarrow> PutOptions \<Rightarrow> (string \<times> string) list" where
  "putHeaders ce opt =
     (if po_Durable opt then [(''X-Rezoagwe-Durability'', ''durable'')] else [])
     @ (if po_TTL opt > 0 then [(''X-Rezoagwe-TTL'', decimalInt (ce_secs ce (po_TTL opt)))] else [])
     @ (if po_IfMatch opt \<noteq> '''' then [(''If-Match'', po_IfMatch opt)] else [])"

definition clientPut :: "Client \<Rightarrow> clientEnv \<Rightarrow> string \<Rightarrow> string \<Rightarrow> PutOptions \<Rightarrow> gateway \<Rightarrow> gateway \<times> (clientErr + string)" where
  "clientPut c ce key val opt g = onAnswer (\<lambda>resp. Inr (trimQuotes (respHeader resp ''ETag'')))
     (request c ce ''PUT'' (''/kv/'' @ escapeKey key) val (putHeaders ce opt) g)"

definition clientDelete :: "Client \<Rightarrow> clientEnv \<Rightarrow> string \<Rightarrow> string \<Rightarrow> gateway \<Rightarrow> gateway \<times> (clientErr + unit)" where
  "clientDelete c ce key ifMatch g = onAnswer (\<lambda>_. Inr ())
     (request c ce ''DELETE'' (''/kv/'' @ escapeKey key) '''' (if ifMatch \<noteq> '''' then [(''If-Match'', ifMatch)] else []) g)"

section \<open>The node and the cluster\<close>

definition clientPeers :: "Client \<Rightarrow> clientEnv \<Rightarrow> (string \<Rightarrow> PeerInfo list option) \<Rightarrow> gateway \<Rightarrow> gateway \<times> (clientErr + PeerInfo list)" where
  "clientPeers c ce dec g = getJSON c ce dec ''/peers'' g"

definition clientStatus :: "Client \<Rightarrow> clientEnv \<Rightarrow> (string \<Rightarrow> NodeStatus option) \<Rightarrow> gateway \<Rightarrow> gateway \<times> (clientErr + NodeStatus)" where
  "clientStatus c ce dec g = getJSON c ce dec ''/health'' g"

definition clientHistory :: "Client \<Rightarrow> clientEnv \<Rightarrow> (string \<Rightarrow> 'a list option) \<Rightarrow> string \<Rightarrow> gateway \<Rightarrow> gateway \<times> (clientErr + 'a list)" where
  "clientHistory c ce dec key g = getJSON c ce dec (''/history/'' @ escapeKey key) g"

definition clientActivity :: "Client \<Rightarrow> clientEnv \<Rightarrow> (string \<Rightarrow> string list option) \<Rightarrow> gateway \<Rightarrow> gateway \<times> (clientErr + string list)" where
  "clientActivity c ce dec g = getJSON c ce dec ''/activity'' g"

definition clientChat :: "Client \<Rightarrow> clientEnv \<Rightarrow> (string \<Rightarrow> 'a list option) \<Rightarrow> gateway \<Rightarrow> gateway \<times> (clientErr + 'a list)" where
  "clientChat c ce dec g = getJSON c ce dec ''/chat'' g"

definition clientSay :: "Client \<Rightarrow> clientEnv \<Rightarrow> string \<Rightarrow> gateway \<Rightarrow> gateway \<times> (clientErr + unit)" where
  "clientSay c ce text g = onAnswer (\<lambda>_. Inr ()) (request c ce ''POST'' ''/chat'' text [(''Content-Type'', ''text/plain; charset=utf-8'')] g)"

definition readAll :: "clientEnv \<Rightarrow> httpResponse \<Rightarrow> clientErr + string" where
  "readAll ce resp = Inr (bodyBytes ce (rs_Body resp))"

definition clientDoctor :: "Client \<Rightarrow> clientEnv \<Rightarrow> gateway \<Rightarrow> gateway \<times> (clientErr + string)" where
  "clientDoctor c ce g = onAnswer (readAll ce) (request c ce ''GET'' ''/diagnostics?format=text'' '''' [] g)"

definition clientTopology :: "Client \<Rightarrow> clientEnv \<Rightarrow> (string \<Rightarrow> 'a option) \<Rightarrow> gateway \<Rightarrow> gateway \<times> (clientErr + 'a)" where
  "clientTopology c ce dec g = getJSON c ce dec ''/topology'' g"

text \<open>A divergent cluster answers 409 and its body is the report, which \<open>request\<close> has consumed: it is asked for again, whatever the status of that answer.\<close>

definition consistencyBody :: "Client \<Rightarrow> clientEnv \<Rightarrow> (string \<Rightarrow> 'a option) \<Rightarrow> ('a \<Rightarrow> bool option) \<Rightarrow> gateway \<Rightarrow> gateway \<times> (clientErr + 'a \<times> bool)" where
  "consistencyBody c ce dec field g = (case ce_url ce (cl_base c @ ''/consistency'') of
     Some e \<Rightarrow> (g, Inl (OtherError e))
   | None \<Rightarrow> onAnswer (\<lambda>resp. case decoded ce dec resp of
       Inl e \<Rightarrow> Inl e
     | Inr report \<Rightarrow> Inr (report, case field report of Some b \<Rightarrow> b | None \<Rightarrow> False)) (httpDo ce ''GET'' ''/consistency'' '''' (authHeader c) g))"

definition clientConsistency :: "Client \<Rightarrow> clientEnv \<Rightarrow> clientEnv \<Rightarrow> (string \<Rightarrow> 'a option) \<Rightarrow> ('a \<Rightarrow> bool option) \<Rightarrow> gateway \<Rightarrow> gateway \<times> (clientErr + 'a \<times> bool)" where
  "clientConsistency c ce ce2 dec field g = (case request c ce ''GET'' ''/consistency'' '''' [] g of
     (g', Inl e) \<Rightarrow> if StatusOf e = 409 then consistencyBody c ce2 dec field g' else (g', Inl e)
   | (g', Inr resp) \<Rightarrow> (g', case decoded ce dec resp of Inl e \<Rightarrow> Inl e | Inr report \<Rightarrow> Inr (report, True)))"

definition clientExport :: "Client \<Rightarrow> clientEnv \<Rightarrow> gateway \<Rightarrow> gateway \<times> (clientErr + string)" where
  "clientExport c ce g = onAnswer (readAll ce) (request c ce ''GET'' ''/export'' '''' [] g)"

definition clientImport :: "Client \<Rightarrow> clientEnv \<Rightarrow> (string \<Rightarrow> nat option) \<Rightarrow> string \<Rightarrow> bool \<Rightarrow> gateway \<Rightarrow> gateway \<times> (clientErr + nat)" where
  "clientImport c ce dec data seed g = onAnswer (decoded ce dec)
     (request c ce ''POST'' (''/import'' @ (if seed then ''?mode=seed'' else '''')) data [] g)"

section \<open>Repair, restore, snapshots\<close>

definition jsonType :: "(string \<times> string) list" where
  "jsonType = [(''Content-Type'', ''application/json'')]"

text \<open>A body that is the JSON encoding (a parameter) of what is sent, an answer decoded.\<close>

definition postJSON :: "Client \<Rightarrow> clientEnv \<Rightarrow> (string \<Rightarrow> 'a option) \<Rightarrow> string \<Rightarrow> string option \<Rightarrow> gateway \<Rightarrow> gateway \<times> (clientErr + 'a)" where
  "postJSON c ce dec path body g = (case body of
     None \<Rightarrow> (g, Inl (OtherError ''json''))
   | Some data \<Rightarrow> onAnswer (decoded ce dec) (request c ce ''POST'' path data jsonType g))"

definition clientRepair :: "Client \<Rightarrow> clientEnv \<Rightarrow> (string list \<Rightarrow> string option) \<Rightarrow> (string \<Rightarrow> 'a option) \<Rightarrow> string list \<Rightarrow> gateway \<Rightarrow> gateway \<times> (clientErr + 'a)" where
  "clientRepair c ce enc dec keys g = postJSON c ce dec ''/repair'' (enc keys) g"

definition clientRepairDivergent :: "Client \<Rightarrow> clientEnv \<Rightarrow> (string \<Rightarrow> 'a option) \<Rightarrow> gateway \<Rightarrow> gateway \<times> (clientErr + 'a)" where
  "clientRepairDivergent c ce dec g = onAnswer (decoded ce dec) (request c ce ''POST'' ''/repair?divergent=true'' '''' [] g)"

definition clientSnapshot :: "Client \<Rightarrow> clientEnv \<Rightarrow> (string \<Rightarrow> string option) \<Rightarrow> gateway \<Rightarrow> gateway \<times> (clientErr + string)" where
  "clientSnapshot c ce dec g = onAnswer (decoded ce dec) (request c ce ''POST'' ''/snapshot'' '''' [] g)"

definition clientMetrics :: "Client \<Rightarrow> clientEnv \<Rightarrow> gateway \<Rightarrow> gateway \<times> (clientErr + string)" where
  "clientMetrics c ce g = onAnswer (readAll ce) (request c ce ''GET'' ''/metrics'' '''' [] g)"

definition clientPreviewRepair ::
  "Client \<Rightarrow> clientEnv \<Rightarrow> (previewRequest \<Rightarrow> string option) \<Rightarrow> (string \<Rightarrow> RepairPlan option) \<Rightarrow> string list \<Rightarrow> bool \<Rightarrow> int \<Rightarrow> int \<Rightarrow> gateway \<Rightarrow> gateway \<times> (clientErr + RepairPlan)" where
  "clientPreviewRepair c ce enc dec keys divergent offset limit g = postJSON c ce dec ''/repair/preview''
     (enc \<lparr>pq_ID = '''', pq_Keys = keys, pq_Divergent = divergent, pq_Offset = offset, pq_Limit = limit\<rparr>) g"

definition clientApplyRepairPlan ::
  "Client \<Rightarrow> clientEnv \<Rightarrow> (RepairPlan \<Rightarrow> string option) \<Rightarrow> (string \<Rightarrow> RepairReport option) \<Rightarrow> RepairPlan \<Rightarrow> gateway \<Rightarrow> gateway \<times> (clientErr + RepairReport)" where
  "clientApplyRepairPlan c ce enc dec plan g = postJSON c ce dec ''/repair/apply'' (enc plan) g"

definition clientRepairPlanPage ::
  "Client \<Rightarrow> clientEnv \<Rightarrow> (previewRequest \<Rightarrow> string option) \<Rightarrow> (string \<Rightarrow> RepairPlan option) \<Rightarrow> string \<Rightarrow> int \<Rightarrow> int \<Rightarrow> gateway \<Rightarrow> gateway \<times> (clientErr + RepairPlan)" where
  "clientRepairPlanPage c ce enc dec planID offset limit g = postJSON c ce dec ''/repair/preview''
     (enc \<lparr>pq_ID = planID, pq_Keys = [], pq_Divergent = False, pq_Offset = offset, pq_Limit = limit\<rparr>) g"

definition clientPreviewRestore ::
  "Client \<Rightarrow> clientEnv \<Rightarrow> (string \<times> bool \<times> bool \<Rightarrow> string option) \<Rightarrow> (string \<Rightarrow> RepairPlan option) \<Rightarrow> string \<Rightarrow> bool \<Rightarrow> bool \<Rightarrow> gateway \<Rightarrow> gateway \<times> (clientErr + RepairPlan)" where
  "clientPreviewRestore c ce enc dec backup deleteMissing allowCross g = postJSON c ce dec ''/restore/preview'' (enc (backup, deleteMissing, allowCross)) g"

definition clientApplyRestore ::
  "Client \<Rightarrow> clientEnv \<Rightarrow> (string \<times> string list \<Rightarrow> string option) \<Rightarrow> (string \<Rightarrow> RepairReport option) \<Rightarrow> string \<Rightarrow> string list \<Rightarrow> gateway \<Rightarrow> gateway \<times> (clientErr + RepairReport)" where
  "clientApplyRestore c ce enc dec planID keys g = postJSON c ce dec ''/restore/apply'' (enc (planID, keys)) g"

section \<open>A key arrives as it was written\<close>

lemma byte_char_of: "byte (char_of n) = n mod 256"
  by (simp add: byte_def)

lemma unhex_hexUpper: "d < 16 \<Longrightarrow> unhex (hexUpper d) = Some d"
  by (auto simp: unhex_def hexUpper_def byte_char_of)

lemma char_byte: "char_of (16 * (byte c div 16) + byte c mod 16) = c" "char_of (byte c) = c"
  by (simp_all add: byte_def)

lemma nibbles: "byte c div 16 < 16" "byte c mod 16 < 16"
  using byte_less [of c] by (simp_all add: less_mult_imp_div_less)

lemma unescape_percent: "unescape q (percentByte c @ rest) = map_option ((#) c) (unescape q rest)"
  using nibbles [of c] by (simp add: percentByte_def unhex_hexUpper char_byte)

lemma unescape_plain: "c \<noteq> CHR ''%'' \<Longrightarrow> c \<noteq> CHR ''+'' \<Longrightarrow> unescape q ([c] @ rest) = map_option ((#) c) (unescape q rest)"
  by simp

lemma letterOrDigit_plain: "letterOrDigit c \<Longrightarrow> c \<noteq> CHR ''%'' \<and> c \<noteq> CHR ''+''"
  by (auto simp: letterOrDigit_def byte_def)

lemma unescape_escapes: "unescape q (escapeKey s) = Some s" "unescape q (queryEscape s) = Some s"
proof -
  show "unescape q (escapeKey s) = Some s"
    using unescape_percent unescape_plain letterOrDigit_plain by (induction s) (auto simp del: append.simps unescape.simps(2))
  show "unescape q (queryEscape s) = Some s"
    using unescape_percent unescape_plain letterOrDigit_plain by (induction s) (auto simp del: append.simps unescape.simps(2))
qed

text \<open>The characters an escaped string is written with.\<close>

definition escapedChar :: "char \<Rightarrow> bool" where
  "escapedChar c \<longleftrightarrow> letterOrDigit c \<or> c \<in> {CHR ''-'', CHR ''_'', CHR ''~'', CHR ''%''}"

lemma hexUpper_letter: "d < 16 \<Longrightarrow> letterOrDigit (hexUpper d)"
  by (auto simp: letterOrDigit_def hexUpper_def byte_char_of)

lemma escaped_chars: "c \<in> set (escapeKey s) \<Longrightarrow> escapedChar c" "c \<in> set (queryEscape s) \<Longrightarrow> escapedChar c \<or> c = CHR ''.''"
proof -
  have p: "d \<in> set (percentByte b) \<Longrightarrow> escapedChar d" for d b
    using nibbles [of b] by (auto simp: percentByte_def escapedChar_def hexUpper_letter)
  show "c \<in> set (escapeKey s) \<Longrightarrow> escapedChar c"
    using p by (induction s) (auto simp: escapedChar_def split: if_splits)
  show "c \<in> set (queryEscape s) \<Longrightarrow> escapedChar c \<or> c = CHR ''.''"
    using p by (induction s) (auto simp: escapedChar_def split: if_splits)
qed

lemma escapedChar_not: "escapedChar c \<Longrightarrow> c \<notin> {CHR ''/'', CHR ''?'', CHR ''.'', CHR ''&'', CHR ''='', CHR '';''}"
  by (auto simp: escapedChar_def letterOrDigit_def byte_def)

lemma escapes_avoid: "d \<in> {CHR ''/'', CHR ''?'', CHR ''.''} \<Longrightarrow> d \<notin> set (escapeKey s)" "d \<in> {CHR ''&'', CHR ''='', CHR '';''} \<Longrightarrow> d \<notin> set (queryEscape s)"
  using escaped_chars [of d s] escapedChar_not [of d] by auto

lemma cutAt_plain: "d \<notin> set s \<Longrightarrow> cutAt d s = (s, '''')" "d \<notin> set s \<Longrightarrow> cutAt d (s @ d # t) = (s, t)"
proof -
  assume d: "d \<notin> set s"
  then have t: "takeWhile (\<lambda>c. c \<noteq> d) s = s" "takeWhile (\<lambda>c. c \<noteq> d) (s @ d # t) = s"
    by (auto simp: takeWhile_eq_all_conv takeWhile_append)
  show "cutAt d s = (s, '''')" "cutAt d (s @ d # t) = (s, t)"
    unfolding cutAt_def t Let_def by simp_all
qed

lemma splitOn_plain: "d \<notin> set s \<Longrightarrow> splitOn d cur s = [cur @ s]"
  by (induction s arbitrary: cur) auto

lemma key_target:
  assumes "root \<in> {''/kv/'', ''/history/''}"
  shows "parseTarget (root @ escapeKey key) = Some (root @ key, [])" "plainTarget (root @ escapeKey key)"
proof -
  have q: "CHR ''?'' \<notin> set (root @ escapeKey key)"
    using assms escapes_avoid(1) [of "CHR ''?''" key] by auto
  have u: "unescape False (root @ escapeKey key) = Some (root @ key)"
    using assms unescape_escapes(1) [of False key] by auto
  show "parseTarget (root @ escapeKey key) = Some (root @ key, [])"
    using cutAt_plain(1) [OF q] u by (simp add: parseTarget_def ParseQuery_def queryPair_def)
  have segs: "splitOn (CHR ''/'') cur (escapeKey key) = [cur @ escapeKey key]" for cur
    by (rule splitOn_plain) (simp add: escapes_avoid)
  have "CHR ''.'' \<notin> set (escapeKey key)" by (simp add: escapes_avoid)
  then have "escapeKey key \<noteq> ''.''" "escapeKey key \<noteq> ''..''" by auto
  then show "plainTarget (root @ escapeKey key)"
    using assms cutAt_plain(1) [OF q] segs by (auto simp: plainTarget_def Let_def)
qed

lemma query_target:
  assumes "root \<in> {(''/kv'', ''?prefix='', []), (''/kv'', ''?watch=1&prefix='', [(''watch'', ''1'')])}"
  shows "case root of (path, start, others) \<Rightarrow> parseTarget (path @ start @ queryEscape pre) = Some (path, others @ [(''prefix'', pre)]) \<and> plainTarget (path @ start @ queryEscape pre)"
proof -
  let ?e = "queryEscape pre"
  have cut: "cutAt (CHR ''?'') (''/kv'' @ CHR ''?'' # t) = (''/kv'', t)" for t
    by (rule cutAt_plain) simp
  have amp: "CHR ''&'' \<notin> set (''prefix='' @ ?e)" using escapes_avoid(2) [of "CHR ''&''" pre] by simp
  have pair: "queryPair (''prefix='' @ ?e) = [(''prefix'', pre)]"
    using cutAt_plain(2) [of "CHR ''=''" "''prefix''" ?e] unescape_escapes(2) [of True pre] escapes_avoid(2) [of "CHR '';''" pre]
    by (simp add: queryPair_def)
  have watch: "queryPair ''watch=1'' = [(''watch'', ''1'')]" by (simp add: queryPair_def cutAt_def)
  have pl: "plainTarget (''/kv'' @ CHR ''?'' # t)" for t
    using cut [of t] by (simp add: plainTarget_def Let_def)
  have "ParseQuery (''prefix='' @ ?e) = [(''prefix'', pre)]"
    using splitOn_plain [OF amp, of "[]"] pair by (simp add: ParseQuery_def)
  moreover have "ParseQuery (''watch=1&prefix='' @ ?e) = [(''watch'', ''1''), (''prefix'', pre)]"
  proof -
    have "splitOn (CHR ''&'') [] (''watch=1&prefix='' @ ?e) = [''watch=1'', ''prefix='' @ ?e]"
      using splitOn_plain [OF amp, of "[]"] by simp
    then show ?thesis using pair watch by (simp add: ParseQuery_def)
  qed
  ultimately have "parseTarget (''/kv'' @ CHR ''?'' # ''prefix='' @ ?e) = Some (''/kv'', [(''prefix'', pre)])"
      "parseTarget (''/kv'' @ CHR ''?'' # ''watch=1&prefix='' @ ?e) = Some (''/kv'', [(''watch'', ''1''), (''prefix'', pre)])"
    unfolding parseTarget_def cut by simp_all
  then show ?thesis
    using assms pl [of "''prefix='' @ ?e"] pl [of "''watch=1&prefix='' @ ?e"] by auto
qed

section \<open>Reaching the handler\<close>

text \<open>What \<open>http.ServeMux\<close> documents: a path in cleaned form that a pattern matches goes to that pattern's handler.\<close>

definition mux_ok :: "clientEnv \<Rightarrow> bool" where
  "mux_ok ce \<longleftrightarrow> (\<forall>target r. plainTarget target \<and> (\<exists>rt. muxRoute r = Inr rt) \<longrightarrow> ce_mux ce target r = None)"

definition headerSafe :: "string \<Rightarrow> bool" where
  "headerSafe s \<longleftrightarrow> validValue s \<and> trimValue s = s"

text \<open>The client reaches the node, and is one it lets in.\<close>

definition connected :: "Client \<Rightarrow> clientEnv \<Rightarrow> string \<Rightarrow> bool" where
  "connected c ce method \<longleftrightarrow> mux_ok ce \<and> ce_net ce = Reached \<and> (\<forall>url. ce_url ce url = None) \<and> (cl_token c = '''' \<or> headerSafe (''Bearer '' @ cl_token c))
     \<and> (ge_Token (ce_gw ce) = '''' \<or> cl_token c = ge_Token (ce_gw ce)) \<and> (\<not> ge_ReadOnly (ce_gw ce) \<or> method = ''GET'')"

definition clientRequest :: "Client \<Rightarrow> string \<Rightarrow> string \<Rightarrow> (string \<times> string) list \<Rightarrow> string \<Rightarrow> (string \<times> string) list \<Rightarrow> httpRequest" where
  "clientRequest c method path query body headers =
     \<lparr>rq_Method = method, rq_Path = path, rq_Query = query, rq_Header = headerMap (authHeader c @ headers), rq_Body = (body, None)\<rparr>"

abbreviation (input) targetEnv :: "clientEnv \<Rightarrow> string \<Rightarrow> gatewayEnv" where
  "targetEnv ce target \<equiv> (ce_gw ce)\<lparr>ge_mux := ce_mux ce target\<rparr>"

lemmas canonical_eval = CanonicalMIMEHeaderKey_def asciiUpper_def asciiLower_def byte_def char_of_def bit_Suc_0_iff

lemma canonical_names [simp]:
  "CanonicalMIMEHeaderKey ''Authorization'' = ''Authorization''" "CanonicalMIMEHeaderKey ''X-Rezoagwe-Token'' = ''X-Rezoagwe-Token''"
  "CanonicalMIMEHeaderKey ''X-Rezoagwe-Durability'' = ''X-Rezoagwe-Durability''" "CanonicalMIMEHeaderKey ''X-Rezoagwe-TTL'' = ''X-Rezoagwe-Ttl''"
  "CanonicalMIMEHeaderKey ''If-Match'' = ''If-Match''" "CanonicalMIMEHeaderKey ''If-None-Match'' = ''If-None-Match''"
  "CanonicalMIMEHeaderKey ''Content-Type'' = ''Content-Type''" "CanonicalMIMEHeaderKey ''ETag'' = ''Etag''" "CanonicalMIMEHeaderKey ''Accept'' = ''Accept''"
  "CanonicalMIMEHeaderKey ''Last-Event-ID'' = ''Last-Event-Id''" "CanonicalMIMEHeaderKey ''X-Rezoagwe-Expires'' = ''X-Rezoagwe-Expires''"
  "CanonicalMIMEHeaderKey ''X-Rezoagwe-Accepted'' = ''X-Rezoagwe-Accepted''"
  by (simp_all add: canonical_eval)

lemma sent_condition:
  "condition (clientRequest c method path query body headers) name =
     map_option (\<lambda>v. trimValue v) (map_of (map (\<lambda>(k, v). (CanonicalMIMEHeaderKey k, v)) (rev (authHeader c @ headers))) (CanonicalMIMEHeaderKey name))"
proof -
  have "headerMap hs k = map_option (\<lambda>v. [trimValue v]) (map_of (map (\<lambda>(k, v). (CanonicalMIMEHeaderKey k, v)) (rev hs)) k)" for hs k
    by (induction hs rule: rev_induct) (auto simp: headerMap_def)
  then show ?thesis
    by (simp add: condition_def clientRequest_def split: option.split)
qed

lemma sent_token:
  assumes "connected c ce method" "''Authorization'' \<notin> CanonicalMIMEHeaderKey ` fst ` set headers" "''X-Rezoagwe-Token'' \<notin> CanonicalMIMEHeaderKey ` fst ` set headers"
  shows "presentedToken (clientRequest c method path query body headers) = cl_token c"
proof -
  have none: "map_of (map (\<lambda>(k, v). (CanonicalMIMEHeaderKey k, v)) (rev headers)) k = None" if "k \<notin> CanonicalMIMEHeaderKey ` fst ` set headers" for k
    using that by (auto simp: map_of_eq_None_iff image_image case_prod_beta)
  have "cl_token c = '''' \<or> trimValue (''Bearer '' @ cl_token c) = ''Bearer '' @ cl_token c"
    using assms(1) by (auto simp: connected_def headerSafe_def)
  then show ?thesis
    using none [OF assms(2)] none [OF assms(3)] by (auto simp: presentedToken_def headerGet_def sent_condition authHeader_def map_add_def HasPrefix_def)
qed

lemma client_admitted:
  assumes "connected c ce method" "''Authorization'' \<notin> CanonicalMIMEHeaderKey ` fst ` set headers" "''X-Rezoagwe-Token'' \<notin> CanonicalMIMEHeaderKey ` fst ` set headers"
    and "plainTarget target" "muxRoute (clientRequest c method path query body headers) = Inr rt"
  shows "admitted (targetEnv ce target) (clientRequest c method path query body headers)"
  using assms(1,4,5) sent_token [OF assms(1-3), of path query body] by (auto simp: connected_def admitted_def mux_ok_def clientRequest_def)

lemma request_served:
  assumes "connected c ce method" "list_all (\<lambda>(k, v). validValue v) headers" "parseTarget target = Some (path, query)"
  shows "request c ce method target body headers g = (case ServeHTTP (targetEnv ce target) (clientRequest c method path query body headers) g of
      (g', None) \<Rightarrow> (g', Inl (OtherError ''EOF''))
    | (g', Some resp) \<Rightarrow> (g', if rs_Status resp \<ge> 300 then Inl (readError ce resp) else Inr resp))"
proof -
  have v: "list_all (\<lambda>(k, v). validValue v) (authHeader c @ headers)"
    using assms(1,2) by (auto simp: connected_def authHeader_def headerSafe_def)
  show ?thesis
    using assms(1) v by (simp add: request_def httpDo_def serveTarget_def assms(3) connected_def clientRequest_def split: prod.split option.split)
qed

section \<open>Reading and writing keys\<close>

lemma put_header_names: "CanonicalMIMEHeaderKey ` fst ` set (putHeaders ce opt) \<subseteq> {''X-Rezoagwe-Durability'', ''X-Rezoagwe-Ttl'', ''If-Match''}"
  by (auto simp: putHeaders_def)

lemma decimal_valid: "validValue (decimalInt i)"
proof -
  have "isDigit c \<Longrightarrow> byte c = 9 \<or> 32 \<le> byte c \<and> byte c \<noteq> 127" for c by (auto simp: isDigit_def)
  then have "validValue (decimalNat n)" for n
    using decimal_digits [of _ n] by (auto simp: validValue_def list_all_iff)
  then show ?thesis by (auto simp: decimalInt_def validValue_def byte_def)
qed

lemma put_headers_valid: "validValue (po_IfMatch opt) \<Longrightarrow> list_all (\<lambda>(k, v). validValue v) (putHeaders ce opt)"
  using decimal_valid by (auto simp: putHeaders_def validValue_def byte_def)

lemma put_request:
  assumes "connected c ce ''PUT''"
  shows "kvRequest (targetEnv ce (''/kv/'' @ escapeKey key)) ''PUT'' key (clientRequest c ''PUT'' (''/kv/'' @ key) [] val (putHeaders ce opt))"
proof -
  let ?r = "clientRequest c ''PUT'' (''/kv/'' @ key) [] val (putHeaders ce opt)"
  have m: "muxRoute ?r = Inr (PutR key)" by (rule kv_routes(2)) (simp_all add: clientRequest_def)
  have "admitted (targetEnv ce (''/kv/'' @ escapeKey key)) ?r"
    using put_header_names [of ce opt] by (intro client_admitted [OF assms _ _ key_target(2) m]) auto
  then show ?thesis by (simp add: kvRequest_def clientRequest_def)
qed

lemma get_request:
  assumes "connected c ce ''GET''"
  shows "kvRequest (targetEnv ce (''/kv/'' @ escapeKey key)) ''GET'' key (clientRequest c ''GET'' (''/kv/'' @ key) [] '''' [])"
proof -
  let ?r = "clientRequest c ''GET'' (''/kv/'' @ key) [] '''' []"
  have m: "muxRoute ?r = Inr (GetR key)" by (rule kv_routes(1)) (simp_all add: clientRequest_def)
  have "admitted (targetEnv ce (''/kv/'' @ escapeKey key)) ?r"
    by (intro client_admitted [OF assms _ _ key_target(2) m]) auto
  then show ?thesis by (simp add: kvRequest_def clientRequest_def)
qed

lemma clientPut_served:
  assumes "connected c ce ''PUT''" "validValue (po_IfMatch opt)"
  shows "clientPut c ce key val opt g =
    (case handlePut (targetEnv ce (''/kv/'' @ escapeKey key)) (clientRequest c ''PUT'' (''/kv/'' @ key) [] val (putHeaders ce opt)) key (countRequest g) of
      (g', None) \<Rightarrow> (g', Inl (OtherError ''EOF''))
    | (g', Some resp) \<Rightarrow> (g', if rs_Status resp \<ge> 300 then Inl (readError ce resp) else Inr (trimQuotes (respHeader resp ''ETag''))))"
  unfolding clientPut_def kv_served(2) [OF put_request [OF assms(1)], symmetric]
    request_served [OF assms(1) put_headers_valid [OF assms(2)] key_target(1) [OF insertI1]]
  by (simp add: onAnswer_def split: prod.split option.split)

lemma clientGet_served:
  assumes "connected c ce ''GET''"
  shows "clientGet c ce key g = (countRequest g, case GetEntry (nodeStore (gwNode g)) key of
      None \<Rightarrow> Inl (readError ce (writeErr [] 404 (NoSuchKey key)))
    | Some e \<Rightarrow> Inr (en_Value e, trimQuotes (quoteTag (en_Version e))))"
proof -
  let ?r = "clientRequest c ''GET'' (''/kv/'' @ key) [] '''' []"
  have h: "headerGet ?r ''If-None-Match'' = ''''"
    by (simp add: headerGet_def sent_condition authHeader_def)
  have s: "clientGet c ce key g = (case ServeHTTP (targetEnv ce (''/kv/'' @ escapeKey key)) ?r g of
      (g', None) \<Rightarrow> (g', Inl (OtherError ''EOF''))
    | (g', Some resp) \<Rightarrow> (g', if rs_Status resp \<ge> 300 then Inl (readError ce resp) else Inr (bodyBytes ce (rs_Body resp), trimQuotes (respHeader resp ''ETag''))))"
    using request_served [OF assms _ key_target(1) [of "''/kv/''" key], of "[]" "''''" g]
    by (simp add: clientGet_def onAnswer_def split: prod.split option.split)
  show ?thesis
    unfolding s kv_served(1) [OF get_request [OF assms]] handleGet_def h Let_def
    by (cases "GetEntry (nodeStore (gwNode g)) key") (simp_all add: writeErr_def writeJSON_def bodyBytes_def respHeader_def)
qed

lemma put_status: "handlePut env r key g = (g', Some resp) \<Longrightarrow> rs_Status resp = 204 \<or> 400 \<le> rs_Status resp"
proof -
  assume h: "handlePut env r key g = (g', Some resp)"
  have "rs_Status resp = 204 \<or> 400 \<le> rs_Status resp" if x: "storePut env r key g x = (g', Some resp)" for x
  proof -
    obtain n1 res where s: "storePut env r key g (n1, res) = (g', Some resp)" using x by (cases x) auto
    show ?thesis
    proof (cases res)
    case (Inl err)
    then show ?thesis using s by (cases err) (auto simp: storePut_def writeRefusal_def writeErr_def writeJSON_def)
  next
    case (Inr u)
    then show ?thesis using s finishPut_frame(3) [of env r "[(''ETag'', quoteTag (u_Version u))]" "setNode n1 g" g' resp] by (auto simp: storePut_def)
    qed
  qed
  then show ?thesis
    using handlePut_stages [of r env key g] h by (elim disjE exE conjE) (auto simp: prod_eq_iff)
qed

lemma put_etag: "finishPut env r [(''ETag'', t)] g = (g', Some resp) \<Longrightarrow> respHeader resp ''ETag'' = t"
  by (auto simp: finishPut_def respHeader_def Let_def writeErr_def writeJSON_def writeHeader_def split: prod.splits outcome.splits if_splits)

lemma StatusOf_readError [simp]: "StatusOf (readError ce resp) = rs_Status resp"
  by (simp add: readError_def Let_def)

lemma connected_GET: "connected c ce method \<Longrightarrow> connected c ce ''GET''"
  by (auto simp: connected_def)

lemma clientPut_answer:
  assumes "connected c ce ''PUT''" "validValue (po_IfMatch opt)" "clientPut c ce key val opt g = (g', res)"
  obtains resp where
    "handlePut (targetEnv ce (''/kv/'' @ escapeKey key)) (clientRequest c ''PUT'' (''/kv/'' @ key) [] val (putHeaders ce opt)) key (countRequest g) = (g', Some resp)"
    "res = (if rs_Status resp = 204 then Inr (trimQuotes (respHeader resp ''ETag'')) else Inl (readError ce resp))"
  | "res = Inl (OtherError ''EOF'')"
proof -
  obtain resp0 where h: "handlePut (targetEnv ce (''/kv/'' @ escapeKey key)) (clientRequest c ''PUT'' (''/kv/'' @ key) [] val (putHeaders ce opt)) key (countRequest g) = (g', resp0)"
      and res: "res = (case resp0 of None \<Rightarrow> Inl (OtherError ''EOF'')
        | Some resp \<Rightarrow> if rs_Status resp \<ge> 300 then Inl (readError ce resp) else Inr (trimQuotes (respHeader resp ''ETag'')))"
    using assms(3) unfolding clientPut_served [OF assms(1,2)] by (auto split: prod.splits option.splits)
  show ?thesis
  proof (cases resp0)
    case None
    then show ?thesis using that(2) res by simp
  next
    case (Some resp)
    then show ?thesis using that(1) h res put_status [OF h [unfolded Some]] by auto
  qed
qed

text \<open>
  A write through the client.  Over a connection that carries the request and its answer, for any key and any bytes: when \<open>Put\<close> returns a version, the node
  holds exactly those bytes under that key, \<open>Get\<close> returns them with the same version, and no other key was touched; so too when the error is a 503 (stored,
  but not known to be on disk); with any other status nothing of the model changed.
\<close>

theorem client_put_reads_back:
  assumes "connected c ce ''PUT''" "validValue (po_IfMatch opt)" "clientPut c ce key val opt g = (g', res)"
  shows "case res of
      Inr ver \<Rightarrow> snd (clientGet c ce key g') = Inr (val, ver)
        \<and> (\<forall>k. k \<noteq> key \<longrightarrow> fmlookup (kv_store (nodeStore (gwNode g'))) k = fmlookup (kv_store (nodeStore (gwNode g))) k)
    | Inl e \<Rightarrow> (StatusOf e = 503 \<longrightarrow> (\<exists>ver. snd (clientGet c ce key g') = Inr (val, ver)))
        \<and> (StatusOf e \<notin> {0, 503} \<longrightarrow> nd_Model (gwNode g') = nd_Model (gwNode g))"
  using assms
proof (cases rule: clientPut_answer)
  case (1 resp)
  let ?r = "clientRequest c ''PUT'' (''/kv/'' @ key) [] val (putHeaders ce opt)"
  have got: "snd (clientGet c ce key g') = Inr (val, trimQuotes (respHeader resp ''ETag''))"
      "\<forall>k. k \<noteq> key \<longrightarrow> fmlookup (kv_store (nodeStore (gwNode g'))) k = fmlookup (kv_store (nodeStore (gwNode g))) k" if s: "rs_Status resp \<in> {204, 503}"
  proof -
    obtain body expect where "stored (targetEnv ce (''/kv/'' @ escapeKey key)) ?r key (countRequest g) (g', Some resp) body expect"
      using handlePut_outcome [OF 1(1)] s by auto
    then obtain k n1 u where st: "readBody ?r = Inr body" "0 \<le> k" "writeKey key body (k * second) expect (gwNode (countRequest g)) = (n1, Inr u)"
        and fin: "finishPut (targetEnv ce (''/kv/'' @ escapeKey key)) ?r [(''ETag'', quoteTag (u_Version u))] (setNode n1 (countRequest g)) = (g', Some resp)"
      unfolding stored_def by auto
    have "body = val"
      using st(1) by (auto simp: readBody_def clientRequest_def split: if_splits)
    then show "snd (clientGet c ce key g') = Inr (val, trimQuotes (respHeader resp ''ETag''))"
        "\<forall>k. k \<noteq> key \<longrightarrow> fmlookup (kv_store (nodeStore (gwNode g'))) k = fmlookup (kv_store (nodeStore (gwNode g))) k"
      using writeKey_stored(1,2) [OF st(3,2) refl] finishPut_frame(1) [OF fin] put_etag [OF fin]
      by (simp_all add: clientGet_served [OF connected_GET [OF assms(1)]])
  qed
  moreover have "nd_Model (gwNode g') = nd_Model (gwNode g)" if "rs_Status resp \<notin> {204, 503}"
    using handlePut_outcome [OF 1(1)] finishPut_frame(3) that unfolding stored_def by fastforce
  ultimately show ?thesis using 1(2) by auto
qed simp

text \<open>A version that survives being a header: not the zero version, printable, not ending in a quotation mark or a blank.\<close>

definition taggable :: "version \<Rightarrow> bool" where
  "taggable v \<longleftrightarrow> \<not> Zero v \<and> validValue (Node v) \<and> (Node v = '''' \<or> \<not> isQuote (last (Node v)) \<and> \<not> blank (last (Node v)))"

lemma taggable_header:
  assumes "taggable v"
  shows "trimQuotes (quoteTag v) = formatVersion v" "headerSafe (formatVersion v)" "formatVersion v \<noteq> ''''" "parseVersion (formatVersion v) = Some v"
proof -
  have q: "Node v = '''' \<or> \<not> isQuote (last (Node v))" using assms by (auto simp: taggable_def)
  note f = formatVersion_ends [OF q]
  show "trimQuotes (quoteTag v) = formatVersion v" using trim_quoted [OF f(1-3)] by (simp add: quoteTag_def)
  show "formatVersion v \<noteq> ''''" "parseVersion (formatVersion v) = Some v" using f(1) parse_tag(2) [OF q] by simp_all
  have h: "\<not> blank (hd (formatVersion v))" using f(4) by (auto simp: blank_def isDigit_def byte_def)
  have l: "\<not> blank (last (formatVersion v))" using assms by (auto simp: taggable_def formatVersion_def blank_def byte_def)
  have "trimValue (formatVersion v) = formatVersion v"
    using dropWhile_stops [of "formatVersion v" blank "[]"] dropWhile_stops [of "rev (formatVersion v)" blank "[]"] f(1) h l
    by (simp add: trimValue_def hd_rev)
  moreover have "validValue (decimalNat (unat (Counter v)))" using decimal_valid [of "uint (Counter v)"] by (simp add: decimalInt_def)
  then have "validValue (formatVersion v)"
    using assms by (auto simp: taggable_def formatVersion_def validValue_def byte_def)
  ultimately show "headerSafe (formatVersion v)" by (simp add: headerSafe_def)
qed

text \<open>
  C9.  Compare-and-swap through the client.  What \<open>Get\<close> returned as the version, given to a later \<open>Put\<close> as \<open>IfMatch\<close>, guards it: when the \<open>Put\<close> succeeds, nobody
  had written the key since that \<open>Get\<close> (it still had that version); when it fails with what \<open>Conflict\<close> recognises, somebody had, and nothing was changed.
\<close>

theorem client_compare_and_swap:
  assumes "connected c ce ''GET''" "snd (clientGet c ce key g0) = Inr (val0, ver)"
    and "\<And>e. GetEntry (nodeStore (gwNode g0)) key = Some e \<Longrightarrow> taggable (en_Version e)"
    and "connected c ce' ''PUT''" "clientPut c ce' key val (opt\<lparr>po_IfMatch := ver\<rparr>) g = (g', res)"
  shows "\<exists>e0. GetEntry (nodeStore (gwNode g0)) key = Some e0 \<and> en_Value e0 = val0
    \<and> (case res of
        Inr _ \<Rightarrow> map_option en_Version (GetEntry (nodeStore (gwNode g)) key) = Some (en_Version e0)
      | Inl e \<Rightarrow> Conflict e \<longrightarrow> map_option en_Version (GetEntry (nodeStore (gwNode g)) key) \<noteq> Some (en_Version e0) \<and> nd_Model (gwNode g') = nd_Model (gwNode g))"
proof -
  obtain e0 where e0: "GetEntry (nodeStore (gwNode g0)) key = Some e0" "en_Value e0 = val0" "ver = trimQuotes (quoteTag (en_Version e0))"
    using assms(2) unfolding clientGet_served [OF assms(1)] by (auto split: option.splits)
  have tag: "taggable (en_Version e0)" using assms(3) [OF e0(1)] .
  note t = taggable_header [OF tag]
  have ver: "ver = formatVersion (en_Version e0)" "validValue ver" "ver \<noteq> ''''" "trimValue ver = ver" "parseVersion ver = Some (en_Version e0)"
    using e0(3) t by (simp_all add: headerSafe_def)
  let ?opt = "opt\<lparr>po_IfMatch := ver\<rparr>"
  let ?r = "clientRequest c ''PUT'' (''/kv/'' @ key) [] val (putHeaders ce' ?opt)"
  have cond: "condition ?r ''If-Match'' = Some ver"
    using ver(3,4) by (simp add: sent_condition putHeaders_def)
  have z: "\<not> Zero (en_Version e0)" using tag by (simp add: taggable_def)
  have "validValue (po_IfMatch ?opt)" using ver(2) by simp
  from assms(4) this assms(5) show ?thesis
  proof (cases rule: clientPut_answer)
    case (1 resp)
    note gp = guarded_put [OF 1(1) cond ver(5) z, simplified]
    show ?thesis using e0(1,2) gp 1(2) by (auto simp: Conflict_def)
  next
    case 2
    then show ?thesis using e0(1,2) by (auto simp: Conflict_def)
  qed
qed

text \<open>
  C23.  What the client asks for is what the gateway looks up.  Every key, of any bytes (slashes, dots, spaces, control characters, the empty key), arrives as itself:
  its escaped path is never redirected by the mux, unescapes to the key and routes to the handler of that key; and so does every prefix of a listing or a watch.
\<close>

theorem client_addresses_keys:
  "parseTarget (''/kv/'' @ escapeKey key) = Some (''/kv/'' @ key, []) \<and> plainTarget (''/kv/'' @ escapeKey key)
   \<and> muxRoute (clientRequest c ''GET'' (''/kv/'' @ key) [] '''' []) = Inr (GetR key)
   \<and> muxRoute (clientRequest c ''PUT'' (''/kv/'' @ key) [] val hs) = Inr (PutR key)
   \<and> muxRoute (clientRequest c ''DELETE'' (''/kv/'' @ key) [] '''' hs) = Inr (DeleteR key)
   \<and> parseTarget (''/history/'' @ escapeKey key) = Some (''/history/'' @ key, []) \<and> plainTarget (''/history/'' @ escapeKey key)
   \<and> parseTarget (''/kv?prefix='' @ queryEscape pre) = Some (''/kv'', [(''prefix'', pre)]) \<and> plainTarget (''/kv?prefix='' @ queryEscape pre)
   \<and> parseTarget (''/kv?watch=1&prefix='' @ queryEscape pre) = Some (''/kv'', [(''watch'', ''1''), (''prefix'', pre)])"
proof -
  have m: "muxRoute (clientRequest c ''GET'' (''/kv/'' @ key) [] '''' []) = Inr (GetR key)"
      "muxRoute (clientRequest c ''PUT'' (''/kv/'' @ key) [] val hs) = Inr (PutR key)"
      "muxRoute (clientRequest c ''DELETE'' (''/kv/'' @ key) [] '''' hs) = Inr (DeleteR key)"
    by (rule kv_routes; simp add: clientRequest_def)+
  have q: "parseTarget (''/kv?prefix='' @ queryEscape pre) = Some (''/kv'', [(''prefix'', pre)])" "plainTarget (''/kv?prefix='' @ queryEscape pre)"
      "parseTarget (''/kv?watch=1&prefix='' @ queryEscape pre) = Some (''/kv'', [(''watch'', ''1''), (''prefix'', pre)])"
    using query_target [of "(''/kv'', ''?prefix='', [])" pre] query_target [of "(''/kv'', ''?watch=1&prefix='', [(''watch'', ''1'')])" pre] by simp_all
  note k = key_target [of "''/kv/''" key] key_target [of "''/history/''" key]
  show ?thesis
    by (intro conjI k m q insertI1 insertI2)
qed

section \<open>Two behaviours of the client\<close>

text \<open>
  A lifetime below one second is sent as \<open>0\<close>, which the gateway reads as no lifetime: the key is kept for good.
  \<open>secs_ok\<close> is what \<open>int(d.Seconds())\<close> gives where the floating-point sum is not rounded up to the next second.
\<close>

lemmas decimal_eval = decimalNat.simps char_of_def bit_Suc_0_iff

definition secs_ok :: "(nanos \<Rightarrow> int) \<Rightarrow> bool" where
  "secs_ok secs \<longleftrightarrow> (\<forall>d. 0 \<le> d \<and> d < 2 ^ 22 * second \<longrightarrow> secs d = d div second)"

lemma subsecond_ttl_is_forever:
  assumes "secs_ok (ce_secs ce)" "0 < po_TTL opt" "po_TTL opt < second"
  shows "putTTL (clientRequest c ''PUT'' path [] val (putHeaders ce opt)) = Some 0"
proof -
  have "po_TTL opt div second = 0" using assms(2,3) by simp
  moreover have "po_TTL opt < 2 ^ 22 * second" using assms(3) by (simp add: second_def)
  ultimately have "ce_secs ce (po_TTL opt) = 0" using assms(1,2) by (simp add: secs_ok_def)
  moreover have "decimalInt 0 = ''0''" by (simp add: decimalInt_def decimal_eval)
  moreover have "trimValue ''0'' = ''0''" by (simp add: trimValue_def blank_def byte_def)
  ultimately have h: "headerGet (clientRequest c ''PUT'' path [] val (putHeaders ce opt)) ''X-Rezoagwe-TTL'' = ''0''"
    using assms(2) by (simp add: headerGet_def sent_condition putHeaders_def)
  have "Atoi ''0'' = Some 0" using Atoi_decimal [of 0] by (simp add: decimal_eval)
  then show ?thesis by (simp add: putTTL_def h second_def)
qed

text \<open>\<open>consistencyBody\<close> does not look at the status of the second answer: one that is an error is returned as a report, if it can be decoded, with no error.\<close>

lemma consistency_error_is_a_report:
  assumes "request c ce ''GET'' ''/consistency'' '''' [] g = (g1, Inl (HttpError 409 msg))" "ce_url ce2 (cl_base c @ ''/consistency'') = None"
    and "httpDo ce2 ''GET'' ''/consistency'' '''' (authHeader c) g1 = (g2, Inr resp)" "rs_Status resp \<notin> {200, 409}"
    and "dec (bodyBytes ce2 (rs_Body resp)) = Some report"
  shows "clientConsistency c ce ce2 dec field g = (g2, Inr (report, field report = Some True))"
  using assms by (auto simp: clientConsistency_def consistencyBody_def onAnswer_def decoded_def split: option.split)

section \<open>An instance of the client\<close>

definition demo_client :: Client where
  "demo_client = NewClient ''node:8080/'' ''''"

definition demo_ce :: clientEnv where
  "demo_ce = \<lparr>ce_gw = demo_env '''' False, ce_mux = (\<lambda>_ _. None), ce_net = Reached, ce_url = (\<lambda>_. None), ce_wire = (\<lambda>_. ''''), ce_errorField = (\<lambda>_. None),
     ce_statusText = (\<lambda>_. ''''), ce_secs = (\<lambda>d. d div second)\<rparr>"

definition demo_opt :: PutOptions where
  "demo_opt = \<lparr>po_Durable = False, po_TTL = 0, po_IfMatch = ''''\<rparr>"

lemma demo_client_token: "cl_token demo_client = ''''" "cl_base demo_client = ''http://node:8080''"
  by (simp_all add: demo_client_def NewClient_def Let_def HasPrefix_def)

lemma demo_connected: "connected demo_client demo_ce method"
  by (simp add: connected_def mux_ok_def demo_ce_def demo_client_token headerSafe_def validValue_def trimValue_def blank_def byte_def demo_env_def)

lemma demo_client_put: "clientPut demo_client demo_ce ''k'' ''v'' demo_opt demo_gateway = (demo_stored, Inr ''1.n1'')"
proof -
  have h: "headerGet (clientRequest c ''PUT'' path [] ''v'' (putHeaders demo_ce demo_opt)) ''X-Rezoagwe-Durability'' = ''''"
      "headerGet (clientRequest c ''PUT'' path [] ''v'' (putHeaders demo_ce demo_opt)) ''X-Rezoagwe-TTL'' = ''''"
      "condition (clientRequest c ''PUT'' path [] ''v'' (putHeaders demo_ce demo_opt)) ''If-Match'' = None"
      "readBody (clientRequest c ''PUT'' path [] ''v'' (putHeaders demo_ce demo_opt)) = Inr ''v''" for c path
    by (simp_all add: headerGet_def sent_condition putHeaders_def demo_opt_def authHeader_def) (simp add: clientRequest_def readBody_def maxBody_def)
  have t: "trimQuotes (quoteTag (Version 1 ''n1'')) = ''1.n1''"
    by (simp add: trimQuotes_def quoteTag_def isQuote_def formatVersion_def decimal_eval)
  show ?thesis
    unfolding clientPut_served [OF demo_connected, of demo_opt, simplified demo_opt_def validValue_def, simplified, folded demo_opt_def]
      handlePut_def Let_def putTTL_def h
    by (simp add: NodeSet_def demo_gw_write storePut_def finishPut_def h demo_stored_def [symmetric] demo_update_def writeHeader_def respHeader_def t)
qed

theorem client_put_reads_back_witness:
  "\<exists>g'. clientPut demo_client demo_ce ''k'' ''v'' demo_opt demo_gateway = (g', Inr ''1.n1'') \<and> snd (clientGet demo_client demo_ce ''k'' g') = Inr (''v'', ''1.n1'')"
proof -
  have "validValue (po_IfMatch demo_opt)" by (simp add: validValue_def demo_opt_def)
  from client_put_reads_back [OF demo_connected this demo_client_put] demo_client_put show ?thesis by simp
qed

theorem client_compare_and_swap_witness:
  "snd (clientGet demo_client demo_ce ''k'' demo_stored) = Inr (''v'', ''1.n1'')
   \<and> (\<exists>e. snd (clientPut demo_client demo_ce ''k'' ''w'' (demo_opt\<lparr>po_IfMatch := ''1.n1''\<rparr>) demo_gateway) = Inl e)"
proof -
  have e: "GetEntry (nodeStore (gwNode demo_stored)) ''k'' = Some \<lparr>en_Key = ''k'', en_Value = ''v'', en_Version = Version 1 ''n1'', en_Deleted = False, en_ExpiresAt = 0\<rparr>"
    using writeKey_stored(1) [of "''k''" "''v''" 0 None _ demo_written demo_update 0] demo_gw_write by (simp add: demo_stored_fields demo_update_def)
  have t: "taggable (Version 1 ''n1'')" by (simp add: taggable_def Zero_def validValue_def byte_def isQuote_def blank_def)
  have "formatVersion (Version 1 ''n1'') = ''1.n1''" by (simp add: formatVersion_def decimal_eval)
  then have get: "snd (clientGet demo_client demo_ce ''k'' demo_stored) = Inr (''v'', ''1.n1'')"
    by (simp add: clientGet_served [OF demo_connected] e taggable_header [OF t])
  have none: "GetEntry (nodeStore (gwNode demo_gateway)) ''k'' = None"
    by (simp add: demo_gw_store GetEntry_def demo_gw_node_def New_def SetOnMutate_def SetLimits_def SetOnChange_def NewKVStore_def)
  obtain g' res where p: "clientPut demo_client demo_ce ''k'' ''w'' (demo_opt\<lparr>po_IfMatch := ''1.n1''\<rparr>) demo_gateway = (g', res)" by force
  from client_compare_and_swap [OF demo_connected get _ demo_connected p] e t none have "\<exists>e. res = Inl e"
    by (cases res) auto
  then show ?thesis using get p by simp
qed

end
