(* ===== verification/ClientWatch.thy ===== *)
theory ClientWatch
  imports Client
begin

text \<open>
  Watching through the Go client (\<open>Watch\<close>, \<open>WatchFrom\<close>, \<open>scanEvents\<close> and \<open>parseEvent\<close> of \<open>pkg/client/client.go\<close>): the bytes the gateway writes for an
  event stream, how the client reads them, and a client that reconnects from the last event it was given, over connections that break at any byte.

  The JSON of a payload is a parameter.  The channels of the code are the list of events delivered, and the caller closing the stop channel is a predicate on
  how many events have been delivered.
\<close>

section \<open>The stream on the wire\<close>

record sseJSON =
  sj_items :: "kvItem list \<Rightarrow> string"
  sj_event :: "KVEvent \<Rightarrow> string"
  sj_cursor :: "string \<Rightarrow> string"
  sj_count :: "u64 \<Rightarrow> string"
  sj_reason :: string
  sj_entries :: "string \<Rightarrow> clientEntry list option"
  sj_kv :: "string \<Rightarrow> KVEvent option"
  sj_events :: "string \<Rightarrow> u64 option"

definition writeEvent :: "string \<Rightarrow> string \<Rightarrow> string" where
  "writeEvent name payload = ''event: '' @ name @ [newline] @ ''data: '' @ payload @ [newline, newline]"

definition writeID :: "string \<Rightarrow> string" where
  "writeID cursor = ''id: '' @ cursor @ [newline]"

fun renderOut :: "sseJSON \<Rightarrow> streamOut \<Rightarrow> string" where
  "renderOut J (SseSnapshot cursor items) = writeID cursor @ writeEvent ''snapshot'' (sj_items J items)"
| "renderOut J (SseKV cursor ev) = writeID cursor @ writeEvent ''kv'' (sj_event J ev)"
| "renderOut J (SseReady cursor) = writeID cursor @ writeEvent ''ready'' (sj_cursor J cursor)"
| "renderOut J (SseDropped events) = writeEvent ''dropped'' (sj_count J events)"
| "renderOut J SseResnapshot = writeEvent ''resnapshot'' (sj_reason J)"
| "renderOut J SsePing = '': ping'' @ [newline, newline]"

definition sseBytes :: "sseJSON \<Rightarrow> streamOut list \<Rightarrow> string" where
  "sseBytes J outs = concat (map (renderOut J) outs)"

section \<open>Reading it\<close>

text \<open>A field that is not set has its zero value, \<open>None\<close> for the update of an event.\<close>

record WatchEvent =
  we_ID :: string
  we_Resnapshot :: bool
  we_Name :: string
  we_Snapshot :: "clientEntry list"
  we_Event :: "KVEvent option"
  we_Dropped :: u64

definition namedEvent :: "string \<Rightarrow> WatchEvent" where
  "namedEvent name = \<lparr>we_ID = '''', we_Resnapshot = False, we_Name = name, we_Snapshot = [], we_Event = None, we_Dropped = 0\<rparr>"

definition parseEvent :: "sseJSON \<Rightarrow> string \<Rightarrow> string \<Rightarrow> WatchEvent option" where
  "parseEvent J name data =
     (let ev = namedEvent name in
      if name = ''ready'' then Some ev
      else if name = ''resnapshot'' then Some (ev\<lparr>we_Resnapshot := True\<rparr>)
      else if name = ''snapshot'' then map_option (\<lambda>es. ev\<lparr>we_Snapshot := es\<rparr>) (sj_entries J data)
      else if name = ''kv'' then map_option (\<lambda>e. ev\<lparr>we_Event := Some e\<rparr>) (sj_kv J data)
      else if name = ''dropped'' then map_option (\<lambda>n. ev\<lparr>we_Dropped := n\<rparr>) (sj_events J data)
      else None)"

record scanState =
  sc_name :: string
  sc_data :: string
  sc_id :: string

definition scanInit :: scanState where
  "scanInit = \<lparr>sc_name = '''', sc_data = '''', sc_id = ''''\<rparr>"

definition lineEnd :: "char \<Rightarrow> bool" where
  "lineEnd c \<longleftrightarrow> c = newline \<or> c = CHR 0x0D"

definition trimLine :: "string \<Rightarrow> string" where
  "trimLine s = rev (dropWhile lineEnd (rev s))"

definition scanLine :: "sseJSON \<Rightarrow> string \<Rightarrow> scanState \<Rightarrow> scanState \<times> WatchEvent option" where
  "scanLine J raw st =
     (let line = trimLine raw in
      if HasPrefix line '':'' then (st, None)
      else if HasPrefix line ''id: '' then (st\<lparr>sc_id := drop 4 line\<rparr>, None)
      else if HasPrefix line ''event: '' then (st\<lparr>sc_name := drop 7 line\<rparr>, None)
      else if HasPrefix line ''data: '' then (st\<lparr>sc_data := drop 6 line\<rparr>, None)
      else if line = '''' \<and> sc_name st \<noteq> ''''
      then (scanInit, map_option (\<lambda>ev. ev\<lparr>we_ID := sc_id st\<rparr>) (parseEvent J (sc_name st) (sc_data st)))
      else (st, None))"

fun scanLines :: "sseJSON \<Rightarrow> (nat \<Rightarrow> bool) \<Rightarrow> nat \<Rightarrow> string list \<Rightarrow> scanState \<Rightarrow> WatchEvent list \<times> clientErr option" where
  "scanLines J stop k [] st = ([], Some (OtherError ''EOF''))"
| "scanLines J stop k (l # ls) st = (case scanLine J l st of
     (st', None) \<Rightarrow> scanLines J stop k ls st'
   | (st', Some ev) \<Rightarrow> if stop k then ([], None) else (case scanLines J stop (Suc k) ls st' of (evs, err) \<Rightarrow> (ev # evs, err)))"

text \<open>Only whole lines are read: the end of the stream within a line is an error.\<close>

definition scanEvents :: "sseJSON \<Rightarrow> (nat \<Rightarrow> bool) \<Rightarrow> string \<Rightarrow> WatchEvent list \<times> clientErr option" where
  "scanEvents J stop received = scanLines J stop 0 (fst (splitLines [] received)) scanInit"

definition watchTarget :: "string \<Rightarrow> string" where
  "watchTarget pre = ''/kv?watch=1'' @ (if pre \<noteq> '''' then ''&prefix='' @ queryEscape pre else '''')"

definition streamHeaders :: "string \<Rightarrow> (string \<times> string) list" where
  "streamHeaders cursor = (''Accept'', ''text/event-stream'') # (if cursor \<noteq> '''' then [(''Last-Event-ID'', cursor)] else [])"

definition clientWatchFrom :: "Client \<Rightarrow> clientEnv \<Rightarrow> string \<Rightarrow> string \<Rightarrow> gateway \<Rightarrow> gateway \<times> (clientErr + httpResponse)" where
  "clientWatchFrom c ce pre cursor g = (case ce_url ce (cl_base c @ watchTarget pre) of
     Some e \<Rightarrow> (g, Inl (OtherError e))
   | None \<Rightarrow> (case httpDo ce ''GET'' (watchTarget pre) '''' (authHeader c @ streamHeaders cursor) g of
       (g', Inl e) \<Rightarrow> (g', Inl e)
     | (g', Inr resp) \<Rightarrow> (g', if rs_Status resp \<ge> 300 then Inl (readError ce resp) else Inr resp)))"

definition clientWatch :: "Client \<Rightarrow> clientEnv \<Rightarrow> string \<Rightarrow> gateway \<Rightarrow> gateway \<times> (clientErr + httpResponse)" where
  "clientWatch c ce pre g = clientWatchFrom c ce pre '''' g"

text \<open>What the goroutine sends on the error channel once the stream ends: nothing if the caller has stopped it.\<close>

definition streamError :: "bool \<Rightarrow> clientErr option \<Rightarrow> clientErr option" where
  "streamError stopped err = (if stopped then None else err)"

section \<open>What was sent is what is read\<close>

fun outID :: "streamOut \<Rightarrow> string" where
  "outID (SseSnapshot cursor _) = cursor" | "outID (SseKV cursor _) = cursor" | "outID (SseReady cursor) = cursor" | "outID _ = ''''"

definition entryOf :: "kvItem \<Rightarrow> clientEntry" where
  "entryOf i = \<lparr>cn_Key = it_Key i, cn_Value = it_Value i, cn_Version = it_Version i, cn_ExpiresAt = it_ExpiresAt i\<rparr>"

fun eventOf :: "streamOut \<Rightarrow> WatchEvent" where
  "eventOf (SseSnapshot cursor items) = (namedEvent ''snapshot'')\<lparr>we_Snapshot := map entryOf items, we_ID := cursor\<rparr>"
| "eventOf (SseKV cursor ev) = (namedEvent ''kv'')\<lparr>we_Event := Some ev, we_ID := cursor\<rparr>"
| "eventOf (SseReady cursor) = (namedEvent ''ready'')\<lparr>we_ID := cursor\<rparr>"
| "eventOf (SseDropped events) = (namedEvent ''dropped'')\<lparr>we_Dropped := events\<rparr>"
| "eventOf SseResnapshot = (namedEvent ''resnapshot'')\<lparr>we_Resnapshot := True\<rparr>"
| "eventOf SsePing = namedEvent ''''"

definition lineSafe :: "string \<Rightarrow> bool" where
  "lineSafe s \<longleftrightarrow> newline \<notin> set s \<and> CHR 0x0D \<notin> set s"

text \<open>What JSON promises of a payload: one line, from which the value is read back.\<close>

fun carried :: "sseJSON \<Rightarrow> streamOut \<Rightarrow> bool" where
  "carried J (SseSnapshot cursor items) \<longleftrightarrow> lineSafe cursor \<and> lineSafe (sj_items J items) \<and> sj_entries J (sj_items J items) = Some (map entryOf items)"
| "carried J (SseKV cursor ev) \<longleftrightarrow> lineSafe cursor \<and> lineSafe (sj_event J ev) \<and> sj_kv J (sj_event J ev) = Some ev"
| "carried J (SseReady cursor) \<longleftrightarrow> lineSafe cursor \<and> lineSafe (sj_cursor J cursor)"
| "carried J (SseDropped events) \<longleftrightarrow> lineSafe (sj_count J events) \<and> sj_events J (sj_count J events) = Some events"
| "carried J SseResnapshot \<longleftrightarrow> lineSafe (sj_reason J)"
| "carried J SsePing \<longleftrightarrow> True"

definition delivered :: "streamOut list \<Rightarrow> WatchEvent list" where
  "delivered outs = map eventOf (filter (\<lambda>x. x \<noteq> SsePing) outs)"

lemma lines_cons: "newline \<notin> set s \<Longrightarrow> fst (splitLines [] (s @ newline # rest)) = (s @ [newline]) # fst (splitLines [] rest)"
  by (simp add: splitLines_plain case_prod_beta)

lemma trimLine_plain:
  assumes "lineSafe s"
  shows "trimLine (s @ [newline]) = s"
proof -
  have "c \<in> set s \<Longrightarrow> \<not> lineEnd c" for c using assms by (auto simp: lineSafe_def lineEnd_def)
  then have "dropWhile lineEnd (rev s) = rev s" by (auto simp: dropWhile_eq_self_iff hd_rev)
  then show ?thesis by (simp add: trimLine_def lineEnd_def)
qed

lemma trimLine_empty [simp]: "trimLine [newline] = ''''"
  by (simp add: trimLine_def lineEnd_def)

lemma scan_field:
  assumes "lineSafe s"
  shows "scanLine J (''id: '' @ s @ [newline]) st = (st\<lparr>sc_id := s\<rparr>, None)"
    "scanLine J (''event: '' @ s @ [newline]) st = (st\<lparr>sc_name := s\<rparr>, None)"
    "scanLine J (''data: '' @ s @ [newline]) st = (st\<lparr>sc_data := s\<rparr>, None)"
proof -
  have t: "lineSafe p \<Longrightarrow> trimLine (p @ s @ [newline]) = p @ s" for p
    using trimLine_plain [of "p @ s"] assms by (simp add: lineSafe_def)
  have "trimLine (''id: '' @ s @ [newline]) = ''id: '' @ s" "trimLine (''event: '' @ s @ [newline]) = ''event: '' @ s"
      "trimLine (''data: '' @ s @ [newline]) = ''data: '' @ s"
    by (rule t, simp add: lineSafe_def newline_def)+
  note t = this
  show "scanLine J (''id: '' @ s @ [newline]) st = (st\<lparr>sc_id := s\<rparr>, None)"
      "scanLine J (''event: '' @ s @ [newline]) st = (st\<lparr>sc_name := s\<rparr>, None)"
      "scanLine J (''data: '' @ s @ [newline]) st = (st\<lparr>sc_data := s\<rparr>, None)"
    unfolding scanLine_def t by (simp_all add: HasPrefix_def)
qed

abbreviation (input) wireLines :: "string \<Rightarrow> string list" where
  "wireLines s \<equiv> fst (splitLines [] s)"

lemma field_lines:
  assumes "lineSafe s" "lineSafe t"
  shows "wireLines (writeID s @ rest) = (''id: '' @ s @ [newline]) # wireLines rest"
    "wireLines (writeEvent s t @ rest) = (''event: '' @ s @ [newline]) # (''data: '' @ t @ [newline]) # [newline] # wireLines rest"
proof -
  have "newline \<notin> set ''id: ''" "newline \<notin> set ''event: ''" "newline \<notin> set ''data: ''" by (simp_all add: newline_def)
  then have p: "newline \<notin> set (''id: '' @ s)" "newline \<notin> set (''event: '' @ s)" "newline \<notin> set (''data: '' @ t)"
    using assms by (auto simp: lineSafe_def)
  show "wireLines (writeID s @ rest) = (''id: '' @ s @ [newline]) # wireLines rest"
    using lines_cons [OF p(1), of rest] by (simp add: writeID_def)
  show "wireLines (writeEvent s t @ rest) = (''event: '' @ s @ [newline]) # (''data: '' @ t @ [newline]) # [newline] # wireLines rest"
    using lines_cons [OF p(2), of "''data: '' @ t @ newline # newline # rest"] lines_cons [OF p(3), of "newline # rest"] lines_cons [of "[]" rest]
    by (simp add: writeEvent_def)
qed

lemma scan_skip: "scanLine J l st = (st', None) \<Longrightarrow> scanLines J stop k (l # ls) st = scanLines J stop k ls st'"
  by simp

lemma scan_block:
  assumes "lineSafe name" "lineSafe data" "name \<noteq> ''''" "parseEvent J name data = Some ev"
  shows "scanLines J stop k (wireLines (writeEvent name data @ rest)) (scanInit\<lparr>sc_id := i\<rparr>) =
    (if stop k then ([], None) else (case scanLines J stop (Suc k) (wireLines rest) scanInit of (evs, err) \<Rightarrow> (ev\<lparr>we_ID := i\<rparr> # evs, err)))"
proof -
  have e: "scanLine J [newline] \<lparr>sc_name = name, sc_data = data, sc_id = i\<rparr> = (scanInit, Some (ev\<lparr>we_ID := i\<rparr>))"
    using assms(3,4) by (simp add: scanLine_def HasPrefix_def)
  show ?thesis
    unfolding field_lines(2) [OF assms(1,2)] scan_skip [OF scan_field(2) [OF assms(1)]] scan_skip [OF scan_field(3) [OF assms(2)]]
    by (simp add: scanInit_def e [unfolded scanInit_def] split: prod.split)
qed

lemma scan_identified:
  assumes "lineSafe i" "lineSafe name" "lineSafe data" "name \<noteq> ''''" "parseEvent J name data = Some ev"
  shows "scanLines J stop k (wireLines (writeID i @ writeEvent name data @ rest)) scanInit =
    (if stop k then ([], None) else (case scanLines J stop (Suc k) (wireLines rest) scanInit of (evs, err) \<Rightarrow> (ev\<lparr>we_ID := i\<rparr> # evs, err)))"
  unfolding field_lines(1) [OF assms(1,1)] scan_skip [OF scan_field(1) [OF assms(1)]] scan_block [OF assms(2-5)] ..

lemma scan_anonymous:
  assumes "lineSafe name" "lineSafe data" "name \<noteq> ''''" "parseEvent J name data = Some ev" "we_ID ev = ''''"
  shows "scanLines J stop k (wireLines (writeEvent name data @ rest)) scanInit =
    (if stop k then ([], None) else (case scanLines J stop (Suc k) (wireLines rest) scanInit of (evs, err) \<Rightarrow> (ev # evs, err)))"
proof -
  have s: "scanInit\<lparr>sc_id := ''''\<rparr> = scanInit" by (simp add: scanInit_def)
  have e: "ev\<lparr>we_ID := ''''\<rparr> = ev" using assms(5) by (cases ev) simp
  show ?thesis
    using scan_block [OF assms(1-4), of stop k rest "''''"] unfolding s e .
qed

lemma names_safe: "lineSafe ''snapshot''" "lineSafe ''kv''" "lineSafe ''ready''" "lineSafe ''dropped''" "lineSafe ''resnapshot''"
  by (simp_all add: lineSafe_def newline_def)

lemma parse_names:
  "parseEvent J ''ready'' data = Some (namedEvent ''ready'')" "parseEvent J ''resnapshot'' data = Some ((namedEvent ''resnapshot'')\<lparr>we_Resnapshot := True\<rparr>)"
  "parseEvent J ''snapshot'' data = map_option (\<lambda>es. (namedEvent ''snapshot'')\<lparr>we_Snapshot := es\<rparr>) (sj_entries J data)"
  "parseEvent J ''kv'' data = map_option (\<lambda>e. (namedEvent ''kv'')\<lparr>we_Event := Some e\<rparr>) (sj_kv J data)"
  "parseEvent J ''dropped'' data = map_option (\<lambda>n. (namedEvent ''dropped'')\<lparr>we_Dropped := n\<rparr>) (sj_events J data)"
  by (simp_all add: parseEvent_def Let_def)

lemma scan_ping: "scanLines J stop k (wireLines (renderOut J SsePing @ rest)) scanInit = scanLines J stop k (wireLines rest) scanInit"
proof -
  have "newline \<notin> set '': ping''" by (simp add: newline_def)
  then have "wireLines (renderOut J SsePing @ rest) = ('': ping'' @ [newline]) # [newline] # wireLines rest"
    using lines_cons [of "'': ping''" "newline # rest"] lines_cons [of "[]" rest] by simp
  moreover have "trimLine ('': ping'' @ [newline]) = '': ping''" by (rule trimLine_plain) (simp add: lineSafe_def newline_def)
  ultimately show ?thesis
    by (simp add: scanLine_def HasPrefix_def Let_def scanInit_def)
qed

lemma scan_out:
  assumes "carried J x" "x \<noteq> SsePing"
  shows "scanLines J stop k (wireLines (renderOut J x @ rest)) scanInit =
    (if stop k then ([], None) else (case scanLines J stop (Suc k) (wireLines rest) scanInit of (evs, err) \<Rightarrow> (eventOf x # evs, err)))"
proof (cases x)
  case (SseSnapshot i items)
  then show ?thesis using assms(1) scan_identified [OF _ names_safe(1), of i "sj_items J items" J] by (simp add: parse_names)
next
  case (SseKV i ev)
  then show ?thesis using assms(1) scan_identified [OF _ names_safe(2), of i "sj_event J ev" J] by (simp add: parse_names)
next
  case (SseReady i)
  then show ?thesis using assms(1) scan_identified [OF _ names_safe(3), of i "sj_cursor J i" J] by (simp add: parse_names)
next
  case (SseDropped n)
  then show ?thesis using assms(1) scan_anonymous [OF names_safe(4), of "sj_count J n" J] by (simp add: parse_names namedEvent_def)
next
  case SseResnapshot
  then show ?thesis using assms(1) scan_anonymous [OF names_safe(5), of "sj_reason J" J] by (simp add: parse_names namedEvent_def)
qed (use assms in simp)

lemma scan_stream:
  assumes "list_all (carried J) outs"
  shows "scanLines J (\<lambda>_. False) k (wireLines (sseBytes J outs)) scanInit = (delivered outs, Some (OtherError ''EOF''))"
  using assms
proof (induction outs arbitrary: k)
  case (Cons x outs)
  have b: "sseBytes J (x # outs) = renderOut J x @ sseBytes J outs" by (simp add: sseBytes_def)
  show ?case
  proof (cases "x = SsePing")
    case True
    then show ?thesis
      using Cons scan_ping [of J _ k "sseBytes J outs"] unfolding b by (simp add: delivered_def del: renderOut.simps)
  next
    case False
    have c: "carried J x" "list_all (carried J) outs" using Cons.prems by simp_all
    show ?thesis
      unfolding b scan_out [OF c(1) False] Cons.IH [OF c(2)] using False by (simp add: delivered_def)
  qed
qed (simp add: sseBytes_def delivered_def)

text \<open>A stream cut off anywhere, and a caller that stops anywhere, see a beginning of it.\<close>

lemma splitLines_mono: "prefix (fst (splitLines cur s)) (fst (splitLines cur (s @ t)))"
  by (induction s arbitrary: cur) (auto simp: case_prod_beta)

lemma scanLines_mono: "prefix (fst (scanLines J stop k ls st)) (fst (scanLines J (\<lambda>_. False) k' (ls @ ls2) st))"
  by (induction ls arbitrary: k k' st) (auto simp: case_prod_beta split: option.split)

lemma scan_cut:
  assumes "list_all (carried J) outs" "prefix received (sseBytes J outs)"
  shows "prefix (fst (scanEvents J stop received)) (delivered outs)"
proof -
  obtain zs where "sseBytes J outs = received @ zs" using assms(2) by (auto simp: prefix_def)
  then obtain ls2 where m: "wireLines (sseBytes J outs) = wireLines received @ ls2"
    using splitLines_mono [of "[]" received zs] by (auto simp: prefix_def)
  show ?thesis
    using scanLines_mono [of J stop 0 "wireLines received" scanInit 0 ls2] scan_stream [OF assms(1), of 0]
    by (simp add: scanEvents_def m)
qed

section \<open>A client that reconnects\<close>

definition lastID :: "string \<Rightarrow> WatchEvent list \<Rightarrow> string" where
  "lastID cur evs = foldl (\<lambda>cur ev. if we_ID ev = '''' then cur else we_ID ev) cur evs"

fun kvEvents :: "WatchEvent list \<Rightarrow> KVEvent list" where
  "kvEvents [] = []"
| "kvEvents (ev # evs) = (case we_Event ev of Some kv \<Rightarrow> kv # kvEvents evs | None \<Rightarrow> kvEvents evs)"

text \<open>
  A caller that watches a prefix, remembers the last identifier it was given and reconnects with it, over connections that bring any beginning of what was sent;
  and everything else that happens to the node's watchers meanwhile.  The state has what the node published, the identifier, the position in it at
  which the caller's baseline was taken (once it was), and the events it was given, over all connections.
\<close>

inductive client_run :: "sseJSON \<Rightarrow> Client \<Rightarrow> (string \<Rightarrow> 256 word) \<Rightarrow> string \<Rightarrow> watchSys \<Rightarrow> string \<Rightarrow> nat option \<Rightarrow> KVEvent list \<Rightarrow> bool"
  for J c sha pre where
  begins: "hub_run sha newSys s \<Longrightarrow> client_run J c sha pre s '''' None []"
| elsewhere: "client_run J c sha pre s cur base seen \<Longrightarrow> hub_step sha s s' \<Longrightarrow> client_run J c sha pre s' cur base seen"
| session: "client_run J c sha pre s cur base seen \<Longrightarrow> wh_watchSeq (hs_hub s) \<noteq> - 1 \<Longrightarrow> epoch_ok (nd_uuid (gwNode g)) \<Longrightarrow>
    nd_hub (gwNode g) = hs_hub s \<Longrightarrow> ge_sha (ce_gw ce) = sha \<Longrightarrow> connected c ce ''GET'' \<Longrightarrow> headerSafe cur \<Longrightarrow>
    clientWatchFrom c ce pre cur g = (g', Inr resp) \<Longrightarrow> rs_Body resp = StreamBody ws \<Longrightarrow>
    (stream_step sha)\<^sup>*\<^sup>* \<lparr>ss_sys = s\<lparr>hs_hub := nd_hub (gwNode g')\<rparr>, ss_ws = ws\<rparr> t \<Longrightarrow>
    list_all (carried J) (ws_out (ss_ws t)) \<Longrightarrow> prefix received (sseBytes J (ws_out (ss_ws t))) \<Longrightarrow> scanEvents J stop received = (evs, err) \<Longrightarrow>
    client_run J c sha pre (ss_sys t) (lastID cur evs) (if cur = '''' \<and> evs \<noteq> [] then Some (length (hs_log s)) else base) (seen @ kvEvents evs)"

text \<open>The request of a watch reaches the handler of watches.\<close>

lemma watch_target: "\<exists>query. parseTarget (watchTarget pre) = Some (''/kv'', query) \<and> map_of query ''watch'' = Some ''1''
    \<and> (case map_of query ''prefix'' of Some p \<Rightarrow> p | None \<Rightarrow> '''') = pre \<and> plainTarget (watchTarget pre)"
proof (cases "pre = ''''")
  case True
  then show ?thesis
    by (simp add: watchTarget_def parseTarget_def cutAt_def ParseQuery_def queryPair_def plainTarget_def Let_def)
next
  case False
  then show ?thesis
    using query_target [of "(''/kv'', ''?watch=1&prefix='', [(''watch'', ''1'')])" pre] by (simp add: watchTarget_def)
qed

lemma watch_served:
  assumes "connected c ce ''GET''" "headerSafe cursor"
  shows "\<exists>r. headerGet r ''Last-Event-ID'' = cursor \<and> clientWatchFrom c ce pre cursor g =
    (case handleWatch (targetEnv ce (watchTarget pre)) r pre (countRequest g) of (g', resp) \<Rightarrow> (g', if rs_Status resp \<ge> 300 then Inl (readError ce resp) else Inr resp))"
proof -
  obtain query where q: "parseTarget (watchTarget pre) = Some (''/kv'', query)" "map_of query ''watch'' = Some ''1''"
      "(case map_of query ''prefix'' of Some p \<Rightarrow> p | None \<Rightarrow> '''') = pre" "plainTarget (watchTarget pre)"
    using watch_target by blast
  let ?r = "clientRequest c ''GET'' ''/kv'' query '''' (streamHeaders cursor)"
  have v: "list_all (\<lambda>(k, v). validValue v) (streamHeaders cursor)"
    using assms(2) by (auto simp: streamHeaders_def headerSafe_def validValue_def byte_def)
  have w: "clientWatchFrom c ce pre cursor g = request c ce ''GET'' (watchTarget pre) '''' (streamHeaders cursor) g"
    by (simp add: clientWatchFrom_def request_def)
  have m: "muxRoute ?r = Inr ListR"
    by (simp add: muxRoute_def gatewayMux_def HasPrefix_def methodMatches_def clientRequest_def)
  have "admitted (targetEnv ce (watchTarget pre)) ?r"
    by (rule client_admitted [OF assms(1) _ _ q(4) m]) (auto simp: streamHeaders_def)
  then have "ServeHTTP (targetEnv ce (watchTarget pre)) ?r g = answering (handleList (targetEnv ce (watchTarget pre)) ?r (countRequest g))"
    using served [OF _ m] by (simp add: handleRoute_def)
  moreover have "queryGet ?r ''watch'' = ''1''" "queryGet ?r ''prefix'' = pre"
    using q(2,3) by (simp_all add: queryGet_def clientRequest_def)
  ultimately have s: "ServeHTTP (targetEnv ce (watchTarget pre)) ?r g = answering (handleWatch (targetEnv ce (watchTarget pre)) ?r pre (countRequest g))"
    by (simp add: handleList_def)
  have "clientWatchFrom c ce pre cursor g = (case handleWatch (targetEnv ce (watchTarget pre)) ?r pre (countRequest g) of
      (g', resp) \<Rightarrow> (g', if rs_Status resp \<ge> 300 then Inl (readError ce resp) else Inr resp))"
    unfolding w request_served [OF assms(1) v q(1)] s by (simp add: answering_def split: prod.split)
  moreover have "headerGet ?r ''Last-Event-ID'' = cursor"
    using assms(2) by (simp add: headerGet_def sent_condition streamHeaders_def authHeader_def headerSafe_def)
  ultimately show ?thesis by blast
qed

text \<open>Runs of a stream are runs of the hub; the epoch of a hub, once set, stays.\<close>

lemma hub_run_trans: "hub_run sha s' s'' \<Longrightarrow> hub_run sha s s' \<Longrightarrow> hub_run sha s s''"
  by (induction rule: hub_run.induct) (auto intro: hub_next)

lemma stream_hub_run: "(stream_step sha)\<^sup>*\<^sup>* t t' \<Longrightarrow> hub_run sha (ss_sys t) (ss_sys t')"
proof (induction rule: rtranclp_induct)
  case (step y z)
  from step(2) have "hub_run sha (ss_sys y) (ss_sys z)"
    by cases (auto intro: hub_next [OF hub_refl] loop_hub)
  then show ?case using step(3) hub_run_trans by blast
qed (rule hub_refl)

lemma epoch_step: "hub_step sha s s' \<Longrightarrow> wh_watchEpoch (hs_hub s) \<noteq> '''' \<Longrightarrow> wh_watchEpoch (hs_hub s') = wh_watchEpoch (hs_hub s)"
proof (induction rule: hub_step.induct)
  case (publish_step uuid s evs)
  have "wh_watchEpoch (foldl publishOne h evs) = wh_watchEpoch h" for h
    by (induction evs arbitrary: h) simp_all
  then show ?case using publish_step by (simp add: publishMutations_def withEpoch_def Let_def)
next
  case (watch_step uuid s pre cursor hub' r)
  then show ?case by (auto simp: WatchFrom_def Let_def withEpoch_def split: option.splits)
next
  case (receive_step i s ev hub')
  then show ?case by (auto simp: receive_def split: option.splits list.splits)
qed (simp add: CloseWatcher_def split: option.split)

lemma epoch_run: "hub_run sha s s' \<Longrightarrow> wh_watchEpoch (hs_hub s) \<noteq> '''' \<Longrightarrow> wh_watchEpoch (hs_hub s') = wh_watchEpoch (hs_hub s)"
  by (induction rule: hub_run.induct) (auto dest: epoch_step)

text \<open>What a stream has written after its opening.\<close>

definition tailOut :: "streamOut \<Rightarrow> bool" where
  "tailOut x \<longleftrightarrow> (case x of SseSnapshot _ _ \<Rightarrow> False | SseReady _ \<Rightarrow> False | _ \<Rightarrow> True)"

lemma stream_tail: "(stream_step sha)\<^sup>*\<^sup>* t t' \<Longrightarrow> \<exists>rest. ws_out (ss_ws t') = ws_out (ss_ws t) @ rest \<and> list_all tailOut rest"
proof (induction rule: rtranclp_induct)
  case (step y z)
  from step(2) have "\<exists>rest. ws_out (ss_ws z) = ws_out (ss_ws y) @ rest \<and> list_all tailOut rest"
  proof cases
    case (loop_step what hub' ws')
    then show ?thesis
      by (cases what) (auto simp: watchLoop_def endStream_def Let_def tailOut_def split: if_splits option.splits)
  qed simp
  then show ?case using step(3) by auto
qed simp

text \<open>Reading a beginning of the stream: the last identifier is the position up to which the events were given.\<close>

fun outKV :: "streamOut list \<Rightarrow> KVEvent list" where
  "outKV [] = []"
| "outKV (SseKV _ ev # ps) = ev # outKV ps"
| "outKV (_ # ps) = outKV ps"

definition outCursor :: "string \<Rightarrow> streamOut list \<Rightarrow> string" where
  "outCursor cur ps = foldl (\<lambda>cur x. if outID x = '''' then cur else outID x) cur ps"

lemma outKV_append [simp]: "outKV (ps @ qs) = outKV ps @ outKV qs"
  by (induction ps rule: outKV.induct) simp_all

lemma outCursor_simps [simp]: "outCursor cur [] = cur" "outCursor cur (ps @ [x]) = (if outID x = [] then outCursor cur ps else outID x)"
  by (simp_all add: outCursor_def)

lemma events_of_outs: "lastID cur (map eventOf ps) = outCursor cur ps" "kvEvents (map eventOf ps) = outKV ps"
proof -
  have i: "we_ID (eventOf x) = outID x" for x by (cases x) (simp_all add: namedEvent_def)
  show "lastID cur (map eventOf ps) = outCursor cur ps"
    unfolding lastID_def outCursor_def foldl_map i ..
  show "kvEvents (map eventOf ps) = outKV ps"
    by (induction ps rule: outKV.induct) (simp_all add: namedEvent_def)
qed

lemma outKV_sent:
  assumes "sseEvents L = sentEvents sha pre xs"
  shows "outKV L = xs" "SseKV i ev \<in> set L \<Longrightarrow> i = Token sha pre (ev_ID ev)"
proof -
  have "outKV L = outKV (sseEvents L)"
    by (induction L rule: outKV.induct) (simp_all add: sseEvents_def)
  moreover have "outKV (sentEvents sha pre xs) = xs"
    by (induction xs) (simp_all add: sentEvents_def)
  ultimately show "outKV L = xs" using assms by simp
  assume "SseKV i ev \<in> set L"
  then have "SseKV i ev \<in> set (sentEvents sha pre xs)" unfolding assms [symmetric] sseEvents_def by simp
  then show "i = Token sha pre (ev_ID ev)" by (auto simp: sentEvents_def)
qed

lemma filter_position:
  "prefix xs (filter P ys) \<Longrightarrow> xs \<noteq> [] \<Longrightarrow> \<exists>i < length ys. ys ! i = last xs \<and> filter P (take (Suc i) ys) = xs"
proof (induction ys arbitrary: xs)
  case (Cons y ys)
  show ?case
  proof (cases "P y \<and> tl xs = []")
    case True
    then have "xs = [y]" using Cons.prems by (cases xs) auto
    then show ?thesis using True by (intro exI [of _ 0]) simp
  next
    case False
    define zs where "zs = (if P y then tl xs else xs)"
    have z: "prefix zs (filter P ys)" "zs \<noteq> []" "last zs = last xs" "xs = (if P y then y # zs else zs)"
      using Cons.prems False by (cases xs; auto simp: zs_def split: if_splits)+
    obtain i where i: "i < length ys" "ys ! i = last zs" "filter P (take (Suc i) ys) = zs"
      using Cons.IH [OF z(1,2)] by auto
    then show ?thesis using z(3,4) by (intro exI [of _ "Suc i"]) auto
  qed
qed simp

definition reached :: "(string \<Rightarrow> 256 word) \<Rightarrow> string \<Rightarrow> string \<Rightarrow> KVEvent list \<Rightarrow> nat \<Rightarrow> string \<Rightarrow> KVEvent list \<Rightarrow> bool" where
  "reached sha pre epoch log k cur seen \<longleftrightarrow> (\<exists>m. k \<le> m \<and> m \<le> length log \<and> cur = Token sha pre (eventID epoch (word_of_nat m))
     \<and> seen = filter (wanted pre) (drop k (take m log)))"

lemma reached_event:
  assumes "\<forall>i < length log. ev_ID (log ! i) = eventID epoch (word_of_nat (Suc i))" "prefix xs (filter (wanted pre) (drop k log))" "xs \<noteq> []" "k \<le> length log"
  shows "reached sha pre epoch log k (Token sha pre (ev_ID (last xs))) xs"
proof -
  obtain i where i: "i < length (drop k log)" "drop k log ! i = last xs" "filter (wanted pre) (take (Suc i) (drop k log)) = xs"
    using filter_position [OF assms(2,3)] by auto
  then have "last xs = log ! (k + i)" "k + i < length log" using assms(4) by auto
  then show ?thesis
    using assms(1,4) i(3) unfolding reached_def by (intro exI [of _ "Suc (k + i)"]) (auto simp: take_drop add.commute)
qed

lemma Token_not_empty: "Token sha pre x \<noteq> []"
  by (simp add: Token_def)

lemma sse_without_pings: "sseEvents (filter (\<lambda>x. x \<noteq> SsePing) outs) = sseEvents outs"
  by (induction outs) (auto simp: sseEvents_def)

lemma only_mark:
  assumes "ps @ x # zs = A @ mark # rest" "\<not> tailOut x" "\<not> tailOut mark" "list_all tailOut rest" "list_all tailOut A"
  shows "ps = A \<and> x = mark"
proof -
  have "filter (\<lambda>x. \<not> tailOut x) A = []" "filter (\<lambda>x. \<not> tailOut x) rest = []" using assms(4,5) by (auto simp: filter_empty_conv list_all_iff)
  then have "filter (\<lambda>x. \<not> tailOut x) ps @ [x] @ filter (\<lambda>x. \<not> tailOut x) zs = [mark]"
    using arg_cong [OF assms(1), of "filter (\<lambda>x. \<not> tailOut x)"] assms(2,3) by simp
  then have "filter (\<lambda>x. \<not> tailOut x) ps = []" by (simp add: Cons_eq_append_conv append_eq_Cons_conv)
  then have p: "\<forall>y \<in> set ps. tailOut y" by (auto simp: filter_empty_conv)
  have "takeWhile tailOut (ps @ x # zs) = ps" "takeWhile tailOut (A @ mark # rest) = A"
    using p assms(2,3,5) by (auto simp: takeWhile_append list_all_iff)
  then have "ps = A" using assms(1) by simp
  then show ?thesis using assms(1) by simp
qed

lemma stream_progress:
  assumes ids: "\<forall>i < length log. ev_ID (log ! i) = eventID epoch (word_of_nat (Suc i))"
    and L: "L = map (\<lambda>ev. SseKV (Token sha pre (ev_ID ev)) ev) missed @ mark # rest" "\<not> tailOut mark" "list_all tailOut rest"
    and mark: "outID mark = Token sha pre (eventID epoch (word_of_nat n))" "k \<le> n" "n \<le> length log" "missed = filter (wanted pre) (drop k (take n log))"
    and sent: "sseEvents L = sentEvents sha pre xs" "prefix xs (filter (wanted pre) (drop k log))"
    and start: "ps = [] \<Longrightarrow> cur = Token sha pre (eventID epoch (word_of_nat k))" "prefix ps L"
  shows "reached sha pre epoch log k (outCursor cur ps) (outKV ps)"
  using start
proof (induction ps rule: rev_induct)
  case Nil
  then show ?case using mark(2,3) unfolding reached_def by (intro exI [of _ k]) auto
next
  case (snoc x ps)
  have pre: "prefix ps L" "x \<in> set L" using snoc.prems(2) by (auto simp: prefix_def)
  have out: "prefix (outKV (ps @ [x])) (filter (wanted pre) (drop k log))"
  proof -
    obtain zs where "L = (ps @ [x]) @ zs" using snoc.prems(2) unfolding prefix_def by blast
    then have "xs = outKV (ps @ [x]) @ outKV zs" using outKV_sent(1) [OF sent(1)] by (metis outKV_append)
    then show ?thesis using sent(2) by (metis append_prefixD)
  qed
  have marked: "reached sha pre epoch log k (outCursor cur (ps @ [x])) (outKV (ps @ [x]))" if x: "\<not> tailOut x"
  proof -
    obtain zs where z: "L = ps @ x # zs" using snoc.prems(2) by (auto simp: prefix_def)
    have "ps = map (\<lambda>ev. SseKV (Token sha pre (ev_ID ev)) ev) missed \<and> x = mark"
      using only_mark [OF z [unfolded L(1), symmetric] x L(2,3)] by (simp add: list_all_iff tailOut_def)
    then show ?thesis
      using mark L(2) outKV_sent(1) [of ps sha pre missed] unfolding reached_def
      by (intro exI [of _ n]; cases mark) (auto simp: Token_not_empty sentEvents_def sseEvents_def tailOut_def)
  qed
  have silent: "reached sha pre epoch log k (outCursor cur (ps @ [x])) (outKV (ps @ [x]))" if x: "tailOut x" "outID x = []" "outKV [x] = []"
  proof -
    have "ps \<noteq> []"
    proof
      assume "ps = []"
      then have "x = hd L" using snoc.prems(2) by (auto simp: prefix_def)
      then show False using x(1,3) L(1,2) by (cases missed) auto
    qed
    then show ?thesis using snoc.IH pre(1) x(2,3) by simp
  qed
  show ?case
  proof (cases x)
    case (SseKV i ev)
    then have "i = Token sha pre (ev_ID ev)" using outKV_sent(2) [OF sent(1)] pre(2) by simp
    then show ?thesis
      using reached_event [OF ids out, of sha] SseKV mark(2,3) by (simp add: Token_not_empty)
  next
    case (SseSnapshot i items)
    then show ?thesis by (intro marked) (simp add: tailOut_def)
  next
    case (SseReady i)
    then show ?thesis by (intro marked) (simp add: tailOut_def)
  qed (intro silent; simp add: tailOut_def)+
qed

definition client_ok :: "(string \<Rightarrow> 256 word) \<Rightarrow> string \<Rightarrow> watchSys \<Rightarrow> string \<Rightarrow> nat option \<Rightarrow> KVEvent list \<Rightarrow> bool" where
  "client_ok sha pre s cur base seen \<longleftrightarrow> (case base of
     None \<Rightarrow> cur = '''' \<and> seen = []
   | Some k \<Rightarrow> wh_watchEpoch (hs_hub s) \<noteq> '''' \<and> k \<le> length (hs_log s) \<and> reached sha pre (wh_watchEpoch (hs_hub s)) (hs_log s) k cur seen)"

lemma reached_later: "reached sha pre epoch log k cur seen \<Longrightarrow> reached sha pre epoch (log @ rest) k cur seen"
  unfolding reached_def by auto

lemma client_ok_later:
  assumes "client_ok sha pre s cur base seen" "hub_run sha s s'"
  shows "client_ok sha pre s' cur base seen"
proof -
  obtain rest where "hs_log s' = hs_log s @ rest" using hub_run_log [OF assms(2)] by auto
  then show ?thesis
    using assms(1) epoch_run [OF assms(2)] reached_later by (auto simp: client_ok_def split: option.splits)
qed

lemma reached_trans:
  assumes "k \<le> c" "c \<le> length log" "reached sha pre epoch log c cur later"
  shows "reached sha pre epoch log k cur (filter (wanted pre) (drop k (take c log)) @ later)"
proof -
  obtain m where m: "c \<le> m" "m \<le> length log" "cur = Token sha pre (eventID epoch (word_of_nat m))" "later = filter (wanted pre) (drop c (take m log))"
    using assms(3) by (auto simp: reached_def)
  have "take m log = take c log @ drop c (take m log)" using m(1) by (metis append_take_drop_id min.absorb1 take_take)
  then have "drop k (take m log) = drop k (take c log) @ drop c (take m log)"
    using assms(1,2) by (metis drop_append diff_is_0_eq drop0 length_take min.absorb2)
  then show ?thesis
    using m assms(1) unfolding reached_def by (intro exI [of _ m]) auto
qed

text \<open>How a stream opens: with what was missed since the client's position, then the mark of the present one.\<close>

lemma session_opening:
  assumes "sys_ok s" "epoch_ok uuid" "wh_watchSeq (hs_hub s) \<noteq> - 1" "WatchFrom sha uuid pre cur (hs_hub s) = (hub', Inr (i, missed))"
    and "cur = [] \<and> k = length (hs_log s)
      \<or> wh_watchEpoch (hs_hub s) \<noteq> [] \<and> k \<le> length (hs_log s) \<and> cur = Token sha pre (eventID (wh_watchEpoch (hs_hub s)) (word_of_nat k))"
  obtains mark where "watchOpening sha pre cur (the (fmlookup (wh_objects hub') i)) missed n = map (\<lambda>ev. SseKV (Token sha pre (ev_ID ev)) ev) missed @ [mark]"
    "\<not> tailOut mark" "outID mark = Token sha pre (eventID (wh_watchEpoch hub') (word_of_nat (length (hs_log s))))"
    "missed = filter (wanted pre) (drop k (hs_log s))" "wh_watchEpoch hub' \<noteq> []"
proof -
  let ?hub = "withEpoch uuid (hs_hub s)"
  have h: "hub' = subscribed (newWatcher sha pre ?hub) uuid (hs_hub s)" "i = wh_watchSeq (hs_hub s) + 1"
    using assms(4) by (auto simp: WatchFrom_alt split: option.splits)
  have e: "wh_watchEpoch hub' = wh_watchEpoch ?hub" "wh_watchEpoch hub' \<noteq> []"
    using assms(2) by (auto simp: h(1) subscribed_def withEpoch_def epoch_ok_def Let_def)
  have hist: "history_ok (hs_hub s) (hs_log s)" using assms(1) by (simp add: sys_ok_def)
  then have seq: "wh_eventSeq ?hub = word_of_nat (length (hs_log s))" "length (hs_log s) < 2 ^ 64"
    by (simp_all add: history_ok_def withEpoch_def)
  have w: "the (fmlookup (wh_objects hub') i) = newWatcher sha pre ?hub"
    by (simp add: h subscribed_lookup)
  have c: "wa_Cursor (newWatcher sha pre ?hub) = Token sha pre (eventID (wh_watchEpoch hub') (word_of_nat (length (hs_log s))))"
    using e seq by (simp add: newWatcher_def)
  show ?thesis
  proof (cases "cur = []")
    case True
    then have "missed = []" "k = length (hs_log s)"
      using assms(4,5) by (auto simp: WatchFrom_alt Token_def split: option.splits if_splits)
    then show ?thesis
      using that [of "SseSnapshot (wa_Cursor (newWatcher sha pre ?hub)) (listItems pre n)"] True e(2) c w by (simp add: watchOpening_def tailOut_def)
  next
    case False
    then have k: "wh_watchEpoch (hs_hub s) \<noteq> []" "k \<le> length (hs_log s)" "cur = Token sha pre (eventID (wh_watchEpoch (hs_hub s)) (word_of_nat k))"
      using assms(5) by auto
    then have "missed = filter (wanted pre) (drop k (hs_log s))"
      using assms(4) WatchFrom_Token [OF hist, of sha uuid pre "word_of_nat k"] seq(2) by (auto simp: unat_word_of_nat split: if_splits)
    then show ?thesis
      using that [of "SseReady (wa_Cursor (newWatcher sha pre ?hub))"] False e(2) c w by (simp add: watchOpening_def tailOut_def)
  qed
qed

lemma session_handled:
  assumes "connected c ce ''GET''" "headerSafe cur" "nd_hub (gwNode g) = hs_hub s" "ge_sha (ce_gw ce) = sha"
    and "clientWatchFrom c ce pre cur g = (g', Inr resp)" "rs_Body resp = StreamBody ws"
  obtains env r hub' i missed where "ge_sha env = sha" "headerGet r ''Last-Event-ID'' = cur" "handleWatch env r pre (countRequest g) = (g', resp)"
    "WatchFrom sha (nd_uuid (gwNode g)) pre cur (hs_hub s) = (hub', Inr (i, missed))" "nd_hub (gwNode g') = hub'"
    "ws_out ws = watchOpening sha pre cur (the (fmlookup (wh_objects hub') i)) missed (gwNode (countRequest g))"
proof -
  let ?env = "targetEnv ce (watchTarget pre)"
  obtain r where r: "headerGet r ''Last-Event-ID'' = cur" "clientWatchFrom c ce pre cur g =
      (case handleWatch ?env r pre (countRequest g) of (g', resp) \<Rightarrow> (g', if rs_Status resp \<ge> 300 then Inl (readError ce resp) else Inr resp))"
    using watch_served [OF assms(1,2)] by blast
  then have r2: "handleWatch ?env r pre (countRequest g) = (g', resp)"
    using assms(5) by (cases "handleWatch ?env r pre (countRequest g)") (simp split: if_splits)
  have "nd_hub (gwNode (countRequest g)) = hs_hub s" "nd_uuid (gwNode (countRequest g)) = nd_uuid (gwNode g)" "ge_sha ?env = sha"
    using assms(3,4) by (simp_all add: countRequest_def addCount_def)
  then show ?thesis
    using that [of ?env r] r(1) r2 assms(6) by (auto simp: handleWatch_def Let_def writeErr_def writeJSON_def split: prod.splits sum.splits)
qed

lemma session_reached:
  assumes "hub_run sha newSys s" "wh_watchSeq (hs_hub s) \<noteq> - 1" "epoch_ok (nd_uuid (gwNode g))" "nd_hub (gwNode g) = hs_hub s"
    and "ge_sha (ce_gw ce) = sha" "connected c ce ''GET''" "headerSafe cur" "clientWatchFrom c ce pre cur g = (g', Inr resp)" "rs_Body resp = StreamBody ws"
    and t: "(stream_step sha)\<^sup>*\<^sup>* \<lparr>ss_sys = s\<lparr>hs_hub := nd_hub (gwNode g')\<rparr>, ss_ws = ws\<rparr> t"
    and bytes: "list_all (carried J) (ws_out (ss_ws t))" "prefix received (sseBytes J (ws_out (ss_ws t)))" "scanEvents J stop received = (evs, err)"
    and cur: "cur = [] \<and> k = length (hs_log s)
      \<or> wh_watchEpoch (hs_hub s) \<noteq> [] \<and> k \<le> length (hs_log s) \<and> cur = Token sha pre (eventID (wh_watchEpoch (hs_hub s)) (word_of_nat k))"
  shows "hub_run sha s (ss_sys t)" "wh_watchEpoch (hs_hub (ss_sys t)) \<noteq> []"
    "evs \<noteq> [] \<or> cur \<noteq> [] \<Longrightarrow> reached sha pre (wh_watchEpoch (hs_hub (ss_sys t))) (hs_log (ss_sys t)) k (lastID cur evs) (kvEvents evs)"
proof -
  let ?n = "length (hs_log s)" and ?log = "hs_log (ss_sys t)" and ?e = "wh_watchEpoch (hs_hub s)" and ?e' = "wh_watchEpoch (hs_hub (ss_sys t))"
  have ok: "sys_ok s" using sys_ok_run [OF assms(1) newSys_ok] .
  obtain env r hub' i missed where w: "ge_sha env = sha" "headerGet r ''Last-Event-ID'' = cur" "handleWatch env r pre (countRequest g) = (g', resp)"
      "WatchFrom sha (nd_uuid (gwNode g)) pre cur (hs_hub s) = (hub', Inr (i, missed))" "nd_hub (gwNode g') = hub'"
      "ws_out ws = watchOpening sha pre cur (the (fmlookup (wh_objects hub') i)) missed (gwNode (countRequest g))"
    using session_handled [OF assms(6,7,4,5,8,9)] .
  note watch = watch_step [OF assms(3,2) w(4)]
  have later: "hub_run sha (s\<lparr>hs_hub := hub'\<rparr>) (ss_sys t)" using stream_hub_run [OF t] w(5) by simp
  show run: "hub_run sha s (ss_sys t)"
    using hub_run_trans [OF later hub_next [OF hub_refl watch]] .
  obtain mark where mark: "ws_out ws = map (\<lambda>ev. SseKV (Token sha pre (ev_ID ev)) ev) missed @ [mark]" "\<not> tailOut mark"
      "outID mark = Token sha pre (eventID (wh_watchEpoch hub') (word_of_nat ?n))" "missed = filter (wanted pre) (drop k (hs_log s))" "wh_watchEpoch hub' \<noteq> []"
    using session_opening [OF ok assms(3,2) w(4) cur, of "gwNode (countRequest g)"] unfolding w(6) .
  have epoch: "?e' = wh_watchEpoch hub'" using epoch_run [OF later] mark(5) by simp
  then show "?e' \<noteq> []" using mark(5) by simp
  obtain rest where rest: "ws_out (ss_ws t) = ws_out ws @ rest" "list_all tailOut rest"
    using stream_tail [OF t] by auto
  obtain more_log where log: "?log = hs_log s @ more_log" using hub_run_log [OF run] by auto
  have kn: "k \<le> ?n" "?n < 2 ^ 64" using cur ok by (auto simp: sys_ok_def history_ok_def)
  then have k: "k = unat (word_of_nat k :: u64)" by (simp add: unat_word_of_nat)
  obtain xs where xs: "sseEvents (ws_out (ss_ws t)) = sentEvents sha pre xs" "prefix xs (filter (wanted pre) (drop k ?log))"
  proof -
    have "epoch_ok (nd_uuid (gwNode (countRequest g)))" "nd_hub (gwNode (countRequest g)) = hs_hub s"
      using assms(3,4) by (simp_all add: countRequest_def addCount_def)
    moreover have "headerGet r ''Last-Event-ID'' = [] \<and> k = ?n \<or> ?e \<noteq> [] \<and> headerGet r ''Last-Event-ID'' = Token (ge_sha env) pre (eventID ?e (word_of_nat k))
        \<and> k = unat (word_of_nat k :: u64)"
      using cur k unfolding w(1,2) by blast
    ultimately show ?thesis
      using that watch_stream_gapless [OF assms(1) [folded w(1)] assms(2) _ _ w(3) assms(9) _ t [folded w(1)]] unfolding w(1) by blast
  qed
  define L where "L = filter (\<lambda>x. x \<noteq> SsePing) (ws_out (ss_ws t))"
  have L: "L = map (\<lambda>ev. SseKV (Token sha pre (ev_ID ev)) ev) missed @ mark # filter (\<lambda>x. x \<noteq> SsePing) rest"
    using mark(1,2) rest(1) by (auto simp: L_def filter_id_conv tailOut_def)
  obtain ps where ps: "prefix ps L" "evs = map eventOf ps"
    using scan_cut [OF bytes(1,2), of stop] bytes(3) by (auto simp: delivered_def L_def dest: prefix_map_rightE)
  show "reached sha pre ?e' ?log k (lastID cur evs) (kvEvents evs)" if given: "evs \<noteq> [] \<or> cur \<noteq> []"
    unfolding ps(2) events_of_outs epoch
  proof (rule stream_progress [OF _ L mark(2) _ mark(3) kn(1) _ _ _ xs(2) _ ps(1)])
    show "\<forall>i < length ?log. ev_ID (?log ! i) = eventID (wh_watchEpoch hub') (word_of_nat (Suc i))"
      using sys_ok_run [OF run ok] epoch by (simp add: sys_ok_def history_ok_def)
    show "list_all tailOut (filter (\<lambda>x. x \<noteq> SsePing) rest)" using rest(2) by (simp add: list_all_iff)
    show "?n \<le> length ?log" "missed = filter (wanted pre) (drop k (take ?n ?log))" using log mark(4) by simp_all
    show "sseEvents L = sentEvents sha pre xs" using xs(1) by (simp add: L_def sse_without_pings)
    show "cur = Token sha pre (eventID (wh_watchEpoch hub') (word_of_nat k))" if "ps = []"
      using that given ps(2) cur epoch_step [OF watch] by auto
  qed
qed

lemma client_run_ok: "client_run J c sha pre s cur base seen \<Longrightarrow> hub_run sha newSys s \<and> client_ok sha pre s cur base seen"
proof (induction rule: client_run.induct)
  case (begins s)
  then show ?case by (simp add: client_ok_def)
next
  case (elsewhere s cur base seen s')
  then show ?case
    using client_ok_later [OF _ hub_next [OF hub_refl elsewhere.hyps(2)]] by (auto intro: hub_next)
next
  case (session s cur base seen g ce g' resp ws t received stop evs err)
  let ?n = "length (hs_log s)" and ?e = "wh_watchEpoch (hs_hub s)"
  obtain k where k: "cur = [] \<and> k = ?n \<and> base = None \<and> seen = []
      \<or> ?e \<noteq> [] \<and> k \<le> ?n \<and> cur = Token sha pre (eventID ?e (word_of_nat k))
        \<and> (\<exists>k0. base = Some k0 \<and> k0 \<le> k \<and> seen = filter (wanted pre) (drop k0 (take k (hs_log s))))"
    using session.IH by (cases base) (auto simp: client_ok_def reached_def)
  then have cur: "cur = [] \<and> k = ?n \<or> ?e \<noteq> [] \<and> k \<le> ?n \<and> cur = Token sha pre (eventID ?e (word_of_nat k))" by auto
  note at = session_reached [OF conjunct1 [OF session.IH] session.hyps(2-13) cur]
  obtain more_log where log: "hs_log (ss_sys t) = hs_log s @ more_log" using hub_run_log [OF at(1)] by auto
  have "client_ok sha pre (ss_sys t) (lastID cur evs) (if cur = [] \<and> evs \<noteq> [] then Some ?n else base) (seen @ kvEvents evs)"
  proof (cases "cur = []")
    case True
    then have "k = ?n" "base = None" "seen = []" using k by (auto simp: Token_def)
    then show ?thesis
      using True at(2,3) log by (cases evs) (auto simp: client_ok_def lastID_def)
  next
    case False
    then obtain k0 where k0: "base = Some k0" "k0 \<le> k" "seen = filter (wanted pre) (drop k0 (take k (hs_log (ss_sys t))))" "k \<le> ?n"
      using k log by auto
    then show ?thesis
      using reached_trans [OF k0(2) _ at(3)] False at(2) log by (simp add: client_ok_def)
  qed
  then show ?case using hub_run_trans [OF at(1)] session.IH by blast
qed

lemma log_ids_distinct:
  assumes "sys_ok s"
  shows "distinct (map ev_ID (hs_log s))"
proof -
  let ?e = "wh_watchEpoch (hs_hub s)" and ?log = "hs_log s"
  have h: "length ?log < 2 ^ 64" "\<forall>i < length ?log. ev_ID (?log ! i) = eventID ?e (word_of_nat (Suc i))"
    using assms by (simp_all add: sys_ok_def history_ok_def)
  have "i = j" if "i < length ?log" "j < length ?log" "ev_ID (?log ! i) = ev_ID (?log ! j)" for i j
  proof -
    have "decimalNat (unat (word_of_nat (Suc i) :: u64)) = decimalNat (unat (word_of_nat (Suc j) :: u64))"
      using that h(2) by (simp add: eventID_def)
    then have "unat (word_of_nat (Suc i) :: u64) = unat (word_of_nat (Suc j) :: u64)"
      by (metis decimalNat_digits nat_int)
    moreover have "Suc i < 2 ^ 64" "Suc j < 2 ^ 64" using that h(1) by linarith+
    then have "unat (word_of_nat (Suc i) :: u64) = Suc i" "unat (word_of_nat (Suc j) :: u64) = Suc j"
      by (simp_all only: unat_word_of_nat len_of_numeral_defs take_bit_nat_eq_self)
    ultimately show ?thesis by simp
  qed
  then show ?thesis by (auto simp: distinct_conv_nth)
qed

text \<open>
  C24.  Watching through the client, across any number of connections, each broken at any byte or stopped by the caller anywhere, while the node goes on publishing
  and serving others: from the moment the client was given its baseline, the events it has been given are, in order, each once and none left out, exactly those on
  its prefix that the node published up to the position that its last identifier names.
\<close>

theorem client_watch_exactly_once:
  assumes "client_run J c sha pre s cur (Some k) seen"
  shows "\<exists>m. k \<le> m \<and> m \<le> length (hs_log s) \<and> cur = Token sha pre (eventID (wh_watchEpoch (hs_hub s)) (word_of_nat m))
     \<and> seen = filter (wanted pre) (drop k (take m (hs_log s))) \<and> distinct (map ev_ID seen)"
proof -
  have run: "hub_run sha newSys s" "client_ok sha pre s cur (Some k) seen" using client_run_ok [OF assms] by simp_all
  have "distinct (map ev_ID (filter (wanted pre) (drop k (take m (hs_log s)))))" for m
    using log_ids_distinct [OF sys_ok_run [OF run(1) newSys_ok]] by (intro distinct_map_filter) (simp add: drop_map [symmetric] take_map [symmetric])
  then show ?thesis using run(2) by (auto simp: client_ok_def reached_def)
qed

section \<open>An instance of a watching client\<close>

lemma session_whole:
  assumes "client_run J c sha pre s cur base seen" "wh_watchSeq (hs_hub s) \<noteq> - 1" "epoch_ok (nd_uuid (gwNode g))" "nd_hub (gwNode g) = hs_hub s"
    and "ge_sha (ce_gw ce) = sha" "connected c ce ''GET''" "headerSafe cur"
    and "WatchFrom sha (nd_uuid (gwNode g)) pre cur (hs_hub s) = (hub', Inr (i, missed))"
    and "outs = watchOpening sha pre cur (the (fmlookup (wh_objects hub') i)) missed (gwNode (countRequest g))" "list_all (carried J) outs" "SsePing \<notin> set outs"
  shows "client_run J c sha pre (s\<lparr>hs_hub := hub'\<rparr>) (outCursor cur outs) (if cur = '''' \<and> outs \<noteq> [] then Some (length (hs_log s)) else base) (seen @ outKV outs)"
proof -
  obtain r where r: "headerGet r ''Last-Event-ID'' = cur" "clientWatchFrom c ce pre cur g = (case handleWatch (targetEnv ce (watchTarget pre)) r pre (countRequest g) of
      (g', resp) \<Rightarrow> (g', if rs_Status resp \<ge> 300 then Inl (readError ce resp) else Inr resp))"
    using watch_served [OF assms(6,7)] by blast
  have h: "nd_hub (gwNode (countRequest g)) = hs_hub s" "nd_uuid (gwNode (countRequest g)) = nd_uuid (gwNode g)"
    using assms(4) by (simp_all add: countRequest_def addCount_def)
  obtain g' resp ws where w: "clientWatchFrom c ce pre cur g = (g', Inr resp)" "rs_Body resp = StreamBody ws" "nd_hub (gwNode g') = hub'" "ws_out ws = outs"
    unfolding r(2) by (simp add: handleWatch_def Let_def r(1) h assms(5,8,9))
  have "scanEvents J (\<lambda>_. False) (sseBytes J (ws_out ws)) = (map eventOf outs, Some (OtherError ''EOF''))"
    using scan_stream [OF assms(10), of 0] assms(11) w(4) by (simp add: scanEvents_def delivered_def) (metis (mono_tags, lifting) filter_True)
  from session [OF assms(1-7) w(1,2) rtranclp.rtrancl_refl _ _ this] show ?thesis
    using assms(10) w(3,4) by (simp add: events_of_outs)
qed

definition demo_next :: KVEvent where
  "demo_next = demo_event\<lparr>ev_ID := eventID ''u'' 3\<rparr>"

definition demo_sse :: sseJSON where
  "demo_sse = \<lparr>sj_items = (\<lambda>_. ''''), sj_event = (\<lambda>_. ''''), sj_cursor = (\<lambda>_. ''''), sj_count = (\<lambda>_. ''''), sj_reason = '''',
     sj_entries = (\<lambda>_. Some []), sj_kv = (\<lambda>_. Some demo_next), sj_events = (\<lambda>_. Some 0)\<rparr>"

definition demo_watching :: "watchHub \<Rightarrow> gateway" where
  "demo_watching hub = setNode (demo_gw_node\<lparr>nd_hub := hub\<rparr>) demo_gateway"

lemma demo_token: "Token (\<lambda>_. 0) ''k'' (eventID ''u'' n) = ''u:'' @ decimalNat (unat n) @ '':0000000000000000''"
proof -
  have "hexDigit 0 = CHR ''0''" by (simp add: hexDigit_def char_of_def bit_Suc_0_iff)
  then have "watchScope (\<lambda>_. 0) ''k'' = ''0000000000000000''"
    by (simp add: watchScope_def hexDigest_def map_replicate_const numeral_eq_Suc)
  then show ?thesis by (simp add: Token_def eventID_def)
qed

lemma demo_token_safe: "lineSafe (Token (\<lambda>_. 0) ''k'' (eventID ''u'' n))" "headerSafe (Token (\<lambda>_. 0) ''k'' (eventID ''u'' n))"
proof -
  have d: "c \<in> set (decimalNat (unat n)) \<Longrightarrow> 48 \<le> byte c \<and> byte c \<le> 57" for c
    using decimal_digits [of c "unat n"] by (simp add: isDigit_def)
  show "lineSafe (Token (\<lambda>_. 0) ''k'' (eventID ''u'' n))"
    using d [of "CHR 0x0A"] d [of "CHR 0x0D"] by (auto simp: demo_token lineSafe_def newline_def byte_def)
  have "validValue (decimalNat (unat n))" using decimal_valid [of "uint n"] by (simp add: decimalInt_def)
  then show "headerSafe (Token (\<lambda>_. 0) ''k'' (eventID ''u'' n))"
    by (simp add: demo_token headerSafe_def validValue_def trimValue_def blank_def byte_def)
qed

lemma demo_watching_fields: "nd_hub (gwNode (demo_watching hub)) = hub" "nd_uuid (gwNode (demo_watching hub)) = ''u''"
    "listItems ''k'' (gwNode (countRequest (demo_watching hub))) = []"
proof -
  have "fmentries (fmempty :: (string, kvEntry) fmap) = []" by (simp add: fmentries_def fmkeys_def)
  then show "listItems ''k'' (gwNode (countRequest (demo_watching hub))) = []"
    by (simp add: listItems_def Entries_def demo_watching_def demo_gw_node_def New_def SetOnMutate_def SetLimits_def SetOnChange_def NewKVStore_def)
qed (simp_all add: demo_watching_def demo_gw_node_def New_def)

definition demo_sub :: watchHub where
  "demo_sub = subscribed (newWatcher (\<lambda>_. 0) ''k'' (hs_hub demo_sys)) ''u'' (hs_hub demo_sys)"

abbreviation (input) demoCursor :: "u64 \<Rightarrow> string" where
  "demoCursor n \<equiv> Token (\<lambda>_. 0) ''k'' (eventID ''u'' n)"

lemma demo_ce_fields: "ge_sha (ce_gw demo_ce) = (\<lambda>_. 0)" "epoch_ok ''u''"
  by (simp_all add: demo_ce_def demo_env_def epoch_ok_def)

lemma demo_first_session: "client_run demo_sse demo_client (\<lambda>_. 0) ''k'' (demo_sys\<lparr>hs_hub := demo_sub\<rparr>) (demoCursor 2) (Some 2) []"
proof -
  let ?g = "demo_watching (hs_hub demo_sys)"
  have ep: "withEpoch ''u'' (hs_hub demo_sys) = hs_hub demo_sys" by (simp add: withEpoch_def demo_sys_hub)
  have seq: "wh_eventSeq (hs_hub demo_sys) = 2"
    using sys_ok_run [OF demo_sys_run [of "\<lambda>_. 0"] newSys_ok] by (simp add: sys_ok_def history_ok_def demo_sys_hub)
  have w: "WatchFrom (\<lambda>_. 0) ''u'' ''k'' '''' (hs_hub demo_sys) = (demo_sub, Inr (1, []))"
    by (simp add: WatchFrom_alt ep cursorSeq_def demo_sub_def demo_sys_hub)
  have look: "fmlookup (wh_objects demo_sub) 1 = Some (newWatcher (\<lambda>_. 0) ''k'' (hs_hub demo_sys))"
    by (simp add: demo_sub_def subscribed_lookup demo_sys_hub)
  define outs where "outs = watchOpening (\<lambda>_. 0) ''k'' '''' (the (fmlookup (wh_objects demo_sub) 1)) [] (gwNode (countRequest ?g))"
  have outs: "outs = [SseSnapshot (demoCursor 2) []]"
    by (simp add: outs_def watchOpening_def look newWatcher_def demo_sys_hub seq demo_watching_fields)
  have "client_run demo_sse demo_client (\<lambda>_. 0) ''k'' demo_sys '''' None []"
    by (rule begins [OF demo_sys_run])
  from session_whole [OF this _ _ _ demo_ce_fields(1) demo_connected, of ?g, unfolded demo_watching_fields, OF _ demo_ce_fields(2) refl _ w outs_def]
  have "client_run demo_sse demo_client (\<lambda>_. 0) ''k'' (demo_sys\<lparr>hs_hub := demo_sub\<rparr>) (outCursor '''' outs) (if outs \<noteq> [] then Some (length (hs_log demo_sys)) else None) (outKV outs)"
    using demo_token_safe(1) by (simp add: outs demo_sys_hub headerSafe_def validValue_def trimValue_def demo_sse_def lineSafe_def [of "''''"])
  then show ?thesis
    by (simp add: outs demo_sys_hub outCursor_def Token_not_empty)
qed

theorem client_watch_exactly_once_witness:
  "\<exists>s m. client_run demo_sse demo_client (\<lambda>_. 0) ''k'' s (demoCursor 3) (Some 2) [demo_next] \<and> 2 \<le> m
     \<and> filter (wanted ''k'') (drop 2 (take m (hs_log s))) = [demo_next]"
proof -
  let ?sha = "\<lambda>_ :: string. 0 :: 256 word"
  define s where "s = demo_sys\<lparr>hs_hub := publishMutations ''u'' [demo_event] demo_sub, hs_log := hs_log demo_sys @ [demo_next]\<rparr>"
  have "hub_step ?sha (demo_sys\<lparr>hs_hub := demo_sub\<rparr>) s"
    using publish_step [of "''u''" "demo_sys\<lparr>hs_hub := demo_sub\<rparr>" "[demo_event]" ?sha]
    by (simp add: s_def demo_ce_fields demo_sys_hub demo_sub_def withEpoch_def subscribed_def Let_def demo_next_def)
  then have run: "client_run demo_sse demo_client ?sha ''k'' s (demoCursor 2) (Some 2) []"
    by (rule elsewhere [OF demo_first_session])
  have hist: "history_ok (hs_hub s) (hs_log s)"
    using sys_ok_run [OF conjunct1 [OF client_run_ok [OF run]] newSys_ok] by (simp add: sys_ok_def)
  have hub: "wh_watchEpoch (hs_hub s) = ''u''" "wh_watchSeq (hs_hub s) = 1" "wh_watchHistory (hs_hub s) \<noteq> []" "length (hs_log s) = 3"
    by (simp_all add: s_def demo_sub_def subscribed_def demo_sys_def publishMutations_def publishOne_def offerAll_def withEpoch_def newHub_def Let_def
        demo_event_def eventSize_def watchHistoryLimit_def watchHistoryBytes_def)
  have "filter (wanted ''k'') (drop 2 (hs_log s)) = [demo_next]"
    by (simp add: s_def demo_sys_def demo_next_def demo_event_def demo_update_def wanted_def)
  moreover have "length (hs_log s) - length (wh_watchHistory (hs_hub s)) \<le> 2" using hub(3,4) by (cases "wh_watchHistory (hs_hub s)") simp_all
  ultimately have w: "WatchFrom ?sha ''u'' ''k'' (demoCursor 2) (hs_hub s) = (subscribed (newWatcher ?sha ''k'' (hs_hub s)) ''u'' (hs_hub s), Inr (2, [demo_next]))"
    using WatchFrom_Token [OF hist, of ?sha "''u''" "''k''" 2] hub by simp
  let ?hub = "subscribed (newWatcher ?sha ''k'' (hs_hub s)) ''u'' (hs_hub s)"
  define outs where "outs = watchOpening ?sha ''k'' (demoCursor 2) (the (fmlookup (wh_objects ?hub) 2)) [demo_next] (gwNode (countRequest (demo_watching (hs_hub s))))"
  have "wh_eventSeq (hs_hub s) = 3" using hist hub(4) by (simp add: history_ok_def)
  then have outs: "outs = [SseKV (demoCursor 3) demo_next, SseReady (demoCursor 3)]"
    by (simp add: outs_def watchOpening_def subscribed_lookup hub newWatcher_def demo_next_def Token_not_empty)
  have safe: "list_all (carried demo_sse) outs"
    using demo_token_safe(1) by (simp add: outs demo_sse_def lineSafe_def [of "[]"])
  have "client_run demo_sse demo_client ?sha ''k'' (s\<lparr>hs_hub := ?hub\<rparr>) (outCursor (demoCursor 2) outs)
      (if demoCursor 2 = [] \<and> outs \<noteq> [] then Some (length (hs_log s)) else Some 2) ([] @ outKV outs)"
    by (rule session_whole [OF run _ _ _ demo_ce_fields(1) demo_connected demo_token_safe(2), of "demo_watching (hs_hub s)", unfolded demo_watching_fields,
          OF _ demo_ce_fields(2) refl w outs_def safe]) (simp_all add: hub outs)
  then have fin: "client_run demo_sse demo_client ?sha ''k'' (s\<lparr>hs_hub := ?hub\<rparr>) (demoCursor 3) (Some 2) [demo_next]"
    by (simp add: outs outCursor_def Token_not_empty)
  from client_watch_exactly_once [OF this] fin show ?thesis by metis
qed

end
