(* ===== verification/Spec2Isabelle.thy ===== *)
theory Spec2Isabelle
  imports Network EngineEffects Bootstrap Mdns ClientWatch
begin

text \<open>
  Verification of rezoagwe (\<open>src/\<close>), a leaderless replicated key-value store with chat and peer discovery, written in Go.

  \<^bold>\<open>The program.\<close>  Every node holds the whole store (\<open>pkg/discovery/model/kvstore.go\<close>): entries carry a
  Lamport version, the newer version wins, deletions and expiries leave tombstones.  A node's model (\<open>model.go\<close>) adds
  the peer table, nicknames and identities, the chat log and its own broadcast counter, all saved to a state file with an
  optional journal (\<open>persist.go\<close>, \<open>journal.go\<close>).  The engine (\<open>pkg/discovery/node\<close>) receives authenticated
  frames (\<open>pkg/proto/codec.go\<close>) of a few kinds of message (\<open>wire.go\<close>), merges updates, gossips peers and
  digests, repairs divergence both ways (\<open>antientropy.go\<close>), numbers and repairs chat lines (\<open>chatseq.go\<close>),
  answers snapshots and fingerprints, and publishes every mutation to watchers (\<open>watch.go\<close>).

  \<^bold>\<open>The theories\<close>, in dependency order, with the code they translate.
  \<^item> \<open>Prelude\<close>: shared types (64-bit words, nanoseconds, Unix seconds), finite-map listings in key order (Go's
    maps are visited in any order; where order shows, the code sorts), bounded rings, the named collections.
  \<^item> \<open>Utf8\<close>, \<open>Wire\<close>: \<open>utf8.DecodeRune\<close> and \<open>ValidString\<close>, the escaped length of a string in JSON, message
    bodies, versions with their total order (an instance of \<open>linorder\<close>), size limits.
  \<^item> \<open>KVStore\<close>: the store as a record, one definition per operation, with the callbacks it fires as an \<open>effects\<close>
    value; its invariant over all reachable stores, what every write, guarded write and remote update does, limits,
    transparency of expiry and collection.
  \<^item> \<open>Replication\<close>, \<open>Cluster\<close>: the last-write-wins specification; the locale \<open>replica\<close> states what a store owes
    it and is interpreted on \<open>KVStore\<close>; a cluster of stores with loss, duplication, reordering, sweeps and restarts
    converges.
  \<^item> \<open>AntiEntropy\<close>: digests, cursors, budgets, reconciliation, repair batches; what a digest calls for is sent in key order
    up to the budgets, and a quiet pair of unlimited stores with room in the push budget agrees after one sweep of the cursor.
  \<^item> \<open>Codec\<close>: frames, the replay cache; round trip, no replay, what each refusal means, and that refused frames leave no trace.
  \<^item> \<open>ChatSeq\<close>: the gap tracker; at most once, bounds, exact gaps, pulls that end, the loop that may not.
  \<^item> \<open>Fingerprints\<close>: bucket digests and listings.
  \<^item> \<open>Journal\<close>, \<open>PeerModel\<close>, \<open>Lifecycle\<close>: a file system in which any call can fail and the process can die
    anywhere; saving, loading, journal and compaction (locale \<open>delta_log\<close>): what was saved is what a restart loads, and a save
    that fails loses nothing saved before; the model; starting, flushing, closing.
  \<^item> \<open>Watch\<close>: subscriptions, cursors, replay, bounded queues.
  \<^item> \<open>NodeEngine\<close>: the node as a record, every handler, tick and API call as a function on it.
  \<^item> \<open>EngineInvariants\<close>: the locale \<open>engine_frame\<close> (what a property of a node must survive), extended by \<open>engine\<close>
    with the operations of the store; interpreted on the soundness of a node and, in \<open>Network\<close>, on the store and wire.
  \<^item> \<open>Network\<close>: a network of engines, with imports, repairs, restores and restarts, refines the cluster of stores, hence converges.
  \<^item> \<open>EngineEffects\<close>: counting, local writes, and behaviours recorded as findings.
  \<^item> \<open>Consistency\<close>, \<open>Repair\<close>, \<open>Snapshots\<close>: comparing the store with every peer and naming the differing keys
    (\<open>consistency.go\<close>), repair plans, their pages and their application, restoring a backup (\<open>repair.go\<close>,
    \<open>restore.go\<close>), writing and pruning snapshot files (\<open>snapshot.go\<close>): a report names what differs, a repair
    answers every key and wins over every clock it saw, a restore reads as the backup, pruning keeps the newest.
  \<^item> \<open>Topology\<close>: the graph of the cluster from the gossiped views (\<open>topology.go\<close>): exact links, degrees and components.
  \<^item> \<open>Bootstrap\<close>: the rendezvous service's roster, file and handlers (\<open>pkg/bootstrap\<close>): registered nodes stay
    discoverable through restarts, stale ones are dropped.
  \<^item> \<open>Dns\<close>, \<open>Mdns\<close>: the DNS messages of LAN discovery (\<open>dns.go\<close>): what is encoded decodes, and decoding any bytes ends within
    their bounds; the responder, browsing and joining (\<open>mdns.go\<close>, \<open>mdnsjoin.go\<close>): two nodes find each other, and only usable peers are adopted.
  \<^item> \<open>Diagnostics\<close>: every health rule and its verdict (\<open>diagnostics.go\<close>, \<open>diagnose.go\<close>).
  \<^item> \<open>Commands\<close>: the input line and its slash commands (\<open>Submit\<close> of \<open>chat.go\<close>), which keep the soundness of a node.
  \<^item> \<open>Gateway\<close>, \<open>GatewayReads\<close>: the HTTP gateway (\<open>httpapi.go\<close>), every layer and handler: who may do what, a PUT tells the truth,
    a durable one survives a kill, entity tags guard writes, pages cover a listing, an event stream has no silent gap.
  \<^item> \<open>Client\<close>, \<open>ClientWatch\<close>: the HTTP client (\<open>pkg/client\<close>) against that gateway: every key of any bytes arrives at its handler,
    a version read guards a later write, and a watch that reconnects delivers every event once.

  \<^bold>\<open>Conventions.\<close>  A Go string is a list of characters (bytes); \<open>uint64\<close> is a 64-bit word, so counters wrap where the
  code's do; \<open>int\<close> lengths and times are mathematical.  Errors are values of a datatype or \<open>option\<close>; a loop that may
  not end (\<open>Announce\<close>) is \<open>None\<close>.  Locks make each operation atomic in the code, so it is one function here;
  goroutines are the interleaving of steps (\<open>engine_step\<close>, \<open>net_step\<close>, \<open>flush_step\<close>, \<open>hub_step\<close>).  HMAC,
  SHA-256, JSON, random numbers, UUIDs, Unicode case folding and the operating system are parameters or nondeterministic.

  \<^bold>\<open>Messages.\<close>  A handler appends what it sends to \<open>nd_outbox\<close>.  The code sends a frame as a datagram or, if it is
  too large, on a stream; both reach \<open>dispatch\<close> (or \<open>serveStream\<close>), so the difference is not modelled.  In \<open>Network\<close> a
  frame may be any bytes, as long as the updates it carries, once authenticated, are in a message some node has sent.

  \<^bold>\<open>Bounds.\<close>  The histories of \<open>Watch\<close> have fewer than \<open>2 ^ 64\<close> events and watchers, so identifiers do not
  repeat.  The cluster and network theorems are about stores without limits, sweeps that collect no tombstone and restarts
  that lose nothing the node held: the code documents limits and collection as able to split replicas
  (\<open>collection_splits_replicas\<close> shows the latter), and a node that lost writes it had sent can issue their versions again
  (\<open>lossy_restart_reuses_version\<close>).
  Merging imports are of exports of the same network; seeding imports are of anything.  The histories of the state file
  (\<open>live\<close>) have I/O errors and kills anywhere; a process goes on after a failed save only if that save had completed its
  record or left the files as they were, and is restarted otherwise, because after the other failures the code can
  acknowledge a save it does not keep (\<open>torn_append_glued\<close>, \<open>uncounted_record\<close>).  Chat lines are shown once as long as
  no sequence number is \<open>2 ^ 64 - 1\<close> (\<open>wrapped_seed_shows_again\<close>).  No definition uses fuel.

  \<^bold>\<open>Not modelled.\<close>  Sockets, deadlines and goroutines (\<open>pkg/transport\<close>), which the network model replaces by arbitrary loss, repetition and
  reordering; the terminal UI and the programs under \<open>cmd\<close>, which call what is modelled and format it; the timing
  histograms, the Prometheus text, the layout coordinates of the topology view and the wording of reports; the profiles file; resolving host
  names (\<open>reflexive.go\<close>).  They hold no state that the modelled operations depend on.
\<close>

end
